(* ===== verification/Prelude.thy ===== *)
theory Prelude
  imports Main "HOL-Library.Word" "HOL-Library.Monad_Syntax"
begin

section \<open>Shared vocabulary of the development\<close>

text \<open>
  What every component theory uses: the C integer ranges and conversions, C memory as a list
  of cells with bounds-checked reads and writes (\<open>None\<close> is an access outside the block), the
  little-endian layout of fixed-width integers, and the generic list lemmas about equal-sized
  chunks on which the compact encodings rest.  The collection \<open>mem_simps\<close> holds the rewrite
  rules for memory blocks; \<open>crange_simps\<close> unfolds the C integer ranges.
\<close>

named_theorems mem_simps \<open>rewrite rules for bounds-checked memory blocks\<close>
named_theorems crange_simps \<open>definitions of the C integer ranges\<close>

type_synonym byte = "8 word"

subsection \<open>C integer ranges and conversions (LP64)\<close>

text \<open>Values of C integers are kept as \<open>int\<close>; a conversion that can change the value is written
  out with the functions below.  \<open>sN\<close> is the conversion to a signed, \<open>uN\<close> to an unsigned
  integer type.\<close>

definition in_sint :: "nat \<Rightarrow> int \<Rightarrow> bool" where
  "in_sint bits v \<longleftrightarrow> - (2 ^ (bits - 1)) \<le> v \<and> v < 2 ^ (bits - 1)"

definition to_unsigned :: "nat \<Rightarrow> int \<Rightarrow> int" where
  "to_unsigned bits v = v mod 2 ^ bits"

definition to_signed :: "nat \<Rightarrow> int \<Rightarrow> int" where
  "to_signed bits v =
     (let u = v mod 2 ^ bits in if u < 2 ^ (bits - 1) then u else u - 2 ^ bits)"

definition INT16_MIN :: int where [crange_simps]: "INT16_MIN = - 32768"
definition INT16_MAX :: int where [crange_simps]: "INT16_MAX = 32767"
definition INT32_MIN :: int where [crange_simps]: "INT32_MIN = - 2147483648"
definition INT32_MAX :: int where [crange_simps]: "INT32_MAX = 2147483647"
definition LLONG_MIN :: int where [crange_simps]: "LLONG_MIN = - 9223372036854775808"
definition LLONG_MAX :: int where [crange_simps]: "LLONG_MAX = 9223372036854775807"
definition ULLONG_MAX :: int where [crange_simps]: "ULLONG_MAX = 18446744073709551615"

definition is_llong :: "int \<Rightarrow> bool" where
  [crange_simps]: "is_llong v \<longleftrightarrow> LLONG_MIN \<le> v \<and> v \<le> LLONG_MAX"

lemma to_signed_id: "in_sint bits v \<Longrightarrow> 0 < bits \<Longrightarrow> to_signed bits v = v"
proof -
  assume r: "in_sint bits v" and b: "0 < bits"
  then obtain n where n: "bits = Suc n" by (cases bits) auto
  show ?thesis
  proof (cases "0 \<le> v")
    case True
    with r n have "v mod 2 ^ bits = v" by (simp add: in_sint_def)
    with True r n show ?thesis by (simp add: to_signed_def in_sint_def Let_def)
  next
    case False
    with r n have "(v + 2 ^ bits) mod 2 ^ bits = v + 2 ^ bits"
      by (intro mod_pos_pos_trivial) (auto simp: in_sint_def)
    then have "v mod 2 ^ bits = v + 2 ^ bits" by simp
    with False r n show ?thesis by (simp add: to_signed_def in_sint_def Let_def)
  qed
qed

lemma to_signed_64_id: "is_llong v \<Longrightarrow> to_signed 64 v = v"
  by (rule to_signed_id) (auto simp: in_sint_def crange_simps)

subsection \<open>Memory blocks\<close>

text \<open>A block returned by the allocator is the list of its cells.  An access outside the block
  is undefined behaviour in C; here it is \<open>None\<close>, so a theorem that an operation returns
  \<open>Some\<close> states its memory safety.  The allocator (\<^verbatim>\<open>zmalloc.c\<close>) aborts the process when memory
  runs out, so allocation never fails in the model.\<close>

definition mem_get :: "'a list \<Rightarrow> nat \<Rightarrow> 'a option" where
  "mem_get m i = (if i < length m then Some (m ! i) else None)"

definition mem_set :: "'a list \<Rightarrow> nat \<Rightarrow> 'a \<Rightarrow> 'a list option" where
  "mem_set m i v = (if i < length m then Some (m[i := v]) else None)"

definition mem_read :: "'a list \<Rightarrow> nat \<Rightarrow> nat \<Rightarrow> 'a list option" where
  "mem_read m off n = (if off + n \<le> length m then Some (take n (drop off m)) else None)"

definition mem_write :: "'a list \<Rightarrow> nat \<Rightarrow> 'a list \<Rightarrow> 'a list option" where
  "mem_write m off bs =
     (if off + length bs \<le> length m
      then Some (take off m @ bs @ drop (off + length bs) m) else None)"

text \<open>\<open>memmove(m+dst, m+src, n)\<close>: the source is read whole before it is written.\<close>

definition mem_move :: "'a list \<Rightarrow> nat \<Rightarrow> nat \<Rightarrow> nat \<Rightarrow> 'a list option" where
  "mem_move m dst src n = do { bs \<leftarrow> mem_read m src n; mem_write m dst bs }"

text \<open>\<open>zrealloc\<close>: the common prefix is kept; the content of added cells is indeterminate in C and
  is the filler \<open>c\<close> here.\<close>

definition mem_realloc :: "'a \<Rightarrow> 'a list \<Rightarrow> nat \<Rightarrow> 'a list" where
  "mem_realloc c m n = take n m @ replicate (n - length m) c"

lemma length_mem_realloc [simp]: "length (mem_realloc c m n) = n"
  by (simp add: mem_realloc_def)

lemma mem_realloc_same [simp]: "n = length m \<Longrightarrow> mem_realloc c m n = m"
  by (simp add: mem_realloc_def)

lemma take_mem_realloc [simp]: "n \<le> length m \<Longrightarrow> n \<le> k \<Longrightarrow> take n (mem_realloc c m k) = take n m"
  by (simp add: mem_realloc_def)

lemma mem_get_Some [mem_simps]: "i < length m \<Longrightarrow> mem_get m i = Some (m ! i)"
  by (simp add: mem_get_def)

lemma mem_set_Some [mem_simps]: "i < length m \<Longrightarrow> mem_set m i v = Some (m[i := v])"
  by (simp add: mem_set_def)

lemma mem_read_Some [mem_simps]:
  "off + n \<le> length m \<Longrightarrow> mem_read m off n = Some (take n (drop off m))"
  by (simp add: mem_read_def)

lemma mem_write_Some [mem_simps]:
  "off + length bs \<le> length m \<Longrightarrow>
   mem_write m off bs = Some (take off m @ bs @ drop (off + length bs) m)"
  by (simp add: mem_write_def)

lemma mem_write_length: "mem_write m off bs = Some m' \<Longrightarrow> length m' = length m"
  by (auto simp: mem_write_def split: if_splits)

lemma mem_move_Some [mem_simps]:
  "src + n \<le> length m \<Longrightarrow> dst + n \<le> length m \<Longrightarrow>
   mem_move m dst src n =
     Some (take dst m @ take n (drop src m) @ drop (dst + n) m)"
  by (simp add: mem_move_def mem_read_def mem_write_def)

subsection \<open>Running a list of operations\<close>

fun run_option :: "('s \<Rightarrow> 'a \<Rightarrow> 's option) \<Rightarrow> 's \<Rightarrow> 'a list \<Rightarrow> 's option" where
  "run_option f s [] = Some s"
| "run_option f s (a # as) = do { s' \<leftarrow> f s a; run_option f s' as }"

lemma run_option_append:
  "run_option f s (as @ bs) = do { s' \<leftarrow> run_option f s as; run_option f s' bs }"
  by (induction as arbitrary: s) (auto simp: Option.bind_assoc)

subsection \<open>Equal-sized chunks\<close>

definition chunks_of :: "nat \<Rightarrow> 'a list list \<Rightarrow> bool" where
  "chunks_of k cs \<longleftrightarrow> (\<forall>c \<in> set cs. length c = k)"

lemma chunks_of_simps [simp]:
  "chunks_of k []" "chunks_of k (c # cs) \<longleftrightarrow> length c = k \<and> chunks_of k cs"
  "chunks_of k (as @ bs) \<longleftrightarrow> chunks_of k as \<and> chunks_of k bs"
  by (auto simp: chunks_of_def)

lemma chunks_of_map [simp]: "(\<And>x. length (f x) = k) \<Longrightarrow> chunks_of k (map f xs)"
  by (simp add: chunks_of_def)

lemma chunks_of_take: "chunks_of k cs \<Longrightarrow> chunks_of k (take n cs)"
  by (auto simp: chunks_of_def dest: in_set_takeD)

lemma chunks_of_drop: "chunks_of k cs \<Longrightarrow> chunks_of k (drop n cs)"
  by (auto simp: chunks_of_def dest: in_set_dropD)

lemma length_concat_chunks: "chunks_of k cs \<Longrightarrow> length (concat cs) = length cs * k"
  by (induction cs) auto

lemma take_concat_chunks: "chunks_of k cs \<Longrightarrow> take (i * k) (concat cs) = concat (take i cs)"
proof (induction cs arbitrary: i)
  case (Cons c cs)
  then show ?case by (cases i) auto
qed simp

lemma drop_concat_chunks: "chunks_of k cs \<Longrightarrow> drop (i * k) (concat cs) = concat (drop i cs)"
proof (induction cs arbitrary: i)
  case (Cons c cs)
  then show ?case by (cases i) auto
qed simp

lemma mem_read_chunk:
  assumes "chunks_of k cs" and "i < length cs"
  shows "mem_read (concat cs) (i * k) k = Some (cs ! i)"
proof -
  have "Suc i * k \<le> length cs * k" using assms(2) by (intro mult_le_mono) auto
  then have b: "i * k + k \<le> length (concat cs)"
    using assms(1) by (simp add: length_concat_chunks add.commute)
  have "take k (concat (drop i cs)) = cs ! i"
    using assms by (auto simp: Cons_nth_drop_Suc [symmetric] chunks_of_def)
  with b assms(1) show ?thesis by (simp add: mem_simps drop_concat_chunks)
qed

lemma mem_write_chunk:
  assumes "chunks_of k cs" and "i < length cs" and "length c = k"
  shows "mem_write (concat cs) (i * k) c = Some (concat (cs[i := c]))"
proof -
  have "Suc i * k \<le> length cs * k" using assms(2) by (intro mult_le_mono) auto
  then have b: "i * k + length c \<le> length (concat cs)"
    using assms(1,3) by (simp add: length_concat_chunks add.commute)
  have d: "i * k + length c = Suc i * k" using assms(3) by simp
  from b have "mem_write (concat cs) (i * k) c =
      Some (take (i * k) (concat cs) @ c @ drop (Suc i * k) (concat cs))"
    by (simp only: mem_write_Some d)
  then show ?thesis
    using assms
    by (simp add: take_concat_chunks drop_concat_chunks upd_conv_take_nth_drop del: mult_Suc)
qed

lemma mem_move_chunks:
  assumes "chunks_of k cs" and "s + n \<le> length cs" and "d + n \<le> length cs"
  shows "mem_move (concat cs) (d * k) (s * k) (n * k) =
    Some (concat (take d cs @ take n (drop s cs) @ drop (d + n) cs))"
proof -
  have "(s + n) * k \<le> length cs * k" "(d + n) * k \<le> length cs * k"
    using assms(2,3) by (auto intro: mult_le_mono1)
  then have "s * k + n * k \<le> length (concat cs)" "d * k + n * k \<le> length (concat cs)"
    using assms(1) by (auto simp: length_concat_chunks distrib_right)
  then have "mem_move (concat cs) (d * k) (s * k) (n * k) =
      Some (take (d * k) (concat cs) @ take (n * k) (drop (s * k) (concat cs)) @
            drop ((d + n) * k) (concat cs))"
    by (simp add: mem_move_Some distrib_right)
  then show ?thesis
    using assms(1) by (simp add: take_concat_chunks drop_concat_chunks chunks_of_drop)
qed

lemma mem_realloc_chunks:
  assumes "chunks_of k cs"
  shows "mem_realloc c (concat cs) (Suc (length cs) * k) = concat (cs @ [replicate k c])"
    and "n \<le> length cs \<Longrightarrow> mem_realloc c (concat cs) (n * k) = concat (take n cs)"
  using assms mult_le_mono1 [of n "length cs" k]
  by (auto simp: mem_realloc_def length_concat_chunks take_concat_chunks)

subsection \<open>Little-endian integers\<close>

text \<open>Redis keeps the integers of its compact encodings little-endian in memory on every machine
  (\<^verbatim>\<open>memrev16ifbe\<close> and its kin reverse the bytes on big-endian hosts), so the layout below is the
  one in memory.\<close>

fun le_bytes :: "nat \<Rightarrow> int \<Rightarrow> byte list" where
  "le_bytes 0 v = []"
| "le_bytes (Suc k) v = word_of_int v # le_bytes k (v div 256)"

fun le_uint :: "byte list \<Rightarrow> int" where
  "le_uint [] = 0"
| "le_uint (b # bs) = uint b + 256 * le_uint bs"

definition le_sint :: "byte list \<Rightarrow> int" where
  "le_sint bs = to_signed (8 * length bs) (le_uint bs)"

lemma length_le_bytes [simp]: "length (le_bytes k v) = k"
  by (induction k arbitrary: v) auto

lemma le_uint_le_bytes: "le_uint (le_bytes k v) = v mod 256 ^ k"
proof (induction k arbitrary: v)
  case (Suc k)
  have "uint (word_of_int v :: byte) = v mod 256" by (simp add: uint_word_of_int)
  with Suc show ?case by (simp add: zmod_zmult2_eq)
qed simp

lemma le_sint_le_bytes: "in_sint (8 * k) v \<Longrightarrow> 0 < k \<Longrightarrow> le_sint (le_bytes k v) = v"
proof -
  assume r: "in_sint (8 * k) v" and k: "0 < k"
  have e: "(256 :: int) ^ k = 2 ^ (8 * k)" by (simp add: power_mult)
  have "to_signed (8 * k) (v mod 2 ^ (8 * k)) = to_signed (8 * k) v"
    by (simp add: to_signed_def)
  with r k e show ?thesis
    by (simp add: le_sint_def le_uint_le_bytes to_signed_id)
qed

end
