(* ===== verification/CLib.thy ===== *)
theory CLib
  imports Prelude
begin

section \<open>The C library functions the sources use\<close>

text \<open>
  Strings are \<open>char\<close> lists without their terminating NUL; \<open>cstr\<close> is the block in memory, with
  the NUL.  The character classes are those of the C locale.  \<open>schar\<close> is the value of a C
  \<^verbatim>\<open>char\<close>, which is signed on the platforms Redis supports.
\<close>

abbreviation NUL :: char where "NUL \<equiv> CHR 0x00"

definition cstr :: "string \<Rightarrow> string" where
  "cstr s = s @ [NUL]"

lemma length_cstr [simp]: "length (cstr s) = Suc (length s)"
  by (simp add: cstr_def)

lemma mem_get_cstr: "i \<le> length s \<Longrightarrow>
  mem_get (cstr s) i = Some (if i < length s then s ! i else NUL)"
  by (auto simp: mem_get_def cstr_def nth_append)

definition schar :: "char \<Rightarrow> int" where
  "schar c = to_signed 8 (int (of_char c))"

definition tolower_int :: "int \<Rightarrow> int" where
  "tolower_int i = (if 65 \<le> i \<and> i \<le> 90 then i + 32 else i)"

definition tolower :: "char \<Rightarrow> char" where
  "tolower c = (if 65 \<le> (of_char c :: nat) \<and> of_char c \<le> (90 :: nat)
                then char_of ((of_char c :: nat) + 32) else c)"

definition toupper :: "char \<Rightarrow> char" where
  "toupper c = (if 97 \<le> (of_char c :: nat) \<and> of_char c \<le> (122 :: nat)
                then char_of ((of_char c :: nat) - 32) else c)"

definition isdigit :: "char \<Rightarrow> bool" where
  "isdigit c \<longleftrightarrow> 48 \<le> (of_char c :: nat) \<and> of_char c \<le> (57 :: nat)"

definition isspace :: "char \<Rightarrow> bool" where
  "isspace c \<longleftrightarrow> of_char c = (32 :: nat) \<or> 9 \<le> (of_char c :: nat) \<and> of_char c \<le> (13 :: nat)"

definition isprint :: "char \<Rightarrow> bool" where
  "isprint c \<longleftrightarrow> 32 \<le> (of_char c :: nat) \<and> of_char c \<le> (126 :: nat)"

text \<open>The text that the C library sees of a byte string, and \<open>strcasecmp(a,b) == 0\<close>.\<close>

definition c_string :: "string \<Rightarrow> string" where
  "c_string s = takeWhile (\<lambda>c. c \<noteq> NUL) s"

definition caseeq :: "string \<Rightarrow> string \<Rightarrow> bool" where
  "caseeq a b \<longleftrightarrow> map tolower a = map tolower b"

definition strcaseeq :: "string \<Rightarrow> string \<Rightarrow> bool" where
  "strcaseeq a b \<longleftrightarrow> caseeq (c_string a) (c_string b)"

lemmas strcaseeq_defs = strcaseeq_def caseeq_def c_string_def

text \<open>The digit of a value, and the value of a digit.\<close>

definition digit_char :: "int \<Rightarrow> char" where
  "digit_char d = char_of (nat (48 + d))"

definition digit_val :: "char \<Rightarrow> int" where
  "digit_val c = int (of_char c) - 48"

lemma digit_char_0 [simp]: "digit_char 0 = CHR ''0''"
  by (simp add: digit_char_def char_of_def bit_simps)

lemma isdigit_digit_char [simp]: "0 \<le> d \<Longrightarrow> d < 10 \<Longrightarrow> isdigit (digit_char d)"
  by (simp add: isdigit_def digit_char_def nat_add_distrib)

lemma digit_val_digit_char [simp]: "0 \<le> d \<Longrightarrow> d < 10 \<Longrightarrow> digit_val (digit_char d) = d"
  by (simp add: digit_val_def digit_char_def nat_mod_as_int nat_add_distrib)

lemma isdigit_digit_val: "isdigit c \<Longrightarrow> 0 \<le> digit_val c \<and> digit_val c < 10"
proof -
  assume "isdigit c"
  then have "int 48 \<le> int (of_char c)" "int (of_char c) \<le> int 57"
    unfolding isdigit_def by presburger+
  then show ?thesis by (simp add: digit_val_def)
qed

lemma digit_char_digit_val [simp]: "isdigit c \<Longrightarrow> digit_char (digit_val c) = c"
proof -
  assume "isdigit c"
  then have "48 + digit_val c = int (of_char c)" by (simp add: digit_val_def)
  then show ?thesis by (simp add: digit_char_def)
qed

text \<open>\<open>strtoll(s,NULL,10)\<close>: leading white space and a sign, then the digits, saturating.\<close>

definition decimal_value :: "string \<Rightarrow> int" where
  "decimal_value ds = foldl (\<lambda>v c. v * 10 + digit_val c) 0 ds"

definition strtoll :: "string \<Rightarrow> int" where
  "strtoll s =
     (let t = dropWhile isspace s;
          neg = (t \<noteq> [] \<and> hd t = CHR ''-'');
          u = (if t \<noteq> [] \<and> (hd t = CHR ''-'' \<or> hd t = CHR ''+'') then tl t else t);
          v = decimal_value (takeWhile isdigit u)
      in if neg then max LLONG_MIN (- v) else min LLONG_MAX v)"

text \<open>\<open>memcmp\<close> compares bytes as unsigned values; the model returns the sign of the first
  difference.\<close>

fun memcmp :: "string \<Rightarrow> string \<Rightarrow> int" where
  "memcmp (a # as) (b # bs) =
     (if a = b then memcmp as bs
      else if (of_char a :: nat) < of_char b then - 1 else 1)"
| "memcmp _ _ = 0"

lemma memcmp_eq_0: "length a = length b \<Longrightarrow> memcmp a b = 0 \<longleftrightarrow> a = b"
  by (induction a b rule: memcmp.induct) auto

end
