(* ===== verification/Util.thy ===== *)
theory Util
  imports CLib
begin

section \<open>Number conversion and glob matching (\<^verbatim>\<open>util.c\<close>)\<close>

text \<open>
  The conversions between integers and their decimal representation and the glob matcher that
  \<^verbatim>\<open>KEYS\<close>, \<^verbatim>\<open>PSUBSCRIBE\<close> and \<^verbatim>\<open>CONFIG GET\<close> use.  Unsigned 64-bit intermediate results are \<open>int\<close>
  with the wrap-around modulo \<open>2 ^ 64\<close> written out.  \<open>string2ll\<close> returns \<open>None\<close> where the C
  function returns 0.  The glob matcher walks both blocks through indices; it returns \<open>None\<close> when
  a read leaves a block or the star loop steps past the end of the string's block.
\<close>

subsection \<open>\<open>string2ll\<close> and \<open>ll2string\<close>\<close>

text \<open>The digit loop of \<^verbatim>\<open>string2ll\<close>: the rest of the string and the value so far.  The loop stops
  at the end of the string or at the first character that is no digit, and it leaves the
  function with 0 on overflow.\<close>

fun string2ll_loop :: "string \<Rightarrow> int \<Rightarrow> (string \<times> int) option" where
  "string2ll_loop [] v = Some ([], v)"
| "string2ll_loop (c # p) v =
     (if isdigit c then
        if v > ULLONG_MAX div 10 then None
        else
          let v1 = to_unsigned 64 (v * 10) in
          if v1 > ULLONG_MAX - digit_val c then None
          else string2ll_loop p (to_unsigned 64 (v1 + digit_val c))
      else Some (c # p, v))"

definition string2ll :: "string \<Rightarrow> int option" where
  "string2ll s =
     (case s of
        [] \<Rightarrow> None
      | c0 # rest \<Rightarrow>
          if length s = 1 \<and> c0 = CHR ''0'' then Some 0
          else
            let negative = (c0 = CHR ''-'');
                p = (if negative then rest else s)
            in case p of
                 [] \<Rightarrow> None
               | c # q \<Rightarrow>
                   if isdigit c \<and> c \<noteq> CHR ''0'' then
                     (case string2ll_loop q (digit_val c) of
                        None \<Rightarrow> None
                      | Some (left, v) \<Rightarrow>
                          if left \<noteq> [] then None
                          else if negative then
                            (if v > - (LLONG_MIN + 1) + 1 then None
                             else Some (to_signed 64 (to_unsigned 64 (- v))))
                          else
                            (if v > LLONG_MAX then None else Some (to_signed 64 v)))
                   else if c = CHR ''0'' \<and> length s = 1 then Some 0
                   else None)"

definition string2l :: "string \<Rightarrow> int option" where
  "string2l s =
     (case string2ll s of
        None \<Rightarrow> None
      | Some llval \<Rightarrow>
          if llval < LLONG_MIN \<or> llval > LLONG_MAX then None else Some llval)"

text \<open>The do-while loop of \<^verbatim>\<open>ll2string\<close> writes the digits backwards from the end of its buffer; the
  list is what lies between \<^verbatim>\<open>p\<close> and the end of the buffer.\<close>

function ll2string_loop :: "int \<Rightarrow> string \<Rightarrow> string" where
  "ll2string_loop v p =
     (let p' = digit_char (v mod 10) # p in
      if v div 10 = 0 \<or> v \<le> 0 then p' else ll2string_loop (v div 10) p')"
  by pat_completeness auto
termination
  by (relation "measure (\<lambda>(v, p). nat v)") auto

declare ll2string_loop.simps [simp del]

definition ll2string :: "nat \<Rightarrow> int \<Rightarrow> nat \<times> string" where
  "ll2string len value =
     (if len = 0 then (0, [])
      else
        let v = to_unsigned 64 (if value < 0 then - value else value);
            digits = ll2string_loop v [];
            p = (if value < 0 then CHR ''-'' # digits else digits);
            l = (if length p + 1 > len then len - 1 else length p)
        in (l, take l p))"

subsection \<open>\<open>memtoll\<close>\<close>

text \<open>The returned pair is the value and the error flag.\<close>

definition memtoll_unit :: "string \<Rightarrow> int option" where
  "memtoll_unit u =
     (if u = [] \<or> strcaseeq u ''b'' then Some 1
      else if strcaseeq u ''k'' then Some 1000
      else if strcaseeq u ''kb'' then Some 1024
      else if strcaseeq u ''m'' then Some (1000 * 1000)
      else if strcaseeq u ''mb'' then Some (1024 * 1024)
      else if strcaseeq u ''g'' then Some (1000 * 1000 * 1000)
      else if strcaseeq u ''gb'' then Some (1024 * 1024 * 1024)
      else None)"

definition memtoll :: "string \<Rightarrow> int \<times> bool" where
  "memtoll p =
     (let sign = (if p \<noteq> [] \<and> hd p = CHR ''-'' then 1 else 0 :: nat);
          u = dropWhile isdigit (drop sign p);
          unit = memtoll_unit u;
          mul = (case unit of None \<Rightarrow> 1 | Some m \<Rightarrow> m);
          err = (unit = None);
          digits = length p - length u
      in if digits \<ge> 128 then (LLONG_MAX, True)
         else (to_signed 64 (strtoll (take digits p) * mul), err))"

subsection \<open>\<open>stringmatchlen\<close>\<close>

text \<open>The character class loop, from the character after the optional \<^verbatim>\<open>^\<close> up to the closing
  bracket: the pattern index and length it stops at, and whether the character matched.\<close>

function match_class ::
  "bool \<Rightarrow> string \<Rightarrow> nat \<Rightarrow> int \<Rightarrow> string \<Rightarrow> nat \<Rightarrow> bool \<Rightarrow> (nat \<times> int \<times> bool) option" where
  "match_class nocase pb pi plen sb si m =
     (case mem_get pb pi of
        None \<Rightarrow> None
      | Some c \<Rightarrow>
          if c = CHR 0x5C then
            (case (mem_get pb (pi + 1), mem_get sb si) of
               (Some c1, Some x) \<Rightarrow>
                 match_class nocase pb (pi + 2) (plen - 2) sb si (m \<or> c1 = x)
             | _ \<Rightarrow> None)
          else if c = CHR '']'' then Some (pi, plen, m)
          else if plen = 0 then Some (pi - 1, plen + 1, m)
          else
            (case (mem_get pb (pi + 1), mem_get sb si) of
               (Some c1, Some x) \<Rightarrow>
                 if c1 = CHR ''-'' \<and> plen \<ge> 3 then
                   (case mem_get pb (pi + 2) of
                      None \<Rightarrow> None
                    | Some c2 \<Rightarrow>
                        let lo = min (schar c) (schar c2);
                            hi = max (schar c) (schar c2);
                            start = (if nocase then tolower_int lo else lo);
                            end' = (if nocase then tolower_int hi else hi);
                            x' = (if nocase then tolower_int (schar x) else schar x)
                        in match_class nocase pb (pi + 3) (plen - 3) sb si
                             (m \<or> (x' \<ge> start \<and> x' \<le> end')))
                 else
                   match_class nocase pb (pi + 1) (plen - 1) sb si
                     (m \<or> (if nocase then tolower c = tolower x else c = x))
             | _ \<Rightarrow> None))"
  by pat_completeness auto
termination
  by (relation "measure (\<lambda>(nc, pb, pi, _). length pb - pi)")
     (auto simp: mem_get_def split: if_splits)

declare match_class.simps [simp del]

text \<open>\<open>while (pattern[1] == '*')\<close> and \<open>while (*pattern == '*')\<close>: the index each loop stops at.\<close>

function skip_next_stars :: "string \<Rightarrow> nat \<Rightarrow> nat option" where
  "skip_next_stars pb pi =
     (case mem_get pb (pi + 1) of
        None \<Rightarrow> None
      | Some c \<Rightarrow> if c = CHR ''*'' then skip_next_stars pb (pi + 1) else Some pi)"
  by pat_completeness auto
termination
  by (relation "measure (\<lambda>(pb, pi). length pb - pi)") (auto simp: mem_get_def split: if_splits)

function skip_stars :: "string \<Rightarrow> nat \<Rightarrow> nat option" where
  "skip_stars pb pi =
     (case mem_get pb pi of
        None \<Rightarrow> None
      | Some c \<Rightarrow> if c = CHR ''*'' then skip_stars pb (pi + 1) else Some pi)"
  by pat_completeness auto
termination
  by (relation "measure (\<lambda>(pb, pi). length pb - pi)") (auto simp: mem_get_def split: if_splits)

declare skip_next_stars.simps [simp del] skip_stars.simps [simp del]

lemma skip_next_stars_ge: "skip_next_stars pb pi = Some q \<Longrightarrow> pi \<le> q \<and> q + 1 < length pb"
  by (induction pb pi rule: skip_next_stars.induct, subst (asm) (2) skip_next_stars.simps)
     (auto simp: mem_get_def split: if_splits)

lemma match_class_ge:
  "match_class nocase pb pi plen sb si m = Some (q, l, b) \<Longrightarrow> pi \<le> q + 1"
proof (induction "length pb - pi" arbitrary: nocase pi plen m rule: less_induct)
  case less
  from less.prems have "pi < length pb"
    by (subst (asm) match_class.simps) (auto simp: mem_get_def split: if_splits)
  then have IH: "match_class nc pb (Suc (pi + k)) plen' sb si m' = Some (q, l, b) \<Longrightarrow>
      pi \<le> q + 1" for nc k plen' m'
    using less.hyps [of "Suc (pi + k)" nc plen' m'] by (fastforce intro: diff_less_mono2)
  note IHs = IH [of _ 0, simplified] IH [of _ 1, simplified] IH [of _ 2, simplified]
  show ?case
    using less.prems
    by (subst (asm) match_class.simps)
       (auto simp: Let_def numeral_eq_Suc split: option.splits prod.splits if_splits
         dest: IHs [simplified numeral_eq_Suc, simplified])
qed

text \<open>The matcher.  \<open>pb\<close> and \<open>sb\<close> are the two blocks with their terminators, \<open>pi\<close> and \<open>si\<close> the
  pointers, \<open>plen\<close> and \<open>slen\<close> the lengths the code counts down.  \<open>match_star\<close> is the
  \<open>while (stringLen)\<close> loop of the star case; \<open>match_next\<close> is what follows the switch.\<close>

function stringmatchlen ::
    "bool \<Rightarrow> string \<Rightarrow> nat \<Rightarrow> int \<Rightarrow> string \<Rightarrow> nat \<Rightarrow> int \<Rightarrow> bool option"
  and match_star ::
    "bool \<Rightarrow> string \<Rightarrow> nat \<Rightarrow> int \<Rightarrow> string \<Rightarrow> nat \<Rightarrow> int \<Rightarrow> bool option"
  and match_next ::
    "bool \<Rightarrow> string \<Rightarrow> nat \<Rightarrow> int \<Rightarrow> string \<Rightarrow> nat \<Rightarrow> int \<Rightarrow> bool option"
where
  "stringmatchlen nocase pb pi plen sb si slen =
     (if plen = 0 then Some (slen = 0)
      else case mem_get pb pi of
        None \<Rightarrow> None
      | Some c \<Rightarrow>
          if c = CHR ''*'' then
            (case skip_next_stars pb pi of
               None \<Rightarrow> None
             | Some q \<Rightarrow>
                 let plen' = plen - (int q - int pi) in
                 if plen' = 1 then Some True
                 else match_star nocase pb (q + 1) (plen' - 1) sb si slen)
          else if c = CHR ''?'' then
            (if slen = 0 then Some False
             else match_next nocase pb (pi + 1) (plen - 1) sb (si + 1) (slen - 1))
          else if c = CHR ''['' then
            (case mem_get pb (pi + 1) of
               None \<Rightarrow> None
             | Some c1 \<Rightarrow>
                 let neg = (c1 = CHR ''^'');
                     k = (if neg then 2 else 1 :: nat)
                 in case match_class nocase pb (pi + k) (plen - int k) sb si False of
                      None \<Rightarrow> None
                    | Some (q, l, m) \<Rightarrow>
                        if m = neg then Some False
                        else match_next nocase pb (q + 1) (l - 1) sb (si + 1) (slen - 1))
          else
            (let esc = (c = CHR 0x5C \<and> plen \<ge> 2);
                 q = (if esc then pi + 1 else pi);
                 l = (if esc then plen - 1 else plen)
             in case (mem_get pb q, mem_get sb si) of
                  (Some d, Some x) \<Rightarrow>
                    if (if nocase then tolower d \<noteq> tolower x else d \<noteq> x) then Some False
                    else match_next nocase pb (q + 1) (l - 1) sb (si + 1) (slen - 1)
                | _ \<Rightarrow> None))"
| "match_star nocase pb pi plen sb si slen =
     (if slen = 0 then Some False
      else if si > length sb then None
      else case stringmatchlen nocase pb pi plen sb si slen of
        None \<Rightarrow> None
      | Some True \<Rightarrow> Some True
      | Some False \<Rightarrow> match_star nocase pb pi plen sb (si + 1) (slen - 1))"
| "match_next nocase pb pi plen sb si slen =
     (if slen = 0 then
        (case skip_stars pb pi of
           None \<Rightarrow> None
         | Some q \<Rightarrow> Some (plen - (int q - int pi) = 0))
      else stringmatchlen nocase pb pi plen sb si slen)"
  by pat_completeness auto
termination
  by (relation "measures
    [\<lambda>x. case x of
        Inl (nc, pb, pi, _) \<Rightarrow> 3 * (length pb + 1 - pi)
      | Inr (Inl (nc, pb, pi, _)) \<Rightarrow> 3 * (length pb + 1 - pi) + 1
      | Inr (Inr (nc, pb, pi, _)) \<Rightarrow> 3 * (length pb + 1 - pi) + 1,
     \<lambda>x. case x of
        Inr (Inl (nc, pb, pi, plen, sb, si, slen)) \<Rightarrow> length sb + 1 - si | _ \<Rightarrow> 0]")
    (auto simp: mem_get_def split: if_splits dest!: skip_next_stars_ge match_class_ge)

declare stringmatchlen.simps [simp del] match_star.simps [simp del] match_next.simps [simp del]

text \<open>The call on two \<^verbatim>\<open>sds\<close> strings, and the one on two C strings, which end at their first NUL.\<close>

definition stringmatch_sds :: "string \<Rightarrow> string \<Rightarrow> bool \<Rightarrow> bool option" where
  "stringmatch_sds pattern s nocase =
     stringmatchlen nocase (cstr pattern) 0 (int (length pattern)) (cstr s) 0 (int (length s))"

definition stringmatch :: "string \<Rightarrow> string \<Rightarrow> bool \<Rightarrow> bool option" where
  "stringmatch pattern s nocase =
     stringmatchlen nocase (cstr pattern) 0 (int (length (c_string pattern))) (cstr s) 0 (int (length (c_string s)))"

subsection \<open>Decimal representations\<close>

abbreviation dec :: "int \<Rightarrow> string \<Rightarrow> int" where
  "dec v s \<equiv> foldl (\<lambda>v c. v * 10 + digit_val c) v s"

lemma dec_ge: "list_all isdigit s \<Longrightarrow> 0 \<le> v \<Longrightarrow> v \<le> dec v s"
proof (induction s arbitrary: v)
  case (Cons c s)
  then have d: "0 \<le> digit_val c" by (simp add: isdigit_digit_val)
  with Cons have "v * 10 + digit_val c \<le> dec (v * 10 + digit_val c) s" by simp
  with Cons.prems d show ?case by simp
qed simp

lemma string2ll_loop_digits:
  "list_all isdigit s \<Longrightarrow> 0 \<le> v \<Longrightarrow> v \<le> ULLONG_MAX \<Longrightarrow>
   string2ll_loop s v = (if dec v s \<le> ULLONG_MAX then Some ([], dec v s) else None)"
proof (induction s arbitrary: v)
  case (Cons c s)
  then have d: "0 \<le> digit_val c" "digit_val c < 10" by (simp_all add: isdigit_digit_val)
  have ge: "v * 10 + digit_val c \<le> dec (v * 10 + digit_val c) s"
    using Cons.prems d by (intro dec_ge) auto
  show ?case
    using Cons.prems d ge Cons.IH [of "v * 10 + digit_val c"]
    by (auto simp: to_unsigned_def ULLONG_MAX_def Let_def)
qed simp

lemma string2ll_loop_Some:
  "string2ll_loop s v = Some ([], w) \<Longrightarrow> 0 \<le> v \<Longrightarrow> v \<le> ULLONG_MAX \<Longrightarrow>
   list_all isdigit s \<and> w = dec v s \<and> w \<le> ULLONG_MAX"
proof (induction s arbitrary: v)
  case (Cons c s)
  then have c: "isdigit c" by (auto split: if_splits)
  then have d: "0 \<le> digit_val c" "digit_val c < 10" by (simp_all add: isdigit_digit_val)
  show ?case
    using Cons.prems c d Cons.IH [of "v * 10 + digit_val c"]
    by (auto simp: to_unsigned_def ULLONG_MAX_def Let_def split: if_splits)
qed simp

lemma ll2string_loop_append: "ll2string_loop v p = ll2string_loop v [] @ p"
proof (induction "nat v" arbitrary: v p rule: less_induct)
  case less
  let ?d = "digit_char (v mod 10)"
  show ?case
  proof (cases "v div 10 = 0 \<or> v \<le> 0")
    case True
    then show ?thesis by (simp add: ll2string_loop.simps [of v] Let_def)
  next
    case False
    then have "nat (v div 10) < nat v" by auto
    from less.hyps [OF this, of "?d # p"] less.hyps [OF this, of "[?d]"] False
    show ?thesis by (simp add: ll2string_loop.simps [of v] Let_def)
  qed
qed

lemma ll2string_loop_step:
  "0 \<le> v \<Longrightarrow> ll2string_loop v [] =
     (if v < 10 then [digit_char v] else ll2string_loop (v div 10) [] @ [digit_char (v mod 10)])"
  by (subst ll2string_loop.simps)
     (auto simp: Let_def ll2string_loop_append [of _ "[_]"] div_eq_0_iff)

lemma ll2string_loop_digits:
  "0 \<le> v \<Longrightarrow> list_all isdigit (ll2string_loop v []) \<and> dec 0 (ll2string_loop v []) = v"
proof (induction "nat v" arbitrary: v rule: less_induct)
  case less
  then show ?case
    using less.hyps [of "v div 10"] by (subst (1 2) ll2string_loop_step) auto
qed

lemma ll2string_loop_dec:
  "list_all isdigit s \<Longrightarrow> s \<noteq> [] \<Longrightarrow> hd s \<noteq> CHR ''0'' \<Longrightarrow>
   0 < dec 0 s \<and> ll2string_loop (dec 0 s) [] = s"
proof (induction s rule: rev_induct)
  case (snoc c s)
  then have c: "isdigit c" "0 \<le> digit_val c" "digit_val c < 10"
    by (simp_all add: isdigit_digit_val)
  show ?case
  proof (cases "s = []")
    case True
    then have "digit_val c \<noteq> 0"
      using snoc.prems c(1) digit_char_digit_val [of c] by (metis append_Nil digit_char_0 list.sel(1))
    with True c show ?thesis by (simp add: ll2string_loop_step)
  next
    case False
    with snoc have "0 < dec 0 s \<and> ll2string_loop (dec 0 s) [] = s" by simp
    with c show ?thesis by (simp add: ll2string_loop_step)
  qed
qed simp

lemma ll2string_loop_hd:
  "0 < v \<Longrightarrow> ll2string_loop v [] \<noteq> [] \<and> hd (ll2string_loop v []) \<noteq> CHR ''0''"
proof (induction "nat v" arbitrary: v rule: less_induct)
  case less
  show ?case
  proof (cases "v < 10")
    case True
    then have "digit_char v \<noteq> CHR ''0''"
      using less.prems digit_val_digit_char [of v] by (auto simp: digit_val_def)
    with True less.prems show ?thesis by (simp add: ll2string_loop_step)
  next
    case False
    with less.hyps [of "v div 10"] show ?thesis by (subst (1 2) ll2string_loop_step) auto
  qed
qed

lemma ll2string_loop_length: "0 \<le> v \<Longrightarrow> v < 10 ^ n \<Longrightarrow> 0 < n \<Longrightarrow> length (ll2string_loop v []) \<le> n"
proof (induction n arbitrary: v)
  case (Suc n)
  show ?case
  proof (cases "v < 10")
    case True
    with Suc.prems show ?thesis by (subst ll2string_loop_step) auto
  next
    case False
    with Suc.prems have "v div 10 < 10 ^ n" "0 < n"
      by (auto simp: div_less_iff_less_mult mult.commute intro!: gr0I)
    with Suc.IH [of "v div 10"] Suc.prems False show ?thesis
      by (subst ll2string_loop_step) auto
  qed
qed simp

text \<open>The decimal representation of a \<^verbatim>\<open>long long\<close>, as \<^verbatim>\<open>ll2string\<close> writes it into a large buffer.\<close>

definition ll_repr :: "int \<Rightarrow> string" where
  "ll_repr v = (if v < 0 then CHR ''-'' # ll2string_loop (- v) [] else ll2string_loop v [])"

lemma abs_llong_unsigned: "is_llong v \<Longrightarrow> to_unsigned 64 (if v < 0 then - v else v) = \<bar>v\<bar>"
  by (auto simp: to_unsigned_def crange_simps)

lemma ll_repr_length: "is_llong v \<Longrightarrow> length (ll_repr v) \<le> 20"
  using ll2string_loop_length [of "\<bar>v\<bar>" 19] by (auto simp: ll_repr_def crange_simps)

lemma ll2string_eq: "is_llong v \<Longrightarrow> 21 \<le> len \<Longrightarrow> ll2string len v = (length (ll_repr v), ll_repr v)"
  using ll_repr_length [of v] abs_llong_unsigned [of v]
  by (auto simp: ll2string_def ll_repr_def Let_def)

lemma string2ll_digits:
  assumes "list_all isdigit s" and "s \<noteq> []" and "hd s \<noteq> CHR ''0''" and "hd s \<noteq> CHR ''-''"
  shows "string2ll s = (if dec 0 s \<le> LLONG_MAX then Some (dec 0 s) else None)"
    and "string2ll (CHR ''-'' # s) = (if dec 0 s \<le> - LLONG_MIN then Some (- dec 0 s) else None)"
proof -
  obtain c q where s: "s = c # q" using assms(2) by (cases s) auto
  have d: "0 \<le> digit_val c" "digit_val c < 10" and q: "list_all isdigit q" and c: "isdigit c"
    using assms(1) s by (simp_all add: isdigit_digit_val)
  have ge: "digit_val c \<le> dec 0 s" using dec_ge [OF q d(1)] s by simp
  have loop: "string2ll_loop q (digit_val c) =
      (if dec 0 s \<le> ULLONG_MAX then Some ([], dec 0 s) else None)"
    using string2ll_loop_digits [OF q d(1)] d s by (simp add: ULLONG_MAX_def)
  show "string2ll s = (if dec 0 s \<le> LLONG_MAX then Some (dec 0 s) else None)"
    using assms(3,4) s c loop ge d to_signed_64_id [of "dec 0 s"]
    by (auto simp: string2ll_def crange_simps)
  have "to_signed 64 (to_unsigned 64 (- dec 0 s)) = to_signed 64 (- dec 0 s)"
    by (simp add: to_unsigned_def to_signed_def)
  then show "string2ll (CHR ''-'' # s) =
      (if dec 0 s \<le> - LLONG_MIN then Some (- dec 0 s) else None)"
    using assms(3,4) s c loop ge d to_signed_64_id [of "- dec 0 s"]
    by (auto simp: string2ll_def crange_simps)
qed

lemma not_isdigit_minus [simp]: "\<not> isdigit CHR ''-''"
  by (simp add: isdigit_def)

lemma string2ll_ll_repr: "is_llong v \<Longrightarrow> string2ll (ll_repr v) = Some v"
proof -
  assume v: "is_llong v"
  show ?thesis
  proof (cases "v = 0")
    case True
    then show ?thesis by (simp add: ll_repr_def ll2string_loop_step string2ll_def)
  next
    case False
    let ?s = "ll2string_loop \<bar>v\<bar> []"
    have "list_all isdigit ?s" "dec 0 ?s = \<bar>v\<bar>" "?s \<noteq> []" "hd ?s \<noteq> CHR ''0''"
      using False by (simp_all add: ll2string_loop_digits ll2string_loop_hd)
    moreover from this have "hd ?s \<noteq> CHR ''-''"
      by (metis hd_in_set list_all_iff not_isdigit_minus)
    ultimately show ?thesis
      using string2ll_digits [of ?s] v False by (auto simp: ll_repr_def crange_simps)
  qed
qed

lemma string2ll_Some_repr: "string2ll s = Some v \<Longrightarrow> is_llong v \<and> s = ll_repr v"
proof -
  assume r: "string2ll s = Some v"
  then obtain c0 rest where s: "s = c0 # rest" by (cases s) (auto simp: string2ll_def)
  define neg where "neg = (c0 = CHR ''-'')"
  define p where "p = (if neg then rest else s)"
  show ?thesis
  proof (cases "s = ''0''")
    case True
    with r show ?thesis
      by (auto simp: string2ll_def ll_repr_def ll2string_loop_step crange_simps)
  next
    case False
    with r s obtain c q w where p: "p = c # q" and c: "isdigit c" "c \<noteq> CHR ''0''"
      and w: "string2ll_loop q (digit_val c) = Some ([], w)"
      unfolding string2ll_def p_def neg_def
      by (auto simp: Let_def split: list.splits if_splits option.splits prod.splits)
    have d: "0 \<le> digit_val c" "digit_val c \<le> ULLONG_MAX"
      using c(1) isdigit_digit_val [of c] by (auto simp: crange_simps)
    with w have "list_all isdigit p" "dec 0 p = w"
      using string2ll_loop_Some [OF w d] p c by auto
    moreover have "p \<noteq> []" "hd p \<noteq> CHR ''0''" "hd p \<noteq> CHR ''-''"
      using p c by auto
    moreover have "ll2string_loop w [] = p" "0 < w"
      using ll2string_loop_dec [of p] calculation by auto
    ultimately show ?thesis
      using string2ll_digits [of p] r s unfolding p_def neg_def
      by (auto simp: ll_repr_def crange_simps split: if_splits)
  qed
qed

subsection \<open>Runs of stars\<close>

lemma drop_Cons_nth: "i < length xs \<Longrightarrow> drop i xs = xs ! i # drop (Suc i) xs"
  by (simp add: Cons_nth_drop_Suc)

lemma skip_stars_cstr:
  "pi \<le> length p \<Longrightarrow>
   skip_stars (cstr p) pi = Some (pi + length (takeWhile (\<lambda>c. c = CHR ''*'') (drop pi p)))"
proof (induction "length p - pi" arbitrary: pi)
  case 0
  then show ?case by (subst skip_stars.simps) (simp add: mem_get_cstr)
next
  case (Suc n)
  then have "skip_stars (cstr p) (Suc pi) =
      Some (Suc pi + length (takeWhile (\<lambda>c. c = CHR ''*'') (drop (Suc pi) p)))"
    by simp
  moreover have "pi < length p" using Suc.hyps(2) by simp
  ultimately show ?case
    by (subst skip_stars.simps) (simp add: mem_get_cstr drop_Cons_nth)
qed

lemma skip_next_stars_cstr:
  "pi < length p \<Longrightarrow>
   skip_next_stars (cstr p) pi =
     Some (pi + length (takeWhile (\<lambda>c. c = CHR ''*'') (drop (Suc pi) p)))"
proof (induction "length p - pi" arbitrary: pi)
  case (Suc n)
  show ?case
  proof (cases "Suc pi < length p")
    case True
    with Suc have "skip_next_stars (cstr p) (Suc pi) =
        Some (Suc pi + length (takeWhile (\<lambda>c. c = CHR ''*'') (drop (Suc (Suc pi)) p)))"
      by simp
    with True show ?thesis
      by (subst skip_next_stars.simps) (simp add: mem_get_cstr drop_Cons_nth)
  next
    case False
    with Suc.prems show ?thesis
      by (subst skip_next_stars.simps) (simp add: mem_get_cstr)
  qed
qed simp

lemma length_takeWhile_all: "length (takeWhile P xs) = length xs \<longleftrightarrow> list_all P xs"
  by (induction xs) auto

subsection \<open>Properties\<close>

text \<open>C10. \<open>string2ll\<close> accepts exactly the strings that \<open>ll2string\<close> writes for the values of a
  \<^verbatim>\<open>long long\<close>, and returns the value written: parsing and printing are inverse, no second
  spelling of a number is accepted (leading zeros, a plus sign, spaces, \<^verbatim>\<open>-0\<close>), and nothing
  outside the 64-bit range is.\<close>

theorem string2ll_iff_ll2string:
  "string2ll s = Some v \<longleftrightarrow> is_llong v \<and> ll2string 32 v = (length s, s)"
proof
  assume "string2ll s = Some v"
  then show "is_llong v \<and> ll2string 32 v = (length s, s)"
    using string2ll_Some_repr ll2string_eq by auto
next
  assume "is_llong v \<and> ll2string 32 v = (length s, s)"
  then show "string2ll s = Some v"
    using string2ll_ll_repr [of v] by (auto simp: ll2string_eq)
qed

text \<open>A unit suffix multiplies the number by its size; the unit \<^verbatim>\<open>Gi\<close> of the function's
  comment is refused, with the error flag set and the unit ignored.\<close>

theorem memtoll_units:
  "memtoll ''1gb'' = (1073741824, False) \<and> memtoll ''1Gi'' = (1, True)"
  by (simp add: memtoll_def memtoll_unit_def strcaseeq_defs tolower_def isdigit_def strtoll_def
      isspace_def decimal_value_def digit_val_def to_signed_def crange_simps)

end
