(* ===== verification/Glob.thy ===== *)
theory Glob
  imports Util
begin

section \<open>The language of patterns\<close>

text \<open>
  A specification of the patterns of \<^verbatim>\<open>stringmatchlen\<close>, with character classes, and the proof that the matcher
  implements it.  The matcher tests for the end of the string only at \<^verbatim>\<open>?\<close>; elsewhere it compares with the byte it
  finds, which is the terminator there.  It is right as long as no part of the pattern accepts a NUL byte;
  a negated class does, and the matcher then goes on behind the end of an empty string.
\<close>

subsection \<open>Specification\<close>

text \<open>The items of a class: a character, an escaped one, which is compared with its case, and a range.\<close>

datatype class_item = Ch char | Esc char | Range char char

datatype glob_token = Star | AnyChar | Lit char | Class bool "class_item list" | Broken

text \<open>The first item of a class that goes on; there is none when the pattern ends with a backslash.\<close>

definition next_item :: "char \<Rightarrow> string \<Rightarrow> (class_item \<times> string) option" where
  "next_item c p =
     (if c = CHR 0x5C then (case p of [] \<Rightarrow> None | d # q \<Rightarrow> Some (Esc d, q))
      else
        (case p of
           a # b # q \<Rightarrow> if a = CHR ''-'' then Some (Range c b, q) else Some (Ch c, p)
         | _ \<Rightarrow> Some (Ch c, p)))"

lemma next_item_length: "next_item c p = Some (i, q) \<Longrightarrow> length q \<le> length p"
  by (auto simp: next_item_def split: if_splits list.splits)

text \<open>The items up to the closing bracket or the end of the pattern, and the rest.\<close>

function class_parse :: "string \<Rightarrow> (class_item list \<times> string) option" where
  "class_parse [] = Some ([], [])"
| "class_parse (c # p) =
     (if c = CHR '']'' then Some ([], p)
      else
        (case next_item c p of
           None \<Rightarrow> None
         | Some (i, q) \<Rightarrow> map_option (\<lambda>(is, r). (i # is, r)) (class_parse q)))"
  by pat_completeness auto
termination
  by (relation "measure length") (auto dest!: next_item_length)

lemma class_parse_shrinks: "case class_parse p of None \<Rightarrow> True | Some (is, r) \<Rightarrow> length r \<le> length p"
proof (induction p rule: class_parse.induct)
  case (2 c p)
  then show ?case by (fastforce split: option.splits dest: next_item_length)
qed simp

lemma class_parse_length: "class_parse p = Some (is, r) \<Longrightarrow> length r \<le> length p"
  using class_parse_shrinks [of p] by simp

definition class_start :: "string \<Rightarrow> bool \<times> string" where
  "class_start p = (case p of c # q \<Rightarrow> if c = CHR ''^'' then (True, q) else (False, p) | [] \<Rightarrow> (False, []))"

lemma class_start_length: "length (snd (class_start p)) \<le> length p"
  by (auto simp: class_start_def split: list.splits)

function glob_parse :: "string \<Rightarrow> glob_token list" where
  "glob_parse [] = []"
| "glob_parse (c # p) =
     (if c = CHR ''*'' then Star # glob_parse p
      else if c = CHR ''?'' then AnyChar # glob_parse p
      else if c = CHR ''['' then
        (case class_parse (snd (class_start p)) of
           None \<Rightarrow> [Broken]
         | Some (items, r) \<Rightarrow> Class (fst (class_start p)) items # glob_parse r)
      else if c = CHR 0x5C then
        (case p of [] \<Rightarrow> [Lit c] | d # q \<Rightarrow> Lit d # glob_parse q)
      else Lit c # glob_parse p)"
  by pat_completeness auto
termination
  by (relation "measure length") (auto dest!: class_parse_length intro: le_less_trans le_trans [OF _ class_start_length] simp: less_Suc_eq_le)

declare glob_parse.simps(2) [simp del]

definition same_char :: "bool \<Rightarrow> char \<Rightarrow> char \<Rightarrow> bool" where
  "same_char nocase c x \<longleftrightarrow> (if nocase then tolower c = tolower x else c = x)"

fun item_accepts :: "bool \<Rightarrow> char \<Rightarrow> class_item \<Rightarrow> bool" where
  "item_accepts nocase x (Ch c) = same_char nocase c x"
| "item_accepts nocase x (Esc c) = (c = x)"
| "item_accepts nocase x (Range a b) =
     (let f = (if nocase then tolower_int else (\<lambda>i. i))
      in f (min (schar a) (schar b)) \<le> f (schar x) \<and> f (schar x) \<le> f (max (schar a) (schar b)))"

fun token_accepts :: "bool \<Rightarrow> glob_token \<Rightarrow> char \<Rightarrow> bool" where
  "token_accepts nocase (Lit c) x = same_char nocase c x"
| "token_accepts nocase (Class neg items) x = (neg \<noteq> list_ex (item_accepts nocase x) items)"
| "token_accepts nocase AnyChar x = True"
| "token_accepts nocase _ x = False"

fun glob_match :: "bool \<Rightarrow> glob_token list \<Rightarrow> string \<Rightarrow> bool" where
  "glob_match nocase [] s = (s = [])"
| "glob_match nocase (Star # ts) [] = glob_match nocase ts []"
| "glob_match nocase (Star # ts) (c # s) = (glob_match nocase ts (c # s) \<or> glob_match nocase (Star # ts) s)"
| "glob_match nocase (t # ts) s = (case s of [] \<Rightarrow> False | x # s' \<Rightarrow> token_accepts nocase t x \<and> glob_match nocase ts s')"

text \<open>The pattern can be read, and no literal and no class of it accepts a NUL byte.\<close>

definition token_plain :: "bool \<Rightarrow> glob_token \<Rightarrow> bool" where
  "token_plain nocase t \<longleftrightarrow> t \<noteq> Broken \<and> (t = AnyChar \<or> \<not> token_accepts nocase t NUL)"

definition plain_pattern :: "bool \<Rightarrow> string \<Rightarrow> bool" where
  "plain_pattern nocase p \<longleftrightarrow> list_all (token_plain nocase) (glob_parse p)"

subsection \<open>Lemmas on the specification\<close>

lemma glob_match_token: "t \<noteq> Star \<Longrightarrow>
  glob_match nocase (t # ts) s = (case s of [] \<Rightarrow> False | x # s' \<Rightarrow> token_accepts nocase t x \<and> glob_match nocase ts s')"
  by (cases t) auto

lemma glob_match_star_star [simp]: "glob_match nc (Star # Star # ts) s = glob_match nc (Star # ts) s"
  by (induction s) auto

lemma glob_match_star_all [simp]: "glob_match nc [Star] s"
  by (induction s) auto

lemma glob_parse_star [simp]: "glob_parse (CHR ''*'' # p) = Star # glob_parse p"
  by (simp add: glob_parse.simps)

lemma glob_parse_token: "c \<noteq> CHR ''*'' \<Longrightarrow> \<exists>t ts. glob_parse (c # p) = t # ts \<and> t \<noteq> Star"
  by (auto simp: glob_parse.simps split: option.splits list.splits)

lemma glob_match_parse_Nil: "glob_match nc (glob_parse p) [] \<longleftrightarrow> list_all (\<lambda>c. c = CHR ''*'') p"
proof (induction p)
  case (Cons c p)
  then show ?case using glob_parse_token [of c p] by (cases "c = CHR ''*''") (auto simp: glob_match_token)
qed simp

lemma glob_parse_dropWhile_star:
  "glob_match nc (Star # glob_parse p) s = glob_match nc (Star # glob_parse (dropWhile (\<lambda>c. c = CHR ''*'') p)) s"
  by (induction p) auto

lemma plain_dropWhile_star: "plain_pattern nc p \<Longrightarrow> plain_pattern nc (dropWhile (\<lambda>c. c = CHR ''*'') p)"
  by (induction p) (auto simp: plain_pattern_def)

text \<open>Patterns without classes and NUL bytes are plain.\<close>

lemma tolower_NUL [simp]: "tolower c = NUL \<longleftrightarrow> c = NUL"
proof
  assume e: "tolower c = NUL"
  show "c = NUL"
  proof (rule ccontr)
    assume "c \<noteq> NUL"
    with e have c: "65 \<le> (of_char c :: nat)" "(of_char c :: nat) \<le> 90" "char_of ((of_char c :: nat) + 32) = NUL"
      by (auto simp: tolower_def split: if_splits)
    then have "(of_char (char_of ((of_char c :: nat) + 32)) :: nat) = 0" by simp
    then show False using c(1,2) by simp
  qed
qed (simp add: tolower_def)

lemma plain_without_classes: "CHR ''['' \<notin> set p \<Longrightarrow> NUL \<notin> set p \<Longrightarrow> plain_pattern nc p"
proof (induction p rule: glob_parse.induct)
  case (2 c p)
  have l: "token_plain nc Star" "token_plain nc AnyChar" "d \<noteq> NUL \<Longrightarrow> token_plain nc (Lit d)" for d
    by (auto simp: token_plain_def same_char_def tolower_def [of NUL])
  show ?case using 2 l by (auto simp: plain_pattern_def glob_parse.simps(2) split: list.split)
qed (simp add: plain_pattern_def)

subsection \<open>The matcher implements it\<close>

definition char_at :: "string \<Rightarrow> nat \<Rightarrow> char" where
  "char_at s i = (if i < length s then s ! i else NUL)"

lemma mem_get_char_at: "i \<le> length s \<Longrightarrow> mem_get (cstr s) i = Some (char_at s i)"
  by (simp add: mem_get_cstr char_at_def)

lemma next_item_at:
  assumes "pi < length p" "p ! pi \<noteq> CHR '']''" "next_item (p ! pi) (drop (Suc pi) p) = Some (i, q)" "si \<le> length s"
  shows "\<exists>pi'. pi < pi' \<and> pi' \<le> length p \<and> q = drop pi' p \<and>
    match_class nc (cstr p) pi (int (length p) - int pi) (cstr s) si m =
    match_class nc (cstr p) pi' (int (length p) - int pi') (cstr s) si (m \<or> item_accepts nc (char_at s si) i)"
proof -
  have get: "mem_get (cstr p) pi = Some (p ! pi)" using assms(1) by (simp add: mem_get_cstr)
  have x: "mem_get (cstr s) si = Some (char_at s si)" using assms(4) by (rule mem_get_char_at)
  have one: "mem_get (cstr p) (Suc pi) = Some (char_at p (Suc pi))" using assms(1) by (intro mem_get_char_at) simp
  let ?range = "char_at p (Suc pi) = CHR ''-'' \<and> Suc (Suc pi) < length p"
  consider (esc) "p ! pi = CHR 0x5C" | (range) "p ! pi \<noteq> CHR 0x5C" ?range | (ch) "p ! pi \<noteq> CHR 0x5C" "\<not> ?range" by blast
  then show ?thesis
  proof cases
    case esc
    have l: "Suc pi < length p"
      using assms(3) esc by (cases "Suc pi < length p") (simp_all add: next_item_def)
    then have "drop (Suc pi) p = p ! Suc pi # drop (pi + 2) p" by (simp add: drop_Cons_nth)
    then have n: "Suc pi < length p" "i = Esc (p ! Suc pi)" "q = drop (pi + 2) p"
      using assms(3) esc l by (simp_all add: next_item_def)
    then show ?thesis
      using get one x esc by (intro exI [of _ "pi + 2"]) (subst match_class.simps, simp add: char_at_def algebra_simps)
  next
    case range
    then have d: "drop (Suc pi) p = CHR ''-'' # p ! (pi + 2) # drop (pi + 3) p"
      by (simp add: char_at_def drop_Cons_nth numeral_eq_Suc split: if_splits)
    have two: "mem_get (cstr p) (pi + 2) = Some (p ! (pi + 2))" using range by (simp add: mem_get_cstr)
    show ?thesis
      using get one two x range assms(2,3)
      by (intro exI [of _ "pi + 3"], subst match_class.simps) (auto simp: d next_item_def Let_def algebra_simps)
  next
    case ch
    have "case drop (Suc pi) p of a # b # _ \<Rightarrow> a \<noteq> CHR ''-'' | _ \<Rightarrow> True"
      using ch(2) by (cases "Suc pi < length p"; cases "Suc (Suc pi) < length p") (auto simp: drop_Cons_nth char_at_def)
    then have n: "i = Ch (p ! pi)" "q = drop (Suc pi) p"
      using assms(3) ch(1) by (auto simp: next_item_def split: list.splits if_splits)
    have "\<not> (char_at p (Suc pi) = CHR ''-'' \<and> 3 \<le> int (length p) - int pi)" using ch(2) by auto
    then show ?thesis
      using get one x ch(1) assms(1,2) n
      by (intro exI [of _ "Suc pi"], subst match_class.simps) (auto simp: same_char_def algebra_simps)
  qed
qed

lemma match_class_parse:
  assumes "0 < pi" "pi \<le> length p" "si \<le> length s" "class_parse (drop pi p) = Some (is, r)"
  shows "\<exists>q. match_class nc (cstr p) pi (int (length p) - int pi) (cstr s) si m =
      Some (q, int (length p) - int q, m \<or> list_ex (item_accepts nc (char_at s si)) is) \<and>
    drop (Suc q) p = r \<and> pi \<le> Suc q \<and> q < length p"
  using assms(1,2,4)
proof (induction "length p - pi" arbitrary: pi m "is" rule: less_induct)
  case less
  show ?case
  proof (cases "pi = length p")
    case True
    moreover obtain n where "length p = Suc n" using True less.prems(1) by (cases p) auto
    ultimately show ?thesis using less.prems
      by (intro exI [of _ n], subst match_class.simps) (auto simp: mem_get_cstr)
  next
    case False
    then have pi: "pi < length p" using less.prems by simp
    then have dr: "drop pi p = p ! pi # drop (Suc pi) p" and get: "mem_get (cstr p) pi = Some (p ! pi)"
      by (simp_all add: drop_Cons_nth mem_get_cstr)
    show ?thesis
    proof (cases "p ! pi = CHR '']''")
      case True
      then show ?thesis using less.prems get pi
        by (intro exI [of _ pi], subst match_class.simps) (simp add: dr)
    next
      case ne: False
      then obtain i q is' where i: "next_item (p ! pi) (drop (Suc pi) p) = Some (i, q)"
        "class_parse q = Some (is', r)" "is = i # is'"
        using less.prems by (auto simp: dr split: option.splits)
      obtain pi' where pi': "pi < pi'" "pi' \<le> length p" "q = drop pi' p"
        "match_class nc (cstr p) pi (int (length p) - int pi) (cstr s) si m =
         match_class nc (cstr p) pi' (int (length p) - int pi') (cstr s) si (m \<or> item_accepts nc (char_at s si) i)"
        using next_item_at [OF pi ne i(1) assms(3)] by blast
      have "\<exists>q. match_class nc (cstr p) pi' (int (length p) - int pi') (cstr s) si (m \<or> item_accepts nc (char_at s si) i) =
          Some (q, int (length p) - int q, (m \<or> item_accepts nc (char_at s si) i) \<or> list_ex (item_accepts nc (char_at s si)) is') \<and>
        drop (Suc q) p = r \<and> pi' \<le> Suc q \<and> q < length p"
        using pi' i(2) less.prems by (intro less.hyps) auto
      then show ?thesis using pi'(1,4) i(3) by auto
    qed
  qed
qed

text \<open>What follows the switch, and the loop of the star.\<close>

lemma match_next_glob:
  assumes "pi \<le> length p" and "si \<le> length s"
    and IH: "si < length s \<Longrightarrow>
      stringmatchlen nc (cstr p) pi (int (length p) - int pi) (cstr s) si
        (int (length s) - int si) = Some (glob_match nc (glob_parse (drop pi p)) (drop si s))"
  shows "match_next nc (cstr p) pi (int (length p) - int pi) (cstr s) si
    (int (length s) - int si) = Some (glob_match nc (glob_parse (drop pi p)) (drop si s))"
proof (cases "si < length s")
  case True
  with IH show ?thesis by (subst match_next.simps) simp
next
  case False
  have "int (length p) - int pi = int (length (takeWhile (\<lambda>c. c = CHR ''*'') (drop pi p))) \<longleftrightarrow>
      list_all (\<lambda>c. c = CHR ''*'') (drop pi p)"
    using assms(1) length_takeWhile_all [of "\<lambda>c. c = CHR ''*''" "drop pi p"] by auto
  with False assms(1,2) show ?thesis
    by (subst match_next.simps) (simp add: skip_stars_cstr glob_match_parse_Nil)
qed

lemma match_star_glob:
  assumes "si \<le> length s" and "\<not> glob_match nc ts []"
    and IH: "\<And>k. k < length s \<Longrightarrow>
      stringmatchlen nc pb pi plen (cstr s) k (int (length s) - int k) = Some (glob_match nc ts (drop k s))"
  shows "match_star nc pb pi plen (cstr s) si (int (length s) - int si) = Some (glob_match nc (Star # ts) (drop si s))"
  using assms(1)
proof (induction "length s - si" arbitrary: si)
  case 0
  with assms(2) show ?case by (subst match_star.simps) simp
next
  case (Suc n)
  then have "match_star nc pb pi plen (cstr s) (Suc si) (int (length s) - int (Suc si)) =
      Some (glob_match nc (Star # ts) (drop (Suc si) s))"
    using Suc.hyps(1) [of "Suc si"] by simp
  moreover have "si < length s" using Suc.hyps(2) by simp
  ultimately show ?case using IH [of si]
    by (subst match_star.simps) (auto simp: drop_Cons_nth algebra_simps split: bool.split)
qed

text \<open>A literal, an any-character or a class takes one character, when there is one.\<close>

lemma token_step:
  assumes "glob_parse (drop pi p) = t # glob_parse (drop q p)" "t \<noteq> Star" "token_plain nc t" "si \<le> length s"
    and run: "t = AnyChar \<Longrightarrow> si < length s \<Longrightarrow> m = match_next nc (cstr p) q (int (length p) - int q) (cstr s) (Suc si) (int (length s) - int si - 1)"
      "t = AnyChar \<Longrightarrow> si = length s \<Longrightarrow> m = Some False"
      "t \<noteq> AnyChar \<Longrightarrow> m = (if token_accepts nc t (char_at s si)
          then match_next nc (cstr p) q (int (length p) - int q) (cstr s) (Suc si) (int (length s) - int si - 1) else Some False)"
    and step: "Suc si \<le> length s \<Longrightarrow> match_next nc (cstr p) q (int (length p) - int q) (cstr s) (Suc si) (int (length s) - int (Suc si)) =
      Some (glob_match nc (glob_parse (drop q p)) (drop (Suc si) s))"
  shows "m = Some (glob_match nc (glob_parse (drop pi p)) (drop si s))"
proof (cases "si < length s")
  case True
  then show ?thesis
    using assms(1,2) run(1,3) step by (cases "t = AnyChar") (auto simp: glob_match_token drop_Cons_nth char_at_def diff_diff_eq algebra_simps)
next
  case False
  then have "si = length s" "char_at s si = NUL" using assms(4) by (auto simp: char_at_def)
  then show ?thesis
    using assms(1-3) run(2,3) by (cases "t = AnyChar") (auto simp: glob_match_token token_plain_def)
qed

lemma stringmatchlen_glob:
  assumes "plain_pattern nc (drop pi p)" and "pi \<le> length p" and "si \<le> length s"
  shows "stringmatchlen nc (cstr p) pi (int (length p) - int pi) (cstr s) si
    (int (length s) - int si) = Some (glob_match nc (glob_parse (drop pi p)) (drop si s))"
  using assms
proof (induction "length p - pi" arbitrary: pi si rule: less_induct)
  case less
  have next_glob: "match_next nc (cstr p) q (int (length p) - int q) (cstr s) k
      (int (length s) - int k) = Some (glob_match nc (glob_parse (drop q p)) (drop k s))"
    if "pi < q" "q \<le> length p" "k \<le> length s" "plain_pattern nc (drop q p)" for q k
    using that less.hyps [of q k] less.prems by (intro match_next_glob) auto
  show ?case
  proof (cases "pi = length p")
    case True
    with less.prems show ?thesis by (subst stringmatchlen.simps) simp
  next
    case False
    define c where "c = p ! pi"
    have pi: "pi < length p" using False less.prems by simp
    then have dr: "drop pi p = c # drop (Suc pi) p" and get: "mem_get (cstr p) pi = Some c"
      by (auto simp: c_def drop_Cons_nth mem_get_cstr)
    have x: "mem_get (cstr s) si = Some (char_at s si)" using less.prems(3) by (rule mem_get_char_at)
    have st: "stringmatchlen nc (cstr p) pi (int (length p) - int pi) (cstr s) si (int (length s) - int si) =
        Some (glob_match nc (glob_parse (drop pi p)) (drop si s))"
      if "glob_parse (drop pi p) = t # glob_parse (drop q p)" "t \<noteq> Star" "pi < q" "q \<le> length p"
        "t = AnyChar \<Longrightarrow> stringmatchlen nc (cstr p) pi (int (length p) - int pi) (cstr s) si (int (length s) - int si) =
          (if si = length s then Some False
           else match_next nc (cstr p) q (int (length p) - int q) (cstr s) (Suc si) (int (length s) - int si - 1))"
        "t \<noteq> AnyChar \<Longrightarrow> t \<noteq> Broken \<Longrightarrow>
          stringmatchlen nc (cstr p) pi (int (length p) - int pi) (cstr s) si (int (length s) - int si) =
          (if token_accepts nc t (char_at s si)
           then match_next nc (cstr p) q (int (length p) - int q) (cstr s) (Suc si) (int (length s) - int si - 1) else Some False)"
      for t q
    proof (rule token_step [OF that(1,2)])
      show "token_plain nc t" using less.prems(1) that(1) by (simp add: plain_pattern_def)
      then have "t \<noteq> Broken" by (simp add: token_plain_def)
      have "plain_pattern nc (drop q p)" using less.prems(1) that(1) by (simp add: plain_pattern_def)
      then show "Suc si \<le> length s \<Longrightarrow> match_next nc (cstr p) q (int (length p) - int q) (cstr s) (Suc si) (int (length s) - int (Suc si)) =
          Some (glob_match nc (glob_parse (drop q p)) (drop (Suc si) s))"
        using that(3,4) by (intro next_glob) auto
    qed (use that(5,6) less.prems in \<open>auto simp: token_plain_def plain_pattern_def that(1)\<close>)
    consider (star) "c = CHR ''*''" | (any) "c = CHR ''?''" | (cls) "c = CHR ''[''" |
      (lit) "c \<noteq> CHR ''*''" "c \<noteq> CHR ''?''" "c \<noteq> CHR ''[''" by blast
    then show ?thesis
    proof cases
      case star
      define q where "q = pi + length (takeWhile (\<lambda>c. c = CHR ''*'') (drop (Suc pi) p))"
      have rest: "drop (Suc q) p = dropWhile (\<lambda>c. c = CHR ''*'') (drop (Suc pi) p)"
        by (simp add: q_def dropWhile_eq_drop add.commute)
      have q: "pi \<le> q" "q < length p"
        using pi length_takeWhile_le [of "\<lambda>c. c = CHR ''*''" "drop (Suc pi) p"]
        by (auto simp: q_def)
      have pl: "plain_pattern nc (drop (Suc q) p)"
        using less.prems(1) star unfolding rest by (intro plain_dropWhile_star) (simp add: dr plain_pattern_def)
      have m: "glob_match nc (glob_parse (drop pi p)) t = glob_match nc (Star # glob_parse (drop (Suc q) p)) t" for t
        using star glob_parse_dropWhile_star [of nc "drop (Suc pi) p" t] by (simp add: dr rest)
      have more: "match_star nc (cstr p) (Suc q) (int (length p) - int (Suc q)) (cstr s) si
          (int (length s) - int si) = Some (glob_match nc (Star # glob_parse (drop (Suc q) p)) (drop si s))"
        if "Suc q \<noteq> length p"
      proof (rule match_star_glob)
        have ne: "drop (Suc q) p \<noteq> []" using that q by simp
        then have "hd (drop (Suc q) p) \<noteq> CHR ''*''" unfolding rest by (rule hd_dropWhile)
        with ne have "\<not> list_all (\<lambda>c. c = CHR ''*'') (drop (Suc q) p)" by (cases "drop (Suc q) p") auto
        then show "\<not> glob_match nc (glob_parse (drop (Suc q) p)) []" by (simp add: glob_match_parse_Nil)
        show "stringmatchlen nc (cstr p) (Suc q) (int (length p) - int (Suc q)) (cstr s) k
            (int (length s) - int k) = Some (glob_match nc (glob_parse (drop (Suc q) p)) (drop k s))"
          if "k < length s" for k
          using that less.hyps [of "Suc q" k] q pl by auto
      qed (use less.prems in simp)
      have "stringmatchlen nc (cstr p) pi (int (length p) - int pi) (cstr s) si (int (length s) - int si) =
          (if Suc q = length p then Some True
           else match_star nc (cstr p) (Suc q) (int (length p) - int (Suc q)) (cstr s) si (int (length s) - int si))"
        using pi q(2) get star skip_next_stars_cstr [OF pi, folded q_def]
        by (subst stringmatchlen.simps) (auto simp: Let_def diff_diff_eq add.commute)
      then show ?thesis using more m [of "drop si s"] by (auto split: if_splits)
    next
      case any
      have "stringmatchlen nc (cstr p) pi (int (length p) - int pi) (cstr s) si (int (length s) - int si) =
          (if si = length s then Some False
           else match_next nc (cstr p) (Suc pi) (int (length p) - int (Suc pi)) (cstr s) (Suc si) (int (length s) - int si - 1))"
        using any pi get by (subst stringmatchlen.simps) (simp add: algebra_simps)
      then show ?thesis using any pi by (intro st [of AnyChar "Suc pi"]) (simp_all add: dr glob_parse.simps)
    next
      case cls
      define neg where "neg = fst (class_start (drop (Suc pi) p))"
      define k where "k = (if neg then 2 else 1 :: nat)"
      then have k: "0 < pi + k" by simp
      have one: "mem_get (cstr p) (Suc pi) = Some (char_at p (Suc pi))" using pi by (intro mem_get_char_at) simp
      have ng: "neg = (char_at p (Suc pi) = CHR ''^'')" "snd (class_start (drop (Suc pi) p)) = drop (pi + k) p" "pi + k \<le> length p"
        using pi by (cases "Suc pi < length p"; auto simp: neg_def k_def class_start_def char_at_def drop_Cons_nth split: list.split)+
      obtain items r where ir: "class_parse (drop (pi + k) p) = Some (items, r)"
        using less.prems(1) cls ng(2) by (auto simp: dr plain_pattern_def glob_parse.simps token_plain_def split: option.splits)
      obtain q where q: "match_class nc (cstr p) (pi + k) (int (length p) - int (pi + k)) (cstr s) si False =
          Some (q, int (length p) - int q, list_ex (item_accepts nc (char_at s si)) items)"
        "drop (Suc q) p = r" "pi + k \<le> Suc q" "q < length p"
        using match_class_parse [OF _ ng(3) less.prems(3) ir, of nc False] k by auto
      have pq: "pi \<le> q" using q(3) by (simp add: k_def split: if_splits)
      show ?thesis
      proof (rule st [of "Class neg items" "Suc q"])
        show "glob_parse (drop pi p) = Class neg items # glob_parse (drop (Suc q) p)"
          using cls ir ng(2) q(2) by (simp add: dr glob_parse.simps neg_def)
        have "stringmatchlen nc (cstr p) pi (int (length p) - int pi) (cstr s) si (int (length s) - int si) =
            (if list_ex (item_accepts nc (char_at s si)) items = neg then Some False
             else match_next nc (cstr p) (Suc q) (int (length p) - int q - 1) (cstr s) (Suc si) (int (length s) - int si - 1))"
          using pi get one cls q(1)
          by (subst stringmatchlen.simps) (simp add: Let_def flip: ng(1) k_def, simp add: diff_diff_eq)
        then show "stringmatchlen nc (cstr p) pi (int (length p) - int pi) (cstr s) si (int (length s) - int si) =
          (if token_accepts nc (Class neg items) (char_at s si)
           then match_next nc (cstr p) (Suc q) (int (length p) - int (Suc q)) (cstr s) (Suc si) (int (length s) - int si - 1) else Some False)"
          by (auto simp: algebra_simps)
      qed (use q(4) pq in auto)
    next
      case lit
      define esc where "esc = (c = CHR 0x5C \<and> Suc pi < length p)"
      define q where "q = (if esc then Suc pi else pi)"
      have q: "q < length p" "pi \<le> q" using pi by (auto simp: q_def esc_def)
      show ?thesis
      proof (rule st [of "Lit (p ! q)" "Suc q"])
        show "glob_parse (drop pi p) = Lit (p ! q) # glob_parse (drop (Suc q) p)"
          using lit by (auto simp: dr q_def esc_def c_def drop_Cons_nth glob_parse.simps split: list.splits)
        show "stringmatchlen nc (cstr p) pi (int (length p) - int pi) (cstr s) si (int (length s) - int si) =
          (if token_accepts nc (Lit (p ! q)) (char_at s si)
           then match_next nc (cstr p) (Suc q) (int (length p) - int (Suc q)) (cstr s) (Suc si) (int (length s) - int si - 1) else Some False)"
          using lit pi get q x
          by (subst stringmatchlen.simps) (auto simp: Let_def esc_def q_def mem_get_cstr algebra_simps same_char_def)
      qed (use q in auto)
    qed
  qed
qed

subsection \<open>Theorems\<close>

text \<open>C18. The matcher implements the language of patterns, with \<^verbatim>\<open>*\<close>, \<^verbatim>\<open>?\<close>, escapes, classes and ranges, with
  and without case, on every string, and it never reads outside the blocks of the pattern and the string; this
  for patterns that do not end inside an escape of a class and none of whose literals and classes accepts a NUL byte.
  That excludes negated classes, unless they name the NUL byte.\<close>

theorem stringmatch_implements_glob:
  assumes "plain_pattern nocase p"
  shows "stringmatch_sds p s nocase = Some (glob_match nocase (glob_parse p) s)"
  using stringmatchlen_glob [of nocase 0 p 0 s] assms by (simp add: stringmatch_sds_def)

theorem stringmatch_implements_glob_witness:
  "stringmatch_sds ''h[a-e]l*[xyo]'' ''HELLO'' True = Some True"
proof -
  have "glob_parse ''h[a-e]l*[xyo]'' =
    [Lit (CHR ''h''), Class False [Range (CHR ''a'') (CHR ''e'')], Lit (CHR ''l''), Star, Class False [Ch (CHR ''x''), Ch (CHR ''y''), Ch (CHR ''o'')]]"
    by code_simp
  moreover from this have "plain_pattern True ''h[a-e]l*[xyo]''"
    unfolding plain_pattern_def by simp code_simp
  moreover have "glob_match True [Lit (CHR ''h''), Class False [Range (CHR ''a'') (CHR ''e'')], Lit (CHR ''l''), Star,
      Class False [Ch (CHR ''x''), Ch (CHR ''y''), Ch (CHR ''o'')]] ''HELLO''"
    by code_simp
  ultimately show ?thesis using stringmatch_implements_glob [of True "''h[a-e]l*[xyo]''" "''HELLO''"] by simp
qed

lemma negated_class_step:
  assumes "class_parse q = Some (items, r)" "\<not> list_ex (item_accepts nocase NUL) items"
  defines "p \<equiv> CHR ''['' # CHR ''^'' # q"
  shows "\<exists>k. k \<le> length p \<and> drop k p = r \<and>
    stringmatch_sds p [] nocase = stringmatchlen nocase (cstr p) k (int (length p) - int k) (cstr []) 1 (- 1)"
proof -
  have d: "drop 2 p = q" "2 \<le> length p" by (simp_all add: p_def)
  have get: "mem_get (cstr p) 0 = Some (CHR ''['')" "mem_get (cstr p) 1 = Some (CHR ''^'')"
    by (simp_all add: mem_get_cstr p_def)
  have c: "class_parse (drop 2 p) = Some (items, r)" using assms(1) d(1) by simp
  obtain k where k: "match_class nocase (cstr p) 2 (int (length p) - int 2) (cstr []) 0 False =
      Some (k, int (length p) - int k, False)" "drop (Suc k) p = r" "k < length p"
    using match_class_parse [OF _ d(2) _ c, of 0 "[]" nocase False] assms(2) by (auto simp: char_at_def)
  have "stringmatch_sds p [] nocase = match_next nocase (cstr p) (Suc k) (int (length p) - int k - 1) (cstr []) 1 (- 1)"
    using get k(1) d(2) unfolding stringmatch_sds_def by (subst stringmatchlen.simps) auto
  also have "\<dots> = stringmatchlen nocase (cstr p) (Suc k) (int (length p) - int (Suc k)) (cstr []) 1 (- 1)"
    by (subst match_next.simps) (simp add: algebra_simps)
  finally show ?thesis using k(2,3) by (intro exI [of _ "Suc k"]) simp
qed

text \<open>C19. A pattern that begins with a negated class goes wrong on the empty string.  Unless the class names the NUL byte, it accepts the
  terminator, and the number of characters that are left becomes -1.  When an ordinary character follows,
  the matcher reads behind the string's block; when only stars follow, it reports a match, although the class needs a character.\<close>

theorem negated_class_overruns:
  assumes "class_parse q = Some (items, c # r)" "\<not> list_ex (item_accepts nocase NUL) items"
    and "c \<notin> {CHR ''?'', CHR ''['', CHR 0x5C}" "c = CHR ''*'' \<longrightarrow> list_all (\<lambda>x. x = CHR ''*'') r"
  shows "stringmatch_sds (CHR ''['' # CHR ''^'' # q) [] nocase = (if c = CHR ''*'' then Some True else None) \<and>
    \<not> glob_match nocase (glob_parse (CHR ''['' # CHR ''^'' # q)) []"
proof -
  define p where "p = CHR ''['' # CHR ''^'' # q"
  obtain k where k: "k \<le> length p" "drop k p = c # r"
    "stringmatch_sds p [] nocase = stringmatchlen nocase (cstr p) k (int (length p) - int k) (cstr []) 1 (- 1)"
    using negated_class_step [OF assms(1,2)] unfolding p_def by blast
  have l: "k < length p" using k(1,2) by (metis drop_all leI list.distinct(1))
  then have c: "mem_get (cstr p) k = Some c" "drop (Suc k) p = r"
    using k(2) by (simp_all add: mem_get_cstr drop_Cons_nth)
  have "length r = length p - Suc k" using c(2) by (metis length_drop)
  then have s: "skip_next_stars (cstr p) k = Some (length p - 1)" if "list_all (\<lambda>x. x = CHR ''*'') r"
    using skip_next_stars_cstr [OF l] l that length_takeWhile_all [of "\<lambda>x. x = CHR ''*''" r] by (simp add: c(2))
  have "stringmatch_sds p [] nocase = (if c = CHR ''*'' then Some True else None)"
    unfolding k(3) using l c(1) s assms(3,4)
    by (subst stringmatchlen.simps) (auto simp: Let_def mem_get_def of_nat_diff)
  moreover have "\<not> glob_match nocase (glob_parse p) []"
    unfolding glob_match_parse_Nil by (simp add: p_def)
  ultimately show ?thesis unfolding p_def by simp
qed

theorem negated_class_overruns_witness:
  "stringmatch_sds ''[^a]b'' [] False = None \<and> stringmatch_sds ''[^a]*'' [] False = Some True"
proof -
  have c: "class_parse ''a]b'' = Some ([Ch (CHR ''a'')], ''b'')" "class_parse ''a]*'' = Some ([Ch (CHR ''a'')], ''*'')" by code_simp+
  show ?thesis
    using negated_class_overruns [OF c(1), of False] negated_class_overruns [OF c(2), of False] by (simp add: same_char_def)
qed

end
