(* ===== verification/Intset.thy ===== *)
theory Intset
  imports Prelude
begin

section \<open>Sets of integers as sorted packed arrays (\<^verbatim>\<open>intset.c\<close>)\<close>

text \<open>
  An intset is a header (encoding, length) and a packed byte array.  The model keeps the bytes, so
  the in-place upgrade to a wider encoding, which overlaps its source and its target, and the
  tail moves of insertion and removal are the ones of the source.  Every access is bounds-checked
  (\<open>None\<close> is an access outside the allocated block).  The 32-bit header arithmetic is written with
  its wrap-around.  Values are the \<^verbatim>\<open>int64_t\<close> values, as \<open>int\<close>.
  Names that start with an underscore in the source have the prefix \<open>u_\<close> here.
\<close>

record intset =
  is_encoding :: nat
  is_length :: nat
  contents :: "byte list"

definition INTSET_ENC_INT16 :: nat where "INTSET_ENC_INT16 = 2"
definition INTSET_ENC_INT32 :: nat where "INTSET_ENC_INT32 = 4"
definition INTSET_ENC_INT64 :: nat where "INTSET_ENC_INT64 = 8"

lemmas intset_enc_defs = INTSET_ENC_INT16_def INTSET_ENC_INT32_def INTSET_ENC_INT64_def

definition u_intsetValueEncoding :: "int \<Rightarrow> nat" where
  "u_intsetValueEncoding v =
     (if v < INT32_MIN \<or> v > INT32_MAX then INTSET_ENC_INT64
      else if v < INT16_MIN \<or> v > INT16_MAX then INTSET_ENC_INT32
      else INTSET_ENC_INT16)"

definition u_intsetGetEncoded :: "intset \<Rightarrow> nat \<Rightarrow> nat \<Rightarrow> int option" where
  "u_intsetGetEncoded is pos enc =
     (if enc = INTSET_ENC_INT64 then
        map_option le_sint (mem_read (contents is) (pos * 8) 8)
      else if enc = INTSET_ENC_INT32 then
        map_option le_sint (mem_read (contents is) (pos * 4) 4)
      else
        map_option le_sint (mem_read (contents is) (pos * 2) 2))"

definition u_intsetGet :: "intset \<Rightarrow> nat \<Rightarrow> int option" where
  "u_intsetGet is pos = u_intsetGetEncoded is pos (is_encoding is)"

definition u_intsetSet :: "intset \<Rightarrow> nat \<Rightarrow> int \<Rightarrow> intset option" where
  "u_intsetSet is pos v =
     map_option (\<lambda>m. is\<lparr>contents := m\<rparr>)
       (if is_encoding is = INTSET_ENC_INT64 then
          mem_write (contents is) (pos * 8) (le_bytes 8 v)
        else if is_encoding is = INTSET_ENC_INT32 then
          mem_write (contents is) (pos * 4) (le_bytes 4 v)
        else
          mem_write (contents is) (pos * 2) (le_bytes 2 v))"

definition intsetNew :: intset where
  "intsetNew = \<lparr>is_encoding = INTSET_ENC_INT16, is_length = 0, contents = []\<rparr>"

definition intsetResize :: "intset \<Rightarrow> nat \<Rightarrow> intset" where
  "intsetResize is len =
     (let size = (len * is_encoding is) mod 2 ^ 32
      in is\<lparr>contents := mem_realloc 0 (contents is) size\<rparr>)"

text \<open>The binary search: the loop returns \<^verbatim>\<open>min\<close>, \<^verbatim>\<open>mid\<close> and \<^verbatim>\<open>cur\<close> as they are after it.\<close>

function intsetSearch_loop ::
  "intset \<Rightarrow> int \<Rightarrow> int \<Rightarrow> int \<Rightarrow> int \<Rightarrow> int \<Rightarrow> (int \<times> int \<times> int) option" where
  "intsetSearch_loop is v mn mx mid cur =
     (if mx \<ge> mn then
        let mid' = (mn + mx) div 2 in
        case u_intsetGet is (nat mid') of
          None \<Rightarrow> None
        | Some c \<Rightarrow>
            if v > c then intsetSearch_loop is v (mid' + 1) mx mid' c
            else if v < c then intsetSearch_loop is v mn (mid' - 1) mid' c
            else Some (mn, mid', c)
      else Some (mn, mid, cur))"
  by pat_completeness auto
termination
  by (relation "measure (\<lambda>(is, v, mn, mx, mid, cur). nat (mx - mn + 1))") auto

declare intsetSearch_loop.simps [simp del]

definition intsetSearch :: "intset \<Rightarrow> int \<Rightarrow> (bool \<times> nat) option" where
  "intsetSearch is v =
     (if is_length is = 0 then Some (False, 0)
      else do {
        lastv \<leftarrow> u_intsetGet is (is_length is - 1);
        if v > lastv then Some (False, is_length is)
        else do {
          firstv \<leftarrow> u_intsetGet is 0;
          if v < firstv then Some (False, 0)
          else do {
            (mn, mid, cur) \<leftarrow>
              intsetSearch_loop is v 0 (int (is_length is) - 1) (- 1) (- 1);
            if v = cur then Some (True, nat mid) else Some (False, nat mn)
          }
        }
      })"

text \<open>\<open>while(length--) _intsetSet(is,length+prepend,_intsetGetEncoded(is,length,curenc))\<close>.\<close>

fun upgrade_loop :: "nat \<Rightarrow> nat \<Rightarrow> nat \<Rightarrow> intset \<Rightarrow> intset option" where
  "upgrade_loop curenc prepend 0 is = Some is"
| "upgrade_loop curenc prepend (Suc n) is = do {
     v \<leftarrow> u_intsetGetEncoded is n curenc;
     is' \<leftarrow> u_intsetSet is (n + prepend) v;
     upgrade_loop curenc prepend n is'
   }"

definition intsetUpgradeAndAdd :: "intset \<Rightarrow> int \<Rightarrow> intset option" where
  "intsetUpgradeAndAdd is v =
     (let curenc = is_encoding is;
          newenc = u_intsetValueEncoding v;
          len = is_length is;
          prepend = (if v < 0 then 1 else 0);
          is1 = intsetResize (is\<lparr>is_encoding := newenc\<rparr>) ((len + 1) mod 2 ^ 32)
      in do {
        is2 \<leftarrow> upgrade_loop curenc prepend len is1;
        is3 \<leftarrow> (if prepend = 1 then u_intsetSet is2 0 v else u_intsetSet is2 (is_length is2) v);
        Some (is3\<lparr>is_length := (is_length is3 + 1) mod 2 ^ 32\<rparr>)
      })"

definition intsetMoveTail :: "intset \<Rightarrow> nat \<Rightarrow> nat \<Rightarrow> intset option" where
  "intsetMoveTail is from to =
     (let n = nat ((int (is_length is) - int from) mod 2 ^ 32);
          w = (if is_encoding is = INTSET_ENC_INT64 then 8
               else if is_encoding is = INTSET_ENC_INT32 then 4 else 2)
      in map_option (\<lambda>m. is\<lparr>contents := m\<rparr>)
           (mem_move (contents is) (to * w) (from * w) ((n * w) mod 2 ^ 32)))"

definition intsetAdd :: "intset \<Rightarrow> int \<Rightarrow> (intset \<times> bool) option" where
  "intsetAdd is v =
     (if u_intsetValueEncoding v > is_encoding is then
        map_option (\<lambda>is'. (is', True)) (intsetUpgradeAndAdd is v)
      else do {
        (found, pos) \<leftarrow> intsetSearch is v;
        if found then Some (is, False)
        else do {
          let is1 = intsetResize is ((is_length is + 1) mod 2 ^ 32);
          is2 \<leftarrow> (if pos < is_length is1 then intsetMoveTail is1 pos (pos + 1) else Some is1);
          is3 \<leftarrow> u_intsetSet is2 pos v;
          Some (is3\<lparr>is_length := (is_length is3 + 1) mod 2 ^ 32\<rparr>, True)
        }
      })"

definition intsetRemove :: "intset \<Rightarrow> int \<Rightarrow> (intset \<times> bool) option" where
  "intsetRemove is v =
     (if u_intsetValueEncoding v \<le> is_encoding is then do {
        (found, pos) \<leftarrow> intsetSearch is v;
        if found then do {
          let len = is_length is;
          is1 \<leftarrow> (if pos < len - 1 then intsetMoveTail is (pos + 1) pos else Some is);
          let is2 = intsetResize is1 (len - 1);
          Some (is2\<lparr>is_length := len - 1\<rparr>, True)
        }
        else Some (is, False)
      }
      else Some (is, False))"

definition intsetFind :: "intset \<Rightarrow> int \<Rightarrow> bool option" where
  "intsetFind is v =
     (if u_intsetValueEncoding v \<le> is_encoding is
      then map_option fst (intsetSearch is v) else Some False)"

text \<open>\<open>r\<close> is the value of \<open>rand()\<close>; a remainder by zero is a trap.\<close>

definition intsetRandom :: "nat \<Rightarrow> intset \<Rightarrow> int option" where
  "intsetRandom r is =
     (if is_length is = 0 then None else u_intsetGet is (r mod is_length is))"

text \<open>The outer option is the memory access, the inner one the result flag.\<close>

definition intsetGet :: "intset \<Rightarrow> nat \<Rightarrow> int option option" where
  "intsetGet is pos =
     (if pos < is_length is then map_option Some (u_intsetGet is pos) else Some None)"

definition intsetLen :: "intset \<Rightarrow> nat" where
  "intsetLen is = is_length is"

definition intsetBlobLen :: "intset \<Rightarrow> nat" where
  "intsetBlobLen is = 8 + (is_length is * is_encoding is) mod 2 ^ 32"

subsection \<open>Representation\<close>

text \<open>\<open>intset_rep is xs\<close>: the block holds exactly the elements \<open>xs\<close>, in strictly ascending order, each
  in its encoding.  The bound on the number of elements keeps the byte count of a one-element
  larger array inside the 32-bit size computations; the set type converts an intset to a hash
  table long before (\<^verbatim>\<open>set-max-intset-entries\<close>).\<close>

abbreviation intset_max :: nat where "intset_max \<equiv> 2 ^ 28"

abbreviation valid_enc :: "nat \<Rightarrow> bool" where "valid_enc k \<equiv> k = 2 \<or> k = 4 \<or> k = 8"

definition intset_rep :: "intset \<Rightarrow> int list \<Rightarrow> bool" where
  "intset_rep is xs \<longleftrightarrow>
     valid_enc (is_encoding is) \<and> is_length is = length xs \<and>
     contents is = concat (map (le_bytes (is_encoding is)) xs) \<and>
     (\<forall>x \<in> set xs. in_sint (8 * is_encoding is) x) \<and>
     sorted_wrt (<) xs \<and> length xs < intset_max"

definition intset_elems :: "intset \<Rightarrow> int list" where
  "intset_elems is = map (\<lambda>i. the (u_intsetGet is i)) [0..<is_length is]"

definition intset_inv :: "intset \<Rightarrow> bool" where
  "intset_inv is \<longleftrightarrow> intset_rep is (intset_elems is)"

definition intset_set :: "intset \<Rightarrow> int set" where
  "intset_set is = set (intset_elems is)"

lemma getEncoded_eq:
  "valid_enc k \<Longrightarrow> u_intsetGetEncoded is i k = map_option le_sint (mem_read (contents is) (i * k) k)"
  by (auto simp: u_intsetGetEncoded_def intset_enc_defs)

lemma set_eq:
  "valid_enc (is_encoding is) \<Longrightarrow>
   u_intsetSet is i v = map_option (\<lambda>m. is\<lparr>contents := m\<rparr>)
     (mem_write (contents is) (i * is_encoding is) (le_bytes (is_encoding is) v))"
  by (auto simp: u_intsetSet_def intset_enc_defs)

lemma moveTail_eq:
  "valid_enc (is_encoding is) \<Longrightarrow> from \<le> is_length is \<Longrightarrow> is_length is < intset_max \<Longrightarrow>
   intsetMoveTail is from to = map_option (\<lambda>m. is\<lparr>contents := m\<rparr>)
     (mem_move (contents is) (to * is_encoding is) (from * is_encoding is)
       ((is_length is - from) * is_encoding is))"
  by (auto simp: intsetMoveTail_def intset_enc_defs Let_def of_nat_diff [symmetric]
      simp del: of_nat_diff)

lemma set_chunk:
  assumes "valid_enc (is_encoding is)" and "contents is = concat cs"
    and "chunks_of (is_encoding is) cs" and "i < length cs"
  shows "u_intsetSet is i v = Some (is\<lparr>contents := concat (cs[i := le_bytes (is_encoding is) v])\<rparr>)"
  using assms by (simp add: set_eq mem_write_chunk)

lemma rep_get: "intset_rep is xs \<Longrightarrow> i < length xs \<Longrightarrow> u_intsetGet is i = Some (xs ! i)"
proof -
  assume r: "intset_rep is xs" and i: "i < length xs"
  let ?k = "is_encoding is"
  have "mem_read (contents is) (i * ?k) ?k = Some (map (le_bytes ?k) xs ! i)"
    using r i mem_read_chunk [of ?k "map (le_bytes ?k) xs" i] by (simp add: intset_rep_def)
  moreover have "le_sint (le_bytes ?k (xs ! i)) = xs ! i"
    using r i by (intro le_sint_le_bytes) (auto simp: intset_rep_def)
  ultimately show ?thesis
    using r i by (simp add: u_intsetGet_def getEncoded_eq intset_rep_def)
qed

lemma rep_elems: "intset_rep is xs \<Longrightarrow> intset_elems is = xs"
proof -
  assume r: "intset_rep is xs"
  then have "is_length is = length xs" by (simp add: intset_rep_def)
  with r show ?thesis
    by (intro nth_equalityI) (auto simp: intset_elems_def rep_get)
qed

lemma rep_inv: "intset_rep is xs \<Longrightarrow> intset_inv is \<and> intset_set is = set xs"
  by (simp add: intset_inv_def intset_set_def rep_elems)

lemma inv_rep: "intset_inv is \<Longrightarrow> \<exists>xs. intset_rep is xs \<and> intset_set is = set xs"
  by (auto simp: intset_inv_def intset_set_def)

lemma valueEncoding_range:
  "valid_enc k \<Longrightarrow> is_llong v \<Longrightarrow> u_intsetValueEncoding v \<le> k \<longleftrightarrow> in_sint (8 * k) v"
  by (auto simp: u_intsetValueEncoding_def in_sint_def intset_enc_defs crange_simps)

lemma valueEncoding_valid: "valid_enc (u_intsetValueEncoding v)"
  by (auto simp: u_intsetValueEncoding_def intset_enc_defs)

subsection \<open>Binary search\<close>

abbreviation ins_pos :: "int \<Rightarrow> int list \<Rightarrow> nat" where
  "ins_pos v xs \<equiv> length (takeWhile (\<lambda>x. x < v) xs)"

lemma ins_posI:
  assumes "p \<le> length xs" and "\<And>i. i < p \<Longrightarrow> xs ! i < v" and "p < length xs \<Longrightarrow> v \<le> xs ! p"
  shows "ins_pos v xs = p"
proof -
  have "takeWhile (\<lambda>x. x < v) xs = take p xs"
    using assms by (intro takeWhile_eq_take_P_nth) auto
  with assms(1) show ?thesis by simp
qed

lemma rep_less: "intset_rep is xs \<Longrightarrow> i < j \<Longrightarrow> j < length xs \<Longrightarrow> xs ! i < xs ! j"
  by (auto simp: intset_rep_def sorted_wrt_iff_nth_less)

lemma search_loop_correct:
  assumes rep: "intset_rep is xs"
  shows "0 \<le> mn \<Longrightarrow> mx < int (length xs) \<Longrightarrow> mn \<le> mx + 1 \<Longrightarrow>
    (\<And>i. int i < mn \<Longrightarrow> xs ! i < v) \<Longrightarrow>
    (\<And>i. mx < int i \<Longrightarrow> i < length xs \<Longrightarrow> v < xs ! i) \<Longrightarrow> mn \<le> mx \<or> cur \<noteq> v \<Longrightarrow>
    \<exists>mn' mid' cur'. intsetSearch_loop is v mn mx mid cur = Some (mn', mid', cur') \<and>
      (if v \<in> set xs then cur' = v \<and> nat mid' = ins_pos v xs
       else cur' \<noteq> v \<and> nat mn' = ins_pos v xs)"
proof (induction "nat (mx - mn + 1)" arbitrary: mn mx mid cur rule: less_induct)
  case less
  show ?case
  proof (cases "mn \<le> mx")
    case False
    then have mx: "mx = mn - 1" using less.prems(3) by simp
    have "xs ! i \<noteq> v" if "i < length xs" for i
      using less.prems(4) [of i] less.prems(5) [of i] that mx by (cases "int i < mn") auto
    then have "v \<notin> set xs" by (auto simp: in_set_conv_nth)
    moreover have "ins_pos v xs = nat mn"
      using less.prems mx by (intro ins_posI) (auto intro: less_imp_le)
    ultimately show ?thesis
      using False less.prems(6) by (subst intsetSearch_loop.simps) auto
  next
    case True
    define m where "m = (mn + mx) div 2"
    have m: "mn \<le> m" "m \<le> mx" "nat m < length xs" "0 \<le> m"
      using True less.prems(1,2) by (auto simp: m_def)
    have get: "u_intsetGet is (nat m) = Some (xs ! nat m)" by (rule rep_get [OF rep m(3)])
    have lo: "xs ! i < v" if "xs ! nat m < v" "int i < m + 1" for i
      using that m rep_less [OF rep, of i "nat m"]
      by (cases "int i = m") (auto simp: zless_nat_eq_int_zless)
    have hi: "v < xs ! i" if "v < xs ! nat m" "m - 1 < int i" "i < length xs" for i
      using that m rep_less [OF rep, of "nat m" i] by (cases "int i = m") (auto simp: nat_less_iff)
    consider "xs ! nat m < v" | "v < xs ! nat m" | "xs ! nat m = v" by fastforce
    then show ?thesis
    proof cases
      case 1
      have "\<exists>mn' mid' cur'. intsetSearch_loop is v (m + 1) mx m (xs ! nat m) = Some (mn', mid', cur') \<and>
          (if v \<in> set xs then cur' = v \<and> nat mid' = ins_pos v xs
           else cur' \<noteq> v \<and> nat mn' = ins_pos v xs)"
        by (rule less.hyps) (use 1 m less.prems(1,2) in \<open>auto intro: lo [OF 1] less.prems(5)\<close>)
      with 1 get True show ?thesis
        by (subst intsetSearch_loop.simps) (simp add: Let_def m_def [symmetric])
    next
      case 2
      have "\<exists>mn' mid' cur'. intsetSearch_loop is v mn (m - 1) m (xs ! nat m) = Some (mn', mid', cur') \<and>
          (if v \<in> set xs then cur' = v \<and> nat mid' = ins_pos v xs
           else cur' \<noteq> v \<and> nat mn' = ins_pos v xs)"
        by (rule less.hyps) (use 2 m less.prems(1,2) in \<open>auto intro: hi [OF 2] less.prems(4)\<close>)
      with 2 get True show ?thesis
        by (subst intsetSearch_loop.simps) (simp add: Let_def m_def [symmetric])
    next
      case 3
      have "ins_pos v xs = nat m"
        using 3 m rep_less [OF rep, of _ "nat m"] by (intro ins_posI) auto
      moreover have "v \<in> set xs" using 3 m(3) by auto
      ultimately show ?thesis
        using 3 get True by (subst intsetSearch_loop.simps) (auto simp: Let_def m_def [symmetric])
    qed
  qed
qed

lemma search_correct:
  assumes rep: "intset_rep is xs"
  shows "intsetSearch is v = Some (v \<in> set xs, ins_pos v xs)"
proof (cases "xs = []")
  case True
  with rep show ?thesis by (simp add: intsetSearch_def intset_rep_def)
next
  case False
  have len: "is_length is = length xs" using rep by (simp add: intset_rep_def)
  have l: "u_intsetGet is (length xs - 1) = Some (last xs)"
    and f: "u_intsetGet is 0 = Some (hd xs)"
    using False rep_get [OF rep, of "length xs - 1"] rep_get [OF rep, of 0]
    by (auto simp: last_conv_nth hd_conv_nth)
  have hi: "x \<le> last xs" if "x \<in> set xs" for x
    using that False rep_less [OF rep, of _ "length xs - 1"]
    by (auto simp: in_set_conv_nth last_conv_nth)
       (metis One_nat_def Suc_pred diff_less_Suc leD le_less_linear length_greater_0_conv less_antisym less_imp_le order_refl)
  have lo: "hd xs \<le> x" if "x \<in> set xs" for x
    using that False rep_less [OF rep, of 0]
    by (auto simp: in_set_conv_nth hd_conv_nth) (metis gr0I less_imp_le order_refl)
  consider "last xs < v" | "\<not> last xs < v" "v < hd xs" | "\<not> last xs < v" "\<not> v < hd xs" by blast
  then show ?thesis
  proof cases
    case 1
    then have all: "\<forall>x \<in> set xs. x < v" using hi by fastforce
    then have "ins_pos v xs = length xs" by (simp add: takeWhile_eq_all_conv [THEN iffD2])
    with 1 all l len False show ?thesis by (auto simp: intsetSearch_def)
  next
    case 2
    then have "v \<notin> set xs" and "ins_pos v xs = 0"
      using lo False by (fastforce, cases xs, auto)
    with 2 l f len False show ?thesis by (auto simp: intsetSearch_def)
  next
    case 3
    with search_loop_correct [OF rep, of 0 "int (length xs) - 1" v "- 1" "- 1"] l f len False
    show ?thesis by (auto simp: intsetSearch_def Suc_le_eq split: if_splits)
  qed
qed

subsection \<open>Insertion without upgrade\<close>

lemma sorted_insert_at:
  assumes "sorted_wrt (<) xs" and "v \<notin> set xs"
  shows "sorted_wrt (<) (take (ins_pos v xs) xs @ v # drop (ins_pos v xs) xs)"
  using assms
proof (induction xs)
  case (Cons x xs)
  have "set (take (ins_pos v xs) xs) \<subseteq> set xs" "set (drop (ins_pos v xs) xs) \<subseteq> set xs"
    by (rule set_take_subset, rule set_drop_subset)
  with Cons show ?case by (cases "x < v") fastforce+
qed simp

lemma set_insert_at: "set (take n xs @ v # drop n xs) = insert v (set xs)"
proof -
  have "set xs = set (take n xs) \<union> set (drop n xs)"
    by (metis append_take_drop_id set_append)
  then show ?thesis by auto
qed

lemma resize_grow:
  assumes "intset_rep is xs"
  shows "intsetResize is ((is_length is + 1) mod 2 ^ 32) =
    is\<lparr>contents := concat (map (le_bytes (is_encoding is)) xs @ [replicate (is_encoding is) 0])\<rparr>"
proof -
  let ?k = "is_encoding is" and ?cs = "map (le_bytes (is_encoding is)) xs"
  have b: "valid_enc ?k" "is_length is = length xs" "length xs < 2 ^ 28" "contents is = concat ?cs"
    using assms by (auto simp: intset_rep_def)
  have "Suc (length xs) * ?k \<le> 2 ^ 28 * 8"
    using b by (intro mult_le_mono) auto
  then have sz: "(Suc (length xs) mod 2 ^ 32) * ?k mod 2 ^ 32 = Suc (length xs) * ?k"
    using b(3) by simp
  have "mem_realloc 0 (concat ?cs) (Suc (length xs) * ?k) = concat (?cs @ [replicate ?k 0])"
    using mem_realloc_chunks(1) [of ?k ?cs 0] by simp
  with b sz show ?thesis by (simp add: intsetResize_def Let_def)
qed

lemma add_plain:
  assumes rep: "intset_rep is xs" and range: "in_sint (8 * is_encoding is) v"
    and new: "v \<notin> set xs" and room: "Suc (length xs) < intset_max"
    and enc: "u_intsetValueEncoding v \<le> is_encoding is"
  shows "\<exists>is'. intsetAdd is v = Some (is', True) \<and>
    intset_rep is' (take (ins_pos v xs) xs @ v # drop (ins_pos v xs) xs)"
proof -
  let ?k = "is_encoding is" and ?p = "ins_pos v xs"
  let ?cs = "map (le_bytes ?k) xs @ [replicate ?k 0]"
  define is1 where "is1 = is\<lparr>contents := concat ?cs\<rparr>"
  let ?ys = "take ?p xs @ v # drop ?p xs"
  have k: "valid_enc ?k" and len: "is_length is = length xs"
    using rep by (simp_all add: intset_rep_def)
  have p: "?p \<le> length xs" by (rule length_takeWhile_le)
  have cs: "chunks_of ?k ?cs" by simp
  obtain ds where mv: "(if ?p < is_length is1 then intsetMoveTail is1 ?p (?p + 1) else Some is1)
      = Some (is\<lparr>contents := concat ds\<rparr>)" and ds: "chunks_of ?k ds" "length ds = Suc (length xs)"
      "ds[?p := le_bytes ?k v] = map (le_bytes ?k) ?ys"
  proof (cases "?p < length xs")
    case True
    let ?ds = "take (Suc ?p) ?cs @ take (length xs - ?p) (drop ?p ?cs) @
      drop (Suc ?p + (length xs - ?p)) ?cs"
    have "mem_move (concat ?cs) (Suc ?p * ?k) (?p * ?k) ((length xs - ?p) * ?k) = Some (concat ?ds)"
      using True by (intro mem_move_chunks [OF cs]) auto
    then have "intsetMoveTail is1 ?p (Suc ?p) = Some (is\<lparr>contents := concat ?ds\<rparr>)"
      using k len p room by (subst moveTail_eq) (auto simp: is1_def)
    with True len show thesis
      by (intro that [of ?ds])
         (auto simp: is1_def list_update_append take_map drop_map chunks_of_def take_Suc_conv_app_nth
           dest!: in_set_takeD in_set_dropD)
  next
    case False
    with p have "?p = length xs" by simp
    with len show thesis by (intro that [of ?cs]) (auto simp: is1_def list_update_append)
  qed
  have "u_intsetSet (is\<lparr>contents := concat ds\<rparr>) ?p v =
      Some (is\<lparr>contents := concat (ds[?p := le_bytes ?k v])\<rparr>)"
    using set_chunk [of "is\<lparr>contents := concat ds\<rparr>" ds ?p v] k ds p by simp
  then have "intsetAdd is v =
      Some (is\<lparr>contents := concat (map (le_bytes ?k) ?ys), is_length := Suc (length xs)\<rparr>, True)"
    using enc new search_correct [OF rep] resize_grow [OF rep, folded is1_def] mv len room ds(3)
    by (simp add: intsetAdd_def Let_def split del: if_split)
  moreover have "intset_rep (is\<lparr>contents := concat (map (le_bytes ?k) ?ys),
      is_length := Suc (length xs)\<rparr>) ?ys"
    using rep range new room sorted_insert_at [of xs v] set_insert_at [of ?p xs v] p
    unfolding intset_rep_def by simp
  ultimately show ?thesis by blast
qed

subsection \<open>Removal\<close>

lemma sorted_wrt_drop: "sorted_wrt P xs \<Longrightarrow> sorted_wrt P (drop n xs)"
  by (induction xs arbitrary: n) (auto simp: drop_Cons split: nat.split)

lemma sorted_wrt_take: "sorted_wrt P xs \<Longrightarrow> sorted_wrt P (take n xs)"
  by (induction xs arbitrary: n) (auto simp: take_Cons split: nat.split dest: in_set_takeD)

lemma remove_at:
  assumes "sorted_wrt (<) (xs :: int list)" and "p < length xs"
  shows "sorted_wrt (<) (take p xs @ drop (Suc p) xs)"
    and "set (take p xs @ drop (Suc p) xs) = set xs - {xs ! p}"
proof -
  have s: "sorted_wrt (<) (take p xs @ xs ! p # drop (Suc p) xs)"
    using assms by (simp add: id_take_nth_drop [symmetric])
  then show "sorted_wrt (<) (take p xs @ drop (Suc p) xs)" by (auto simp: sorted_wrt_append)
  have "set xs = set (take p xs @ xs ! p # drop (Suc p) xs)"
    using assms(2) by (simp add: id_take_nth_drop [symmetric])
  with s show "set (take p xs @ drop (Suc p) xs) = set xs - {xs ! p}"
    by (auto simp: sorted_wrt_append)
qed

lemma ins_pos_nth: "sorted_wrt (<) xs \<Longrightarrow> v \<in> set xs \<Longrightarrow> ins_pos v xs < length xs \<and> xs ! ins_pos v xs = v"
  by (induction xs) auto

lemma remove_found:
  assumes rep: "intset_rep is xs" and v: "v \<in> set xs" and ll: "is_llong v"
  shows "\<exists>is'. intsetRemove is v = Some (is', True) \<and>
    intset_rep is' (take (ins_pos v xs) xs @ drop (Suc (ins_pos v xs)) xs)"
proof -
  let ?k = "is_encoding is" and ?p = "ins_pos v xs"
  let ?cs = "map (le_bytes ?k) xs" and ?ys = "take ?p xs @ drop (Suc ?p) xs"
  have k: "valid_enc ?k" and len: "is_length is = length xs" and srt: "sorted_wrt (<) xs"
    and c: "contents is = concat ?cs" and b: "length xs < 2 ^ 28"
    and enc: "u_intsetValueEncoding v \<le> ?k"
    using rep v ll by (auto simp: intset_rep_def valueEncoding_range)
  have p: "?p < length xs" "xs ! ?p = v" using ins_pos_nth [OF srt v] by auto
  let ?ds = "take ?p ?cs @ take (length xs - Suc ?p) (drop (Suc ?p) ?cs) @
    drop (?p + (length xs - Suc ?p)) ?cs"
  have mv: "(if ?p < length xs - 1 then intsetMoveTail is (?p + 1) ?p else Some is) =
      Some (is\<lparr>contents := concat ?ds\<rparr>)"
  proof (cases "?p < length xs - 1")
    case True
    have "mem_move (concat ?cs) (?p * ?k) (Suc ?p * ?k) ((length xs - Suc ?p) * ?k) = Some (concat ?ds)"
      using True by (intro mem_move_chunks) auto
    with True k len b c show ?thesis by (simp add: moveTail_eq)
  next
    case False
    with p have "length xs = Suc ?p" by simp
    then have "?ds = ?cs" by (simp add: take_map drop_map flip: map_append)
    with False c show ?thesis by simp
  qed
  have "(length xs - 1) * ?k \<le> 2 ^ 28 * 8" using k b by (intro mult_le_mono) auto
  then have sz: "(length xs - 1) * ?k mod 2 ^ 32 = (length xs - 1) * ?k" by simp
  have "mem_realloc 0 (concat ?ds) ((length xs - 1) * ?k) = concat (take (length xs - 1) ?ds)"
    using p by (intro mem_realloc_chunks(2)) (auto simp: chunks_of_take chunks_of_drop)
  also have "take (length xs - 1) ?ds = map (le_bytes ?k) ?ys"
    using p(1) min_absorb2 [of ?p "length xs - 1"] by (simp add: take_map drop_map)
  finally have "intsetResize (is\<lparr>contents := concat ?ds\<rparr>) (length xs - 1) =
      is\<lparr>contents := concat (map (le_bytes ?k) ?ys)\<rparr>"
    using sz by (simp add: intsetResize_def Let_def)
  then have "intsetRemove is v =
      Some (is\<lparr>contents := concat (map (le_bytes ?k) ?ys), is_length := length xs - 1\<rparr>, True)"
    using enc v len mv search_correct [OF rep]
    by (simp add: intsetRemove_def Let_def split del: if_split)
  moreover have "intset_rep (is\<lparr>contents := concat (map (le_bytes ?k) ?ys),
      is_length := length xs - 1\<rparr>) ?ys"
    using rep p remove_at [OF srt p(1)] unfolding intset_rep_def
    by (auto dest: in_set_takeD in_set_dropD)
  ultimately show ?thesis by blast
qed

subsection \<open>Upgrade\<close>

text \<open>The state of the back-to-front loop with \<open>m\<close> elements left: the first \<open>m\<close> elements are still
  in the old encoding at the front, the others are in the new encoding at their final place.\<close>

lemma upgrade_loop_correct:
  assumes k: "valid_enc k" and K: "valid_enc K" "k \<le> K" and p: "p \<le> 1"
    and range: "\<forall>x \<in> set xs. in_sint (8 * k) x"
  shows "is_encoding is = K \<Longrightarrow> length (contents is) = Suc (length xs) * K \<Longrightarrow> m \<le> length xs \<Longrightarrow>
    take (m * k) (contents is) = concat (map (le_bytes k) (take m xs)) \<Longrightarrow>
    take ((length xs - m) * K) (drop ((m + p) * K) (contents is)) =
      concat (map (le_bytes K) (drop m xs)) \<Longrightarrow>
    \<exists>c. upgrade_loop k p m is = Some (is\<lparr>contents := c\<rparr>) \<and> length c = Suc (length xs) * K \<and>
      take (length xs * K) (drop (p * K) c) = concat (map (le_bytes K) xs)"
proof (induction m arbitrary: "is")
  case 0
  then show ?case by (intro exI [of _ "contents is"]) simp
next
  case (Suc m)
  let ?c = "contents is" and ?x = "xs ! m"
  have m: "m < length xs" using Suc.prems(3) by simp
  have le1: "m * k \<le> (m + p) * K" using K(2) by (intro mult_le_mono) auto
  have "(m + p + 1) * K \<le> Suc (length xs) * K" using m p by (intro mult_le_mono1) auto
  then have room: "(m + p) * K + K \<le> length ?c" using Suc.prems(2) by simp
  have "Suc m * k \<le> Suc (length xs) * K" using K(2) m by (intro mult_le_mono) auto
  then have in_c: "m * k + k \<le> length ?c" using Suc.prems(2) by simp
  have "take k (drop (m * k) ?c) = drop (m * k) (take (Suc m * k) ?c)"
    by (simp add: take_drop add.commute)
  also have "\<dots> = drop (m * k) (concat (map (le_bytes k) (take m xs)) @ le_bytes k ?x)"
    using Suc.prems(4) m by (simp add: take_Suc_conv_app_nth)
  also have "\<dots> = le_bytes k ?x"
    using length_concat_chunks [of k "map (le_bytes k) (take m xs)"] m by simp
  finally have get: "u_intsetGetEncoded is m k = Some ?x"
    using in_c k range m le_sint_le_bytes [of k ?x] by (auto simp: getEncoded_eq mem_read_Some)
  define c' where "c' = take ((m + p) * K) ?c @ le_bytes K ?x @ drop ((m + p) * K + K) ?c"
  have put: "u_intsetSet is (m + p) ?x = Some (is\<lparr>contents := c'\<rparr>)"
    using K(1) Suc.prems(1) room by (simp add: set_eq mem_write_Some c'_def)
  have "take (m * k) c' = take (m * k) ?c"
    using le1 room by (simp add: c'_def min_absorb1)
  also have "\<dots> = take (m * k) (take (Suc m * k) ?c)" by (simp add: min_absorb1)
  also have "\<dots> = concat (map (le_bytes k) (take m xs))"
    unfolding Suc.prems(4)
    using take_concat_chunks [of k "map (le_bytes k) (take (Suc m) xs)" m] by (simp add: take_map)
  finally have front: "take (m * k) c' = concat (map (le_bytes k) (take m xs))" .
  have n: "(length xs - m) * K = K + (length xs - Suc m) * K"
    using m by (metis Suc_diff_Suc mult_Suc)
  have "take ((length xs - m) * K) (drop ((m + p) * K) c') =
      le_bytes K ?x @ take ((length xs - Suc m) * K) (drop ((Suc m + p) * K) ?c)"
    using room by (simp add: c'_def n add.commute)
  also have "\<dots> = concat (map (le_bytes K) (drop m xs))"
    using Suc.prems(5) m by (simp add: Cons_nth_drop_Suc [symmetric])
  finally have rear: "take ((length xs - m) * K) (drop ((m + p) * K) c') =
      concat (map (le_bytes K) (drop m xs))" .
  have "length c' = length ?c" using room by (simp add: c'_def)
  with Suc.IH [of "is\<lparr>contents := c'\<rparr>"] Suc.prems(1,2) m front rear
  show ?case using get put by simp
qed

lemma add_upgrade:
  assumes rep: "intset_rep is xs" and enc: "u_intsetValueEncoding v > is_encoding is"
    and ll: "is_llong v" and room: "Suc (length xs) < intset_max"
  shows "\<exists>is'. intsetAdd is v = Some (is', True) \<and>
    intset_rep is' (if v < 0 then v # xs else xs @ [v])"
proof -
  let ?k = "is_encoding is" and ?K = "u_intsetValueEncoding v"
  define p :: nat where "p = (if v < 0 then 1 else 0)"
  have p: "p \<le> 1" "p = 1 \<longleftrightarrow> v < 0" "\<not> v < 0 \<Longrightarrow> p = 0" by (auto simp: p_def)
  let ?n = "length xs"
  let ?m = "mem_realloc 0 (contents is) (Suc ?n * ?K)"
  let ?is1 = "is\<lparr>is_encoding := ?K, contents := ?m\<rparr>"
  have k: "valid_enc ?k" and len: "is_length is = ?n" and b: "?n < 2 ^ 28"
    and c: "contents is = concat (map (le_bytes ?k) xs)"
    and range: "\<forall>x \<in> set xs. in_sint (8 * ?k) x" and srt: "sorted_wrt (<) xs"
    using rep by (auto simp: intset_rep_def)
  have K: "valid_enc ?K" by (rule valueEncoding_valid)
  have "Suc ?n * ?K \<le> 2 ^ 28 * 8" using K room by (intro mult_le_mono) auto
  then have resize: "intsetResize (is\<lparr>is_encoding := ?K\<rparr>) ((?n + 1) mod 2 ^ 32) = ?is1"
    using b by (simp add: intsetResize_def Let_def)
  have clen: "length (contents is) = ?n * ?k"
    using c length_concat_chunks [of ?k "map (le_bytes ?k) xs"] by simp
  have "?n * ?k \<le> Suc ?n * ?K" using enc by (intro mult_le_mono) auto
  with clen have "take (?n * ?k) ?m = contents is"
    by (simp add: mem_realloc_def)
  then have "\<exists>d. upgrade_loop ?k p ?n ?is1 = Some (?is1\<lparr>contents := d\<rparr>) \<and>
      length d = Suc ?n * ?K \<and> take (?n * ?K) (drop (p * ?K) d) = concat (map (le_bytes ?K) xs)"
    using k K p(1) enc range c by (intro upgrade_loop_correct) simp_all
  then obtain d where loop: "upgrade_loop ?k p ?n ?is1 = Some (?is1\<lparr>contents := d\<rparr>)"
    and dlen: "length d = Suc ?n * ?K"
    and d: "take (?n * ?K) (drop (p * ?K) d) = concat (map (le_bytes ?K) xs)"
    by blast
  let ?ys = "if v < 0 then v # xs else xs @ [v]"
  define is2 where "is2 = ?is1\<lparr>contents := d\<rparr>"
  have fin: "(if p = 1 then u_intsetSet is2 0 v else u_intsetSet is2 (is_length is2) v) =
      Some (?is1\<lparr>contents := concat (map (le_bytes ?K) ?ys)\<rparr>)"
    using K d dlen p len by (auto simp: set_eq mem_write_Some is2_def)
  have "intsetUpgradeAndAdd is v =
      Some (?is1\<lparr>contents := concat (map (le_bytes ?K) ?ys), is_length := Suc ?n\<rparr>)"
    unfolding intsetUpgradeAndAdd_def Let_def p_def [symmetric] len resize
    using loop [folded is2_def] fin len b by (simp split del: if_split)
  then have "intsetAdd is v =
      Some (?is1\<lparr>contents := concat (map (le_bytes ?K) ?ys), is_length := Suc ?n\<rparr>, True)"
    using enc by (simp add: intsetAdd_def)
  moreover have "\<not> in_sint (8 * ?k) v" "in_sint (8 * ?K) v"
    using valueEncoding_range [OF k ll] valueEncoding_range [OF K ll] enc by auto
  then have "intset_rep (?is1\<lparr>contents := concat (map (le_bytes ?K) ?ys), is_length := Suc ?n\<rparr>) ?ys"
    using range k K enc room srt unfolding intset_rep_def
    by (fastforce simp: in_sint_def sorted_wrt_append)
  ultimately show ?thesis by blast
qed

subsection \<open>The set interface\<close>

text \<open>What the set type relies on: an implementation of a set with a bound on its size, whose
  operations never leave their block.\<close>

locale bounded_set =
  fixes empty :: 's
    and add :: "'s \<Rightarrow> 'a \<Rightarrow> ('s \<times> bool) option"
    and remove :: "'s \<Rightarrow> 'a \<Rightarrow> ('s \<times> bool) option"
    and isin :: "'s \<Rightarrow> 'a \<Rightarrow> bool option"
    and elems :: "'s \<Rightarrow> 'a set"
    and invar :: "'s \<Rightarrow> bool"
    and storable :: "'a \<Rightarrow> bool"
    and cap :: nat
  assumes elems_empty: "elems empty = {}" and invar_empty: "invar empty"
    and finite_elems: "invar s \<Longrightarrow> finite (elems s)"
    and add_spec: "invar s \<Longrightarrow> storable v \<Longrightarrow> card (elems s) < cap \<Longrightarrow>
      \<exists>s'. add s v = Some (s', v \<notin> elems s) \<and> invar s' \<and> elems s' = insert v (elems s)"
    and remove_spec: "invar s \<Longrightarrow> storable v \<Longrightarrow>
      \<exists>s'. remove s v = Some (s', v \<in> elems s) \<and> invar s' \<and> elems s' = elems s - {v}"
    and isin_spec: "invar s \<Longrightarrow> storable v \<Longrightarrow> isin s v = Some (v \<in> elems s)"
begin

lemma add_all:
  "invar s \<Longrightarrow> \<forall>v \<in> set vs. storable v \<Longrightarrow> card (elems s) + length vs \<le> cap \<Longrightarrow>
   \<exists>s'. run_option (\<lambda>s v. map_option fst (add s v)) s vs = Some s' \<and>
     invar s' \<and> elems s' = elems s \<union> set vs"
proof (induction vs arbitrary: s)
  case (Cons v vs)
  then obtain t where t: "add s v = Some (t, v \<notin> elems s)" "invar t" "elems t = insert v (elems s)"
    using add_spec [of s v] by fastforce
  have "card (elems t) \<le> Suc (card (elems s))"
    using t(3) finite_elems Cons.prems(1) by (simp add: card_insert_if)
  then have "\<exists>s'. run_option (\<lambda>s v. map_option fst (add s v)) t vs = Some s' \<and>
      invar s' \<and> elems s' = elems t \<union> set vs"
    using t Cons.prems by (intro Cons.IH) auto
  with t show ?case by auto
qed simp

lemma add_then_remove:
  "invar s \<Longrightarrow> storable v \<Longrightarrow> card (elems s) < cap \<Longrightarrow> v \<notin> elems s \<Longrightarrow>
   \<exists>s' s''. add s v = Some (s', True) \<and> remove s' v = Some (s'', True) \<and>
     invar s'' \<and> elems s'' = elems s"
  using add_spec [of s v] remove_spec [of _ v] by fastforce

end

lemma intset_card: "intset_inv is \<Longrightarrow> card (intset_set is) = is_length is"
proof -
  assume i: "intset_inv is"
  then have "distinct (intset_elems is)"
    by (auto simp: intset_inv_def intset_rep_def strict_sorted_iff)
  then have "card (intset_set is) = length (intset_elems is)"
    unfolding intset_set_def by (rule distinct_card)
  then show ?thesis by (simp add: intset_elems_def)
qed

lemma intset_add_spec:
  assumes "intset_inv is" and "is_llong v" and "is_length is < intset_max - 1"
  shows "\<exists>is'. intsetAdd is v = Some (is', v \<notin> intset_set is) \<and> intset_inv is' \<and>
    intset_set is' = insert v (intset_set is)"
proof -
  obtain xs where rep: "intset_rep is xs" and s: "intset_set is = set xs"
    using inv_rep [OF assms(1)] by blast
  have k: "valid_enc (is_encoding is)" and room: "Suc (length xs) < intset_max"
    using rep assms(3) by (auto simp: intset_rep_def)
  show ?thesis
  proof (cases "u_intsetValueEncoding v \<le> is_encoding is")
    case True
    then have range: "in_sint (8 * is_encoding is) v" using valueEncoding_range [OF k assms(2)] by simp
    show ?thesis
    proof (cases "v \<in> set xs")
      case True
      with \<open>u_intsetValueEncoding v \<le> is_encoding is\<close> s assms(1) search_correct [OF rep, of v]
      show ?thesis by (auto simp: intsetAdd_def insert_absorb)
    next
      case False
      then obtain is' where "intsetAdd is v = Some (is', True)"
        and "intset_rep is' (take (ins_pos v xs) xs @ v # drop (ins_pos v xs) xs)"
        using add_plain [OF rep range False room True] by blast
      with False s show ?thesis
        using rep_inv set_insert_at [of "ins_pos v xs" xs v] by auto
    qed
  next
    case False
    then obtain is' where add: "intsetAdd is v = Some (is', True)"
      and rep': "intset_rep is' (if v < 0 then v # xs else xs @ [v])"
      using add_upgrade [OF rep _ assms(2) room] by auto
    have "\<not> in_sint (8 * is_encoding is) v" using False valueEncoding_range [OF k assms(2)] by simp
    then have "v \<notin> set xs" using rep by (auto simp: intset_rep_def)
    with add rep_inv [OF rep'] s show ?thesis by (auto split: if_splits)
  qed
qed

lemma intset_find_spec: "intset_inv is \<Longrightarrow> is_llong v \<Longrightarrow> intsetFind is v = Some (v \<in> intset_set is)"
proof -
  assume i: "intset_inv is" and v: "is_llong v"
  obtain xs where rep: "intset_rep is xs" and s: "intset_set is = set xs"
    using inv_rep [OF i] by blast
  then show ?thesis
    using search_correct [OF rep, of v] valueEncoding_range [of "is_encoding is" v] v
    by (auto simp: intsetFind_def intset_rep_def)
qed

lemma intset_remove_spec:
  assumes "intset_inv is" and "is_llong v"
  shows "\<exists>is'. intsetRemove is v = Some (is', v \<in> intset_set is) \<and> intset_inv is' \<and>
    intset_set is' = intset_set is - {v}"
proof -
  obtain xs where rep: "intset_rep is xs" and s: "intset_set is = set xs"
    using inv_rep [OF assms(1)] by blast
  show ?thesis
  proof (cases "v \<in> set xs")
    case True
    then obtain is' where "intsetRemove is v = Some (is', True)"
      and "intset_rep is' (take (ins_pos v xs) xs @ drop (Suc (ins_pos v xs)) xs)"
      using remove_found [OF rep True assms(2)] by blast
    moreover have srt: "sorted_wrt (<) xs" using rep by (simp add: intset_rep_def)
    ultimately show ?thesis
      using rep_inv remove_at(2) [OF srt, of "ins_pos v xs"] ins_pos_nth [OF srt True] True s by auto
  next
    case False
    with s assms(1) search_correct [OF rep, of v] show ?thesis by (auto simp: intsetRemove_def)
  qed
qed

lemma intset_elems_new [simp]: "intset_elems intsetNew = []"
  by (simp add: intset_elems_def intsetNew_def)

lemma intset_new_rep: "intset_rep intsetNew []"
  by (simp add: intset_rep_def intsetNew_def intset_enc_defs)

interpretation iset: bounded_set intsetNew intsetAdd intsetRemove intsetFind intset_set intset_inv
  is_llong "intset_max - 1"
proof (unfold_locales, goal_cases)
  case 1
  show ?case using rep_inv [OF intset_new_rep] by simp
next
  case 2
  show ?case using rep_inv [OF intset_new_rep] by simp
next
  case 3
  then show ?case by (simp add: intset_set_def)
next
  case 4
  then show ?case by (simp add: intset_add_spec intset_card)
next
  case 5
  then show ?case by (simp add: intset_remove_spec)
next
  case 6
  then show ?case by (simp add: intset_find_spec)
qed

subsection \<open>Properties\<close>

text \<open>C5. Adding a 64-bit value to an intset, in place or with an upgrade of the encoding, stays inside
  the block, keeps the packed array sorted, free of duplicates and in range, adds exactly that
  value and reports whether it was new.\<close>

theorem intsetAdd_correct:
  assumes "intset_inv is" and "is_llong v" and "is_length is < 2 ^ 28 - 1"
  shows "\<exists>is'. intsetAdd is v = Some (is', v \<notin> intset_set is) \<and> intset_inv is' \<and>
    intset_set is' = insert v (intset_set is)"
  using iset.add_spec [OF assms(1,2)] assms(3) by (simp add: intset_card [OF assms(1)])

theorem intsetAdd_correct_witness:
  "\<exists>is'. intsetAdd intsetNew 70000 = Some (is', True) \<and> intset_inv is' \<and> intset_set is' = {70000}"
proof -
  have "intset_inv intsetNew" "is_llong 70000" "is_length intsetNew < 2 ^ 28 - 1"
    by (rule iset.invar_empty) (simp_all add: crange_simps intsetNew_def)
  from intsetAdd_correct [OF this] show ?thesis by (simp add: iset.elems_empty)
qed

text \<open>Removing a value removes exactly that value, keeps the representation and reports whether it
  was there; a value too wide for the encoding is not looked up at all.\<close>

theorem intsetRemove_correct:
  assumes "intset_inv is" and "is_llong v"
  shows "\<exists>is'. intsetRemove is v = Some (is', v \<in> intset_set is) \<and> intset_inv is' \<and>
    intset_set is' = intset_set is - {v}"
  using assms by (rule iset.remove_spec)

theorem intsetRemove_correct_witness:
  "\<exists>is'. intsetRemove intsetNew 5 = Some (is', False) \<and> intset_inv is' \<and> intset_set is' = {}"
  using intsetRemove_correct [OF iset.invar_empty, of 5] by (simp add: iset.elems_empty crange_simps)

text \<open>The binary search terminates, stays inside the array and returns whether the value is
  present and the number of smaller elements, which is its position or its insertion point.\<close>

theorem intsetSearch_correct:
  assumes "intset_inv is"
  shows "intsetSearch is v =
    Some (v \<in> intset_set is, length (takeWhile (\<lambda>x. x < v) (intset_elems is)))"
  using assms search_correct unfolding intset_inv_def intset_set_def by blast

theorem intsetSearch_correct_witness: "intsetSearch intsetNew 5 = Some (False, 0)"
  using intsetSearch_correct [OF iset.invar_empty, of 5]
  by (simp add: iset.elems_empty)

text \<open>Any sequence of at most \<open>2 ^ 28 - 1\<close> insertions into a new intset succeeds, whatever upgrades
  it causes, and leaves the inserted values in ascending order without duplicates.\<close>

theorem intset_add_sequence:
  assumes "\<forall>v \<in> set vs. is_llong v" and "length vs \<le> 2 ^ 28 - 1"
  shows "\<exists>is'. run_option (\<lambda>is v. map_option fst (intsetAdd is v)) intsetNew vs = Some is' \<and>
    intset_elems is' = sorted_list_of_set (set vs)"
proof -
  obtain is' where run: "run_option (\<lambda>is v. map_option fst (intsetAdd is v)) intsetNew vs = Some is'"
    and i: "intset_inv is'" and s: "intset_set is' = set vs"
    using iset.add_all [OF iset.invar_empty assms(1)] assms(2) by (auto simp: iset.elems_empty)
  have "intset_elems is' = sorted_list_of_set (set (intset_elems is'))"
    using i by (auto simp: intset_inv_def intset_rep_def strict_sorted_iff
        intro!: sorted_list_of_set.idem_if_sorted_distinct [symmetric])
  with run s show ?thesis by (simp add: intset_set_def)
qed

theorem intset_add_sequence_witness:
  "\<exists>is'. run_option (\<lambda>is v. map_option fst (intsetAdd is v)) intsetNew [5, - 70000, 5] = Some is' \<and>
    intset_elems is' = [- 70000, 5]"
proof -
  have "sorted_list_of_set (set [5, - 70000, 5 :: int]) = [- 70000, 5]"
    by (simp only: sorted_list_of_set_sort_remdups) simp
  moreover have "\<forall>v \<in> set [5, - 70000, 5 :: int]. is_llong v" by (simp add: crange_simps)
  ultimately show ?thesis using intset_add_sequence [of "[5, - 70000, 5]"] by simp
qed

end
