(* ===== verification/Sds.thy ===== *)
theory Sds
  imports Util "HOL-Library.Sublist"
begin

section \<open>Dynamic strings (\<^verbatim>\<open>sds.c\<close>)\<close>

text \<open>
  A string is a header with the used length and the free space, and a block that holds the bytes,
  the free space and a terminating NUL.  The operations below are written on the block, with
  bounds-checked accesses: \<open>None\<close> is an access outside a block or a failed assertion.  A source
  argument is the block its pointer points into.  Lengths are natural numbers: the server never
  makes a string longer than 512 megabytes (\<^verbatim>\<open>checkStringLength\<close>), so the C \<^verbatim>\<open>int\<close> fields do not
  wrap.  Releasing memory (\<^verbatim>\<open>sdsfree\<close>, \<^verbatim>\<open>sdsfreesplitres\<close>) has no counterpart.
\<close>

record sdshdr =
  sds_len :: nat
  sds_free :: nat
  buf :: string

definition SDS_MAX_PREALLOC :: nat where "SDS_MAX_PREALLOC = 1024 * 1024"

definition strlen :: "string \<Rightarrow> nat option" where
  "strlen b = (if NUL \<in> set b then Some (length (takeWhile (\<lambda>c. c \<noteq> NUL) b)) else None)"

subsection \<open>Creation and space\<close>

definition sdsnewlen :: "string option \<Rightarrow> nat \<Rightarrow> sdshdr option" where
  "sdsnewlen init initlen = do {
     let m = replicate (initlen + 1) NUL;
     m1 \<leftarrow> (case init of
              Some t \<Rightarrow> if initlen \<noteq> 0
                        then do { bs \<leftarrow> mem_read t 0 initlen; mem_write m 0 bs } else Some m
            | None \<Rightarrow> Some m);
     m2 \<leftarrow> mem_set m1 initlen NUL;
     Some \<lparr>sds_len = initlen, sds_free = 0, buf = m2\<rparr>
   }"

definition sdsempty :: "sdshdr option" where
  "sdsempty = sdsnewlen (Some [NUL]) 0"

definition sdsnew :: "string option \<Rightarrow> sdshdr option" where
  "sdsnew init = do {
     initlen \<leftarrow> (case init of None \<Rightarrow> Some 0 | Some t \<Rightarrow> strlen t);
     sdsnewlen init initlen
   }"

definition sdsdup :: "sdshdr \<Rightarrow> sdshdr option" where
  "sdsdup s = sdsnewlen (Some (buf s)) (sds_len s)"

text \<open>The length may only shrink to the first NUL of the block, so the free space stays a natural
  number when it was one.\<close>

definition sdsupdatelen :: "sdshdr \<Rightarrow> sdshdr option" where
  "sdsupdatelen s = do {
     reallen \<leftarrow> strlen (buf s);
     Some (s\<lparr>sds_free := nat (int (sds_free s) + (int (sds_len s) - int reallen)),
             sds_len := reallen\<rparr>)
   }"

definition sdsclear :: "sdshdr \<Rightarrow> sdshdr option" where
  "sdsclear s = do {
     m \<leftarrow> mem_set (buf s) 0 NUL;
     Some (s\<lparr>sds_free := sds_free s + sds_len s, sds_len := 0, buf := m\<rparr>)
   }"

definition sdsMakeRoomFor :: "sdshdr \<Rightarrow> nat \<Rightarrow> sdshdr" where
  "sdsMakeRoomFor s addlen =
     (if sds_free s \<ge> addlen then s
      else
        let len = sds_len s;
            newlen0 = len + addlen;
            newlen = (if newlen0 < SDS_MAX_PREALLOC then newlen0 * 2
                      else newlen0 + SDS_MAX_PREALLOC)
        in s\<lparr>buf := mem_realloc NUL (buf s) (newlen + 1), sds_free := newlen - len\<rparr>)"

definition sdsRemoveFreeSpace :: "sdshdr \<Rightarrow> sdshdr" where
  "sdsRemoveFreeSpace s = s\<lparr>buf := mem_realloc NUL (buf s) (sds_len s + 1), sds_free := 0\<rparr>"

definition sdsAllocSize :: "sdshdr \<Rightarrow> nat" where
  "sdsAllocSize s = 8 + sds_len s + sds_free s + 1"

definition sdsIncrLen :: "sdshdr \<Rightarrow> int \<Rightarrow> sdshdr option" where
  "sdsIncrLen s incr =
     (if int (sds_free s) \<ge> incr then
        let len' = int (sds_len s) + incr;
            free' = int (sds_free s) - incr
        in if free' \<ge> 0 \<and> len' \<ge> 0 then do {
             m \<leftarrow> mem_set (buf s) (nat len') NUL;
             Some (s\<lparr>sds_len := nat len', sds_free := nat free', buf := m\<rparr>)
           } else None
      else None)"

definition sdsgrowzero :: "sdshdr \<Rightarrow> nat \<Rightarrow> sdshdr option" where
  "sdsgrowzero s len =
     (let curlen = sds_len s in
      if len \<le> curlen then Some s
      else do {
        let s1 = sdsMakeRoomFor s (len - curlen);
        m \<leftarrow> mem_write (buf s1) curlen (replicate (len - curlen + 1) NUL);
        let totlen = sds_len s1 + sds_free s1;
        Some (s1\<lparr>buf := m, sds_len := len, sds_free := totlen - len\<rparr>)
      })"

subsection \<open>Concatenation and copy\<close>

definition sdscatlen :: "sdshdr \<Rightarrow> string \<Rightarrow> nat \<Rightarrow> sdshdr option" where
  "sdscatlen s t len = do {
     let curlen = sds_len s;
     let s1 = sdsMakeRoomFor s len;
     bs \<leftarrow> mem_read t 0 len;
     m1 \<leftarrow> mem_write (buf s1) curlen bs;
     m2 \<leftarrow> mem_set m1 (curlen + len) NUL;
     Some (s1\<lparr>buf := m2, sds_len := curlen + len, sds_free := sds_free s1 - len\<rparr>)
   }"

definition sdscat :: "sdshdr \<Rightarrow> string \<Rightarrow> sdshdr option" where
  "sdscat s t = do { l \<leftarrow> strlen t; sdscatlen s t l }"

definition sdscatsds :: "sdshdr \<Rightarrow> sdshdr \<Rightarrow> sdshdr option" where
  "sdscatsds s t = sdscatlen s (buf t) (sds_len t)"

definition sdscpylen :: "sdshdr \<Rightarrow> string \<Rightarrow> nat \<Rightarrow> sdshdr option" where
  "sdscpylen s t len = do {
     let totlen0 = sds_free s + sds_len s;
     let s1 = (if totlen0 < len then sdsMakeRoomFor s (len - sds_len s) else s);
     let totlen = (if totlen0 < len then sds_free s1 + sds_len s1 else totlen0);
     bs \<leftarrow> mem_read t 0 len;
     m1 \<leftarrow> mem_write (buf s1) 0 bs;
     m2 \<leftarrow> mem_set m1 len NUL;
     Some (s1\<lparr>buf := m2, sds_len := len, sds_free := totlen - len\<rparr>)
   }"

definition sdscpy :: "sdshdr \<Rightarrow> string \<Rightarrow> sdshdr option" where
  "sdscpy s t = do { l \<leftarrow> strlen t; sdscpylen s t l }"

text \<open>\<open>out\<close> is what the format and its arguments expand to.  \<^verbatim>\<open>vsnprintf\<close> writes at most
  \<open>buflen - 1\<close> of its characters and a NUL; the buffer is doubled until its last but one cell
  is still NUL.\<close>

definition vsnprintf :: "string \<Rightarrow> string \<Rightarrow> string option" where
  "vsnprintf b out = mem_write b 0 (take (length b - 1) out @ [NUL])"

lemma vsnprintf_eq:
  "length out < length b \<Longrightarrow> vsnprintf b out = Some (out @ NUL # drop (Suc (length out)) b)"
  by (simp add: vsnprintf_def mem_write_def)

lemma vsnprintf_fits:
  assumes "length out + 2 \<le> length b" and "b ! (length b - 2) = NUL"
  shows "(out @ NUL # drop (Suc (length out)) b) ! (length b - 2) = NUL"
proof (cases "length b - 2 = length out")
  case False
  with assms(1) have "length b - 2 = Suc (length b - 3)" "length out < length b - 2" by auto
  with assms show ?thesis by (auto simp: nth_append nth_Cons')
qed (simp add: nth_append)

function sdscatvprintf_loop :: "string \<Rightarrow> nat \<Rightarrow> string option" where
  "sdscatvprintf_loop out buflen =
     (if buflen < 2 then None
      else case mem_set (replicate buflen (CHR ''?'')) (buflen - 2) NUL of
        None \<Rightarrow> None
      | Some b0 \<Rightarrow>
          (case vsnprintf b0 out of
             None \<Rightarrow> None
           | Some b \<Rightarrow>
               if b ! (buflen - 2) \<noteq> NUL then sdscatvprintf_loop out (buflen * 2) else Some b))"
  by pat_completeness auto
termination
proof (relation "measure (\<lambda>(out, n). length out + 2 - n)", simp, goal_cases)
  case (1 out n b0 b)
  then have "length b0 = n" "b0 ! (n - 2) = NUL"
    by (auto simp: mem_set_def split: if_splits)
  with 1 have "\<not> length out + 2 \<le> n"
    using vsnprintf_fits [of out b0] vsnprintf_eq [of out b0] by auto
  with 1 show ?case by auto
qed

declare sdscatvprintf_loop.simps [simp del]

definition sdscatvprintf :: "sdshdr \<Rightarrow> string \<Rightarrow> sdshdr option" where
  "sdscatvprintf s out = do { b \<leftarrow> sdscatvprintf_loop out 16; sdscat s b }"

definition sdscatprintf :: "sdshdr \<Rightarrow> string \<Rightarrow> sdshdr option" where
  "sdscatprintf s out = sdscatvprintf s out"

subsection \<open>Trimming, ranges, mapping, comparison\<close>

text \<open>\<^verbatim>\<open>strchr(cset,c)\<close> also finds the terminator of \<open>cset\<close>.\<close>

definition strchr :: "string \<Rightarrow> char \<Rightarrow> bool" where
  "strchr cset c \<longleftrightarrow> c = NUL \<or> c \<in> set (takeWhile (\<lambda>c. c \<noteq> NUL) cset)"

function trim_left :: "string \<Rightarrow> string \<Rightarrow> int \<Rightarrow> int \<Rightarrow> int" where
  "trim_left cset b end' sp =
     (if sp \<le> end' \<and> strchr cset (b ! nat sp) then trim_left cset b end' (sp + 1) else sp)"
  by pat_completeness auto
termination
  by (relation "measure (\<lambda>(cset, b, end', sp). nat (end' - sp + 1))") auto

function trim_right :: "string \<Rightarrow> string \<Rightarrow> int \<Rightarrow> int" where
  "trim_right cset b ep =
     (if ep > 0 \<and> strchr cset (b ! nat ep) then trim_right cset b (ep - 1) else ep)"
  by pat_completeness auto
termination
  by (relation "measure (\<lambda>(cset, b, ep). nat ep)") auto

declare trim_left.simps [simp del] trim_right.simps [simp del]

definition sdstrim :: "sdshdr \<Rightarrow> string \<Rightarrow> sdshdr option" where
  "sdstrim s cset = do {
     let end' = int (sds_len s) - 1;
     let sp = trim_left cset (buf s) end' 0;
     let ep = trim_right cset (buf s) end';
     let len = (if sp > ep then 0 else nat (ep - sp + 1));
     m1 \<leftarrow> (if sp \<noteq> 0 then mem_move (buf s) 0 (nat sp) len else Some (buf s));
     m2 \<leftarrow> mem_set m1 len NUL;
     Some (s\<lparr>buf := m2, sds_free := sds_free s + (sds_len s - len), sds_len := len\<rparr>)
   }"

definition sdsrange :: "sdshdr \<Rightarrow> int \<Rightarrow> int \<Rightarrow> sdshdr option" where
  "sdsrange s start0 end0 =
     (let len = int (sds_len s) in
      if sds_len s = 0 then Some s
      else
        let start1 = (if start0 < 0 then max 0 (len + start0) else start0);
            end1 = (if end0 < 0 then max 0 (len + end0) else end0);
            newlen1 = (if start1 > end1 then 0 else end1 - start1 + 1);
            (start, newlen) =
              (if newlen1 \<noteq> 0 then
                 if start1 \<ge> len then (start1, 0)
                 else if end1 \<ge> len then
                   (start1, if start1 > len - 1 then 0 else (len - 1) - start1 + 1)
                 else (start1, newlen1)
               else (0, newlen1))
        in do {
          m1 \<leftarrow> (if start \<noteq> 0 \<and> newlen \<noteq> 0
                 then mem_move (buf s) 0 (nat start) (nat newlen) else Some (buf s));
          m2 \<leftarrow> mem_set m1 (nat newlen) NUL;
          Some (s\<lparr>buf := m2, sds_free := nat (int (sds_free s) + (len - newlen)),
                  sds_len := nat newlen\<rparr>)
        })"

fun map_prefix :: "(char \<Rightarrow> char) \<Rightarrow> nat \<Rightarrow> string \<Rightarrow> string" where
  "map_prefix f n m = map f (take n m) @ drop n m"

definition sdstolower :: "sdshdr \<Rightarrow> sdshdr" where
  "sdstolower s = s\<lparr>buf := map_prefix tolower (sds_len s) (buf s)\<rparr>"

definition sdstoupper :: "sdshdr \<Rightarrow> sdshdr" where
  "sdstoupper s = s\<lparr>buf := map_prefix toupper (sds_len s) (buf s)\<rparr>"

definition sdscmp :: "sdshdr \<Rightarrow> sdshdr \<Rightarrow> int" where
  "sdscmp s1 s2 =
     (let l1 = sds_len s1; l2 = sds_len s2; minlen = (if l1 < l2 then l1 else l2);
          cmp = memcmp (take minlen (buf s1)) (take minlen (buf s2))
      in if cmp = 0 then int l1 - int l2 else cmp)"

text \<open>The inner loop of \<^verbatim>\<open>sdsmapchars\<close>: the first position of \<open>from\<close> that holds the character
  decides.\<close>

fun mapchar :: "string \<Rightarrow> string \<Rightarrow> nat \<Rightarrow> char \<Rightarrow> char" where
  "mapchar (f # from) (t # to) (Suc n) c = (if c = f then t else mapchar from to n c)"
| "mapchar _ _ _ c = c"

definition sdsmapchars :: "sdshdr \<Rightarrow> string \<Rightarrow> string \<Rightarrow> nat \<Rightarrow> sdshdr option" where
  "sdsmapchars s from to setlen =
     (if setlen \<le> length from \<and> setlen \<le> length to
      then Some (s\<lparr>buf := map_prefix (mapchar from to setlen) (sds_len s) (buf s)\<rparr>)
      else None)"

subsection \<open>Splitting\<close>

text \<open>The loop of \<^verbatim>\<open>sdssplitlen\<close>: it returns the start of the last token and the contents of the
  tokens found before it.  The growth of the token array has no counterpart.\<close>

function split_loop :: "string \<Rightarrow> string \<Rightarrow> nat \<Rightarrow> nat \<Rightarrow> string list \<Rightarrow> nat \<times> string list" where
  "split_loop s sep j start tokens =
     (if sep \<noteq> [] \<and> int j < int (length s) - (int (length sep) - 1) then
        if (length sep = 1 \<and> s ! j = sep ! 0) \<or> memcmp (take (length sep) (drop j s)) sep = 0 then
          split_loop s sep (j + length sep) (j + length sep)
            (tokens @ [take (j - start) (drop start s)])
        else split_loop s sep (j + 1) start tokens
      else (start, tokens))"
  by pat_completeness auto
termination
  by (relation "measure (\<lambda>(s, sep, j, start, tokens). length s + 1 - j)") (auto simp: neq_Nil_conv)

declare split_loop.simps [simp del]

definition sdssplitlen :: "string \<Rightarrow> string \<Rightarrow> string list option" where
  "sdssplitlen s sep =
     (if length sep < 1 then None
      else if length s = 0 then Some []
      else
        let (start, tokens) = split_loop s sep 0 0 [] in Some (tokens @ [drop start s]))"

text \<open>The digit loop is the one of \<^verbatim>\<open>ll2string\<close>, repeated in the source.\<close>

definition sdsfromlonglong :: "int \<Rightarrow> sdshdr option" where
  "sdsfromlonglong value =
     (let v = to_unsigned 64 (if value < 0 then - value else value);
          digits = ll2string_loop v [];
          p = (if value < 0 then CHR ''-'' # digits else digits)
      in sdsnewlen (Some p) (length p))"

subsection \<open>Quoting and argument lines\<close>

definition hex_digit :: "nat \<Rightarrow> char" where
  "hex_digit d = (if d < 10 then char_of (48 + d) else char_of (87 + d))"

text \<open>What \<^verbatim>\<open>sdscatrepr\<close> appends for one character; \<^verbatim>\<open>%02x\<close> prints two lower-case hex digits.\<close>

definition catrepr_char :: "sdshdr \<Rightarrow> char \<Rightarrow> sdshdr option" where
  "catrepr_char s c =
     (if c = CHR 0x5C \<or> c = CHR 0x22 then sdscatprintf s [CHR 0x5C, c]
      else if c = CHR 0x0A then sdscatlen s [CHR 0x5C, CHR ''n'', NUL] 2
      else if c = CHR 0x0D then sdscatlen s [CHR 0x5C, CHR ''r'', NUL] 2
      else if c = CHR 0x09 then sdscatlen s [CHR 0x5C, CHR ''t'', NUL] 2
      else if c = CHR 0x07 then sdscatlen s [CHR 0x5C, CHR ''a'', NUL] 2
      else if c = CHR 0x08 then sdscatlen s [CHR 0x5C, CHR ''b'', NUL] 2
      else if isprint c then sdscatprintf s [c]
      else sdscatprintf s
             [CHR 0x5C, CHR ''x'', hex_digit (of_char c div 16), hex_digit (of_char c mod 16)])"

definition sdscatrepr :: "sdshdr \<Rightarrow> string \<Rightarrow> sdshdr option" where
  "sdscatrepr s p = do {
     s1 \<leftarrow> sdscatlen s [CHR 0x22, NUL] 1;
     s2 \<leftarrow> run_option catrepr_char s1 p;
     sdscatlen s2 [CHR 0x22, NUL] 1
   }"

definition is_hex_digit :: "char \<Rightarrow> bool" where
  "is_hex_digit c \<longleftrightarrow>
     (let n = of_char c :: nat in
      48 \<le> n \<and> n \<le> 57 \<or> 97 \<le> n \<and> n \<le> 102 \<or> 65 \<le> n \<and> n \<le> 70)"

definition hex_digit_to_int :: "char \<Rightarrow> nat" where
  "hex_digit_to_int c =
     (let n = of_char c :: nat in
      if 48 \<le> n \<and> n \<le> 57 then n - 48
      else if 97 \<le> n \<and> n \<le> 102 then n - 87
      else if 65 \<le> n \<and> n \<le> 70 then n - 55
      else 0)"

definition unescape :: "char \<Rightarrow> char" where
  "unescape c =
     (if c = CHR ''n'' then CHR 0x0A else if c = CHR ''r'' then CHR 0x0D
      else if c = CHR ''t'' then CHR 0x09 else if c = CHR ''b'' then CHR 0x08
      else if c = CHR ''a'' then CHR 0x07 else c)"

text \<open>The token loop of \<^verbatim>\<open>sdssplitargs\<close>.  The line is what stands before its NUL, so the empty list
  is \<open>*p == '\<zero>'\<close>.  The result is the token and what is left of the line; \<open>None\<close> is the jump to
  \<^verbatim>\<open>err\<close>.\<close>

datatype quoting = Unquoted | InQuotes | InSingle

definition peek :: "string \<Rightarrow> nat \<Rightarrow> char" where
  "peek p i = (if i < length p then p ! i else NUL)"

function (sequential) args_token :: "quoting \<Rightarrow> string \<Rightarrow> string \<Rightarrow> (string \<times> string) option" where
  "args_token Unquoted [] cur = Some (cur, [])"
| "args_token Unquoted (c # p) cur =
     (if c = CHR '' '' \<or> c = CHR 0x0A \<or> c = CHR 0x0D \<or> c = CHR 0x09 then Some (cur, p)
      else if c = CHR 0x22 then args_token InQuotes p cur
      else if c = CHR 0x27 then args_token InSingle p cur
      else args_token Unquoted p (cur @ [c]))"
| "args_token InQuotes [] cur = None"
| "args_token InQuotes (c # p) cur =
     (if c = CHR 0x5C \<and> peek p 0 = CHR ''x'' \<and> is_hex_digit (peek p 1) \<and> is_hex_digit (peek p 2) then
        args_token InQuotes (drop 3 p)
          (cur @ [char_of (hex_digit_to_int (peek p 1) * 16 + hex_digit_to_int (peek p 2))])
      else if c = CHR 0x5C \<and> peek p 0 \<noteq> NUL then
        args_token InQuotes (drop 1 p) (cur @ [unescape (peek p 0)])
      else if c = CHR 0x22 then
        (if peek p 0 \<noteq> NUL \<and> \<not> isspace (peek p 0) then None else Some (cur, p))
      else args_token InQuotes p (cur @ [c]))"
| "args_token InSingle [] cur = None"
| "args_token InSingle (c # p) cur =
     (if c = CHR 0x5C \<and> peek p 0 = CHR 0x27 then
        args_token InSingle (drop 1 p) (cur @ [CHR 0x27])
      else if c = CHR 0x27 then
        (if peek p 0 \<noteq> NUL \<and> \<not> isspace (peek p 0) then None else Some (cur, p))
      else args_token InSingle p (cur @ [c]))"
  by pat_completeness auto
termination
  by (relation "measure (\<lambda>(m, p, cur). length p)") auto

lemma args_token_le: "args_token m p cur = Some (t, rest) \<Longrightarrow> length rest \<le> length p"
  by (induction m p cur rule: args_token.induct) (auto split: if_splits)

lemma args_token_less:
  "args_token Unquoted (c # p) cur = Some (t, rest) \<Longrightarrow> length rest < length (c # p)"
  by (auto split: if_splits dest: args_token_le)

function args_loop :: "string \<Rightarrow> string list \<Rightarrow> string list option" where
  "args_loop p vector =
     (let q = dropWhile isspace p in
      if q = [] then Some vector
      else case args_token Unquoted q [] of
             None \<Rightarrow> None
           | Some (t, rest) \<Rightarrow> args_loop rest (vector @ [t]))"
  by pat_completeness auto
termination
proof (relation "measure (\<lambda>(p, v). length p)", simp, goal_cases)
  case (1 p v q x t rest)
  then obtain c p' where "q = c # p'" using 1(2) by (cases q) blast+
  with 1(3,4) have "length rest < length q" by (auto dest: args_token_less simp del: args_token.simps)
  also have "length q \<le> length p" using 1(1) by (simp add: length_dropWhile_le)
  finally show ?case by simp
qed

declare args_loop.simps [simp del]

definition sdssplitargs :: "string \<Rightarrow> string list option" where
  "sdssplitargs line = args_loop (takeWhile (\<lambda>c. c \<noteq> NUL) line) []"

subsection \<open>The string invariant and the content\<close>

definition sds_ok :: "sdshdr \<Rightarrow> bool" where
  "sds_ok s \<longleftrightarrow> length (buf s) = sds_len s + sds_free s + 1 \<and> buf s ! sds_len s = NUL"

definition sds_str :: "sdshdr \<Rightarrow> string" where
  "sds_str s = take (sds_len s) (buf s)"

lemma length_sds_str: "sds_ok s \<Longrightarrow> length (sds_str s) = sds_len s"
  by (simp add: sds_ok_def sds_str_def)

text \<open>A block with its content, terminator and unused tail: how every operation leaves its string.\<close>

lemma sds_okI:
  "buf s = t @ NUL # rest \<Longrightarrow> sds_len s = length t \<Longrightarrow> sds_free s = length rest \<Longrightarrow>
   sds_ok s \<and> sds_str s = t"
  by (simp add: sds_ok_def sds_str_def nth_append)

lemma sds_okE:
  assumes "sds_ok s"
  obtains rest where "buf s = sds_str s @ NUL # rest" and "sds_free s = length rest"
    and "length (sds_str s) = sds_len s"
proof -
  have l: "sds_len s < length (buf s)" using assms by (simp add: sds_ok_def)
  have "buf s = sds_str s @ NUL # drop (Suc (sds_len s)) (buf s)"
    using id_take_nth_drop [OF l] assms unfolding sds_ok_def sds_str_def by metis
  moreover have "sds_free s = length (drop (Suc (sds_len s)) (buf s))"
    using assms by (simp add: sds_ok_def)
  ultimately show thesis using length_sds_str [OF assms] by (rule that)
qed

lemma strlen_cstr: "NUL \<notin> set t \<Longrightarrow> strlen (t @ NUL # rest) = Some (length t)"
  by (induction t) (auto simp: strlen_def split: if_splits)

lemma makeRoom_ok:
  "sds_ok s \<Longrightarrow> sds_ok (sdsMakeRoomFor s n) \<and> sds_str (sdsMakeRoomFor s n) = sds_str s \<and>
   sds_len (sdsMakeRoomFor s n) = sds_len s \<and> n \<le> sds_free (sdsMakeRoomFor s n)"
  by (auto simp: sdsMakeRoomFor_def sds_ok_def sds_str_def Let_def mem_realloc_def nth_append
      SDS_MAX_PREALLOC_def)

lemma newlen_ok: "n \<le> length t \<Longrightarrow> \<exists>s. sdsnewlen (Some t) n = Some s \<and> sds_ok s \<and> sds_str s = take n t"
  by (cases "n = 0")
     (auto simp: sdsnewlen_def mem_simps sds_ok_def sds_str_def nth_append list_update_append)

lemma catlen_ok:
  assumes s: "sds_ok s" and n: "n \<le> length t"
  shows "\<exists>s'. sdscatlen s t n = Some s' \<and> sds_ok s' \<and> sds_str s' = sds_str s @ take n t"
proof -
  let ?r = "sdsMakeRoomFor s n"
  note r = makeRoom_ok [OF s, of n]
  then obtain rest where b: "buf ?r = sds_str s @ NUL # rest" and f: "sds_free ?r = length rest"
    and l: "length (sds_str s) = sds_len s"
    by (metis sds_okE)
  have fit: "n \<le> length rest" using r f by simp
  let ?b = "sds_str s @ take n t @ drop n (NUL # rest)"
  have "mem_write (buf ?r) (sds_len s) (take n t) = Some ?b"
    using b l n fit by (simp add: mem_write_Some)
  moreover have "mem_set ?b (sds_len s + n) NUL = Some (sds_str s @ take n t @ NUL # drop n rest)"
  proof -
    have "drop n (NUL # rest) = (NUL # rest) ! n # drop n rest"
      using fit Cons_nth_drop_Suc [of n "NUL # rest"] by simp
    then show ?thesis using l n fit by (simp add: mem_set_def list_update_append)
  qed
  ultimately have "sdscatlen s t n = Some (?r\<lparr>buf := sds_str s @ take n t @ NUL # drop n rest,
      sds_len := sds_len s + n, sds_free := sds_free ?r - n\<rparr>)"
    using n by (simp add: sdscatlen_def mem_read_Some Let_def)
  moreover have "sds_ok (?r\<lparr>buf := sds_str s @ take n t @ NUL # drop n rest,
      sds_len := sds_len s + n, sds_free := sds_free ?r - n\<rparr>) \<and>
    sds_str (?r\<lparr>buf := sds_str s @ take n t @ NUL # drop n rest,
      sds_len := sds_len s + n, sds_free := sds_free ?r - n\<rparr>) = sds_str s @ take n t"
    using l n f fit by (intro sds_okI) auto
  ultimately show ?thesis by blast
qed

lemma cat_ok:
  assumes "sds_ok s" and "NUL \<notin> set t"
  shows "\<exists>s'. sdscat s (t @ NUL # rest) = Some s' \<and> sds_ok s' \<and> sds_str s' = sds_str s @ t"
  using catlen_ok [OF assms(1), of "length t" "t @ NUL # rest"] assms(2)
  by (simp add: sdscat_def strlen_cstr)

lemma cpylen_ok:
  assumes s: "sds_ok s" and n: "n \<le> length t"
  shows "\<exists>s'. sdscpylen s t n = Some s' \<and> sds_ok s' \<and> sds_str s' = take n t"
proof -
  define r where "r = (if sds_free s + sds_len s < n then sdsMakeRoomFor s (n - sds_len s) else s)"
  have r: "sds_ok r" "n \<le> sds_free r + sds_len r"
    using s makeRoom_ok [OF s, of "n - sds_len s"] by (auto simp: r_def)
  let ?b = "take n t @ drop n (buf r)"
  have len: "length (buf r) = sds_free r + sds_len r + 1" using r(1) by (simp add: sds_ok_def)
  have w: "mem_write (buf r) 0 (take n t) = Some ?b" using n len r(2) by (simp add: mem_write_Some)
  have "drop n (buf r) = buf r ! n # drop (Suc n) (buf r)"
    using len r(2) by (simp add: Cons_nth_drop_Suc)
  then have "mem_set ?b n NUL = Some (take n t @ NUL # drop (Suc n) (buf r))"
    using n len r(2) by (simp add: mem_set_def list_update_append)
  with w n have "sdscpylen s t n = Some (r\<lparr>buf := take n t @ NUL # drop (Suc n) (buf r),
      sds_len := n, sds_free := sds_free r + sds_len r - n\<rparr>)"
    by (simp add: sdscpylen_def mem_read_Some Let_def r_def [symmetric] split del: if_split)
       (auto simp: r_def)
  moreover have "sds_ok (r\<lparr>buf := take n t @ NUL # drop (Suc n) (buf r),
      sds_len := n, sds_free := sds_free r + sds_len r - n\<rparr>) \<and>
    sds_str (r\<lparr>buf := take n t @ NUL # drop (Suc n) (buf r),
      sds_len := n, sds_free := sds_free r + sds_len r - n\<rparr>) = take n t"
    using n len r(2) by (intro sds_okI) auto
  ultimately show ?thesis by blast
qed

lemma growzero_ok:
  assumes s: "sds_ok s"
  shows "\<exists>s'. sdsgrowzero s n = Some s' \<and> sds_ok s' \<and>
    sds_str s' = sds_str s @ replicate (n - sds_len s) NUL"
proof (cases "n \<le> sds_len s")
  case True
  with s show ?thesis by (simp add: sdsgrowzero_def)
next
  case False
  let ?r = "sdsMakeRoomFor s (n - sds_len s)" and ?z = "replicate (n - sds_len s) NUL"
  note r = makeRoom_ok [OF s, of "n - sds_len s"]
  then obtain rest where b: "buf ?r = sds_str s @ NUL # rest" and f: "sds_free ?r = length rest"
    and l: "length (sds_str s) = sds_len s"
    by (metis sds_okE)
  let ?s' = "?r\<lparr>buf := sds_str s @ ?z @ NUL # drop (n - sds_len s) rest, sds_len := n,
    sds_free := sds_len ?r + sds_free ?r - n\<rparr>"
  have "mem_write (buf ?r) (sds_len s) (replicate (n - sds_len s + 1) NUL) =
      Some (sds_str s @ ?z @ NUL # drop (n - sds_len s) rest)"
    using b l r f by (simp add: mem_write_Some replicate_append_same flip: replicate_app_Cons_same)
  then have "sdsgrowzero s n = Some ?s'"
    using False by (simp add: sdsgrowzero_def Let_def)
  moreover have "sds_ok ?s' \<and> sds_str ?s' = sds_str s @ ?z"
    using False l r f by (intro sds_okI) auto
  ultimately show ?thesis by blast
qed

lemma trim_left_eq:
  "0 \<le> j \<Longrightarrow> j \<le> int i \<Longrightarrow> int i \<le> end' + 1 \<Longrightarrow> (\<And>k. k < i \<Longrightarrow> strchr cset (b ! k)) \<Longrightarrow>
   int i = end' + 1 \<or> \<not> strchr cset (b ! i) \<Longrightarrow> trim_left cset b end' j = int i"
proof (induction "nat (int i - j)" arbitrary: j)
  case 0
  then have "j = int i" by simp
  with 0 show ?case by (subst trim_left.simps) auto
next
  case (Suc n)
  then have "trim_left cset b end' (j + 1) = int i" by simp
  moreover have "strchr cset (b ! nat j)" "j \<le> end'" using Suc by auto
  ultimately show ?case by (subst trim_left.simps) simp
qed

lemma trim_right_eq:
  "i \<le> j \<Longrightarrow> (\<And>k. i < k \<Longrightarrow> k \<le> j \<Longrightarrow> strchr cset (b ! k)) \<Longrightarrow>
   i = 0 \<or> \<not> strchr cset (b ! i) \<Longrightarrow> trim_right cset b (int j) = int i"
proof (induction "j - i" arbitrary: j)
  case 0
  then have "j = i" by simp
  with 0 show ?case by (subst trim_right.simps) auto
next
  case (Suc n)
  have "trim_right cset b (int (j - 1)) = int i"
    using Suc.hyps(2) Suc.prems by (intro Suc.hyps(1)) auto
  moreover have "strchr cset (b ! j)" "0 < j" using Suc by auto
  ultimately show ?case by (subst trim_right.simps) (simp add: of_nat_diff)
qed

text \<open>What is left between the longest prefix and the longest suffix of characters of the set.\<close>

definition strip :: "(char \<Rightarrow> bool) \<Rightarrow> string \<Rightarrow> string" where
  "strip P t = rev (dropWhile P (rev (dropWhile P t)))"

lemma strip_split:
  obtains xs ys where "t = xs @ strip P t @ ys" and "list_all P xs" and "list_all P ys"
    and "strip P t = [] \<or> \<not> P (hd (strip P t)) \<and> \<not> P (last (strip P t))"
proof -
  define u where "u = dropWhile P t"
  have "t = takeWhile P t @ u" by (simp add: u_def)
  moreover have "rev u = takeWhile P (rev u) @ dropWhile P (rev u)" by simp
  then have "u = strip P t @ rev (takeWhile P (rev u))"
    unfolding strip_def u_def [symmetric] by (metis rev_append rev_rev_ident)
  moreover have "strip P t = [] \<or> \<not> P (hd (strip P t)) \<and> \<not> P (last (strip P t))"
  proof (cases "strip P t = []")
    case False
    then have ne: "dropWhile P (rev u) \<noteq> []" unfolding strip_def u_def by blast
    then have "u \<noteq> []" by force
    from ne have "\<not> P (hd (dropWhile P (rev u)))" by (rule hd_dropWhile)
    then have "\<not> P (last (strip P t))" unfolding strip_def u_def [symmetric] last_rev .
    moreover have "hd (strip P t) = hd u"
      using False \<open>u = strip P t @ rev (takeWhile P (rev u))\<close> by (metis hd_append2)
    moreover have "\<not> P (hd u)" using \<open>u \<noteq> []\<close> hd_dropWhile [of P t] by (simp add: u_def)
    ultimately show ?thesis by simp
  qed simp
  ultimately show thesis
    by (intro that [of "takeWhile P t" "rev (takeWhile P (rev u))"])
       (auto simp: list_all_iff dest: set_takeWhileD)
qed

text \<open>The two pointers on a block \<open>xs @ m @ ys\<close> whose outer parts are to be trimmed.\<close>

lemma trim_pointers:
  assumes b: "b = xs @ m @ ys @ rest" and n: "n = length xs + length m + length ys"
    and P: "list_all (strchr cset) xs" "list_all (strchr cset) ys"
    and ends: "m = [] \<or> \<not> strchr cset (hd m) \<and> \<not> strchr cset (last m)"
  shows "(if m = [] then trim_left cset b (int n - 1) 0 = int n \<and>
             trim_right cset b (int n - 1) = (if n = 0 then - 1 else 0)
          else trim_left cset b (int n - 1) 0 = int (length xs) \<and>
             trim_right cset b (int n - 1) = int (length xs) + int (length m) - 1)"
proof (cases "m = []")
  case True
  have all: "strchr cset (b ! k)" if "k < n" for k
    using that P True by (auto simp: b n nth_append list_all_length)
  have "trim_right cset b (int n - 1) = (if n = 0 then - 1 else 0)"
  proof (cases "n = 0")
    case True
    then show ?thesis by (simp add: trim_right.simps [of _ _ "- 1"])
  next
    case False
    then have "trim_right cset b (int (n - 1)) = int 0"
      using all by (intro trim_right_eq) auto
    with False show ?thesis by (simp add: of_nat_diff)
  qed
  moreover have "trim_left cset b (int n - 1) 0 = int n" using all by (intro trim_left_eq) auto
  ultimately show ?thesis using True by simp
next
  case False
  let ?e = "length xs + length m - 1"
  have "b ! ?e = last m" using False by (cases m rule: rev_cases) (simp_all add: b nth_append)
  moreover have "strchr cset (b ! k)" if "?e < k" "k \<le> n - 1" for k
    using that P(2) False by (auto simp: b n nth_append list_all_length)
  ultimately have "trim_right cset b (int (n - 1)) = int ?e"
    using False ends n by (intro trim_right_eq) auto
  moreover have "int (n - 1) = int n - 1" "int ?e = int (length xs) + int (length m) - 1"
    using False n by (cases m; simp)+
  moreover have "trim_left cset b (int n - 1) 0 = int (length xs)"
    using False P(1) ends n
    by (intro trim_left_eq) (auto simp: b nth_append list_all_length hd_conv_nth Suc_le_eq)
  ultimately show ?thesis using False by simp
qed

lemma trim_ok:
  assumes s: "sds_ok s"
  shows "\<exists>s'. sdstrim s cset = Some s' \<and> sds_ok s' \<and> sds_str s' = strip (strchr cset) (sds_str s)"
proof -
  let ?t = "sds_str s"
  define m where "m = strip (strchr cset) ?t"
  obtain xs ys where t: "?t = xs @ m @ ys"
    and P: "list_all (strchr cset) xs" "list_all (strchr cset) ys"
    and ends: "m = [] \<or> \<not> strchr cset (hd m) \<and> \<not> strchr cset (last m)"
    unfolding m_def by (rule strip_split)
  obtain rest where b: "buf s = ?t @ NUL # rest" and f: "sds_free s = length rest"
    and l: "length ?t = sds_len s"
    by (rule sds_okE [OF s])
  have bm: "buf s = xs @ m @ ys @ NUL # rest" and lm: "sds_len s = length xs + length m + length ys"
    using b t l by (simp_all flip: length_append add: add.assoc)
  define sp ep where "sp = trim_left cset (buf s) (int (sds_len s) - 1) 0"
    and "ep = trim_right cset (buf s) (int (sds_len s) - 1)"
  have ptr: "if m = [] then sp = int (sds_len s) \<and> ep = (if sds_len s = 0 then - 1 else 0)
      else sp = int (length xs) \<and> ep = int (length xs) + int (length m) - 1"
    unfolding sp_def ep_def by (rule trim_pointers [OF bm lm P ends])
  then have len: "(if sp > ep then 0 else nat (ep - sp + 1)) = length m"
    by (auto split: if_splits)
  let ?u = "if sp \<noteq> 0 then m @ drop (length m) (buf s) else buf s"
  have mv: "(if sp \<noteq> 0 then mem_move (buf s) 0 (nat sp) (length m) else Some (buf s)) = Some ?u"
    using ptr by (auto simp: mem_move_Some bm lm split: if_splits)
  have u: "take (length m) ?u = m" "length ?u = length (buf s)"
    using ptr by (auto simp: bm split: if_splits)
  then have "mem_set ?u (length m) NUL = Some (m @ NUL # drop (Suc (length m)) ?u)"
    using bm by (simp add: mem_set_def upd_conv_take_nth_drop)
  then have "sdstrim s cset = Some (s\<lparr>buf := m @ NUL # drop (Suc (length m)) ?u,
      sds_free := sds_free s + (sds_len s - length m), sds_len := length m\<rparr>)" (is "_ = Some ?s'")
    unfolding sdstrim_def Let_def sp_def [symmetric] ep_def [symmetric] len mv
    by (simp split del: if_split)
  moreover have "sds_ok ?s' \<and> sds_str ?s' = m"
    using u bm lm f by (intro sds_okI) auto
  ultimately show ?thesis by (auto simp: m_def)
qed

text \<open>The substring between two inclusive positions, negative ones counted from the end.\<close>

definition str_range :: "string \<Rightarrow> int \<Rightarrow> int \<Rightarrow> string" where
  "str_range t a b =
     (let n = int (length t);
          i = (if a < 0 then max 0 (n + a) else a);
          j = (if b < 0 then max 0 (n + b) else b)
      in take (nat (j - i + 1)) (drop (nat i) t))"

lemma range_shift:
  assumes s: "sds_ok s" and i: "i + n \<le> sds_len s"
  shows "(do {
      m1 \<leftarrow> (if i \<noteq> 0 \<and> n \<noteq> 0 then mem_move (buf s) 0 i n else Some (buf s));
      m2 \<leftarrow> mem_set m1 n NUL;
      Some (s\<lparr>buf := m2, sds_free := sds_free s + (sds_len s - n), sds_len := n\<rparr>)
    }) = Some (s\<lparr>buf := take n (drop i (sds_str s)) @ NUL # drop (Suc n) (buf s),
        sds_free := sds_free s + (sds_len s - n), sds_len := n\<rparr>)"
proof -
  obtain rest where b: "buf s = sds_str s @ NUL # rest" and l: "length (sds_str s) = sds_len s"
    by (rule sds_okE [OF s])
  let ?t = "take n (drop i (sds_str s))"
  have lt: "length ?t = n" using l i by simp
  have lb: "n < length (buf s)" using b l i by simp
  have mv: "(if i \<noteq> 0 \<and> n \<noteq> 0 then mem_move (buf s) 0 i n else Some (buf s)) =
      Some (?t @ drop n (buf s))"
    using b l i by (auto simp: mem_move_Some append_eq_conv_conj)
  have "mem_set (?t @ drop n (buf s)) n NUL = Some (?t @ NUL # drop (Suc n) (buf s))"
    using lt lb by (simp add: mem_set_def list_update_append Cons_nth_drop_Suc [symmetric])
  then show ?thesis unfolding mv by simp
qed

lemma range_ok:
  assumes s: "sds_ok s"
  shows "\<exists>s'. sdsrange s a b = Some s' \<and> sds_ok s' \<and> sds_str s' = str_range (sds_str s) a b"
proof (cases "sds_len s = 0")
  case True
  then have "sds_str s = []" by (simp add: sds_str_def)
  with True s show ?thesis by (simp add: sdsrange_def str_range_def Let_def)
next
  case False
  define n where "n = int (sds_len s)"
  define i where "i = (if a < 0 then max 0 (n + a) else a)"
  define j where "j = (if b < 0 then max 0 (n + b) else b)"
  define start where "start = (if i > j then 0 else i)"
  define len where "len = (if i > j \<or> i \<ge> n then 0 else min j (n - 1) - i + 1)"
  have l: "length (sds_str s) = sds_len s" by (rule length_sds_str [OF s])
  have ij: "0 \<le> i" "0 \<le> j" "0 < n" using False by (auto simp: i_def j_def n_def)
  let ?k = "if start \<ge> n then 0 else nat start"
  have bounds: "?k + nat len \<le> sds_len s" using ij by (auto simp: start_def len_def n_def)
  let ?s' = "s\<lparr>buf := take (nat len) (drop ?k (sds_str s)) @ NUL # drop (Suc (nat len)) (buf s),
    sds_free := sds_free s + (sds_len s - nat len), sds_len := nat len\<rparr>"
  have "sdsrange s a b = Some ?s'"
  proof -
    have free: "nat (int (sds_free s) + (n - len)) = sds_free s + (sds_len s - nat len)"
      using ij by (auto simp: len_def n_def nat_add_distrib)
    have cond: "(start \<noteq> 0 \<and> len \<noteq> 0) = (?k \<noteq> 0 \<and> nat len \<noteq> 0)"
      using ij by (auto simp: start_def len_def)
    have mv: "(if start \<noteq> 0 \<and> len \<noteq> 0 then mem_move (buf s) 0 (nat start) (nat len) else Some (buf s)) =
        (if ?k \<noteq> 0 \<and> nat len \<noteq> 0 then mem_move (buf s) 0 ?k (nat len) else Some (buf s))"
      unfolding cond by (auto simp: len_def start_def)
    have sel: "(if (if i > j then 0 else j - i + 1) \<noteq> 0 then
          if i \<ge> n then (i, 0)
          else if j \<ge> n then (i, if i > n - 1 then 0 else (n - 1) - i + 1)
          else (i, if i > j then 0 else j - i + 1)
        else (0, if i > j then 0 else j - i + 1)) = (start, len)"
      using ij by (auto simp: start_def len_def)
    show ?thesis
      unfolding sdsrange_def Let_def n_def [symmetric] i_def [symmetric] j_def [symmetric] sel
        prod.case free mv
      using False range_shift [OF s bounds] by simp
  qed
  moreover have "sds_ok ?s' \<and> sds_str ?s' = take (nat len) (drop ?k (sds_str s))"
    using bounds l s by (intro sds_okI) (auto simp: sds_ok_def)
  moreover have "take (nat len) (drop ?k (sds_str s)) = str_range (sds_str s) a b"
  proof -
    have "str_range (sds_str s) a b = take (nat (j - i + 1)) (drop (nat i) (sds_str s))"
      unfolding str_range_def Let_def l n_def [symmetric] i_def [symmetric] j_def [symmetric] ..
    moreover have "nat n = sds_len s" by (simp add: n_def)
    ultimately show ?thesis using l ij by (auto simp: start_def len_def min_def)
  qed
  ultimately show ?thesis by metis
qed

subsection \<open>Formatted output and quoting\<close>

text \<open>Doubling the buffer ends with a block that holds the whole output.\<close>

lemma catvprintf_loop_ok:
  "2 \<le> n \<Longrightarrow> NUL \<notin> set out \<Longrightarrow> \<exists>rest. sdscatvprintf_loop out n = Some (out @ NUL # rest)"
proof (induction out n rule: sdscatvprintf_loop.induct)
  case (1 out n)
  define b0 where "b0 = (replicate n (CHR ''?''))[n - 2 := NUL]"
  have b0: "mem_set (replicate n (CHR ''?'')) (n - 2) NUL = Some b0" "length b0 = n"
    using 1(2) by (simp_all add: b0_def mem_set_def)
  obtain b where b: "vsnprintf b0 out = Some b"
    using b0(2) 1(2) by (fastforce simp: vsnprintf_def mem_write_def)
  show ?case
  proof (cases "b ! (n - 2) = NUL")
    case False
    then have "\<exists>rest. sdscatvprintf_loop out (n * 2) = Some (out @ NUL # rest)"
      using 1(1) [OF _ b0(1) b] 1(2,3) by simp
    then show ?thesis
      using 1(2) False b b0(1) by (subst sdscatvprintf_loop.simps) simp
  next
    case True
    have "length out < n - 1"
    proof (rule ccontr)
      assume long: "\<not> length out < n - 1"
      then have "b = take (n - 1) out @ [NUL]"
        using b b0(2) 1(2) by (auto simp: vsnprintf_def mem_write_def split: if_splits)
      moreover have "n - 2 < length out" "n - 2 < n - 1" using long 1(2) by auto
      ultimately have "out ! (n - 2) = NUL" using True by (simp add: nth_append)
      then show False using \<open>n - 2 < length out\<close> 1(3) nth_mem by metis
    qed
    then have "b = out @ NUL # drop (Suc (length out)) b0"
      using vsnprintf_eq [of out b0] b b0(2) by simp
    with True show ?thesis using 1(2) b b0(1) by (subst sdscatvprintf_loop.simps) simp
  qed
qed

lemma catprintf_ok:
  assumes "sds_ok s" and "NUL \<notin> set out"
  shows "\<exists>s'. sdscatprintf s out = Some s' \<and> sds_ok s' \<and> sds_str s' = sds_str s @ out"
  using catvprintf_loop_ok [of 16 out] cat_ok [OF assms] assms(2)
  by (auto simp: sdscatprintf_def sdscatvprintf_def)

text \<open>The quoted form of a character.\<close>

definition repr_char :: "char \<Rightarrow> string" where
  "repr_char c =
     (if c = CHR 0x5C \<or> c = CHR 0x22 then [CHR 0x5C, c]
      else if c = CHR 0x0A then [CHR 0x5C, CHR ''n'']
      else if c = CHR 0x0D then [CHR 0x5C, CHR ''r'']
      else if c = CHR 0x09 then [CHR 0x5C, CHR ''t'']
      else if c = CHR 0x07 then [CHR 0x5C, CHR ''a'']
      else if c = CHR 0x08 then [CHR 0x5C, CHR ''b'']
      else if isprint c then [c]
      else [CHR 0x5C, CHR ''x'', hex_digit (of_char c div 16), hex_digit (of_char c mod 16)])"

lemma hex_digit_cases:
  assumes "d < 16"
  shows "of_char (hex_digit d) = (if d < 10 then 48 + d else 87 + d)"
  using assms by (simp add: hex_digit_def)

lemma hex_digit_facts:
  assumes "d < 16"
  shows "hex_digit d \<noteq> NUL" "is_hex_digit (hex_digit d)" "hex_digit_to_int (hex_digit d) = d"
proof -
  have "hex_digit d = NUL \<Longrightarrow> of_char (hex_digit d) = (0 :: nat)" by simp
  then show "hex_digit d \<noteq> NUL" using hex_digit_cases [OF assms] by (auto split: if_splits)
qed (use assms in \<open>auto simp: is_hex_digit_def hex_digit_to_int_def hex_digit_cases Let_def\<close>)

lemma char_of_hex: "char_of (of_char c div 16 * 16 + of_char c mod (16 :: nat)) = c"
  by (simp only: div_mult_mod_eq char_of_char)

lemma char_div_16: "of_char c div 16 < (16 :: nat)"
  using nat_of_char_less_256 [of c] by linarith

lemma NUL_repr: "NUL \<notin> set (repr_char c)"
proof -
  have esc: "c = CHR 0x5C \<or> c = CHR 0x22 \<Longrightarrow> NUL \<notin> set [CHR 0x5C, c]" by auto
  have plain: "isprint c \<Longrightarrow> NUL \<notin> set [c]" by (auto simp: isprint_def)
  have hex: "NUL \<notin> set [CHR 0x5C, CHR ''x'', hex_digit (of_char c div 16), hex_digit (of_char c mod 16)]"
    using hex_digit_facts(1) [OF char_div_16, of c] hex_digit_facts(1) [of "of_char c mod 16"] by auto
  have "NUL \<notin> set [CHR 0x5C, CHR ''n'']" "NUL \<notin> set [CHR 0x5C, CHR ''r'']"
    "NUL \<notin> set [CHR 0x5C, CHR ''t'']" "NUL \<notin> set [CHR 0x5C, CHR ''a'']"
    "NUL \<notin> set [CHR 0x5C, CHR ''b'']"
    by simp_all
  then show ?thesis unfolding repr_char_def by (simp only: esc plain hex split: if_split) (use plain in simp)
qed

definition appends :: "sdshdr \<Rightarrow> string \<Rightarrow> sdshdr option \<Rightarrow> bool" where
  "appends s t r \<longleftrightarrow> (\<exists>s'. r = Some s' \<and> sds_ok s' \<and> sds_str s' = sds_str s @ t)"

lemma appends_bind:
  "appends s t r \<Longrightarrow> (\<And>s'. sds_ok s' \<Longrightarrow> appends s' u (f s')) \<Longrightarrow> appends s (t @ u) (r \<bind> f)"
  unfolding appends_def by fastforce

lemma appends_if:
  "(P \<Longrightarrow> appends s t r) \<Longrightarrow> (\<not> P \<Longrightarrow> appends s u q) \<Longrightarrow>
   appends s (if P then t else u) (if P then r else q)"
  by simp

lemma appends_catlen: "sds_ok s \<Longrightarrow> n \<le> length t \<Longrightarrow> appends s (take n t) (sdscatlen s t n)"
  by (simp add: appends_def catlen_ok)

lemma appends_catprintf: "sds_ok s \<Longrightarrow> NUL \<notin> set t \<Longrightarrow> appends s t (sdscatprintf s t)"
  by (simp add: appends_def catprintf_ok)

lemma appends_catrepr_char:
  assumes "sds_ok s"
  shows "appends s (repr_char c) (catrepr_char s c)"
proof -
  have two: "appends s [a, b] (sdscatlen s [a, b, NUL] 2)" for a b
    using appends_catlen [OF assms, of 2 "[a, b, NUL]"] by simp
  have esc: "c = CHR 0x5C \<or> c = CHR 0x22 \<Longrightarrow> appends s [CHR 0x5C, c] (sdscatprintf s [CHR 0x5C, c])"
    by (rule appends_catprintf [OF assms]) auto
  have plain: "isprint c \<Longrightarrow> appends s [c] (sdscatprintf s [c])"
    by (rule appends_catprintf [OF assms]) (auto simp: isprint_def)
  have hex: "appends s [CHR 0x5C, CHR ''x'', hex_digit (of_char c div 16), hex_digit (of_char c mod 16)]
      (sdscatprintf s
         [CHR 0x5C, CHR ''x'', hex_digit (of_char c div 16), hex_digit (of_char c mod 16)])"
    using hex_digit_facts(1) [OF char_div_16, of c] hex_digit_facts(1) [of "of_char c mod 16"]
    by (intro appends_catprintf [OF assms]) auto
  show ?thesis
    unfolding catrepr_char_def repr_char_def by (intro appends_if two esc plain hex)
qed

lemma appends_run:
  "sds_ok s \<Longrightarrow> appends s (concat (map repr_char p)) (run_option catrepr_char s p)"
proof (induction p arbitrary: s)
  case (Cons c p)
  then show ?case using appends_bind [OF appends_catrepr_char] by fastforce
qed (simp add: appends_def)

lemma catrepr_ok:
  assumes "sds_ok s"
  shows "appends s ([CHR 0x22] @ concat (map repr_char p) @ [CHR 0x22]) (sdscatrepr s p)"
proof -
  have quote: "appends s [CHR 0x22] (sdscatlen s [CHR 0x22, NUL] 1)" if "sds_ok s" for s
    using appends_catlen [OF that, of 1 "[CHR 0x22, NUL]"] by simp
  show ?thesis
    unfolding sdscatrepr_def
    by (intro appends_bind quote appends_run assms)
qed

text \<open>Inside double quotes the argument parser undoes one quoted character at a time.\<close>

lemma args_token_repr:
  "args_token InQuotes (repr_char c @ rest) cur = args_token InQuotes rest (cur @ [c])"
proof -
  have d: "of_char c mod 16 < (16 :: nat)" by simp
  note hx = hex_digit_facts [OF char_div_16, of c] hex_digit_facts [OF d]
  have "drop 3 (a # b # c # r) = r" for a b c and r :: string by (simp add: numeral_3_eq_3)
  then show ?thesis
    using hx by (auto simp: repr_char_def peek_def unescape_def char_of_hex numeral_2_eq_2
        simp del: of_char_of)
qed

lemma args_token_reprs:
  "args_token InQuotes (concat (map repr_char p) @ [CHR 0x22]) cur = Some (cur @ p, [])"
  by (induction p arbitrary: cur) (simp_all add: args_token_repr peek_def)

subsection \<open>Splitting\<close>

fun join :: "string \<Rightarrow> string list \<Rightarrow> string" where
  "join sep [] = []"
| "join sep [t] = t"
| "join sep (t # ts) = t @ sep @ join sep ts"

lemma join_snoc: "join sep (ts @ [t]) = concat (map (\<lambda>u. u @ sep) ts) @ t"
  by (induction sep ts rule: join.induct) simp_all

definition occurs_at :: "string \<Rightarrow> string \<Rightarrow> nat \<Rightarrow> bool" where
  "occurs_at sep t k \<longleftrightarrow> take (length sep) (drop k t) = sep"

lemma occurs_at_le: "sep \<noteq> [] \<Longrightarrow> occurs_at sep t k \<Longrightarrow> k + length sep \<le> length t"
  by (cases "k \<le> length t") (auto simp: occurs_at_def dest!: arg_cong [where f = length])

lemma sublist_occurs: "sublist sep t \<longleftrightarrow> (\<exists>k. occurs_at sep t k)"
proof
  assume "sublist sep t"
  then obtain us vs where "t = us @ sep @ vs" by (auto simp: sublist_def)
  then show "\<exists>k. occurs_at sep t k" by (intro exI [of _ "length us"]) (simp add: occurs_at_def)
next
  assume "\<exists>k. occurs_at sep t k"
  then show "sublist sep t"
    unfolding occurs_at_def by (metis sublist_drop sublist_order.order_trans sublist_take)
qed

lemma not_sublist_token:
  assumes "sep \<noteq> []" and "\<And>k. start \<le> k \<Longrightarrow> k < j \<Longrightarrow> \<not> occurs_at sep s k"
  shows "\<not> sublist sep (take (j - start) (drop start s))"
proof
  assume "sublist sep (take (j - start) (drop start s))"
  then obtain k where k: "occurs_at sep (take (j - start) (drop start s)) k"
    by (auto simp: sublist_occurs)
  then have le: "k + length sep \<le> length (take (j - start) (drop start s))"
    by (rule occurs_at_le [OF assms(1)])
  then have "occurs_at sep s (start + k)"
    using k by (auto simp: occurs_at_def take_drop min_def add.commute split: if_splits)
  with assms le show False by (cases sep) auto
qed

lemma split_loop_ok:
  "sep \<noteq> [] \<Longrightarrow> start \<le> j \<Longrightarrow> j \<le> length s \<Longrightarrow>
   (\<And>k. start \<le> k \<Longrightarrow> k < j \<Longrightarrow> \<not> occurs_at sep s k) \<Longrightarrow>
   split_loop s sep j start tokens = (start', tokens') \<Longrightarrow>
   \<exists>new. tokens' = tokens @ new \<and> drop start s = concat (map (\<lambda>u. u @ sep) new) @ drop start' s \<and>
     (\<forall>t \<in> set (new @ [drop start' s]). \<not> sublist sep t)"
proof (induction s sep j start tokens rule: split_loop.induct)
  case (1 s sep j start tokens)
  let ?hit = "(length sep = 1 \<and> s ! j = sep ! 0) \<or> memcmp (take (length sep) (drop j s)) sep = 0"
  show ?case
  proof (cases "int j < int (length s) - (int (length sep) - 1)")
    case False
    with 1 have [simp]: "start' = start" "tokens' = tokens" by (simp_all add: split_loop.simps)
    have "\<not> occurs_at sep s k" if "start \<le> k" for k
      using that 1(3,6) False occurs_at_le [OF 1(3), of s k] by force
    then have "\<not> sublist sep (take (length s - start) (drop start s))"
      using 1(3) by (intro not_sublist_token) auto
    then show ?thesis by simp
  next
    case True
    then have jle: "j + length sep \<le> length s" by simp
    have hit: "?hit \<longleftrightarrow> occurs_at sep s j"
    proof -
      have "length (take (length sep) (drop j s)) = length sep" using jle by simp
      then have "memcmp (take (length sep) (drop j s)) sep = 0 \<longleftrightarrow> occurs_at sep s j"
        by (simp add: memcmp_eq_0 occurs_at_def)
      moreover have "occurs_at sep s j" if "length sep = 1" "s ! j = sep ! 0"
        using that jle by (cases sep) (auto simp: occurs_at_def take_Suc_conv_app_nth)
      ultimately show ?thesis by blast
    qed
    show ?thesis
    proof (cases "occurs_at sep s j")
      case False
      have "\<not> occurs_at sep s k" if "start \<le> k" "k < j + 1" for k
        using that False 1(6) by (cases "k = j") auto
      moreover have "split_loop s sep (j + 1) start tokens = (start', tokens')"
        using 1(3,7) True False hit by (auto simp: split_loop.simps [of s sep j])
      moreover have "j + 1 \<le> length s" using True 1(3) by (cases sep) auto
      ultimately show ?thesis using 1(2) [OF _ _ 1(3)] 1(3,4) True False hit by simp
    next
      case True': True
      let ?t = "take (j - start) (drop start s)"
      have "split_loop s sep (j + length sep) (j + length sep) (tokens @ [?t]) = (start', tokens')"
        using 1(3,7) True True' hit by (simp add: split_loop.simps [of s sep j])
      then obtain new where new: "tokens' = tokens @ [?t] @ new"
        "drop (j + length sep) s = concat (map (\<lambda>u. u @ sep) new) @ drop start' s"
        "\<forall>t \<in> set (new @ [drop start' s]). \<not> sublist sep t"
        using 1(1) [OF _ _ 1(3)] True True' hit jle 1(3) by auto
      have "drop start s = ?t @ drop j s" using 1(4) by (metis append_take_drop_id drop_drop
            le_add_diff_inverse2)
      also have "drop j s = sep @ drop (j + length sep) s"
        using True' unfolding occurs_at_def by (metis append_take_drop_id drop_drop add.commute)
      finally show ?thesis
        using new not_sublist_token [OF 1(3,6)] by (intro exI [of _ "?t # new"]) auto
    qed
  qed
qed

lemma splitlen_ok:
  assumes "sep \<noteq> []" and "s \<noteq> []"
  shows "\<exists>ts. sdssplitlen s sep = Some ts \<and> join sep ts = s \<and> (\<forall>t \<in> set ts. \<not> sublist sep t)"
proof -
  obtain start tokens where l: "split_loop s sep 0 0 [] = (start, tokens)" by fastforce
  then have "s = concat (map (\<lambda>u. u @ sep) tokens) @ drop start s \<and>
      (\<forall>t \<in> set (tokens @ [drop start s]). \<not> sublist sep t)"
    using split_loop_ok [OF assms(1) _ _ _ l] by auto
  with l assms show ?thesis by (auto simp: sdssplitlen_def join_snoc Suc_le_eq)
qed

subsection \<open>Properties\<close>

text \<open>Appending \<open>n\<close> bytes never touches memory outside the string, keeps the string well formed
  whatever its free space was, and leaves the old content followed by the \<open>n\<close> bytes.\<close>

theorem sdscatlen_appends:
  assumes "sds_ok s" and "n \<le> length t"
  shows "\<exists>s'. sdscatlen s t n = Some s' \<and> sds_ok s' \<and> sds_str s' = sds_str s @ take n t"
  by (rule catlen_ok [OF assms])

theorem sdscatlen_appends_witness:
  "\<exists>s'. sdscatlen \<lparr>sds_len = 2, sds_free = 1, buf = [CHR ''a'', CHR ''b'', NUL, CHR ''?'']\<rparr> ''cdef'' 3 =
       Some s' \<and> sds_ok s' \<and> sds_str s' = ''abcde''"
  using sdscatlen_appends [of "\<lparr>sds_len = 2, sds_free = 1, buf = [CHR ''a'', CHR ''b'', NUL, CHR ''?'']\<rparr>"
      3 "''cdef''"]
  by (simp add: sds_ok_def sds_str_def)

text \<open>\<^verbatim>\<open>sdsrange\<close> keeps a well formed string and leaves the part between the two inclusive
  positions, a negative position counting from the end; it never leaves the block, whatever the
  positions are.\<close>

theorem sdsrange_substring:
  assumes "sds_ok s"
  shows "\<exists>s'. sdsrange s a b = Some s' \<and> sds_ok s' \<and> sds_str s' = str_range (sds_str s) a b"
  by (rule range_ok [OF assms])

theorem sdsrange_substring_witness:
  "\<exists>s'. sdsrange \<lparr>sds_len = 4, sds_free = 0, buf = ''ciao'' @ [NUL]\<rparr> 1 (- 2) = Some s' \<and>
     sds_ok s' \<and> sds_str s' = ''ia''"
  using sdsrange_substring [of "\<lparr>sds_len = 4, sds_free = 0, buf = ''ciao'' @ [NUL]\<rparr>" 1 "- 2"]
  by (simp add: sds_ok_def sds_str_def str_range_def)

text \<open>\<^verbatim>\<open>sdstrim\<close> removes from both ends the longest runs of characters of the set, and of
  NUL bytes (\<^verbatim>\<open>strchr\<close> finds the terminator of the set), and nothing else.\<close>

theorem sdstrim_strips:
  assumes "sds_ok s"
  shows "\<exists>s'. sdstrim s cset = Some s' \<and> sds_ok s' \<and> sds_str s' = strip (strchr cset) (sds_str s)"
  by (rule trim_ok [OF assms])

theorem sdstrim_strips_witness:
  "\<exists>s'. sdstrim \<lparr>sds_len = 6, sds_free = 0, buf = ''xxciao'' @ [NUL]\<rparr> (cstr ''xo'') = Some s' \<and>
     sds_ok s' \<and> sds_str s' = ''cia''"
  using sdstrim_strips [of "\<lparr>sds_len = 6, sds_free = 0, buf = ''xxciao'' @ [NUL]\<rparr>" "cstr ''xo''"]
  by (simp add: sds_ok_def sds_str_def strip_def strchr_def cstr_def)

text \<open>Splitting by a separator and joining the tokens with it gives the input back, and no token
  contains the separator.\<close>

theorem sdssplitlen_join:
  assumes "sep \<noteq> []" and "s \<noteq> []"
  shows "\<exists>ts. sdssplitlen s sep = Some ts \<and> join sep ts = s \<and> (\<forall>t \<in> set ts. \<not> sublist sep t)"
  by (rule splitlen_ok [OF assms])

theorem sdssplitlen_join_witness:
  "\<exists>ts. sdssplitlen ''a_-b_-'' ''_-'' = Some ts \<and> join ''_-'' ts = ''a_-b_-'' \<and>
     (\<forall>t \<in> set ts. \<not> sublist ''_-'' t)"
  using sdssplitlen_join [of "''_-''" "''a_-b_-''"] by simp

text \<open>C17. Quoting and parsing are inverse: what \<^verbatim>\<open>sdscatrepr\<close> writes for any byte string into an empty
  string is read back by \<^verbatim>\<open>sdssplitargs\<close> as that one argument.\<close>

theorem sdscatrepr_roundtrip:
  "\<exists>e s. sdsempty = Some e \<and> sdscatrepr e p = Some s \<and> sds_ok s \<and>
     sdssplitargs (buf s) = Some [p]"
proof -
  obtain e where e: "sdsempty = Some e" "sds_ok e" "sds_str e = []"
    unfolding sdsempty_def using newlen_ok [of 0 "[NUL]"] by auto
  let ?r = "[CHR 0x22] @ concat (map repr_char p) @ [CHR 0x22]"
  obtain s where s: "sdscatrepr e p = Some s" "sds_ok s" "sds_str s = ?r"
    using catrepr_ok [OF e(2), of p] e(3) by (auto simp: appends_def)
  obtain rest where "buf s = ?r @ NUL # rest" using sds_okE [OF s(2)] s(3) by metis
  moreover have "NUL \<notin> set ?r" using NUL_repr by auto
  ultimately have "takeWhile (\<lambda>c. c \<noteq> NUL) (buf s) = ?r" by (simp add: takeWhile_append)
  moreover have "args_loop ?r [] = Some [p]"
    using args_token_reprs [of p "[]"] by (simp add: args_loop.simps isspace_def)
  ultimately have "sdssplitargs (buf s) = Some [p]" by (simp add: sdssplitargs_def)
  with e(1) s(1,2) show ?thesis by blast
qed

end
