(* ===== verification/Adlist.thy ===== *)
theory Adlist
  imports Prelude
begin

section \<open>Doubly linked lists (\<^verbatim>\<open>adlist.c\<close>)\<close>

text \<open>
  Nodes live in a heap of cells; a pointer is an address or NULL (\<open>None\<close>), and dereferencing NULL
  or a freed cell is \<open>None\<close>.  The allocator hands out addresses in increasing order and never
  fails (\<^verbatim>\<open>zmalloc\<close> aborts the process instead of returning NULL).  \<open>freed\<close> records the values
  handed to the \<^verbatim>\<open>free\<close> methods, in order.  The function pointers \<^verbatim>\<open>dup\<close> and \<^verbatim>\<open>match\<close> are optional
  functions of the list record, and \<open>list_free\<close> says whether a \<^verbatim>\<open>free\<close> method is set.
\<close>

type_synonym ref = nat

record 'v listNode =
  node_prev :: "ref option"
  node_next :: "ref option"
  node_value :: 'v

record 'v heap =
  cells :: "ref \<rightharpoonup> 'v listNode"
  brk :: nat
  freed :: "'v list"

record 'v adlist =
  list_head :: "ref option"
  list_tail :: "ref option"
  list_dup :: "('v \<Rightarrow> 'v option) option"
  list_free :: bool
  list_match :: "('v \<Rightarrow> 'v \<Rightarrow> bool) option"
  list_len :: nat

datatype direction = AL_START_HEAD | AL_START_TAIL

record listIter =
  iter_next :: "ref option"
  iter_direction :: direction

definition h_empty :: "'v heap" where
  "h_empty = \<lparr>cells = Map.empty, brk = 0, freed = []\<rparr>"

definition h_alloc :: "'v heap \<Rightarrow> 'v listNode \<Rightarrow> 'v heap \<times> ref" where
  "h_alloc h n = (h\<lparr>cells := (cells h)(brk h \<mapsto> n), brk := brk h + 1\<rparr>, brk h)"

definition h_get :: "'v heap \<Rightarrow> ref option \<Rightarrow> 'v listNode option" where
  "h_get h p = (case p of None \<Rightarrow> None | Some a \<Rightarrow> cells h a)"

definition h_put :: "'v heap \<Rightarrow> ref option \<Rightarrow> ('v listNode \<Rightarrow> 'v listNode) \<Rightarrow> 'v heap option" where
  "h_put h p f =
     (case p of None \<Rightarrow> None
      | Some a \<Rightarrow> (case cells h a of None \<Rightarrow> None
                  | Some n \<Rightarrow> Some (h\<lparr>cells := (cells h)(a \<mapsto> f n)\<rparr>)))"

definition h_free :: "'v heap \<Rightarrow> ref option \<Rightarrow> 'v heap option" where
  "h_free h p =
     (case p of None \<Rightarrow> None
      | Some a \<Rightarrow> if cells h a = None then None else Some (h\<lparr>cells := (cells h)(a := None)\<rparr>))"

definition call_free :: "bool \<Rightarrow> 'v \<Rightarrow> 'v heap \<Rightarrow> 'v heap" where
  "call_free b v h = (if b then h\<lparr>freed := freed h @ [v]\<rparr> else h)"

subsection \<open>Operations\<close>

definition listCreate :: "'v adlist" where
  "listCreate = \<lparr>list_head = None, list_tail = None, list_dup = None, list_free = False,
     list_match = None, list_len = 0\<rparr>"

fun release_loop :: "bool \<Rightarrow> 'v heap \<Rightarrow> ref option \<Rightarrow> nat \<Rightarrow> 'v heap option" where
  "release_loop b h current 0 = Some h"
| "release_loop b h current (Suc n) = do {
     node \<leftarrow> h_get h current;
     h1 \<leftarrow> h_free (call_free b (node_value node) h) current;
     release_loop b h1 (node_next node) n
   }"

definition listRelease :: "'v heap \<Rightarrow> 'v adlist \<Rightarrow> 'v heap option" where
  "listRelease h l = release_loop (list_free l) h (list_head l) (list_len l)"

definition listAddNodeHead :: "'v heap \<Rightarrow> 'v adlist \<Rightarrow> 'v \<Rightarrow> ('v heap \<times> 'v adlist) option" where
  "listAddNodeHead h l v =
     (if list_len l = 0 then
        let (h1, a) = h_alloc h \<lparr>node_prev = None, node_next = None, node_value = v\<rparr>
        in Some (h1, l\<lparr>list_head := Some a, list_tail := Some a, list_len := list_len l + 1\<rparr>)
      else
        let (h1, a) = h_alloc h \<lparr>node_prev = None, node_next = list_head l, node_value = v\<rparr>
        in do {
          h2 \<leftarrow> h_put h1 (list_head l) (\<lambda>n. n\<lparr>node_prev := Some a\<rparr>);
          Some (h2, l\<lparr>list_head := Some a, list_len := list_len l + 1\<rparr>)
        })"

definition listAddNodeTail :: "'v heap \<Rightarrow> 'v adlist \<Rightarrow> 'v \<Rightarrow> ('v heap \<times> 'v adlist) option" where
  "listAddNodeTail h l v =
     (if list_len l = 0 then
        let (h1, a) = h_alloc h \<lparr>node_prev = None, node_next = None, node_value = v\<rparr>
        in Some (h1, l\<lparr>list_head := Some a, list_tail := Some a, list_len := list_len l + 1\<rparr>)
      else
        let (h1, a) = h_alloc h \<lparr>node_prev = list_tail l, node_next = None, node_value = v\<rparr>
        in do {
          h2 \<leftarrow> h_put h1 (list_tail l) (\<lambda>n. n\<lparr>node_next := Some a\<rparr>);
          Some (h2, l\<lparr>list_tail := Some a, list_len := list_len l + 1\<rparr>)
        })"

definition listInsertNode ::
  "'v heap \<Rightarrow> 'v adlist \<Rightarrow> ref \<Rightarrow> 'v \<Rightarrow> bool \<Rightarrow> ('v heap \<times> 'v adlist) option" where
  "listInsertNode h l old_node v after = do {
     old \<leftarrow> h_get h (Some old_node);
     let node = (if after
       then \<lparr>node_prev = Some old_node, node_next = node_next old, node_value = v\<rparr>
       else \<lparr>node_prev = node_prev old, node_next = Some old_node, node_value = v\<rparr>);
     let (h1, a) = h_alloc h node;
     let l1 = (if after
       then (if list_tail l = Some old_node then l\<lparr>list_tail := Some a\<rparr> else l)
       else (if list_head l = Some old_node then l\<lparr>list_head := Some a\<rparr> else l));
     h2 \<leftarrow> (if node_prev node \<noteq> None
            then h_put h1 (node_prev node) (\<lambda>n. n\<lparr>node_next := Some a\<rparr>) else Some h1);
     h3 \<leftarrow> (if node_next node \<noteq> None
            then h_put h2 (node_next node) (\<lambda>n. n\<lparr>node_prev := Some a\<rparr>) else Some h2);
     Some (h3, l1\<lparr>list_len := list_len l1 + 1\<rparr>)
   }"

definition listDelNode :: "'v heap \<Rightarrow> 'v adlist \<Rightarrow> ref option \<Rightarrow> ('v heap \<times> 'v adlist) option" where
  "listDelNode h l p = do {
     node \<leftarrow> h_get h p;
     (h1, l1) \<leftarrow>
       (if node_prev node \<noteq> None
        then do { h' \<leftarrow> h_put h (node_prev node) (\<lambda>n. n\<lparr>node_next := node_next node\<rparr>); Some (h', l) }
        else Some (h, l\<lparr>list_head := node_next node\<rparr>));
     (h2, l2) \<leftarrow>
       (if node_next node \<noteq> None
        then do { h' \<leftarrow> h_put h1 (node_next node) (\<lambda>n. n\<lparr>node_prev := node_prev node\<rparr>); Some (h', l1) }
        else Some (h1, l1\<lparr>list_tail := node_prev node\<rparr>));
     h3 \<leftarrow> h_free (call_free (list_free l) (node_value node) h2) p;
     Some (h3, l2\<lparr>list_len := list_len l2 - 1\<rparr>)
   }"

definition listGetIterator :: "'v adlist \<Rightarrow> direction \<Rightarrow> listIter" where
  "listGetIterator l d =
     \<lparr>iter_next = (if d = AL_START_HEAD then list_head l else list_tail l), iter_direction = d\<rparr>"

definition listRewind :: "'v adlist \<Rightarrow> listIter" where
  "listRewind l = \<lparr>iter_next = list_head l, iter_direction = AL_START_HEAD\<rparr>"

definition listRewindTail :: "'v adlist \<Rightarrow> listIter" where
  "listRewindTail l = \<lparr>iter_next = list_tail l, iter_direction = AL_START_TAIL\<rparr>"

definition listNext :: "'v heap \<Rightarrow> listIter \<Rightarrow> (ref option \<times> listIter) option" where
  "listNext h it =
     (case iter_next it of
        None \<Rightarrow> Some (None, it)
      | Some a \<Rightarrow> do {
          node \<leftarrow> h_get h (Some a);
          Some (Some a, it\<lparr>iter_next :=
            (if iter_direction it = AL_START_HEAD then node_next node else node_prev node)\<rparr>)
        })"

text \<open>The loops over an iterator run until \<^verbatim>\<open>listNext\<close> returns NULL.  The result of \<^verbatim>\<open>listDup\<close> is
  the heap and the copy, or no copy when the \<^verbatim>\<open>dup\<close> method fails.\<close>

partial_function (option) dup_loop ::
  "'v heap \<Rightarrow> listIter \<Rightarrow> 'v adlist \<Rightarrow> ('v heap \<times> 'v adlist option) option" where
  "dup_loop h it copy =
     listNext h it \<bind> (\<lambda>(cur, it').
       case cur of
         None \<Rightarrow> Some (h, Some copy)
       | Some a \<Rightarrow>
           h_get h (Some a) \<bind> (\<lambda>node.
             case (case list_dup copy of Some d \<Rightarrow> d (node_value node)
                   | None \<Rightarrow> Some (node_value node)) of
               None \<Rightarrow> listRelease h copy \<bind> (\<lambda>h'. Some (h', None))
             | Some v \<Rightarrow> listAddNodeTail h copy v \<bind> (\<lambda>(h', copy'). dup_loop h' it' copy')))"

definition listDup :: "'v heap \<Rightarrow> 'v adlist \<Rightarrow> ('v heap \<times> 'v adlist option) option" where
  "listDup h orig =
     (let copy = listCreate\<lparr>list_dup := list_dup orig, list_free := list_free orig,
                            list_match := list_match orig\<rparr>
      in dup_loop h (listGetIterator orig AL_START_HEAD) copy)"

partial_function (option) search_loop ::
  "('v \<Rightarrow> 'v \<Rightarrow> bool) option \<Rightarrow> 'v heap \<Rightarrow> listIter \<Rightarrow> 'v \<Rightarrow> ref option option" where
  "search_loop m h it key =
     listNext h it \<bind> (\<lambda>(cur, it').
       case cur of
         None \<Rightarrow> Some None
       | Some a \<Rightarrow>
           h_get h (Some a) \<bind> (\<lambda>node.
             if (case m of Some f \<Rightarrow> f (node_value node) key | None \<Rightarrow> key = node_value node)
             then Some (Some a) else search_loop m h it' key))"

definition listSearchKey :: "'v heap \<Rightarrow> 'v adlist \<Rightarrow> 'v \<Rightarrow> ref option option" where
  "listSearchKey h l key = search_loop (list_match l) h (listGetIterator l AL_START_HEAD) key"

fun index_loop ::
  "('v listNode \<Rightarrow> ref option) \<Rightarrow> 'v heap \<Rightarrow> nat \<Rightarrow> ref option \<Rightarrow> ref option option" where
  "index_loop step h 0 n = Some n"
| "index_loop step h (Suc i) None = Some None"
| "index_loop step h (Suc i) (Some a) = do { node \<leftarrow> h_get h (Some a); index_loop step h i (step node) }"

definition listIndex :: "'v heap \<Rightarrow> 'v adlist \<Rightarrow> int \<Rightarrow> ref option option" where
  "listIndex h l index =
     (if index < 0 then index_loop node_prev h (nat (- index - 1)) (list_tail l)
      else index_loop node_next h (nat index) (list_head l))"

definition listRotate :: "'v heap \<Rightarrow> 'v adlist \<Rightarrow> ('v heap \<times> 'v adlist) option" where
  "listRotate h l =
     (if list_len l \<le> 1 then Some (h, l)
      else do {
        let tail = list_tail l;
        t \<leftarrow> h_get h tail;
        let l1 = l\<lparr>list_tail := node_prev t\<rparr>;
        h1 \<leftarrow> h_put h (list_tail l1) (\<lambda>n. n\<lparr>node_next := None\<rparr>);
        h2 \<leftarrow> h_put h1 (list_head l1) (\<lambda>n. n\<lparr>node_prev := tail\<rparr>);
        h3 \<leftarrow> h_put h2 tail (\<lambda>n. n\<lparr>node_prev := None\<rparr>);
        h4 \<leftarrow> h_put h3 tail (\<lambda>n. n\<lparr>node_next := list_head l1\<rparr>);
        Some (h4, l1\<lparr>list_head := tail\<rparr>)
      })"

subsection \<open>The sequence a heap list stands for\<close>

text \<open>\<open>chain c p xs n\<close>: the cells of \<open>xs\<close>, pairs of an address and a value, are linked in both
  directions; \<open>p\<close> is what stands before the first and \<open>n\<close> what follows the last.\<close>

fun first :: "(ref \<times> 'v) list \<Rightarrow> ref option \<Rightarrow> ref option" where
  "first [] n = n"
| "first ((a, _) # _) n = Some a"

fun final :: "ref option \<Rightarrow> (ref \<times> 'v) list \<Rightarrow> ref option" where
  "final p [] = p"
| "final p ((a, _) # xs) = final (Some a) xs"

fun chain :: "(ref \<rightharpoonup> 'v listNode) \<Rightarrow> ref option \<Rightarrow> (ref \<times> 'v) list \<Rightarrow> ref option \<Rightarrow> bool" where
  "chain c p [] n \<longleftrightarrow> True"
| "chain c p ((a, v) # xs) n \<longleftrightarrow>
     c a = Some \<lparr>node_prev = p, node_next = first xs n, node_value = v\<rparr> \<and> chain c (Some a) xs n"

definition heap_ok :: "'v heap \<Rightarrow> bool" where
  "heap_ok h \<longleftrightarrow> (\<forall>a \<ge> brk h. cells h a = None)"

definition list_rep :: "'v heap \<Rightarrow> 'v adlist \<Rightarrow> (ref \<times> 'v) list \<Rightarrow> bool" where
  "list_rep h l xs \<longleftrightarrow>
     chain (cells h) None xs None \<and> distinct (map fst xs) \<and> list_head l = first xs None \<and>
     list_tail l = final None xs \<and> list_len l = length xs \<and> heap_ok h"

lemma first_append [simp]: "first (xs @ ys) n = first xs (first ys n)"
  by (cases xs) auto

lemma final_append [simp]: "final p (xs @ ys) = final (final p xs) ys"
  by (induction p xs rule: final.induct) auto

lemma chain_append [simp]:
  "chain c p (xs @ ys) n \<longleftrightarrow> chain c p xs (first ys n) \<and> chain c (final p xs) ys n"
  by (induction c p xs "first ys n" rule: chain.induct) auto

lemma chain_upd [simp]: "a \<notin> fst ` set xs \<Longrightarrow> chain (c(a := z)) p xs n = chain c p xs n"
  by (induction c p xs n rule: chain.induct) auto

lemma chain_dom: "chain c p xs n \<Longrightarrow> a \<in> fst ` set xs \<Longrightarrow> c a \<noteq> None"
  by (induction c p xs n rule: chain.induct) auto

lemma first_None_iff [simp]: "first xs None = None \<longleftrightarrow> xs = []"
  by (cases xs) auto

lemma final_eq: "xs \<noteq> [] \<Longrightarrow> final p xs = Some (fst (last xs))"
  by (induction p xs rule: final.induct) auto

lemma chain_fresh: "heap_ok h \<Longrightarrow> chain (cells h) p xs n \<Longrightarrow> brk h \<notin> fst ` set xs"
  using chain_dom by (force simp: heap_ok_def)

text \<open>An operation on one list leaves the cells of every other list of the heap alone.\<close>

definition frame :: "'v heap \<Rightarrow> (ref \<times> 'v) list \<Rightarrow> 'v heap \<Rightarrow> bool" where
  "frame h xs h' \<longleftrightarrow>
     brk h \<le> brk h' \<and> (\<forall>b < brk h. b \<notin> fst ` set xs \<longrightarrow> cells h' b = cells h b)"

lemmas heap_defs = h_alloc_def h_get_def h_put_def h_free_def call_free_def

lemma addHead_ok:
  assumes r: "list_rep h l xs"
  shows "\<exists>h' l'. listAddNodeHead h l v = Some (h', l') \<and> list_rep h' l' ((brk h, v) # xs) \<and>
    frame h xs h' \<and> freed h' = freed h \<and> brk h' = brk h + 1 \<and> list_free l' = list_free l"
proof (cases xs)
  case Nil
  with r show ?thesis
    by (auto simp: listAddNodeHead_def list_rep_def heap_defs heap_ok_def frame_def)
next
  case (Cons x ys)
  obtain a w where x: "x = (a, w)" by (cases x)
  have "brk h \<notin> fst ` set xs" using r by (auto simp: list_rep_def dest: chain_fresh)
  with r show ?thesis
    unfolding Cons x
    by (auto simp: listAddNodeHead_def list_rep_def heap_defs heap_ok_def frame_def)
qed

lemma addTail_ok:
  assumes r: "list_rep h l xs"
  shows "\<exists>h' l'. listAddNodeTail h l v = Some (h', l') \<and> list_rep h' l' (xs @ [(brk h, v)]) \<and>
    frame h xs h' \<and> freed h' = freed h \<and> brk h' = brk h + 1 \<and> list_free l' = list_free l \<and>
    list_dup l' = list_dup l"
proof (cases xs rule: rev_cases)
  case Nil
  with r show ?thesis
    by (auto simp: listAddNodeTail_def list_rep_def heap_defs heap_ok_def frame_def)
next
  case (snoc ys x)
  obtain a w where x: "x = (a, w)" by (cases x)
  have "brk h \<notin> fst ` set xs" using r by (auto simp: list_rep_def dest: chain_fresh)
  with r show ?thesis
    unfolding snoc x
    by (auto simp: listAddNodeTail_def list_rep_def heap_defs heap_ok_def frame_def)
qed

lemma delNode_ok:
  assumes r: "list_rep h l (us @ (a, v) # ws)"
  shows "\<exists>h' l'. listDelNode h l (Some a) = Some (h', l') \<and> list_rep h' l' (us @ ws) \<and>
    frame h (us @ (a, v) # ws) h' \<and> freed h' = freed h @ (if list_free l then [v] else []) \<and>
    brk h' = brk h \<and> list_free l' = list_free l \<and> cells h' a = None"
proof (cases us rule: rev_cases; cases ws)
  assume e: "us = []" "ws = []"
  show ?thesis using r unfolding e
    by (auto simp: listDelNode_def list_rep_def heap_defs heap_ok_def frame_def)
next
  fix w ws' assume e: "us = []" "ws = w # ws'"
  show ?thesis using r unfolding e
    by (cases w) (auto simp: listDelNode_def list_rep_def heap_defs heap_ok_def frame_def)
next
  fix us' u assume e: "us = us' @ [u]" "ws = []"
  show ?thesis using r unfolding e
    by (cases u) (auto simp: listDelNode_def list_rep_def heap_defs heap_ok_def frame_def)
next
  fix us' u w ws' assume e: "us = us' @ [u]" "ws = w # ws'"
  show ?thesis using r unfolding e
    by (cases u; cases w) (auto simp: listDelNode_def list_rep_def heap_defs heap_ok_def frame_def)
qed

lemma insertAfter_ok:
  assumes r: "list_rep h l (us @ (a, w) # ws)" and f: "brk h \<notin> fst ` set (us @ (a, w) # ws)"
  shows "\<exists>h' l'. listInsertNode h l a v True = Some (h', l') \<and>
    list_rep h' l' (us @ [(a, w), (brk h, v)] @ ws) \<and> frame h (us @ (a, w) # ws) h'"
proof (cases ws)
  case Nil
  show ?thesis using r f unfolding Nil
    by (auto simp: listInsertNode_def list_rep_def heap_defs heap_ok_def frame_def)
next
  case (Cons x ys)
  obtain b z where x: "x = (b, z)" by (cases x)
  have "fst (last ws) \<in> fst ` set ws" by (rule imageI) (simp add: Cons)
  then have "list_tail l \<noteq> Some a"
    using r final_eq [of ws "Some a"] by (auto simp: list_rep_def Cons)
  then show ?thesis using r f unfolding Cons x
    by (auto simp: listInsertNode_def list_rep_def heap_defs heap_ok_def frame_def image_Un)
qed

lemma insertBefore_ok:
  assumes r: "list_rep h l (us @ (a, w) # ws)" and f: "brk h \<notin> fst ` set (us @ (a, w) # ws)"
  shows "\<exists>h' l'. listInsertNode h l a v False = Some (h', l') \<and>
    list_rep h' l' (us @ [(brk h, v), (a, w)] @ ws) \<and> frame h (us @ (a, w) # ws) h'"
proof (cases us rule: rev_cases)
  case Nil
  show ?thesis using r f unfolding Nil
    by (auto simp: listInsertNode_def list_rep_def heap_defs heap_ok_def frame_def)
next
  case (snoc ys x)
  obtain b z where x: "x = (b, z)" by (cases x)
  have "list_head l \<noteq> Some a" using r by (cases ys) (auto simp: list_rep_def snoc x)
  then show ?thesis using r f unfolding snoc x
    by (auto simp: listInsertNode_def list_rep_def heap_defs heap_ok_def frame_def image_Un)
qed

lemma insertNode_ok:
  assumes r: "list_rep h l (us @ (a, w) # ws)"
  shows "\<exists>h' l'. listInsertNode h l a v after = Some (h', l') \<and>
    list_rep h' l' (us @ (if after then [(a, w), (brk h, v)] else [(brk h, v), (a, w)]) @ ws) \<and>
    frame h (us @ (a, w) # ws) h'"
proof -
  have f: "brk h \<notin> fst ` set (us @ (a, w) # ws)"
    using r chain_fresh [of h None "us @ (a, w) # ws" None] by (simp add: list_rep_def)
  show ?thesis
    using insertAfter_ok [OF r f] insertBefore_ok [OF r f] by (cases after) simp_all
qed

lemma rotate_ok:
  assumes r: "list_rep h l xs"
  shows "\<exists>h' l'. listRotate h l = Some (h', l') \<and>
    list_rep h' l' (if xs = [] then [] else last xs # butlast xs) \<and> frame h xs h'"
proof (cases xs rule: rev_cases)
  case Nil
  with r show ?thesis by (auto simp: listRotate_def list_rep_def frame_def)
next
  case (snoc ys x)
  obtain a v where x: "x = (a, v)" by (cases x)
  show ?thesis
  proof (cases ys rule: rev_cases)
    case Nil
    with r snoc x show ?thesis by (auto simp: listRotate_def list_rep_def frame_def)
  next
    case (snoc zs y)
    obtain b w where y: "y = (b, w)" by (cases y)
    have "\<exists>h' l'. listRotate h l = Some (h', l') \<and> list_rep h' l' (x # ys) \<and> frame h xs h'"
      using r unfolding \<open>xs = ys @ [x]\<close> snoc x y
      by (cases zs)
         (auto simp: listRotate_def list_rep_def heap_defs heap_ok_def frame_def Let_def)
    then show ?thesis by (simp add: \<open>xs = ys @ [x]\<close>)
  qed
qed

lemma index_loop_next:
  "chain (cells h) p xs None \<Longrightarrow>
   index_loop node_next h i (first xs None) = Some (if i < length xs then Some (fst (xs ! i)) else None)"
proof (induction i arbitrary: p xs)
  case 0
  then show ?case by (cases xs) auto
next
  case (Suc i)
  then show ?case
    by (cases xs) (auto simp: h_get_def)
qed

lemma index_loop_prev:
  "chain (cells h) None xs n \<Longrightarrow>
   index_loop node_prev h i (final None xs) =
     Some (if i < length xs then Some (fst (xs ! (length xs - 1 - i))) else None)"
proof (induction i arbitrary: n xs)
  case 0
  then show ?case by (cases xs rule: rev_cases) auto
next
  case (Suc i)
  then show ?case
  proof (cases xs rule: rev_cases)
    case (snoc ys y)
    then have "index_loop node_prev h (Suc i) (final None xs) = index_loop node_prev h i (final None ys)"
      using Suc.prems by (cases y) (auto simp: h_get_def)
    also have "\<dots> = Some (if i < length ys then Some (fst (ys ! (length ys - 1 - i))) else None)"
      using Suc.prems snoc by (intro Suc.IH) auto
    finally show ?thesis using snoc by (auto simp: nth_append)
  qed simp
qed

lemma index_ok:
  assumes "list_rep h l xs"
  shows "listIndex h l i = Some
    (let k = (if i < 0 then int (length xs) + i else i)
     in if 0 \<le> k \<and> k < int (length xs) then Some (fst (xs ! nat k)) else None)"
proof -
  have c: "chain (cells h) None xs None" "list_head l = first xs None" "list_tail l = final None xs"
    using assms by (auto simp: list_rep_def)
  have "length xs - 1 - nat (- i - 1) = nat (int (length xs) + i)" if "i < 0" "0 \<le> int (length xs) + i"
    using that by auto
  then show ?thesis
    using index_loop_next [OF c(1), of "nat i"] index_loop_prev [OF c(1), of "nat (- i - 1)"] c(2,3)
    by (auto simp: listIndex_def Let_def)
qed

text \<open>The node a search returns is the first whose value matches.\<close>

fun first_match :: "('v \<Rightarrow> bool) \<Rightarrow> (ref \<times> 'v) list \<Rightarrow> ref option" where
  "first_match P [] = None"
| "first_match P ((a, v) # xs) = (if P v then Some a else first_match P xs)"

lemma search_step:
  "cells h a = Some n \<Longrightarrow>
   search_loop m h \<lparr>iter_next = Some a, iter_direction = AL_START_HEAD\<rparr> key =
   (if (case m of Some f \<Rightarrow> f (node_value n) key | None \<Rightarrow> key = node_value n) then Some (Some a)
    else search_loop m h \<lparr>iter_next = node_next n, iter_direction = AL_START_HEAD\<rparr> key)"
  by (subst search_loop.simps) (simp add: listNext_def h_get_def)

lemma search_loop_ok:
  "chain (cells h) p xs None \<Longrightarrow>
   search_loop m h \<lparr>iter_next = first xs None, iter_direction = AL_START_HEAD\<rparr> key =
   Some (first_match (\<lambda>v. case m of Some f \<Rightarrow> f v key | None \<Rightarrow> key = v) xs)"
proof (induction xs arbitrary: p)
  case (Cons x xs)
  then show ?case by (cases x; cases m) (auto simp: search_step)
qed (simp add: search_loop.simps listNext_def)

lemma searchKey_ok:
  "list_rep h l xs \<Longrightarrow> listSearchKey h l key =
   Some (first_match (\<lambda>v. case list_match l of Some f \<Rightarrow> f v key | None \<Rightarrow> key = v) xs)"
  by (auto simp: listSearchKey_def listGetIterator_def list_rep_def search_loop_ok)

lemma release_loop_ok:
  "chain (cells h) p xs None \<Longrightarrow> distinct (map fst xs) \<Longrightarrow>
   release_loop b h (first xs None) (length xs) =
   Some (h\<lparr>cells := (\<lambda>a. if a \<in> fst ` set xs then None else cells h a),
          freed := freed h @ (if b then map snd xs else [])\<rparr>)"
proof (induction xs arbitrary: h p)
  case (Cons x xs)
  obtain a v where x: "x = (a, v)" by (cases x)
  let ?h1 = "call_free b v h\<lparr>cells := (cells h)(a := None)\<rparr>"
  have "chain (cells ?h1) (Some a) xs None" using Cons.prems by (simp add: x call_free_def)
  from Cons.IH [OF this] Cons.prems show ?case
    by (auto simp: x h_get_def h_free_def call_free_def fun_eq_iff)
qed simp

lemma release_ok:
  assumes "list_rep h l xs"
  shows "\<exists>h'. listRelease h l = Some h' \<and> frame h xs h' \<and> heap_ok h' \<and>
    (\<forall>a \<in> fst ` set xs. cells h' a = None) \<and>
    freed h' = freed h @ (if list_free l then map snd xs else [])"
  using assms release_loop_ok [of h None xs "list_free l"]
  by (auto simp: listRelease_def list_rep_def frame_def heap_ok_def)

lemma chain_cong: "(\<And>a. a \<in> fst ` set xs \<Longrightarrow> c' a = c a) \<Longrightarrow> chain c' p xs n = chain c p xs n"
  by (induction c p xs n rule: chain.induct) auto

lemma chain_frame:
  assumes "heap_ok h" "chain (cells h) p xs n" "frame h ys h'" "fst ` set xs \<inter> fst ` set ys = {}"
  shows "chain (cells h') p xs n"
proof -
  have "cells h' a = cells h a" if "a \<in> fst ` set xs" for a
  proof -
    have "a < brk h" using assms(1) chain_dom [OF assms(2) that] by (meson heap_ok_def not_less)
    then show ?thesis using that assms(3,4) by (auto simp: frame_def)
  qed
  then show ?thesis using assms(2) chain_cong [of xs "cells h'" "cells h"] by simp
qed

definition dup_value :: "'v adlist \<Rightarrow> 'v \<Rightarrow> 'v option" where
  "dup_value l v = (case list_dup l of Some d \<Rightarrow> d v | None \<Rightarrow> Some v)"

lemma dup_step:
  "cells h a = Some n \<Longrightarrow>
   dup_loop h \<lparr>iter_next = Some a, iter_direction = AL_START_HEAD\<rparr> copy =
   (case dup_value copy (node_value n) of
      None \<Rightarrow> listRelease h copy \<bind> (\<lambda>h'. Some (h', None))
    | Some v \<Rightarrow> listAddNodeTail h copy v \<bind> (\<lambda>(h', copy').
        dup_loop h' \<lparr>iter_next = node_next n, iter_direction = AL_START_HEAD\<rparr> copy'))"
  by (subst dup_loop.simps) (simp add: listNext_def h_get_def dup_value_def)

text \<open>The copy has fresh cells with the duplicated values; when a duplication fails the partial copy
  is released.  The cells of the original do not change.\<close>

definition dup_result ::
  "'v adlist \<Rightarrow> 'v list \<Rightarrow> (ref \<times> 'v) list \<Rightarrow> 'v heap \<Rightarrow> 'v adlist option \<Rightarrow> bool" where
  "dup_result l vs ys h' r \<longleftrightarrow>
     (case those (map (dup_value l) vs) of
        None \<Rightarrow> r = None
      | Some ws \<Rightarrow> (\<exists>copy as. r = Some copy \<and> length as = length ws \<and> list_rep h' copy (ys @ zip as ws)))"

lemma dup_loop_ok:
  "chain (cells h) p xs None \<Longrightarrow> list_rep h copy ys \<Longrightarrow> fst ` set xs \<inter> fst ` set ys = {} \<Longrightarrow>
   distinct (map fst xs) \<Longrightarrow>
   \<exists>h' r. dup_loop h \<lparr>iter_next = first xs None, iter_direction = AL_START_HEAD\<rparr> copy = Some (h', r) \<and>
     frame h ys h' \<and> heap_ok h' \<and> dup_result copy (map snd xs) ys h' r"
proof (induction xs arbitrary: h p copy ys)
  case Nil
  then show ?case
    by (auto simp: dup_loop.simps listNext_def frame_def dup_result_def list_rep_def)
next
  case (Cons x xs)
  obtain a w where x: "x = (a, w)" by (cases x)
  note prems = Cons.prems [unfolded x]
  have step: "dup_loop h \<lparr>iter_next = first (x # xs) None, iter_direction = AL_START_HEAD\<rparr> copy =
     (case dup_value copy w of
        None \<Rightarrow> listRelease h copy \<bind> (\<lambda>h'. Some (h', None))
      | Some v \<Rightarrow> listAddNodeTail h copy v \<bind> (\<lambda>(h', copy').
          dup_loop h' \<lparr>iter_next = first xs None, iter_direction = AL_START_HEAD\<rparr> copy'))"
    using prems(1) by (simp add: x dup_step split: option.split)
  show ?case
  proof (cases "dup_value copy w")
    case None
    then show ?thesis
      using release_ok [OF prems(2)] step by (auto simp: x dup_result_def)
  next
    case (Some v)
    obtain h1 copy1 where add: "listAddNodeTail h copy v = Some (h1, copy1)"
      "list_rep h1 copy1 (ys @ [(brk h, v)])" "frame h ys h1" "brk h1 = brk h + 1"
      "list_dup copy1 = list_dup copy"
      using addTail_ok [OF prems(2), of v] by blast
    have ok: "heap_ok h" using prems(2) by (simp add: list_rep_def)
    have "chain (cells h1) p ((a, w) # xs) None" by (rule chain_frame [OF ok prems(1) add(3) prems(3)])
    moreover have "brk h \<notin> fst ` set ((a, w) # xs)" by (rule chain_fresh [OF ok prems(1)])
    ultimately obtain h' r where
      "dup_loop h1 \<lparr>iter_next = first xs None, iter_direction = AL_START_HEAD\<rparr> copy1 = Some (h', r)"
      "frame h1 (ys @ [(brk h, v)]) h'" "heap_ok h'" "dup_result copy1 (map snd xs) (ys @ [(brk h, v)]) h' r"
      using Cons.IH [of h1 "Some a" copy1 "ys @ [(brk h, v)]"] add(2) prems(3,4) by auto
    moreover have "frame h ys h'"
      using \<open>frame h1 _ h'\<close> add(3,4) by (auto simp: frame_def)
    moreover have "dup_result copy (map snd (x # xs)) ys h' r"
    proof -
      have d: "dup_value copy1 = dup_value copy" using add(5) by (simp add: dup_value_def fun_eq_iff)
      show ?thesis
      proof (cases "those (map (dup_value copy) (map snd xs))")
        case None
        then show ?thesis using \<open>dup_result copy1 _ _ h' r\<close> Some d by (simp add: dup_result_def x)
      next
        case (Some ws)
        then obtain c as where "r = Some c" "length as = length ws"
          "list_rep h' c ((ys @ [(brk h, v)]) @ zip as ws)"
          using \<open>dup_result copy1 _ _ h' r\<close> d by (auto simp: dup_result_def)
        then show ?thesis using Some \<open>dup_value copy w = Some v\<close>
          by (auto simp: dup_result_def x intro!: exI [of _ "brk h # as"])
      qed
    qed
    ultimately show ?thesis using step Some add(1) by auto
  qed
qed

lemma dup_ok:
  assumes r: "list_rep h l xs"
  shows "\<exists>h' c. listDup h l = Some (h', c) \<and> list_rep h' l xs \<and> frame h [] h' \<and>
    dup_result l (map snd xs) [] h' c"
proof -
  let ?copy = "listCreate\<lparr>list_dup := list_dup l, list_free := list_free l, list_match := list_match l\<rparr>"
  have c: "chain (cells h) None xs None" "distinct (map fst xs)" "heap_ok h"
    and hd: "list_head l = first xs None"
    using r by (auto simp: list_rep_def)
  have "list_rep h ?copy []" using c(3) by (simp add: list_rep_def listCreate_def)
  from dup_loop_ok [OF c(1) this _ c(2)] obtain h' r' where d:
    "dup_loop h \<lparr>iter_next = first xs None, iter_direction = AL_START_HEAD\<rparr> ?copy = Some (h', r')"
    "frame h [] h'" "heap_ok h'" "dup_result ?copy (map snd xs) [] h' r'"
    by auto
  have "chain (cells h') None xs None" using chain_frame [OF c(3,1) d(2)] by simp
  then have "list_rep h' l xs" using r d(3) by (simp add: list_rep_def)
  moreover have "dup_result l (map snd xs) [] h' r'"
  proof -
    have "dup_value ?copy = dup_value l" by (simp add: dup_value_def fun_eq_iff)
    then show ?thesis using d(4) by (simp add: dup_result_def)
  qed
  ultimately show ?thesis
    using d hd by (auto simp: listDup_def listGetIterator_def)
qed

subsection \<open>The interface for clients\<close>

text \<open>What clients that only push at one end and drop at the other rely on: a state that stands for
  a sequence of values.\<close>

locale push_queue =
  fixes rep :: "'s \<Rightarrow> 'v list \<Rightarrow> bool"
    and push :: "'s \<Rightarrow> 'v \<Rightarrow> 's option"
    and drop_last :: "'s \<Rightarrow> 's option"
    and size_of :: "'s \<Rightarrow> nat"
  assumes push_rep: "rep s vs \<Longrightarrow> \<exists>s'. push s v = Some s' \<and> rep s' (v # vs)"
    and drop_rep: "rep s (vs @ [v]) \<Longrightarrow> \<exists>s'. drop_last s = Some s' \<and> rep s' vs"
    and size_rep: "rep s vs \<Longrightarrow> size_of s = length vs"
begin

lemma drop_butlast:
  assumes "rep s vs" and "vs \<noteq> []"
  shows "\<exists>s'. drop_last s = Some s' \<and> rep s' (butlast vs)"
  using drop_rep [of s "butlast vs" "last vs"] assms by simp

end

text \<open>A loop that drops entries until a bound holds, whatever function satisfies its equation.\<close>

locale trimmed_queue = push_queue +
  fixes trim :: "'a \<Rightarrow> nat \<Rightarrow> 'a option"
  assumes trim_eq: "trim s m = (if m < size_of s then drop_last s \<bind> (\<lambda>s'. trim s' m) else Some s)"
begin

lemma trim_take: "rep s vs \<Longrightarrow> \<exists>s'. trim s m = Some s' \<and> rep s' (take m vs)"
proof (induction "length vs" arbitrary: s vs)
  case 0
  then show ?case using trim_eq [of s m] size_rep [of s vs] by simp
next
  case (Suc n)
  show ?case
  proof (cases "m < length vs")
    case False
    then show ?thesis using trim_eq [of s m] size_rep [OF Suc.prems] Suc.prems by simp
  next
    case True
    then obtain s1 where s1: "drop_last s = Some s1" "rep s1 (butlast vs)"
      using drop_butlast [OF Suc.prems] Suc.hyps(2) by (cases vs) auto
    moreover have "take m (butlast vs) = take m vs" using True by (simp add: butlast_conv_take)
    ultimately show ?thesis
      using Suc.hyps(1) [of "butlast vs" s1] Suc.hyps(2) True trim_eq [of s m] size_rep [OF Suc.prems]
      by simp
  qed
qed

lemma push_trim:
  assumes "rep s vs"
  shows "\<exists>s1 s2. push s v = Some s1 \<and> trim s1 m = Some s2 \<and> rep s2 (take m (v # vs))"
  using push_rep [OF assms, of v] trim_take by blast

end

definition values_rep :: "'v heap \<times> 'v adlist \<Rightarrow> 'v list \<Rightarrow> bool" where
  "values_rep s vs \<longleftrightarrow> (\<exists>xs. list_rep (fst s) (snd s) xs \<and> map snd xs = vs)"

interpretation adq: push_queue values_rep "\<lambda>s v. listAddNodeHead (fst s) (snd s) v"
  "\<lambda>s. listDelNode (fst s) (snd s) (list_tail (snd s))" "\<lambda>s. list_len (snd s)"
proof (unfold_locales, goal_cases)
  case (1 s vs v)
  then obtain xs where "list_rep (fst s) (snd s) xs" "map snd xs = vs" by (auto simp: values_rep_def)
  then show ?case using addHead_ok [of "fst s" "snd s" xs v]
    by (fastforce simp: values_rep_def intro: exI [of _ "(brk (fst s), v) # xs"])
next
  case (2 s vs v)
  then obtain xs where xs: "list_rep (fst s) (snd s) xs" "map snd xs = vs @ [v]"
    by (auto simp: values_rep_def)
  then obtain us a where us: "xs = us @ [(a, v)]" "map snd us = vs"
    by (cases xs rule: rev_cases) auto
  then have "list_tail (snd s) = Some a" using xs(1) by (simp add: list_rep_def)
  then show ?case using delNode_ok [of "fst s" "snd s" us a v "[]"] xs us by (auto simp: values_rep_def)
next
  case (3 s vs)
  then show ?case by (auto simp: values_rep_def list_rep_def)
qed

subsection \<open>Properties\<close>

text \<open>Deleting a node of a well formed list leaves the list of the other nodes, well formed, hands
  the value to the \<^verbatim>\<open>free\<close> method when there is one, frees the cell, and touches no cell outside
  the list.\<close>

theorem listDelNode_correct:
  assumes "list_rep h l (us @ (a, v) # ws)"
  shows "\<exists>h' l'. listDelNode h l (Some a) = Some (h', l') \<and> list_rep h' l' (us @ ws) \<and>
    frame h (us @ (a, v) # ws) h' \<and> freed h' = freed h @ (if list_free l then [v] else []) \<and>
    cells h' a = None"
  using delNode_ok [OF assms] by blast

definition sample_heap :: "nat heap" where
  "sample_heap = \<lparr>cells = [0 \<mapsto> \<lparr>node_prev = None, node_next = Some 1, node_value = 10\<rparr>,
     1 \<mapsto> \<lparr>node_prev = Some 0, node_next = None, node_value = 11\<rparr>], brk = 2, freed = []\<rparr>"

definition sample_list :: "nat adlist" where
  "sample_list = \<lparr>list_head = Some 0, list_tail = Some 1, list_dup = None, list_free = True,
     list_match = None, list_len = 2\<rparr>"

lemma sample_rep: "list_rep sample_heap sample_list [(0, 10), (1, 11)]"
  by (simp add: list_rep_def sample_heap_def sample_list_def heap_ok_def)

theorem listDelNode_correct_witness:
  "\<exists>h' l'. listDelNode sample_heap sample_list (Some 1) = Some (h', l') \<and> list_rep h' l' [(0, 10)] \<and>
    freed h' = [11] \<and> cells h' 1 = None"
  using listDelNode_correct [of sample_heap sample_list "[(0, 10)]" 1 11 "[]"] sample_rep
  by (auto simp: sample_heap_def sample_list_def)

text \<open>Inserting before or after a node of the list puts the value in a new cell at that place of
  the sequence and keeps head, tail, length and both link directions right.\<close>

theorem listInsertNode_correct:
  assumes "list_rep h l (us @ (a, w) # ws)"
  shows "\<exists>h' l'. listInsertNode h l a v after = Some (h', l') \<and>
    list_rep h' l' (us @ (if after then [(a, w), (brk h, v)] else [(brk h, v), (a, w)]) @ ws) \<and>
    frame h (us @ (a, w) # ws) h'"
  by (rule insertNode_ok [OF assms])

theorem listInsertNode_correct_witness:
  "\<exists>h' l'. listInsertNode sample_heap sample_list 1 15 False = Some (h', l') \<and>
    list_rep h' l' [(0, 10), (2, 15), (1, 11)]"
  using listInsertNode_correct [of sample_heap sample_list "[(0, 10)]" 1 11 "[]" 15 False] sample_rep
  by (auto simp: sample_heap_def)

text \<open>\<^verbatim>\<open>listDup\<close> returns on every well formed list: with a copy in new cells that holds the
  duplicated values in order, or without one when a duplication fails; the original is unchanged
  and so is every other cell.\<close>

theorem listDup_correct:
  assumes "list_rep h l xs"
  shows "\<exists>h' c. listDup h l = Some (h', c) \<and> list_rep h' l xs \<and> frame h [] h' \<and>
    (case those (map (dup_value l) (map snd xs)) of
       None \<Rightarrow> c = None
     | Some ws \<Rightarrow> (\<exists>copy as. c = Some copy \<and> length as = length ws \<and> list_rep h' copy (zip as ws)))"
  using dup_ok [OF assms] unfolding dup_result_def append_Nil .

theorem listDup_correct_witness:
  "\<exists>h' c. listDup sample_heap sample_list = Some (h', c) \<and>
    (\<exists>copy as. c = Some copy \<and> length as = 2 \<and> list_rep h' copy (zip as [10, 11]))"
  using listDup_correct [OF sample_rep] by (auto simp: sample_list_def dup_value_def numeral_2_eq_2)

text \<open>\<^verbatim>\<open>listIndex\<close> returns the node at the position, counted from the tail when it is negative,
  and NULL out of range.\<close>

theorem listIndex_correct:
  assumes "list_rep h l xs"
  shows "listIndex h l i = Some
    (let k = (if i < 0 then int (length xs) + i else i)
     in if 0 \<le> k \<and> k < int (length xs) then Some (fst (xs ! nat k)) else None)"
  by (rule index_ok [OF assms])

theorem listIndex_correct_witness: "listIndex sample_heap sample_list (- 2) = Some (Some 0)"
  using listIndex_correct [OF sample_rep, of "- 2"] by simp

end
