(* ===== verification/Dict.thy ===== *)
theory Dict
  imports CLib "HOL-Library.Multiset"
begin

unbundle bit_operations_syntax

section \<open>Hash tables with incremental rehashing (\<^verbatim>\<open>dict.c\<close>)\<close>

text \<open>
  A dictionary has two tables of buckets.  A bucket is the list of the entries of its chain; an
  empty list is the NULL pointer, and a table that was never allocated is the empty list of
  buckets.  \<open>None\<close> is a failed assertion or an access outside a table.  An entry pointer is its
  table, its bucket and its position in the chain.  \<open>destroyed\<close> records the keys and values handed
  to the destructors, in order.  The global \<^verbatim>\<open>dict_can_resize\<close> is an argument of the operations
  that read it, the hash seed an argument of the hash functions, and the pseudo random numbers of
  \<^verbatim>\<open>dictGetRandomKey\<close> a list.  A bucket index is a natural number: below \<open>2 ^ 31\<close> buckets it is the
  value of the C \<^verbatim>\<open>int\<close>.
\<close>

record ('k, 'v) dictEntry =
  e_key :: 'k
  e_val :: 'v

record ('k, 'v) dictType =
  hashFunction :: "'k \<Rightarrow> 32 word"
  keyDup :: "('k \<Rightarrow> 'k) option"
  valDup :: "('v \<Rightarrow> 'v) option"
  keyCompare :: "('k \<Rightarrow> 'k \<Rightarrow> bool) option"
  keyDestructor :: bool
  valDestructor :: bool

record ('k, 'v) dictht =
  ht_table :: "('k, 'v) dictEntry list list"
  ht_size :: nat
  ht_sizemask :: nat
  ht_used :: nat

record ('k, 'v) dict =
  dtype :: "('k, 'v) dictType"
  ht0 :: "('k, 'v) dictht"
  ht1 :: "('k, 'v) dictht"
  rehashidx :: int
  iterators :: int
  destroyed :: "('k + 'v) list"

datatype dict_status = DICT_OK | DICT_ERR

definition DICT_HT_INITIAL_SIZE :: nat where "DICT_HT_INITIAL_SIZE = 4"

definition dict_force_resize_ratio :: nat where "dict_force_resize_ratio = 5"

subsection \<open>Hash functions\<close>

definition dictIntHashFunction :: "32 word \<Rightarrow> 32 word" where
  "dictIntHashFunction key0 =
     (let key1 = key0 + NOT (push_bit 15 key0);
          key2 = key1 XOR drop_bit 10 key1;
          key3 = key2 + push_bit 3 key2;
          key4 = key3 XOR drop_bit 6 key3;
          key5 = key4 + NOT (push_bit 11 key4);
          key6 = key5 XOR drop_bit 16 key5
      in key6)"

definition dictIdentityHashFunction :: "32 word \<Rightarrow> 32 word" where
  "dictIdentityHashFunction key = key"

definition uchar :: "char \<Rightarrow> 32 word" where
  "uchar c = of_nat (of_char c)"

definition murmur_m :: "32 word" where "murmur_m = 0x5bd1e995"

text \<open>The loop over four bytes at a time (a little-endian load) and the fall-through switch over the
  last ones.\<close>

fun murmur_loop :: "32 word \<Rightarrow> string \<Rightarrow> 32 word" where
  "murmur_loop h (a # b # c # d # data) =
     (let k0 = uchar a OR push_bit 8 (uchar b) OR push_bit 16 (uchar c) OR push_bit 24 (uchar d);
          k1 = k0 * murmur_m;
          k2 = k1 XOR drop_bit 24 k1;
          k3 = k2 * murmur_m
      in murmur_loop (h * murmur_m XOR k3) data)"
| "murmur_loop h [a, b, c] =
     (h XOR push_bit 16 (uchar c) XOR push_bit 8 (uchar b) XOR uchar a) * murmur_m"
| "murmur_loop h [a, b] = (h XOR push_bit 8 (uchar b) XOR uchar a) * murmur_m"
| "murmur_loop h [a] = (h XOR uchar a) * murmur_m"
| "murmur_loop h [] = h"

definition dictGenHashFunction :: "32 word \<Rightarrow> string \<Rightarrow> 32 word" where
  "dictGenHashFunction seed key =
     (let h0 = murmur_loop (seed XOR of_nat (length key)) key;
          h1 = h0 XOR drop_bit 13 h0;
          h2 = h1 * murmur_m
      in h2 XOR drop_bit 15 h2)"

definition dictGenCaseHashFunction :: "32 word \<Rightarrow> string \<Rightarrow> 32 word" where
  "dictGenCaseHashFunction seed buf =
     foldl (\<lambda>hash c. (push_bit 5 hash + hash) + uchar (tolower c)) seed buf"

subsection \<open>Creation, expansion and rehashing\<close>

definition dictHashKey :: "('k, 'v) dict \<Rightarrow> 'k \<Rightarrow> nat" where
  "dictHashKey d k = unat (hashFunction (dtype d) k)"

definition dictCompareKeys :: "('k, 'v) dict \<Rightarrow> 'k \<Rightarrow> 'k \<Rightarrow> bool" where
  "dictCompareKeys d k1 k2 =
     (case keyCompare (dtype d) of Some f \<Rightarrow> f k1 k2 | None \<Rightarrow> k1 = k2)"

definition dictIsRehashing :: "('k, 'v) dict \<Rightarrow> bool" where
  "dictIsRehashing d \<longleftrightarrow> rehashidx d \<noteq> - 1"

definition dictSize :: "('k, 'v) dict \<Rightarrow> nat" where
  "dictSize d = ht_used (ht0 d) + ht_used (ht1 d)"

definition dictFreeKey :: "('k, 'v) dictEntry \<Rightarrow> ('k, 'v) dict \<Rightarrow> ('k, 'v) dict" where
  "dictFreeKey e d =
     (if keyDestructor (dtype d) then d\<lparr>destroyed := destroyed d @ [Inl (e_key e)]\<rparr> else d)"

definition dictFreeVal :: "('k, 'v) dictEntry \<Rightarrow> ('k, 'v) dict \<Rightarrow> ('k, 'v) dict" where
  "dictFreeVal e d =
     (if valDestructor (dtype d) then d\<lparr>destroyed := destroyed d @ [Inr (e_val e)]\<rparr> else d)"

definition u_dictReset :: "('k, 'v) dictht" where
  "u_dictReset = \<lparr>ht_table = [], ht_size = 0, ht_sizemask = 0, ht_used = 0\<rparr>"

definition dictCreate :: "('k, 'v) dictType \<Rightarrow> ('k, 'v) dict" where
  "dictCreate type = \<lparr>dtype = type, ht0 = u_dictReset, ht1 = u_dictReset, rehashidx = - 1,
     iterators = 0, destroyed = []\<rparr>"

function next_power_loop :: "nat \<Rightarrow> nat \<Rightarrow> nat" where
  "next_power_loop i sz = (if i \<ge> sz \<or> i = 0 then i else next_power_loop (i * 2) sz)"
  by pat_completeness auto
termination
  by (relation "measure (\<lambda>(i, sz). sz - i)") auto

declare next_power_loop.simps [simp del]

definition u_dictNextPower :: "nat \<Rightarrow> nat" where
  "u_dictNextPower sz =
     (if sz \<ge> nat LLONG_MAX then nat LLONG_MAX else next_power_loop DICT_HT_INITIAL_SIZE sz)"

definition dictExpand :: "('k, 'v) dict \<Rightarrow> nat \<Rightarrow> ('k, 'v) dict \<times> dict_status" where
  "dictExpand d sz =
     (let realsize = u_dictNextPower sz in
      if dictIsRehashing d \<or> ht_used (ht0 d) > sz then (d, DICT_ERR)
      else
        let n = \<lparr>ht_table = replicate realsize [], ht_size = realsize, ht_sizemask = realsize - 1,
                 ht_used = 0\<rparr>
        in if ht_table (ht0 d) = [] then (d\<lparr>ht0 := n\<rparr>, DICT_OK)
           else (d\<lparr>ht1 := n, rehashidx := 0\<rparr>, DICT_OK))"

definition dictResize :: "bool \<Rightarrow> ('k, 'v) dict \<Rightarrow> ('k, 'v) dict \<times> dict_status" where
  "dictResize can_resize d =
     (if \<not> can_resize \<or> dictIsRehashing d then (d, DICT_ERR)
      else dictExpand d (nat (max (to_signed 32 (int (ht_used (ht0 d)))) (int DICT_HT_INITIAL_SIZE))))"

text \<open>The scan for the next bucket in use, and the move of one entry to the second table.\<close>

function skip_empty :: "('k, 'v) dictEntry list list \<Rightarrow> nat \<Rightarrow> nat option" where
  "skip_empty t i =
     (if i < length t then if t ! i = [] then skip_empty t (i + 1) else Some i else None)"
  by pat_completeness auto
termination
  by (relation "measure (\<lambda>(t, i). length t - i)") auto

declare skip_empty.simps [simp del]

definition move_entry ::
  "('k, 'v) dict \<Rightarrow> ('k, 'v) dictEntry \<Rightarrow> ('k, 'v) dict option" where
  "move_entry d de =
     (let h = dictHashKey d (e_key de) AND ht_sizemask (ht1 d) in
      if h < length (ht_table (ht1 d)) then
        Some (d\<lparr>ht1 := (ht1 d)\<lparr>ht_table := (ht_table (ht1 d))[h := de # ht_table (ht1 d) ! h],
                              ht_used := ht_used (ht1 d) + 1\<rparr>,
                ht0 := (ht0 d)\<lparr>ht_used := ht_used (ht0 d) - 1\<rparr>\<rparr>)
      else None)"

text \<open>One pass of the loop of \<^verbatim>\<open>dictRehash\<close>, and the loop.  The flag is the returned 0 or 1.\<close>

definition rehash_bucket :: "('k, 'v) dict \<Rightarrow> ('k, 'v) dict option" where
  "rehash_bucket d =
     (if ht_size (ht0 d) > nat (rehashidx d) then do {
        i \<leftarrow> skip_empty (ht_table (ht0 d)) (nat (rehashidx d));
        d1 \<leftarrow> run_option move_entry d (ht_table (ht0 d) ! i);
        Some (d1\<lparr>ht0 := (ht0 d1)\<lparr>ht_table := (ht_table (ht0 d1))[i := []]\<rparr>,
                 rehashidx := int i + 1\<rparr>)
      } else None)"

fun rehash_loop :: "('k, 'v) dict \<Rightarrow> nat \<Rightarrow> (('k, 'v) dict \<times> bool) option" where
  "rehash_loop d 0 = Some (d, True)"
| "rehash_loop d (Suc n) =
     (if ht_used (ht0 d) = 0 then
        Some (d\<lparr>ht0 := ht1 d, ht1 := u_dictReset, rehashidx := - 1\<rparr>, False)
      else rehash_bucket d \<bind> (\<lambda>d1. rehash_loop d1 n))"

definition dictRehash :: "('k, 'v) dict \<Rightarrow> nat \<Rightarrow> (('k, 'v) dict \<times> bool) option" where
  "dictRehash d n = (if \<not> dictIsRehashing d then Some (d, False) else rehash_loop d n)"

definition u_dictRehashStep :: "('k, 'v) dict \<Rightarrow> ('k, 'v) dict option" where
  "u_dictRehashStep d =
     (if iterators d = 0 then dictRehash d 1 \<bind> (\<lambda>(d1, _). Some d1) else Some d)"

definition rehash_step_if :: "('k, 'v) dict \<Rightarrow> ('k, 'v) dict option" where
  "rehash_step_if d = (if dictIsRehashing d then u_dictRehashStep d else Some d)"

text \<open>The clock of \<^verbatim>\<open>dictRehashMilliseconds\<close> is the list of the later readings: the loop ends with
  the rehashing or when a reading is more than \<open>ms\<close> after the start.\<close>

fun dictRehashMilliseconds ::
  "('k, 'v) dict \<Rightarrow> int \<Rightarrow> int \<Rightarrow> int list \<Rightarrow> nat \<Rightarrow> (('k, 'v) dict \<times> nat) option" where
  "dictRehashMilliseconds d start ms clock rehashes = do {
     (d1, more) \<leftarrow> dictRehash d 100;
     if \<not> more then Some (d1, rehashes)
     else case clock of
            [] \<Rightarrow> None
          | now # clock' \<Rightarrow>
              if now - start > ms then Some (d1, rehashes + 100)
              else dictRehashMilliseconds d1 start ms clock' (rehashes + 100)
   }"

definition u_dictExpandIfNeeded :: "bool \<Rightarrow> ('k, 'v) dict \<Rightarrow> ('k, 'v) dict \<times> dict_status" where
  "u_dictExpandIfNeeded can_resize d =
     (if dictIsRehashing d then (d, DICT_OK)
      else if ht_size (ht0 d) = 0 then dictExpand d DICT_HT_INITIAL_SIZE
      else if ht_used (ht0 d) \<ge> ht_size (ht0 d) \<and>
              (can_resize \<or> ht_used (ht0 d) div ht_size (ht0 d) > dict_force_resize_ratio)
      then dictExpand d ((if ht_size (ht0 d) > ht_used (ht0 d) then ht_size (ht0 d)
                          else ht_used (ht0 d)) * 2)
      else (d, DICT_OK))"

subsection \<open>Search\<close>

text \<open>An entry pointer: whether it is in the second table, the bucket and the place in the chain.\<close>

type_synonym entry_ref = "bool \<times> nat \<times> nat"

definition ht_of :: "('k, 'v) dict \<Rightarrow> bool \<Rightarrow> ('k, 'v) dictht" where
  "ht_of d t = (if t then ht1 d else ht0 d)"

definition set_ht :: "('k, 'v) dict \<Rightarrow> bool \<Rightarrow> ('k, 'v) dictht \<Rightarrow> ('k, 'v) dict" where
  "set_ht d t h = (if t then d\<lparr>ht1 := h\<rparr> else d\<lparr>ht0 := h\<rparr>)"

definition bucket_at :: "('k, 'v) dictht \<Rightarrow> nat \<Rightarrow> ('k, 'v) dictEntry list option" where
  "bucket_at h i = (if i < length (ht_table h) then Some (ht_table h ! i) else None)"

fun chain_find :: "('k \<Rightarrow> bool) \<Rightarrow> ('k, 'v) dictEntry list \<Rightarrow> nat \<Rightarrow> nat option" where
  "chain_find eq [] n = None"
| "chain_find eq (he # es) n = (if eq (e_key he) then Some n else chain_find eq es (n + 1))"

definition find_in :: "('k, 'v) dict \<Rightarrow> bool \<Rightarrow> 'k \<Rightarrow> entry_ref option option" where
  "find_in d t k = do {
     let idx = dictHashKey d k AND ht_sizemask (ht_of d t);
     b \<leftarrow> bucket_at (ht_of d t) idx;
     Some (map_option (\<lambda>p. (t, idx, p)) (chain_find (dictCompareKeys d k) b 0))
   }"

definition search_tables :: "('k, 'v) dict \<Rightarrow> 'k \<Rightarrow> entry_ref option option" where
  "search_tables d k = do {
     r \<leftarrow> find_in d False k;
     if r \<noteq> None then Some r
     else if \<not> dictIsRehashing d then Some None
     else find_in d True k
   }"

definition dictFind :: "('k, 'v) dict \<Rightarrow> 'k \<Rightarrow> (('k, 'v) dict \<times> entry_ref option) option" where
  "dictFind d k =
     (if ht_size (ht0 d) = 0 then Some (d, None)
      else do {
        d1 \<leftarrow> rehash_step_if d;
        r \<leftarrow> search_tables d1 k;
        Some (d1, r)
      })"

definition get_entry :: "('k, 'v) dict \<Rightarrow> entry_ref \<Rightarrow> ('k, 'v) dictEntry option" where
  "get_entry d r =
     (case r of (t, i, p) \<Rightarrow> do {
        b \<leftarrow> bucket_at (ht_of d t) i;
        if p < length b then Some (b ! p) else None
      })"

definition dictFetchValue :: "('k, 'v) dict \<Rightarrow> 'k \<Rightarrow> (('k, 'v) dict \<times> 'v option) option" where
  "dictFetchValue d k = do {
     (d1, r) \<leftarrow> dictFind d k;
     case r of None \<Rightarrow> Some (d1, None)
     | Some ref \<Rightarrow> do { he \<leftarrow> get_entry d1 ref; Some (d1, Some (e_val he)) }
   }"

text \<open>\<open>None\<close> in the result of \<^verbatim>\<open>_dictKeyIndex\<close> is -1.  The index is one of the table the insertion
  uses: the second one during a rehashing.\<close>

definition u_dictKeyIndex ::
  "bool \<Rightarrow> ('k, 'v) dict \<Rightarrow> 'k \<Rightarrow> (('k, 'v) dict \<times> nat option) option" where
  "u_dictKeyIndex can_resize d k =
     (let (d1, st) = u_dictExpandIfNeeded can_resize d in
      if st = DICT_ERR then Some (d1, None)
      else do {
        r \<leftarrow> search_tables d1 k;
        Some (d1, if r \<noteq> None then None
                  else Some (dictHashKey d1 k AND ht_sizemask (ht_of d1 (dictIsRehashing d1))))
      })"

subsection \<open>Insertion, replacement, deletion\<close>

definition dup_with :: "('a \<Rightarrow> 'a) option \<Rightarrow> 'a \<Rightarrow> 'a" where
  "dup_with f x = (case f of Some g \<Rightarrow> g x | None \<Rightarrow> x)"

text \<open>The value of a new entry is unset until the caller of \<^verbatim>\<open>dictAddRaw\<close> stores one; \<open>junk\<close> is what
  the fresh memory holds.\<close>

definition dictAddRaw ::
  "bool \<Rightarrow> ('k, 'v) dict \<Rightarrow> 'k \<Rightarrow> 'v \<Rightarrow> (('k, 'v) dict \<times> entry_ref option) option" where
  "dictAddRaw can_resize d k junk = do {
     d1 \<leftarrow> rehash_step_if d;
     (d2, index) \<leftarrow> u_dictKeyIndex can_resize d1 k;
     case index of
       None \<Rightarrow> Some (d2, None)
     | Some i \<Rightarrow> do {
         let t = dictIsRehashing d2;
         let h = ht_of d2 t;
         b \<leftarrow> bucket_at h i;
         let entry = \<lparr>e_key = dup_with (keyDup (dtype d2)) k, e_val = junk\<rparr>;
         Some (set_ht d2 t (h\<lparr>ht_table := (ht_table h)[i := entry # b], ht_used := ht_used h + 1\<rparr>),
               Some (t, i, 0))
       }
   }"

definition dictSetVal :: "('k, 'v) dict \<Rightarrow> entry_ref \<Rightarrow> 'v \<Rightarrow> ('k, 'v) dict option" where
  "dictSetVal d r v =
     (case r of (t, i, p) \<Rightarrow> do {
        b \<leftarrow> bucket_at (ht_of d t) i;
        if p < length b then
          Some (set_ht d t ((ht_of d t)\<lparr>ht_table :=
            (ht_table (ht_of d t))[i := b[p := (b ! p)\<lparr>e_val := dup_with (valDup (dtype d)) v\<rparr>]]\<rparr>))
        else None
      })"

definition dictAdd ::
  "bool \<Rightarrow> ('k, 'v) dict \<Rightarrow> 'k \<Rightarrow> 'v \<Rightarrow> (('k, 'v) dict \<times> dict_status) option" where
  "dictAdd can_resize d k v = do {
     (d1, r) \<leftarrow> dictAddRaw can_resize d k v;
     case r of None \<Rightarrow> Some (d1, DICT_ERR)
     | Some entry \<Rightarrow> do { d2 \<leftarrow> dictSetVal d1 entry v; Some (d2, DICT_OK) }
   }"

definition dictReplace ::
  "bool \<Rightarrow> ('k, 'v) dict \<Rightarrow> 'k \<Rightarrow> 'v \<Rightarrow> (('k, 'v) dict \<times> bool) option" where
  "dictReplace can_resize d k v = do {
     (d1, st) \<leftarrow> dictAdd can_resize d k v;
     if st = DICT_OK then Some (d1, True)
     else do {
       (d2, r) \<leftarrow> dictFind d1 k;
       entry \<leftarrow> r;
       auxentry \<leftarrow> get_entry d2 entry;
       d3 \<leftarrow> dictSetVal d2 entry v;
       Some (dictFreeVal auxentry d3, False)
     }
   }"

definition dictReplaceRaw ::
  "bool \<Rightarrow> ('k, 'v) dict \<Rightarrow> 'k \<Rightarrow> 'v \<Rightarrow> (('k, 'v) dict \<times> entry_ref option) option" where
  "dictReplaceRaw can_resize d k junk = do {
     (d1, r) \<leftarrow> dictFind d k;
     case r of Some entry \<Rightarrow> Some (d1, Some entry)
     | None \<Rightarrow> dictAddRaw can_resize d1 k junk
   }"

definition unlink_entry :: "('k, 'v) dict \<Rightarrow> entry_ref \<Rightarrow> bool \<Rightarrow> ('k, 'v) dict option" where
  "unlink_entry d r nofree =
     (case r of (t, i, p) \<Rightarrow> do {
        b \<leftarrow> bucket_at (ht_of d t) i;
        he \<leftarrow> get_entry d r;
        let d1 = set_ht d t ((ht_of d t)\<lparr>ht_table := (ht_table (ht_of d t))[i := take p b @ drop (Suc p) b],
                                        ht_used := ht_used (ht_of d t) - 1\<rparr>);
        Some (if \<not> nofree then dictFreeVal he (dictFreeKey he d1) else d1)
      })"

definition dictGenericDelete ::
  "('k, 'v) dict \<Rightarrow> 'k \<Rightarrow> bool \<Rightarrow> (('k, 'v) dict \<times> dict_status) option" where
  "dictGenericDelete d k nofree =
     (if ht_size (ht0 d) = 0 then Some (d, DICT_ERR)
      else do {
        d1 \<leftarrow> rehash_step_if d;
        r \<leftarrow> search_tables d1 k;
        case r of None \<Rightarrow> Some (d1, DICT_ERR)
        | Some he \<Rightarrow> do { d2 \<leftarrow> unlink_entry d1 he nofree; Some (d2, DICT_OK) }
      })"

definition dictDelete :: "('k, 'v) dict \<Rightarrow> 'k \<Rightarrow> (('k, 'v) dict \<times> dict_status) option" where
  "dictDelete d k = dictGenericDelete d k False"

definition dictDeleteNoFree :: "('k, 'v) dict \<Rightarrow> 'k \<Rightarrow> (('k, 'v) dict \<times> dict_status) option" where
  "dictDeleteNoFree d k = dictGenericDelete d k True"

text \<open>The first argument of the loop counts the buckets left.\<close>

fun clear_loop ::
  "nat \<Rightarrow> ('k, 'v) dict \<Rightarrow> ('k, 'v) dictEntry list list \<Rightarrow> nat \<Rightarrow> ('k, 'v) dict option" where
  "clear_loop 0 d bs used = Some d"
| "clear_loop (Suc n) d bs used =
     (if used = 0 then Some d
      else case bs of
        [] \<Rightarrow> None
      | b # bs' \<Rightarrow> clear_loop n (fold (\<lambda>he d. dictFreeVal he (dictFreeKey he d)) b d) bs' (used - length b))"

definition u_dictClear :: "('k, 'v) dict \<Rightarrow> bool \<Rightarrow> ('k, 'v) dict option" where
  "u_dictClear d t = do {
     let h = ht_of d t;
     d1 \<leftarrow> clear_loop (ht_size h) d (ht_table h) (ht_used h);
     Some (set_ht d1 t u_dictReset)
   }"

definition dictRelease :: "('k, 'v) dict \<Rightarrow> ('k + 'v) list option" where
  "dictRelease d = do {
     d1 \<leftarrow> u_dictClear d False;
     d2 \<leftarrow> u_dictClear d1 True;
     Some (destroyed d2)
   }"

definition dictEmpty :: "('k, 'v) dict \<Rightarrow> ('k, 'v) dict option" where
  "dictEmpty d = do {
     d1 \<leftarrow> u_dictClear d False;
     d2 \<leftarrow> u_dictClear d1 True;
     Some (d2\<lparr>rehashidx := - 1, iterators := 0\<rparr>)
   }"

subsection \<open>Iteration and random choice\<close>

text \<open>An iterator points at an entry by the number of entries of the chain from it on, which stays
  right when the entry in front of it is deleted or a new one is put at the head; 0 is NULL.\<close>

record dictIterator =
  it_table :: bool
  it_index :: int
  it_safe :: bool
  it_entry :: nat
  it_nextEntry :: nat

definition dictGetIterator :: dictIterator where
  "dictGetIterator = \<lparr>it_table = False, it_index = - 1, it_safe = False, it_entry = 0, it_nextEntry = 0\<rparr>"

definition dictGetSafeIterator :: dictIterator where
  "dictGetSafeIterator = dictGetIterator\<lparr>it_safe := True\<rparr>"

text \<open>The end of a pass of the loop of \<^verbatim>\<open>dictNext\<close>, when \<open>iter->entry\<close> is not NULL.\<close>

definition iter_return ::
  "('k, 'v) dict \<Rightarrow> dictIterator \<Rightarrow> (('k, 'v) dict \<times> dictIterator \<times> entry_ref option) option" where
  "iter_return d it = do {
     b \<leftarrow> bucket_at (ht_of d (it_table it)) (nat (it_index it));
     if it_entry it \<le> length b
     then Some (d, it\<lparr>it_nextEntry := it_entry it - 1\<rparr>,
                Some (it_table it, nat (it_index it), length b - it_entry it))
     else None
   }"

definition iter_remaining :: "('k, 'v) dict \<Rightarrow> dictIterator \<Rightarrow> nat" where
  "iter_remaining d it =
     (if it_table it then nat (int (ht_size (ht1 d)) - it_index it)
      else nat (int (ht_size (ht0 d)) - it_index it) + ht_size (ht1 d) + 1)"

text \<open>The step to the next bucket: the first one counts a safe iterator, and a rehashing dictionary
  goes on with the second table.\<close>

definition iter_begin :: "('k, 'v) dict \<Rightarrow> dictIterator \<Rightarrow> ('k, 'v) dict" where
  "iter_begin d it =
     (if it_safe it \<and> it_index it = - 1 \<and> \<not> it_table it
      then d\<lparr>iterators := iterators d + 1\<rparr> else d)"

definition iter_advance :: "('k, 'v) dict \<Rightarrow> dictIterator \<Rightarrow> dictIterator" where
  "iter_advance d it =
     (if it_index it + 1 \<ge> int (ht_size (ht_of d (it_table it)))
      then it\<lparr>it_table := True, it_index := 0\<rparr> else it\<lparr>it_index := it_index it + 1\<rparr>)"

function dictNext ::
  "('k, 'v) dict \<Rightarrow> dictIterator \<Rightarrow> (('k, 'v) dict \<times> dictIterator \<times> entry_ref option) option" where
  "dictNext d it =
     (if it_entry it = 0 then
        if it_index it + 1 \<ge> int (ht_size (ht_of d (it_table it))) \<and>
           \<not> (dictIsRehashing d \<and> \<not> it_table it)
        then Some (iter_begin d it, it\<lparr>it_index := it_index it + 1\<rparr>, None)
        else
          let jt = iter_advance d it in
          case bucket_at (ht_of d (it_table jt)) (nat (it_index jt)) of
            None \<Rightarrow> None
          | Some b \<Rightarrow> if b \<noteq> [] then iter_return (iter_begin d it) (jt\<lparr>it_entry := length b\<rparr>)
                      else dictNext (iter_begin d it) jt
      else if it_nextEntry it \<noteq> 0 then iter_return d (it\<lparr>it_entry := it_nextEntry it\<rparr>)
      else dictNext d (it\<lparr>it_entry := 0\<rparr>))"
  by pat_completeness auto
termination
proof (relation "measures [\<lambda>(d, it). iter_remaining d it, \<lambda>(d, it). it_entry it]", goal_cases)
  case (2 d it jt b)
  then show ?case
    by (auto simp: iter_remaining_def ht_of_def iter_begin_def iter_advance_def split: if_splits)
qed (auto simp: iter_remaining_def)

declare dictNext.simps [simp del]

definition dictReleaseIterator :: "('k, 'v) dict \<Rightarrow> dictIterator \<Rightarrow> ('k, 'v) dict" where
  "dictReleaseIterator d it =
     (if it_safe it \<and> \<not> (it_index it = - 1 \<and> \<not> it_table it)
      then d\<lparr>iterators := iterators d - 1\<rparr> else d)"

text \<open>The loops that draw until a bucket in use is found; \<open>None\<close> when the list of numbers ends
  first.\<close>

fun random_bucket ::
  "('k, 'v) dict \<Rightarrow> nat list \<Rightarrow> ((bool \<times> nat) \<times> nat list) option" where
  "random_bucket d [] = None"
| "random_bucket d (r # rs) =
     (let (t, i) =
        (if dictIsRehashing d then
           let h = r mod (ht_size (ht0 d) + ht_size (ht1 d))
           in if h \<ge> ht_size (ht0 d) then (True, h - ht_size (ht0 d)) else (False, h)
         else (False, r AND ht_sizemask (ht0 d)))
      in case bucket_at (ht_of d t) i of
           None \<Rightarrow> None
         | Some b \<Rightarrow> if b = [] then random_bucket d rs else Some ((t, i), rs))"

definition dictGetRandomKey ::
  "('k, 'v) dict \<Rightarrow> nat list \<Rightarrow> (('k, 'v) dict \<times> entry_ref option) option" where
  "dictGetRandomKey d rs =
     (if dictSize d = 0 then Some (d, None)
      else do {
        d1 \<leftarrow> rehash_step_if d;
        ((t, i), rs1) \<leftarrow> random_bucket d1 rs;
        b \<leftarrow> bucket_at (ht_of d1 t) i;
        case rs1 of [] \<Rightarrow> None
        | r # _ \<Rightarrow> Some (d1, Some (t, i, r mod length b))
      })"

subsection \<open>The invariant\<close>

definition keys_eq :: "('k, 'v) dictType \<Rightarrow> 'k \<Rightarrow> 'k \<Rightarrow> bool" where
  "keys_eq ty a b = (case keyCompare ty of Some f \<Rightarrow> f a b | None \<Rightarrow> a = b)"

text \<open>What the dictionary relies on: keys compare by an equivalence that the hash function and the
  key duplication respect.\<close>

definition type_ok :: "('k, 'v) dictType \<Rightarrow> bool" where
  "type_ok ty \<longleftrightarrow>
     (\<forall>a. keys_eq ty a a) \<and> (\<forall>a b. keys_eq ty a b \<longrightarrow> keys_eq ty b a) \<and>
     (\<forall>a b c. keys_eq ty a b \<longrightarrow> keys_eq ty b c \<longrightarrow> keys_eq ty a c) \<and>
     (\<forall>a b. keys_eq ty a b \<longrightarrow> hashFunction ty a = hashFunction ty b) \<and>
     (\<forall>k. keys_eq ty k (dup_with (keyDup ty) k))"

definition bucket_of :: "('k, 'v) dictType \<Rightarrow> ('k, 'v) dictht \<Rightarrow> 'k \<Rightarrow> nat" where
  "bucket_of ty h k = unat (hashFunction ty k) AND ht_sizemask h"

definition ht_ok :: "('k, 'v) dictType \<Rightarrow> ('k, 'v) dictht \<Rightarrow> bool" where
  "ht_ok ty h \<longleftrightarrow>
     length (ht_table h) = ht_size h \<and> ht_sizemask h = ht_size h - 1 \<and>
     ht_used h = length (concat (ht_table h)) \<and>
     (\<forall>i < ht_size h. \<forall>e \<in> set (ht_table h ! i). bucket_of ty h (e_key e) = i)"

definition entries :: "('k, 'v) dict \<Rightarrow> ('k, 'v) dictEntry list" where
  "entries d = concat (ht_table (ht0 d)) @ concat (ht_table (ht1 d))"

definition keys_distinct :: "('k, 'v) dictType \<Rightarrow> ('k, 'v) dictEntry multiset \<Rightarrow> bool" where
  "keys_distinct ty M \<longleftrightarrow> (\<forall>k. size (filter_mset (\<lambda>e. keys_eq ty k (e_key e)) M) \<le> 1)"

definition dict_ok :: "('k, 'v) dict \<Rightarrow> bool" where
  "dict_ok d \<longleftrightarrow>
     type_ok (dtype d) \<and> ht_ok (dtype d) (ht0 d) \<and> ht_ok (dtype d) (ht1 d) \<and>
     keys_distinct (dtype d) (mset (entries d)) \<and>
     (if rehashidx d = - 1 then ht1 d = u_dictReset
      else 0 \<le> rehashidx d \<and> 0 < ht_size (ht0 d) \<and> 0 < ht_size (ht1 d) \<and>
           (\<forall>i < nat (rehashidx d). i < ht_size (ht0 d) \<longrightarrow> ht_table (ht0 d) ! i = []))"

text \<open>The map a dictionary stands for.\<close>

definition lookup :: "('k, 'v) dict \<Rightarrow> 'k \<Rightarrow> 'v option" where
  "lookup d k = map_option e_val (find (\<lambda>e. keys_eq (dtype d) k (e_key e)) (entries d))"

subsection \<open>Keys and buckets\<close>

lemma dictCompareKeys_eq: "dictCompareKeys d = keys_eq (dtype d)"
  by (simp add: fun_eq_iff dictCompareKeys_def keys_eq_def)

lemma hash_mask: "dictHashKey d k AND ht_sizemask h = bucket_of (dtype d) h k"
  by (simp add: dictHashKey_def bucket_of_def)

lemma keys_eq_refl: "type_ok ty \<Longrightarrow> keys_eq ty a a"
  unfolding type_ok_def by blast

lemma keys_eq_sym: "type_ok ty \<Longrightarrow> keys_eq ty a b \<Longrightarrow> keys_eq ty b a"
  unfolding type_ok_def by blast

lemma keys_eq_trans: "type_ok ty \<Longrightarrow> keys_eq ty a b \<Longrightarrow> keys_eq ty b c \<Longrightarrow> keys_eq ty a c"
  unfolding type_ok_def by blast

lemma keys_eq_cong:
  assumes "type_ok ty" and "keys_eq ty a b"
  shows "keys_eq ty k a = keys_eq ty k b" and "keys_eq ty a k = keys_eq ty b k"
  using keys_eq_trans [OF assms(1)] keys_eq_sym [OF assms] assms(2) by meson+

lemma bucket_of_eq: "type_ok ty \<Longrightarrow> keys_eq ty a b \<Longrightarrow> bucket_of ty h a = bucket_of ty h b"
  unfolding type_ok_def bucket_of_def by metis

lemma keys_eq_dup: "type_ok ty \<Longrightarrow> keys_eq ty k (dup_with (keyDup ty) k)"
  unfolding type_ok_def by blast

lemma bucket_of_less: "ht_ok ty h \<Longrightarrow> 0 < ht_size h \<Longrightarrow> bucket_of ty h k < ht_size h"
proof -
  assume "ht_ok ty h" "0 < ht_size h"
  moreover have "unat (hashFunction ty k) AND ht_sizemask h \<le> ht_sizemask h"
    using AND_upper2' [of "int (ht_sizemask h)" "int (ht_sizemask h)" "int (unat (hashFunction ty k))"]
    by (metis of_nat_and_eq of_nat_0_le_iff of_nat_le_iff order_refl)
  ultimately show ?thesis by (simp add: ht_ok_def bucket_of_def)
qed

lemma mset_concat_update:
  "i < length xs \<Longrightarrow> mset (concat (xs[i := b])) + mset (xs ! i) = mset (concat xs) + mset b"
  by (induction xs arbitrary: i) (auto split: nat.split)

lemma length_concat_update:
  assumes "i < length xs"
  shows "length (concat (xs[i := b])) + length (xs ! i) = length (concat xs) + length b"
  using arg_cong [OF mset_concat_update [OF assms, of b], of size] by simp

text \<open>Replacing the content of one bucket.\<close>

lemma ht_ok_update:
  assumes "ht_ok ty h" and "i < ht_size h" and "\<And>e. e \<in> set b \<Longrightarrow> bucket_of ty h (e_key e) = i"
    and "u + length (ht_table h ! i) = ht_used h + length b"
  shows "ht_ok ty (h\<lparr>ht_table := (ht_table h)[i := b], ht_used := u\<rparr>)"
proof -
  have l: "i < length (ht_table h)" using assms(1,2) by (simp add: ht_ok_def)
  have "u = length (concat ((ht_table h)[i := b]))"
    using length_concat_update [OF l, of b] assms(1,4) by (simp add: ht_ok_def)
  then show ?thesis
    using assms(1-3) l by (auto simp: ht_ok_def bucket_of_def nth_list_update)
qed

lemma find_filter: "find P xs = (case filter P xs of [] \<Rightarrow> None | x # _ \<Rightarrow> Some x)"
  by (induction xs) auto

text \<open>With at most one entry per key a search does not depend on the order of the entries.\<close>

lemma find_mset:
  assumes "keys_distinct ty (mset xs)" and "mset xs = mset ys"
  shows "find (\<lambda>e. keys_eq ty k (e_key e)) xs = find (\<lambda>e. keys_eq ty k (e_key e)) ys"
proof -
  let ?f = "filter (\<lambda>e. keys_eq ty k (e_key e))"
  have m: "mset (?f xs) = mset (?f ys)" using assms(2) by simp
  have "length (?f xs) \<le> 1" using assms(1) unfolding keys_distinct_def by (metis mset_filter size_mset)
  with m have "?f xs = ?f ys"
    by (cases "?f xs"; cases "?f ys") auto
  then show ?thesis by (simp add: find_filter)
qed

definition same_dict :: "('k, 'v) dict \<Rightarrow> ('k, 'v) dict \<Rightarrow> bool" where
  "same_dict d d' \<longleftrightarrow>
     dict_ok d' \<and> mset (entries d') = mset (entries d) \<and> dtype d' = dtype d \<and>
     iterators d' = iterators d \<and> destroyed d' = destroyed d \<and>
     (0 < ht_size (ht0 d) \<longrightarrow> 0 < ht_size (ht0 d'))"

lemma same_dict_refl: "dict_ok d \<Longrightarrow> same_dict d d"
  by (simp add: same_dict_def)

lemma same_dict_trans: "same_dict a b \<Longrightarrow> same_dict b c \<Longrightarrow> same_dict a c"
  by (auto simp: same_dict_def)

lemma lookup_mset:
  "dict_ok d \<Longrightarrow> mset (entries d') = mset (entries d) \<Longrightarrow> dtype d' = dtype d \<Longrightarrow> lookup d' = lookup d"
proof
  fix k
  assume d: "dict_ok d" and m: "mset (entries d') = mset (entries d)" and ty: "dtype d' = dtype d"
  have "keys_distinct (dtype d) (mset (entries d))" using d by (simp add: dict_ok_def)
  from find_mset [OF this m [symmetric], of k] show "lookup d' k = lookup d k"
    by (simp add: lookup_def ty)
qed

lemma same_dict_lookup: "dict_ok d \<Longrightarrow> same_dict d d' \<Longrightarrow> lookup d' = lookup d"
  by (rule lookup_mset) (simp_all add: same_dict_def)

subsection \<open>Rehashing keeps the entries\<close>

lemma move_entry_ok:
  assumes "ht_ok (dtype d) (ht1 d)" and "0 < ht_size (ht1 d)"
  shows "\<exists>h. move_entry d e = Some (d\<lparr>ht1 := h, ht0 := (ht0 d)\<lparr>ht_used := ht_used (ht0 d) - 1\<rparr>\<rparr>) \<and>
    ht_ok (dtype d) h \<and> ht_size h = ht_size (ht1 d) \<and>
    mset (concat (ht_table h)) = mset (concat (ht_table (ht1 d))) + {#e#}"
proof -
  let ?i = "bucket_of (dtype d) (ht1 d) (e_key e)"
  let ?b = "ht_table (ht1 d) ! ?i"
  let ?h = "(ht1 d)\<lparr>ht_table := (ht_table (ht1 d))[?i := e # ?b], ht_used := ht_used (ht1 d) + 1\<rparr>"
  have i: "?i < ht_size (ht1 d)" by (rule bucket_of_less [OF assms])
  then have l: "?i < length (ht_table (ht1 d))" using assms(1) by (simp add: ht_ok_def)
  have "ht_ok (dtype d) ?h"
    using assms(1) i by (intro ht_ok_update) (auto simp: ht_ok_def)
  moreover have "mset (concat (ht_table ?h)) = mset (concat (ht_table (ht1 d))) + {#e#}"
    using mset_concat_update [OF l, of "e # ?b"] by simp
  ultimately show ?thesis
    using l by (intro exI [of _ ?h]) (simp add: move_entry_def hash_mask Let_def)
qed

lemma move_entries_ok:
  assumes "ht_ok (dtype d) (ht1 d)" and "0 < ht_size (ht1 d)"
  shows "\<exists>h. run_option move_entry d es =
      Some (d\<lparr>ht1 := h, ht0 := (ht0 d)\<lparr>ht_used := ht_used (ht0 d) - length es\<rparr>\<rparr>) \<and>
    ht_ok (dtype d) h \<and> ht_size h = ht_size (ht1 d) \<and>
    mset (concat (ht_table h)) = mset (concat (ht_table (ht1 d))) + mset es"
  using assms
proof (induction es arbitrary: d)
  case Nil
  then show ?case by (intro exI [of _ "ht1 d"]) simp
next
  case (Cons e es)
  obtain h where h: "move_entry d e = Some (d\<lparr>ht1 := h, ht0 := (ht0 d)\<lparr>ht_used := ht_used (ht0 d) - 1\<rparr>\<rparr>)"
    "ht_ok (dtype d) h" "ht_size h = ht_size (ht1 d)"
    "mset (concat (ht_table h)) = mset (concat (ht_table (ht1 d))) + {#e#}"
    using move_entry_ok [OF Cons.prems] by blast
  let ?d = "d\<lparr>ht1 := h, ht0 := (ht0 d)\<lparr>ht_used := ht_used (ht0 d) - 1\<rparr>\<rparr>"
  show ?case
    using Cons.IH [of ?d] h Cons.prems(2) by (auto simp: diff_diff_left)
qed

lemma skip_empty_ok:
  "i \<le> j \<Longrightarrow> j < length t \<Longrightarrow> t ! j \<noteq> [] \<Longrightarrow>
   \<exists>m. skip_empty t i = Some m \<and> i \<le> m \<and> m \<le> j \<and> t ! m \<noteq> [] \<and> (\<forall>n. i \<le> n \<longrightarrow> n < m \<longrightarrow> t ! n = [])"
proof (induction t i rule: skip_empty.induct)
  case (1 t i)
  show ?case
  proof (cases "t ! i = []")
    case True
    have "i \<noteq> j" using True 1(4) by blast
    then have "i < length t" "i + 1 \<le> j" using 1(2,3) by auto
    then obtain m where "skip_empty t (i + 1) = Some m" "i + 1 \<le> m" "m \<le> j" "t ! m \<noteq> []"
      "\<forall>n. i + 1 \<le> n \<longrightarrow> n < m \<longrightarrow> t ! n = []"
      using 1 True by blast
    moreover have "t ! n = []" if "i \<le> n" "n < m" for n
      using that True \<open>\<forall>n. i + 1 \<le> n \<longrightarrow> n < m \<longrightarrow> t ! n = []\<close> by (cases "n = i") auto
    ultimately show ?thesis using \<open>i < length t\<close> True by (subst skip_empty.simps) auto
  next
    case False
    with 1(2-4) show ?thesis by (subst skip_empty.simps) auto
  qed
qed

lemma entries_bucket_exists:
  assumes "ht_ok ty h" and "ht_used h \<noteq> 0"
  obtains j where "j < length (ht_table h)" and "ht_table h ! j \<noteq> []"
proof -
  have "concat (ht_table h) \<noteq> []" using assms by (auto simp: ht_ok_def)
  then obtain b where "b \<in> set (ht_table h)" "b \<noteq> []" by (auto simp: concat_eq_Nil_conv)
  then show thesis using that by (auto simp: in_set_conv_nth)
qed

lemma rehash_bucket_ok:
  assumes ok: "dict_ok d" and r: "dictIsRehashing d" and u: "ht_used (ht0 d) \<noteq> 0"
  shows "\<exists>d'. rehash_bucket d = Some d' \<and> same_dict d d' \<and> dictIsRehashing d' \<and>
    ht_used (ht0 d') < ht_used (ht0 d)"
proof -
  let ?ty = "dtype d" and ?t = "ht_table (ht0 d)" and ?r = "nat (rehashidx d)"
  have inv: "ht_ok ?ty (ht0 d)" "ht_ok ?ty (ht1 d)" "0 \<le> rehashidx d" "0 < ht_size (ht1 d)"
    "\<And>i. i < ?r \<Longrightarrow> i < ht_size (ht0 d) \<Longrightarrow> ?t ! i = []"
    using ok r by (auto simp: dict_ok_def dictIsRehashing_def)
  have lt: "length ?t = ht_size (ht0 d)" using inv(1) by (simp add: ht_ok_def)
  obtain j where j: "j < length ?t" "?t ! j \<noteq> []" by (rule entries_bucket_exists [OF inv(1) u])
  then have rj: "?r \<le> j" using inv(5) [of j] lt by (metis not_le)
  obtain m where m: "skip_empty ?t ?r = Some m" "?r \<le> m" "m \<le> j" "?t ! m \<noteq> []"
    "\<forall>n. ?r \<le> n \<longrightarrow> n < m \<longrightarrow> ?t ! n = []"
    using skip_empty_ok [OF rj j] by blast
  obtain h where h: "run_option move_entry d (?t ! m) =
      Some (d\<lparr>ht1 := h, ht0 := (ht0 d)\<lparr>ht_used := ht_used (ht0 d) - length (?t ! m)\<rparr>\<rparr>)"
    "ht_ok ?ty h" "ht_size h = ht_size (ht1 d)"
    "mset (concat (ht_table h)) = mset (concat (ht_table (ht1 d))) + mset (?t ! m)"
    using move_entries_ok [OF inv(2,4)] by blast
  let ?h0 = "(ht0 d)\<lparr>ht_table := ?t[m := []], ht_used := ht_used (ht0 d) - length (?t ! m)\<rparr>"
  let ?d' = "d\<lparr>ht1 := h, ht0 := ?h0, rehashidx := int m + 1\<rparr>"
  have ml: "m < length ?t" using m(3) j(1) by simp
  have len: "length (?t ! m) \<le> ht_used (ht0 d)"
    using length_concat_update [OF ml, of "[]"] inv(1) by (simp add: ht_ok_def)
  have h0: "ht_ok ?ty ?h0" using inv(1) ml lt len by (intro ht_ok_update) auto
  have ent: "mset (entries ?d') = mset (entries d)"
    using mset_concat_update [OF ml, of "[]"] h(4) by (simp add: entries_def union_ac)
  have "?t[m := []] ! i = []" if "i < Suc m" for i
    using that inv(5) [of i] m(5) lt ml by (cases "i < ?r"; cases "i = m") auto
  then have "dict_ok ?d'"
    using ok h h0 ent inv(4) ml lt unfolding dict_ok_def by (auto simp: nat_add_distrib)
  moreover have "ht_used ?h0 < ht_used (ht0 d)" using u m(4) by simp
  moreover have "rehash_bucket d = Some ?d'"
    using m(1,2) h(1) ml lt by (simp add: rehash_bucket_def)
  ultimately show ?thesis
    using ent by (intro exI [of _ ?d']) (auto simp: same_dict_def dictIsRehashing_def)
qed

lemma rehash_loop_ok:
  "dict_ok d \<Longrightarrow> dictIsRehashing d \<Longrightarrow>
   \<exists>d' more. rehash_loop d n = Some (d', more) \<and> same_dict d d' \<and>
     (more \<longrightarrow> dictIsRehashing d' \<and> ht_used (ht0 d') + n \<le> ht_used (ht0 d)) \<and>
     (\<not> more \<longrightarrow> \<not> dictIsRehashing d')"
proof (induction n arbitrary: d)
  case 0
  then show ?case by (auto simp: same_dict_refl)
next
  case (Suc n)
  show ?case
  proof (cases "ht_used (ht0 d) = 0")
    case True
    let ?d' = "d\<lparr>ht0 := ht1 d, ht1 := u_dictReset, rehashidx := - 1\<rparr>"
    have c: "concat (ht_table (ht0 d)) = []"
      using Suc.prems True by (auto simp: dict_ok_def ht_ok_def)
    have ent: "entries ?d' = entries d" by (simp add: entries_def u_dictReset_def c)
    have "ht_ok (dtype d) u_dictReset" by (simp add: ht_ok_def u_dictReset_def)
    with ent have "same_dict d ?d'"
      using Suc.prems by (auto simp: same_dict_def dict_ok_def dictIsRehashing_def)
    then show ?thesis using True by (auto simp: dictIsRehashing_def)
  next
    case False
    then obtain d1 where d1: "rehash_bucket d = Some d1" "same_dict d d1" "dictIsRehashing d1"
      "ht_used (ht0 d1) < ht_used (ht0 d)"
      using rehash_bucket_ok [OF Suc.prems] by blast
    then have "dict_ok d1" by (simp add: same_dict_def)
    from Suc.IH [OF this d1(3)] d1 False show ?thesis
      by (auto intro: same_dict_trans)
  qed
qed

lemma dictRehash_ok:
  assumes "dict_ok d"
  shows "\<exists>d' more. dictRehash d n = Some (d', more) \<and> same_dict d d' \<and> (more \<longrightarrow> dictIsRehashing d) \<and>
    (more \<longrightarrow> ht_used (ht0 d') + n \<le> ht_used (ht0 d)) \<and> (\<not> more \<longrightarrow> \<not> dictIsRehashing d')"
  using rehash_loop_ok [OF assms] same_dict_refl [OF assms]
  by (fastforce simp: dictRehash_def)

lemma rehash_step_ok:
  assumes "dict_ok d"
  shows "\<exists>d'. rehash_step_if d = Some d' \<and> same_dict d d'"
  using dictRehash_ok [OF assms, of 1] same_dict_refl [OF assms]
  by (auto simp: rehash_step_if_def u_dictRehashStep_def)

subsection \<open>Expansion\<close>

lemma next_power_loop_ok: "0 < i \<Longrightarrow> sz \<le> next_power_loop i sz \<and> 0 < next_power_loop i sz"
proof (induction i sz rule: next_power_loop.induct)
  case (1 i sz)
  then show ?case by (cases "sz \<le> i") (simp_all add: next_power_loop.simps [of i])
qed

lemma nextPower_pos: "0 < u_dictNextPower sz"
  using next_power_loop_ok [of DICT_HT_INITIAL_SIZE sz]
  by (simp add: u_dictNextPower_def DICT_HT_INITIAL_SIZE_def LLONG_MAX_def)

lemma expand_ok:
  assumes ok: "dict_ok d" and n: "\<not> dictIsRehashing d" and u: "ht_used (ht0 d) \<le> sz"
  shows "\<exists>d'. dictExpand d sz = (d', DICT_OK) \<and> same_dict d d' \<and> 0 < ht_size (ht0 d')"
proof -
  let ?rs = "u_dictNextPower sz"
  let ?n = "\<lparr>ht_table = replicate ?rs [], ht_size = ?rs, ht_sizemask = ?rs - 1, ht_used = 0\<rparr>"
  have pos: "0 < ?rs" by (rule nextPower_pos)
  have nok: "ht_ok (dtype d) ?n" by (simp add: ht_ok_def)
  have ent0: "concat (ht_table ?n) = []" by (simp add: concat_eq_Nil_conv)
  have t1: "concat (ht_table (ht1 d)) = []" "rehashidx d = - 1"
    using ok n by (auto simp: dict_ok_def dictIsRehashing_def u_dictReset_def)
  show ?thesis
  proof (cases "ht_table (ht0 d) = []")
    case True
    have "same_dict d (d\<lparr>ht0 := ?n\<rparr>)"
      using ok nok pos ent0 True t1
      by (auto simp: same_dict_def dict_ok_def entries_def u_dictReset_def)
    then show ?thesis using True n u pos by (simp add: dictExpand_def Let_def)
  next
    case False
    have sz0: "0 < ht_size (ht0 d)"
      using ok False unfolding dict_ok_def ht_ok_def by (metis length_greater_0_conv)
    have "same_dict d (d\<lparr>ht1 := ?n, rehashidx := 0\<rparr>)"
      using ok nok pos ent0 sz0 t1 by (auto simp: same_dict_def dict_ok_def entries_def)
    then show ?thesis using False n u sz0 by (simp add: dictExpand_def Let_def)
  qed
qed

lemma expandIfNeeded_ok:
  assumes "dict_ok d"
  shows "\<exists>d'. u_dictExpandIfNeeded cr d = (d', DICT_OK) \<and> same_dict d d' \<and> 0 < ht_size (ht0 d')"
proof -
  have "ht_size (ht0 d) = 0 \<Longrightarrow> ht_used (ht0 d) = 0"
    using assms by (auto simp: dict_ok_def ht_ok_def)
  moreover have "dictIsRehashing d \<Longrightarrow> 0 < ht_size (ht0 d)"
    using assms by (auto simp: dict_ok_def dictIsRehashing_def)
  ultimately show ?thesis
    using expand_ok [OF assms, of DICT_HT_INITIAL_SIZE] same_dict_refl [OF assms]
      expand_ok [OF assms, of "(if ht_size (ht0 d) > ht_used (ht0 d) then ht_size (ht0 d)
        else ht_used (ht0 d)) * 2"]
    by (auto simp: u_dictExpandIfNeeded_def)
qed

subsection \<open>Search finds the entry of the key\<close>

lemma chain_find_None: "chain_find P es n = None \<longleftrightarrow> (\<forall>e \<in> set es. \<not> P (e_key e))"
  by (induction P es n rule: chain_find.induct) auto

lemma chain_find_Some:
  "chain_find P es n = Some m \<Longrightarrow> n \<le> m \<and> m < n + length es \<and> P (e_key (es ! (m - n)))"
proof (induction P es n rule: chain_find.induct)
  case (2 eq he es n)
  then show ?case by (cases "eq (e_key he)") (auto simp: Suc_diff_le nth_Cons')
qed simp

definition valid_ref :: "('k, 'v) dict \<Rightarrow> 'k \<Rightarrow> entry_ref \<Rightarrow> bool" where
  "valid_ref d k r \<longleftrightarrow> (\<exists>e. get_entry d r = Some e \<and> keys_eq (dtype d) k (e_key e))"

lemma find_in_ok:
  assumes ty: "type_ok (dtype d)" and h: "ht_ok (dtype d) (ht_of d t)" and s: "0 < ht_size (ht_of d t)"
  shows "\<exists>r. find_in d t k = Some r \<and>
    (r = None \<longrightarrow> (\<forall>e \<in> set (concat (ht_table (ht_of d t))). \<not> keys_eq (dtype d) k (e_key e))) \<and>
    (\<forall>x. r = Some x \<longrightarrow> valid_ref d k x)"
proof -
  let ?h = "ht_of d t"
  let ?i = "bucket_of (dtype d) ?h k"
  have i: "?i < length (ht_table ?h)" using bucket_of_less [OF h s, of k] h by (simp add: ht_ok_def)
  have other: "?i = j" if "j < ht_size ?h" "e \<in> set (ht_table ?h ! j)" "keys_eq (dtype d) k (e_key e)" for j e
    using h that bucket_of_eq [OF ty that(3), of ?h] by (auto simp: ht_ok_def)
  let ?c = "chain_find (keys_eq (dtype d) k) (ht_table ?h ! ?i) 0"
  have f: "find_in d t k = Some (map_option (\<lambda>p. (t, ?i, p)) ?c)"
    using i by (simp add: find_in_def hash_mask bucket_at_def dictCompareKeys_eq Let_def)
  show ?thesis
  proof (cases ?c)
    case None
    then have no: "\<forall>e \<in> set (ht_table ?h ! ?i). \<not> keys_eq (dtype d) k (e_key e)"
      unfolding chain_find_None .
    have "\<not> keys_eq (dtype d) k (e_key e)" if e: "e \<in> set (concat (ht_table ?h))" for e
    proof
      assume q: "keys_eq (dtype d) k (e_key e)"
      obtain j where "j < length (ht_table ?h)" "e \<in> set (ht_table ?h ! j)"
        using e by (auto simp: in_set_conv_nth [of _ "ht_table ?h"])
      with other [of j e] q h no show False by (auto simp: ht_ok_def)
    qed
    with None f show ?thesis by auto
  next
    case (Some p)
    then have "valid_ref d k (t, ?i, p)"
      using chain_find_Some [OF Some] i by (simp add: valid_ref_def get_entry_def bucket_at_def)
    with Some f show ?thesis by simp
  qed
qed

lemma search_ok:
  assumes ok: "dict_ok d" and s: "0 < ht_size (ht0 d)"
  shows "\<exists>r. search_tables d k = Some r \<and>
    (r = None \<longrightarrow> (\<forall>e \<in> set (entries d). \<not> keys_eq (dtype d) k (e_key e))) \<and>
    (\<forall>x. r = Some x \<longrightarrow> valid_ref d k x)"
proof -
  have ty: "type_ok (dtype d)" and h: "ht_ok (dtype d) (ht_of d t)" for t
    using ok by (auto simp: dict_ok_def ht_of_def)
  obtain r0 where r0: "find_in d False k = Some r0"
    "r0 = None \<longrightarrow> (\<forall>e \<in> set (concat (ht_table (ht0 d))). \<not> keys_eq (dtype d) k (e_key e))"
    "\<forall>x. r0 = Some x \<longrightarrow> valid_ref d k x"
    using find_in_ok [OF ty h, of False k] s by (auto simp: ht_of_def)
  show ?thesis
  proof (cases "r0 \<noteq> None \<or> \<not> dictIsRehashing d")
    case True
    have "\<not> dictIsRehashing d \<Longrightarrow> ht_table (ht1 d) = []"
      using ok by (auto simp: dict_ok_def dictIsRehashing_def u_dictReset_def)
    with True r0 show ?thesis by (auto simp: search_tables_def entries_def)
  next
    case False
    then have "0 < ht_size (ht1 d)" using ok by (auto simp: dict_ok_def dictIsRehashing_def)
    then obtain r1 where "find_in d True k = Some r1"
      "r1 = None \<longrightarrow> (\<forall>e \<in> set (concat (ht_table (ht1 d))). \<not> keys_eq (dtype d) k (e_key e))"
      "\<forall>x. r1 = Some x \<longrightarrow> valid_ref d k x"
      using find_in_ok [OF ty h, of True k] by (auto simp: ht_of_def)
    with False r0 show ?thesis by (auto simp: search_tables_def entries_def)
  qed
qed

lemma get_entry_mem: "get_entry d r = Some e \<Longrightarrow> e \<in> set (entries d)"
proof -
  assume g: "get_entry d r = Some e"
  obtain t i p where r: "r = (t, i, p)" by (cases r)
  let ?t = "ht_table (ht_of d t)"
  have "i < length ?t" "p < length (?t ! i)" "e = ?t ! i ! p"
    using g by (auto simp: r get_entry_def bucket_at_def split: if_splits)
  then have "e \<in> set (?t ! i)" "?t ! i \<in> set ?t" by auto
  then have "e \<in> set (concat ?t)" by auto
  then show ?thesis by (cases t) (auto simp: entries_def ht_of_def)
qed

lemma lookup_None: "lookup d k = None \<longleftrightarrow> (\<forall>e \<in> set (entries d). \<not> keys_eq (dtype d) k (e_key e))"
  by (auto simp: lookup_def find_None_iff)

lemma find_unique:
  assumes "keys_distinct ty (mset xs)" and "e \<in> set xs" and "keys_eq ty k (e_key e)"
  shows "find (\<lambda>e. keys_eq ty k (e_key e)) xs = Some e"
proof -
  let ?f = "filter (\<lambda>e. keys_eq ty k (e_key e)) xs"
  have "length ?f \<le> 1" using assms(1) unfolding keys_distinct_def by (metis mset_filter size_mset)
  moreover have "e \<in> set ?f" using assms(2,3) by simp
  ultimately have "?f = [e]" by (cases ?f) auto
  then show ?thesis by (simp add: find_filter)
qed

lemma lookup_entry:
  "dict_ok d \<Longrightarrow> e \<in> set (entries d) \<Longrightarrow> keys_eq (dtype d) k (e_key e) \<Longrightarrow> lookup d k = Some (e_val e)"
  by (simp add: lookup_def dict_ok_def find_unique)

lemma valid_ref_lookup:
  "dict_ok d \<Longrightarrow> valid_ref d k r \<Longrightarrow> \<exists>e. get_entry d r = Some e \<and> lookup d k = Some (e_val e)"
  using lookup_entry get_entry_mem unfolding valid_ref_def by metis

lemma find_ok:
  assumes ok: "dict_ok d"
  shows "\<exists>d' r. dictFind d k = Some (d', r) \<and> same_dict d d' \<and>
    (case r of None \<Rightarrow> lookup d k = None
     | Some x \<Rightarrow> valid_ref d' k x \<and> (\<exists>e. get_entry d' x = Some e \<and> lookup d k = Some (e_val e)))"
proof (cases "ht_size (ht0 d) = 0")
  case True
  then have "entries d = []" using ok
    by (auto simp: dict_ok_def entries_def ht_ok_def u_dictReset_def split: if_splits)
  with True ok show ?thesis by (simp add: dictFind_def same_dict_refl lookup_None)
next
  case False
  obtain d1 where d1: "rehash_step_if d = Some d1" "same_dict d d1" using rehash_step_ok [OF ok] by blast
  then have "dict_ok d1" "0 < ht_size (ht0 d1)" using False by (auto simp: same_dict_def)
  note s = search_ok [OF this, of k]
  from d1 have l: "lookup d1 = lookup d" by (simp add: same_dict_lookup ok)
  obtain r where r: "search_tables d1 k = Some r" "r = None \<longrightarrow> lookup d1 k = None"
    "\<forall>x. r = Some x \<longrightarrow> valid_ref d1 k x"
    using s by (auto simp: lookup_None)
  show ?thesis
    using False d1 r l valid_ref_lookup [OF \<open>dict_ok d1\<close>, of k]
    by (cases r) (auto simp: dictFind_def)
qed

subsection \<open>Updates\<close>

lemma ht_of_set [simp]: "ht_of (set_ht d t h) t = h"
  by (simp add: ht_of_def set_ht_def)

lemma set_ht_simps [simp]:
  "dtype (set_ht d t h) = dtype d" "rehashidx (set_ht d t h) = rehashidx d"
  "iterators (set_ht d t h) = iterators d" "destroyed (set_ht d t h) = destroyed d"
  by (simp_all add: set_ht_def)

lemma mset_entries_set:
  "mset (entries (set_ht d t h)) + mset (concat (ht_table (ht_of d t))) =
   mset (entries d) + mset (concat (ht_table h))"
  by (cases t) (simp_all add: entries_def set_ht_def ht_of_def union_ac)

text \<open>Replacing one bucket of the table in which new entries go, or of either table without new
  entries, keeps the invariant as long as the keys stay distinct.\<close>

lemma update_bucket:
  assumes ok: "dict_ok d" and i: "i < length (ht_table (ht_of d t))"
    and b: "\<And>e. e \<in> set b \<Longrightarrow> bucket_of (dtype d) (ht_of d t) (e_key e) = i"
    and u: "u + length (ht_table (ht_of d t) ! i) = ht_used (ht_of d t) + length b"
    and new: "ht_table (ht_of d t) ! i = [] \<Longrightarrow> b \<noteq> [] \<Longrightarrow> t \<or> \<not> dictIsRehashing d"
    and M: "mset (entries d) + mset b = M + mset (ht_table (ht_of d t) ! i)"
    and dist: "keys_distinct (dtype d) M"
  defines "d' \<equiv> set_ht d t ((ht_of d t)\<lparr>ht_table := (ht_table (ht_of d t))[i := b], ht_used := u\<rparr>)"
  shows "dict_ok d' \<and> mset (entries d') = M \<and> dtype d' = dtype d"
proof -
  let ?h = "(ht_of d t)\<lparr>ht_table := (ht_table (ht_of d t))[i := b], ht_used := u\<rparr>"
  have h: "ht_ok (dtype d) (ht_of d t)" using ok by (auto simp: dict_ok_def ht_of_def)
  then have h': "ht_ok (dtype d) ?h" using b u i by (intro ht_ok_update) (auto simp: ht_ok_def)
  define A X B X' where "A = mset (entries d')" and "X = mset (concat (ht_table (ht_of d t)))"
    and "B = mset (ht_table (ht_of d t) ! i)" and "X' = mset (concat (ht_table ?h))"
  have "A + X = mset (entries d) + X'" "X' + B = X + mset b"
    using mset_entries_set [of d t ?h] mset_concat_update [OF i, of b]
    by (simp_all add: A_def X_def X'_def B_def d'_def)
  then have "A + X + B = mset (entries d) + mset b + X" by (simp add: ac_simps)
  then have "A = M" using M by (simp add: B_def ac_simps)
  then have ent: "mset (entries d') = M" by (simp add: A_def)
  have len: "length (ht_table (ht_of d t)) = ht_size (ht_of d t)" using h by (simp add: ht_ok_def)
  have ty: "dtype d' = dtype d" "rehashidx d' = rehashidx d" by (simp_all add: d'_def)
  have old: "type_ok (dtype d)" "ht_ok (dtype d) (ht0 d)" "ht_ok (dtype d) (ht1 d)"
    "if rehashidx d = - 1 then ht1 d = u_dictReset
     else 0 \<le> rehashidx d \<and> 0 < ht_size (ht0 d) \<and> 0 < ht_size (ht1 d) \<and>
       (\<forall>i < nat (rehashidx d). i < ht_size (ht0 d) \<longrightarrow> ht_table (ht0 d) ! i = [])"
    using ok by (simp_all add: dict_ok_def)
  have "dict_ok d'"
  proof (cases t)
    case True
    then have h1: "ht0 d' = ht0 d" "ht1 d' = ?h" "ht_of d t = ht1 d"
      by (simp_all add: d'_def set_ht_def ht_of_def)
    moreover have "rehashidx d \<noteq> - 1" using old(4) i h1(3) by (auto simp: u_dictReset_def)
    ultimately show ?thesis using old h' dist unfolding dict_ok_def ty ent by simp
  next
    case False
    then have h0: "ht1 d' = ht1 d" "ht0 d' = ?h" "ht_of d t = ht0 d"
      by (simp_all add: d'_def set_ht_def ht_of_def)
    have "(ht_table (ht0 d))[i := b] ! j = []"
      if "rehashidx d \<noteq> - 1" "j < nat (rehashidx d)" "j < ht_size (ht0 d)" for j
      using that old(4) new False h0(3) i by (cases "j = i") (auto simp: dictIsRehashing_def)
    then show ?thesis using old h' dist h0 unfolding dict_ok_def ty ent by simp
  qed
  then show ?thesis using ent by (simp add: d'_def)
qed

lemma get_entry_iff:
  "get_entry d (t, i, p) = Some e \<longleftrightarrow>
   i < length (ht_table (ht_of d t)) \<and> p < length (ht_table (ht_of d t) ! i) \<and>
   e = ht_table (ht_of d t) ! i ! p"
  by (auto simp: get_entry_def bucket_at_def)

lemma keys_distinct_add:
  assumes "type_ok ty" and "keys_distinct ty M" and "\<forall>e \<in># M. \<not> keys_eq ty k (e_key e)"
    and "keys_eq ty k (e_key x)"
  shows "keys_distinct ty (add_mset x M)"
  unfolding keys_distinct_def
proof
  fix j
  show "size (filter_mset (\<lambda>e. keys_eq ty j (e_key e)) (add_mset x M)) \<le> 1"
  proof (cases "keys_eq ty j (e_key x)")
    case True
    then have "keys_eq ty j k" using assms(1,4) keys_eq_sym keys_eq_trans by meson
    then have "filter_mset (\<lambda>e. keys_eq ty j (e_key e)) M = {#}"
      using assms(3) keys_eq_cong(2) [OF assms(1) \<open>keys_eq ty j k\<close>]
      by (auto simp: filter_mset_eq_mempty_iff)
    then show ?thesis using True by simp
  next
    case False
    then show ?thesis using assms(2) by (simp add: keys_distinct_def)
  qed
qed

lemma keys_distinct_subset: "keys_distinct ty (M + N) \<Longrightarrow> keys_distinct ty M"
  unfolding keys_distinct_def by (metis filter_union_mset le_add1 order_trans size_union)

lemma keys_distinct_swap:
  assumes "keys_distinct ty (add_mset e M)" and "e_key e' = e_key e"
  shows "keys_distinct ty (add_mset e' M)"
  using assms unfolding keys_distinct_def by (metis filter_mset_add_mset size_add_mset)

definition new_entry :: "('k, 'v) dict \<Rightarrow> 'k \<Rightarrow> 'v \<Rightarrow> ('k, 'v) dictEntry" where
  "new_entry d k v = \<lparr>e_key = dup_with (keyDup (dtype d)) k, e_val = v\<rparr>"

lemma keyIndex_ok:
  assumes ok: "dict_ok d"
  shows "\<exists>d' r. u_dictKeyIndex cr d k = Some (d', r) \<and> same_dict d d' \<and> 0 < ht_size (ht0 d') \<and>
    r = (if lookup d k = None
         then Some (bucket_of (dtype d') (ht_of d' (dictIsRehashing d')) k) else None)"
proof -
  obtain d1 where d1: "u_dictExpandIfNeeded cr d = (d1, DICT_OK)" "same_dict d d1" "0 < ht_size (ht0 d1)"
    using expandIfNeeded_ok [OF ok] by blast
  then have ok1: "dict_ok d1" by (simp add: same_dict_def)
  have l: "lookup d1 = lookup d" by (rule same_dict_lookup [OF ok d1(2)])
  obtain r where r: "search_tables d1 k = Some r" "r = None \<longrightarrow> lookup d1 k = None"
    "\<forall>x. r = Some x \<longrightarrow> valid_ref d1 k x"
    using search_ok [OF ok1 d1(3), of k] by (auto simp: lookup_None)
  have "r = None \<longleftrightarrow> lookup d k = None"
    using r(2,3) l valid_ref_lookup [OF ok1, of k] by (metis not_Some_eq)
  then show ?thesis using d1 r(1) by (auto simp: u_dictKeyIndex_def hash_mask)
qed

lemma addRaw_ok:
  assumes ok: "dict_ok d"
  shows "\<exists>d' r. dictAddRaw cr d k v = Some (d', r) \<and> dict_ok d' \<and> dtype d' = dtype d \<and>
    iterators d' = iterators d \<and> destroyed d' = destroyed d \<and>
    (if lookup d k = None
     then \<exists>x. r = Some x \<and> get_entry d' x = Some (new_entry d k v) \<and>
       mset (entries d') = add_mset (new_entry d k v) (mset (entries d))
     else r = None \<and> mset (entries d') = mset (entries d))"
proof -
  obtain d1 where d1: "rehash_step_if d = Some d1" "same_dict d d1" using rehash_step_ok [OF ok] by blast
  then have ok1: "dict_ok d1" by (simp add: same_dict_def)
  obtain d2 r where d2: "u_dictKeyIndex cr d1 k = Some (d2, r)" "same_dict d1 d2" "0 < ht_size (ht0 d2)"
    "r = (if lookup d1 k = None
          then Some (bucket_of (dtype d2) (ht_of d2 (dictIsRehashing d2)) k) else None)"
    using keyIndex_ok [OF ok1, of cr k] by blast
  have s: "same_dict d d2" using d1(2) d2(2) by (rule same_dict_trans)
  then have ok2: "dict_ok d2" and f: "dtype d2 = dtype d" "iterators d2 = iterators d"
    "destroyed d2 = destroyed d" "mset (entries d2) = mset (entries d)"
    by (auto simp: same_dict_def)
  have l: "lookup d1 = lookup d" "lookup d2 = lookup d"
    using same_dict_lookup [OF ok d1(2)] same_dict_lookup [OF ok s] by auto
  show ?thesis
  proof (cases "lookup d k = None")
    case False
    then have "r = None" using d2(4) l by simp
    with False show ?thesis using d1(1) d2(1) ok2 f by (simp add: dictAddRaw_def)
  next
    case True
    define t where "t = dictIsRehashing d2"
    define i where "i = bucket_of (dtype d2) (ht_of d2 t) k"
    let ?b = "ht_table (ht_of d2 t) ! i" and ?e = "new_entry d k v"
    define d' where "d' = set_ht d2 t ((ht_of d2 t)\<lparr>ht_table := (ht_table (ht_of d2 t))[i := ?e # ?b],
      ht_used := ht_used (ht_of d2 t) + 1\<rparr>)"
    have ty: "type_ok (dtype d2)" using ok2 by (simp add: dict_ok_def)
    have ek: "keys_eq (dtype d2) k (e_key ?e)" using keys_eq_dup [OF ty] f by (simp add: new_entry_def)
    have h: "ht_ok (dtype d2) (ht_of d2 t)" "0 < ht_size (ht_of d2 t)"
      using ok2 d2(3) by (auto simp: dict_ok_def ht_of_def t_def dictIsRehashing_def)
    have i: "i < length (ht_table (ht_of d2 t))"
      using bucket_of_less [OF h, of k] h(1) by (simp add: i_def ht_ok_def)
    have "\<forall>e \<in># mset (entries d2). \<not> keys_eq (dtype d2) k (e_key e)"
      using True l(2) lookup_None [of d2 k] by simp
    then have "keys_distinct (dtype d2) (add_mset ?e (mset (entries d2)))"
      using ok2 ek ty by (intro keys_distinct_add) (auto simp: dict_ok_def)
    moreover have "bucket_of (dtype d2) (ht_of d2 t) (e_key x) = i" if "x \<in> set (?e # ?b)" for x
      using that h(1) i bucket_of_eq [OF ty ek, of "ht_of d2 t"] by (auto simp: ht_ok_def i_def)
    ultimately have "dict_ok d' \<and> mset (entries d') = add_mset ?e (mset (entries d2)) \<and> dtype d' = dtype d2"
      unfolding d'_def using i by (intro update_bucket [OF ok2]) (auto simp: t_def)
    moreover have "get_entry d' (t, i, 0) = Some ?e" using i by (simp add: get_entry_iff d'_def)
    moreover have "r = Some i" using d2(4) True l by (simp add: t_def i_def)
    then have "dictAddRaw cr d k v = Some (d', Some (t, i, 0))"
      using d1(1) d2(1) i
      by (simp add: dictAddRaw_def bucket_at_def d'_def t_def [symmetric] new_entry_def f Let_def)
    ultimately show ?thesis using True f by (auto simp: d'_def)
  qed
qed

lemma setVal_ok:
  assumes ok: "dict_ok d" and g: "get_entry d x = Some e"
  shows "\<exists>d' M. dictSetVal d x v = Some d' \<and> dict_ok d' \<and> dtype d' = dtype d \<and>
    iterators d' = iterators d \<and> destroyed d' = destroyed d \<and>
    mset (entries d) = add_mset e M \<and>
    mset (entries d') = add_mset (e\<lparr>e_val := dup_with (valDup (dtype d)) v\<rparr>) M"
proof -
  obtain t i p where x: "x = (t, i, p)" by (cases x)
  let ?b = "ht_table (ht_of d t) ! i" and ?e = "e\<lparr>e_val := dup_with (valDup (dtype d)) v\<rparr>"
  have g': "i < length (ht_table (ht_of d t))" "p < length ?b" "e = ?b ! p"
    using g by (auto simp: x get_entry_iff)
  define d' where "d' = set_ht d t ((ht_of d t)\<lparr>ht_table := (ht_table (ht_of d t))[i := ?b[p := ?e]],
    ht_used := ht_used (ht_of d t)\<rparr>)"
  obtain M where M: "mset (entries d) = add_mset e M"
    using get_entry_mem [OF g] by (metis in_multiset_in_set multi_member_split)
  have b: "mset (?b[p := ?e]) + {#e#} = mset ?b + {#?e#}"
    using g' by (simp add: mset_update)
  have h: "ht_ok (dtype d) (ht_of d t)" using ok by (auto simp: dict_ok_def ht_of_def)
  have "keys_distinct (dtype d) (add_mset e M)" using ok unfolding dict_ok_def M by blast
  then have "keys_distinct (dtype d) (add_mset ?e M)" by (rule keys_distinct_swap) simp
  moreover have "bucket_of (dtype d) (ht_of d t) (e_key y) = i" if "y \<in> set (?b[p := ?e])" for y
  proof -
    have in_b: "bucket_of (dtype d) (ht_of d t) (e_key z) = i" if "z \<in> set ?b" for z
      using that h g'(1) by (simp add: ht_ok_def)
    have "y = ?e \<or> y \<in> set ?b" using that set_update_subset_insert [of ?b p ?e] by blast
    moreover have "e \<in> set ?b" using g'(2,3) by simp
    ultimately show ?thesis using in_b by auto
  qed
  moreover have "mset (entries d) + mset (?b[p := ?e]) = add_mset ?e M + mset ?b"
    using b M by (simp add: ac_simps)
  ultimately have "dict_ok d' \<and> mset (entries d') = add_mset ?e M \<and> dtype d' = dtype d"
    unfolding d'_def using g' by (intro update_bucket [OF ok]) auto
  moreover have "dictSetVal d x v = Some d'"
    using g' by (simp add: dictSetVal_def x bucket_at_def d'_def)
  ultimately show ?thesis using M by (auto simp: d'_def)
qed

lemma unlink_ok:
  assumes ok: "dict_ok d" and g: "get_entry d x = Some e"
  shows "\<exists>d'. unlink_entry d x nofree = Some d' \<and> dict_ok d' \<and> dtype d' = dtype d \<and>
    iterators d' = iterators d \<and> mset (entries d) = add_mset e (mset (entries d')) \<and>
    destroyed d' = destroyed d @
      (if nofree then [] else (if keyDestructor (dtype d) then [Inl (e_key e)] else []) @
         (if valDestructor (dtype d) then [Inr (e_val e)] else []))"
proof -
  obtain t i p where x: "x = (t, i, p)" by (cases x)
  let ?b = "ht_table (ht_of d t) ! i"
  let ?b' = "take p ?b @ drop (Suc p) ?b"
  have g': "i < length (ht_table (ht_of d t))" "p < length ?b" "e = ?b ! p"
    using g by (auto simp: x get_entry_iff)
  have split: "?b = take p ?b @ e # drop (Suc p) ?b" using g' by (simp add: id_take_nth_drop)
  define d1 where "d1 = set_ht d t ((ht_of d t)\<lparr>ht_table := (ht_table (ht_of d t))[i := ?b'],
    ht_used := ht_used (ht_of d t) - 1\<rparr>)"
  obtain M where M: "mset (entries d) = add_mset e M"
    using get_entry_mem [OF g] by (metis in_multiset_in_set multi_member_split)
  have b: "mset ?b = add_mset e (mset ?b')" "length ?b = length ?b' + 1"
    by (subst split, simp)+
  have h: "ht_ok (dtype d) (ht_of d t)" using ok by (auto simp: dict_ok_def ht_of_def)
  have "ht_used (ht_of d t) = length (concat (ht_table (ht_of d t)))" using h by (simp add: ht_ok_def)
  then have u: "0 < ht_used (ht_of d t)"
    using length_concat_update [OF g'(1), of "[]"] g'(2) unfolding list.size(3) by linarith
  have "keys_distinct (dtype d) (add_mset e M)" using ok unfolding dict_ok_def M by blast
  then have "keys_distinct (dtype d) M" using keys_distinct_subset [of _ M "{#e#}"] by simp
  moreover have "bucket_of (dtype d) (ht_of d t) (e_key y) = i" if "y \<in> set ?b'" for y
  proof -
    have "y \<in> set ?b" using that by (auto dest: in_set_takeD in_set_dropD)
    then show ?thesis using h g'(1) by (auto simp: ht_ok_def)
  qed
  moreover have "ht_used (ht_of d t) - 1 + length ?b = ht_used (ht_of d t) + length ?b'"
    using b(2) u by linarith
  moreover have "mset (entries d) + mset ?b' = M + mset ?b"
    unfolding M b(1) by (simp only: union_mset_add_mset_left union_mset_add_mset_right)
  moreover have "?b \<noteq> []" using g'(2) by auto
  ultimately have d1: "dict_ok d1 \<and> mset (entries d1) = M \<and> dtype d1 = dtype d"
    unfolding d1_def using g'(1) by (intro update_bucket [OF ok]) blast+
  have "unlink_entry d x nofree = Some (if \<not> nofree then dictFreeVal e (dictFreeKey e d1) else d1)"
    using g g'(1) by (simp add: unlink_entry_def x bucket_at_def d1_def)
  moreover have "dict_ok (d1\<lparr>destroyed := z\<rparr>) = dict_ok d1" "entries (d1\<lparr>destroyed := z\<rparr>) = entries d1" for z
    by (simp_all add: dict_ok_def entries_def)
  ultimately show ?thesis
    using d1 M by (auto simp: dictFreeVal_def dictFreeKey_def d1_def)
qed

lemma lookup_add_mset:
  assumes "dict_ok d'" and "mset (entries d') = add_mset e (mset (entries d))" and "dtype d' = dtype d"
  shows "lookup d' j = (if keys_eq (dtype d) j (e_key e) then Some (e_val e) else lookup d j)"
proof (cases "keys_eq (dtype d) j (e_key e)")
  case True
  have "e \<in> set (entries d')" using assms(2) by (metis mset_eq_setD mset.simps(2) list.set_intros(1))
  with True show ?thesis using lookup_entry [OF assms(1), of e j] assms(3) by simp
next
  case False
  have "find (\<lambda>e. keys_eq (dtype d) j (e_key e)) (entries d') =
      find (\<lambda>e. keys_eq (dtype d) j (e_key e)) (e # entries d)"
    using assms by (intro find_mset) (auto simp: dict_ok_def)
  with False show ?thesis using assms(3) by (simp add: lookup_def)
qed

lemma lookup_removed:
  assumes "dict_ok d" and "mset (entries d) = add_mset e (mset (entries d'))" and "dtype d' = dtype d"
  shows "lookup d' j = (if keys_eq (dtype d) j (e_key e) then None else lookup d j)"
proof (cases "keys_eq (dtype d) j (e_key e)")
  case True
  have "size (filter_mset (\<lambda>e. keys_eq (dtype d) j (e_key e)) (mset (entries d))) \<le> 1"
    using assms(1) by (simp add: dict_ok_def keys_distinct_def)
  then have "filter_mset (\<lambda>e. keys_eq (dtype d) j (e_key e)) (mset (entries d')) = {#}"
    using True unfolding assms(2) by simp
  then have "lookup d' j = None" unfolding lookup_None assms(3) by simp
  with True show ?thesis by simp
next
  case False
  have "find (\<lambda>e. keys_eq (dtype d) j (e_key e)) (entries d) =
      find (\<lambda>e. keys_eq (dtype d) j (e_key e)) (e # entries d')"
    using assms by (intro find_mset) (auto simp: dict_ok_def)
  with False show ?thesis using assms(3) by (simp add: lookup_def)
qed

text \<open>The four operations at the level of the map.\<close>

lemma fetch_ok:
  assumes "dict_ok d"
  shows "\<exists>d'. dictFetchValue d k = Some (d', lookup d k) \<and> dict_ok d' \<and> dtype d' = dtype d \<and>
    lookup d' = lookup d \<and> iterators d' = iterators d"
proof -
  obtain d' r where "dictFind d k = Some (d', r)" "same_dict d d'"
    "case r of None \<Rightarrow> lookup d k = None
     | Some x \<Rightarrow> valid_ref d' k x \<and> (\<exists>e. get_entry d' x = Some e \<and> lookup d k = Some (e_val e))"
    using find_ok [OF assms] by blast
  then show ?thesis
    using same_dict_lookup [OF assms]
    by (cases r) (auto simp: dictFetchValue_def same_dict_def)
qed

lemma add_ok:
  assumes ok: "dict_ok d"
  shows "\<exists>d'. dictAdd cr d k v = Some (d', if lookup d k = None then DICT_OK else DICT_ERR) \<and>
    dict_ok d' \<and> dtype d' = dtype d \<and> iterators d' = iterators d \<and> destroyed d' = destroyed d \<and>
    lookup d' = (if lookup d k = None
      then (\<lambda>j. if keys_eq (dtype d) j k then Some (dup_with (valDup (dtype d)) v) else lookup d j)
      else lookup d)"
proof -
  obtain d1 r where d1: "dictAddRaw cr d k v = Some (d1, r)" "dict_ok d1" "dtype d1 = dtype d"
    "iterators d1 = iterators d" "destroyed d1 = destroyed d"
    "if lookup d k = None
     then \<exists>x. r = Some x \<and> get_entry d1 x = Some (new_entry d k v) \<and>
       mset (entries d1) = add_mset (new_entry d k v) (mset (entries d))
     else r = None \<and> mset (entries d1) = mset (entries d)"
    using addRaw_ok [OF ok] by blast
  show ?thesis
  proof (cases "lookup d k = None")
    case False
    then show ?thesis using d1 lookup_mset [OF ok, of d1] by (auto simp: dictAdd_def)
  next
    case True
    then obtain x where x: "r = Some x" "get_entry d1 x = Some (new_entry d k v)"
      "mset (entries d1) = add_mset (new_entry d k v) (mset (entries d))"
      using d1(6) by auto
    let ?e = "(new_entry d k v)\<lparr>e_val := dup_with (valDup (dtype d)) v\<rparr>"
    obtain d2 M where d2: "dictSetVal d1 x v = Some d2" "dict_ok d2" "dtype d2 = dtype d1"
      "iterators d2 = iterators d1" "destroyed d2 = destroyed d1"
      "mset (entries d1) = add_mset (new_entry d k v) M" "mset (entries d2) = add_mset ?e M"
      using setVal_ok [OF d1(2) x(2), of v] d1(3) by auto
    then have "mset (entries d2) = add_mset ?e (mset (entries d))" using x(3) by simp
    from lookup_add_mset [OF d2(2) this]
    have "lookup d2 j = (if keys_eq (dtype d) j (e_key ?e) then Some (e_val ?e) else lookup d j)" for j
      using d2(3) d1(3) by simp
    moreover have ty: "type_ok (dtype d)" using ok by (simp add: dict_ok_def)
    then have "keys_eq (dtype d) j (e_key ?e) = keys_eq (dtype d) j k" for j
      using keys_eq_cong(1) [OF ty keys_eq_dup [OF ty]] by (simp add: new_entry_def)
    ultimately show ?thesis
      using True d1(1,3,4,5) x(1) d2(1-5) by (auto simp: dictAdd_def)
  qed
qed

lemma genericDelete_ok:
  assumes ok: "dict_ok d"
  shows "\<exists>d'. dictGenericDelete d k nofree = Some (d', if lookup d k = None then DICT_ERR else DICT_OK) \<and>
    dict_ok d' \<and> dtype d' = dtype d \<and> iterators d' = iterators d \<and>
    lookup d' = (\<lambda>j. if keys_eq (dtype d) j k then None else lookup d j)"
proof -
  have ty: "type_ok (dtype d)" using ok by (simp add: dict_ok_def)
  have absent: "lookup d = (\<lambda>j. if keys_eq (dtype d) j k then None else lookup d j)" if "lookup d k = None"
    using that keys_eq_cong(2) [OF ty] by (auto simp: lookup_None fun_eq_iff)
  show ?thesis
  proof (cases "ht_size (ht0 d) = 0")
    case True
    then have "entries d = []" using ok
      by (auto simp: dict_ok_def entries_def ht_ok_def u_dictReset_def split: if_splits)
    then have "lookup d k = None" by (simp add: lookup_None)
    with True ok absent show ?thesis by (auto simp: dictGenericDelete_def)
  next
    case False
    obtain d1 where d1: "rehash_step_if d = Some d1" "same_dict d d1"
      using rehash_step_ok [OF ok] by blast
    then have ok1: "dict_ok d1" "0 < ht_size (ht0 d1)" and ty1: "dtype d1 = dtype d" "iterators d1 = iterators d"
      using False by (auto simp: same_dict_def)
    have l: "lookup d1 = lookup d" by (rule same_dict_lookup [OF ok d1(2)])
    obtain r where r: "search_tables d1 k = Some r" "r = None \<longrightarrow> lookup d1 k = None"
      "\<forall>x. r = Some x \<longrightarrow> valid_ref d1 k x"
      using search_ok [OF ok1, of k] by (auto simp: lookup_None)
    show ?thesis
    proof (cases r)
      case None
      then have n: "lookup d k = None" using r(2) l by simp
      then show ?thesis
        using False None d1(1) r(1) ok1(1) ty1 l absent by (auto simp: dictGenericDelete_def)
    next
      case (Some x)
      then obtain e where e: "get_entry d1 x = Some e" "keys_eq (dtype d) k (e_key e)"
        using r(3) ty1 by (auto simp: valid_ref_def)
      then have n: "lookup d k \<noteq> None"
        using lookup_entry [OF ok1(1) get_entry_mem] l ty1 by auto
      obtain d2 where d2: "unlink_entry d1 x nofree = Some d2" "dict_ok d2" "dtype d2 = dtype d1"
        "iterators d2 = iterators d1" "mset (entries d1) = add_mset e (mset (entries d2))"
        using unlink_ok [OF ok1(1) e(1)] by blast
      have "lookup d2 j = (if keys_eq (dtype d) j k then None else lookup d j)" for j
        using lookup_removed [OF ok1(1) d2(5,3), of j] keys_eq_cong(1) [OF ty e(2), of j] ty1 l by simp
      then show ?thesis
        using False Some d1(1) r(1) n d2(1-4) ty1 by (auto simp: dictGenericDelete_def)
    qed
  qed
qed

lemma lookup_swapped:
  assumes ok: "dict_ok d" "dict_ok d'" and ty: "dtype d' = dtype d"
    and m: "mset (entries d) = add_mset e M" "mset (entries d') = add_mset e' M" and k: "e_key e' = e_key e"
  shows "lookup d' j = (if keys_eq (dtype d) j (e_key e) then Some (e_val e') else lookup d j)"
proof -
  obtain es where es: "mset es = M" using ex_mset by blast
  let ?P = "\<lambda>e. keys_eq (dtype d) j (e_key e)"
  have "find ?P (entries d) = find ?P (e # es)" "find ?P (entries d') = find ?P (e' # es)"
    using ok ty m es unfolding dict_ok_def by (intro find_mset; simp)+
  then show ?thesis using k ty by (simp add: lookup_def)
qed

lemma replace_ok:
  assumes ok: "dict_ok d"
  shows "\<exists>d'. dictReplace cr d k v = Some (d', lookup d k = None) \<and>
    dict_ok d' \<and> dtype d' = dtype d \<and> iterators d' = iterators d \<and>
    destroyed d' = destroyed d @
      (case lookup d k of Some old \<Rightarrow> if valDestructor (dtype d) then [Inr old] else [] | None \<Rightarrow> []) \<and>
    lookup d' =
      (\<lambda>j. if keys_eq (dtype d) j k then Some (dup_with (valDup (dtype d)) v) else lookup d j)"
proof -
  have ty: "type_ok (dtype d)" using ok by (simp add: dict_ok_def)
  obtain d1 where d1: "dictAdd cr d k v = Some (d1, if lookup d k = None then DICT_OK else DICT_ERR)"
    "dict_ok d1" "dtype d1 = dtype d" "iterators d1 = iterators d" "destroyed d1 = destroyed d"
    "lookup d1 = (if lookup d k = None
      then (\<lambda>j. if keys_eq (dtype d) j k then Some (dup_with (valDup (dtype d)) v) else lookup d j)
      else lookup d)"
    using add_ok [OF ok, of cr k v] by blast
  show ?thesis
  proof (cases "lookup d k")
    case None
    then show ?thesis using d1 by (simp add: dictReplace_def)
  next
    case (Some old)
    then have l: "lookup d1 = lookup d" using d1(6) by simp
    obtain d2 r where d2: "dictFind d1 k = Some (d2, r)" "same_dict d1 d2"
      "case r of None \<Rightarrow> lookup d1 k = None
       | Some x \<Rightarrow> valid_ref d2 k x \<and> (\<exists>e. get_entry d2 x = Some e \<and> lookup d1 k = Some (e_val e))"
      using find_ok [OF d1(2)] by blast
    then obtain x e where x: "r = Some x" "get_entry d2 x = Some e" "keys_eq (dtype d) k (e_key e)" "e_val e = old"
      using Some l d1(3) by (cases r) (auto simp: valid_ref_def same_dict_def)
    have s: "dict_ok d2" "dtype d2 = dtype d" "iterators d2 = iterators d" "destroyed d2 = destroyed d"
      using d2(2) d1 by (auto simp: same_dict_def)
    have l2: "lookup d2 = lookup d" using same_dict_lookup [OF d1(2) d2(2)] l by simp
    let ?e = "e\<lparr>e_val := dup_with (valDup (dtype d)) v\<rparr>"
    obtain d3 M where d3: "dictSetVal d2 x v = Some d3" "dict_ok d3" "dtype d3 = dtype d2"
      "iterators d3 = iterators d2" "destroyed d3 = destroyed d2"
      "mset (entries d2) = add_mset e M" "mset (entries d3) = add_mset ?e M"
      using setVal_ok [OF s(1) x(2), of v] s(2) by auto
    have "lookup d3 j = (if keys_eq (dtype d) j k then Some (dup_with (valDup (dtype d)) v) else lookup d j)" for j
      using lookup_swapped [OF s(1) d3(2,3,6,7), of j] keys_eq_cong(1) [OF ty x(3), of j] s(2) l2 by simp
    moreover have "lookup (d3\<lparr>destroyed := z\<rparr>) = lookup d3" "dict_ok (d3\<lparr>destroyed := z\<rparr>) = dict_ok d3" for z
      by (simp_all add: lookup_def dict_ok_def entries_def fun_eq_iff)
    ultimately show ?thesis
      using Some d1(1) d2(1) x d3 s by (auto simp: dictReplace_def dictFreeVal_def fun_eq_iff)
  qed
qed

text \<open>What the destructors get for an entry.\<close>

definition free_events :: "('k, 'v) dictType \<Rightarrow> ('k, 'v) dictEntry \<Rightarrow> ('k + 'v) list" where
  "free_events ty e = (if keyDestructor ty then [Inl (e_key e)] else []) @
     (if valDestructor ty then [Inr (e_val e)] else [])"

lemma free_entry: "dictFreeVal e (dictFreeKey e d) = d\<lparr>destroyed := destroyed d @ free_events (dtype d) e\<rparr>"
  by (simp add: dictFreeVal_def dictFreeKey_def free_events_def)

lemma free_chain:
  "fold (\<lambda>he d. dictFreeVal he (dictFreeKey he d)) b d =
   d\<lparr>destroyed := destroyed d @ concat (map (free_events (dtype d)) b)\<rparr>"
  by (induction b arbitrary: d) (simp_all add: free_entry)

lemma clear_loop_ok:
  "length bs = n \<Longrightarrow> used = length (concat bs) \<Longrightarrow>
   clear_loop n d bs used =
   Some (d\<lparr>destroyed := destroyed d @ concat (map (free_events (dtype d)) (concat bs))\<rparr>)"
proof (induction n d bs used rule: clear_loop.induct)
  case (2 n d bs used)
  show ?case
  proof (cases "used = 0")
    case True
    then have "concat bs = []" using 2(3) by simp
    then show ?thesis using True by (simp del: concat_eq_Nil_conv)
  next
    case False
    then obtain b bs' where bs: "bs = b # bs'" using 2(3) by (cases bs) auto
    have "clear_loop n (fold (\<lambda>he d. dictFreeVal he (dictFreeKey he d)) b d) bs' (used - length b) =
      Some (d\<lparr>destroyed := destroyed d @ concat (map (free_events (dtype d)) b) @
        concat (map (free_events (dtype d)) (concat bs'))\<rparr>)"
      using 2(1) [OF False bs] 2(2,3) by (simp add: bs free_chain)
    then show ?thesis using False by (simp add: bs)
  qed
qed simp

lemma clear_ok:
  assumes "ht_ok (dtype d) (ht_of d t)"
  shows "u_dictClear d t = Some ((set_ht d t u_dictReset)\<lparr>destroyed := destroyed d @
    concat (map (free_events (dtype d)) (concat (ht_table (ht_of d t))))\<rparr>)"
  using assms by (simp add: u_dictClear_def ht_ok_def clear_loop_ok set_ht_def)

lemma empty_ok:
  assumes "dict_ok d"
  shows "\<exists>d'. dictEmpty d = Some d' \<and> dict_ok d' \<and> entries d' = [] \<and> dtype d' = dtype d \<and>
    destroyed d' = destroyed d @ concat (map (free_events (dtype d)) (entries d))"
proof -
  have h: "ht_ok (dtype d) (ht0 d)" "ht_ok (dtype d) (ht1 d)" using assms by (auto simp: dict_ok_def)
  have "u_dictClear d False = Some ((set_ht d False u_dictReset)\<lparr>destroyed := destroyed d @
      concat (map (free_events (dtype d)) (concat (ht_table (ht0 d))))\<rparr>)"
    using clear_ok [of d False] h(1) by (simp add: ht_of_def)
  moreover have "ht_ok ty u_dictReset" for ty :: "('a, 'b) dictType" by (simp add: ht_ok_def u_dictReset_def)
  ultimately show ?thesis
    using assms h(2)
    by (simp add: dictEmpty_def clear_ok set_ht_def ht_of_def entries_def dict_ok_def u_dictReset_def
        keys_distinct_def)
qed

subsection \<open>Iteration visits every entry once\<close>

text \<open>What an iterator still has to return, and when its fields make sense.\<close>

definition iter_rest :: "('k, 'v) dict \<Rightarrow> dictIterator \<Rightarrow> ('k, 'v) dictEntry list" where
  "iter_rest d it =
     (let tb = ht_table (ht_of d (it_table it)); b = tb ! nat (it_index it) in
      (if it_entry it = 0 then [] else drop (length b - it_nextEntry it) b) @
      concat (drop (nat (it_index it + 1)) tb) @
      (if \<not> it_table it \<and> dictIsRehashing d then concat (ht_table (ht1 d)) else []))"

definition iter_ok :: "('k, 'v) dict \<Rightarrow> dictIterator \<Rightarrow> bool" where
  "iter_ok d it \<longleftrightarrow>
     - 1 \<le> it_index it \<and> (it_table it \<longrightarrow> dictIsRehashing d \<and> 0 \<le> it_index it) \<and>
     (it_entry it \<noteq> 0 \<longrightarrow> 0 \<le> it_index it \<and> nat (it_index it) < length (ht_table (ht_of d (it_table it))) \<and>
        it_nextEntry it \<le> length (ht_table (ht_of d (it_table it)) ! nat (it_index it)))"

definition same_tables :: "('k, 'v) dict \<Rightarrow> ('k, 'v) dict \<Rightarrow> bool" where
  "same_tables d d' \<longleftrightarrow> (\<exists>n. d' = d\<lparr>iterators := n\<rparr>)"

lemma same_tables_refl: "same_tables d d"
proof -
  have "d = d\<lparr>iterators := iterators d\<rparr>" by simp
  then show ?thesis unfolding same_tables_def by blast
qed

definition iter_step ::
  "('k, 'v) dict \<Rightarrow> dictIterator \<Rightarrow> (('k, 'v) dict \<times> dictIterator \<times> entry_ref option) option \<Rightarrow> bool" where
  "iter_step d it res \<longleftrightarrow>
     (\<exists>d' it' r. res = Some (d', it', r) \<and> same_tables d d' \<and> iter_ok d' it' \<and>
        (case iter_rest d it of
           [] \<Rightarrow> r = None
         | e # es \<Rightarrow> \<exists>x. r = Some x \<and> get_entry d' x = Some e \<and> iter_rest d' it' = es))"

lemma iterators_irrelevant [simp]:
  "ht_of (d\<lparr>iterators := n\<rparr>) t = ht_of d t" "iter_rest (d\<lparr>iterators := n\<rparr>) it = iter_rest d it"
  "iter_ok (d\<lparr>iterators := n\<rparr>) it = iter_ok d it" "dict_ok (d\<lparr>iterators := n\<rparr>) = dict_ok d"
  "get_entry (d\<lparr>iterators := n\<rparr>) x = get_entry d x" "entries (d\<lparr>iterators := n\<rparr>) = entries d"
  by (simp_all add: ht_of_def iter_rest_def iter_ok_def dict_ok_def get_entry_def entries_def
      dictIsRehashing_def split: prod.split)

lemma iter_step_iterators: "iter_step (d\<lparr>iterators := n\<rparr>) it res \<Longrightarrow> iter_step d it res"
  by (simp add: iter_step_def same_tables_def)

text \<open>Returning the entry an iterator has just moved to.\<close>

lemma iter_return_ok:
  assumes ok: "iter_ok d it" and i: "0 \<le> it_index it" "nat (it_index it) < length (ht_table (ht_of d (it_table it)))"
    and n: "0 < n" "n \<le> length (ht_table (ht_of d (it_table it)) ! nat (it_index it))"
  defines "b \<equiv> ht_table (ht_of d (it_table it)) ! nat (it_index it)"
  shows "\<exists>it'. iter_return d (it\<lparr>it_entry := n\<rparr>) =
      Some (d, it', Some (it_table it, nat (it_index it), length b - n)) \<and> iter_ok d it' \<and>
    get_entry d (it_table it, nat (it_index it), length b - n) = Some (b ! (length b - n)) \<and>
    iter_rest d it' = drop (Suc (length b - n)) b @ iter_rest d (it\<lparr>it_entry := 0\<rparr>)"
proof -
  let ?it = "it\<lparr>it_entry := n, it_nextEntry := n - 1\<rparr>"
  have n': "0 < n" "n \<le> length b" using n by (simp_all add: b_def)
  have "iter_return d (it\<lparr>it_entry := n\<rparr>) =
      Some (d, ?it, Some (it_table it, nat (it_index it), length b - n))"
    using i n' by (simp add: iter_return_def bucket_at_def b_def)
  moreover have "iter_ok d ?it" using ok i n' by (simp add: iter_ok_def b_def)
  moreover have "get_entry d (it_table it, nat (it_index it), length b - n) = Some (b ! (length b - n))"
    using i n' by (simp add: get_entry_iff b_def)
  moreover have "length b - (n - 1) = Suc (length b - n)" using n' by simp
  then have "iter_rest d ?it = drop (Suc (length b - n)) b @ iter_rest d (it\<lparr>it_entry := 0\<rparr>)"
    using n' by (simp add: iter_rest_def Let_def b_def)
  ultimately show ?thesis by blast
qed

lemma iter_step_return:
  assumes "iter_ok d it" and "0 \<le> it_index it" and "nat (it_index it) < length (ht_table (ht_of d (it_table it)))"
    and "0 < n" and "n \<le> length (ht_table (ht_of d (it_table it)) ! nat (it_index it))"
    and "iter_rest d jt = drop (length (ht_table (ht_of d (it_table it)) ! nat (it_index it)) - n)
      (ht_table (ht_of d (it_table it)) ! nat (it_index it)) @ iter_rest d (it\<lparr>it_entry := 0\<rparr>)"
  shows "iter_step d jt (iter_return d (it\<lparr>it_entry := n\<rparr>))"
proof -
  let ?b = "ht_table (ht_of d (it_table it)) ! nat (it_index it)"
  have "drop (length ?b - n) ?b = ?b ! (length ?b - n) # drop (Suc (length ?b - n)) ?b"
    using assms(4,5) by (intro Cons_nth_drop_Suc [symmetric]) simp
  then show ?thesis
    using iter_return_ok [OF assms(1-5)] assms(6)
    by (auto simp: iter_step_def same_tables_refl)
qed

lemma iter_advance_ok:
  assumes ok: "dict_ok d" and it: "iter_ok d it" "it_entry it = 0"
    and more: "it_index it + 1 < int (ht_size (ht_of d (it_table it))) \<or> dictIsRehashing d \<and> \<not> it_table it"
  defines "jt \<equiv> iter_advance d it"
  shows "iter_ok d jt \<and> it_entry jt = 0 \<and> 0 \<le> it_index jt \<and>
    nat (it_index jt) < length (ht_table (ht_of d (it_table jt))) \<and>
    iter_rest d it = ht_table (ht_of d (it_table jt)) ! nat (it_index jt) @ iter_rest d jt"
proof (cases "it_index it + 1 < int (ht_size (ht_of d (it_table it)))")
  case True
  have len: "length (ht_table (ht_of d (it_table it))) = ht_size (ht_of d (it_table it))"
    using ok by (auto simp: dict_ok_def ht_ok_def ht_of_def)
  have jt: "jt = it\<lparr>it_index := it_index it + 1\<rparr>" using True by (simp add: jt_def iter_advance_def)
  have i: "0 \<le> it_index it + 1" using it(1) by (simp add: iter_ok_def)
  then have "nat (it_index it + 1 + 1) = Suc (nat (it_index it + 1))" by simp
  moreover have "nat (it_index it + 1) < length (ht_table (ht_of d (it_table it)))" using True i len by simp
  ultimately show ?thesis
    using it i by (simp add: jt iter_ok_def iter_rest_def Let_def Cons_nth_drop_Suc [symmetric])
next
  case False
  then have m: "dictIsRehashing d" "\<not> it_table it" using more by auto
  have len: "length (ht_table (ht0 d)) = ht_size (ht0 d)" "length (ht_table (ht1 d)) = ht_size (ht1 d)"
    "0 < ht_size (ht1 d)"
    using ok m by (auto simp: dict_ok_def ht_ok_def dictIsRehashing_def)
  have jt: "jt = it\<lparr>it_table := True, it_index := 0\<rparr>" using False by (simp add: jt_def iter_advance_def)
  have "drop (nat (it_index it + 1)) (ht_table (ht0 d)) = []"
    using False m(2) len(1) by (simp add: ht_of_def)
  moreover have "ht_table (ht1 d) = ht_table (ht1 d) ! 0 # drop (Suc 0) (ht_table (ht1 d))"
    using Cons_nth_drop_Suc [of 0 "ht_table (ht1 d)"] len by simp
  then have "concat (ht_table (ht1 d)) = ht_table (ht1 d) ! 0 @ concat (drop (Suc 0) (ht_table (ht1 d)))"
    by (metis concat.simps(2))
  ultimately show ?thesis
    using it(2) m len by (simp add: jt iter_ok_def iter_rest_def Let_def ht_of_def)
qed

lemma dictNext_ok:
  "dict_ok d \<Longrightarrow> iter_ok d it \<Longrightarrow> iter_step d it (dictNext d it)"
proof (induction d it rule: dictNext.induct)
  case (1 d it)
  have "same_tables d (iter_begin d it)"
    using same_tables_refl [of d] unfolding iter_begin_def by (auto simp: same_tables_def)
  then obtain n where d1: "iter_begin d it = d\<lparr>iterators := n\<rparr>" by (auto simp: same_tables_def)
  show ?case
  proof (cases "it_entry it = 0")
    case True
    show ?thesis
    proof (cases "it_index it + 1 < int (ht_size (ht_of d (it_table it))) \<or> dictIsRehashing d \<and> \<not> it_table it")
      case False
      have "iter_rest d it = []"
        using False True 1(3,4) by (auto simp: iter_rest_def Let_def dict_ok_def ht_ok_def ht_of_def)
      moreover have "dictNext d it = Some (iter_begin d it, it\<lparr>it_index := it_index it + 1\<rparr>, None)"
        using True False by (subst dictNext.simps) auto
      moreover have "iter_ok d (it\<lparr>it_index := it_index it + 1\<rparr>)" using 1(4) True by (simp add: iter_ok_def)
      ultimately show ?thesis using d1 by (auto simp: iter_step_def same_tables_def)
    next
      case more: True
      define jt where "jt = iter_advance d it"
      note adv = iter_advance_ok [OF 1(3,4) True more, folded jt_def]
      define b where "b = ht_table (ht_of d (it_table jt)) ! nat (it_index jt)"
      have g: "\<not> (it_index it + 1 \<ge> int (ht_size (ht_of d (it_table it))) \<and> \<not> (dictIsRehashing d \<and> \<not> it_table it))"
        using more by auto
      have bk: "bucket_at (ht_of d (it_table jt)) (nat (it_index jt)) = Some b"
        using adv by (simp add: bucket_at_def b_def)
      have eq: "dictNext d it = (if b \<noteq> [] then iter_return (iter_begin d it) (jt\<lparr>it_entry := length b\<rparr>)
          else dictNext (iter_begin d it) jt)"
        by (subst dictNext.simps) (simp only: True g bk jt_def [symmetric] Let_def option.case if_True if_False simp_thms)
      show ?thesis
      proof (cases "b = []")
        case True': True
        then have "iter_step (iter_begin d it) jt (dictNext (iter_begin d it) jt)"
          using 1(1) [OF True g jt_def bk] 1(3) adv by (simp add: d1)
        then have "iter_step d jt (dictNext d it)" using eq True' by (simp add: d1 iter_step_iterators)
        then show ?thesis using adv True' by (simp add: iter_step_def b_def)
      next
        case False
        have "iter_step (iter_begin d it) it (iter_return (iter_begin d it) (jt\<lparr>it_entry := length b\<rparr>))"
        proof (rule iter_step_return)
          have "iter_rest d (jt\<lparr>it_entry := 0\<rparr>) = iter_rest d jt" using adv by (simp add: iter_rest_def)
          then show "iter_rest (iter_begin d it) it =
              drop (length (ht_table (ht_of (iter_begin d it) (it_table jt)) ! nat (it_index jt)) - length b)
                (ht_table (ht_of (iter_begin d it) (it_table jt)) ! nat (it_index jt)) @
              iter_rest (iter_begin d it) (jt\<lparr>it_entry := 0\<rparr>)"
            using adv by (simp add: d1 b_def)
        qed (use adv False in \<open>simp_all add: d1 b_def\<close>)
        then show ?thesis using eq False by (simp add: d1 iter_step_iterators)
      qed
    qed
  next
    case False
    show ?thesis
    proof (cases "it_nextEntry it = 0")
      case True
      have "dictNext d it = dictNext d (it\<lparr>it_entry := 0\<rparr>)" using True False by (subst dictNext.simps) simp
      moreover have "iter_rest d (it\<lparr>it_entry := 0\<rparr>) = iter_rest d it"
        using True False by (simp add: iter_rest_def Let_def)
      moreover have "iter_ok d (it\<lparr>it_entry := 0\<rparr>)" using 1(4) by (simp add: iter_ok_def)
      ultimately show ?thesis using 1(2) [OF False] 1(3) True by (simp add: iter_step_def)
    next
      case nx: False
      have "dictNext d it = iter_return d (it\<lparr>it_entry := it_nextEntry it\<rparr>)"
        using nx False by (subst dictNext.simps) simp
      moreover have "iter_step d it (iter_return d (it\<lparr>it_entry := it_nextEntry it\<rparr>))"
        using 1(4) False nx by (intro iter_step_return) (auto simp: iter_ok_def iter_rest_def Let_def)
      ultimately show ?thesis by simp
    qed
  qed
qed

text \<open>The client's loop \<^verbatim>\<open>while((de = dictNext(iter)) != NULL)\<close>, with the number of passes as a
  bound.\<close>

fun iterate :: "nat \<Rightarrow> ('k, 'v) dict \<Rightarrow> dictIterator \<Rightarrow> (('k, 'v) dict \<times> ('k, 'v) dictEntry list) option" where
  "iterate 0 d it = None"
| "iterate (Suc n) d it = do {
     (d1, it1, r) \<leftarrow> dictNext d it;
     case r of
       None \<Rightarrow> Some (dictReleaseIterator d1 it1, [])
     | Some x \<Rightarrow> do {
         e \<leftarrow> get_entry d1 x;
         (d2, es) \<leftarrow> iterate n d1 it1;
         Some (d2, e # es)
       }
   }"

lemma iterate_ok:
  "dict_ok d \<Longrightarrow> iter_ok d it \<Longrightarrow> length (iter_rest d it) < n \<Longrightarrow>
   \<exists>d'. iterate n d it = Some (d', iter_rest d it) \<and> same_tables d d'"
proof (induction n arbitrary: d it)
  case (Suc n)
  obtain d1 it1 r where s: "dictNext d it = Some (d1, it1, r)" "same_tables d d1" "iter_ok d1 it1"
    "case iter_rest d it of
       [] \<Rightarrow> r = None
     | e # es \<Rightarrow> \<exists>x. r = Some x \<and> get_entry d1 x = Some e \<and> iter_rest d1 it1 = es"
    using dictNext_ok [OF Suc.prems(1,2)] by (auto simp: iter_step_def)
  have ok1: "dict_ok d1" using s(2) Suc.prems(1) by (auto simp: same_tables_def)
  show ?case
  proof (cases "iter_rest d it")
    case Nil
    then show ?thesis using s by (auto simp: dictReleaseIterator_def same_tables_def)
  next
    case (Cons e es)
    then obtain x where x: "r = Some x" "get_entry d1 x = Some e" "iter_rest d1 it1 = es" using s(4) by auto
    obtain d2 where "iterate n d1 it1 = Some (d2, es)" "same_tables d1 d2"
      using Suc.IH [OF ok1 s(3)] Suc.prems(3) Cons x(3) by auto
    then show ?thesis using s(1,2) x Cons by (auto simp: same_tables_def)
  qed
qed simp

lemma fresh_iterator:
  assumes "dict_ok d" and "it = dictGetIterator \<or> it = dictGetSafeIterator"
  shows "iter_ok d it \<and> iter_rest d it = entries d"
proof -
  have "\<not> dictIsRehashing d \<Longrightarrow> ht_table (ht1 d) = []"
    using assms(1) by (auto simp: dict_ok_def dictIsRehashing_def u_dictReset_def)
  then show ?thesis
    using assms(2)
    by (auto simp: iter_ok_def iter_rest_def dictGetIterator_def dictGetSafeIterator_def entries_def ht_of_def)
qed

subsection \<open>The interface for clients\<close>

text \<open>What the users of a dictionary rely on, whatever it does with its tables in between.\<close>

locale assoc_store =
  fixes ok :: "'m \<Rightarrow> bool"
    and look :: "'m \<Rightarrow> 'k \<Rightarrow> 'v option"
    and fetch :: "'m \<Rightarrow> 'k \<Rightarrow> ('m \<times> 'v option) option"
    and add :: "'m \<Rightarrow> 'k \<Rightarrow> 'v \<Rightarrow> ('m \<times> dict_status) option"
    and replace :: "'m \<Rightarrow> 'k \<Rightarrow> 'v \<Rightarrow> ('m \<times> bool) option"
    and delete :: "'m \<Rightarrow> 'k \<Rightarrow> ('m \<times> dict_status) option"
  assumes fetch_law: "ok m \<Longrightarrow> \<exists>m'. fetch m k = Some (m', look m k) \<and> ok m' \<and> look m' = look m"
    and add_law: "ok m \<Longrightarrow> \<exists>m'. add m k v = Some (m', if look m k = None then DICT_OK else DICT_ERR) \<and>
        ok m' \<and> look m' = (if look m k = None then (look m)(k \<mapsto> v) else look m)"
    and replace_law: "ok m \<Longrightarrow> \<exists>m'. replace m k v = Some (m', look m k = None) \<and> ok m' \<and>
        look m' = (look m)(k \<mapsto> v)"
    and delete_law: "ok m \<Longrightarrow> \<exists>m'. delete m k = Some (m', if look m k = None then DICT_ERR else DICT_OK) \<and>
        ok m' \<and> look m' = (look m)(k := None)"
begin

lemma fetch_after_replace:
  assumes "ok m"
  shows "\<exists>m1 b m2. replace m k v = Some (m1, b) \<and> fetch m1 j = Some (m2, if j = k then Some v else look m j)"
proof -
  obtain m1 where m1: "replace m k v = Some (m1, look m k = None)" "ok m1" "look m1 = (look m)(k \<mapsto> v)"
    using replace_law [OF assms] by blast
  then show ?thesis using fetch_law [OF m1(2), of j] by auto
qed

lemma delete_after_add:
  assumes "ok m" and "look m k = None"
  shows "\<exists>m1 m2. add m k v = Some (m1, DICT_OK) \<and> delete m1 k = Some (m2, DICT_OK) \<and> ok m2 \<and> look m2 = look m"
proof -
  obtain m1 where m1: "add m k v = Some (m1, DICT_OK)" "ok m1" "look m1 = (look m)(k \<mapsto> v)"
    using add_law [OF assms(1), of k v] assms(2) by auto
  then show ?thesis using delete_law [OF m1(2), of k] assms(2) by (auto simp: fun_upd_idem)
qed

end

text \<open>Dictionaries whose keys compare by equality and that store values as they are.\<close>

definition plain_ok :: "('k, 'v) dict \<Rightarrow> bool" where
  "plain_ok d \<longleftrightarrow> dict_ok d \<and> keys_eq (dtype d) = (=) \<and> valDup (dtype d) = None"

interpretation ds: assoc_store plain_ok lookup dictFetchValue "dictAdd cr" "dictReplace cr" dictDelete
  for cr
proof (unfold_locales, goal_cases)
  case (1 d k)
  then show ?case using fetch_ok [of d k] by (auto simp: plain_ok_def)
next
  case (2 d k v)
  then show ?case using add_ok [of d cr k v] by (auto simp: plain_ok_def dup_with_def fun_eq_iff)
next
  case (3 d k v)
  then show ?case using replace_ok [of d cr k v] by (auto simp: plain_ok_def dup_with_def fun_eq_iff)
next
  case (4 d k)
  then show ?case using genericDelete_ok [of d k False]
    by (auto simp: plain_ok_def dictDelete_def fun_eq_iff)
qed

subsection \<open>Properties\<close>

lemma create_ok: "type_ok ty \<Longrightarrow> dict_ok (dictCreate ty) \<and> lookup (dictCreate ty) = Map.empty"
  by (simp add: dict_ok_def dictCreate_def u_dictReset_def ht_ok_def entries_def keys_distinct_def
      lookup_def fun_eq_iff)

text \<open>A dictionary with integer keys for the examples.\<close>

definition sample_type :: "(nat, nat) dictType" where
  "sample_type = \<lparr>hashFunction = of_nat, keyDup = None, valDup = None, keyCompare = None,
     keyDestructor = True, valDestructor = True\<rparr>"

lemma sample_type_ok: "type_ok sample_type"
  by (auto simp: type_ok_def keys_eq_def sample_type_def dup_with_def)

lemma sample_type_simps:
  "keys_eq sample_type = (=)" "dup_with (valDup sample_type) v = v" "valDestructor sample_type"
  by (simp_all add: keys_eq_def sample_type_def dup_with_def fun_eq_iff)

lemma sample_dict:
  obtains d where "dictAdd True (dictCreate sample_type) 1 10 = Some (d, DICT_OK)" and "dict_ok d"
    and "lookup d = [1 \<mapsto> 10]" and "dtype d = sample_type" and "destroyed d = []"
proof -
  have c: "dict_ok (dictCreate sample_type)" "lookup (dictCreate sample_type) = Map.empty"
    "dtype (dictCreate sample_type) = sample_type" "destroyed (dictCreate sample_type) = []"
    using create_ok [OF sample_type_ok] by (auto simp: dictCreate_def)
  from add_ok [OF c(1), of True 1 10] obtain d where
    "dictAdd True (dictCreate sample_type) 1 10 = Some (d, DICT_OK)" "dict_ok d" "dtype d = sample_type"
    "destroyed d = []" "lookup d = (\<lambda>j. if j = 1 then Some 10 else None)"
    unfolding c sample_type_simps by auto
  moreover from this have "lookup d = [1 \<mapsto> 10]" by (simp add: fun_eq_iff)
  ultimately show thesis using that by blast
qed

text \<open>C6. Any number of rehashing steps stays inside the tables, passes its assertion, keeps the
  invariant and the entries, and with more steps than there are entries in the old table the
  rehashing is over.\<close>

theorem dictRehash_preserves:
  assumes "dict_ok d"
  shows "\<exists>d' more. dictRehash d n = Some (d', more) \<and> dict_ok d' \<and> lookup d' = lookup d \<and>
    mset (entries d') = mset (entries d) \<and>
    (ht_used (ht0 d) < n \<longrightarrow> \<not> more) \<and> (\<not> more \<longrightarrow> \<not> dictIsRehashing d')"
proof -
  obtain d' more where r: "dictRehash d n = Some (d', more)" "same_dict d d'"
    "more \<longrightarrow> ht_used (ht0 d') + n \<le> ht_used (ht0 d)" "\<not> more \<longrightarrow> \<not> dictIsRehashing d'"
    using dictRehash_ok [OF assms] by blast
  then show ?thesis
    using same_dict_lookup [OF assms r(2)] by (auto simp: same_dict_def)
qed

theorem dictRehash_preserves_witness:
  "\<exists>d d' more. dictAdd True (dictCreate sample_type) 1 10 = Some (d, DICT_OK) \<and>
    dictRehash d 2 = Some (d', more) \<and> lookup d' = [1 \<mapsto> 10]"
proof (rule sample_dict)
  fix d assume "dictAdd True (dictCreate sample_type) 1 10 = Some (d, DICT_OK)" "dict_ok d"
    "lookup d = [1 \<mapsto> 10]"
  then show ?thesis using dictRehash_preserves [of d 2] by metis
qed

text \<open>A lookup returns the value of the key in the map the dictionary stands for, and keeps that
  map and the invariant although it may move entries between the tables.\<close>

theorem dictFetchValue_correct:
  assumes "dict_ok d"
  shows "\<exists>d'. dictFetchValue d k = Some (d', lookup d k) \<and> dict_ok d' \<and> lookup d' = lookup d"
  using fetch_ok [OF assms, of k] by blast

theorem dictFetchValue_correct_witness:
  "\<exists>d d'. dictAdd True (dictCreate sample_type) 1 10 = Some (d, DICT_OK) \<and>
    dictFetchValue d 1 = Some (d', Some 10)"
proof (rule sample_dict)
  fix d assume "dictAdd True (dictCreate sample_type) 1 10 = Some (d, DICT_OK)" "dict_ok d"
    "lookup d = [1 \<mapsto> 10]"
  then show ?thesis using dictFetchValue_correct [of d 1] by auto
qed

text \<open>\<^verbatim>\<open>dictAdd\<close> adds a new key, refuses a key that is present, and keeps everything else, through
  expansion and rehashing, whether resizing is allowed or not.\<close>

theorem dictAdd_correct:
  assumes "dict_ok d"
  shows "\<exists>d'. dictAdd can_resize d k v = Some (d', if lookup d k = None then DICT_OK else DICT_ERR) \<and>
    dict_ok d' \<and> destroyed d' = destroyed d \<and>
    lookup d' = (if lookup d k = None
      then (\<lambda>j. if keys_eq (dtype d) j k then Some (dup_with (valDup (dtype d)) v) else lookup d j)
      else lookup d)"
  using add_ok [OF assms, of can_resize k v] by blast

theorem dictAdd_correct_witness:
  "\<exists>d d'. dictAdd True (dictCreate sample_type) 1 10 = Some (d, DICT_OK) \<and>
    dictAdd False d 2 20 = Some (d', DICT_OK) \<and> lookup d' 1 = Some 10 \<and> lookup d' 2 = Some 20"
proof (rule sample_dict)
  fix d assume "dictAdd True (dictCreate sample_type) 1 10 = Some (d, DICT_OK)" "dict_ok d"
    "lookup d = [1 \<mapsto> 10]" "dtype d = sample_type"
  then show ?thesis
    using dictAdd_correct [of d False 2 20] by (auto simp: sample_type_simps)
qed

text \<open>\<^verbatim>\<open>dictReplace\<close> sets the value of the key, reports whether the key is new, and hands the old
  value, and nothing else, to the value destructor.\<close>

theorem dictReplace_correct:
  assumes "dict_ok d"
  shows "\<exists>d'. dictReplace can_resize d k v = Some (d', lookup d k = None) \<and> dict_ok d' \<and>
    destroyed d' = destroyed d @
      (case lookup d k of Some old \<Rightarrow> if valDestructor (dtype d) then [Inr old] else [] | None \<Rightarrow> []) \<and>
    lookup d' =
      (\<lambda>j. if keys_eq (dtype d) j k then Some (dup_with (valDup (dtype d)) v) else lookup d j)"
  using replace_ok [OF assms, of can_resize k v] by blast

theorem dictReplace_correct_witness:
  "\<exists>d d'. dictAdd True (dictCreate sample_type) 1 10 = Some (d, DICT_OK) \<and>
    dictReplace True d 1 30 = Some (d', False) \<and> lookup d' 1 = Some 30 \<and> destroyed d' = [Inr 10]"
proof (rule sample_dict)
  fix d assume "dictAdd True (dictCreate sample_type) 1 10 = Some (d, DICT_OK)" "dict_ok d"
    "lookup d = [1 \<mapsto> 10]" "dtype d = sample_type" "destroyed d = []"
  then show ?thesis
    using dictReplace_correct [of d True 1 30] by (auto simp: sample_type_simps)
qed

text \<open>\<^verbatim>\<open>dictDelete\<close> removes the key and no other, and reports whether it was there.\<close>

theorem dictDelete_correct:
  assumes "dict_ok d"
  shows "\<exists>d'. dictDelete d k = Some (d', if lookup d k = None then DICT_ERR else DICT_OK) \<and>
    dict_ok d' \<and> lookup d' = (\<lambda>j. if keys_eq (dtype d) j k then None else lookup d j)"
  using genericDelete_ok [OF assms, of k False] unfolding dictDelete_def by blast

theorem dictDelete_correct_witness:
  "\<exists>d d'. dictAdd True (dictCreate sample_type) 1 10 = Some (d, DICT_OK) \<and>
    dictDelete d 1 = Some (d', DICT_OK) \<and> lookup d' 1 = None"
proof (rule sample_dict)
  fix d assume "dictAdd True (dictCreate sample_type) 1 10 = Some (d, DICT_OK)" "dict_ok d"
    "lookup d = [1 \<mapsto> 10]" "dtype d = sample_type"
  then show ?thesis
    using dictDelete_correct [of d 1] by (auto simp: sample_type_simps)
qed

text \<open>C20. Iterating over a dictionary, also in the middle of a rehashing, ends and returns every entry
  exactly once, and the tables do not change.\<close>

theorem dict_iteration_complete:
  assumes "dict_ok d" and "it = dictGetIterator \<or> it = dictGetSafeIterator" and "dictSize d < n"
  shows "\<exists>d'. iterate n d it = Some (d', entries d) \<and> same_tables d d'"
proof -
  have "length (entries d) = dictSize d"
    using assms(1) by (simp add: dict_ok_def ht_ok_def entries_def dictSize_def)
  then show ?thesis
    using fresh_iterator [OF assms(1,2)] iterate_ok [OF assms(1), of it n] assms(3) by simp
qed

theorem dict_iteration_complete_witness:
  "\<exists>d'. iterate 1 (dictCreate sample_type) dictGetSafeIterator = Some (d', []) \<and>
     same_tables (dictCreate sample_type) d'"
  using dict_iteration_complete [of "dictCreate sample_type" dictGetSafeIterator 1] create_ok [OF sample_type_ok]
  by (simp add: dictSize_def dictCreate_def u_dictReset_def entries_def)

end
