(* ===== verification/Object.thy ===== *)
theory Object
  imports Sds
begin

section \<open>String objects (\<^verbatim>\<open>object.c\<close>)\<close>

text \<open>
  A string object is raw (a dynamic string, here its content) or integer-encoded (the pointer field
  holds a \<^verbatim>\<open>long\<close>).  The first 10000 integers have preallocated shared objects.  The functions
  below are those of \<^verbatim>\<open>object.c\<close> that create, convert, compare and read string objects; the
  containers' constructors and the reference counting of shared objects are not modelled, nor is
  anything about floating point numbers.
\<close>

datatype str_val = EncRaw string | EncInt int

record robj =
  o_ptr :: str_val
  o_refcount :: int
  o_lru :: nat

definition REDIS_SHARED_INTEGERS :: int where "REDIS_SHARED_INTEGERS = 10000"

text \<open>What a function that may return a shared integer returns.\<close>

datatype obj_ref = SharedInteger int | Own robj

definition createObject :: "nat \<Rightarrow> str_val \<Rightarrow> robj" where
  "createObject lruclock p = \<lparr>o_ptr = p, o_refcount = 1, o_lru = lruclock\<rparr>"

definition createStringObject :: "nat \<Rightarrow> string \<Rightarrow> robj" where
  "createStringObject lruclock t = createObject lruclock (EncRaw t)"

definition createStringObjectFromLongLong :: "nat \<Rightarrow> int \<Rightarrow> obj_ref option" where
  "createStringObjectFromLongLong lruclock value =
     (if value \<ge> 0 \<and> value < REDIS_SHARED_INTEGERS then Some (SharedInteger value)
      else if value \<ge> LLONG_MIN \<and> value \<le> LLONG_MAX then Some (Own (createObject lruclock (EncInt value)))
      else do { s \<leftarrow> sdsfromlonglong value; Some (Own (createObject lruclock (EncRaw (sds_str s)))) })"

definition dupStringObject :: "nat \<Rightarrow> robj \<Rightarrow> robj option" where
  "dupStringObject lruclock ob =
     (case o_ptr ob of EncRaw t \<Rightarrow> Some (createStringObject lruclock t) | EncInt _ \<Rightarrow> None)"

definition isObjectRepresentableAsLongLong :: "robj \<Rightarrow> int option" where
  "isObjectRepresentableAsLongLong ob = (case o_ptr ob of EncInt v \<Rightarrow> Some v | EncRaw t \<Rightarrow> string2ll t)"

text \<open>\<open>maxmemory\<close> says whether a memory limit is configured: shared integers have no LRU time of
  their own.\<close>

definition tryObjectEncoding :: "bool \<Rightarrow> robj \<Rightarrow> obj_ref" where
  "tryObjectEncoding maxmemory ob =
     (case o_ptr ob of
        EncInt _ \<Rightarrow> Own ob
      | EncRaw s \<Rightarrow>
          if o_refcount ob > 1 then Own ob
          else case string2l s of
            None \<Rightarrow> Own ob
          | Some value \<Rightarrow>
              if \<not> maxmemory \<and> value \<ge> 0 \<and> value < REDIS_SHARED_INTEGERS then SharedInteger value
              else Own (ob\<lparr>o_ptr := EncInt value\<rparr>))"

definition getDecodedObject :: "nat \<Rightarrow> robj \<Rightarrow> robj" where
  "getDecodedObject lruclock ob =
     (case o_ptr ob of
        EncRaw _ \<Rightarrow> ob\<lparr>o_refcount := o_refcount ob + 1\<rparr>
      | EncInt v \<Rightarrow> createStringObject lruclock (snd (ll2string 32 v)))"

definition strcmp :: "string \<Rightarrow> string \<Rightarrow> int" where
  "strcmp a b = memcmp (cstr (takeWhile (\<lambda>c. c \<noteq> NUL) a)) (cstr (takeWhile (\<lambda>c. c \<noteq> NUL) b))"

definition str_cmp :: "string \<Rightarrow> string \<Rightarrow> int" where
  "str_cmp a b =
     (let l1 = length a; l2 = length b; minlen = (if l1 < l2 then l1 else l2);
          cmp = memcmp (take minlen a) (take minlen b)
      in if cmp = 0 then int l1 - int l2 else cmp)"

text \<open>\<open>same\<close> is the test \<open>a == b\<close> on the pointers.\<close>

definition compareStringObjects :: "bool \<Rightarrow> robj \<Rightarrow> robj \<Rightarrow> int" where
  "compareStringObjects same a b =
     (if same then 0
      else case (o_ptr a, o_ptr b) of
        (EncRaw s, EncRaw t) \<Rightarrow> str_cmp s t
      | (EncRaw s, EncInt w) \<Rightarrow> strcmp s (snd (ll2string 128 w))
      | (EncInt v, EncRaw t) \<Rightarrow> strcmp (snd (ll2string 128 v)) t
      | (EncInt v, EncInt w) \<Rightarrow> strcmp (snd (ll2string 128 v)) (snd (ll2string 128 w)))"

definition equalStringObjects :: "bool \<Rightarrow> robj \<Rightarrow> robj \<Rightarrow> bool" where
  "equalStringObjects same a b =
     (case (o_ptr a, o_ptr b) of
        (EncInt v, EncInt w) \<Rightarrow> v = w
      | _ \<Rightarrow> compareStringObjects same a b = 0)"

definition stringObjectLen :: "robj \<Rightarrow> nat" where
  "stringObjectLen ob = (case o_ptr ob of EncRaw s \<Rightarrow> length s | EncInt v \<Rightarrow> fst (ll2string 32 v))"

text \<open>\<open>strtoll(s,&eptr,10)\<close>: the value, what \<^verbatim>\<open>eptr\<close> points to (before the NUL) and whether \<^verbatim>\<open>errno\<close> is
  \<^verbatim>\<open>ERANGE\<close>.\<close>

definition strtoll_end :: "string \<Rightarrow> int \<times> string \<times> bool" where
  "strtoll_end s0 =
     (let s = takeWhile (\<lambda>c. c \<noteq> NUL) s0;
          t = dropWhile isspace s;
          neg = (t \<noteq> [] \<and> hd t = CHR ''-'');
          u = (if t \<noteq> [] \<and> (hd t = CHR ''-'' \<or> hd t = CHR ''+'') then tl t else t);
          ds = takeWhile isdigit u;
          v = (if neg then - decimal_value ds else decimal_value ds)
      in if ds = [] then (0, s, False)
         else (if v < LLONG_MIN then LLONG_MIN else if v > LLONG_MAX then LLONG_MAX else v,
               dropWhile isdigit u, \<not> is_llong v))"

definition getLongLongFromObject :: "robj option \<Rightarrow> int option" where
  "getLongLongFromObject ob =
     (case ob of
        None \<Rightarrow> Some 0
      | Some r \<Rightarrow>
          (case o_ptr r of
             EncInt v \<Rightarrow> Some v
           | EncRaw s \<Rightarrow>
               (case strtoll_end s of (value, eptr, erange) \<Rightarrow>
                  if (s \<noteq> [] \<and> isspace (hd s)) \<or> eptr \<noteq> [] \<or> erange then None else Some value)))"

text \<open>The value or the error the client gets.\<close>

definition getLongLongFromObjectOrReply :: "robj option \<Rightarrow> string option \<Rightarrow> string + int" where
  "getLongLongFromObjectOrReply ob msg =
     (case getLongLongFromObject ob of
        None \<Rightarrow> Inl (case msg of Some m \<Rightarrow> m | None \<Rightarrow> ''value is not an integer or out of range'')
      | Some v \<Rightarrow> Inr v)"

definition getLongFromObjectOrReply :: "robj option \<Rightarrow> string option \<Rightarrow> string + int" where
  "getLongFromObjectOrReply ob msg =
     (case getLongLongFromObjectOrReply ob msg of
        Inl e \<Rightarrow> Inl e
      | Inr v \<Rightarrow>
          if v < LLONG_MIN \<or> v > LLONG_MAX
          then Inl (case msg of Some m \<Rightarrow> m | None \<Rightarrow> ''value is out of range'')
          else Inr v)"

definition REDIS_LRU_CLOCK_MAX :: nat where "REDIS_LRU_CLOCK_MAX = 2 ^ 21 - 1"

definition REDIS_LRU_CLOCK_RESOLUTION :: nat where "REDIS_LRU_CLOCK_RESOLUTION = 10"

definition estimateObjectIdleTime :: "nat \<Rightarrow> robj \<Rightarrow> nat" where
  "estimateObjectIdleTime lruclock ob =
     (if lruclock \<ge> o_lru ob then (lruclock - o_lru ob) * REDIS_LRU_CLOCK_RESOLUTION
      else ((REDIS_LRU_CLOCK_MAX - o_lru ob) + lruclock) * REDIS_LRU_CLOCK_RESOLUTION)"

subsection \<open>The text a string object stands for\<close>

definition val_text :: "str_val \<Rightarrow> string" where
  "val_text v = (case v of EncRaw s \<Rightarrow> s | EncInt n \<Rightarrow> ll_repr n)"

definition ref_obj :: "obj_ref \<Rightarrow> robj" where
  "ref_obj r = (case r of Own ob \<Rightarrow> ob
     | SharedInteger n \<Rightarrow> \<lparr>o_ptr = EncInt n, o_refcount = 1, o_lru = 0\<rparr>)"

definition robj_ok :: "robj \<Rightarrow> bool" where
  "robj_ok ob \<longleftrightarrow> (case o_ptr ob of EncRaw _ \<Rightarrow> True | EncInt n \<Rightarrow> is_llong n)"

lemma ll_repr_NUL: "NUL \<notin> set (ll_repr v)"
proof -
  have "NUL \<notin> set (ll2string_loop w [])" if "0 \<le> w" for w
    using ll2string_loop_digits [OF that] by (auto simp: list_all_iff isdigit_def)
  then show ?thesis by (auto simp: ll_repr_def)
qed

lemma strtoll_end_ll_repr: "is_llong v \<Longrightarrow> strtoll_end (ll_repr v) = (v, [], False)"
proof -
  assume v: "is_llong v"
  have tw: "takeWhile (\<lambda>c. c \<noteq> NUL) (ll_repr v) = ll_repr v"
    using ll_repr_NUL [of v] by (auto intro: takeWhile_eq_all_conv [THEN iffD2])
  define d where "d = ll2string_loop \<bar>v\<bar> []"
  have d: "list_all isdigit d" "decimal_value d = \<bar>v\<bar>"
    using ll2string_loop_digits [of "\<bar>v\<bar>"] by (simp_all add: d_def decimal_value_def)
  have "d \<noteq> []" using d(2) ll2string_loop_hd [of "\<bar>v\<bar>"]
    by (cases "v = 0") (auto simp: d_def ll2string_loop_step)
  then obtain c q where dc: "d = c # q" by (cases d) auto
  then have c: "isdigit c" using d(1) by simp
  then have "\<not> isspace c" "c \<noteq> CHR ''-''" "c \<noteq> CHR ''+''" by (auto simp: isdigit_def isspace_def)
  moreover have q: "takeWhile isdigit q = q" "dropWhile isdigit q = []"
    using d(1) dc by (simp_all add: list_all_iff)
  moreover have "\<not> isspace (CHR ''-'')" by (simp add: isspace_def)
  moreover have "ll_repr v = (if v < 0 then CHR ''-'' # d else d)" by (simp add: ll_repr_def d_def)
  ultimately show ?thesis
    using v c d dc unfolding strtoll_end_def tw Let_def by (auto simp: crange_simps q list_all_iff)
qed

lemma ll_repr_inj: "is_llong v \<Longrightarrow> is_llong w \<Longrightarrow> ll_repr v = ll_repr w \<longleftrightarrow> v = w"
  by (metis option.inject string2ll_ll_repr)

lemma ll_repr_hd: "is_llong v \<Longrightarrow> ll_repr v \<noteq> [] \<and> \<not> isspace (hd (ll_repr v))"
proof -
  assume "is_llong v"
  have d: "list_all isdigit (ll2string_loop \<bar>v\<bar> [])" using ll2string_loop_digits [of "\<bar>v\<bar>"] by simp
  have "ll2string_loop \<bar>v\<bar> [] \<noteq> []"
    using ll2string_loop_hd [of "\<bar>v\<bar>"] by (cases "v = 0") (auto simp: ll2string_loop_step)
  with d show ?thesis
    by (cases "ll2string_loop \<bar>v\<bar> []") (auto simp: ll_repr_def isspace_def isdigit_def split: if_splits)
qed

lemma getLongLong_ll_repr: "is_llong v \<Longrightarrow> o_ptr r = EncRaw (ll_repr v) \<Longrightarrow> getLongLongFromObject (Some r) = Some v"
  using ll_repr_hd [of v] by (simp add: getLongLongFromObject_def strtoll_end_ll_repr)

lemma memcmp_cstr:
  "NUL \<notin> set a \<Longrightarrow> NUL \<notin> set b \<Longrightarrow> memcmp (cstr a) (cstr b) = 0 \<longleftrightarrow> a = b"
proof (induction a arbitrary: b)
  case Nil
  then show ?case by (cases b) (auto simp: cstr_def)
next
  case (Cons x a)
  then show ?case by (cases b) (auto simp: cstr_def)
qed

lemma strcmp_eq_0: "strcmp a b = 0 \<longleftrightarrow> takeWhile (\<lambda>c. c \<noteq> NUL) a = takeWhile (\<lambda>c. c \<noteq> NUL) b"
  unfolding strcmp_def by (rule memcmp_cstr) (auto dest: set_takeWhileD)

lemma str_cmp_eq_0: "str_cmp a b = 0 \<longleftrightarrow> a = b"
proof -
  let ?n = "if length a < length b then length a else length b"
  have "memcmp (take ?n a) (take ?n b) = 0 \<longleftrightarrow> take ?n a = take ?n b"
    by (rule memcmp_eq_0) simp
  then show ?thesis by (auto simp: str_cmp_def Let_def split: if_splits)
qed

lemma str_cmp_sdscmp:
  "sds_ok s \<Longrightarrow> sds_ok t \<Longrightarrow> sdscmp s t = str_cmp (sds_str s) (sds_str t)"
proof -
  assume "sds_ok s" "sds_ok t"
  then have "length (sds_str s) = sds_len s" "length (sds_str t) = sds_len t"
    by (simp_all add: length_sds_str)
  moreover have "take n (sds_str s) = take n (buf s)" if "n \<le> sds_len s" for n and s :: sdshdr
    using that by (simp add: sds_str_def min_def)
  ultimately show ?thesis by (simp add: sdscmp_def str_cmp_def Let_def)
qed

subsection \<open>Properties\<close>

lemma encode_keeps_text:
  assumes "robj_ok ob"
  shows "let ob' = ref_obj (tryObjectEncoding maxmemory ob) in
    robj_ok ob' \<and> val_text (o_ptr ob') = val_text (o_ptr ob) \<and>
    getLongLongFromObject (Some ob') = getLongLongFromObject (Some ob)"
proof (cases "o_ptr ob")
  case (EncInt v)
  then show ?thesis using assms by (simp add: tryObjectEncoding_def ref_obj_def)
next
  case (EncRaw s)
  show ?thesis
  proof (cases "o_refcount ob > 1 \<or> string2l s = None")
    case True
    then show ?thesis using assms EncRaw
      by (auto simp: tryObjectEncoding_def ref_obj_def split: option.splits)
  next
    case False
    then obtain v where v: "string2l s = Some v" by auto
    then have s: "is_llong v" "s = ll_repr v"
      using string2ll_Some_repr [of s] by (auto simp: string2l_def split: option.splits if_splits)
    have "o_ptr (ref_obj (tryObjectEncoding maxmemory ob)) = EncInt v"
      using False EncRaw v by (simp add: tryObjectEncoding_def ref_obj_def)
    then show ?thesis
      using s EncRaw getLongLong_ll_repr [OF s(1), of ob]
      by (simp add: robj_ok_def val_text_def getLongLongFromObject_def Let_def)
  qed
qed

text \<open>C21. Encoding a string object to save memory changes neither the text it stands for nor the
  number it is read as.\<close>

theorem tryObjectEncoding_keeps_text:
  assumes "robj_ok ob"
  shows "let ob' = ref_obj (tryObjectEncoding maxmemory ob) in
    robj_ok ob' \<and> val_text (o_ptr ob') = val_text (o_ptr ob) \<and>
    getLongLongFromObject (Some ob') = getLongLongFromObject (Some ob)"
  using assms by (rule encode_keeps_text)

theorem tryObjectEncoding_keeps_text_witness:
  "val_text (o_ptr (ref_obj (tryObjectEncoding False (createStringObject 0 ''-15'')))) = ''-15''"
  using tryObjectEncoding_keeps_text [of "createStringObject 0 ''-15''" False]
  by (simp add: createStringObject_def createObject_def robj_ok_def val_text_def Let_def)

text \<open>For objects whose raw texts hold no NUL byte, comparing for equality decides whether the texts
  are equal, in every combination of encodings.\<close>

theorem equalStringObjects_decides:
  assumes "robj_ok a" and "robj_ok b" and "same \<Longrightarrow> o_ptr a = o_ptr b"
    and "NUL \<notin> set (val_text (o_ptr a))" and "NUL \<notin> set (val_text (o_ptr b))"
  shows "equalStringObjects same a b \<longleftrightarrow> val_text (o_ptr a) = val_text (o_ptr b)"
proof -
  have tw: "takeWhile (\<lambda>c. c \<noteq> NUL) s = s" if "NUL \<notin> set s" for s :: string
    using that by (auto intro: takeWhile_eq_all_conv [THEN iffD2])
  have "equalStringObjects same a b \<longleftrightarrow> val_text (o_ptr a) = val_text (o_ptr b)" if "same"
    using assms(3) [OF that] that
    by (cases "o_ptr b") (simp_all add: equalStringObjects_def compareStringObjects_def)
  moreover have "equalStringObjects same a b \<longleftrightarrow> val_text (o_ptr a) = val_text (o_ptr b)" if "\<not> same"
    using that assms(1,2,4,5)
    by (cases "o_ptr a"; cases "o_ptr b")
       (simp_all add: equalStringObjects_def compareStringObjects_def val_text_def robj_ok_def
          strcmp_eq_0 str_cmp_eq_0 ll2string_eq ll_repr_inj tw)
  ultimately show ?thesis by blast
qed

theorem equalStringObjects_decides_witness:
  "equalStringObjects False (createStringObject 0 ''12'') (createObject 0 (EncInt 12)) \<longleftrightarrow>
   ''12'' = ll_repr 12"
  using equalStringObjects_decides [of "createStringObject 0 ''12''" "createObject 0 (EncInt 12)" False]
    ll_repr_NUL [of 12]
  by (simp add: createStringObject_def createObject_def robj_ok_def val_text_def crange_simps)

text \<open>When one object is integer-encoded the comparison stops at a NUL byte of the other: a text
  that goes on after the NUL is taken for equal to the number.\<close>

theorem equalStringObjects_stops_at_NUL:
  "is_llong v \<Longrightarrow>
   equalStringObjects False (createObject l (EncInt v)) (createStringObject l (ll_repr v @ NUL # rest))"
  by (simp add: equalStringObjects_def compareStringObjects_def createObject_def
      createStringObject_def strcmp_eq_0 ll2string_eq ll_repr_NUL takeWhile_append)

theorem equalStringObjects_stops_at_NUL_witness:
  "equalStringObjects False (createObject 0 (EncInt 7)) (createStringObject 0 (ll_repr 7 @ NUL # ''x''))"
  using equalStringObjects_stops_at_NUL [of 7 0 "''x''"] by (simp add: crange_simps)

end
