(* ===== verification/Slowlog.thy ===== *)
theory Slowlog
  imports Adlist Object
begin

section \<open>The slow log (\<^verbatim>\<open>slowlog.c\<close>)\<close>

text \<open>
  The log is a linked list of entries, newest first, with a running identifier and two
  configuration values.  The arguments of an entry are the texts of its objects: an integer-encoded
  argument is never longer than the limit, so the test on the encoding does not matter.
\<close>

definition SLOWLOG_ENTRY_MAX_ARGC :: nat where "SLOWLOG_ENTRY_MAX_ARGC = 32"

definition SLOWLOG_ENTRY_MAX_STRING :: nat where "SLOWLOG_ENTRY_MAX_STRING = 128"

record slowlogEntry =
  se_argv :: "string list"
  se_id :: int
  se_duration :: int
  se_time :: int

record slowlog =
  sl_heap :: "slowlogEntry heap"
  sl_list :: "slowlogEntry adlist"
  sl_entry_id :: int
  sl_log_slower_than :: int
  sl_max_len :: nat

text \<open>The argument at position \<open>j\<close>: the last one kept says how many were dropped, a long one how many
  bytes.\<close>

definition entry_arg :: "string list \<Rightarrow> nat \<Rightarrow> nat \<Rightarrow> string" where
  "entry_arg argv slargc j =
     (if slargc \<noteq> length argv \<and> j = slargc - 1 then
        ''... ('' @ ll_repr (int (length argv - slargc + 1)) @ '' more arguments)''
      else if length (argv ! j) > SLOWLOG_ENTRY_MAX_STRING then
        take SLOWLOG_ENTRY_MAX_STRING (argv ! j) @ ''... ('' @
          ll_repr (int (length (argv ! j) - SLOWLOG_ENTRY_MAX_STRING)) @ '' more bytes)''
      else argv ! j)"

definition slowlogCreateEntry ::
  "slowlog \<Rightarrow> string list \<Rightarrow> int \<Rightarrow> int \<Rightarrow> slowlogEntry \<times> slowlog" where
  "slowlogCreateEntry s argv duration now =
     (let slargc = (if length argv > SLOWLOG_ENTRY_MAX_ARGC then SLOWLOG_ENTRY_MAX_ARGC else length argv)
      in (\<lparr>se_argv = map (entry_arg argv slargc) [0..<slargc], se_id = sl_entry_id s,
           se_duration = duration, se_time = now\<rparr>,
          s\<lparr>sl_entry_id := sl_entry_id s + 1\<rparr>))"

definition slowlogInit :: "int \<Rightarrow> nat \<Rightarrow> slowlog" where
  "slowlogInit slower_than max_len =
     \<lparr>sl_heap = h_empty, sl_list = listCreate\<lparr>list_free := True\<rparr>, sl_entry_id = 0,
      sl_log_slower_than = slower_than, sl_max_len = max_len\<rparr>"

text \<open>The loop \<^verbatim>\<open>while (listLength(l) > n) listDelNode(l,listLast(l))\<close>.\<close>

partial_function (option) trim_loop ::
  "slowlogEntry heap \<times> slowlogEntry adlist \<Rightarrow> nat \<Rightarrow> (slowlogEntry heap \<times> slowlogEntry adlist) option" where
  "trim_loop hl n =
     (if n < list_len (snd hl)
      then listDelNode (fst hl) (snd hl) (list_tail (snd hl)) \<bind> (\<lambda>hl'. trim_loop hl' n)
      else Some hl)"

definition slowlogPushEntryIfNeeded ::
  "slowlog \<Rightarrow> string list \<Rightarrow> int \<Rightarrow> int \<Rightarrow> slowlog option" where
  "slowlogPushEntryIfNeeded s argv duration now =
     (if sl_log_slower_than s < 0 then Some s
      else do {
        s1 \<leftarrow> (if duration \<ge> sl_log_slower_than s then do {
                 let (se, s') = slowlogCreateEntry s argv duration now;
                 (h, l) \<leftarrow> listAddNodeHead (sl_heap s') (sl_list s') se;
                 Some (s'\<lparr>sl_heap := h, sl_list := l\<rparr>)
               } else Some s);
        (h, l) \<leftarrow> trim_loop (sl_heap s1, sl_list s1) (sl_max_len s1);
        Some (s1\<lparr>sl_heap := h, sl_list := l\<rparr>)
      })"

definition slowlogReset :: "slowlog \<Rightarrow> slowlog option" where
  "slowlogReset s = do {
     (h, l) \<leftarrow> trim_loop (sl_heap s, sl_list s) 0;
     Some (s\<lparr>sl_heap := h, sl_list := l\<rparr>)
   }"

text \<open>The \<^verbatim>\<open>SLOWLOG\<close> command, with what it replies.  The loop of \<^verbatim>\<open>SLOWLOG GET\<close> ends with the list when
  the count is negative.\<close>

datatype slowlog_reply =
    SL_Ok
  | SL_Int int
  | SL_Entries "slowlogEntry list"
  | SL_Error string

partial_function (option) get_loop ::
  "slowlogEntry heap \<Rightarrow> int \<Rightarrow> listIter \<Rightarrow> slowlogEntry list \<Rightarrow> slowlogEntry list option" where
  "get_loop h count li out =
     (if count = 0 then Some out
      else listNext h li \<bind> (\<lambda>(ln, li').
        case ln of
          None \<Rightarrow> Some out
        | Some a \<Rightarrow> h_get h (Some a) \<bind> (\<lambda>node. get_loop h (count - 1) li' (out @ [node_value node]))))"

definition slowlogCommand :: "slowlog \<Rightarrow> string list \<Rightarrow> (slowlog \<times> slowlog_reply) option" where
  "slowlogCommand s argv =
     (if length argv = 2 \<and> strcaseeq (argv ! 1) ''reset'' then do {
        s' \<leftarrow> slowlogReset s;
        Some (s', SL_Ok)
      }
      else if length argv = 2 \<and> strcaseeq (argv ! 1) ''len'' then Some (s, SL_Int (int (list_len (sl_list s))))
      else if (length argv = 2 \<or> length argv = 3) \<and> strcaseeq (argv ! 1) ''get'' then
        (case (if length argv = 3 then getLongFromObjectOrReply (Some (createStringObject 0 (argv ! 2))) None
               else Inr 10) of
           Inl e \<Rightarrow> Some (s, SL_Error e)
         | Inr count \<Rightarrow> do {
             es \<leftarrow> get_loop (sl_heap s) count (listRewind (sl_list s)) [];
             Some (s, SL_Entries es)
           })
      else Some (s, SL_Error ''Unknown SLOWLOG subcommand or wrong # of args. Try GET, RESET, LEN.''))"

subsection \<open>The log as a sequence of entries\<close>

definition slowlog_rep :: "slowlog \<Rightarrow> slowlogEntry list \<Rightarrow> bool" where
  "slowlog_rep s es \<longleftrightarrow> values_rep (sl_heap s, sl_list s) es"

interpretation slq: trimmed_queue values_rep "\<lambda>s v. listAddNodeHead (fst s) (snd s) v"
  "\<lambda>s. listDelNode (fst s) (snd s) (list_tail (snd s))" "\<lambda>s. list_len (snd s)" trim_loop
  by unfold_locales (subst trim_loop.simps, simp add: split_beta)

lemma init_rep: "slowlog_rep (slowlogInit t m) []"
  by (simp add: slowlog_rep_def values_rep_def list_rep_def slowlogInit_def h_empty_def listCreate_def heap_ok_def)

lemma push_rep:
  assumes "slowlog_rep s es" and "0 \<le> sl_log_slower_than s"
  shows "\<exists>s'. slowlogPushEntryIfNeeded s argv duration now = Some s' \<and>
    slowlog_rep s' (take (sl_max_len s)
      (if sl_log_slower_than s \<le> duration then fst (slowlogCreateEntry s argv duration now) # es else es)) \<and>
    sl_entry_id s' = sl_entry_id s + (if sl_log_slower_than s \<le> duration then 1 else 0) \<and>
    sl_max_len s' = sl_max_len s \<and> sl_log_slower_than s' = sl_log_slower_than s"
proof (cases "sl_log_slower_than s \<le> duration")
  case True
  let ?se = "fst (slowlogCreateEntry s argv duration now)"
  have c: "snd (slowlogCreateEntry s argv duration now) = s\<lparr>sl_entry_id := sl_entry_id s + 1\<rparr>"
    by (simp add: slowlogCreateEntry_def Let_def)
  obtain h l h' l' where "listAddNodeHead (sl_heap s) (sl_list s) ?se = Some (h, l)"
    "trim_loop (h, l) (sl_max_len s) = Some (h', l')" "values_rep (h', l') (take (sl_max_len s) (?se # es))"
    using slq.push_trim [of "(sl_heap s, sl_list s)" es ?se "sl_max_len s"] assms(1)
    by (auto simp: slowlog_rep_def)
  then show ?thesis
    using True assms(2) c
    by (auto simp: slowlogPushEntryIfNeeded_def slowlog_rep_def split_beta Let_def)
next
  case False
  obtain h' l' where "trim_loop (sl_heap s, sl_list s) (sl_max_len s) = Some (h', l')"
    "values_rep (h', l') (take (sl_max_len s) es)"
    using slq.trim_take [of "(sl_heap s, sl_list s)" es "sl_max_len s"] assms(1)
    by (auto simp: slowlog_rep_def)
  then show ?thesis
    using False assms(2) by (auto simp: slowlogPushEntryIfNeeded_def slowlog_rep_def)
qed

lemma get_loop_ok:
  "chain (cells h) p xs None \<Longrightarrow>
   get_loop h count \<lparr>iter_next = first xs None, iter_direction = AL_START_HEAD\<rparr> out =
   Some (out @ (if count < 0 then map snd xs else take (nat count) (map snd xs)))"
proof (induction xs arbitrary: p count out)
  case Nil
  then show ?case by (simp add: get_loop.simps listNext_def)
next
  case (Cons x xs)
  obtain a v where x: "x = (a, v)" by (cases x)
  have "get_loop h count \<lparr>iter_next = Some a, iter_direction = AL_START_HEAD\<rparr> out =
      (if count = 0 then Some out
       else get_loop h (count - 1) \<lparr>iter_next = first xs None, iter_direction = AL_START_HEAD\<rparr> (out @ [v]))"
    using Cons.prems by (subst get_loop.simps) (simp add: x listNext_def h_get_def)
  also have "\<dots> = Some (out @ (if count < 0 then map snd (x # xs) else take (nat count) (map snd (x # xs))))"
  proof (cases "count = 0")
    case False
    have "take (nat count) (v # map snd xs) = v # take (nat (count - 1)) (map snd xs)" if "0 < count"
      using that by (cases "nat count") (auto simp: nat_diff_distrib)
    then show ?thesis using False Cons.IH [of "Some a" "count - 1" "out @ [v]"] Cons.prems by (auto simp: x)
  qed simp
  finally show ?case by (simp add: x)
qed

text \<open>What is logged for a sequence of commands (arguments, duration, time), oldest first.\<close>

definition mk_entry :: "int \<Rightarrow> string list \<Rightarrow> int \<Rightarrow> int \<Rightarrow> slowlogEntry" where
  "mk_entry n argv duration now =
     (let slargc = min (length argv) SLOWLOG_ENTRY_MAX_ARGC in
      \<lparr>se_argv = map (entry_arg argv slargc) [0..<slargc], se_id = n, se_duration = duration, se_time = now\<rparr>)"

fun logged :: "int \<Rightarrow> int \<Rightarrow> (string list \<times> int \<times> int) list \<Rightarrow> slowlogEntry list" where
  "logged slower_than n [] = []"
| "logged slower_than n ((argv, duration, now) # cs) =
     (if slower_than \<le> duration then mk_entry n argv duration now # logged slower_than (n + 1) cs
      else logged slower_than n cs)"

lemma create_mk: "fst (slowlogCreateEntry s argv d now) = mk_entry (sl_entry_id s) argv d now"
  by (simp add: slowlogCreateEntry_def mk_entry_def Let_def min_def)

lemma take_Cons_take: "take m (x # take m xs) = take m (x # xs)"
  by (cases m) (simp_all add: min_def)

lemma push_sequence:
  assumes "slowlog_rep s (take (sl_max_len s) es)" and "0 \<le> sl_log_slower_than s"
  shows "\<exists>s'. run_option (\<lambda>s (argv, d, now). slowlogPushEntryIfNeeded s argv d now) s cs = Some s' \<and>
    slowlog_rep s' (take (sl_max_len s) (rev (logged (sl_log_slower_than s) (sl_entry_id s) cs) @ es))"
  using assms
proof (induction cs arbitrary: s es)
  case (Cons c cs)
  obtain argv d now where c: "c = (argv, d, now)" by (cases c)
  let ?es = "if sl_log_slower_than s \<le> d then mk_entry (sl_entry_id s) argv d now # es else es"
  obtain s1 where s1: "slowlogPushEntryIfNeeded s argv d now = Some s1"
    "slowlog_rep s1 (take (sl_max_len s) ?es)" "sl_max_len s1 = sl_max_len s"
    "sl_log_slower_than s1 = sl_log_slower_than s"
    "sl_entry_id s1 = sl_entry_id s + (if sl_log_slower_than s \<le> d then 1 else 0)"
    using push_rep [OF Cons.prems, of argv d now] unfolding create_mk
    by (auto simp: take_Cons_take split: if_splits)
  from Cons.IH [of s1 ?es] s1 Cons.prems(2) show ?case by (auto simp: c simp del: take_append)
qed auto

subsection \<open>Properties\<close>

text \<open>After any sequence of commands the log of a server that logs holds, newest first, the last
  \<^verbatim>\<open>slowlog-max-len\<close> commands that took at least the configured time, with consecutive identifiers.\<close>

theorem slowlog_keeps_newest:
  assumes "0 \<le> slower_than"
  shows "\<exists>s. run_option (\<lambda>s (argv, d, now). slowlogPushEntryIfNeeded s argv d now)
      (slowlogInit slower_than max_len) cs = Some s \<and>
    slowlog_rep s (take max_len (rev (logged slower_than 0 cs)))"
  using push_sequence [of "slowlogInit slower_than max_len" "[]" cs] init_rep [of slower_than max_len] assms
  by (simp add: slowlogInit_def)

theorem slowlog_keeps_newest_witness:
  "\<exists>s. run_option (\<lambda>s (argv, d, now). slowlogPushEntryIfNeeded s argv d now) (slowlogInit 100 1)
      [([''get''], 150, 7), ([''ping''], 3, 8), ([''set''], 200, 9)] = Some s \<and>
    slowlog_rep s [mk_entry 1 [''set''] 200 9]"
  using slowlog_keeps_newest [of 100 1 "[([''get''], 150, 7), ([''ping''], 3, 8), ([''set''], 200, 9)]"] by simp

text \<open>\<^verbatim>\<open>SLOWLOG RESET\<close> empties the log, \<^verbatim>\<open>LEN\<close> reports its length and \<^verbatim>\<open>GET\<close> returns the ten newest
  entries; none of them runs into a freed node.\<close>

theorem slowlogCommand_correct:
  assumes "slowlog_rep s es"
  shows "(\<exists>s'. slowlogCommand s [c, ''reset''] = Some (s', SL_Ok) \<and> slowlog_rep s' []) \<and>
    slowlogCommand s [c, ''len''] = Some (s, SL_Int (int (length es))) \<and>
    slowlogCommand s [c, ''get''] = Some (s, SL_Entries (take 10 es))"
proof (intro conjI)
  obtain h l where "trim_loop (sl_heap s, sl_list s) 0 = Some (h, l)" "values_rep (h, l) []"
    using slq.trim_take [of "(sl_heap s, sl_list s)" es 0] assms by (auto simp: slowlog_rep_def)
  then show "\<exists>s'. slowlogCommand s [c, ''reset''] = Some (s', SL_Ok) \<and> slowlog_rep s' []"
    by (simp add: slowlogCommand_def slowlogReset_def slowlog_rep_def strcaseeq_defs)
  obtain xs where xs: "list_rep (sl_heap s) (sl_list s) xs" "map snd xs = es"
    using assms by (auto simp: slowlog_rep_def values_rep_def)
  have ne: "\<not> strcaseeq ''len'' ''reset''" "\<not> strcaseeq ''get'' ''reset''" "\<not> strcaseeq ''get'' ''len''"
    by (simp_all add: strcaseeq_defs tolower_def char_of_def bit_simps)
  show "slowlogCommand s [c, ''len''] = Some (s, SL_Int (int (length es)))"
    using xs ne by (auto simp: slowlogCommand_def strcaseeq_defs list_rep_def)
  have "get_loop (sl_heap s) 10 (listRewind (sl_list s)) [] = Some (take 10 es)"
    using get_loop_ok [of "sl_heap s" None xs 10 "[]"] xs by (auto simp: list_rep_def listRewind_def)
  then show "slowlogCommand s [c, ''get''] = Some (s, SL_Entries (take 10 es))"
    using ne by (simp add: slowlogCommand_def strcaseeq_defs)
qed

theorem slowlogCommand_correct_witness:
  "\<exists>s'. slowlogCommand (slowlogInit 0 5) [''slowlog'', ''reset''] = Some (s', SL_Ok)"
  using slowlogCommand_correct [OF init_rep [of 0 5], of "''slowlog''"] by blast

end
