(* ===== verification/Server.thy ===== *)
theory Server
  imports Slowlog "HOL-Library.AList"
begin

section \<open>Server and client state, command calls (\<^verbatim>\<open>redis.h\<close>, \<^verbatim>\<open>redis.c\<close>)\<close>

text \<open>
  The part of the server state that the command core reads and writes.  Dictionaries of the server
  are association lists with distinct keys, in the order an iteration returns them; the theory of
  the hash tables shows that they implement maps.  Lists of clients are lists of client identifiers,
  argument vectors lists of texts.  A value stored under a key is of an arbitrary type.  Replies go
  to a list per client; an error reply has its text without the dash and the code \<^verbatim>\<open>ERR\<close>.  The append-only file and the replication stream are the lists of the
  commands fed to them.  A command procedure is a function of the state; a client's \<^verbatim>\<open>cmd\<close> pointer is
  the entry of the command table, and the procedures are looked up by the name in it.
\<close>

datatype reply =
    R_Status string
  | R_Error string
  | R_Int int
  | R_Bulk string
  | R_NullBulk
  | R_NullMultiBulk
  | R_MultiBulkLen int

text \<open>The function that finds the keys among the arguments, when the command table names one.\<close>

datatype getkeys_proc = GK_None | GK_NoPreload | GK_Rename | GK_ZunionInter

record redisCommand =
  rc_name :: string
  rc_arity :: int
  rc_write :: bool
  rc_readonly :: bool
  rc_denyoom :: bool
  rc_admin :: bool
  rc_pubsub :: bool
  rc_force_replication :: bool
  rc_noscript :: bool
  rc_random :: bool
  rc_sort_for_script :: bool
  rc_loading :: bool
  rc_stale :: bool
  rc_skip_monitor :: bool
  rc_getkeys_proc :: getkeys_proc
  rc_firstkey :: int
  rc_lastkey :: int
  rc_keystep :: int

record multiCmd =
  mc_argv :: "string list"
  mc_cmd :: redisCommand

record redisClient =
  c_db :: nat
  c_multi :: bool
  c_dirty_cas :: bool
  c_dirty_exec :: bool
  c_close_after_reply :: bool
  c_master :: bool
  c_lua_client :: bool
  c_authenticated :: bool
  c_cmd :: "redisCommand option"
  c_argv :: "string list"
  c_mstate :: "multiCmd list"
  c_watched_keys :: "(string \<times> nat) list"
  c_pubsub_channels :: "string list"
  c_pubsub_patterns :: "string list"
  c_reply :: "reply list"

record 'v redisDb =
  db_dict :: "(string \<times> 'v) list"
  db_expires :: "(string \<times> int) list"
  db_watched_keys :: "(string \<times> nat list) list"

text \<open>An operation of \<^verbatim>\<open>also_propagate\<close>: database, arguments, and whether it goes to the append-only
  file and to the slaves.\<close>

type_synonym redisOp = "nat \<times> string list \<times> bool \<times> bool"

record 'v redisServer =
  sv_db :: "'v redisDb list"
  sv_clients :: "nat \<rightharpoonup> redisClient"
  sv_client_list :: "nat list"
  sv_pubsub_channels :: "(string \<times> nat list) list"
  sv_pubsub_patterns :: "(nat \<times> string) list"
  sv_dirty :: int
  sv_mstime :: int
  sv_ustime :: int
  sv_loading :: bool
  sv_masterhost :: bool
  sv_repl_slave_ro :: bool
  sv_repl_connected :: bool
  sv_repl_serve_stale_data :: bool
  sv_requirepass :: "string option"
  sv_maxmemory :: bool
  sv_stop_writes_on_bgsave_err :: bool
  sv_saveparamslen :: nat
  sv_lastbgsave_ok :: bool
  sv_rdb_child :: bool
  sv_lastsave :: int
  sv_lua_timedout :: bool
  sv_monitors :: nat
  sv_monitor_feed :: "(nat \<times> string list) list"
  sv_aof_on :: bool
  sv_aof :: "(nat \<times> string list) list"
  sv_slaves :: nat
  sv_repl_feed :: "(nat \<times> string list) list"
  sv_also_propagate :: "redisOp list"
  sv_ready_keys :: nat
  sv_slowlog :: slowlog
  sv_cmdstats :: "string \<Rightarrow> int \<times> int"
  sv_stat_numcommands :: int
  sv_stat_expiredkeys :: int
  sv_stat_keyspace_hits :: int
  sv_stat_keyspace_misses :: int

subsection \<open>Access\<close>

definition upd_client :: "'v redisServer \<Rightarrow> nat \<Rightarrow> (redisClient \<Rightarrow> redisClient) \<Rightarrow> 'v redisServer" where
  "upd_client s c f = s\<lparr>sv_clients := (sv_clients s)(c := map_option f (sv_clients s c))\<rparr>"

definition get_db :: "'v redisServer \<Rightarrow> nat \<Rightarrow> 'v redisDb option" where
  "get_db s i = (if i < length (sv_db s) then Some (sv_db s ! i) else None)"

definition upd_db :: "'v redisServer \<Rightarrow> nat \<Rightarrow> ('v redisDb \<Rightarrow> 'v redisDb) \<Rightarrow> 'v redisServer" where
  "upd_db s i f = s\<lparr>sv_db := (sv_db s)[i := f (sv_db s ! i)]\<rparr>"

definition addReply :: "'v redisServer \<Rightarrow> nat \<Rightarrow> reply \<Rightarrow> 'v redisServer" where
  "addReply s c r = upd_client s c (\<lambda>cl. cl\<lparr>c_reply := c_reply cl @ [r]\<rparr>)"

lemma sv_clients_upd [simp]:
  "sv_clients (upd_client s c f) d = (if d = c then map_option f (sv_clients s c) else sv_clients s d)"
  by (simp add: upd_client_def)

lemma upd_client_fields [simp]:
  "sv_db (upd_client s c f) = sv_db s" "sv_client_list (upd_client s c f) = sv_client_list s"
  "sv_pubsub_channels (upd_client s c f) = sv_pubsub_channels s"
  "sv_pubsub_patterns (upd_client s c f) = sv_pubsub_patterns s"
  "sv_dirty (upd_client s c f) = sv_dirty s"
  "sv_aof (upd_client s c f) = sv_aof s" "sv_repl_feed (upd_client s c f) = sv_repl_feed s"
  by (simp_all add: upd_client_def)

lemma upd_db_fields [simp]:
  "sv_clients (upd_db s i f) = sv_clients s" "sv_client_list (upd_db s i f) = sv_client_list s"
  "length (sv_db (upd_db s i f)) = length (sv_db s)"
  "sv_pubsub_channels (upd_db s i f) = sv_pubsub_channels s"
  "sv_pubsub_patterns (upd_db s i f) = sv_pubsub_patterns s"
  "sv_dirty (upd_db s i f) = sv_dirty s"
  by (simp_all add: upd_db_def)

lemma get_db_upd [simp]:
  "get_db (upd_client s c g) j = get_db s j"
  "get_db (upd_db s i f) j = (if j = i then map_option f (get_db s i) else get_db s j)"
  by (auto simp: get_db_def upd_db_def nth_list_update)

lemma addReply_fields [simp]:
  "sv_db (addReply s c r) = sv_db s" "sv_client_list (addReply s c r) = sv_client_list s"
  "get_db (addReply s c r) i = get_db s i"
  "sv_pubsub_channels (addReply s c r) = sv_pubsub_channels s"
  "sv_pubsub_patterns (addReply s c r) = sv_pubsub_patterns s"
  "sv_dirty (addReply s c r) = sv_dirty s"
  "sv_aof (addReply s c r) = sv_aof s" "sv_repl_feed (addReply s c r) = sv_repl_feed s"
  by (simp_all add: addReply_def)

lemma sv_clients_addReply [simp]:
  "sv_clients (addReply s c r) d =
   (if d = c then map_option (\<lambda>cl. cl\<lparr>c_reply := c_reply cl @ [r]\<rparr>) (sv_clients s c) else sv_clients s d)"
  by (simp add: addReply_def)

subsection \<open>Start-up\<close>

text \<open>The state after \<^verbatim>\<open>initServerConfig\<close> and \<^verbatim>\<open>initServer\<close> with no configuration file, at a given time in
  microseconds; the fields of the event loop, the sockets and the persistence are not in the model.\<close>

definition REDIS_DEFAULT_DBNUM :: nat where
  "REDIS_DEFAULT_DBNUM = 16"

definition empty_db :: "'v redisDb" where
  "empty_db = \<lparr>db_dict = [], db_expires = [], db_watched_keys = []\<rparr>"

definition initServer :: "int \<Rightarrow> 'v redisServer" where
  "initServer us = \<lparr>
     sv_db = replicate REDIS_DEFAULT_DBNUM empty_db, sv_clients = Map.empty, sv_client_list = [],
     sv_pubsub_channels = [], sv_pubsub_patterns = [], sv_dirty = 0,
     sv_mstime = us div 1000, sv_ustime = us, sv_loading = False,
     sv_masterhost = False, sv_repl_slave_ro = True, sv_repl_connected = False,
     sv_repl_serve_stale_data = True, sv_requirepass = None, sv_maxmemory = False,
     sv_stop_writes_on_bgsave_err = True, sv_saveparamslen = 3, sv_lastbgsave_ok = True, sv_rdb_child = False, sv_lastsave = us div 1000000,
     sv_lua_timedout = False, sv_monitors = 0, sv_monitor_feed = [], sv_aof_on = False, sv_aof = [],
     sv_slaves = 0, sv_repl_feed = [], sv_also_propagate = [], sv_ready_keys = 0,
     sv_slowlog = slowlogInit 10000 128, sv_cmdstats = (\<lambda>_. (0, 0)),
     sv_stat_numcommands = 0, sv_stat_expiredkeys = 0,
     sv_stat_keyspace_hits = 0, sv_stat_keyspace_misses = 0\<rparr>"

text \<open>A connected client at the fresh address \<open>c\<close>.\<close>

definition new_client :: redisClient where
  "new_client = \<lparr>c_db = 0, c_multi = False, c_dirty_cas = False, c_dirty_exec = False,
     c_close_after_reply = False, c_master = False, c_lua_client = False, c_authenticated = False,
     c_cmd = None, c_argv = [], c_mstate = [], c_watched_keys = [],
     c_pubsub_channels = [], c_pubsub_patterns = [], c_reply = []\<rparr>"

definition createClient :: "'v redisServer \<Rightarrow> nat \<Rightarrow> 'v redisServer" where
  "createClient s c = s\<lparr>sv_clients := (sv_clients s)(c \<mapsto> new_client), sv_client_list := sv_client_list s @ [c]\<rparr>"

subsection \<open>Propagation and calls\<close>

definition propagate :: "nat \<Rightarrow> string list \<Rightarrow> bool \<Rightarrow> bool \<Rightarrow> 'v redisServer \<Rightarrow> 'v redisServer" where
  "propagate dbid argv to_aof to_repl s =
     (let s1 = (if sv_aof_on s \<and> to_aof then s\<lparr>sv_aof := sv_aof s @ [(dbid, argv)]\<rparr> else s)
      in if to_repl \<and> sv_slaves s1 \<noteq> 0 then s1\<lparr>sv_repl_feed := sv_repl_feed s1 @ [(dbid, argv)]\<rparr> else s1)"

definition replicationFeedMonitors :: "nat \<Rightarrow> string list \<Rightarrow> 'v redisServer \<Rightarrow> 'v redisServer" where
  "replicationFeedMonitors dbid argv s = s\<lparr>sv_monitor_feed := sv_monitor_feed s @ [(dbid, argv)]\<rparr>"

definition redisOpArrayAppend :: "redisOp \<Rightarrow> 'v redisServer \<Rightarrow> 'v redisServer" where
  "redisOpArrayAppend op s = s\<lparr>sv_also_propagate := sv_also_propagate s @ [op]\<rparr>"

definition alsoPropagate :: "nat \<Rightarrow> string list \<Rightarrow> bool \<Rightarrow> bool \<Rightarrow> 'v redisServer \<Rightarrow> 'v redisServer" where
  "alsoPropagate dbid argv to_aof to_repl s = redisOpArrayAppend (dbid, argv, to_aof, to_repl) s"

text \<open>\<open>proc\<close> is the table of command procedures.  The three flags of \<^verbatim>\<open>call\<close> ask for the slow log, the
  statistics and the propagation; \<^verbatim>\<open>REDIS_CALL_FULL\<close> is all of them.\<close>

type_synonym 'v procs = "string \<Rightarrow> 'v redisServer \<Rightarrow> nat \<Rightarrow> 'v redisServer option"

definition call_pre :: "redisCommand \<Rightarrow> redisClient \<Rightarrow> 'v redisServer \<Rightarrow> 'v redisServer" where
  "call_pre cmd cl s =
     (if sv_monitors s \<noteq> 0 \<and> \<not> sv_loading s \<and> \<not> rc_skip_monitor cmd
      then replicationFeedMonitors (c_db cl) (c_argv cl) s else s)\<lparr>sv_also_propagate := []\<rparr>"

definition call_slowlog ::
  "bool \<Rightarrow> redisCommand \<Rightarrow> string list \<Rightarrow> int \<Rightarrow> 'v redisServer \<Rightarrow> 'v redisServer option" where
  "call_slowlog f cmd argv duration s =
     (if f \<and> rc_name cmd \<noteq> ''exec'' then do {
        sl \<leftarrow> slowlogPushEntryIfNeeded (sv_slowlog s) argv duration (sv_ustime s div 1000000);
        Some (s\<lparr>sv_slowlog := sl\<rparr>)
      } else Some s)"

definition call_stats :: "bool \<Rightarrow> redisCommand \<Rightarrow> int \<Rightarrow> 'v redisServer \<Rightarrow> 'v redisServer" where
  "call_stats f cmd duration s =
     (if f then s\<lparr>sv_cmdstats := (sv_cmdstats s)(rc_name cmd :=
        (fst (sv_cmdstats s (rc_name cmd)) + duration, snd (sv_cmdstats s (rc_name cmd)) + 1))\<rparr>
      else s)"

definition call_propagate ::
  "bool \<Rightarrow> redisCommand \<Rightarrow> nat \<Rightarrow> string list \<Rightarrow> int \<Rightarrow> 'v redisServer \<Rightarrow> 'v redisServer" where
  "call_propagate f cmd dbid argv dirty s =
     (let to_repl = (rc_force_replication cmd \<or> dirty \<noteq> 0) in
      if f \<and> (to_repl \<or> dirty \<noteq> 0) then propagate dbid argv (dirty \<noteq> 0) to_repl s else s)"

definition propagate_ops :: "redisOp list \<Rightarrow> 'v redisServer \<Rightarrow> 'v redisServer" where
  "propagate_ops = fold (\<lambda>(dbid, argv, to_aof, to_repl). propagate dbid argv to_aof to_repl)"

definition call :: "'v procs \<Rightarrow> 'v redisServer \<Rightarrow> nat \<Rightarrow> bool \<Rightarrow> bool \<Rightarrow> bool \<Rightarrow> 'v redisServer option" where
  "call proc s c f_slowlog f_stats f_propagate = do {
     cl \<leftarrow> sv_clients s c;
     cmd \<leftarrow> c_cmd cl;
     let s1 = call_pre cmd cl s;
     s2 \<leftarrow> proc (rc_name cmd) s1 c;
     let dirty = sv_dirty s2 - sv_dirty s1;
     let duration = sv_ustime s2 - sv_ustime s;
     cl2 \<leftarrow> sv_clients s2 c;
     cmd2 \<leftarrow> c_cmd cl2;
     let quiet = (sv_loading s2 \<and> c_lua_client cl2);
     s3 \<leftarrow> call_slowlog (f_slowlog \<and> \<not> quiet) cmd2 (c_argv cl2) duration s2;
     let s4 = call_stats (f_stats \<and> \<not> quiet) cmd2 duration s3;
     let s5 = call_propagate f_propagate cmd2 (c_db cl2) (c_argv cl2) dirty s4;
     let s6 = propagate_ops (sv_also_propagate s5) s5;
     Some (s6\<lparr>sv_also_propagate := [], sv_stat_numcommands := sv_stat_numcommands s6 + 1\<rparr>)
   }"

end
