(* ===== verification/Multi.thy ===== *)
theory Multi
  imports Server
begin

section \<open>Transactions and optimistic locking (\<^verbatim>\<open>multi.c\<close>)\<close>

text \<open>
  \<open>None\<close> is a failed assertion or a NULL dereference.  Reference counts of the objects in queued
  commands and watch lists are not modelled.
\<close>

subsection \<open>Watched keys\<close>

definition watchForKey :: "'v redisServer \<Rightarrow> nat \<Rightarrow> string \<Rightarrow> 'v redisServer option" where
  "watchForKey s c key = do {
     cl \<leftarrow> sv_clients s c;
     if (key, c_db cl) \<in> set (c_watched_keys cl) then Some s
     else do {
       db \<leftarrow> get_db s (c_db cl);
       let clients = (case map_of (db_watched_keys db) key of Some l \<Rightarrow> l | None \<Rightarrow> []);
       let s1 = upd_db s (c_db cl)
         (\<lambda>db. db\<lparr>db_watched_keys := AList.update key (clients @ [c]) (db_watched_keys db)\<rparr>);
       Some (upd_client s1 c (\<lambda>cl. cl\<lparr>c_watched_keys := c_watched_keys cl @ [(key, c_db cl)]\<rparr>))
     }
   }"

text \<open>One pass of the loop of \<^verbatim>\<open>unwatchAllKeys\<close>: the key goes from the database's table and from the
  client's list.\<close>

definition unwatch_key :: "nat \<Rightarrow> 'v redisServer \<Rightarrow> string \<times> nat \<Rightarrow> 'v redisServer option" where
  "unwatch_key c s wk =
     (case wk of (key, dbid) \<Rightarrow> do {
        db \<leftarrow> get_db s dbid;
        clients \<leftarrow> map_of (db_watched_keys db) key;
        if c \<in> set clients then do {
          let clients' = remove1 c clients;
          let s1 = upd_db s dbid (\<lambda>db. db\<lparr>db_watched_keys :=
            (if clients' = [] then AList.delete key (db_watched_keys db)
             else AList.update key clients' (db_watched_keys db))\<rparr>);
          Some (upd_client s1 c (\<lambda>cl. cl\<lparr>c_watched_keys := remove1 wk (c_watched_keys cl)\<rparr>))
        } else None
      })"

definition unwatchAllKeys :: "'v redisServer \<Rightarrow> nat \<Rightarrow> 'v redisServer option" where
  "unwatchAllKeys s c = do {
     cl \<leftarrow> sv_clients s c;
     run_option (unwatch_key c) s (c_watched_keys cl)
   }"

definition touchWatchedKey :: "'v redisServer \<Rightarrow> nat \<Rightarrow> string \<Rightarrow> 'v redisServer option" where
  "touchWatchedKey s dbid key = do {
     db \<leftarrow> get_db s dbid;
     if length (db_watched_keys db) = 0 then Some s
     else case map_of (db_watched_keys db) key of
       None \<Rightarrow> Some s
     | Some clients \<Rightarrow> Some (fold (\<lambda>c s. upd_client s c (\<lambda>cl. cl\<lparr>c_dirty_cas := True\<rparr>)) clients s)
   }"

text \<open>The test for one watched key of a client; -1 is every database.\<close>

definition flush_hits :: "'v redisServer \<Rightarrow> int \<Rightarrow> string \<times> nat \<Rightarrow> bool" where
  "flush_hits s dbid wk =
     (case wk of (key, d) \<Rightarrow>
        (dbid = - 1 \<or> int d = dbid) \<and>
        (case get_db s d of Some db \<Rightarrow> map_of (db_dict db) key \<noteq> None | None \<Rightarrow> False))"

definition touchWatchedKeysOnFlush :: "'v redisServer \<Rightarrow> int \<Rightarrow> 'v redisServer" where
  "touchWatchedKeysOnFlush s dbid =
     fold (\<lambda>c s. upd_client s c (\<lambda>cl.
             if list_ex (flush_hits s dbid) (c_watched_keys cl) then cl\<lparr>c_dirty_cas := True\<rparr> else cl))
       (sv_client_list s) s"

subsection \<open>Transactions\<close>

definition initClientMultiState :: "redisClient \<Rightarrow> redisClient" where
  "initClientMultiState cl = cl\<lparr>c_mstate := []\<rparr>"

definition queueMultiCommand :: "'v redisServer \<Rightarrow> nat \<Rightarrow> 'v redisServer option" where
  "queueMultiCommand s c = do {
     cl \<leftarrow> sv_clients s c;
     cmd \<leftarrow> c_cmd cl;
     Some (upd_client s c (\<lambda>cl. cl\<lparr>c_mstate := c_mstate cl @ [\<lparr>mc_argv = c_argv cl, mc_cmd = cmd\<rparr>]\<rparr>))
   }"

definition discardTransaction :: "'v redisServer \<Rightarrow> nat \<Rightarrow> 'v redisServer option" where
  "discardTransaction s c =
     unwatchAllKeys (upd_client s c (\<lambda>cl. (initClientMultiState cl)
       \<lparr>c_multi := False, c_dirty_cas := False, c_dirty_exec := False\<rparr>)) c"

definition flagTransaction :: "'v redisServer \<Rightarrow> nat \<Rightarrow> 'v redisServer" where
  "flagTransaction s c = upd_client s c (\<lambda>cl. if c_multi cl then cl\<lparr>c_dirty_exec := True\<rparr> else cl)"

definition multiCommand :: "'v redisServer \<Rightarrow> nat \<Rightarrow> 'v redisServer option" where
  "multiCommand s c = do {
     cl \<leftarrow> sv_clients s c;
     if c_multi cl then Some (addReply s c (R_Error ''MULTI calls can not be nested''))
     else Some (addReply (upd_client s c (\<lambda>cl. cl\<lparr>c_multi := True\<rparr>)) c (R_Status ''OK''))
   }"

definition discardCommand :: "'v redisServer \<Rightarrow> nat \<Rightarrow> 'v redisServer option" where
  "discardCommand s c = do {
     cl \<leftarrow> sv_clients s c;
     if \<not> c_multi cl then Some (addReply s c (R_Error ''DISCARD without MULTI''))
     else do { s1 \<leftarrow> discardTransaction s c; Some (addReply s1 c (R_Status ''OK'')) }
   }"

definition watchCommand :: "'v redisServer \<Rightarrow> nat \<Rightarrow> 'v redisServer option" where
  "watchCommand s c = do {
     cl \<leftarrow> sv_clients s c;
     if c_multi cl then Some (addReply s c (R_Error ''WATCH inside MULTI is not allowed''))
     else do {
       s1 \<leftarrow> run_option (\<lambda>s key. watchForKey s c key) s (tl (c_argv cl));
       Some (addReply s1 c (R_Status ''OK''))
     }
   }"

definition unwatchCommand :: "'v redisServer \<Rightarrow> nat \<Rightarrow> 'v redisServer option" where
  "unwatchCommand s c = do {
     s1 \<leftarrow> unwatchAllKeys s c;
     Some (addReply (upd_client s1 c (\<lambda>cl. cl\<lparr>c_dirty_cas := False\<rparr>)) c (R_Status ''OK''))
   }"

definition execCommandPropagateMulti :: "'v redisServer \<Rightarrow> nat \<Rightarrow> 'v redisServer option" where
  "execCommandPropagateMulti s c = do {
     cl \<leftarrow> sv_clients s c;
     Some (propagate (c_db cl) [''MULTI''] True True s)
   }"

text \<open>The loop over the queued commands.  The flag is \<^verbatim>\<open>must_propagate\<close>.  What a command leaves in
  \<^verbatim>\<open>argv\<close> and \<^verbatim>\<open>cmd\<close> is written back into the queue, which is freed right after the loop.\<close>

fun exec_loop ::
  "'v procs \<Rightarrow> 'v redisServer \<Rightarrow> nat \<Rightarrow> multiCmd list \<Rightarrow> bool \<Rightarrow> ('v redisServer \<times> bool) option" where
  "exec_loop proc s c [] must_propagate = Some (s, must_propagate)"
| "exec_loop proc s c (mc # mcs) must_propagate = do {
     let s1 = upd_client s c (\<lambda>cl. cl\<lparr>c_argv := mc_argv mc, c_cmd := Some (mc_cmd mc)\<rparr>);
     (s2, must) \<leftarrow>
       (if \<not> must_propagate \<and> \<not> rc_readonly (mc_cmd mc)
        then do { s' \<leftarrow> execCommandPropagateMulti s1 c; Some (s', True) }
        else Some (s1, must_propagate));
     s3 \<leftarrow> call proc s2 c True True True;
     exec_loop proc s3 c mcs must
   }"

definition feed_exec_monitor :: "'v redisServer \<Rightarrow> nat \<Rightarrow> 'v redisServer option" where
  "feed_exec_monitor s c = do {
     cl \<leftarrow> sv_clients s c;
     Some (if sv_monitors s \<noteq> 0 \<and> \<not> sv_loading s
           then replicationFeedMonitors (c_db cl) (c_argv cl) s else s)
   }"

definition execCommand :: "'v procs \<Rightarrow> 'v redisServer \<Rightarrow> nat \<Rightarrow> 'v redisServer option" where
  "execCommand proc s c = do {
     cl \<leftarrow> sv_clients s c;
     if \<not> c_multi cl then Some (addReply s c (R_Error ''EXEC without MULTI''))
     else if c_dirty_cas cl \<or> c_dirty_exec cl then do {
       let s1 = addReply s c (if c_dirty_exec cl
         then R_Error ''EXECABORT Transaction discarded because of previous errors.''
         else R_NullMultiBulk);
       s2 \<leftarrow> discardTransaction s1 c;
       feed_exec_monitor s2 c
     }
     else do {
       s1 \<leftarrow> unwatchAllKeys s c;
       let s2 = addReply s1 c (R_MultiBulkLen (int (length (c_mstate cl))));
       (s3, must_propagate) \<leftarrow> exec_loop proc s2 c (c_mstate cl) False;
       let s4 = upd_client s3 c (\<lambda>cl'. cl'\<lparr>c_argv := c_argv cl, c_cmd := c_cmd cl\<rparr>);
       s5 \<leftarrow> discardTransaction s4 c;
       let s6 = (if must_propagate then s5\<lparr>sv_dirty := sv_dirty s5 + 1\<rparr> else s5);
       feed_exec_monitor s6 c
     }
   }"

subsection \<open>The watch tables\<close>

text \<open>The clients that watch a key, and the agreement of the two representations: the table of each
  database and the list of each client.\<close>

definition watchers :: "'v redisServer \<Rightarrow> nat \<Rightarrow> string \<Rightarrow> nat list" where
  "watchers s d k =
     (case get_db s d of None \<Rightarrow> []
      | Some db \<Rightarrow> (case map_of (db_watched_keys db) k of None \<Rightarrow> [] | Some l \<Rightarrow> l))"

definition tables_ok :: "'v redisServer \<Rightarrow> bool" where
  "tables_ok s \<longleftrightarrow>
     (\<forall>d db. get_db s d = Some db \<longrightarrow>
        distinct (map fst (db_watched_keys db)) \<and> (\<forall>k. map_of (db_watched_keys db) k \<noteq> Some []))"

definition watch_ok :: "'v redisServer \<Rightarrow> bool" where
  "watch_ok s \<longleftrightarrow>
     tables_ok s \<and> (\<forall>d k. distinct (watchers s d k)) \<and>
     (\<forall>c d k. c \<in> set (watchers s d k) \<longleftrightarrow>
        (\<exists>cl. sv_clients s c = Some cl \<and> (k, d) \<in> set (c_watched_keys cl))) \<and>
     (\<forall>c cl. sv_clients s c = Some cl \<longrightarrow>
        distinct (c_watched_keys cl) \<and> c_db cl < length (sv_db s))"

lemma watch_okI:
  assumes "tables_ok s" and "\<And>d k. distinct (watchers s d k)"
    and "\<And>c d k. c \<in> set (watchers s d k) \<longleftrightarrow>
        (\<exists>cl. sv_clients s c = Some cl \<and> (k, d) \<in> set (c_watched_keys cl))"
    and "\<And>c cl. sv_clients s c = Some cl \<Longrightarrow> distinct (c_watched_keys cl) \<and> c_db cl < length (sv_db s)"
  shows "watch_ok s"
  unfolding watch_ok_def using assms by simp

text \<open>The data of the databases, which watching never changes.\<close>

definition same_data :: "'v redisServer \<Rightarrow> 'v redisServer \<Rightarrow> bool" where
  "same_data s s' \<longleftrightarrow>
     (\<exists>cls dbs. s' = s\<lparr>sv_clients := cls, sv_db := dbs\<rparr> \<and> map db_dict dbs = map db_dict (sv_db s) \<and>
        map db_expires dbs = map db_expires (sv_db s))"

definition set_watchers :: "'v redisServer \<Rightarrow> nat \<Rightarrow> string \<Rightarrow> nat list \<Rightarrow> 'v redisServer" where
  "set_watchers s d k l = upd_db s d (\<lambda>db. db\<lparr>db_watched_keys :=
     (if l = [] then AList.delete k (db_watched_keys db) else AList.update k l (db_watched_keys db))\<rparr>)"

lemma watchers_set:
  "d < length (sv_db s) \<Longrightarrow>
   watchers (set_watchers s d k l) d' k' = (if d' = d \<and> k' = k then l else watchers s d' k')"
  by (auto simp: watchers_def set_watchers_def get_db_def upd_db_def nth_list_update delete_conv'
      update_conv' split: option.splits)

lemma watchers_client [simp]: "watchers (upd_client s c f) = watchers s"
  by (simp add: watchers_def fun_eq_iff)

lemma watchers_reply [simp]: "watchers (addReply s c r) = watchers s"
  by (simp add: addReply_def)

lemma tables_ok_set: "tables_ok s \<Longrightarrow> tables_ok (set_watchers s d k l)"
  unfolding tables_ok_def set_watchers_def
  by (auto simp: delete_conv' update_conv' distinct_delete distinct_update
      simp del: map_of_eq_Some_iff split: if_splits)

lemma tables_ok_client [simp]: "tables_ok (upd_client s c f) = tables_ok s"
  by (simp add: tables_ok_def)

lemma set_watchers_fields [simp]:
  "sv_clients (set_watchers s d k l) = sv_clients s" "length (sv_db (set_watchers s d k l)) = length (sv_db s)"
  by (simp_all add: set_watchers_def)

lemma watchers_less: "c \<in> set (watchers s d k) \<Longrightarrow> d < length (sv_db s)"
  by (auto simp: watchers_def get_db_def split: if_splits)

lemma same_data_refl: "same_data s s"
proof -
  have "s = s\<lparr>sv_clients := sv_clients s, sv_db := sv_db s\<rparr>" by simp
  then show ?thesis unfolding same_data_def by blast
qed

lemma same_data_trans: "same_data a b \<Longrightarrow> same_data b c \<Longrightarrow> same_data a c"
  unfolding same_data_def by fastforce

lemma same_data_client: "same_data s (upd_client s c f)"
proof -
  have "upd_client s c f = s\<lparr>sv_clients := (sv_clients s)(c := map_option f (sv_clients s c)), sv_db := sv_db s\<rparr>"
    by (simp add: upd_client_def)
  then show ?thesis unfolding same_data_def by blast
qed

lemma map_update_same: "(\<And>x. f (g x) = f x) \<Longrightarrow> map f (xs[d := g (xs ! d)]) = map f xs"
  by (cases "d < length xs") (auto intro!: nth_equalityI simp: nth_list_update)

lemma same_data_set: "same_data s (set_watchers s d k l)"
proof -
  let ?f = "\<lambda>db. db\<lparr>db_watched_keys :=
    (if l = [] then AList.delete k (db_watched_keys db) else AList.update k l (db_watched_keys db))\<rparr>"
  have "set_watchers s d k l = s\<lparr>sv_clients := sv_clients s, sv_db := (sv_db s)[d := ?f (sv_db s ! d)]\<rparr>"
    by (simp add: set_watchers_def upd_db_def)
  moreover have "map db_dict ((sv_db s)[d := ?f (sv_db s ! d)]) = map db_dict (sv_db s)"
    "map db_expires ((sv_db s)[d := ?f (sv_db s ! d)]) = map db_expires (sv_db s)"
    by (rule map_update_same; simp)+
  ultimately show ?thesis unfolding same_data_def by blast
qed

lemma watch_ok_client:
  assumes "\<And>cl. c_watched_keys (f cl) = c_watched_keys cl \<and> c_db (f cl) = c_db cl"
  shows "watch_ok (upd_client s c f) = watch_ok s"
proof -
  have "(\<exists>cl'. sv_clients (upd_client s c f) x = Some cl' \<and> (k, d) \<in> set (c_watched_keys cl')) \<longleftrightarrow>
      (\<exists>cl. sv_clients s x = Some cl \<and> (k, d) \<in> set (c_watched_keys cl))" for x k d
    using assms by auto
  moreover have "(\<forall>x cl'. sv_clients (upd_client s c f) x = Some cl' \<longrightarrow>
        distinct (c_watched_keys cl') \<and> c_db cl' < length (sv_db s)) \<longleftrightarrow>
      (\<forall>x cl. sv_clients s x = Some cl \<longrightarrow> distinct (c_watched_keys cl) \<and> c_db cl < length (sv_db s))"
    using assms by (auto split: if_splits)
  ultimately show ?thesis by (simp add: watch_ok_def del: sv_clients_upd)
qed

lemma watch_ok_reply [simp]: "watch_ok (addReply s c r) = watch_ok s"
  unfolding addReply_def by (rule watch_ok_client) simp

subsection \<open>Watching and unwatching keep the tables in agreement\<close>

lemma watchForKey_ok:
  assumes ok: "watch_ok s" and c: "sv_clients s c = Some cl"
  shows "\<exists>s'. watchForKey s c k = Some s' \<and> watch_ok s' \<and> same_data s s' \<and>
    (\<exists>ws. sv_clients s' = (sv_clients s)(c \<mapsto> cl\<lparr>c_watched_keys := ws\<rparr>) \<and>
       set ws = insert (k, c_db cl) (set (c_watched_keys cl)))"
proof (cases "(k, c_db cl) \<in> set (c_watched_keys cl)")
  case True
  have "sv_clients s = (sv_clients s)(c \<mapsto> cl\<lparr>c_watched_keys := c_watched_keys cl\<rparr>)"
    using c by (simp add: fun_upd_idem)
  moreover have "set (c_watched_keys cl) = insert (k, c_db cl) (set (c_watched_keys cl))"
    using True by blast
  moreover have "watchForKey s c k = Some s" using True c by (simp add: watchForKey_def)
  ultimately show ?thesis using ok same_data_refl by blast
next
  case False
  let ?d = "c_db cl"
  have d: "?d < length (sv_db s)" using ok c by (simp add: watch_ok_def)
  then obtain db where db: "get_db s ?d = Some db" by (simp add: get_db_def)
  let ?l = "watchers s ?d k @ [c]"
  define s1 where "s1 = set_watchers s ?d k ?l"
  define s' where "s' = upd_client s1 c (\<lambda>cl. cl\<lparr>c_watched_keys := c_watched_keys cl @ [(k, c_db cl)]\<rparr>)"
  have "(case map_of (db_watched_keys db) k of Some l \<Rightarrow> l | None \<Rightarrow> []) @ [c] = ?l"
    using db by (simp add: watchers_def split: option.split)
  then have run: "watchForKey s c k = Some s'"
    using c False db by (simp add: watchForKey_def s'_def s1_def set_watchers_def Let_def)
  have w: "watchers s' d' k' = (if d' = ?d \<and> k' = k then ?l else watchers s d' k')" for d' k'
    using d by (simp add: s'_def s1_def watchers_set)
  have cls: "sv_clients s' = (sv_clients s)(c \<mapsto> cl\<lparr>c_watched_keys := c_watched_keys cl @ [(k, ?d)]\<rparr>)"
    using c by (auto simp: s'_def s1_def fun_eq_iff)
  have "c \<notin> set (watchers s ?d k)" using ok c False by (auto simp: watch_ok_def)
  moreover have "tables_ok s'" using ok by (simp add: s'_def s1_def watch_ok_def tables_ok_set)
  moreover have "length (sv_db s') = length (sv_db s)" by (simp add: s'_def s1_def)
  ultimately have "watch_ok s'"
    using ok c False unfolding watch_ok_def by (auto simp: w cls)
  moreover have "same_data s s'"
    unfolding s'_def s1_def by (rule same_data_trans [OF same_data_set same_data_client])
  ultimately show ?thesis using run cls by auto
qed

lemma unwatch_key_ok:
  assumes ok: "watch_ok s" and c: "sv_clients s c = Some cl" and wk: "c_watched_keys cl = (k, d) # wks"
  shows "\<exists>s'. unwatch_key c s (k, d) = Some s' \<and> watch_ok s' \<and> same_data s s' \<and>
    sv_clients s' = (sv_clients s)(c \<mapsto> cl\<lparr>c_watched_keys := wks\<rparr>)"
proof -
  have cw: "c \<in> set (watchers s d k)" using ok c wk by (auto simp: watch_ok_def)
  then have d: "d < length (sv_db s)" by (rule watchers_less)
  then obtain db where db: "get_db s d = Some db" by (simp add: get_db_def)
  have m: "map_of (db_watched_keys db) k = Some (watchers s d k)"
    using cw db by (cases "map_of (db_watched_keys db) k") (auto simp: watchers_def)
  let ?l = "remove1 c (watchers s d k)"
  define s1 where "s1 = set_watchers s d k ?l"
  define s' where "s' = upd_client s1 c (\<lambda>cl. cl\<lparr>c_watched_keys := remove1 (k, d) (c_watched_keys cl)\<rparr>)"
  have run: "unwatch_key c s (k, d) = Some s'"
    using db m cw by (simp add: unwatch_key_def s'_def s1_def set_watchers_def Let_def)
  have w: "watchers s' d' k' = (if d' = d \<and> k' = k then ?l else watchers s d' k')" for d' k'
    using d by (simp add: s'_def s1_def watchers_set)
  have cls: "sv_clients s' = (sv_clients s)(c \<mapsto> cl\<lparr>c_watched_keys := wks\<rparr>)"
    using c wk by (auto simp: s'_def s1_def fun_eq_iff)
  have "distinct (c_watched_keys cl)" "distinct (watchers s d k)" using ok c unfolding watch_ok_def by blast+
  then have dist: "(k, d) \<notin> set wks" "distinct wks" "distinct (watchers s d k)" using wk by simp_all
  have tab: "tables_ok s'" using ok by (simp add: s'_def s1_def watch_ok_def tables_ok_set)
  have len: "length (sv_db s') = length (sv_db s)" by (simp add: s'_def s1_def)
  have dw: "distinct (watchers s' d' k')" for d' k'
    using ok by (simp add: w watch_ok_def)
  have agree: "x \<in> set (watchers s' d' k') \<longleftrightarrow>
      (\<exists>cl. sv_clients s' x = Some cl \<and> (k', d') \<in> set (c_watched_keys cl))" for x d' k'
  proof -
    have old: "x \<in> set (watchers s d' k') \<longleftrightarrow>
        (\<exists>cl. sv_clients s x = Some cl \<and> (k', d') \<in> set (c_watched_keys cl))" for x d' k'
      using ok by (simp add: watch_ok_def)
    show ?thesis
      using old [of x d' k'] dist wk c by (auto simp: w cls)
  qed
  have each: "distinct (c_watched_keys cl') \<and> c_db cl' < length (sv_db s')"
    if "sv_clients s' x = Some cl'" for x cl'
  proof (cases "x = c")
    case True
    then show ?thesis using that ok c dist(2) unfolding watch_ok_def by (auto simp: cls len)
  next
    case False
    then show ?thesis using that ok unfolding watch_ok_def by (auto simp: cls len)
  qed
  have "watch_ok s'" using tab dw agree each by (rule watch_okI)
  moreover have "same_data s s'"
    unfolding s'_def s1_def by (rule same_data_trans [OF same_data_set same_data_client])
  ultimately show ?thesis using run cls by blast
qed

lemma unwatch_loop_ok:
  "watch_ok s \<Longrightarrow> sv_clients s c = Some cl \<Longrightarrow> c_watched_keys cl = wks \<Longrightarrow>
   \<exists>s'. run_option (unwatch_key c) s wks = Some s' \<and> watch_ok s' \<and> same_data s s' \<and>
     sv_clients s' = (sv_clients s)(c \<mapsto> cl\<lparr>c_watched_keys := []\<rparr>)"
proof (induction wks arbitrary: s cl)
  case Nil
  then have "sv_clients s = (sv_clients s)(c \<mapsto> cl\<lparr>c_watched_keys := []\<rparr>)"
    by (auto simp: fun_upd_idem_iff)
  with Nil show ?case by (auto simp: same_data_refl)
next
  case (Cons wk wks)
  obtain k d where wk: "wk = (k, d)" by (cases wk)
  obtain s1 where s1: "unwatch_key c s (k, d) = Some s1" "watch_ok s1" "same_data s s1"
    "sv_clients s1 = (sv_clients s)(c \<mapsto> cl\<lparr>c_watched_keys := wks\<rparr>)"
    using unwatch_key_ok [OF Cons.prems(1,2)] Cons.prems(3) wk by blast
  have c1: "sv_clients s1 c = Some (cl\<lparr>c_watched_keys := wks\<rparr>)" by (simp add: s1(4))
  have "c_watched_keys (cl\<lparr>c_watched_keys := wks\<rparr>) = wks" by simp
  from Cons.IH [OF s1(2) c1 this] obtain s' where s':
    "run_option (unwatch_key c) s1 wks = Some s'" "watch_ok s'" "same_data s1 s'"
    "sv_clients s' = (sv_clients s1)(c \<mapsto> cl\<lparr>c_watched_keys := wks, c_watched_keys := []\<rparr>)"
    by blast
  have "sv_clients s' = (sv_clients s)(c \<mapsto> cl\<lparr>c_watched_keys := []\<rparr>)" unfolding s'(4) s1(4) by simp
  moreover have "run_option (unwatch_key c) s (wk # wks) = Some s'" using s1(1) s'(1) by (simp add: wk)
  ultimately show ?case using s'(2) same_data_trans [OF s1(3) s'(3)] by blast
qed

lemma unwatchAllKeys_ok:
  assumes "watch_ok s" and "sv_clients s c = Some cl"
  shows "\<exists>s'. unwatchAllKeys s c = Some s' \<and> watch_ok s' \<and> same_data s s' \<and>
    sv_clients s' = (sv_clients s)(c \<mapsto> cl\<lparr>c_watched_keys := []\<rparr>)"
  using unwatch_loop_ok [OF assms refl] assms(2) by (simp add: unwatchAllKeys_def)

lemma fold_dirty:
  "sv_clients (fold (\<lambda>c s. upd_client s c (\<lambda>cl. cl\<lparr>c_dirty_cas := True\<rparr>)) cs s) x =
   (if x \<in> set cs then map_option (\<lambda>cl. cl\<lparr>c_dirty_cas := True\<rparr>) (sv_clients s x) else sv_clients s x)"
  by (induction cs arbitrary: s) (auto simp: option.map_comp o_def)

lemma fold_dirty_ok:
  "watch_ok (fold (\<lambda>c s. upd_client s c (\<lambda>cl. cl\<lparr>c_dirty_cas := True\<rparr>)) cs s) = watch_ok s \<and>
   same_data s (fold (\<lambda>c s. upd_client s c (\<lambda>cl. cl\<lparr>c_dirty_cas := True\<rparr>)) cs s)"
proof (induction cs arbitrary: s)
  case (Cons c cs)
  have "watch_ok (upd_client s c (\<lambda>cl. cl\<lparr>c_dirty_cas := True\<rparr>)) = watch_ok s"
    by (rule watch_ok_client) simp
  then show ?case using Cons [of "upd_client s c (\<lambda>cl. cl\<lparr>c_dirty_cas := True\<rparr>)"] same_data_client
    by (auto intro: same_data_trans)
qed (simp add: same_data_refl)

text \<open>Touching a key marks exactly its watchers.\<close>

lemma touch_ok:
  assumes ok: "watch_ok s" and d: "d < length (sv_db s)"
  shows "\<exists>s'. touchWatchedKey s d k = Some s' \<and> watch_ok s' \<and> same_data s s' \<and>
    (\<forall>c. sv_clients s' c = map_option (\<lambda>cl. if (k, d) \<in> set (c_watched_keys cl)
       then cl\<lparr>c_dirty_cas := True\<rparr> else cl) (sv_clients s c))"
proof -
  obtain db where db: "get_db s d = Some db" using d by (simp add: get_db_def)
  let ?s' = "fold (\<lambda>c s. upd_client s c (\<lambda>cl. cl\<lparr>c_dirty_cas := True\<rparr>)) (watchers s d k) s"
  have run: "touchWatchedKey s d k = Some ?s'"
    using db by (auto simp: touchWatchedKey_def watchers_def split: option.split)
  have "c \<in> set (watchers s d k) \<longleftrightarrow>
      (\<exists>cl. sv_clients s c = Some cl \<and> (k, d) \<in> set (c_watched_keys cl))" for c
    using ok by (simp add: watch_ok_def)
  then have "sv_clients ?s' c = map_option (\<lambda>cl. if (k, d) \<in> set (c_watched_keys cl)
       then cl\<lparr>c_dirty_cas := True\<rparr> else cl) (sv_clients s c)" for c
    by (cases "sv_clients s c") (auto simp: fold_dirty)
  then show ?thesis using run ok fold_dirty_ok by blast
qed


subsection \<open>The effect of the transaction commands\<close>

definition cleared :: "redisClient \<Rightarrow> redisClient" where
  "cleared cl = cl\<lparr>c_mstate := [], c_multi := False, c_dirty_cas := False, c_dirty_exec := False,
     c_watched_keys := []\<rparr>"

lemma discard_ok:
  assumes ok: "watch_ok s" and c: "sv_clients s c = Some cl"
  shows "\<exists>s'. discardTransaction s c = Some s' \<and> watch_ok s' \<and> same_data s s' \<and>
    sv_clients s' = (sv_clients s)(c \<mapsto> cleared cl)"
proof -
  let ?f = "\<lambda>cl. (initClientMultiState cl)\<lparr>c_multi := False, c_dirty_cas := False, c_dirty_exec := False\<rparr>"
  let ?s1 = "upd_client s c ?f"
  have ok1: "watch_ok ?s1" using ok by (subst watch_ok_client) (auto simp: initClientMultiState_def)
  have "sv_clients ?s1 c = Some (?f cl)" using c by simp
  from unwatchAllKeys_ok [OF ok1 this] obtain s' where s':
    "unwatchAllKeys ?s1 c = Some s'" "watch_ok s'" "same_data ?s1 s'"
    "sv_clients s' = (sv_clients ?s1)(c \<mapsto> (?f cl)\<lparr>c_watched_keys := []\<rparr>)"
    by blast
  have "sv_clients s' = (sv_clients s)(c \<mapsto> cleared cl)"
    unfolding s'(4) by (auto simp: fun_eq_iff cleared_def initClientMultiState_def)
  moreover have "same_data s s'" by (rule same_data_trans [OF same_data_client s'(3)])
  moreover have "discardTransaction s c = Some s'" using s'(1) by (simp add: discardTransaction_def)
  ultimately show ?thesis using s'(2) by blast
qed

lemma watch_ok_cong:
  assumes "sv_db s' = sv_db s" and "sv_clients s' = sv_clients s"
  shows "watch_ok s' = watch_ok s"
proof -
  have g: "get_db s' = get_db s" using assms(1) by (simp add: get_db_def fun_eq_iff)
  then have "watchers s' = watchers s" by (simp add: watchers_def fun_eq_iff)
  moreover have "tables_ok s' = tables_ok s" by (simp add: tables_ok_def g)
  ultimately show ?thesis unfolding watch_ok_def assms by simp
qed

lemma feed_exec_monitor_ok:
  assumes "sv_clients s c = Some cl"
  shows "\<exists>fd. feed_exec_monitor s c = Some (s\<lparr>sv_monitor_feed := fd\<rparr>)"
proof -
  have "feed_exec_monitor s c = Some (s\<lparr>sv_monitor_feed := (if sv_monitors s \<noteq> 0 \<and> \<not> sv_loading s
      then sv_monitor_feed s @ [(c_db cl, c_argv cl)] else sv_monitor_feed s)\<rparr>)"
    using assms by (simp add: feed_exec_monitor_def replicationFeedMonitors_def)
  then show ?thesis by blast
qed

definition abort_reply :: "redisClient \<Rightarrow> reply" where
  "abort_reply cl = (if c_dirty_exec cl
     then R_Error ''EXECABORT Transaction discarded because of previous errors.'' else R_NullMultiBulk)"

lemma exec_dirty_ok:
  assumes ok: "watch_ok s" and c: "sv_clients s c = Some cl" and m: "c_multi cl"
    and dirty: "c_dirty_cas cl \<or> c_dirty_exec cl"
  shows "\<exists>s' fd. execCommand proc s c = Some (s'\<lparr>sv_monitor_feed := fd\<rparr>) \<and> watch_ok s' \<and> same_data s s' \<and>
    sv_clients s' = (sv_clients s)(c \<mapsto> cleared (cl\<lparr>c_reply := c_reply cl @ [abort_reply cl]\<rparr>))"
proof -
  let ?s1 = "addReply s c (abort_reply cl)"
  have "sv_clients ?s1 c = Some (cl\<lparr>c_reply := c_reply cl @ [abort_reply cl]\<rparr>)" using c by simp
  then obtain s' where s': "discardTransaction ?s1 c = Some s'" "watch_ok s'" "same_data ?s1 s'"
    "sv_clients s' = (sv_clients ?s1)(c \<mapsto> cleared (cl\<lparr>c_reply := c_reply cl @ [abort_reply cl]\<rparr>))"
    using discard_ok [of ?s1 c] ok by auto
  have "sv_clients s' c = Some (cleared (cl\<lparr>c_reply := c_reply cl @ [abort_reply cl]\<rparr>))" by (simp add: s'(4))
  then obtain fd where "feed_exec_monitor s' c = Some (s'\<lparr>sv_monitor_feed := fd\<rparr>)"
    using feed_exec_monitor_ok by blast
  then have "execCommand proc s c = Some (s'\<lparr>sv_monitor_feed := fd\<rparr>)"
    using c m dirty s'(1) by (auto simp: execCommand_def abort_reply_def Let_def)
  moreover have "sv_clients s' = (sv_clients s)(c \<mapsto> cleared (cl\<lparr>c_reply := c_reply cl @ [abort_reply cl]\<rparr>))"
    unfolding s'(4) by (auto simp: fun_eq_iff)
  moreover have "same_data s s'"
    using same_data_trans [OF same_data_client s'(3) [unfolded addReply_def]] .
  ultimately show ?thesis using s'(2) by blast
qed

subsection \<open>What the transactions rely on\<close>

text \<open>\<open>cas_mono\<close>: nothing a client watches is forgotten and no mark is lost.  The commands a client may
  queue keep the state well formed, return, and leave the watches of the other clients alone.\<close>

definition cas_mono :: "nat \<Rightarrow> 'v redisServer \<Rightarrow> 'v redisServer \<Rightarrow> bool" where
  "cas_mono c s s' \<longleftrightarrow> (\<forall>cl. sv_clients s c = Some cl \<longrightarrow>
     (\<exists>cl'. sv_clients s' c = Some cl' \<and> set (c_watched_keys cl) \<subseteq> set (c_watched_keys cl') \<and>
        (c_dirty_cas cl \<longrightarrow> c_dirty_cas cl')))"

definition slowlog_ok :: "slowlog \<Rightarrow> bool" where
  "slowlog_ok sl \<longleftrightarrow> (\<exists>es. slowlog_rep sl es)"

text \<open>Both tables of a database have distinct keys, and a key with an expire time exists.\<close>

definition db_wf :: "(string \<times> 'v) list \<Rightarrow> (string \<times> int) list \<Rightarrow> bool" where
  "db_wf dict expires \<longleftrightarrow> distinct (map fst dict) \<and> distinct (map fst expires) \<and>
     fst ` set expires \<subseteq> fst ` set dict"

definition db_ok :: "'v redisServer \<Rightarrow> bool" where
  "db_ok s \<longleftrightarrow> list_all2 db_wf (map db_dict (sv_db s)) (map db_expires (sv_db s))"

definition server_ok :: "'v redisServer \<Rightarrow> bool" where
  "server_ok s \<longleftrightarrow> watch_ok s \<and> slowlog_ok (sv_slowlog s) \<and> db_ok s"

lemma db_ok_cong: "map db_dict (sv_db s') = map db_dict (sv_db s) \<Longrightarrow>
    map db_expires (sv_db s') = map db_expires (sv_db s) \<Longrightarrow> db_ok s' = db_ok s"
  by (simp add: db_ok_def)

lemma db_ok_same_data: "same_data s s' \<Longrightarrow> db_ok s' = db_ok s"
  by (auto simp: same_data_def db_ok_def)

lemma cas_mono_same: "sv_clients s' c = sv_clients s c \<Longrightarrow> cas_mono c s s'"
  by (simp add: cas_mono_def)

lemma cas_mono_trans: "cas_mono c a b \<Longrightarrow> cas_mono c b d \<Longrightarrow> cas_mono c a d"
  unfolding cas_mono_def by (meson order_trans)

lemma cas_mono_cong: "sv_clients t = sv_clients s \<Longrightarrow> sv_clients t' = sv_clients s' \<Longrightarrow>
  cas_mono c t t' = cas_mono c s s'"
  by (simp add: cas_mono_def)

lemma server_ok_cong:
  assumes "sv_db s' = sv_db s" and "sv_clients s' = sv_clients s" and "sv_slowlog s' = sv_slowlog s"
  shows "server_ok s' = server_ok s"
  using watch_ok_cong [OF assms(1,2)] by (simp add: server_ok_def db_ok_def assms(1,3))

lemma server_ok_client:
  assumes "server_ok s"
    and "\<And>cl. c_watched_keys (f cl) = c_watched_keys cl \<and> c_db (f cl) = c_db cl"
  shows "server_ok (upd_client s x f)"
proof -
  have "watch_ok (upd_client s x f) = watch_ok s" using assms(2) by (intro watch_ok_client) blast
  moreover have "sv_slowlog (upd_client s x f) = sv_slowlog s" by (simp add: upd_client_def)
  ultimately show ?thesis using assms(1) by (simp add: server_ok_def db_ok_def)
qed

lemma server_ok_same_data: "server_ok s \<Longrightarrow> watch_ok s' \<Longrightarrow> same_data s s' \<Longrightarrow> server_ok s'"
  using db_ok_same_data by (auto simp: server_ok_def same_data_def)

lemma slowlog_push_ok:
  "slowlog_ok sl \<Longrightarrow> \<exists>sl'. slowlogPushEntryIfNeeded sl argv d now = Some sl' \<and> slowlog_ok sl'"
  unfolding slowlog_ok_def
  by (cases "0 \<le> sl_log_slower_than sl") (use push_rep in blast, auto simp: slowlogPushEntryIfNeeded_def)

lemma propagate_fields [simp]:
  "sv_db (propagate d av x y s) = sv_db s" "sv_clients (propagate d av x y s) = sv_clients s"
  "sv_slowlog (propagate d av x y s) = sv_slowlog s" "sv_dirty (propagate d av x y s) = sv_dirty s"
  "sv_aof_on (propagate d av x y s) = sv_aof_on s"
  "sv_also_propagate (propagate d av x y s) = sv_also_propagate s"
  "sv_aof (propagate d av x y s) = sv_aof s @ (if sv_aof_on s \<and> x then [(d, av)] else [])"
  by (simp_all add: propagate_def Let_def)

lemma propagate_ops_fields [simp]:
  "sv_db (propagate_ops ops s) = sv_db s" "sv_clients (propagate_ops ops s) = sv_clients s"
  "sv_slowlog (propagate_ops ops s) = sv_slowlog s" "sv_dirty (propagate_ops ops s) = sv_dirty s"
  "sv_aof_on (propagate_ops ops s) = sv_aof_on s"
  unfolding propagate_ops_def by (induction ops arbitrary: s) (auto split: prod.splits)

lemma propagate_ops_aof: "\<exists>x. sv_aof (propagate_ops ops s) = sv_aof s @ x"
  unfolding propagate_ops_def
proof (induction ops arbitrary: s)
  case (Cons p ops)
  obtain d av x y where p: "p = (d, av, x, y)" by (cases p)
  from Cons [of "propagate d av x y s"] show ?case by (auto simp: p)
qed simp

lemma call_slowlog_ok:
  assumes "slowlog_ok (sv_slowlog s)"
  shows "\<exists>sl. call_slowlog f cmd argv d s = Some (s\<lparr>sv_slowlog := sl\<rparr>) \<and> slowlog_ok sl"
proof (cases "f \<and> rc_name cmd \<noteq> ''exec''")
  case True
  then show ?thesis
    using slowlog_push_ok [OF assms, of argv d "sv_ustime s div 1000000"] by (auto simp: call_slowlog_def)
next
  case False
  then have "call_slowlog f cmd argv d s = Some (s\<lparr>sv_slowlog := sv_slowlog s\<rparr>)"
    by (auto simp: call_slowlog_def)
  then show ?thesis using assms by blast
qed

lemma call_pre_fields [simp]:
  "sv_db (call_pre cmd cl s) = sv_db s" "sv_clients (call_pre cmd cl s) = sv_clients s"
  "sv_slowlog (call_pre cmd cl s) = sv_slowlog s" "sv_aof (call_pre cmd cl s) = sv_aof s"
  "sv_aof_on (call_pre cmd cl s) = sv_aof_on s" "sv_dirty (call_pre cmd cl s) = sv_dirty s"
  by (simp_all add: call_pre_def replicationFeedMonitors_def)

text \<open>A call returns when the procedure does; it returns the procedure's state but for the log, the
  statistics and what is propagated.\<close>

lemma call_Some:
  assumes "sv_clients s c = Some cl" and "c_cmd cl = Some cmd"
    and "proc (rc_name cmd) (call_pre cmd cl s) c = Some s2" and "slowlog_ok (sv_slowlog s2)"
    and "sv_clients s2 c = Some cl2" and "c_cmd cl2 = Some cmd2"
  shows "\<exists>s' x. call proc s c f1 f2 f3 = Some s' \<and> sv_db s' = sv_db s2 \<and> sv_clients s' = sv_clients s2 \<and>
    slowlog_ok (sv_slowlog s') \<and> sv_aof_on s' = sv_aof_on s2 \<and> sv_dirty s' = sv_dirty s2 \<and>
    sv_aof s' = sv_aof s2 @
       (if f3 \<and> sv_dirty s2 \<noteq> sv_dirty s \<and> sv_aof_on s2 then [(c_db cl2, c_argv cl2)] else []) @ x \<and>
    (sv_also_propagate s2 = [] \<longrightarrow> x = []) \<and> sv_also_propagate s' = []"
proof -
  define quiet where "quiet = (sv_loading s2 \<and> c_lua_client cl2)"
  define dur where "dur = sv_ustime s2 - sv_ustime s"
  obtain sl where sl: "call_slowlog (f1 \<and> \<not> quiet) cmd2 (c_argv cl2) dur s2 = Some (s2\<lparr>sv_slowlog := sl\<rparr>)"
      "slowlog_ok sl"
    using call_slowlog_ok [OF assms(4)] by blast
  define s4 where "s4 = call_stats (f2 \<and> \<not> quiet) cmd2 dur (s2\<lparr>sv_slowlog := sl\<rparr>)"
  define s5 where "s5 = call_propagate f3 cmd2 (c_db cl2) (c_argv cl2) (sv_dirty s2 - sv_dirty s) s4"
  define s6 where "s6 = propagate_ops (sv_also_propagate s5) s5"
  define s' where "s' = s6\<lparr>sv_also_propagate := [], sv_stat_numcommands := sv_stat_numcommands s6 + 1\<rparr>"
  have run: "call proc s c f1 f2 f3 = Some s'"
    using assms sl(1) by (simp add: call_def Let_def s'_def s6_def s5_def s4_def dur_def quiet_def)
  have f: "sv_db s' = sv_db s2" "sv_clients s' = sv_clients s2" "slowlog_ok (sv_slowlog s')"
      "sv_aof_on s' = sv_aof_on s2" "sv_dirty s' = sv_dirty s2"
    using sl(2) by (simp_all add: s'_def s6_def s5_def s4_def call_propagate_def call_stats_def Let_def)
  have ap: "sv_also_propagate s5 = sv_also_propagate s2" "sv_also_propagate s' = []"
    by (simp_all add: s'_def s5_def s4_def call_propagate_def call_stats_def Let_def)
  obtain x where x: "sv_aof s6 = sv_aof s5 @ x" unfolding s6_def using propagate_ops_aof by blast
  then have "sv_aof s' = sv_aof s2 @
      (if f3 \<and> sv_dirty s2 \<noteq> sv_dirty s \<and> sv_aof_on s2 then [(c_db cl2, c_argv cl2)] else []) @ x"
    by (simp add: s'_def s5_def s4_def call_propagate_def call_stats_def Let_def)
  moreover have "sv_also_propagate s2 = [] \<longrightarrow> x = []"
    using x ap(1) by (auto simp: s6_def propagate_ops_def)
  ultimately show ?thesis using run f ap(2) by blast
qed

lemma call_SomeD:
  assumes "call proc s c f1 f2 f3 = Some s'"
  shows "\<exists>cl cmd s2 cl2 cmd2. sv_clients s c = Some cl \<and> c_cmd cl = Some cmd \<and>
    proc (rc_name cmd) (call_pre cmd cl s) c = Some s2 \<and> sv_clients s2 c = Some cl2 \<and> c_cmd cl2 = Some cmd2"
  using assms by (auto simp: call_def Let_def split: bind_splits)

locale tx_procs =
  fixes proc :: "'v procs"
  assumes keeps_ok: "server_ok s \<Longrightarrow> proc n s c = Some s' \<Longrightarrow> server_ok s'"
    and others: "server_ok s \<Longrightarrow> proc n s c = Some s' \<Longrightarrow> c' \<noteq> c \<Longrightarrow> cas_mono c' s s'"
begin

lemma call_ok:
  assumes ok: "server_ok s" and run: "call proc s c f1 f2 f3 = Some s'"
  shows "server_ok s' \<and> (\<exists>cl'. sv_clients s' c = Some cl') \<and> (\<forall>c'. c' \<noteq> c \<longrightarrow> cas_mono c' s s')"
proof -
  obtain cl cmd s2 cl2 cmd2 where d: "sv_clients s c = Some cl" "c_cmd cl = Some cmd"
    "proc (rc_name cmd) (call_pre cmd cl s) c = Some s2" "sv_clients s2 c = Some cl2" "c_cmd cl2 = Some cmd2"
    using call_SomeD [OF run] by blast
  have okt: "server_ok (call_pre cmd cl s)" using ok server_ok_cong [of "call_pre cmd cl s" s] by simp
  then have ok2: "server_ok s2" using d(3) by (rule keeps_ok)
  then have "slowlog_ok (sv_slowlog s2)" by (simp add: server_ok_def)
  from call_Some [of s c cl cmd proc, OF d(1-3) this d(4,5), of f1 f2 f3] run
  have s': "sv_db s' = sv_db s2" "sv_clients s' = sv_clients s2" "slowlog_ok (sv_slowlog s')" by auto
  have "server_ok s'" using ok2 watch_ok_cong [OF s'(1,2)] s'(1,3) by (simp add: server_ok_def db_ok_def)
  moreover have "cas_mono c' s s'" if "c' \<noteq> c" for c'
    using others [OF okt d(3) that] cas_mono_cong [of s "call_pre cmd cl s" s' s2 c'] s'(2) by simp
  ultimately show ?thesis using s'(2) d(4) by auto
qed

lemma exec_loop_ok:
  "server_ok s \<Longrightarrow> sv_clients s c = Some cl \<Longrightarrow> exec_loop proc s c mcs must = Some (s', must') \<Longrightarrow>
   server_ok s' \<and> (\<exists>cl'. sv_clients s' c = Some cl') \<and> (\<forall>c'. c' \<noteq> c \<longrightarrow> cas_mono c' s s')"
proof (induction mcs arbitrary: s cl must)
  case Nil
  then show ?case by (auto simp: cas_mono_same)
next
  case (Cons mc mcs)
  define s1 where "s1 = upd_client s c (\<lambda>cl. cl\<lparr>c_argv := mc_argv mc, c_cmd := Some (mc_cmd mc)\<rparr>)"
  define b where "b = (\<not> must \<and> \<not> rc_readonly (mc_cmd mc))"
  define s2 where "s2 = (if b then propagate (c_db cl) [''MULTI''] True True s1 else s1)"
  have "server_ok s1" unfolding s1_def using Cons.prems(1) by (rule server_ok_client) simp
  then have ok2: "server_ok s2"
    unfolding s2_def using server_ok_cong [of "propagate (c_db cl) [''MULTI''] True True s1" s1] by simp
  have c2: "sv_clients s2 = sv_clients s1" by (simp add: s2_def)
  have step: "exec_loop proc s c (mc # mcs) must =
      do { s3 \<leftarrow> call proc s2 c True True True; exec_loop proc s3 c mcs (must \<or> b) }"
    using Cons.prems(2)
    by (auto simp: Let_def execCommandPropagateMulti_def s2_def b_def s1_def split: if_splits)
  then obtain s3 where s3: "call proc s2 c True True True = Some s3"
    "exec_loop proc s3 c mcs (must \<or> b) = Some (s', must')"
    using Cons.prems(3) by (auto split: bind_splits)
  obtain cl3 where c3: "server_ok s3" "sv_clients s3 c = Some cl3" "\<And>c'. c' \<noteq> c \<Longrightarrow> cas_mono c' s2 s3"
    using call_ok [OF ok2 s3(1)] by blast
  note s' = Cons.IH [OF c3(1,2) s3(2)]
  moreover have "cas_mono c' s s'" if "c' \<noteq> c" for c'
  proof (rule cas_mono_trans [OF cas_mono_trans])
    show "cas_mono c' s s2" using that by (simp add: cas_mono_same c2 s1_def)
  qed (use c3(3) s' that in blast)+
  ultimately show ?case by blast
qed

lemma exec_clean_ok:
  assumes ok: "server_ok s" and c: "sv_clients s c = Some cl" and m: "c_multi cl"
    and clean: "\<not> c_dirty_cas cl" "\<not> c_dirty_exec cl"
  shows "\<exists>s1. watch_ok s1 \<and> same_data s s1 \<and> sv_clients s1 = (sv_clients s)(c \<mapsto> cl\<lparr>c_watched_keys := []\<rparr>) \<and>
    (case exec_loop proc (addReply s1 c (R_MultiBulkLen (int (length (c_mstate cl))))) c (c_mstate cl) False of
       None \<Rightarrow> execCommand proc s c = None
     | Some (s3, must) \<Rightarrow> \<exists>s' cl'. execCommand proc s c = Some s' \<and> server_ok s' \<and>
         map db_dict (sv_db s') = map db_dict (sv_db s3) \<and> map db_expires (sv_db s') = map db_expires (sv_db s3) \<and>
         sv_aof s' = sv_aof s3 \<and> sv_aof_on s' = sv_aof_on s3 \<and> sv_dirty s' = sv_dirty s3 + (if must then 1 else 0) \<and>
         sv_also_propagate s' = sv_also_propagate s3 \<and> sv_clients s3 c = Some cl' \<and> sv_clients s' = (sv_clients s3)
           (c \<mapsto> cleared (cl'\<lparr>c_argv := c_argv cl, c_cmd := c_cmd cl\<rparr>)) \<and>
         (\<forall>c'. c' \<noteq> c \<longrightarrow> cas_mono c' s s'))"
proof -
  obtain s1 where s1: "unwatchAllKeys s c = Some s1" "watch_ok s1" "same_data s s1"
    "sv_clients s1 = (sv_clients s)(c \<mapsto> cl\<lparr>c_watched_keys := []\<rparr>)"
    using unwatchAllKeys_ok [OF _ c] ok unfolding server_ok_def by blast
  define s2 where "s2 = addReply s1 c (R_MultiBulkLen (int (length (c_mstate cl))))"
  have "server_ok s1" using ok s1(2,3) by (rule server_ok_same_data)
  then have ok2: "server_ok s2" unfolding s2_def addReply_def by (rule server_ok_client) simp
  have c2: "\<exists>cl2. sv_clients s2 c = Some cl2" by (simp add: s2_def s1(4))
  show ?thesis
  proof (cases "exec_loop proc s2 c (c_mstate cl) False")
    case None
    then have "execCommand proc s c = None"
      using c m clean s1(1) by (simp add: execCommand_def Let_def s2_def)
    then show ?thesis using s1(2-4) None unfolding s2_def by fastforce
  next
    case (Some r)
    obtain s3 must where r: "r = (s3, must)" by (cases r)
    obtain cl' where s3: "server_ok s3" "sv_clients s3 c = Some cl'" "\<And>c'. c' \<noteq> c \<Longrightarrow> cas_mono c' s2 s3"
      using exec_loop_ok [OF ok2] c2 Some r by blast
    define s4 where "s4 = upd_client s3 c (\<lambda>cl'. cl'\<lparr>c_argv := c_argv cl, c_cmd := c_cmd cl\<rparr>)"
    have "server_ok s4" unfolding s4_def using s3(1) by (rule server_ok_client) simp
    then have w4: "watch_ok s4" by (simp add: server_ok_def)
    have c4: "sv_clients s4 c = Some (cl'\<lparr>c_argv := c_argv cl, c_cmd := c_cmd cl\<rparr>)"
      using s3(2) by (simp add: s4_def)
    obtain s5 where s5: "discardTransaction s4 c = Some s5" "watch_ok s5" "same_data s4 s5"
      "sv_clients s5 = (sv_clients s4)(c \<mapsto> cleared (cl'\<lparr>c_argv := c_argv cl, c_cmd := c_cmd cl\<rparr>))"
      using discard_ok [OF w4 c4] by blast
    define s6 where "s6 = (if must then s5\<lparr>sv_dirty := sv_dirty s5 + 1\<rparr> else s5)"
    have c6: "sv_clients s6 = sv_clients s5" by (simp add: s6_def)
    then have "sv_clients s6 c = Some (cleared (cl'\<lparr>c_argv := c_argv cl, c_cmd := c_cmd cl\<rparr>))"
      by (simp add: s5(4))
    then obtain fd where fd: "feed_exec_monitor s6 c = Some (s6\<lparr>sv_monitor_feed := fd\<rparr>)"
      using feed_exec_monitor_ok by blast
    let ?s' = "s6\<lparr>sv_monitor_feed := fd\<rparr>"
    have run: "execCommand proc s c = Some ?s'"
      using c m clean s1(1) Some r s5(1) fd
      by (simp add: execCommand_def Let_def s2_def s4_def s6_def)
    have cls: "sv_clients ?s' = (sv_clients s3)(c \<mapsto> cleared (cl'\<lparr>c_argv := c_argv cl, c_cmd := c_cmd cl\<rparr>))"
      using c6 s5(4) by (auto simp: fun_eq_iff s4_def)
    have "sv_slowlog s4 = sv_slowlog s3" "sv_db s4 = sv_db s3" "sv_aof s4 = sv_aof s3"
        "sv_aof_on s4 = sv_aof_on s3" "sv_dirty s4 = sv_dirty s3"
        "sv_also_propagate s4 = sv_also_propagate s3" by (simp_all add: s4_def upd_client_def)
    then have f: "sv_slowlog ?s' = sv_slowlog s3" "map db_dict (sv_db ?s') = map db_dict (sv_db s3)"
        "map db_expires (sv_db ?s') = map db_expires (sv_db s3)" "sv_aof ?s' = sv_aof s3"
        "sv_aof_on ?s' = sv_aof_on s3" "sv_dirty ?s' = sv_dirty s3 + (if must then 1 else 0)"
        "sv_also_propagate ?s' = sv_also_propagate s3"
      using s5(3) by (auto simp: s6_def same_data_def)
    have "watch_ok ?s'" using s5(2) by (subst watch_ok_cong [of _ s5]) (simp_all add: s6_def)
    then have ok': "server_ok ?s'" using f(1) s3(1) db_ok_cong [OF f(2,3)] unfolding server_ok_def by metis
    have "cas_mono c' s ?s'" if "c' \<noteq> c" for c'
    proof (rule cas_mono_trans [OF cas_mono_trans])
      show "cas_mono c' s s2" using that by (simp add: cas_mono_same s2_def s1(4))
      show "cas_mono c' s2 s3" using s3(3) that .
      show "cas_mono c' s3 ?s'" using that cls by (simp add: cas_mono_same)
    qed
    then have "\<exists>s' cl'. execCommand proc s c = Some s' \<and> server_ok s' \<and>
         map db_dict (sv_db s') = map db_dict (sv_db s3) \<and> map db_expires (sv_db s') = map db_expires (sv_db s3) \<and>
         sv_aof s' = sv_aof s3 \<and> sv_aof_on s' = sv_aof_on s3 \<and> sv_dirty s' = sv_dirty s3 + (if must then 1 else 0) \<and>
         sv_also_propagate s' = sv_also_propagate s3 \<and> sv_clients s3 c = Some cl' \<and> sv_clients s' = (sv_clients s3)
           (c \<mapsto> cleared (cl'\<lparr>c_argv := c_argv cl, c_cmd := c_cmd cl\<rparr>)) \<and>
         (\<forall>c'. c' \<noteq> c \<longrightarrow> cas_mono c' s s')"
      using run s3(2) ok' cls f(2-7) by blast
    then show ?thesis using s1(2-4) Some r unfolding s2_def by fastforce
  qed
qed

end

subsection \<open>What a transaction logs\<close>

text \<open>The entries that the expiration of keys writes, and what a procedure may do by itself: log expired keys.\<close>

definition expiries :: "(nat \<times> string list) list \<Rightarrow> bool" where
  "expiries x \<longleftrightarrow> list_all (\<lambda>(d, argv). length argv = 2 \<and> hd argv = ''DEL'') x"

lemma expiries_simps [simp]: "expiries []" "expiries (x @ y) \<longleftrightarrow> expiries x \<and> expiries y" "expiries [(d, [''DEL'', k])]"
  by (auto simp: expiries_def)

definition aof_step :: "'v redisServer \<Rightarrow> 'v redisServer \<Rightarrow> bool" where
  "aof_step s s' \<longleftrightarrow> (\<exists>x. sv_aof s' = sv_aof s @ x \<and> expiries x) \<and> sv_aof_on s' = sv_aof_on s \<and>
     sv_also_propagate s' = sv_also_propagate s"

lemma aof_step_refl: "aof_step s s"
  by (simp add: aof_step_def)

lemma aof_step_trans: "aof_step s t \<Longrightarrow> aof_step t u \<Longrightarrow> aof_step s u"
  by (fastforce simp: aof_step_def)

text \<open>The commands of a queue are called one after the other; each logs the keys that expired meanwhile and, when it changed
  something, itself, with the arguments it leaves behind.  Before a call only the logs and the client's command may change.\<close>

inductive runs ::
  "'v procs \<Rightarrow> nat \<Rightarrow> 'v redisServer \<Rightarrow> multiCmd list \<Rightarrow> (nat \<times> string list) list list \<Rightarrow> 'v redisServer \<Rightarrow> bool"
  for proc c where
  runs_Nil: "runs proc c s [] [] s"
| runs_Cons: "t = (upd_client s c (\<lambda>cl. cl\<lparr>c_argv := mc_argv mc, c_cmd := Some (mc_cmd mc)\<rparr>))\<lparr>sv_aof := a, sv_repl_feed := f\<rparr> \<Longrightarrow>
    call proc t c True True True = Some t' \<Longrightarrow> sv_clients t' c = Some cl' \<Longrightarrow>
    expiries del \<Longrightarrow> l = del @ (if sv_dirty t' = sv_dirty t then [] else [(c_db cl', c_argv cl')]) \<Longrightarrow>
    sv_aof t' = sv_aof t @ l \<Longrightarrow> runs proc c t' mcs ls s' \<Longrightarrow> runs proc c s (mc # mcs) (l # ls) s'"

inductive_cases runs_NilE: "runs proc c s [] ls s'"
inductive_cases runs_ConsE: "runs proc c s (mc # mcs) ls s'"

lemma runs_append: "runs proc c s xs ls t \<Longrightarrow> runs proc c t ys ms u \<Longrightarrow> runs proc c s (xs @ ys) (ls @ ms) u"
  by (induction rule: runs.induct) (auto intro: runs.intros)

lemma runs_length: "runs proc c s mcs ls s' \<Longrightarrow> length ls = length mcs"
  by (induction rule: runs.induct) auto

definition same_tables :: "'v redisServer \<Rightarrow> 'v redisServer \<Rightarrow> bool" where
  "same_tables s t \<longleftrightarrow> map db_dict (sv_db t) = map db_dict (sv_db s) \<and> map db_expires (sv_db t) = map db_expires (sv_db s)"

text \<open>The log of a transaction: the \<^verbatim>\<open>MULTI\<close> stands before what the first command that is not read-only logs.\<close>

definition tx_log :: "nat \<Rightarrow> multiCmd list \<Rightarrow> (nat \<times> string list) list list \<Rightarrow> (nat \<times> string list) list" where
  "tx_log d mcs ls =
     (let n = length (takeWhile (\<lambda>mc. rc_readonly (mc_cmd mc)) mcs)
      in concat (take n ls) @ (d, [''MULTI'']) # concat (drop n ls))"

lemma propagate_eq: "\<exists>f. propagate d av True y s = s\<lparr>sv_aof := sv_aof (propagate d av True y s), sv_repl_feed := f\<rparr>"
  by (auto simp: propagate_def Let_def intro: exI [of _ "sv_repl_feed s"])

text \<open>Procedures that log nothing but expired keys.\<close>

locale log_procs = tx_procs +
  assumes log_step: "proc n s c = Some s' \<Longrightarrow> aof_step s s'"
begin

lemma call_log:
  assumes ok: "server_ok s" and on: "sv_aof_on s" and run: "call proc s c True True True = Some s'"
  shows "\<exists>cl' del. sv_clients s' c = Some cl' \<and> expiries del \<and> sv_aof_on s' \<and> sv_also_propagate s' = [] \<and>
    sv_aof s' = sv_aof s @ del @ (if sv_dirty s' = sv_dirty s then [] else [(c_db cl', c_argv cl')])"
proof -
  obtain cl cmd s2 cl2 cmd2 where d: "sv_clients s c = Some cl" "c_cmd cl = Some cmd"
    "proc (rc_name cmd) (call_pre cmd cl s) c = Some s2" "sv_clients s2 c = Some cl2" "c_cmd cl2 = Some cmd2"
    using call_SomeD [OF run] by blast
  have "server_ok (call_pre cmd cl s)" using ok server_ok_cong [of "call_pre cmd cl s" s] by simp
  then have "server_ok s2" using d(3) by (rule keeps_ok)
  then have sl: "slowlog_ok (sv_slowlog s2)" by (simp add: server_ok_def)
  obtain del where del: "sv_aof s2 = sv_aof s @ del" "expiries del" "sv_aof_on s2 = sv_aof_on s" "sv_also_propagate s2 = []"
    using log_step [OF d(3)] by (auto simp: aof_step_def) (auto simp: call_pre_def)
  from call_Some [of s c cl cmd proc, OF d(1-3) sl d(4,5), of True True True] run del on
  show ?thesis using d(4) by (intro exI [of _ cl2] exI [of _ del]) auto
qed

lemma exec_loop_log:
  "server_ok s \<Longrightarrow> sv_clients s c = Some cl \<Longrightarrow> sv_aof_on s \<Longrightarrow>
   exec_loop proc s c mcs must = Some (s', must') \<Longrightarrow>
   must' = (must \<or> (\<exists>mc \<in> set mcs. \<not> rc_readonly (mc_cmd mc))) \<and> sv_aof_on s' \<and>
   (mcs \<noteq> [] \<longrightarrow> sv_also_propagate s' = []) \<and>
   (\<exists>ls d. runs proc c s mcs ls s' \<and> sv_aof s' = sv_aof s @ (if \<not> must \<and> must' then tx_log d mcs ls else concat ls))"
proof (induction mcs arbitrary: s cl must)
  case Nil
  then show ?case by (auto intro: runs_Nil)
next
  case (Cons mc mcs)
  define s1 where "s1 = upd_client s c (\<lambda>cl. cl\<lparr>c_argv := mc_argv mc, c_cmd := Some (mc_cmd mc)\<rparr>)"
  define b where "b = (\<not> must \<and> \<not> rc_readonly (mc_cmd mc))"
  define s2 where "s2 = (if b then propagate (c_db cl) [''MULTI''] True True s1 else s1)"
  have "server_ok s1" unfolding s1_def using Cons.prems(1) by (rule server_ok_client) simp
  then have ok2: "server_ok s2"
    unfolding s2_def using server_ok_cong [of "propagate (c_db cl) [''MULTI''] True True s1" s1] by simp
  have f1: "sv_aof s1 = sv_aof s" "sv_aof_on s1" using Cons.prems(3) by (simp_all add: s1_def upd_client_def)
  obtain f where t: "s2 = s1\<lparr>sv_aof := sv_aof s2, sv_repl_feed := f\<rparr>"
    using propagate_eq [of "c_db cl" "[''MULTI'']" True s1] by (cases b) (auto simp: s2_def intro: that [of "sv_repl_feed s1"])
  have step: "exec_loop proc s c (mc # mcs) must =
      do { s3 \<leftarrow> call proc s2 c True True True; exec_loop proc s3 c mcs (must \<or> b) }"
    using Cons.prems(2)
    by (auto simp: Let_def execCommandPropagateMulti_def s2_def b_def s1_def split: if_splits)
  then obtain s3 where s3: "call proc s2 c True True True = Some s3"
    "exec_loop proc s3 c mcs (must \<or> b) = Some (s', must')"
    using Cons.prems(4) by (auto split: bind_splits)
  have ok3: "server_ok s3" using call_ok [OF ok2 s3(1)] by blast
  have on2: "sv_aof_on s2" using f1(2) by (simp add: s2_def)
  obtain cl3 del where c3: "sv_clients s3 c = Some cl3" "expiries del" "sv_aof_on s3" "sv_also_propagate s3 = []"
    "sv_aof s3 = sv_aof s2 @ del @ (if sv_dirty s3 = sv_dirty s2 then [] else [(c_db cl3, c_argv cl3)])"
    using call_log [OF ok2 on2 s3(1)] by blast
  define l where "l = del @ (if sv_dirty s3 = sv_dirty s2 then [] else [(c_db cl3, c_argv cl3)])"
  from Cons.IH [OF ok3 c3(1,3) s3(2)] obtain ls d where ih:
    "must' = (must \<or> b \<or> (\<exists>mc \<in> set mcs. \<not> rc_readonly (mc_cmd mc)))" "sv_aof_on s'"
    "mcs \<noteq> [] \<longrightarrow> sv_also_propagate s' = []" "runs proc c s3 mcs ls s'"
    "sv_aof s' = sv_aof s3 @ (if \<not> (must \<or> b) \<and> must' then tx_log d mcs ls else concat ls)"
    by blast
  have r: "runs proc c s (mc # mcs) (l # ls) s'"
    using t s3(1) c3(1,2,5) ih(4) unfolding s1_def l_def by (blast intro: runs_Cons)
  have a2: "sv_aof s2 = sv_aof s @ (if b then [(c_db cl, [''MULTI''])] else [])" using f1 by (simp add: s2_def)
  have "sv_aof s' = sv_aof s @ (if \<not> must \<and> must' then tx_log (if b then c_db cl else d) (mc # mcs) (l # ls) else concat (l # ls))"
    using a2 c3(5) ih(1,5) by (auto simp: b_def l_def tx_log_def Let_def)
  then show ?case using r ih(1-3) s3(2) c3(4) by (cases mcs) (auto simp: b_def)
qed

lemma exec_log:
  assumes ok: "server_ok s" and c: "sv_clients s c = Some cl" and m: "c_multi cl"
    and clean: "\<not> c_dirty_cas cl" "\<not> c_dirty_exec cl" and on: "sv_aof_on s"
    and w: "\<exists>mc \<in> set (c_mstate cl). \<not> rc_readonly (mc_cmd mc)"
    and run: "execCommand proc s c = Some s'"
  shows "\<exists>s0 s1 cl1 cl' ls d. server_ok s0 \<and> same_tables s s0 \<and> sv_dirty s0 = sv_dirty s \<and> runs proc c s0 (c_mstate cl) ls s1 \<and>
    same_tables s1 s' \<and> sv_dirty s' = sv_dirty s1 + 1 \<and> sv_aof_on s' \<and> sv_also_propagate s' = [] \<and>
    sv_clients s1 c = Some cl1 \<and> sv_clients s' c = Some cl' \<and> c_argv cl' = c_argv cl \<and> c_cmd cl' = c_cmd cl \<and> c_reply cl' = c_reply cl1 \<and>
    sv_aof s' = sv_aof s @ tx_log d (c_mstate cl) ls"
proof -
  obtain s1 where s1: "same_data s s1" "sv_clients s1 = (sv_clients s)(c \<mapsto> cl\<lparr>c_watched_keys := []\<rparr>)"
    "case exec_loop proc (addReply s1 c (R_MultiBulkLen (int (length (c_mstate cl))))) c (c_mstate cl) False of
       None \<Rightarrow> execCommand proc s c = None
     | Some (s3, must) \<Rightarrow> \<exists>s' cl'. execCommand proc s c = Some s' \<and> map db_dict (sv_db s') = map db_dict (sv_db s3) \<and>
         map db_expires (sv_db s') = map db_expires (sv_db s3) \<and>
         sv_aof s' = sv_aof s3 \<and> sv_aof_on s' = sv_aof_on s3 \<and> sv_dirty s' = sv_dirty s3 + (if must then 1 else 0) \<and>
         sv_also_propagate s' = sv_also_propagate s3 \<and> sv_clients s3 c = Some cl' \<and> sv_clients s' c =
           Some (cleared (cl'\<lparr>c_argv := c_argv cl, c_cmd := c_cmd cl\<rparr>))" and w1: "watch_ok s1"
    using exec_clean_ok [OF ok c m clean] by (fastforce split: option.splits)
  define s2 where "s2 = addReply s1 c (R_MultiBulkLen (int (length (c_mstate cl))))"
  obtain s3 must cl' where s3: "exec_loop proc s2 c (c_mstate cl) False = Some (s3, must)"
    "same_tables s3 s'" "sv_aof s' = sv_aof s3" "sv_aof_on s' = sv_aof_on s3" "sv_dirty s' = sv_dirty s3 + (if must then 1 else 0)"
    "sv_also_propagate s' = sv_also_propagate s3" "sv_clients s3 c = Some cl'"
    "sv_clients s' c = Some (cleared (cl'\<lparr>c_argv := c_argv cl, c_cmd := c_cmd cl\<rparr>))"
    using s1(3) run unfolding s2_def by (auto simp: same_tables_def split: option.splits)
  have "server_ok s1" using ok w1 s1(1) by (rule server_ok_same_data)
  then have ok2: "server_ok s2" unfolding s2_def addReply_def by (rule server_ok_client) simp
  obtain cl2 where c2: "sv_clients s2 c = Some cl2" by (simp add: s2_def s1(2))
  have f2: "sv_aof_on s2 = sv_aof_on s" "sv_aof s2 = sv_aof s" "sv_dirty s2 = sv_dirty s" "same_tables s s2"
    using s1(1) by (auto simp: s2_def addReply_def upd_client_def same_data_def same_tables_def)
  have on2: "sv_aof_on s2" using f2(1) on by simp
  have "c_mstate cl \<noteq> []" using w by auto
  with exec_loop_log [OF ok2 c2 on2 s3(1)] w obtain ls d where l: "must" "sv_aof_on s3"
    "sv_also_propagate s3 = []" "runs proc c s2 (c_mstate cl) ls s3" "sv_aof s3 = sv_aof s2 @ tx_log d (c_mstate cl) ls"
    by auto
  show ?thesis
    by (intro exI [of _ s2] exI [of _ s3] exI [of _ cl'] exI [of _ "cleared (cl'\<lparr>c_argv := c_argv cl, c_cmd := c_cmd cl\<rparr>)"]
        exI [of _ ls] exI [of _ d])
       (use ok2 f2 l s3 in \<open>simp add: cleared_def\<close>)
qed

end

text \<open>Procedures that also never reset the count of changes.\<close>

locale aof_procs = log_procs +
  assumes dirty_grows: "proc n s c = Some s' \<Longrightarrow> sv_dirty s \<le> sv_dirty s'"
begin

lemma runs_dirty: "runs proc c s mcs ls s' \<Longrightarrow> server_ok s \<Longrightarrow> sv_dirty s \<le> sv_dirty s'"
proof (induction rule: runs.induct)
  case (runs_Cons t f a s mc t' cl' del l mcs ls s')
  have "server_ok (upd_client s c (\<lambda>cl. cl\<lparr>c_argv := mc_argv mc, c_cmd := Some (mc_cmd mc)\<rparr>))"
    by (rule server_ok_client [OF runs_Cons.prems]) simp
  then have t: "server_ok t"
    using server_ok_cong [of t "upd_client s c (\<lambda>cl. cl\<lparr>c_argv := mc_argv mc, c_cmd := Some (mc_cmd mc)\<rparr>)"] runs_Cons.hyps(1) by simp
  obtain cl cmd s2 cl2 cmd2 where d: "sv_clients t c = Some cl" "c_cmd cl = Some cmd"
    "proc (rc_name cmd) (call_pre cmd cl t) c = Some s2" "sv_clients s2 c = Some cl2" "c_cmd cl2 = Some cmd2"
    using call_SomeD [OF runs_Cons.hyps(2)] by blast
  have "server_ok (call_pre cmd cl t)" using t server_ok_cong [of "call_pre cmd cl t" t] by simp
  then have "slowlog_ok (sv_slowlog s2)" using keeps_ok [OF _ d(3)] by (simp add: server_ok_def)
  from call_Some [of t c cl cmd proc, OF d(1-3) this d(4,5), of True True True] runs_Cons.hyps(2) dirty_grows [OF d(3)]
  have "sv_dirty t \<le> sv_dirty t'" by auto
  moreover have "sv_dirty t = sv_dirty s" using runs_Cons.hyps(1) by (simp add: upd_client_def)
  ultimately show ?case using runs_Cons.IH call_ok [OF t runs_Cons.hyps(2)] by auto
qed simp

end

subsection \<open>Histories of transactions\<close>

text \<open>The steps by which clients interleave: a client's next command is read, one of the transaction
  commands runs, a command is queued or called, a key is touched or a database flushed.\<close>

datatype tx_event =
    ERead nat
  | EWatch nat
  | EUnwatch nat
  | EMulti nat
  | EDiscard nat
  | EFlag nat
  | EQueue nat
  | ECall nat
  | EExec nat
  | ETouch nat string
  | EFlush int

inductive tx_step ::
  "'v procs \<Rightarrow> 'v redisServer \<Rightarrow> tx_event \<Rightarrow> 'v redisServer \<Rightarrow> bool"
  for proc where
  step_Read: "tx_step proc s (ERead c)
    (upd_client s c (\<lambda>cl. cl\<lparr>c_cmd := cmd, c_argv := argv\<rparr>))"
| step_Watch: "watchCommand s c = Some s' \<Longrightarrow> tx_step proc s (EWatch c) s'"
| step_Unwatch: "unwatchCommand s c = Some s' \<Longrightarrow> tx_step proc s (EUnwatch c) s'"
| step_Multi: "multiCommand s c = Some s' \<Longrightarrow> tx_step proc s (EMulti c) s'"
| step_Discard: "discardCommand s c = Some s' \<Longrightarrow> tx_step proc s (EDiscard c) s'"
| step_Flag: "tx_step proc s (EFlag c) (flagTransaction s c)"
| step_Queue: "queueMultiCommand s c = Some s' \<Longrightarrow> tx_step proc s (EQueue c) s'"
| step_Call: "call proc s c True True True = Some s' \<Longrightarrow> tx_step proc s (ECall c) s'"
| step_Exec: "execCommand proc s c = Some s' \<Longrightarrow> tx_step proc s (EExec c) s'"
| step_Touch: "d < length (sv_db s) \<Longrightarrow> touchWatchedKey s d k = Some s' \<Longrightarrow> tx_step proc s (ETouch d k) s'"
| step_Flush: "tx_step proc s (EFlush i) (touchWatchedKeysOnFlush s i)"

inductive_cases tx_touchE: "tx_step proc s (ETouch d k) s'"

inductive tx_run ::
  "'v procs \<Rightarrow> 'v redisServer \<Rightarrow> tx_event list \<Rightarrow> 'v redisServer \<Rightarrow> bool"
  for proc where
  run_Nil: "tx_run proc s [] s"
| run_Cons: "tx_step proc s e s1 \<Longrightarrow> tx_run proc s1 es s' \<Longrightarrow> tx_run proc s (e # es) s'"

inductive_simps tx_run_simps:
  "tx_run proc s [] s'"
  "tx_run proc s (e # es) s'"

lemma tx_run_append:
  "tx_run proc s (es @ es') s' \<longleftrightarrow> (\<exists>s1. tx_run proc s es s1 \<and> tx_run proc s1 es' s')"
  by (induction es arbitrary: s) (auto simp: tx_run_simps)

text \<open>The events after which client \<open>c\<close> may watch less, or be marked no more.\<close>

definition ends_watch :: "nat \<Rightarrow> tx_event \<Rightarrow> bool" where
  "ends_watch c e \<longleftrightarrow> e \<in> {EUnwatch c, EDiscard c, EExec c, ECall c}"

text \<open>What every step keeps: the invariant, and the watches of \<open>c\<close> unless it ends them.\<close>

definition keeps :: "nat \<Rightarrow> tx_event \<Rightarrow> 'v redisServer \<Rightarrow> 'v redisServer \<Rightarrow> bool" where
  "keeps c e s s' \<longleftrightarrow> server_ok s' \<and> (\<not> ends_watch c e \<longrightarrow> cas_mono c s s')"

lemma keeps_upd_client:
  assumes "server_ok s"
    and "\<And>cl. c_watched_keys (f cl) = c_watched_keys cl \<and> c_db (f cl) = c_db cl \<and>
      (c_dirty_cas cl \<longrightarrow> c_dirty_cas (f cl))"
  shows "keeps c e s (upd_client s x f)"
proof -
  have "server_ok (upd_client s x f)" using assms by (intro server_ok_client) blast+
  moreover have "cas_mono c s (upd_client s x f)" using assms(2) by (auto simp: cas_mono_def)
  ultimately show ?thesis by (simp add: keeps_def)
qed

lemma keeps_reply: "server_ok s \<Longrightarrow> keeps c e s (addReply s x r)"
  unfolding addReply_def by (rule keeps_upd_client) auto

lemma keeps_trans: "keeps c e s s1 \<Longrightarrow> keeps c e s1 s' \<Longrightarrow> keeps c e s s'"
  unfolding keeps_def by (blast intro: cas_mono_trans)

lemma watch_loop_ok:
  "watch_ok s \<Longrightarrow> sv_clients s c = Some cl \<Longrightarrow>
   \<exists>s' ws. run_option (\<lambda>s key. watchForKey s c key) s ks = Some s' \<and> watch_ok s' \<and> same_data s s' \<and>
     sv_clients s' = (sv_clients s)(c \<mapsto> cl\<lparr>c_watched_keys := ws\<rparr>) \<and>
     set ws = (\<lambda>k. (k, c_db cl)) ` set ks \<union> set (c_watched_keys cl)"
proof (induction ks arbitrary: s cl)
  case Nil
  have "sv_clients s = (sv_clients s)(c \<mapsto> cl\<lparr>c_watched_keys := c_watched_keys cl\<rparr>)"
    using Nil(2) by (simp add: fun_upd_idem)
  then have "run_option (\<lambda>s key. watchForKey s c key) s [] = Some s \<and> watch_ok s \<and> same_data s s \<and>
     sv_clients s = (sv_clients s)(c \<mapsto> cl\<lparr>c_watched_keys := c_watched_keys cl\<rparr>) \<and>
     set (c_watched_keys cl) = (\<lambda>k. (k, c_db cl)) ` set [] \<union> set (c_watched_keys cl)"
    using Nil(1) same_data_refl by simp
  then show ?case by blast
next
  case (Cons k ks)
  obtain s1 ws1 where s1: "watchForKey s c k = Some s1" "watch_ok s1" "same_data s s1"
    "sv_clients s1 = (sv_clients s)(c \<mapsto> cl\<lparr>c_watched_keys := ws1\<rparr>)"
    "set ws1 = insert (k, c_db cl) (set (c_watched_keys cl))"
    using watchForKey_ok [OF Cons.prems] by blast
  have "sv_clients s1 c = Some (cl\<lparr>c_watched_keys := ws1\<rparr>)" by (simp add: s1(4))
  from Cons.IH [OF s1(2) this] obtain s' ws where s':
    "run_option (\<lambda>s key. watchForKey s c key) s1 ks = Some s'" "watch_ok s'" "same_data s1 s'"
    "sv_clients s' = (sv_clients s1)(c \<mapsto> cl\<lparr>c_watched_keys := ws1, c_watched_keys := ws\<rparr>)"
    "set ws = (\<lambda>k. (k, c_db (cl\<lparr>c_watched_keys := ws1\<rparr>))) ` set ks \<union>
      set (c_watched_keys (cl\<lparr>c_watched_keys := ws1\<rparr>))"
    by blast
  have "sv_clients s' = (sv_clients s)(c \<mapsto> cl\<lparr>c_watched_keys := ws\<rparr>)" unfolding s'(4) s1(4) by simp
  moreover have "set ws = (\<lambda>k. (k, c_db cl)) ` set (k # ks) \<union> set (c_watched_keys cl)"
    using s'(5) s1(5) by auto
  moreover have "run_option (\<lambda>s key. watchForKey s c key) s (k # ks) = Some s'" using s1(1) s'(1) by simp
  ultimately show ?case using s'(2) same_data_trans [OF s1(3) s'(3)] by blast
qed

lemma keeps_watch:
  assumes ok: "server_ok s" and run: "watchCommand s x = Some s'"
  shows "keeps c e s s'"
proof -
  obtain cl where cl: "sv_clients s x = Some cl" using run by (auto simp: watchCommand_def split: bind_splits)
  have w: "watch_ok s" using ok by (simp add: server_ok_def)
  show ?thesis
  proof (cases "c_multi cl")
    case True
    then show ?thesis using run cl keeps_reply [OF ok] by (auto simp: watchCommand_def)
  next
    case False
    obtain s1 ws where s1: "run_option (\<lambda>s key. watchForKey s x key) s (tl (c_argv cl)) = Some s1"
      "watch_ok s1" "same_data s s1" "sv_clients s1 = (sv_clients s)(x \<mapsto> cl\<lparr>c_watched_keys := ws\<rparr>)"
      "set ws = (\<lambda>k. (k, c_db cl)) ` set (tl (c_argv cl)) \<union> set (c_watched_keys cl)"
      using watch_loop_ok [OF w cl] by blast
    have ok1: "server_ok s1"
      using ok s1(2,3) by (rule server_ok_same_data)
    have "cas_mono c s s1" using cl s1(5) by (auto simp: cas_mono_def s1(4))
    then have "keeps c e s s1" using ok1 by (simp add: keeps_def)
    then have "keeps c e s (addReply s1 x (R_Status ''OK''))"
      by (rule keeps_trans [OF _ keeps_reply [OF ok1]])
    then show ?thesis using run cl False s1(1) by (simp add: watchCommand_def)
  qed
qed

lemma keeps_unwatch:
  assumes ok: "server_ok s" and run: "unwatchCommand s x = Some s'"
  shows "keeps c (EUnwatch x) s s'"
proof -
  obtain cl where cl: "sv_clients s x = Some cl"
    using run by (auto simp: unwatchCommand_def unwatchAllKeys_def split: bind_splits)
  have w: "watch_ok s" using ok by (simp add: server_ok_def)
  obtain s1 where s1: "unwatchAllKeys s x = Some s1" "watch_ok s1" "same_data s s1"
    "sv_clients s1 = (sv_clients s)(x \<mapsto> cl\<lparr>c_watched_keys := []\<rparr>)"
    using unwatchAllKeys_ok [OF w cl] by blast
  let ?s2 = "upd_client s1 x (\<lambda>cl. cl\<lparr>c_dirty_cas := False\<rparr>)"
  have "server_ok s1"
    using ok s1(2,3) by (rule server_ok_same_data)
  then have ok2: "server_ok ?s2" by (rule server_ok_client) auto
  have "\<not> ends_watch c (EUnwatch x) \<Longrightarrow> cas_mono c s ?s2"
    by (rule cas_mono_same) (auto simp: ends_watch_def s1(4))
  then have "keeps c (EUnwatch x) s ?s2" using ok2 by (simp add: keeps_def)
  then show ?thesis
    using run s1(1) keeps_trans [OF _ keeps_reply [OF ok2]] by (auto simp: unwatchCommand_def)
qed

lemma keeps_multi: "server_ok s \<Longrightarrow> multiCommand s x = Some s' \<Longrightarrow> keeps c e s s'"
  by (auto simp: multiCommand_def addReply_def split: bind_splits if_splits
      intro!: keeps_upd_client server_ok_client keeps_trans [OF keeps_upd_client keeps_upd_client])

lemma keeps_discard:
  assumes ok: "server_ok s" and run: "discardCommand s x = Some s'"
  shows "keeps c (EDiscard x) s s'"
proof -
  obtain cl where cl: "sv_clients s x = Some cl" using run by (auto simp: discardCommand_def split: bind_splits)
  have w: "watch_ok s" using ok by (simp add: server_ok_def)
  obtain s1 where s1: "discardTransaction s x = Some s1" "watch_ok s1" "same_data s s1"
    "sv_clients s1 = (sv_clients s)(x \<mapsto> cleared cl)"
    using discard_ok [OF w cl] by blast
  have ok1: "server_ok s1"
    using ok s1(2,3) by (rule server_ok_same_data)
  have "\<not> ends_watch c (EDiscard x) \<Longrightarrow> cas_mono c s s1"
    by (rule cas_mono_same) (auto simp: ends_watch_def s1(4))
  then have "keeps c (EDiscard x) s s1" using ok1 by (simp add: keeps_def)
  then show ?thesis
    using run cl s1(1) keeps_trans [OF _ keeps_reply [OF ok1]] keeps_reply [OF ok]
    by (auto simp: discardCommand_def split: if_splits)
qed

lemma keeps_flush:
  "server_ok s \<Longrightarrow> keeps c e s (touchWatchedKeysOnFlush s i)"
proof -
  have "server_ok s \<Longrightarrow> keeps c e s (fold (\<lambda>c s. upd_client s c (\<lambda>cl.
      if list_ex (flush_hits s i) (c_watched_keys cl) then cl\<lparr>c_dirty_cas := True\<rparr> else cl)) xs s)" for xs
  proof (induction xs arbitrary: s)
    case Nil
    then show ?case by (simp add: keeps_def cas_mono_same)
  next
    case (Cons x xs)
    have "keeps c e s (upd_client s x (\<lambda>cl.
        if list_ex (flush_hits s i) (c_watched_keys cl) then cl\<lparr>c_dirty_cas := True\<rparr> else cl))"
      using Cons.prems by (rule keeps_upd_client) auto
    moreover from this have "server_ok (upd_client s x (\<lambda>cl.
        if list_ex (flush_hits s i) (c_watched_keys cl) then cl\<lparr>c_dirty_cas := True\<rparr> else cl))"
      by (simp add: keeps_def)
    ultimately show ?case using Cons.IH keeps_trans by (simp only: fold_Cons o_apply) blast
  qed
  then show "server_ok s \<Longrightarrow> keeps c e s (touchWatchedKeysOnFlush s i)"
    by (simp add: touchWatchedKeysOnFlush_def)
qed

lemma keeps_touch:
  assumes ok: "server_ok s" and d: "d < length (sv_db s)" and run: "touchWatchedKey s d k = Some s'"
  shows "keeps c e s s'"
proof -
  have w: "watch_ok s" using ok by (simp add: server_ok_def)
  then have s': "watch_ok s'" "same_data s s'" "\<And>c. sv_clients s' c = map_option (\<lambda>cl. if (k, d) \<in> set (c_watched_keys cl)
       then cl\<lparr>c_dirty_cas := True\<rparr> else cl) (sv_clients s c)"
    using touch_ok [OF w d, of k] run by auto
  have "server_ok s'" using ok s'(1,2) by (rule server_ok_same_data)
  moreover have "cas_mono c s s'" by (auto simp: cas_mono_def s'(3))
  ultimately show ?thesis by (simp add: keeps_def)
qed

context tx_procs
begin

lemma keeps_exec:
  assumes ok: "server_ok s" and run: "execCommand proc s x = Some s'"
  shows "keeps c (EExec x) s s'"
proof -
  obtain cl where cl: "sv_clients s x = Some cl" using run by (auto simp: execCommand_def split: bind_splits)
  have w: "watch_ok s" using ok by (simp add: server_ok_def)
  consider (no) "\<not> c_multi cl" | (dirty) "c_multi cl" "c_dirty_cas cl \<or> c_dirty_exec cl"
    | (clean) "c_multi cl" "\<not> c_dirty_cas cl" "\<not> c_dirty_exec cl" by blast
  then show ?thesis
  proof cases
    case no
    then show ?thesis using run cl keeps_reply [OF ok] by (auto simp: execCommand_def)
  next
    case dirty
    obtain s1 fd where s1: "execCommand proc s x = Some (s1\<lparr>sv_monitor_feed := fd\<rparr>)" "watch_ok s1" "same_data s s1"
      "sv_clients s1 = (sv_clients s)(x \<mapsto> cleared (cl\<lparr>c_reply := c_reply cl @ [abort_reply cl]\<rparr>))"
      using exec_dirty_ok [OF w cl dirty] by blast
    have "server_ok s1"
      using ok s1(2,3) by (rule server_ok_same_data)
    then have "server_ok s'" using s1(1) run server_ok_cong [of s' s1] by simp
    moreover have "\<not> ends_watch c (EExec x) \<Longrightarrow> cas_mono c s s'"
      using s1(1) run by (intro cas_mono_same) (auto simp: ends_watch_def s1(4))
    ultimately show ?thesis by (simp add: keeps_def)
  next
    case clean
    from exec_clean_ok [OF ok cl clean] have "server_ok s'" "\<And>c'. c' \<noteq> x \<Longrightarrow> cas_mono c' s s'"
      using run by (auto split: option.splits)
    then show ?thesis by (auto simp: keeps_def ends_watch_def)
  qed
qed

lemma keeps_call: "server_ok s \<Longrightarrow> call proc s x True True True = Some s' \<Longrightarrow> keeps c (ECall x) s s'"
  using call_ok by (auto simp: keeps_def ends_watch_def)

lemma keeps_step: "tx_step proc s e s' \<Longrightarrow> server_ok s \<Longrightarrow> keeps c e s s'"
proof (induction rule: tx_step.induct)
  case (step_Read s x cmd argv)
  then show ?case by (rule keeps_upd_client) auto
next
  case (step_Flag s x)
  then show ?case unfolding flagTransaction_def by (rule keeps_upd_client) (auto split: if_splits)
next
  case (step_Queue s x s')
  then show ?case by (auto simp: queueMultiCommand_def split: bind_splits intro!: keeps_upd_client)
next
  case (step_Call s x s')
  then show ?case by (intro keeps_call)
qed (auto intro: keeps_watch keeps_unwatch keeps_multi keeps_discard keeps_exec keeps_call keeps_touch keeps_flush)

lemma keeps_run:
  assumes "tx_run proc s es s'" and "server_ok s"
  shows "server_ok s' \<and> ((\<forall>e \<in> set es. \<not> ends_watch c e) \<longrightarrow> cas_mono c s s')"
  using assms
proof (induction rule: tx_run.induct)
  case (run_Nil s)
  then show ?case by (simp add: cas_mono_same)
next
  case (run_Cons s e s1 es s')
  then show ?case using keeps_step [of s e s1 c] by (auto simp: keeps_def intro: cas_mono_trans)
qed

lemma watched_touched_dirty:
  assumes ok: "server_ok s" and c: "sv_clients s c = Some cl" and k: "(k, d) \<in> set (c_watched_keys cl)"
    and run: "tx_run proc s (es @ ETouch d k # es') s'"
    and e: "\<forall>e \<in> set es \<union> set es'. \<not> ends_watch c e"
  shows "server_ok s' \<and> (\<exists>cl'. sv_clients s' c = Some cl' \<and> c_dirty_cas cl')"
proof -
  obtain s1 s2 where r: "tx_run proc s es s1" "tx_step proc s1 (ETouch d k) s2"
    "tx_run proc s2 es' s'"
    using run by (auto simp: tx_run_append tx_run_simps)
  have ok1: "server_ok s1" and m1: "cas_mono c s s1" using keeps_run [OF r(1) ok] e by blast+
  then obtain cl1 where cl1: "sv_clients s1 c = Some cl1" "(k, d) \<in> set (c_watched_keys cl1)"
    using c k unfolding cas_mono_def by blast
  have t: "touchWatchedKey s1 d k = Some s2" "d < length (sv_db s1)" using r(2) by (auto elim: tx_touchE)
  have "watch_ok s1" using ok1 by (simp add: server_ok_def)
  then have c2: "sv_clients s2 c = Some (cl1\<lparr>c_dirty_cas := True\<rparr>)"
    using touch_ok [OF _ t(2), of k] t(1) cl1 by auto
  have ok2: "server_ok s2" using keeps_step [OF r(2) ok1] by (simp add: keeps_def)
  show ?thesis using keeps_run [OF r(3) ok2, of c] e c2 unfolding cas_mono_def by fastforce
qed

end

subsection \<open>The initial state\<close>

lemma init_dbs: "get_db (initServer us) d = (if d < REDIS_DEFAULT_DBNUM then Some empty_db else None)"
  by (simp add: get_db_def initServer_def)

lemma init_clients [simp]: "sv_clients (initServer us) = Map.empty"
  by (simp add: initServer_def)

lemma init_watchers [simp]: "watchers (initServer us) d k = []"
  by (simp add: watchers_def init_dbs empty_db_def)

lemma init_watch_ok: "watch_ok (initServer us)"
  by (rule watch_okI) (auto simp: tables_ok_def init_dbs empty_db_def split: if_splits)

lemma createClient_fields [simp]:
  "sv_clients (createClient s c) = (sv_clients s)(c \<mapsto> new_client)" "sv_db (createClient s c) = sv_db s"
  "get_db (createClient s c) = get_db s" "sv_slowlog (createClient s c) = sv_slowlog s"
  by (simp_all add: createClient_def get_db_def fun_eq_iff)

lemma new_client_fields [simp]:
  "c_watched_keys new_client = []" "c_db new_client = 0" "c_mstate new_client = []" "c_reply new_client = []"
  "c_dirty_exec new_client = False"
  by (simp_all add: new_client_def)

lemma createClient_watch_ok:
  assumes ok: "watch_ok s" and c: "sv_clients s c = None" and n: "sv_db s \<noteq> []"
  shows "watch_ok (createClient s c)"
proof (rule watch_okI)
  have w: "watchers (createClient s c) = watchers s" by (simp add: watchers_def fun_eq_iff)
  show "tables_ok (createClient s c)"
    using ok unfolding watch_ok_def tables_ok_def createClient_fields by blast
  show "distinct (watchers (createClient s c) d k)" for d k using ok by (simp add: watch_ok_def w)
  show "x \<in> set (watchers (createClient s c) d k) \<longleftrightarrow>
    (\<exists>cl. sv_clients (createClient s c) x = Some cl \<and> (k, d) \<in> set (c_watched_keys cl))" for x d k
    using ok c by (auto simp: watch_ok_def w)
  show "distinct (c_watched_keys cl) \<and> c_db cl < length (sv_db (createClient s c))"
    if "sv_clients (createClient s c) x = Some cl" for x cl
    using that ok n by (auto simp: watch_ok_def split: if_splits)
qed

lemma init_server_ok: "server_ok (initServer us)"
proof -
  have "slowlog_ok (sv_slowlog (initServer us))"
    using init_rep by (auto simp: slowlog_ok_def initServer_def)
  moreover have "db_ok (initServer us)"
    by (simp add: db_ok_def db_wf_def initServer_def empty_db_def list_all2_conv_all_nth)
  ultimately show ?thesis by (simp add: server_ok_def init_watch_ok)
qed

lemma createClient_server_ok:
  "server_ok s \<Longrightarrow> sv_clients s c = None \<Longrightarrow> sv_db s \<noteq> [] \<Longrightarrow> server_ok (createClient s c)"
  by (simp add: server_ok_def createClient_watch_ok db_ok_def)

lemma createClient_new: "sv_clients (createClient s c) c = Some new_client"
  by simp

lemma new_client_ok: "watch_ok (createClient (initServer us) c)"
  by (rule createClient_watch_ok [OF init_watch_ok]) (simp_all add: initServer_def REDIS_DEFAULT_DBNUM_def)

subsection \<open>Properties\<close>

text \<open>When the tables of watched keys agree, touching a key of an existing database marks exactly the
  clients that watch it as having a doomed transaction, and keeps the agreement and the data.\<close>

theorem touchWatchedKey_marks_watchers:
  assumes "watch_ok s" and "d < length (sv_db s)"
  shows "\<exists>s'. touchWatchedKey s d k = Some s' \<and> watch_ok s' \<and> same_data s s' \<and>
    (\<forall>c. sv_clients s' c = map_option (\<lambda>cl. if (k, d) \<in> set (c_watched_keys cl)
       then cl\<lparr>c_dirty_cas := True\<rparr> else cl) (sv_clients s c))"
  by (rule touch_ok [OF assms])

theorem touchWatchedKey_marks_watchers_witness:
  "\<exists>s s'. watchForKey (createClient (initServer 0 :: unit redisServer) 7) 7 ''k'' = Some s \<and>
    touchWatchedKey s 0 ''k'' = Some s' \<and> map_option c_dirty_cas (sv_clients s' 7) = Some True"
proof -
  obtain s ws where s: "watchForKey (createClient (initServer 0 :: unit redisServer) 7) 7 ''k'' = Some s" "watch_ok s"
    "same_data (createClient (initServer 0 :: unit redisServer) 7) s"
    "sv_clients s = (sv_clients (createClient (initServer 0 :: unit redisServer) 7))(7 \<mapsto> new_client\<lparr>c_watched_keys := ws\<rparr>)"
    "set ws = insert (''k'', c_db new_client) (set (c_watched_keys new_client))"
    using watchForKey_ok [OF new_client_ok createClient_new, of 0 7 "''k''"] by blast
  have "0 < length (sv_db s)"
    using s(2,4) unfolding watch_ok_def by (metis fun_upd_same gr_zeroI not_less_zero)
  from touchWatchedKey_marks_watchers [OF s(2) this, of "''k''"] show ?thesis
    using s(1,4,5) by auto
qed

text \<open>\<^verbatim>\<open>WATCH\<close> and \<^verbatim>\<open>UNWATCH\<close> keep the table of watched keys of every database and the list of every
  client in agreement.  Outside a transaction \<^verbatim>\<open>WATCH\<close> adds exactly its arguments, in the client's
  database; \<^verbatim>\<open>UNWATCH\<close> removes all of them and the mark.  No assertion fails.\<close>

theorem watch_unwatch_agree:
  assumes "watch_ok s" and "sv_clients s c = Some cl"
  shows "(\<not> c_multi cl \<longrightarrow> (\<exists>s' cl'. watchCommand s c = Some s' \<and> watch_ok s' \<and> sv_clients s' c = Some cl' \<and>
      set (c_watched_keys cl') = (\<lambda>k. (k, c_db cl)) ` set (tl (c_argv cl)) \<union> set (c_watched_keys cl))) \<and>
    (\<exists>s' cl'. unwatchCommand s c = Some s' \<and> watch_ok s' \<and> sv_clients s' c = Some cl' \<and>
      c_watched_keys cl' = [] \<and> \<not> c_dirty_cas cl')"
proof (intro conjI impI)
  obtain s1 ws where s1: "run_option (\<lambda>s key. watchForKey s c key) s (tl (c_argv cl)) = Some s1" "watch_ok s1"
    "sv_clients s1 = (sv_clients s)(c \<mapsto> cl\<lparr>c_watched_keys := ws\<rparr>)"
    "set ws = (\<lambda>k. (k, c_db cl)) ` set (tl (c_argv cl)) \<union> set (c_watched_keys cl)"
    using watch_loop_ok [OF assms] by blast
  show "\<exists>s' cl'. watchCommand s c = Some s' \<and> watch_ok s' \<and> sv_clients s' c = Some cl' \<and>
      set (c_watched_keys cl') = (\<lambda>k. (k, c_db cl)) ` set (tl (c_argv cl)) \<union> set (c_watched_keys cl)"
    if "\<not> c_multi cl"
    using that s1 assms(2) by (auto simp: watchCommand_def)
  obtain s2 where s2: "unwatchAllKeys s c = Some s2" "watch_ok s2"
    "sv_clients s2 = (sv_clients s)(c \<mapsto> cl\<lparr>c_watched_keys := []\<rparr>)"
    using unwatchAllKeys_ok [OF assms] by blast
  have "watch_ok (upd_client s2 c (\<lambda>cl. cl\<lparr>c_dirty_cas := False\<rparr>))"
    using s2(2) by (subst watch_ok_client) auto
  then show "\<exists>s' cl'. unwatchCommand s c = Some s' \<and> watch_ok s' \<and> sv_clients s' c = Some cl' \<and>
      c_watched_keys cl' = [] \<and> \<not> c_dirty_cas cl'"
    using s2(1,3) by (simp add: unwatchCommand_def)
qed

theorem watch_unwatch_agree_witness:
  "\<exists>s'. unwatchCommand (createClient (initServer 0 :: unit redisServer) 7) 7 = Some s' \<and> watch_ok s'"
  using watch_unwatch_agree [OF new_client_ok createClient_new] by blast

text \<open>\<^verbatim>\<open>EXEC\<close> of a transaction that is marked, by a touched key or by an error while queueing, calls no
  queued command: it replies nil or \<^verbatim>\<open>EXECABORT\<close>, empties the queue, clears the flags and the watches of
  the client, and leaves the data, the other clients, the append-only file and the replication stream
  as they were.\<close>

theorem execCommand_aborts:
  assumes "watch_ok s" and "sv_clients s c = Some cl" and "c_multi cl" and "c_dirty_cas cl \<or> c_dirty_exec cl"
  shows "\<exists>s' fd. execCommand proc s c = Some (s'\<lparr>sv_monitor_feed := fd\<rparr>) \<and> watch_ok s' \<and> same_data s s' \<and>
    sv_clients s' = (sv_clients s)(c \<mapsto> cleared (cl\<lparr>c_reply := c_reply cl @ [abort_reply cl]\<rparr>))"
  by (rule exec_dirty_ok [OF assms])

theorem execCommand_aborts_witness:
  "\<exists>s'. execCommand (\<lambda>_ _ _. None) (upd_client (createClient (initServer 0 :: unit redisServer) 7) 7
      (\<lambda>cl. cl\<lparr>c_multi := True, c_dirty_cas := True\<rparr>)) 7 = Some s' \<and>
    map_option c_reply (sv_clients s' 7) = Some [R_NullMultiBulk]"
proof -
  let ?s = "upd_client (createClient (initServer 0 :: unit redisServer) 7) 7 (\<lambda>cl. cl\<lparr>c_multi := True, c_dirty_cas := True\<rparr>)"
  let ?cl = "new_client\<lparr>c_multi := True, c_dirty_cas := True\<rparr>"
  have ok: "watch_ok ?s" using new_client_ok by (subst watch_ok_client) auto
  have cl: "sv_clients ?s 7 = Some ?cl" "c_multi ?cl" "c_dirty_cas ?cl \<or> c_dirty_exec ?cl" by simp_all
  from execCommand_aborts [OF ok cl, of "\<lambda>_ _ _. None"] show ?thesis
    by (auto simp: cleared_def abort_reply_def)
qed

end
