(* ===== verification/Commands.thy ===== *)
theory Commands
  imports Server CLib
begin

section \<open>The command table (\<^verbatim>\<open>redis.c\<close>) and key positions (\<^verbatim>\<open>db.c\<close>)\<close>

text \<open>
  The table of commands as the source has it, without the procedure pointers and the statistics: name,
  arity, flag letters, key function, first key, last key and key step.  Populating it turns the
  letters into flags and refuses an unknown letter or a second command of the same name.  Names are
  compared without regard to case; a name with a NUL byte is no name of a command, as the table hashes
  all its bytes.  The \<^verbatim>\<open>rename-command\<close> directive is not modelled, so the tables
  \<^verbatim>\<open>server.commands\<close> and \<^verbatim>\<open>server.orig_commands\<close> are the same.
\<close>

type_synonym command_row = "string \<times> int \<times> string \<times> getkeys_proc \<times> int \<times> int \<times> int"

definition redisCommandTable :: "command_row list" where
  "redisCommandTable = [
     (''get'', 2, ''r'', GK_None, 1, 1, 1),
     (''set'', - 3, ''wm'', GK_NoPreload, 1, 1, 1),
     (''setnx'', 3, ''wm'', GK_NoPreload, 1, 1, 1),
     (''setex'', 4, ''wm'', GK_NoPreload, 1, 1, 1),
     (''psetex'', 4, ''wm'', GK_NoPreload, 1, 1, 1),
     (''append'', 3, ''wm'', GK_None, 1, 1, 1),
     (''strlen'', 2, ''r'', GK_None, 1, 1, 1),
     (''del'', - 2, ''w'', GK_NoPreload, 1, - 1, 1),
     (''exists'', 2, ''r'', GK_None, 1, 1, 1),
     (''setbit'', 4, ''wm'', GK_None, 1, 1, 1),
     (''getbit'', 3, ''r'', GK_None, 1, 1, 1),
     (''setrange'', 4, ''wm'', GK_None, 1, 1, 1),
     (''getrange'', 4, ''r'', GK_None, 1, 1, 1),
     (''substr'', 4, ''r'', GK_None, 1, 1, 1),
     (''incr'', 2, ''wm'', GK_None, 1, 1, 1),
     (''decr'', 2, ''wm'', GK_None, 1, 1, 1),
     (''mget'', - 2, ''r'', GK_None, 1, - 1, 1),
     (''rpush'', - 3, ''wm'', GK_None, 1, 1, 1),
     (''lpush'', - 3, ''wm'', GK_None, 1, 1, 1),
     (''rpushx'', 3, ''wm'', GK_None, 1, 1, 1),
     (''lpushx'', 3, ''wm'', GK_None, 1, 1, 1),
     (''linsert'', 5, ''wm'', GK_None, 1, 1, 1),
     (''rpop'', 2, ''w'', GK_None, 1, 1, 1),
     (''lpop'', 2, ''w'', GK_None, 1, 1, 1),
     (''brpop'', - 3, ''ws'', GK_None, 1, 1, 1),
     (''brpoplpush'', 4, ''wms'', GK_None, 1, 2, 1),
     (''blpop'', - 3, ''ws'', GK_None, 1, - 2, 1),
     (''llen'', 2, ''r'', GK_None, 1, 1, 1),
     (''lindex'', 3, ''r'', GK_None, 1, 1, 1),
     (''lset'', 4, ''wm'', GK_None, 1, 1, 1),
     (''lrange'', 4, ''r'', GK_None, 1, 1, 1),
     (''ltrim'', 4, ''w'', GK_None, 1, 1, 1),
     (''lrem'', 4, ''w'', GK_None, 1, 1, 1),
     (''rpoplpush'', 3, ''wm'', GK_None, 1, 2, 1),
     (''sadd'', - 3, ''wm'', GK_None, 1, 1, 1),
     (''srem'', - 3, ''w'', GK_None, 1, 1, 1),
     (''smove'', 4, ''w'', GK_None, 1, 2, 1),
     (''sismember'', 3, ''r'', GK_None, 1, 1, 1),
     (''scard'', 2, ''r'', GK_None, 1, 1, 1),
     (''spop'', 2, ''wRs'', GK_None, 1, 1, 1),
     (''srandmember'', - 2, ''rR'', GK_None, 1, 1, 1),
     (''sinter'', - 2, ''rS'', GK_None, 1, - 1, 1),
     (''sinterstore'', - 3, ''wm'', GK_None, 1, - 1, 1),
     (''sunion'', - 2, ''rS'', GK_None, 1, - 1, 1),
     (''sunionstore'', - 3, ''wm'', GK_None, 1, - 1, 1),
     (''sdiff'', - 2, ''rS'', GK_None, 1, - 1, 1),
     (''sdiffstore'', - 3, ''wm'', GK_None, 1, - 1, 1),
     (''smembers'', 2, ''rS'', GK_None, 1, 1, 1),
     (''zadd'', - 4, ''wm'', GK_None, 1, 1, 1),
     (''zincrby'', 4, ''wm'', GK_None, 1, 1, 1),
     (''zrem'', - 3, ''w'', GK_None, 1, 1, 1),
     (''zremrangebyscore'', 4, ''w'', GK_None, 1, 1, 1),
     (''zremrangebyrank'', 4, ''w'', GK_None, 1, 1, 1),
     (''zunionstore'', - 4, ''wm'', GK_ZunionInter, 0, 0, 0),
     (''zinterstore'', - 4, ''wm'', GK_ZunionInter, 0, 0, 0),
     (''zrange'', - 4, ''r'', GK_None, 1, 1, 1),
     (''zrangebyscore'', - 4, ''r'', GK_None, 1, 1, 1),
     (''zrevrangebyscore'', - 4, ''r'', GK_None, 1, 1, 1),
     (''zcount'', 4, ''r'', GK_None, 1, 1, 1),
     (''zrevrange'', - 4, ''r'', GK_None, 1, 1, 1),
     (''zcard'', 2, ''r'', GK_None, 1, 1, 1),
     (''zscore'', 3, ''r'', GK_None, 1, 1, 1),
     (''zrank'', 3, ''r'', GK_None, 1, 1, 1),
     (''zrevrank'', 3, ''r'', GK_None, 1, 1, 1),
     (''hset'', 4, ''wm'', GK_None, 1, 1, 1),
     (''hsetnx'', 4, ''wm'', GK_None, 1, 1, 1),
     (''hget'', 3, ''r'', GK_None, 1, 1, 1),
     (''hmset'', - 4, ''wm'', GK_None, 1, 1, 1),
     (''hmget'', - 3, ''r'', GK_None, 1, 1, 1),
     (''hincrby'', 4, ''wm'', GK_None, 1, 1, 1),
     (''hincrbyfloat'', 4, ''wm'', GK_None, 1, 1, 1),
     (''hdel'', - 3, ''w'', GK_None, 1, 1, 1),
     (''hlen'', 2, ''r'', GK_None, 1, 1, 1),
     (''hkeys'', 2, ''rS'', GK_None, 1, 1, 1),
     (''hvals'', 2, ''rS'', GK_None, 1, 1, 1),
     (''hgetall'', 2, ''r'', GK_None, 1, 1, 1),
     (''hexists'', 3, ''r'', GK_None, 1, 1, 1),
     (''incrby'', 3, ''wm'', GK_None, 1, 1, 1),
     (''decrby'', 3, ''wm'', GK_None, 1, 1, 1),
     (''incrbyfloat'', 3, ''wm'', GK_None, 1, 1, 1),
     (''getset'', 3, ''wm'', GK_None, 1, 1, 1),
     (''mset'', - 3, ''wm'', GK_None, 1, - 1, 2),
     (''msetnx'', - 3, ''wm'', GK_None, 1, - 1, 2),
     (''randomkey'', 1, ''rR'', GK_None, 0, 0, 0),
     (''select'', 2, ''rl'', GK_None, 0, 0, 0),
     (''move'', 3, ''w'', GK_None, 1, 1, 1),
     (''rename'', 3, ''w'', GK_Rename, 1, 2, 1),
     (''renamenx'', 3, ''w'', GK_Rename, 1, 2, 1),
     (''expire'', 3, ''w'', GK_None, 1, 1, 1),
     (''expireat'', 3, ''w'', GK_None, 1, 1, 1),
     (''pexpire'', 3, ''w'', GK_None, 1, 1, 1),
     (''pexpireat'', 3, ''w'', GK_None, 1, 1, 1),
     (''keys'', 2, ''rS'', GK_None, 0, 0, 0),
     (''dbsize'', 1, ''r'', GK_None, 0, 0, 0),
     (''auth'', 2, ''rsl'', GK_None, 0, 0, 0),
     (''ping'', 1, ''r'', GK_None, 0, 0, 0),
     (''echo'', 2, ''r'', GK_None, 0, 0, 0),
     (''save'', 1, ''ars'', GK_None, 0, 0, 0),
     (''bgsave'', 1, ''ar'', GK_None, 0, 0, 0),
     (''bgrewriteaof'', 1, ''ar'', GK_None, 0, 0, 0),
     (''shutdown'', - 1, ''ar'', GK_None, 0, 0, 0),
     (''lastsave'', 1, ''rR'', GK_None, 0, 0, 0),
     (''type'', 2, ''r'', GK_None, 1, 1, 1),
     (''multi'', 1, ''rs'', GK_None, 0, 0, 0),
     (''exec'', 1, ''sM'', GK_None, 0, 0, 0),
     (''discard'', 1, ''rs'', GK_None, 0, 0, 0),
     (''sync'', 1, ''ars'', GK_None, 0, 0, 0),
     (''replconf'', - 1, ''ars'', GK_None, 0, 0, 0),
     (''flushdb'', 1, ''w'', GK_None, 0, 0, 0),
     (''flushall'', 1, ''w'', GK_None, 0, 0, 0),
     (''sort'', - 2, ''wm'', GK_None, 1, 1, 1),
     (''info'', - 1, ''rlt'', GK_None, 0, 0, 0),
     (''monitor'', 1, ''ars'', GK_None, 0, 0, 0),
     (''ttl'', 2, ''r'', GK_None, 1, 1, 1),
     (''pttl'', 2, ''r'', GK_None, 1, 1, 1),
     (''persist'', 2, ''w'', GK_None, 1, 1, 1),
     (''slaveof'', 3, ''ast'', GK_None, 0, 0, 0),
     (''debug'', - 2, ''as'', GK_None, 0, 0, 0),
     (''config'', - 2, ''ar'', GK_None, 0, 0, 0),
     (''subscribe'', - 2, ''rpslt'', GK_None, 0, 0, 0),
     (''unsubscribe'', - 1, ''rpslt'', GK_None, 0, 0, 0),
     (''psubscribe'', - 2, ''rpslt'', GK_None, 0, 0, 0),
     (''punsubscribe'', - 1, ''rpslt'', GK_None, 0, 0, 0),
     (''publish'', 3, ''pfltr'', GK_None, 0, 0, 0),
     (''watch'', - 2, ''rs'', GK_NoPreload, 1, - 1, 1),
     (''unwatch'', 1, ''rs'', GK_None, 0, 0, 0),
     (''restore'', 4, ''awm'', GK_None, 1, 1, 1),
     (''migrate'', 6, ''aw'', GK_None, 0, 0, 0),
     (''dump'', 2, ''ar'', GK_None, 1, 1, 1),
     (''object'', - 2, ''r'', GK_None, 2, 2, 2),
     (''client'', - 2, ''ar'', GK_None, 0, 0, 0),
     (''eval'', - 3, ''s'', GK_ZunionInter, 0, 0, 0),
     (''evalsha'', - 3, ''s'', GK_ZunionInter, 0, 0, 0),
     (''slowlog'', - 2, ''r'', GK_None, 0, 0, 0),
     (''script'', - 2, ''ras'', GK_None, 0, 0, 0),
     (''time'', 1, ''rR'', GK_None, 0, 0, 0),
     (''bitop'', - 4, ''wm'', GK_None, 2, - 1, 1),
     (''bitcount'', - 2, ''r'', GK_None, 1, 1, 1)]"

definition command_flag :: "char \<Rightarrow> redisCommand \<Rightarrow> redisCommand option" where
  "command_flag f c =
     (if f = CHR ''w'' then Some (c\<lparr>rc_write := True\<rparr>)
      else if f = CHR ''r'' then Some (c\<lparr>rc_readonly := True\<rparr>)
      else if f = CHR ''m'' then Some (c\<lparr>rc_denyoom := True\<rparr>)
      else if f = CHR ''a'' then Some (c\<lparr>rc_admin := True\<rparr>)
      else if f = CHR ''p'' then Some (c\<lparr>rc_pubsub := True\<rparr>)
      else if f = CHR ''f'' then Some (c\<lparr>rc_force_replication := True\<rparr>)
      else if f = CHR ''s'' then Some (c\<lparr>rc_noscript := True\<rparr>)
      else if f = CHR ''R'' then Some (c\<lparr>rc_random := True\<rparr>)
      else if f = CHR ''S'' then Some (c\<lparr>rc_sort_for_script := True\<rparr>)
      else if f = CHR ''l'' then Some (c\<lparr>rc_loading := True\<rparr>)
      else if f = CHR ''t'' then Some (c\<lparr>rc_stale := True\<rparr>)
      else if f = CHR ''M'' then Some (c\<lparr>rc_skip_monitor := True\<rparr>)
      else None)"

fun row_base :: "command_row \<Rightarrow> redisCommand" where
  "row_base (name, arity, sflags, getkeys, firstkey, lastkey, keystep) =
     \<lparr>rc_name = name, rc_arity = arity, rc_write = False, rc_readonly = False, rc_denyoom = False,
      rc_admin = False, rc_pubsub = False, rc_force_replication = False, rc_noscript = False,
      rc_random = False, rc_sort_for_script = False, rc_loading = False, rc_stale = False,
      rc_skip_monitor = False, rc_getkeys_proc = getkeys, rc_firstkey = firstkey,
      rc_lastkey = lastkey, rc_keystep = keystep\<rparr>"

definition row_command :: "command_row \<Rightarrow> redisCommand option" where
  "row_command row =
     run_option (\<lambda>c f. command_flag f c) (row_base row) (fst (snd (snd row)))"

definition lookup_in :: "redisCommand list \<Rightarrow> string \<Rightarrow> redisCommand option" where
  "lookup_in cmds name = find (\<lambda>c. caseeq name (rc_name c)) cmds"

definition populateCommandTable :: "command_row list \<Rightarrow> redisCommand list option" where
  "populateCommandTable rows = run_option (\<lambda>cmds row. do {
     c \<leftarrow> row_command row;
     if lookup_in cmds (rc_name c) = None then Some (cmds @ [c]) else None
   }) [] rows"

definition server_commands :: "redisCommand list" where
  "server_commands = (case populateCommandTable redisCommandTable of Some cmds \<Rightarrow> cmds | None \<Rightarrow> [])"

definition lookupCommand :: "string \<Rightarrow> redisCommand option" where
  "lookupCommand name = lookup_in server_commands name"

definition lookupCommandByCString :: "string \<Rightarrow> redisCommand option" where
  "lookupCommandByCString s = lookup_in server_commands s"

definition lookupCommandOrOriginal :: "string \<Rightarrow> redisCommand option" where
  "lookupCommandOrOriginal name =
     (case lookup_in server_commands name of Some c \<Rightarrow> Some c | None \<Rightarrow> lookup_in server_commands name)"

subsection \<open>Positions of the keys\<close>

text \<open>The loop over the positions; \<open>None\<close> is a failed assertion or a loop that does not end.\<close>

partial_function (option) key_positions :: "int \<Rightarrow> int \<Rightarrow> int \<Rightarrow> int \<Rightarrow> int list option" where
  "key_positions argc last_key step j =
     (if j \<le> last_key then
        (if j < argc then do { ks \<leftarrow> key_positions argc last_key step (j + step); Some (j # ks) } else None)
      else Some [])"

definition getKeysUsingCommandTable :: "redisCommand \<Rightarrow> int \<Rightarrow> int list option" where
  "getKeysUsingCommandTable cmd argc =
     (if rc_firstkey cmd = 0 then Some []
      else let last_key = (if rc_lastkey cmd < 0 then argc + rc_lastkey cmd else rc_lastkey cmd)
           in key_positions argc last_key (rc_keystep cmd) (rc_firstkey cmd))"

definition noPreloadGetKeys :: "redisCommand \<Rightarrow> int \<Rightarrow> bool \<Rightarrow> int list option" where
  "noPreloadGetKeys cmd argc preload = (if preload then Some [] else getKeysUsingCommandTable cmd argc)"

definition renameGetKeys :: "redisCommand \<Rightarrow> int \<Rightarrow> bool \<Rightarrow> int list option" where
  "renameGetKeys cmd argc preload = (if preload then Some [1] else getKeysUsingCommandTable cmd argc)"

text \<open>A negative number of keys makes the allocation of the result fail.\<close>

definition zunionInterGetKeys :: "string list \<Rightarrow> int list option" where
  "zunionInterGetKeys argv =
     (if length argv \<le> 2 then None
      else let num = to_signed 32 (strtoll (argv ! 2))
           in if num > int (length argv) - 3 then Some []
              else if num < 0 then None
              else Some (map (\<lambda>i. 3 + int i) [0..<nat num]))"

definition getKeysFromCommand :: "redisCommand \<Rightarrow> string list \<Rightarrow> bool \<Rightarrow> int list option" where
  "getKeysFromCommand cmd argv preload =
     (let argc = int (length argv) in
      case rc_getkeys_proc cmd of
        GK_NoPreload \<Rightarrow> noPreloadGetKeys cmd argc preload
      | GK_Rename \<Rightarrow> renameGetKeys cmd argc preload
      | GK_ZunionInter \<Rightarrow> zunionInterGetKeys argv
      | GK_None \<Rightarrow> getKeysUsingCommandTable cmd argc)"

text \<open>The test of the number of arguments in \<^verbatim>\<open>processCommand\<close>.\<close>

definition arity_ok :: "redisCommand \<Rightarrow> int \<Rightarrow> bool" where
  "arity_ok cmd argc \<longleftrightarrow> \<not> ((rc_arity cmd > 0 \<and> rc_arity cmd \<noteq> argc) \<or> argc < - rc_arity cmd)"


subsection \<open>The table is well formed\<close>

definition flag_letters :: string where
  "flag_letters = ''wrmapfsRSltM''"

definition row_ok :: "command_row \<Rightarrow> bool" where
  "row_ok row =
     (case row of (name, arity, sflags, getkeys, firstkey, lastkey, keystep) \<Rightarrow>
        list_all (\<lambda>c. (97::nat) \<le> of_char c \<and> of_char c \<le> (122::nat)) name \<and>
        list_all (\<lambda>f. f \<in> set flag_letters) sflags)"

lemma rows_ok: "list_all row_ok redisCommandTable"
  by (simp add: redisCommandTable_def row_ok_def flag_letters_def)

lemma names_distinct: "distinct (map fst redisCommandTable)"
  by (simp add: redisCommandTable_def)

text \<open>What a row fixes of its command.\<close>

definition from_row :: "command_row \<Rightarrow> redisCommand \<Rightarrow> bool" where
  "from_row row c =
     (case row of (name, arity, sflags, getkeys, firstkey, lastkey, keystep) \<Rightarrow>
        rc_name c = name \<and> rc_arity c = arity \<and> rc_getkeys_proc c = getkeys \<and>
        rc_firstkey c = firstkey \<and> rc_lastkey c = lastkey \<and> rc_keystep c = keystep)"

lemma command_flag_Some:
  assumes "f \<in> set flag_letters"
  shows "\<exists>c'. command_flag f c = Some c' \<and> (\<forall>row. from_row row c' = from_row row c)"
  using assms by (auto simp: command_flag_def from_row_def flag_letters_def)

lemma flags_Some:
  "list_all (\<lambda>f. f \<in> set flag_letters) fs \<Longrightarrow>
   \<exists>c'. run_option (\<lambda>c f. command_flag f c) c fs = Some c' \<and> (\<forall>row. from_row row c' = from_row row c)"
proof (induction fs arbitrary: c)
  case (Cons f fs)
  obtain c1 where "command_flag f c = Some c1" "\<And>row. from_row row c1 = from_row row c"
    using command_flag_Some [of f c] Cons.prems by auto
  then show ?case using Cons.IH [of c1] Cons.prems by auto
qed simp

lemma row_command_Some:
  assumes "row_ok row"
  shows "\<exists>c. row_command row = Some c \<and> from_row row c"
proof -
  obtain name arity sflags getkeys firstkey lastkey keystep where
    row: "row = (name, arity, sflags, getkeys, firstkey, lastkey, keystep)" by (cases row)
  have "list_all (\<lambda>f. f \<in> set flag_letters) sflags" using assms by (simp add: row_ok_def row)
  then obtain c where "row_command row = Some c" "from_row row c = from_row row (row_base row)"
    using flags_Some [of sflags "row_base row"] by (auto simp: row_command_def row)
  then show ?thesis by (simp add: from_row_def row)
qed

lemma tolower_lower: "(97::nat) \<le> of_char c \<Longrightarrow> tolower c = c"
  by (simp add: tolower_def)

lemma row_names:
  assumes "row_ok r" and "row_ok r'"
  shows "caseeq (fst r) (fst r') \<longleftrightarrow> fst r = fst r'"
proof -
  have "map tolower (fst r) = fst r" if "row_ok r" for r
    using that by (cases r) (auto simp: row_ok_def list_all_iff tolower_lower intro!: map_idI)
  then show ?thesis using assms by (simp add: caseeq_def)
qed

lemma populate_loop:
  assumes "list_all row_ok (done @ rows)" and "distinct (map fst (done @ rows))"
  shows "run_option (\<lambda>cmds row. do {
       c \<leftarrow> row_command row;
       if lookup_in cmds (rc_name c) = None then Some (cmds @ [c]) else None
     }) (map (the \<circ> row_command) done) rows = Some (map (the \<circ> row_command) (done @ rows))"
  using assms
proof (induction rows arbitrary: "done")
  case (Cons r rows)
  have ok: "row_ok r" "\<And>q. q \<in> set done \<Longrightarrow> row_ok q" using Cons.prems(1) by (auto simp: list_all_iff)
  obtain c where c: "row_command r = Some c" "from_row r c" using row_command_Some [OF ok(1)] by blast
  have "\<not> caseeq (rc_name c) (rc_name (the (row_command q)))" if q: "q \<in> set done" for q
  proof -
    obtain cq where cq: "row_command q = Some cq" "from_row q cq" using row_command_Some [OF ok(2) [OF q]] by blast
    have "fst r \<noteq> fst q" using Cons.prems(2) q by auto
    moreover have "rc_name c = fst r" "rc_name cq = fst q" using c(2) cq(2) by (auto simp: from_row_def split: prod.splits)
    ultimately show ?thesis using row_names [OF ok(1) ok(2) [OF q]] cq(1) by simp
  qed
  then have "lookup_in (map (the \<circ> row_command) done) (rc_name c) = None"
    by (auto simp: lookup_in_def find_None_iff)
  then show ?case using Cons.IH [of "done @ [r]"] Cons.prems c(1) by (simp add: comp_def)
qed simp

lemma populate_ok: "populateCommandTable redisCommandTable = Some (map (the \<circ> row_command) redisCommandTable)"
  using populate_loop [of "[]" redisCommandTable] rows_ok names_distinct by (simp add: populateCommandTable_def)

lemma server_commands_eq: "server_commands = map (the \<circ> row_command) redisCommandTable"
  by (simp add: server_commands_def populate_ok)

lemma lookup_row:
  assumes r: "r \<in> set redisCommandTable" and n: "caseeq name (fst r)"
  shows "lookupCommand name = row_command r \<and> (\<exists>c. row_command r = Some c \<and> from_row r c)"
proof -
  have ok: "row_ok q" if "q \<in> set redisCommandTable" for q using that rows_ok by (simp add: list_all_iff)
  obtain c where c: "row_command r = Some c" "from_row r c" using row_command_Some [OF ok [OF r]] by blast
  have name: "rc_name (the (row_command q)) = fst q" if "q \<in> set redisCommandTable" for q
    using row_command_Some [OF ok [OF that]] by (cases q) (auto simp: from_row_def)
  have eq: "caseeq name (fst q) \<longleftrightarrow> q = r" if q: "q \<in> set redisCommandTable" for q
  proof -
    have "caseeq name (fst q) \<longleftrightarrow> caseeq (fst r) (fst q)" using n by (simp add: caseeq_def)
    also have "\<dots> \<longleftrightarrow> fst r = fst q" by (rule row_names [OF ok [OF r] ok [OF q]])
    also have "\<dots> \<longleftrightarrow> q = r" using names_distinct r q by (auto simp: distinct_map dest: inj_onD)
    finally show ?thesis .
  qed
  have "find (\<lambda>c. caseeq name (rc_name c)) (map (the \<circ> row_command) qs) = Some (the (row_command r))"
    if "set qs \<subseteq> set redisCommandTable" "r \<in> set qs" for qs
    using that by (induction qs) (auto simp: name eq)
  from this [of redisCommandTable] show ?thesis
    using r c by (simp add: lookupCommand_def lookup_in_def server_commands_eq)
qed

subsection \<open>Key positions\<close>

lemma key_positions_ok:
  "1 \<le> step \<Longrightarrow> last_key < argc \<Longrightarrow>
   \<exists>ks. key_positions argc last_key step j = Some ks \<and> (\<forall>k \<in> set ks. j \<le> k \<and> k \<le> last_key)"
proof (induction "nat (last_key + 1 - j)" arbitrary: j rule: less_induct)
  case less
  show ?case
  proof (cases "j \<le> last_key")
    case True
    then obtain ks where "key_positions argc last_key step (j + step) = Some ks"
      "\<forall>k \<in> set ks. j + step \<le> k \<and> k \<le> last_key"
      using less.hyps [of "j + step"] less.prems by auto
    then show ?thesis using True less.prems by (subst key_positions.simps) auto
  qed (subst key_positions.simps, simp)
qed

definition keys_ok :: "command_row \<Rightarrow> bool" where
  "keys_ok row =
     (case row of (name, arity, sflags, getkeys, firstkey, lastkey, keystep) \<Rightarrow>
        firstkey = 0 \<or> 1 \<le> firstkey \<and> 1 \<le> keystep \<and> lastkey < \<bar>arity\<bar>)"

lemma table_keys_ok: "list_all (\<lambda>r. fst r = ''object'' \<or> keys_ok r) redisCommandTable"
  by (simp add: redisCommandTable_def keys_ok_def)

lemma lookup_from_row:
  assumes "lookupCommand name = Some cmd"
  shows "\<exists>r \<in> set redisCommandTable. from_row r cmd"
proof -
  have "cmd \<in> set server_commands"
    using assms by (auto simp: lookupCommand_def lookup_in_def find_Some_iff in_set_conv_nth)
  then obtain r where r: "r \<in> set redisCommandTable" "cmd = the (row_command r)"
    by (auto simp: server_commands_eq)
  then show ?thesis using row_command_Some [of r] rows_ok by (auto simp: list_all_iff)
qed

subsection \<open>Properties\<close>

text \<open>The command table loads: no unknown flag and no name twice, whatever the case; and a lookup in
  any case finds the command of the row with that name.\<close>

theorem command_table_loads:
  "(\<exists>cmds. populateCommandTable redisCommandTable = Some cmds \<and> length cmds = length redisCommandTable) \<and>
   (\<forall>r \<in> set redisCommandTable. \<forall>name. caseeq name (fst r) \<longrightarrow>
      (\<exists>c. lookupCommand name = Some c \<and> from_row r c))"
  using populate_ok lookup_row by auto

theorem command_table_loads_witness:
  "\<exists>c. lookupCommand ''get'' = Some c \<and> rc_arity c = 2"
proof -
  have "(''get'', 2, ''r'', GK_None, 1, 1, 1) \<in> set redisCommandTable" by (simp add: redisCommandTable_def)
  moreover have "caseeq ''get'' ''get''" by (simp add: caseeq_def)
  ultimately show ?thesis using command_table_loads by (fastforce simp: from_row_def)
qed

text \<open>For every command of the table but \<^verbatim>\<open>OBJECT\<close>, and every number of arguments its arity admits, the
  positions of its keys are found, without a failed assertion, and lie among the arguments.\<close>

theorem key_positions_in_bounds:
  assumes l: "lookupCommand name = Some cmd" and o: "rc_name cmd \<noteq> ''object''" and a: "arity_ok cmd argc"
    and argc: "0 \<le> argc"
  shows "\<exists>ks. getKeysUsingCommandTable cmd argc = Some ks \<and> (\<forall>k \<in> set ks. 1 \<le> k \<and> k < argc)"
proof -
  obtain r where r: "r \<in> set redisCommandTable" "from_row r cmd" using lookup_from_row [OF l] by blast
  have n: "fst r = rc_name cmd" using r(2) by (cases r) (simp add: from_row_def)
  have "keys_ok r" using table_keys_ok r(1) o n by (auto simp: list_all_iff)
  then consider "rc_firstkey cmd = 0" | "1 \<le> rc_firstkey cmd" "1 \<le> rc_keystep cmd" "rc_lastkey cmd < \<bar>rc_arity cmd\<bar>"
    using r(2) by (cases r) (auto simp: keys_ok_def from_row_def)
  then show ?thesis
  proof cases
    case 2
    let ?last = "if rc_lastkey cmd < 0 then argc + rc_lastkey cmd else rc_lastkey cmd"
    have "?last < argc" using 2(3) a argc by (auto simp: arity_ok_def split: if_splits)
    from key_positions_ok [OF 2(2) this, of "rc_firstkey cmd"] show ?thesis
      using 2(1) a \<open>?last < argc\<close> by (fastforce simp: getKeysUsingCommandTable_def Let_def)
  qed (simp add: getKeysUsingCommandTable_def)
qed

theorem key_positions_in_bounds_witness:
  "\<exists>ks cmd. lookupCommand ''get'' = Some cmd \<and> getKeysUsingCommandTable cmd 2 = Some ks \<and>
    (\<forall>k \<in> set ks. 1 \<le> k \<and> k < 2)"
proof -
  have "(''get'', 2, ''r'', GK_None, 1, 1, 1) \<in> set redisCommandTable" by (simp add: redisCommandTable_def)
  moreover have "caseeq ''get'' (fst (''get'', 2::int, ''r'', GK_None, 1::int, 1::int, 1::int))" by (simp add: caseeq_def)
  ultimately obtain cmd where "lookupCommand ''get'' = Some cmd" "rc_name cmd = ''get''" "rc_arity cmd = 2"
    using lookup_row by (fastforce simp: from_row_def)
  then show ?thesis using key_positions_in_bounds [of "''get''" cmd 2] by (auto simp: arity_ok_def)
qed

text \<open>\<^verbatim>\<open>OBJECT\<close> with one argument passes the arity test, but its key position is past the arguments.\<close>

lemma object_key_out_of_bounds:
  "\<exists>cmd. lookupCommand ''object'' = Some cmd \<and> arity_ok cmd 2 \<and> getKeysUsingCommandTable cmd 2 = None"
proof -
  have "(''object'', -2, ''r'', GK_None, 2, 2, 2) \<in> set redisCommandTable" by (simp add: redisCommandTable_def)
  moreover have "caseeq ''object'' (fst (''object'', -2::int, ''r'', GK_None, 2::int, 2::int, 2::int))"
    by (simp add: caseeq_def)
  ultimately obtain cmd where "lookupCommand ''object'' = Some cmd" "rc_arity cmd = -2" "rc_firstkey cmd = 2"
    "rc_lastkey cmd = 2"
    using lookup_row by (fastforce simp: from_row_def)
  then show ?thesis by (auto simp: arity_ok_def getKeysUsingCommandTable_def key_positions.simps)
qed

end
