(* ===== verification/Option_Logic.thy ===== *)
theory Option_Logic
  imports Prelude
begin

section \<open>Rules for computations that may fail\<close>

text \<open>
  Commands are written in the option monad.  \<open>ensures m Q\<close> says that a result, if there is one,
  satisfies \<open>Q\<close>; \<open>returns m Q\<close> that there is a result and it satisfies \<open>Q\<close>.  The collections
  \<open>ens\<close> and \<open>rets\<close> hold their introduction rules; the components add the rules of their operations.
\<close>

named_theorems ens \<open>introduction rules for partial correctness\<close>
named_theorems rets \<open>introduction rules for total correctness\<close>

definition ensures :: "'a option \<Rightarrow> ('a \<Rightarrow> bool) \<Rightarrow> bool" where
  "ensures m Q \<longleftrightarrow> (\<forall>x. m = Some x \<longrightarrow> Q x)"

definition returns :: "'a option \<Rightarrow> ('a \<Rightarrow> bool) \<Rightarrow> bool" where
  "returns m Q \<longleftrightarrow> (\<exists>x. m = Some x \<and> Q x)"

lemma ensuresD: "ensures m Q \<Longrightarrow> m = Some x \<Longrightarrow> Q x"
  by (simp add: ensures_def)

lemma returns_ensures: "returns m Q \<Longrightarrow> ensures m Q"
  by (auto simp: returns_def ensures_def)

lemma ensures_mono: "ensures m P \<Longrightarrow> (\<And>x. P x \<Longrightarrow> Q x) \<Longrightarrow> ensures m Q"
  by (auto simp: ensures_def)

lemma returns_mono: "returns m P \<Longrightarrow> (\<And>x. P x \<Longrightarrow> Q x) \<Longrightarrow> returns m Q"
  by (auto simp: returns_def)

lemma ensures_any: "(\<And>x. m = Some x \<Longrightarrow> Q x) \<Longrightarrow> ensures m Q"
  by (simp add: ensures_def)

lemma ensures_bind: "ensures m (\<lambda>x. ensures (f x) Q) \<Longrightarrow> ensures (m \<bind> f) Q"
  by (cases m) (auto simp: ensures_def)

lemma returns_bind: "returns m (\<lambda>x. returns (f x) Q) \<Longrightarrow> returns (m \<bind> f) Q"
  by (cases m) (auto simp: returns_def)

lemma ensures_Some [simp]: "ensures (Some x) Q \<longleftrightarrow> Q x"
  by (simp add: ensures_def)

lemma ensures_None [simp]: "ensures None Q"
  by (simp add: ensures_def)

lemma returns_Some [simp]: "returns (Some x) Q \<longleftrightarrow> Q x"
  by (simp add: returns_def)

lemma returns_None [simp]: "\<not> returns None Q"
  by (simp add: returns_def)

lemma ensures_map [simp]: "ensures (map_option f m) Q \<longleftrightarrow> ensures m (\<lambda>x. Q (f x))"
  by (cases m) auto

lemma returns_map [simp]: "returns (map_option f m) Q \<longleftrightarrow> returns m (\<lambda>x. Q (f x))"
  by (cases m) auto

lemma ensures_if: "(b \<Longrightarrow> ensures m Q) \<Longrightarrow> (\<not> b \<Longrightarrow> ensures n Q) \<Longrightarrow> ensures (if b then m else n) Q"
  by simp

lemma returns_if: "(b \<Longrightarrow> returns m Q) \<Longrightarrow> (\<not> b \<Longrightarrow> returns n Q) \<Longrightarrow> returns (if b then m else n) Q"
  by simp

lemma ensures_let: "ensures (f x) Q \<Longrightarrow> ensures (let y = x in f y) Q"
  by simp

lemma ensures_pair: "ensures (f a b) Q \<Longrightarrow> ensures (case (a, b) of (x, y) \<Rightarrow> f x y) Q"
  by simp

lemma ensures_SomeI: "Q x \<Longrightarrow> ensures (Some x) Q"
  by simp

lemma ensures_mapI: "ensures m (\<lambda>x. Q (f x)) \<Longrightarrow> ensures (map_option f m) Q"
  by simp

lemma ensures_option:
  "(x = None \<Longrightarrow> ensures m Q) \<Longrightarrow> (\<And>a. x = Some a \<Longrightarrow> ensures (f a) Q) \<Longrightarrow>
   ensures (case x of None \<Rightarrow> m | Some a \<Rightarrow> f a) Q"
  by (cases x) simp_all

lemma returns_option:
  "(x = None \<Longrightarrow> returns m Q) \<Longrightarrow> (\<And>a. x = Some a \<Longrightarrow> returns (f a) Q) \<Longrightarrow>
   returns (case x of None \<Rightarrow> m | Some a \<Rightarrow> f a) Q"
  by (cases x) simp_all

lemma ensures_sum:
  "(\<And>a. x = Inl a \<Longrightarrow> ensures (f a) Q) \<Longrightarrow> (\<And>b. x = Inr b \<Longrightarrow> ensures (g b) Q) \<Longrightarrow>
   ensures (case x of Inl a \<Rightarrow> f a | Inr b \<Rightarrow> g b) Q"
  by (cases x) simp_all

lemma returns_sum:
  "(\<And>a. x = Inl a \<Longrightarrow> returns (f a) Q) \<Longrightarrow> (\<And>b. x = Inr b \<Longrightarrow> returns (g b) Q) \<Longrightarrow>
   returns (case x of Inl a \<Rightarrow> f a | Inr b \<Rightarrow> g b) Q"
  by (cases x) simp_all

lemma ensures_bool:
  "(b \<Longrightarrow> ensures m Q) \<Longrightarrow> (\<not> b \<Longrightarrow> ensures n Q) \<Longrightarrow> ensures (case b of True \<Rightarrow> m | False \<Rightarrow> n) Q"
  by (cases b) simp_all

lemma ensures_prod:
  "(\<And>a b. x = (a, b) \<Longrightarrow> ensures (f a b) Q) \<Longrightarrow> ensures (case x of (a, b) \<Rightarrow> f a b) Q"
  by (cases x) simp_all

lemmas ens_cases = ensures_SomeI ensures_None ensures_mapI ensures_bind ensures_if ensures_let ensures_pair ensures_option ensures_sum ensures_bool
lemmas ret_cases = returns_bind returns_if returns_option returns_sum

text \<open>A loop keeps a reflexive and transitive relation that its body keeps.\<close>

lemma ensures_run:
  assumes "\<And>s. R s s" and "\<And>s t u. R s t \<Longrightarrow> R t u \<Longrightarrow> R s u" and "\<And>s x. ensures (f s x) (R s)"
  shows "ensures (run_option f s xs) (R s)"
proof (induction xs arbitrary: s)
  case (Cons x xs)
  show ?case
    unfolding run_option.simps
    by (rule ensures_bind, rule ensures_mono [OF assms(3)], rule ensures_mono [OF Cons]) (rule assms(2))
qed (simp add: assms(1))

end
