(* ===== verification/Pubsub.thy ===== *)
theory Pubsub
  imports Server Glob
begin

section \<open>Publish/subscribe (\<^verbatim>\<open>pubsub.c\<close>)\<close>

text \<open>
  The channels of the server are a table from channel names to lists of clients, those of a client a
  set; patterns are lists on both sides.  \<open>None\<close> is a failed assertion or a read past a block in the
  pattern matcher.  The integer a subscription call returns is its second component.
\<close>

definition pubsub_count :: "redisClient \<Rightarrow> int" where
  "pubsub_count cl = int (length (c_pubsub_channels cl)) + int (length (c_pubsub_patterns cl))"

text \<open>The four replies of a subscription or its end.\<close>

definition pubsub_notify :: "string \<Rightarrow> reply \<Rightarrow> 'v redisServer \<Rightarrow> nat \<Rightarrow> 'v redisServer" where
  "pubsub_notify kind what s c = upd_client s c (\<lambda>cl. cl\<lparr>c_reply := c_reply cl @
     [R_MultiBulkLen 3, R_Bulk kind, what, R_Int (pubsub_count cl)]\<rparr>)"

definition pubsubSubscribeChannel :: "'v redisServer \<Rightarrow> nat \<Rightarrow> string \<Rightarrow> ('v redisServer \<times> nat) option" where
  "pubsubSubscribeChannel s c channel = do {
     cl \<leftarrow> sv_clients s c;
     let fresh = (channel \<notin> set (c_pubsub_channels cl));
     let s1 = (if fresh
       then (upd_client s c (\<lambda>cl. cl\<lparr>c_pubsub_channels := c_pubsub_channels cl @ [channel]\<rparr>))
         \<lparr>sv_pubsub_channels := AList.update channel
            ((case map_of (sv_pubsub_channels s) channel of Some l \<Rightarrow> l | None \<Rightarrow> []) @ [c])
            (sv_pubsub_channels s)\<rparr>
       else s);
     Some (pubsub_notify ''subscribe'' (R_Bulk channel) s1 c, if fresh then 1 else 0)
   }"

definition pubsubUnsubscribeChannel ::
  "'v redisServer \<Rightarrow> nat \<Rightarrow> string \<Rightarrow> bool \<Rightarrow> ('v redisServer \<times> nat) option" where
  "pubsubUnsubscribeChannel s c channel notify = do {
     cl \<leftarrow> sv_clients s c;
     (s1, retval) \<leftarrow> (if channel \<in> set (c_pubsub_channels cl) then do {
         clients \<leftarrow> map_of (sv_pubsub_channels s) channel;
         if c \<in> set clients then do {
           let clients' = remove1 c clients;
           Some ((upd_client s c (\<lambda>cl. cl\<lparr>c_pubsub_channels := remove1 channel (c_pubsub_channels cl)\<rparr>))
             \<lparr>sv_pubsub_channels := (if clients' = [] then AList.delete channel (sv_pubsub_channels s)
                else AList.update channel clients' (sv_pubsub_channels s))\<rparr>, 1)
         } else None
       } else Some (s, 0));
     Some (if notify then pubsub_notify ''unsubscribe'' (R_Bulk channel) s1 c else s1, retval)
   }"

definition pubsubSubscribePattern :: "'v redisServer \<Rightarrow> nat \<Rightarrow> string \<Rightarrow> ('v redisServer \<times> nat) option" where
  "pubsubSubscribePattern s c pattern = do {
     cl \<leftarrow> sv_clients s c;
     let fresh = (pattern \<notin> set (c_pubsub_patterns cl));
     let s1 = (if fresh
       then (upd_client s c (\<lambda>cl. cl\<lparr>c_pubsub_patterns := c_pubsub_patterns cl @ [pattern]\<rparr>))
         \<lparr>sv_pubsub_patterns := sv_pubsub_patterns s @ [(c, pattern)]\<rparr>
       else s);
     Some (pubsub_notify ''psubscribe'' (R_Bulk pattern) s1 c, if fresh then 1 else 0)
   }"

definition pubsubUnsubscribePattern ::
  "'v redisServer \<Rightarrow> nat \<Rightarrow> string \<Rightarrow> bool \<Rightarrow> ('v redisServer \<times> nat) option" where
  "pubsubUnsubscribePattern s c pattern notify = do {
     cl \<leftarrow> sv_clients s c;
     (s1, retval) \<leftarrow> (if pattern \<in> set (c_pubsub_patterns cl) then
         (if (c, pattern) \<in> set (sv_pubsub_patterns s)
          then Some ((upd_client s c (\<lambda>cl. cl\<lparr>c_pubsub_patterns := remove1 pattern (c_pubsub_patterns cl)\<rparr>))
            \<lparr>sv_pubsub_patterns := remove1 (c, pattern) (sv_pubsub_patterns s)\<rparr>, 1)
          else None)
       else Some (s, 0));
     Some (if notify then pubsub_notify ''punsubscribe'' (R_Bulk pattern) s1 c else s1, retval)
   }"

text \<open>The loops over all subscriptions of a client add up the returned numbers.\<close>

fun sum_calls :: "('s \<Rightarrow> 'a \<Rightarrow> ('s \<times> nat) option) \<Rightarrow> 's \<Rightarrow> 'a list \<Rightarrow> ('s \<times> nat) option" where
  "sum_calls f s [] = Some (s, 0)"
| "sum_calls f s (x # xs) = do {
     (s1, n) \<leftarrow> f s x;
     (s2, m) \<leftarrow> sum_calls f s1 xs;
     Some (s2, n + m)
   }"

definition pubsubUnsubscribeAllChannels :: "'v redisServer \<Rightarrow> nat \<Rightarrow> bool \<Rightarrow> ('v redisServer \<times> nat) option" where
  "pubsubUnsubscribeAllChannels s c notify = do {
     cl \<leftarrow> sv_clients s c;
     (s1, n) \<leftarrow> sum_calls (\<lambda>s channel. pubsubUnsubscribeChannel s c channel notify) s (c_pubsub_channels cl);
     Some (if notify \<and> n = 0 then pubsub_notify ''unsubscribe'' R_NullBulk s1 c else s1, n)
   }"

definition pubsubUnsubscribeAllPatterns :: "'v redisServer \<Rightarrow> nat \<Rightarrow> bool \<Rightarrow> ('v redisServer \<times> nat) option" where
  "pubsubUnsubscribeAllPatterns s c notify = do {
     cl \<leftarrow> sv_clients s c;
     (s1, n) \<leftarrow> sum_calls (\<lambda>s pattern. pubsubUnsubscribePattern s c pattern notify) s (c_pubsub_patterns cl);
     Some (if notify \<and> n = 0 then pubsub_notify ''punsubscribe'' R_NullBulk s1 c else s1, n)
   }"

definition add_replies :: "reply list \<Rightarrow> 'v redisServer \<Rightarrow> nat \<Rightarrow> 'v redisServer" where
  "add_replies rs s c = upd_client s c (\<lambda>cl. cl\<lparr>c_reply := c_reply cl @ rs\<rparr>)"

definition message :: "string \<Rightarrow> string \<Rightarrow> reply list" where
  "message channel msg = [R_MultiBulkLen 3, R_Bulk ''message'', R_Bulk channel, R_Bulk msg]"

definition pmessage :: "string \<Rightarrow> string \<Rightarrow> string \<Rightarrow> reply list" where
  "pmessage pattern channel msg =
     [R_MultiBulkLen 4, R_Bulk ''pmessage'', R_Bulk pattern, R_Bulk channel, R_Bulk msg]"

text \<open>One pass of the loop over the patterns.\<close>

definition publish_pattern ::
  "string \<Rightarrow> string \<Rightarrow> 'v redisServer \<Rightarrow> nat \<times> string \<Rightarrow> ('v redisServer \<times> nat) option" where
  "publish_pattern channel msg s pat = do {
     m \<leftarrow> stringmatch_sds (snd pat) channel False;
     Some (if m then (add_replies (pmessage (snd pat) channel msg) s (fst pat), 1) else (s, 0))
   }"

definition pubsubPublishMessage :: "'v redisServer \<Rightarrow> string \<Rightarrow> string \<Rightarrow> ('v redisServer \<times> nat) option" where
  "pubsubPublishMessage s channel msg = do {
     let clients = (case map_of (sv_pubsub_channels s) channel of Some l \<Rightarrow> l | None \<Rightarrow> []);
     let s1 = fold (\<lambda>c s. add_replies (message channel msg) s c) clients s;
     (s2, n) \<leftarrow> sum_calls (publish_pattern channel msg) s1 (sv_pubsub_patterns s1);
     Some (s2, length clients + n)
   }"

subsection \<open>Commands\<close>

definition subscribeCommand :: "'v redisServer \<Rightarrow> nat \<Rightarrow> 'v redisServer option" where
  "subscribeCommand s c = do {
     cl \<leftarrow> sv_clients s c;
     map_option fst (sum_calls (\<lambda>s channel. pubsubSubscribeChannel s c channel) s (tl (c_argv cl)))
   }"

definition unsubscribeCommand :: "'v redisServer \<Rightarrow> nat \<Rightarrow> 'v redisServer option" where
  "unsubscribeCommand s c = do {
     cl \<leftarrow> sv_clients s c;
     if length (c_argv cl) = 1 then map_option fst (pubsubUnsubscribeAllChannels s c True)
     else map_option fst (sum_calls (\<lambda>s channel. pubsubUnsubscribeChannel s c channel True) s (tl (c_argv cl)))
   }"

definition psubscribeCommand :: "'v redisServer \<Rightarrow> nat \<Rightarrow> 'v redisServer option" where
  "psubscribeCommand s c = do {
     cl \<leftarrow> sv_clients s c;
     map_option fst (sum_calls (\<lambda>s pattern. pubsubSubscribePattern s c pattern) s (tl (c_argv cl)))
   }"

definition punsubscribeCommand :: "'v redisServer \<Rightarrow> nat \<Rightarrow> 'v redisServer option" where
  "punsubscribeCommand s c = do {
     cl \<leftarrow> sv_clients s c;
     if length (c_argv cl) = 1 then map_option fst (pubsubUnsubscribeAllPatterns s c True)
     else map_option fst (sum_calls (\<lambda>s pattern. pubsubUnsubscribePattern s c pattern True) s (tl (c_argv cl)))
   }"

definition publishCommand :: "'v redisServer \<Rightarrow> nat \<Rightarrow> 'v redisServer option" where
  "publishCommand s c = do {
     cl \<leftarrow> sv_clients s c;
     case c_argv cl of
       _ # channel # msg # _ \<Rightarrow> do {
         (s1, receivers) \<leftarrow> pubsubPublishMessage s channel msg;
         Some (addReply s1 c (R_Int (int receivers)))
       }
     | _ \<Rightarrow> None
   }"

subsection \<open>The two sides of a subscription\<close>

definition subscribers :: "'v redisServer \<Rightarrow> string \<Rightarrow> nat list" where
  "subscribers s channel = (case map_of (sv_pubsub_channels s) channel of Some l \<Rightarrow> l | None \<Rightarrow> [])"

definition channels_ok :: "'v redisServer \<Rightarrow> bool" where
  "channels_ok s \<longleftrightarrow> distinct (map fst (sv_pubsub_channels s)) \<and>
     (\<forall>channel. map_of (sv_pubsub_channels s) channel \<noteq> Some []) \<and>
     (\<forall>channel. distinct (subscribers s channel)) \<and>
     (\<forall>c channel. c \<in> set (subscribers s channel) \<longleftrightarrow>
        (\<exists>cl. sv_clients s c = Some cl \<and> channel \<in> set (c_pubsub_channels cl))) \<and>
     (\<forall>c cl. sv_clients s c = Some cl \<longrightarrow> distinct (c_pubsub_channels cl))"

definition patterns_ok :: "'v redisServer \<Rightarrow> bool" where
  "patterns_ok s \<longleftrightarrow> distinct (sv_pubsub_patterns s) \<and>
     (\<forall>c p. (c, p) \<in> set (sv_pubsub_patterns s) \<longleftrightarrow>
        (\<exists>cl. sv_clients s c = Some cl \<and> p \<in> set (c_pubsub_patterns cl))) \<and>
     (\<forall>c cl. sv_clients s c = Some cl \<longrightarrow> distinct (c_pubsub_patterns cl))"

definition pubsub_ok :: "'v redisServer \<Rightarrow> bool" where
  "pubsub_ok s \<longleftrightarrow> channels_ok s \<and> patterns_ok s"

text \<open>One client's subscriptions and the server's tables change together.\<close>

definition set_channels :: "'v redisServer \<Rightarrow> nat \<Rightarrow> string list \<Rightarrow> string \<Rightarrow> nat list \<Rightarrow> 'v redisServer" where
  "set_channels s c chs channel l =
     (upd_client s c (\<lambda>cl. cl\<lparr>c_pubsub_channels := chs\<rparr>))\<lparr>sv_pubsub_channels :=
        (if l = [] then AList.delete channel (sv_pubsub_channels s)
         else AList.update channel l (sv_pubsub_channels s))\<rparr>"

lemma subscribers_set [simp]:
  "subscribers (set_channels s c chs channel l) x = (if x = channel then l else subscribers s x)"
  by (auto simp: subscribers_def set_channels_def delete_conv' update_conv' split: option.splits)

lemma set_channels_fields [simp]:
  "sv_clients (set_channels s c chs channel l) x =
    (if x = c then map_option (\<lambda>cl. cl\<lparr>c_pubsub_channels := chs\<rparr>) (sv_clients s c) else sv_clients s x)"
  "sv_pubsub_patterns (set_channels s c chs channel l) = sv_pubsub_patterns s"
  by (simp_all add: set_channels_def)

lemma set_channels_ok:
  assumes ok: "pubsub_ok s" and c: "sv_clients s c = Some cl" and d: "distinct chs" "distinct l"
    and this_channel: "\<And>x. x \<in> set l \<longleftrightarrow> (if x = c then channel \<in> set chs else x \<in> set (subscribers s channel))"
    and other_channels: "\<And>x. x \<noteq> channel \<Longrightarrow> x \<in> set chs \<longleftrightarrow> x \<in> set (c_pubsub_channels cl)"
  shows "pubsub_ok (set_channels s c chs channel l)"
proof -
  let ?s = "set_channels s c chs channel l"
  have t: "distinct (map fst (sv_pubsub_channels ?s))" "\<forall>x. map_of (sv_pubsub_channels ?s) x \<noteq> Some []"
    using ok unfolding pubsub_ok_def channels_ok_def set_channels_def
    by (auto simp: delete_conv' update_conv' distinct_delete distinct_update simp del: map_of_eq_Some_iff)
  have agree: "x \<in> set (subscribers ?s ch) \<longleftrightarrow>
      (\<exists>cl. sv_clients ?s x = Some cl \<and> ch \<in> set (c_pubsub_channels cl))" for x ch
  proof -
    have old: "x \<in> set (subscribers s ch) \<longleftrightarrow>
        (\<exists>cl. sv_clients s x = Some cl \<and> ch \<in> set (c_pubsub_channels cl))" for x ch
      using ok by (simp add: pubsub_ok_def channels_ok_def)
    show ?thesis
      using old [of x ch] this_channel [of x] other_channels [of ch] c by (cases "ch = channel"; cases "x = c") auto
  qed
  have dd: "distinct (subscribers ?s ch)" for ch using ok d(2) by (simp add: pubsub_ok_def channels_ok_def)
  have dc: "distinct (c_pubsub_channels cl')" if "sv_clients ?s x = Some cl'" for x cl'
    using that ok d(1) c by (auto simp: pubsub_ok_def channels_ok_def split: if_splits)
  have "channels_ok ?s" unfolding channels_ok_def using t agree dd dc by blast
  moreover have "patterns_ok ?s"
    using ok c unfolding pubsub_ok_def patterns_ok_def by (auto split: if_splits)
  ultimately show ?thesis by (simp add: pubsub_ok_def)
qed

definition set_patterns :: "'v redisServer \<Rightarrow> nat \<Rightarrow> string list \<Rightarrow> (nat \<times> string) list \<Rightarrow> 'v redisServer" where
  "set_patterns s c ps l = (upd_client s c (\<lambda>cl. cl\<lparr>c_pubsub_patterns := ps\<rparr>))\<lparr>sv_pubsub_patterns := l\<rparr>"

lemma set_patterns_fields [simp]:
  "sv_clients (set_patterns s c ps l) x =
    (if x = c then map_option (\<lambda>cl. cl\<lparr>c_pubsub_patterns := ps\<rparr>) (sv_clients s c) else sv_clients s x)"
  "sv_pubsub_patterns (set_patterns s c ps l) = l" "sv_pubsub_channels (set_patterns s c ps l) = sv_pubsub_channels s"
  "subscribers (set_patterns s c ps l) = subscribers s"
  by (simp_all add: set_patterns_def subscribers_def fun_eq_iff)

lemma set_patterns_ok:
  assumes ok: "pubsub_ok s" and c: "sv_clients s c = Some cl" and d: "distinct ps" "distinct l"
    and l: "\<And>x p. (x, p) \<in> set l \<longleftrightarrow> (if x = c then p \<in> set ps else (x, p) \<in> set (sv_pubsub_patterns s))"
  shows "pubsub_ok (set_patterns s c ps l)"
proof -
  have "channels_ok (set_patterns s c ps l)"
    using ok c unfolding pubsub_ok_def channels_ok_def by (auto split: if_splits)
  moreover have "patterns_ok (set_patterns s c ps l)"
    using ok c d l unfolding pubsub_ok_def patterns_ok_def by (auto split: if_splits)
  ultimately show ?thesis by (simp add: pubsub_ok_def)
qed

lemma pubsub_ok_client:
  assumes ok: "pubsub_ok s"
    and f: "\<And>cl. c_pubsub_channels (f cl) = c_pubsub_channels cl \<and> c_pubsub_patterns (f cl) = c_pubsub_patterns cl"
  shows "pubsub_ok (upd_client s c f)"
proof -
  have "subscribers (upd_client s c f) = subscribers s" by (simp add: subscribers_def fun_eq_iff)
  moreover have "(\<exists>cl. sv_clients (upd_client s c f) x = Some cl \<and> ch \<in> set (c_pubsub_channels cl)) \<longleftrightarrow>
      (\<exists>cl. sv_clients s x = Some cl \<and> ch \<in> set (c_pubsub_channels cl))" for x ch
    using f by auto
  moreover have "(\<exists>cl. sv_clients (upd_client s c f) x = Some cl \<and> ch \<in> set (c_pubsub_patterns cl)) \<longleftrightarrow>
      (\<exists>cl. sv_clients s x = Some cl \<and> ch \<in> set (c_pubsub_patterns cl))" for x ch
    using f by auto
  moreover have "distinct (c_pubsub_channels cl') \<and> distinct (c_pubsub_patterns cl')"
    if "sv_clients (upd_client s c f) x = Some cl'" for x cl'
    using that f ok by (auto simp: pubsub_ok_def channels_ok_def patterns_ok_def split: if_splits)
  ultimately show ?thesis
    using ok unfolding pubsub_ok_def channels_ok_def patterns_ok_def upd_client_fields by auto
qed

lemma pubsub_ok_notify: "pubsub_ok s \<Longrightarrow> pubsub_ok (pubsub_notify k w s c)"
  unfolding pubsub_notify_def by (rule pubsub_ok_client) auto

subsection \<open>Subscribing and unsubscribing\<close>

lemma set_channels_update:
  "sv_clients s c = Some cl \<Longrightarrow> l \<noteq> [] \<Longrightarrow>
   (upd_client s c (\<lambda>cl. cl\<lparr>c_pubsub_channels := g (c_pubsub_channels cl)\<rparr>))
     \<lparr>sv_pubsub_channels := AList.update channel l (sv_pubsub_channels s)\<rparr> =
   set_channels s c (g (c_pubsub_channels cl)) channel l"
  by (simp add: set_channels_def upd_client_def)

lemma sv_clients_notify:
  "sv_clients s c = Some cl \<Longrightarrow> sv_clients (pubsub_notify k w s c) = (sv_clients s)(c \<mapsto>
     cl\<lparr>c_reply := c_reply cl @ [R_MultiBulkLen 3, R_Bulk k, w, R_Int (pubsub_count cl)]\<rparr>)"
  by (auto simp: pubsub_notify_def fun_eq_iff)

lemma subscribeChannel_ok:
  assumes ok: "pubsub_ok s" and c: "sv_clients s c = Some cl"
  shows "\<exists>s' chs rs. pubsubSubscribeChannel s c channel =
      Some (s', if channel \<in> set (c_pubsub_channels cl) then 0 else 1) \<and> pubsub_ok s' \<and>
    sv_clients s' = (sv_clients s)(c \<mapsto> cl\<lparr>c_pubsub_channels := chs, c_reply := c_reply cl @ rs\<rparr>) \<and>
    set chs = insert channel (set (c_pubsub_channels cl)) \<and>
    rs = [R_MultiBulkLen 3, R_Bulk ''subscribe'', R_Bulk channel, R_Int (pubsub_count (cl\<lparr>c_pubsub_channels := chs\<rparr>))]"
proof (cases "channel \<in> set (c_pubsub_channels cl)")
  case True
  have "cl\<lparr>c_pubsub_channels := c_pubsub_channels cl\<rparr> = cl" by simp
  moreover have "pubsubSubscribeChannel s c channel = Some (pubsub_notify ''subscribe'' (R_Bulk channel) s c, 0)"
    using True c by (simp add: pubsubSubscribeChannel_def)
  moreover have "set (c_pubsub_channels cl) = insert channel (set (c_pubsub_channels cl))" using True by blast
  ultimately show ?thesis
    using True ok pubsub_ok_notify [OF ok] sv_clients_notify [OF c, of "''subscribe''" "R_Bulk channel"]
    by (intro exI [of _ "pubsub_notify ''subscribe'' (R_Bulk channel) s c"] exI [of _ "c_pubsub_channels cl"]) auto
next
  case False
  let ?chs = "c_pubsub_channels cl @ [channel]"
  let ?l = "subscribers s channel @ [c]"
  let ?s1 = "set_channels s c ?chs channel ?l"
  have dis: "distinct (c_pubsub_channels cl)" "distinct (subscribers s channel)" "c \<notin> set (subscribers s channel)"
    using ok c False by (auto simp: pubsub_ok_def channels_ok_def)
  then have ok1: "pubsub_ok ?s1" using False by (intro set_channels_ok [OF ok c]) auto
  have c1: "sv_clients ?s1 c = Some (cl\<lparr>c_pubsub_channels := ?chs\<rparr>)" using c by simp
  have run: "pubsubSubscribeChannel s c channel = Some (pubsub_notify ''subscribe'' (R_Bulk channel) ?s1 c, 1)"
    using False c set_channels_update [OF c, of ?l channel "\<lambda>x. x @ [channel]"]
    by (simp add: pubsubSubscribeChannel_def subscribers_def Let_def)
  have cls: "sv_clients (pubsub_notify ''subscribe'' (R_Bulk channel) ?s1 c) = (sv_clients s)(c \<mapsto>
      cl\<lparr>c_pubsub_channels := ?chs, c_reply := c_reply cl @ [R_MultiBulkLen 3, R_Bulk ''subscribe'', R_Bulk channel,
        R_Int (pubsub_count (cl\<lparr>c_pubsub_channels := ?chs\<rparr>))]\<rparr>)"
    unfolding sv_clients_notify [OF c1] by (auto simp: fun_eq_iff)
  show ?thesis
    using False run cls pubsub_ok_notify [OF ok1]
    by (intro exI [of _ "pubsub_notify ''subscribe'' (R_Bulk channel) ?s1 c"] exI [of _ ?chs]) auto
qed

lemma unsubscribeChannel_ok:
  assumes ok: "pubsub_ok s" and c: "sv_clients s c = Some cl"
  shows "\<exists>s' rs. pubsubUnsubscribeChannel s c channel notify =
      Some (s', if channel \<in> set (c_pubsub_channels cl) then 1 else 0) \<and> pubsub_ok s' \<and>
    sv_clients s' = (sv_clients s)(c \<mapsto>
      cl\<lparr>c_pubsub_channels := remove1 channel (c_pubsub_channels cl), c_reply := c_reply cl @ rs\<rparr>)"
proof -
  let ?chs = "remove1 channel (c_pubsub_channels cl)"
  let ?l = "remove1 c (subscribers s channel)"
  define s1 where "s1 = (if channel \<in> set (c_pubsub_channels cl) then set_channels s c ?chs channel ?l else s)"
  have dis: "distinct (c_pubsub_channels cl)" "distinct (subscribers s channel)"
    using ok c by (auto simp: pubsub_ok_def channels_ok_def)
  have mem: "channel \<in> set (c_pubsub_channels cl) \<longleftrightarrow> c \<in> set (subscribers s channel)"
    using ok c by (simp add: pubsub_ok_def channels_ok_def)
  have ok1: "pubsub_ok s1"
    unfolding s1_def using ok dis mem by (auto intro!: set_channels_ok [OF ok c] split: if_splits)
  have c1: "sv_clients s1 = (sv_clients s)(c \<mapsto> cl\<lparr>c_pubsub_channels := ?chs\<rparr>)"
    using c by (auto simp: s1_def fun_eq_iff remove1_idem)
  have run: "pubsubUnsubscribeChannel s c channel notify =
    Some (if notify then pubsub_notify ''unsubscribe'' (R_Bulk channel) s1 c else s1,
      if channel \<in> set (c_pubsub_channels cl) then 1 else 0)"
  proof (cases "channel \<in> set (c_pubsub_channels cl)")
    case True
    then have "c \<in> set (subscribers s channel)" using mem by simp
    moreover from this have "map_of (sv_pubsub_channels s) channel = Some (subscribers s channel)"
      by (cases "map_of (sv_pubsub_channels s) channel") (auto simp: subscribers_def)
    ultimately show ?thesis
      using True c by (simp add: pubsubUnsubscribeChannel_def s1_def set_channels_def upd_client_def Let_def)
  qed (use c in \<open>simp add: pubsubUnsubscribeChannel_def s1_def\<close>)
  have cl1: "sv_clients s1 c = Some (cl\<lparr>c_pubsub_channels := ?chs\<rparr>)" by (simp add: c1)
  show ?thesis
  proof (cases notify)
    case True
    have "sv_clients (pubsub_notify ''unsubscribe'' (R_Bulk channel) s1 c) = (sv_clients s)(c \<mapsto>
      cl\<lparr>c_pubsub_channels := ?chs, c_reply := c_reply cl @ [R_MultiBulkLen 3, R_Bulk ''unsubscribe'', R_Bulk channel,
        R_Int (pubsub_count (cl\<lparr>c_pubsub_channels := ?chs\<rparr>))]\<rparr>)"
      unfolding sv_clients_notify [OF cl1] by (auto simp: fun_eq_iff c1)
    then show ?thesis using run True pubsub_ok_notify [OF ok1] by auto
  next
    case False
    then have "sv_clients s1 = (sv_clients s)(c \<mapsto> cl\<lparr>c_pubsub_channels := ?chs, c_reply := c_reply cl @ []\<rparr>)"
      using c1 by simp
    then show ?thesis using run False ok1 by fastforce
  qed
qed

lemma subscribePattern_ok:
  assumes ok: "pubsub_ok s" and c: "sv_clients s c = Some cl"
  shows "\<exists>s' ps rs. pubsubSubscribePattern s c pattern =
      Some (s', if pattern \<in> set (c_pubsub_patterns cl) then 0 else 1) \<and> pubsub_ok s' \<and>
    sv_clients s' = (sv_clients s)(c \<mapsto> cl\<lparr>c_pubsub_patterns := ps, c_reply := c_reply cl @ rs\<rparr>) \<and>
    set ps = insert pattern (set (c_pubsub_patterns cl))"
proof -
  define ps where "ps = (if pattern \<in> set (c_pubsub_patterns cl) then c_pubsub_patterns cl
    else c_pubsub_patterns cl @ [pattern])"
  define s1 where "s1 = (if pattern \<in> set (c_pubsub_patterns cl) then s
    else set_patterns s c ps (sv_pubsub_patterns s @ [(c, pattern)]))"
  have dis: "distinct (c_pubsub_patterns cl)" "distinct (sv_pubsub_patterns s)"
      "\<And>p. (c, p) \<in> set (sv_pubsub_patterns s) \<longleftrightarrow> p \<in> set (c_pubsub_patterns cl)"
    using ok c by (auto simp: pubsub_ok_def patterns_ok_def)
  have ok1: "pubsub_ok s1"
  proof (cases "pattern \<in> set (c_pubsub_patterns cl)")
    case False
    have "pubsub_ok (set_patterns s c (c_pubsub_patterns cl @ [pattern]) (sv_pubsub_patterns s @ [(c, pattern)]))"
      using False dis by (intro set_patterns_ok [OF ok c]) (auto split: if_splits)
    then show ?thesis using False by (simp add: s1_def ps_def)
  qed (simp add: s1_def ok)
  have c1: "sv_clients s1 = (sv_clients s)(c \<mapsto> cl\<lparr>c_pubsub_patterns := ps\<rparr>)"
    using c by (auto simp: s1_def ps_def fun_eq_iff)
  then have cl1: "sv_clients s1 c = Some (cl\<lparr>c_pubsub_patterns := ps\<rparr>)" by simp
  have run: "pubsubSubscribePattern s c pattern = Some (pubsub_notify ''psubscribe'' (R_Bulk pattern) s1 c,
      if pattern \<in> set (c_pubsub_patterns cl) then 0 else 1)"
    using c by (simp add: pubsubSubscribePattern_def s1_def ps_def set_patterns_def upd_client_def Let_def)
  have "sv_clients (pubsub_notify ''psubscribe'' (R_Bulk pattern) s1 c) = (sv_clients s)(c \<mapsto>
      cl\<lparr>c_pubsub_patterns := ps, c_reply := c_reply cl @ [R_MultiBulkLen 3, R_Bulk ''psubscribe'', R_Bulk pattern,
        R_Int (pubsub_count (cl\<lparr>c_pubsub_patterns := ps\<rparr>))]\<rparr>)"
    unfolding sv_clients_notify [OF cl1] by (auto simp: fun_eq_iff c1)
  moreover have "set ps = insert pattern (set (c_pubsub_patterns cl))" by (auto simp: ps_def)
  ultimately show ?thesis using run pubsub_ok_notify [OF ok1]
    by (intro exI [of _ "pubsub_notify ''psubscribe'' (R_Bulk pattern) s1 c"] exI [of _ ps] exI conjI)
qed

lemma unsubscribePattern_ok:
  assumes ok: "pubsub_ok s" and c: "sv_clients s c = Some cl"
  shows "\<exists>s' rs. pubsubUnsubscribePattern s c pattern notify =
      Some (s', if pattern \<in> set (c_pubsub_patterns cl) then 1 else 0) \<and> pubsub_ok s' \<and>
    sv_clients s' = (sv_clients s)(c \<mapsto>
      cl\<lparr>c_pubsub_patterns := remove1 pattern (c_pubsub_patterns cl), c_reply := c_reply cl @ rs\<rparr>)"
proof -
  let ?ps = "remove1 pattern (c_pubsub_patterns cl)"
  define s1 where "s1 = (if pattern \<in> set (c_pubsub_patterns cl)
    then set_patterns s c ?ps (remove1 (c, pattern) (sv_pubsub_patterns s)) else s)"
  have dis: "distinct (c_pubsub_patterns cl)" "distinct (sv_pubsub_patterns s)"
      "\<And>p. (c, p) \<in> set (sv_pubsub_patterns s) \<longleftrightarrow> p \<in> set (c_pubsub_patterns cl)"
    using ok c by (auto simp: pubsub_ok_def patterns_ok_def)
  have ok1: "pubsub_ok s1"
    unfolding s1_def using ok dis by (auto intro!: set_patterns_ok [OF ok c] split: if_splits)
  have c1: "sv_clients s1 = (sv_clients s)(c \<mapsto> cl\<lparr>c_pubsub_patterns := ?ps\<rparr>)"
    using c by (auto simp: s1_def fun_eq_iff remove1_idem)
  then have cl1: "sv_clients s1 c = Some (cl\<lparr>c_pubsub_patterns := ?ps\<rparr>)" by simp
  have run: "pubsubUnsubscribePattern s c pattern notify =
    Some (if notify then pubsub_notify ''punsubscribe'' (R_Bulk pattern) s1 c else s1,
      if pattern \<in> set (c_pubsub_patterns cl) then 1 else 0)"
    using c dis(3) by (simp add: pubsubUnsubscribePattern_def s1_def set_patterns_def upd_client_def Let_def)
  show ?thesis
  proof (cases notify)
    case True
    have "sv_clients (pubsub_notify ''punsubscribe'' (R_Bulk pattern) s1 c) = (sv_clients s)(c \<mapsto>
      cl\<lparr>c_pubsub_patterns := ?ps, c_reply := c_reply cl @ [R_MultiBulkLen 3, R_Bulk ''punsubscribe'', R_Bulk pattern,
        R_Int (pubsub_count (cl\<lparr>c_pubsub_patterns := ?ps\<rparr>))]\<rparr>)"
      unfolding sv_clients_notify [OF cl1] by (auto simp: fun_eq_iff c1)
    then show ?thesis using run True pubsub_ok_notify [OF ok1] by auto
  next
    case False
    then have "sv_clients s1 = (sv_clients s)(c \<mapsto> cl\<lparr>c_pubsub_patterns := ?ps, c_reply := c_reply cl @ []\<rparr>)"
      using c1 by simp
    then show ?thesis using run False ok1 by fastforce
  qed
qed

text \<open>The four operations under one roof: a call changes the subscriptions of the calling client only,
  and a loop of calls is a fold.\<close>

locale subscription =
  fixes op :: "'v redisServer \<Rightarrow> nat \<Rightarrow> string \<Rightarrow> ('v redisServer \<times> nat) option"
    and sub :: "redisClient \<Rightarrow> string list"
    and upd :: "string list \<Rightarrow> redisClient \<Rightarrow> redisClient"
    and eff :: "string \<Rightarrow> string set \<Rightarrow> string set"
  assumes op_ok: "pubsub_ok s \<Longrightarrow> sv_clients s c = Some cl \<Longrightarrow>
      \<exists>s' n xs rs. op s c x = Some (s', n) \<and> pubsub_ok s' \<and> set xs = eff x (set (sub cl)) \<and>
        sv_clients s' = (sv_clients s)(c \<mapsto> (upd xs cl)\<lparr>c_reply := c_reply cl @ rs\<rparr>)"
    and sub_upd: "sub (upd xs cl) = xs" "upd xs (upd ys cl) = upd xs cl" "upd (sub cl) cl = cl"
    and sub_reply: "sub (cl\<lparr>c_reply := rs\<rparr>) = sub cl" "upd xs (cl\<lparr>c_reply := rs\<rparr>) = (upd xs cl)\<lparr>c_reply := rs\<rparr>"
      "c_reply (upd xs cl) = c_reply cl"
begin

lemma loop_ok:
  "pubsub_ok s \<Longrightarrow> sv_clients s c = Some cl \<Longrightarrow>
   \<exists>s' n xs rs. sum_calls (\<lambda>s x. op s c x) s as = Some (s', n) \<and> pubsub_ok s' \<and>
     set xs = fold eff as (set (sub cl)) \<and>
     sv_clients s' = (sv_clients s)(c \<mapsto> (upd xs cl)\<lparr>c_reply := c_reply cl @ rs\<rparr>)"
proof (induction as arbitrary: s cl)
  case Nil
  have "sv_clients s = (sv_clients s)(c \<mapsto> (upd (sub cl) cl)\<lparr>c_reply := c_reply cl @ []\<rparr>)"
    using Nil by (simp add: sub_upd fun_upd_idem)
  then have "sum_calls (\<lambda>s x. op s c x) s [] = Some (s, 0) \<and> pubsub_ok s \<and> set (sub cl) = fold eff [] (set (sub cl)) \<and>
     sv_clients s = (sv_clients s)(c \<mapsto> (upd (sub cl) cl)\<lparr>c_reply := c_reply cl @ []\<rparr>)"
    using Nil(1) by simp
  then show ?case by blast
next
  case (Cons a as)
  obtain s1 n xs rs where s1: "op s c a = Some (s1, n)" "pubsub_ok s1" "set xs = eff a (set (sub cl))"
    "sv_clients s1 = (sv_clients s)(c \<mapsto> (upd xs cl)\<lparr>c_reply := c_reply cl @ rs\<rparr>)"
    using op_ok [OF Cons.prems] by blast
  let ?cl1 = "(upd xs cl)\<lparr>c_reply := c_reply cl @ rs\<rparr>"
  have "sv_clients s1 c = Some ?cl1" by (simp add: s1(4))
  from Cons.IH [OF s1(2) this] obtain s' m ys qs where s':
    "sum_calls (\<lambda>s x. op s c x) s1 as = Some (s', m)" "pubsub_ok s'" "set ys = fold eff as (set (sub ?cl1))"
    "sv_clients s' = (sv_clients s1)(c \<mapsto> (upd ys ?cl1)\<lparr>c_reply := c_reply ?cl1 @ qs\<rparr>)" by blast
  have "sv_clients s' = (sv_clients s)(c \<mapsto> (upd ys cl)\<lparr>c_reply := c_reply cl @ rs @ qs\<rparr>)"
    unfolding s'(4) s1(4) by (simp add: sub_reply sub_upd)
  moreover have "set ys = fold eff (a # as) (set (sub cl))" using s'(3) s1(3) by (simp add: sub_reply sub_upd)
  moreover have "sum_calls (\<lambda>s x. op s c x) s (a # as) = Some (s', n + m)" using s1(1) s'(1) by simp
  ultimately show ?case using s'(2) by blast
qed

end

interpretation sub_channel: subscription pubsubSubscribeChannel c_pubsub_channels
  "\<lambda>xs cl. cl\<lparr>c_pubsub_channels := xs\<rparr>" insert
  by unfold_locales (use subscribeChannel_ok in blast, auto)

interpretation unsub_channel: subscription "\<lambda>s c x. pubsubUnsubscribeChannel s c x b" c_pubsub_channels
  "\<lambda>xs cl. cl\<lparr>c_pubsub_channels := xs\<rparr>" "\<lambda>x A. A - {x}" for b
proof unfold_locales
  fix s :: "'v redisServer" and c cl x assume a: "pubsub_ok s" "sv_clients s c = Some cl"
  have "distinct (c_pubsub_channels cl)" using a by (auto simp: pubsub_ok_def channels_ok_def)
  then have "set (remove1 x (c_pubsub_channels cl)) = set (c_pubsub_channels cl) - {x}" by simp
  then show "\<exists>s' n xs rs. pubsubUnsubscribeChannel s c x b = Some (s', n) \<and> pubsub_ok s' \<and>
      set xs = set (c_pubsub_channels cl) - {x} \<and>
      sv_clients s' = (sv_clients s)(c \<mapsto> cl\<lparr>c_pubsub_channels := xs\<rparr>\<lparr>c_reply := c_reply cl @ rs\<rparr>)"
    using unsubscribeChannel_ok [OF a, of x b] by blast
qed auto

interpretation sub_pattern: subscription pubsubSubscribePattern c_pubsub_patterns
  "\<lambda>xs cl. cl\<lparr>c_pubsub_patterns := xs\<rparr>" insert
  by unfold_locales (use subscribePattern_ok in blast, auto)

interpretation unsub_pattern: subscription "\<lambda>s c x. pubsubUnsubscribePattern s c x b" c_pubsub_patterns
  "\<lambda>xs cl. cl\<lparr>c_pubsub_patterns := xs\<rparr>" "\<lambda>x A. A - {x}" for b
proof unfold_locales
  fix s :: "'v redisServer" and c cl x assume a: "pubsub_ok s" "sv_clients s c = Some cl"
  have "distinct (c_pubsub_patterns cl)" using a by (auto simp: pubsub_ok_def patterns_ok_def)
  then have "set (remove1 x (c_pubsub_patterns cl)) = set (c_pubsub_patterns cl) - {x}" by simp
  then show "\<exists>s' n xs rs. pubsubUnsubscribePattern s c x b = Some (s', n) \<and> pubsub_ok s' \<and>
      set xs = set (c_pubsub_patterns cl) - {x} \<and>
      sv_clients s' = (sv_clients s)(c \<mapsto> cl\<lparr>c_pubsub_patterns := xs\<rparr>\<lparr>c_reply := c_reply cl @ rs\<rparr>)"
    using unsubscribePattern_ok [OF a, of x b] by blast
qed auto

lemma fold_minus: "fold (\<lambda>x A. A - {x}) xs S = S - set xs"
  by (induction xs arbitrary: S) auto

lemma unsubscribeAllChannels_ok:
  assumes ok: "pubsub_ok s" and c: "sv_clients s c = Some cl"
  shows "\<exists>s' n rs. pubsubUnsubscribeAllChannels s c notify = Some (s', n) \<and> pubsub_ok s' \<and>
    sv_clients s' = (sv_clients s)(c \<mapsto> cl\<lparr>c_pubsub_channels := [], c_reply := c_reply cl @ rs\<rparr>)"
proof -
  obtain s1 n xs rs where s1:
    "sum_calls (\<lambda>s x. pubsubUnsubscribeChannel s c x notify) s (c_pubsub_channels cl) = Some (s1, n)" "pubsub_ok s1"
    "set xs = fold (\<lambda>x A. A - {x}) (c_pubsub_channels cl) (set (c_pubsub_channels cl))"
    "sv_clients s1 = (sv_clients s)(c \<mapsto> cl\<lparr>c_pubsub_channels := xs\<rparr>\<lparr>c_reply := c_reply cl @ rs\<rparr>)"
    using unsub_channel.loop_ok [OF ok c] by blast
  have "xs = []" using s1(3) by (simp add: fold_minus)
  then have c1: "sv_clients s1 = (sv_clients s)(c \<mapsto> cl\<lparr>c_pubsub_channels := [], c_reply := c_reply cl @ rs\<rparr>)"
    using s1(4) by simp
  let ?s2 = "if notify \<and> n = 0 then pubsub_notify ''unsubscribe'' R_NullBulk s1 c else s1"
  have "pubsubUnsubscribeAllChannels s c notify = Some (?s2, n)"
    using c s1(1) by (simp add: pubsubUnsubscribeAllChannels_def)
  moreover have "pubsub_ok ?s2" using s1(2) by (simp add: pubsub_ok_notify)
  moreover have "\<exists>rs. sv_clients ?s2 = (sv_clients s)(c \<mapsto> cl\<lparr>c_pubsub_channels := [], c_reply := c_reply cl @ rs\<rparr>)"
    using c1 sv_clients_notify [of s1 c "cl\<lparr>c_pubsub_channels := [], c_reply := c_reply cl @ rs\<rparr>"] by auto
  ultimately show ?thesis by blast
qed

lemma unsubscribeAllPatterns_ok:
  assumes ok: "pubsub_ok s" and c: "sv_clients s c = Some cl"
  shows "\<exists>s' n rs. pubsubUnsubscribeAllPatterns s c notify = Some (s', n) \<and> pubsub_ok s' \<and>
    sv_clients s' = (sv_clients s)(c \<mapsto> cl\<lparr>c_pubsub_patterns := [], c_reply := c_reply cl @ rs\<rparr>)"
proof -
  obtain s1 n xs rs where s1:
    "sum_calls (\<lambda>s x. pubsubUnsubscribePattern s c x notify) s (c_pubsub_patterns cl) = Some (s1, n)" "pubsub_ok s1"
    "set xs = fold (\<lambda>x A. A - {x}) (c_pubsub_patterns cl) (set (c_pubsub_patterns cl))"
    "sv_clients s1 = (sv_clients s)(c \<mapsto> cl\<lparr>c_pubsub_patterns := xs\<rparr>\<lparr>c_reply := c_reply cl @ rs\<rparr>)"
    using unsub_pattern.loop_ok [OF ok c] by blast
  have "xs = []" using s1(3) by (simp add: fold_minus)
  then have c1: "sv_clients s1 = (sv_clients s)(c \<mapsto> cl\<lparr>c_pubsub_patterns := [], c_reply := c_reply cl @ rs\<rparr>)"
    using s1(4) by simp
  let ?s2 = "if notify \<and> n = 0 then pubsub_notify ''punsubscribe'' R_NullBulk s1 c else s1"
  have "pubsubUnsubscribeAllPatterns s c notify = Some (?s2, n)"
    using c s1(1) by (simp add: pubsubUnsubscribeAllPatterns_def)
  moreover have "pubsub_ok ?s2" using s1(2) by (simp add: pubsub_ok_notify)
  moreover have "\<exists>rs. sv_clients ?s2 = (sv_clients s)(c \<mapsto> cl\<lparr>c_pubsub_patterns := [], c_reply := c_reply cl @ rs\<rparr>)"
    using c1 sv_clients_notify [of s1 c "cl\<lparr>c_pubsub_patterns := [], c_reply := c_reply cl @ rs\<rparr>"] by auto
  ultimately show ?thesis by blast
qed

subsection \<open>Publishing\<close>

definition received :: "nat \<Rightarrow> reply list \<Rightarrow> nat list \<Rightarrow> reply list" where
  "received x rs cs = concat (map (\<lambda>c. if c = x then rs else []) cs)"

lemma fold_add_replies:
  "sv_clients (fold (\<lambda>c s. add_replies rs s c) cs s) x =
   map_option (\<lambda>cl. cl\<lparr>c_reply := c_reply cl @ received x rs cs\<rparr>) (sv_clients s x)"
  by (induction cs arbitrary: s)
     (auto simp: add_replies_def received_def option.map_comp o_def option.map_ident intro: option.map_cong)

lemma fold_add_replies_fields [simp]:
  "sv_pubsub_patterns (fold (\<lambda>c s. add_replies rs s c) cs s) = sv_pubsub_patterns s"
  by (induction cs arbitrary: s) (auto simp: add_replies_def)

lemma received_distinct: "distinct cs \<Longrightarrow> received x rs cs = (if x \<in> set cs then rs else [])"
  by (induction cs) (auto simp: received_def)

lemma publish_patterns:
  "\<forall>(c, p) \<in> set ps. stringmatch_sds p channel False = Some (m p) \<Longrightarrow>
   \<exists>s'. sum_calls (publish_pattern channel msg) s ps = Some (s', length (filter (\<lambda>(c, p). m p) ps)) \<and>
     (\<forall>x. sv_clients s' x = map_option (\<lambda>cl. cl\<lparr>c_reply := c_reply cl @
        concat (map (\<lambda>(c, p). if c = x \<and> m p then pmessage p channel msg else []) ps)\<rparr>) (sv_clients s x))"
proof (induction ps arbitrary: s)
  case (Cons a ps)
  obtain c p where a: "a = (c, p)" by (cases a)
  let ?s1 = "if m p then add_replies (pmessage p channel msg) s c else s"
  have run: "publish_pattern channel msg s a = Some (?s1, if m p then 1 else 0)"
    using Cons.prems by (simp add: publish_pattern_def a)
  have "\<forall>(c, p) \<in> set ps. stringmatch_sds p channel False = Some (m p)" using Cons.prems by simp
  from Cons.IH [OF this, of ?s1] obtain s' where s':
    "sum_calls (publish_pattern channel msg) ?s1 ps = Some (s', length (filter (\<lambda>(c, p). m p) ps))"
    "\<And>x. sv_clients s' x = map_option (\<lambda>cl. cl\<lparr>c_reply := c_reply cl @
        concat (map (\<lambda>(c, p). if c = x \<and> m p then pmessage p channel msg else []) ps)\<rparr>) (sv_clients ?s1 x)"
    by blast
  have "sum_calls (publish_pattern channel msg) s (a # ps) = Some (s', length (filter (\<lambda>(c, p). m p) (a # ps)))"
    using run s'(1) by (auto simp: a)
  moreover have "sv_clients s' x = map_option (\<lambda>cl. cl\<lparr>c_reply := c_reply cl @
      concat (map (\<lambda>(c, p). if c = x \<and> m p then pmessage p channel msg else []) (a # ps))\<rparr>) (sv_clients s x)" for x
    by (cases "sv_clients s x") (auto simp: s'(2) a add_replies_def)
  ultimately show ?case by blast
qed (simp add: option.map_ident)

lemma publish_ok:
  assumes ok: "pubsub_ok s"
    and m: "\<forall>(c, p) \<in> set (sv_pubsub_patterns s). stringmatch_sds p channel False = Some (m p)"
  shows "\<exists>s'. pubsubPublishMessage s channel msg = Some (s',
      length (subscribers s channel) + length (filter (\<lambda>(c, p). m p) (sv_pubsub_patterns s))) \<and>
    (\<forall>x cl. sv_clients s x = Some cl \<longrightarrow> sv_clients s' x = Some (cl\<lparr>c_reply := c_reply cl @
       (if channel \<in> set (c_pubsub_channels cl) then message channel msg else []) @
       concat (map (\<lambda>(c, p). if c = x \<and> m p then pmessage p channel msg else []) (sv_pubsub_patterns s))\<rparr>))"
proof -
  let ?s1 = "fold (\<lambda>c s. add_replies (message channel msg) s c) (subscribers s channel) s"
  obtain s' where s': "sum_calls (publish_pattern channel msg) ?s1 (sv_pubsub_patterns s) =
      Some (s', length (filter (\<lambda>(c, p). m p) (sv_pubsub_patterns s)))"
    "\<And>x. sv_clients s' x = map_option (\<lambda>cl. cl\<lparr>c_reply := c_reply cl @
        concat (map (\<lambda>(c, p). if c = x \<and> m p then pmessage p channel msg else []) (sv_pubsub_patterns s))\<rparr>)
      (sv_clients ?s1 x)"
    using publish_patterns [OF m] by blast
  have run: "pubsubPublishMessage s channel msg = Some (s',
      length (subscribers s channel) + length (filter (\<lambda>(c, p). m p) (sv_pubsub_patterns s)))"
    using s'(1) by (simp add: pubsubPublishMessage_def subscribers_def Let_def)
  have "sv_clients s' x = Some (cl\<lparr>c_reply := c_reply cl @
       (if channel \<in> set (c_pubsub_channels cl) then message channel msg else []) @
       concat (map (\<lambda>(c, p). if c = x \<and> m p then pmessage p channel msg else []) (sv_pubsub_patterns s))\<rparr>)"
    if "sv_clients s x = Some cl" for x cl
  proof -
    have "distinct (subscribers s channel)" "x \<in> set (subscribers s channel) \<longleftrightarrow> channel \<in> set (c_pubsub_channels cl)"
      using ok that by (simp_all add: pubsub_ok_def channels_ok_def)
    then show ?thesis using that by (simp add: s'(2) fold_add_replies received_distinct)
  qed
  then show ?thesis using run by blast
qed

lemma subscribers_card:
  "pubsub_ok s \<Longrightarrow> length (subscribers s channel) =
   card {c. \<exists>cl. sv_clients s c = Some cl \<and> channel \<in> set (c_pubsub_channels cl)}"
proof -
  assume ok: "pubsub_ok s"
  then have "set (subscribers s channel) = {c. \<exists>cl. sv_clients s c = Some cl \<and> channel \<in> set (c_pubsub_channels cl)}"
    "distinct (subscribers s channel)" by (auto simp: pubsub_ok_def channels_ok_def)
  then show ?thesis using distinct_card by metis
qed

lemma patterns_card:
  "pubsub_ok s \<Longrightarrow> length (filter (\<lambda>(c, p). m p) (sv_pubsub_patterns s)) =
   card {(c, p). \<exists>cl. sv_clients s c = Some cl \<and> p \<in> set (c_pubsub_patterns cl) \<and> m p}"
proof -
  assume ok: "pubsub_ok s"
  then have "set (filter (\<lambda>(c, p). m p) (sv_pubsub_patterns s)) =
      {(c, p). \<exists>cl. sv_clients s c = Some cl \<and> p \<in> set (c_pubsub_patterns cl) \<and> m p}"
    "distinct (filter (\<lambda>(c, p). m p) (sv_pubsub_patterns s))" by (auto simp: pubsub_ok_def patterns_ok_def)
  then show ?thesis using distinct_card by metis
qed

subsection \<open>Properties\<close>

lemma fold_insert: "fold insert xs S = set xs \<union> S"
  by (induction xs arbitrary: S) auto

text \<open>C22. The four subscription commands never fail an assertion and keep the tables of the server and
  the subscriptions of the clients in agreement.  (P)SUBSCRIBE adds exactly its arguments to the
  client's subscriptions, (P)UNSUBSCRIBE removes its arguments, or everything when it has none.\<close>

theorem subscriptions_agree:
  assumes ok: "pubsub_ok s" and c: "sv_clients s c = Some cl"
  shows "(\<exists>s' cl'. subscribeCommand s c = Some s' \<and> pubsub_ok s' \<and> sv_clients s' c = Some cl' \<and>
      set (c_pubsub_channels cl') = set (tl (c_argv cl)) \<union> set (c_pubsub_channels cl)) \<and>
    (\<exists>s' cl'. unsubscribeCommand s c = Some s' \<and> pubsub_ok s' \<and> sv_clients s' c = Some cl' \<and>
      set (c_pubsub_channels cl') =
        (if length (c_argv cl) = 1 then {} else set (c_pubsub_channels cl) - set (tl (c_argv cl)))) \<and>
    (\<exists>s' cl'. psubscribeCommand s c = Some s' \<and> pubsub_ok s' \<and> sv_clients s' c = Some cl' \<and>
      set (c_pubsub_patterns cl') = set (tl (c_argv cl)) \<union> set (c_pubsub_patterns cl)) \<and>
    (\<exists>s' cl'. punsubscribeCommand s c = Some s' \<and> pubsub_ok s' \<and> sv_clients s' c = Some cl' \<and>
      set (c_pubsub_patterns cl') =
        (if length (c_argv cl) = 1 then {} else set (c_pubsub_patterns cl) - set (tl (c_argv cl))))"
  (is "?A \<and> ?B \<and> ?C \<and> ?D")
proof (intro conjI)
  show ?A
    using sub_channel.loop_ok [OF ok c, of "tl (c_argv cl)"] c
    by (auto simp: subscribeCommand_def fold_insert)
  show ?C
    using sub_pattern.loop_ok [OF ok c, of "tl (c_argv cl)"] c
    by (auto simp: psubscribeCommand_def fold_insert)
  show ?B
    using unsub_channel.loop_ok [OF ok c, of True "tl (c_argv cl)"] unsubscribeAllChannels_ok [OF ok c, of True] c
    by (auto simp: unsubscribeCommand_def fold_minus)
  show ?D
    using unsub_pattern.loop_ok [OF ok c, of True "tl (c_argv cl)"] unsubscribeAllPatterns_ok [OF ok c, of True] c
    by (auto simp: punsubscribeCommand_def fold_minus)
qed

lemma init_pubsub_ok: "pubsub_ok (createClient (initServer us) c)"
  by (simp add: pubsub_ok_def channels_ok_def patterns_ok_def subscribers_def createClient_def initServer_def
      new_client_def)

theorem subscriptions_agree_witness:
  "\<exists>s' cl'. subscribeCommand (upd_client (createClient (initServer 0 :: unit redisServer) 3) 3
       (\<lambda>cl. cl\<lparr>c_argv := [''subscribe'', ''news'', ''chat'']\<rparr>)) 3 = Some s' \<and>
     sv_clients s' 3 = Some cl' \<and> set (c_pubsub_channels cl') = {''news'', ''chat''}"
proof -
  let ?s = "upd_client (createClient (initServer 0 :: unit redisServer) 3) 3
    (\<lambda>cl. cl\<lparr>c_argv := [''subscribe'', ''news'', ''chat'']\<rparr>)"
  have "pubsub_ok ?s" by (rule pubsub_ok_client [OF init_pubsub_ok]) auto
  moreover have "sv_clients ?s 3 = Some (new_client\<lparr>c_argv := [''subscribe'', ''news'', ''chat'']\<rparr>)"
    by (simp add: createClient_def)
  ultimately show ?thesis using subscriptions_agree [of ?s 3] by (auto simp: new_client_def)
qed

lemma publish_overrun:
  fixes s :: "'v redisServer"
  assumes "(c, p) \<in> set (sv_pubsub_patterns s)" and "stringmatch_sds p channel False = None"
  shows "pubsubPublishMessage s channel msg = None"
proof -
  have "sum_calls (publish_pattern channel msg) t ps = None" if "(c, p) \<in> set ps" for t :: "'v redisServer" and ps
    using that
  proof (induction ps arbitrary: t)
    case (Cons a ps)
    show ?case
    proof (cases "a = (c, p)")
      case True
      then show ?thesis using assms(2) by (simp add: publish_pattern_def)
    next
      case False
      then show ?thesis using Cons by (cases "publish_pattern channel msg t a") auto
    qed
  qed simp
  then show ?thesis using assms(1) by (simp add: pubsubPublishMessage_def Let_def)
qed

text \<open>C11. A published message goes once to every client subscribed to the channel and once for every
  pattern of a client that matches the channel, to nobody else, and the number returned counts exactly these
  deliveries.  A pattern matches when \<^verbatim>\<open>stringmatchlen\<close> says so; when its run on one of the
  patterns leaves the blocks of pattern and channel, publishing does (it does not for the patterns that \<open>plain_pattern\<close> describes).\<close>

theorem publish_reaches_subscribers:
  fixes channel :: string
  assumes ok: "pubsub_ok s"
  defines "m \<equiv> \<lambda>p. stringmatch_sds p channel False = Some True"
  shows "if \<exists>c p. (c, p) \<in> set (sv_pubsub_patterns s) \<and> stringmatch_sds p channel False = None
    then pubsubPublishMessage s channel msg = None
    else \<exists>s'. pubsubPublishMessage s channel msg = Some (s',
        card {c. \<exists>cl. sv_clients s c = Some cl \<and> channel \<in> set (c_pubsub_channels cl)} +
        card {(c, p). \<exists>cl. sv_clients s c = Some cl \<and> p \<in> set (c_pubsub_patterns cl) \<and> m p}) \<and>
      (\<forall>x cl. sv_clients s x = Some cl \<longrightarrow> sv_clients s' x = Some (cl\<lparr>c_reply := c_reply cl @
         (if channel \<in> set (c_pubsub_channels cl) then message channel msg else []) @
         concat (map (\<lambda>(c, p). if c = x \<and> m p then pmessage p channel msg else []) (sv_pubsub_patterns s))\<rparr>))"
proof (cases "\<exists>c p. (c, p) \<in> set (sv_pubsub_patterns s) \<and> stringmatch_sds p channel False = None")
  case True
  then show ?thesis using publish_overrun by (auto simp only: if_True)
next
  case False
  then have "\<forall>(c, p) \<in> set (sv_pubsub_patterns s). stringmatch_sds p channel False = Some (m p)"
    by (auto simp: m_def) (metis (full_types))
  from publish_ok [OF ok this, of msg] show ?thesis
    unfolding subscribers_card [OF ok] patterns_card [OF ok] using False by (simp only: if_False)
qed

theorem publish_reaches_subscribers_witness:
  "\<exists>s'. pubsubPublishMessage ((upd_client (createClient (initServer 0 :: unit redisServer) 3) 3
       (\<lambda>cl. cl\<lparr>c_pubsub_channels := [''news''], c_pubsub_patterns := [''n[a-f]*'', ''x*'']\<rparr>))
       \<lparr>sv_pubsub_channels := [(''news'', [3])], sv_pubsub_patterns := [(3, ''n[a-f]*''), (3, ''x*'')]\<rparr>) ''news'' ''hi'' = Some (s', 2) \<and>
     map_option c_reply (sv_clients s' 3) = Some (message ''news'' ''hi'' @ pmessage ''n[a-f]*'' ''news'' ''hi'')"
proof -
  define s :: "unit redisServer" where "s = (upd_client (createClient (initServer 0) 3) 3
       (\<lambda>cl. cl\<lparr>c_pubsub_channels := [''news''], c_pubsub_patterns := [''n[a-f]*'', ''x*'']\<rparr>))
       \<lparr>sv_pubsub_channels := [(''news'', [3])], sv_pubsub_patterns := [(3, ''n[a-f]*''), (3, ''x*'')]\<rparr>"
  define cl where "cl = new_client\<lparr>c_pubsub_channels := [''news''], c_pubsub_patterns := [''n[a-f]*'', ''x*'']\<rparr>"
  have f: "sv_clients s = [3 \<mapsto> cl]" "sv_pubsub_patterns s = [(3, ''n[a-f]*''), (3, ''x*'')]"
      "sv_pubsub_channels s = [(''news'', [3])]"
    by (auto simp: s_def cl_def createClient_def initServer_def fun_eq_iff)
  have n: "c_pubsub_channels cl = [''news'']" "c_pubsub_patterns cl = [''n[a-f]*'', ''x*'']" "c_reply cl = []"
    by (simp_all add: cl_def new_client_def)
  have ok: "pubsub_ok s"
    by (auto simp: pubsub_ok_def channels_ok_def patterns_ok_def subscribers_def f n split: if_splits)
  have m: "stringmatch_sds ''n[a-f]*'' ''news'' False = Some True" "stringmatch_sds ''x*'' ''news'' False = Some False"
    by code_simp+
  have c1: "{c. \<exists>cl. sv_clients s c = Some cl \<and> ''news'' \<in> set (c_pubsub_channels cl)} = {3}"
    by (auto simp: f n split: if_splits)
  have c2: "{(c, p). \<exists>cl. sv_clients s c = Some cl \<and> p \<in> set (c_pubsub_patterns cl) \<and> stringmatch_sds p ''news'' False = Some True} =
      {(3, ''n[a-f]*'')}"
    by (auto simp: f n m split: if_splits)
  have "\<not> (\<exists>c p. (c, p) \<in> set (sv_pubsub_patterns s) \<and> stringmatch_sds p ''news'' False = None)" by (auto simp: f m)
  with publish_reaches_subscribers [OF ok, of "''news''" "''hi''", unfolded c1 c2]
  obtain s' where s': "pubsubPublishMessage s ''news'' ''hi'' = Some (s', 2)" "\<And>x cl. sv_clients s x = Some cl \<Longrightarrow> sv_clients s' x = Some (cl\<lparr>c_reply := c_reply cl @
         (if ''news'' \<in> set (c_pubsub_channels cl) then message ''news'' ''hi'' else []) @
         concat (map (\<lambda>(c, p). if c = x \<and> stringmatch_sds p ''news'' False = Some True then pmessage p ''news'' ''hi'' else []) (sv_pubsub_patterns s))\<rparr>)"
    by (auto simp only: if_False) (simp add: numeral_2_eq_2)
  have "map_option c_reply (sv_clients s' 3) = Some (message ''news'' ''hi'' @ pmessage ''n[a-f]*'' ''news'' ''hi'')"
    using s'(2) [of 3 cl] by (simp add: f n m)
  then show ?thesis using s'(1) unfolding s_def by blast
qed

end
