(* ===== verification/Db.thy ===== *)
theory Db
  imports Multi Commands Util Option_Logic
begin

section \<open>The key space (\<^verbatim>\<open>db.c\<close>)\<close>

text \<open>
  A database is addressed by its index.  \<open>None\<close> is a failed assertion, a missing argument or a read
  past a block in the pattern matcher.  The access time that a lookup stores in a value for the
  eviction of keys, reference counts and the signal sent to a saving child are not modelled.  Time is
  the field \<^verbatim>\<open>sv_mstime\<close>; it does not move during a command.
\<close>

definition lookupKey :: "'v redisServer \<Rightarrow> nat \<Rightarrow> string \<Rightarrow> 'v option" where
  "lookupKey s d key = (case get_db s d of None \<Rightarrow> None | Some db \<Rightarrow> map_of (db_dict db) key)"

subsection \<open>Expires\<close>

definition removeExpire :: "'v redisServer \<Rightarrow> nat \<Rightarrow> string \<Rightarrow> ('v redisServer \<times> bool) option" where
  "removeExpire s d key = do {
     db \<leftarrow> get_db s d;
     if map_of (db_dict db) key = None then None
     else Some (upd_db s d (\<lambda>db. db\<lparr>db_expires := AList.delete key (db_expires db)\<rparr>),
       map_of (db_expires db) key \<noteq> None)
   }"

definition setExpire :: "'v redisServer \<Rightarrow> nat \<Rightarrow> string \<Rightarrow> int \<Rightarrow> 'v redisServer option" where
  "setExpire s d key when = do {
     db \<leftarrow> get_db s d;
     if map_of (db_dict db) key = None then None
     else Some (upd_db s d (\<lambda>db. db\<lparr>db_expires := AList.update key when (db_expires db)\<rparr>))
   }"

definition getExpire :: "'v redisServer \<Rightarrow> nat \<Rightarrow> string \<Rightarrow> int option" where
  "getExpire s d key = do {
     db \<leftarrow> get_db s d;
     case map_of (db_expires db) key of
       None \<Rightarrow> Some (- 1)
     | Some when \<Rightarrow> if map_of (db_dict db) key = None then None else Some when
   }"

definition propagateExpire :: "'v redisServer \<Rightarrow> nat \<Rightarrow> string \<Rightarrow> 'v redisServer" where
  "propagateExpire s d key =
     (let argv = [''DEL'', key];
          s1 = (if sv_aof_on s then s\<lparr>sv_aof := sv_aof s @ [(d, argv)]\<rparr> else s)
      in if sv_slaves s1 \<noteq> 0 then s1\<lparr>sv_repl_feed := sv_repl_feed s1 @ [(d, argv)]\<rparr> else s1)"

definition dbDelete :: "'v redisServer \<Rightarrow> nat \<Rightarrow> string \<Rightarrow> ('v redisServer \<times> bool) option" where
  "dbDelete s d key = do {
     db \<leftarrow> get_db s d;
     let s1 = (if length (db_expires db) > 0
       then upd_db s d (\<lambda>db. db\<lparr>db_expires := AList.delete key (db_expires db)\<rparr>) else s);
     Some (upd_db s1 d (\<lambda>db. db\<lparr>db_dict := AList.delete key (db_dict db)\<rparr>), map_of (db_dict db) key \<noteq> None)
   }"

definition expireIfNeeded :: "'v redisServer \<Rightarrow> nat \<Rightarrow> string \<Rightarrow> ('v redisServer \<times> bool) option" where
  "expireIfNeeded s d key = do {
     when \<leftarrow> getExpire s d key;
     if when < 0 then Some (s, False)
     else if sv_loading s then Some (s, False)
     else if sv_masterhost s then Some (s, sv_mstime s > when)
     else if sv_mstime s \<le> when then Some (s, False)
     else dbDelete (propagateExpire (s\<lparr>sv_stat_expiredkeys := sv_stat_expiredkeys s + 1\<rparr>) d key) d key
   }"

subsection \<open>Lookup and modification\<close>

definition lookupKeyRead :: "'v redisServer \<Rightarrow> nat \<Rightarrow> string \<Rightarrow> ('v redisServer \<times> 'v option) option" where
  "lookupKeyRead s d key = do {
     (s1, _) \<leftarrow> expireIfNeeded s d key;
     let val = lookupKey s1 d key;
     Some (case val of
         None \<Rightarrow> s1\<lparr>sv_stat_keyspace_misses := sv_stat_keyspace_misses s1 + 1\<rparr>
       | Some _ \<Rightarrow> s1\<lparr>sv_stat_keyspace_hits := sv_stat_keyspace_hits s1 + 1\<rparr>, val)
   }"

definition lookupKeyWrite :: "'v redisServer \<Rightarrow> nat \<Rightarrow> string \<Rightarrow> ('v redisServer \<times> 'v option) option" where
  "lookupKeyWrite s d key = do {
     (s1, _) \<leftarrow> expireIfNeeded s d key;
     Some (s1, lookupKey s1 d key)
   }"

definition lookupKeyReadOrReply ::
  "'v redisServer \<Rightarrow> nat \<Rightarrow> string \<Rightarrow> reply \<Rightarrow> ('v redisServer \<times> 'v option) option" where
  "lookupKeyReadOrReply s c key r = do {
     cl \<leftarrow> sv_clients s c;
     (s1, val) \<leftarrow> lookupKeyRead s (c_db cl) key;
     Some (if val = None then addReply s1 c r else s1, val)
   }"

definition lookupKeyWriteOrReply ::
  "'v redisServer \<Rightarrow> nat \<Rightarrow> string \<Rightarrow> reply \<Rightarrow> ('v redisServer \<times> 'v option) option" where
  "lookupKeyWriteOrReply s c key r = do {
     cl \<leftarrow> sv_clients s c;
     (s1, val) \<leftarrow> lookupKeyWrite s (c_db cl) key;
     Some (if val = None then addReply s1 c r else s1, val)
   }"

definition dbAdd :: "'v redisServer \<Rightarrow> nat \<Rightarrow> string \<Rightarrow> 'v \<Rightarrow> 'v redisServer option" where
  "dbAdd s d key val = do {
     db \<leftarrow> get_db s d;
     if map_of (db_dict db) key \<noteq> None then None
     else Some (upd_db s d (\<lambda>db. db\<lparr>db_dict := (key, val) # db_dict db\<rparr>))
   }"

definition dbOverwrite :: "'v redisServer \<Rightarrow> nat \<Rightarrow> string \<Rightarrow> 'v \<Rightarrow> 'v redisServer option" where
  "dbOverwrite s d key val = do {
     db \<leftarrow> get_db s d;
     if map_of (db_dict db) key = None then None
     else Some (upd_db s d (\<lambda>db. db\<lparr>db_dict := AList.update key val (db_dict db)\<rparr>))
   }"

definition signalModifiedKey :: "'v redisServer \<Rightarrow> nat \<Rightarrow> string \<Rightarrow> 'v redisServer option" where
  "signalModifiedKey s d key = touchWatchedKey s d key"

definition signalFlushedDb :: "'v redisServer \<Rightarrow> int \<Rightarrow> 'v redisServer" where
  "signalFlushedDb s dbid = touchWatchedKeysOnFlush s dbid"

definition setKey :: "'v redisServer \<Rightarrow> nat \<Rightarrow> string \<Rightarrow> 'v \<Rightarrow> 'v redisServer option" where
  "setKey s d key val = do {
     (s1, old) \<leftarrow> lookupKeyWrite s d key;
     s2 \<leftarrow> (case old of None \<Rightarrow> dbAdd s1 d key val | Some _ \<Rightarrow> dbOverwrite s1 d key val);
     (s3, _) \<leftarrow> removeExpire s2 d key;
     signalModifiedKey s3 d key
   }"

definition dbExists :: "'v redisServer \<Rightarrow> nat \<Rightarrow> string \<Rightarrow> bool" where
  "dbExists s d key = (lookupKey s d key \<noteq> None)"

text \<open>The loop of \<^verbatim>\<open>dbRandomKey\<close>, with the list of the positions that \<^verbatim>\<open>dictGetRandomKey\<close> picks one after
  the other: \<open>None\<close> when the list ends before the loop does.\<close>

fun dbRandomKey :: "'v redisServer \<Rightarrow> nat \<Rightarrow> nat list \<Rightarrow> ('v redisServer \<times> string option) option" where
  "dbRandomKey s d [] = None"
| "dbRandomKey s d (pick # picks) = do {
     db \<leftarrow> get_db s d;
     if db_dict db = [] then Some (s, None)
     else do {
       let key = fst (db_dict db ! (pick mod length (db_dict db)));
       if map_of (db_expires db) key \<noteq> None then do {
         (s1, expired) \<leftarrow> expireIfNeeded s d key;
         if expired then dbRandomKey s1 d picks else Some (s1, Some key)
       } else Some (s, Some key)
     }
   }"

definition emptyDb :: "'v redisServer \<Rightarrow> 'v redisServer \<times> int" where
  "emptyDb s =
     (s\<lparr>sv_db := map (\<lambda>db. db\<lparr>db_dict := [], db_expires := []\<rparr>) (sv_db s)\<rparr>,
      sum_list (map (\<lambda>db. int (length (db_dict db))) (sv_db s)))"

text \<open>The index is an \<^verbatim>\<open>int\<close>.\<close>

definition selectDb :: "'v redisServer \<Rightarrow> nat \<Rightarrow> int \<Rightarrow> 'v redisServer \<times> bool" where
  "selectDb s c i =
     (if i < 0 \<or> i \<ge> int (length (sv_db s)) then (s, False)
      else (upd_client s c (\<lambda>cl. cl\<lparr>c_db := nat i\<rparr>), True))"

subsection \<open>Commands\<close>

text \<open>The n-th argument of the client's command.\<close>

definition arg :: "redisClient \<Rightarrow> nat \<Rightarrow> string option" where
  "arg cl n = (if n < length (c_argv cl) then Some (c_argv cl ! n) else None)"

definition incr_dirty :: "int \<Rightarrow> 'v redisServer \<Rightarrow> 'v redisServer" where
  "incr_dirty n s = s\<lparr>sv_dirty := sv_dirty s + n\<rparr>"

definition flushdbCommand :: "'v redisServer \<Rightarrow> nat \<Rightarrow> 'v redisServer option" where
  "flushdbCommand s c = do {
     cl \<leftarrow> sv_clients s c;
     db \<leftarrow> get_db s (c_db cl);
     let s1 = signalFlushedDb (incr_dirty (int (length (db_dict db))) s) (int (c_db cl));
     Some (addReply (upd_db s1 (c_db cl) (\<lambda>db. db\<lparr>db_dict := [], db_expires := []\<rparr>)) c (R_Status ''OK''))
   }"

text \<open>What a synchronous save does to the state; the flag is whether it succeeded.\<close>

definition rdbSave :: "bool \<Rightarrow> 'v redisServer \<Rightarrow> 'v redisServer" where
  "rdbSave ok s =
     (if ok then s\<lparr>sv_dirty := 0, sv_lastsave := sv_ustime s div 1000000, sv_lastbgsave_ok := True\<rparr> else s)"

definition flushallCommand :: "bool \<Rightarrow> 'v redisServer \<Rightarrow> nat \<Rightarrow> 'v redisServer option" where
  "flushallCommand save_ok s c = do {
     cl \<leftarrow> sv_clients s c;
     let (s1, removed) = emptyDb (signalFlushedDb s (- 1));
     let s2 = addReply (incr_dirty removed s1) c (R_Status ''OK'');
     let s3 = (if sv_saveparamslen s2 > 0
               then (let saved_dirty = to_signed 32 (sv_dirty s2)
                     in (rdbSave save_ok s2)\<lparr>sv_dirty := saved_dirty\<rparr>)
               else s2);
     Some (incr_dirty 1 s3)
   }"

fun del_loop :: "'v redisServer \<Rightarrow> nat \<Rightarrow> string list \<Rightarrow> nat \<Rightarrow> ('v redisServer \<times> nat) option" where
  "del_loop s d [] deleted = Some (s, deleted)"
| "del_loop s d (key # keys) deleted = do {
     (s1, found) \<leftarrow> dbDelete s d key;
     if found then do {
       s2 \<leftarrow> signalModifiedKey s1 d key;
       del_loop (incr_dirty 1 s2) d keys (deleted + 1)
     } else del_loop s1 d keys deleted
   }"

definition delCommand :: "'v redisServer \<Rightarrow> nat \<Rightarrow> 'v redisServer option" where
  "delCommand s c = do {
     cl \<leftarrow> sv_clients s c;
     (s1, deleted) \<leftarrow> del_loop s (c_db cl) (tl (c_argv cl)) 0;
     Some (addReply s1 c (R_Int (int deleted)))
   }"

definition existsCommand :: "'v redisServer \<Rightarrow> nat \<Rightarrow> 'v redisServer option" where
  "existsCommand s c = do {
     cl \<leftarrow> sv_clients s c;
     key \<leftarrow> arg cl 1;
     (s1, _) \<leftarrow> expireIfNeeded s (c_db cl) key;
     Some (addReply s1 c (R_Int (if dbExists s1 (c_db cl) key then 1 else 0)))
   }"

definition selectCommand :: "'v redisServer \<Rightarrow> nat \<Rightarrow> 'v redisServer option" where
  "selectCommand s c = do {
     cl \<leftarrow> sv_clients s c;
     a \<leftarrow> arg cl 1;
     case getLongFromObjectOrReply (Some (createStringObject 0 a)) (Some ''invalid DB index'') of
       Inl e \<Rightarrow> Some (addReply s c (R_Error e))
     | Inr i \<Rightarrow>
         (case selectDb s c (to_signed 32 i) of
            (s1, False) \<Rightarrow> Some (addReply s1 c (R_Error ''invalid DB index''))
          | (s1, True) \<Rightarrow> Some (addReply s1 c (R_Status ''OK'')))
   }"

definition randomkeyCommand :: "nat list \<Rightarrow> 'v redisServer \<Rightarrow> nat \<Rightarrow> 'v redisServer option" where
  "randomkeyCommand picks s c = do {
     cl \<leftarrow> sv_clients s c;
     (s1, key) \<leftarrow> dbRandomKey s (c_db cl) picks;
     Some (addReply s1 c (case key of None \<Rightarrow> R_NullBulk | Some k \<Rightarrow> R_Bulk k))
   }"

definition allkeys :: "string \<Rightarrow> bool" where
  "allkeys pattern = (case pattern of [] \<Rightarrow> False | [a] \<Rightarrow> a = CHR ''*'' | a # b # _ \<Rightarrow> a = CHR ''*'' \<and> b = NUL)"

fun keys_loop :: "'v redisServer \<Rightarrow> nat \<Rightarrow> string \<Rightarrow> string list \<Rightarrow> string list \<Rightarrow> ('v redisServer \<times> string list) option" where
  "keys_loop s d pattern [] out = Some (s, out)"
| "keys_loop s d pattern (key # keys) out = do {
     m \<leftarrow> (if allkeys pattern then Some True
           else stringmatch_sds pattern key False);
     if m then do {
       (s1, expired) \<leftarrow> expireIfNeeded s d key;
       keys_loop s1 d pattern keys (if expired then out else out @ [key])
     } else keys_loop s d pattern keys out
   }"

definition keysCommand :: "'v redisServer \<Rightarrow> nat \<Rightarrow> 'v redisServer option" where
  "keysCommand s c = do {
     cl \<leftarrow> sv_clients s c;
     pattern \<leftarrow> arg cl 1;
     db \<leftarrow> get_db s (c_db cl);
     (s1, out) \<leftarrow> keys_loop s (c_db cl) pattern (map fst (db_dict db)) [];
     Some (fold (\<lambda>r s. addReply s c r) (R_MultiBulkLen (int (length out)) # map R_Bulk out) s1)
   }"

definition dbsizeCommand :: "'v redisServer \<Rightarrow> nat \<Rightarrow> 'v redisServer option" where
  "dbsizeCommand s c = do {
     cl \<leftarrow> sv_clients s c;
     db \<leftarrow> get_db s (c_db cl);
     Some (addReply s c (R_Int (int (length (db_dict db)))))
   }"

text \<open>The type of a value.\<close>

datatype redis_type = REDIS_STRING | REDIS_LIST | REDIS_SET | REDIS_ZSET | REDIS_HASH

fun type_name :: "redis_type \<Rightarrow> string" where
  "type_name REDIS_STRING = ''string''"
| "type_name REDIS_LIST = ''list''"
| "type_name REDIS_SET = ''set''"
| "type_name REDIS_ZSET = ''zset''"
| "type_name REDIS_HASH = ''hash''"

definition typeCommand :: "('v \<Rightarrow> redis_type) \<Rightarrow> 'v redisServer \<Rightarrow> nat \<Rightarrow> 'v redisServer option" where
  "typeCommand ty s c = do {
     cl \<leftarrow> sv_clients s c;
     key \<leftarrow> arg cl 1;
     (s1, val) \<leftarrow> lookupKeyRead s (c_db cl) key;
     Some (addReply s1 c (R_Status (case val of None \<Rightarrow> ''none'' | Some v \<Rightarrow> type_name (ty v))))
   }"

definition renameGenericCommand :: "'v redisServer \<Rightarrow> nat \<Rightarrow> bool \<Rightarrow> 'v redisServer option" where
  "renameGenericCommand s c nx = do {
     cl \<leftarrow> sv_clients s c;
     src \<leftarrow> arg cl 1;
     dst \<leftarrow> arg cl 2;
     if src = dst then Some (addReply s c (R_Error ''source and destination objects are the same''))
     else do {
       (s1, val) \<leftarrow> lookupKeyWriteOrReply s c src (R_Error ''no such key'');
       case val of
         None \<Rightarrow> Some s1
       | Some v \<Rightarrow> do {
           expire \<leftarrow> getExpire s1 (c_db cl) src;
           (s2, old) \<leftarrow> lookupKeyWrite s1 (c_db cl) dst;
           if old \<noteq> None \<and> nx then Some (addReply s2 c (R_Int 0))
           else do {
             s3 \<leftarrow> (if old \<noteq> None then map_option fst (dbDelete s2 (c_db cl) dst) else Some s2);
             s4 \<leftarrow> dbAdd s3 (c_db cl) dst v;
             s5 \<leftarrow> (if expire \<noteq> - 1 then setExpire s4 (c_db cl) dst expire else Some s4);
             (s6, _) \<leftarrow> dbDelete s5 (c_db cl) src;
             s7 \<leftarrow> signalModifiedKey s6 (c_db cl) src;
             s8 \<leftarrow> signalModifiedKey s7 (c_db cl) dst;
             Some (addReply (incr_dirty 1 s8) c (if nx then R_Int 1 else R_Status ''OK''))
           }
         }
     }
   }"

definition renameCommand :: "'v redisServer \<Rightarrow> nat \<Rightarrow> 'v redisServer option" where
  "renameCommand s c = renameGenericCommand s c False"

definition renamenxCommand :: "'v redisServer \<Rightarrow> nat \<Rightarrow> 'v redisServer option" where
  "renamenxCommand s c = renameGenericCommand s c True"

text \<open>\<^verbatim>\<open>atoi\<close>.\<close>

definition atoi :: "string \<Rightarrow> int" where
  "atoi t = to_signed 32 (strtoll t)"

definition moveCommand :: "'v redisServer \<Rightarrow> nat \<Rightarrow> 'v redisServer option" where
  "moveCommand s c = do {
     cl \<leftarrow> sv_clients s c;
     key \<leftarrow> arg cl 1;
     a \<leftarrow> arg cl 2;
     let srcid = c_db cl;
     case selectDb s c (atoi a) of
       (s1, False) \<Rightarrow> Some (addReply s1 c (R_Error ''index out of range''))
     | (s1, True) \<Rightarrow> do {
         dst \<leftarrow> map_option c_db (sv_clients s1 c);
         let s2 = fst (selectDb s1 c (int srcid));
         if srcid = dst then Some (addReply s2 c (R_Error ''source and destination objects are the same''))
         else do {
           (s3, val) \<leftarrow> lookupKeyWrite s2 srcid key;
           case val of
             None \<Rightarrow> Some (addReply s3 c (R_Int 0))
           | Some v \<Rightarrow> do {
               (s4, old) \<leftarrow> lookupKeyWrite s3 dst key;
               if old \<noteq> None then Some (addReply s4 c (R_Int 0))
               else do {
                 s5 \<leftarrow> dbAdd s4 dst key v;
                 (s6, _) \<leftarrow> dbDelete s5 srcid key;
                 Some (addReply (incr_dirty 1 s6) c (R_Int 1))
               }
             }
         }
       }
   }"

definition rewriteClientCommandVector :: "'v redisServer \<Rightarrow> nat \<Rightarrow> string list \<Rightarrow> 'v redisServer option" where
  "rewriteClientCommandVector s c argv = do {
     name \<leftarrow> (case argv of [] \<Rightarrow> None | name # _ \<Rightarrow> Some name);
     cmd \<leftarrow> lookupCommandOrOriginal name;
     Some (upd_client s c (\<lambda>cl. cl\<lparr>c_argv := argv, c_cmd := Some cmd\<rparr>))
   }"

text \<open>The second argument is the base time, the third whether the unit is seconds.  Products and sums
  wrap around at 64 bits.\<close>

definition expireGenericCommand :: "'v redisServer \<Rightarrow> nat \<Rightarrow> int \<Rightarrow> bool \<Rightarrow> 'v redisServer option" where
  "expireGenericCommand s c basetime seconds = do {
     cl \<leftarrow> sv_clients s c;
     key \<leftarrow> arg cl 1;
     param \<leftarrow> arg cl 2;
     case getLongLongFromObjectOrReply (Some (createStringObject 0 param)) None of
       Inl e \<Rightarrow> Some (addReply s c (R_Error e))
     | Inr w \<Rightarrow> do {
         let when = to_signed 64 ((if seconds then to_signed 64 (w * 1000) else w) + basetime);
         (s1, val) \<leftarrow> lookupKeyRead s (c_db cl) key;
         if val = None then Some (addReply s1 c (R_Int 0))
         else if when \<le> sv_mstime s1 \<and> \<not> sv_loading s1 \<and> \<not> sv_masterhost s1 then do {
           (s2, deleted) \<leftarrow> dbDelete s1 (c_db cl) key;
           if \<not> deleted then None
           else do {
             s3 \<leftarrow> rewriteClientCommandVector (incr_dirty 1 s2) c [''DEL'', key];
             s4 \<leftarrow> signalModifiedKey s3 (c_db cl) key;
             Some (addReply s4 c (R_Int 1))
           }
         } else do {
           s2 \<leftarrow> setExpire s1 (c_db cl) key when;
           s3 \<leftarrow> signalModifiedKey (addReply s2 c (R_Int 1)) (c_db cl) key;
           Some (incr_dirty 1 s3)
         }
       }
   }"

definition expireCommand :: "'v redisServer \<Rightarrow> nat \<Rightarrow> 'v redisServer option" where
  "expireCommand s c = expireGenericCommand s c (sv_mstime s) True"

definition expireatCommand :: "'v redisServer \<Rightarrow> nat \<Rightarrow> 'v redisServer option" where
  "expireatCommand s c = expireGenericCommand s c 0 True"

definition pexpireCommand :: "'v redisServer \<Rightarrow> nat \<Rightarrow> 'v redisServer option" where
  "pexpireCommand s c = expireGenericCommand s c (sv_mstime s) False"

definition pexpireatCommand :: "'v redisServer \<Rightarrow> nat \<Rightarrow> 'v redisServer option" where
  "pexpireatCommand s c = expireGenericCommand s c 0 False"

definition ttlGenericCommand :: "'v redisServer \<Rightarrow> nat \<Rightarrow> bool \<Rightarrow> 'v redisServer option" where
  "ttlGenericCommand s c output_ms = do {
     cl \<leftarrow> sv_clients s c;
     key \<leftarrow> arg cl 1;
     expire \<leftarrow> getExpire s (c_db cl) key;
     let ttl = (if expire \<noteq> - 1 then (let t = expire - sv_mstime s in if t < 0 then - 1 else t) else - 1);
     Some (addReply s c (R_Int (if ttl = - 1 then - 1 else if output_ms then ttl else (ttl + 500) div 1000)))
   }"

definition ttlCommand :: "'v redisServer \<Rightarrow> nat \<Rightarrow> 'v redisServer option" where
  "ttlCommand s c = ttlGenericCommand s c False"

definition pttlCommand :: "'v redisServer \<Rightarrow> nat \<Rightarrow> 'v redisServer option" where
  "pttlCommand s c = ttlGenericCommand s c True"

definition persistCommand :: "'v redisServer \<Rightarrow> nat \<Rightarrow> 'v redisServer option" where
  "persistCommand s c = do {
     cl \<leftarrow> sv_clients s c;
     key \<leftarrow> arg cl 1;
     if lookupKey s (c_db cl) key = None then Some (addReply s c (R_Int 0))
     else do {
       (s1, removed) \<leftarrow> removeExpire s (c_db cl) key;
       Some (if removed then incr_dirty 1 (addReply s1 c (R_Int 1)) else addReply s1 c (R_Int 0))
     }
   }"

subsection \<open>The databases as maps\<close>

definition expire_of :: "'v redisServer \<Rightarrow> nat \<Rightarrow> string \<Rightarrow> int option" where
  "expire_of s d key = (case get_db s d of None \<Rightarrow> None | Some db \<Rightarrow> map_of (db_expires db) key)"

text \<open>The four updates of a database.\<close>

definition del_key :: "'v redisServer \<Rightarrow> nat \<Rightarrow> string \<Rightarrow> 'v redisServer" where
  "del_key s d key = upd_db s d (\<lambda>db. db\<lparr>db_dict := AList.delete key (db_dict db),
     db_expires := AList.delete key (db_expires db)\<rparr>)"

definition put_key :: "'v redisServer \<Rightarrow> nat \<Rightarrow> string \<Rightarrow> 'v \<Rightarrow> 'v redisServer" where
  "put_key s d key val = upd_db s d (\<lambda>db. db\<lparr>db_dict :=
     (if map_of (db_dict db) key = None then (key, val) # db_dict db else AList.update key val (db_dict db))\<rparr>)"

definition set_exp :: "'v redisServer \<Rightarrow> nat \<Rightarrow> string \<Rightarrow> int \<Rightarrow> 'v redisServer" where
  "set_exp s d key when = upd_db s d (\<lambda>db. db\<lparr>db_expires := AList.update key when (db_expires db)\<rparr>)"

definition del_exp :: "'v redisServer \<Rightarrow> nat \<Rightarrow> string \<Rightarrow> 'v redisServer" where
  "del_exp s d key = upd_db s d (\<lambda>db. db\<lparr>db_expires := AList.delete key (db_expires db)\<rparr>)"

lemmas db_updates = del_key_def put_key_def set_exp_def del_exp_def

lemma get_db_Some: "d < length (sv_db s) \<Longrightarrow> \<exists>db. get_db s d = Some db"
  by (simp add: get_db_def)

lemma lookup_updates [simp]:
  "lookupKey (del_key s d k) d' k' = (if d' = d \<and> k' = k then None else lookupKey s d' k')"
  "d < length (sv_db s) \<Longrightarrow>
   lookupKey (put_key s d k v) d' k' = (if d' = d \<and> k' = k then Some v else lookupKey s d' k')"
  "lookupKey (set_exp s d k w) = lookupKey s" "lookupKey (del_exp s d k) = lookupKey s"
  using get_db_Some [of d s]
  by (auto simp: db_updates lookupKey_def delete_conv' update_conv' fun_eq_iff split: option.splits)

lemma expire_updates [simp]:
  "expire_of (del_key s d k) d' k' = (if d' = d \<and> k' = k then None else expire_of s d' k')"
  "expire_of (put_key s d k v) = expire_of s"
  "d < length (sv_db s) \<Longrightarrow>
   expire_of (set_exp s d k w) d' k' = (if d' = d \<and> k' = k then Some w else expire_of s d' k')"
  "expire_of (del_exp s d k) d' k' = (if d' = d \<and> k' = k then None else expire_of s d' k')"
  using get_db_Some [of d s]
  by (auto simp: db_updates expire_of_def delete_conv' update_conv' fun_eq_iff split: option.splits)

lemma lookup_cong [simp]:
  "lookupKey (s\<lparr>sv_stat_expiredkeys := n\<rparr>) = lookupKey s" "lookupKey (s\<lparr>sv_stat_keyspace_hits := n\<rparr>) = lookupKey s"
  "lookupKey (s\<lparr>sv_stat_keyspace_misses := n\<rparr>) = lookupKey s" "lookupKey (addReply s c r) = lookupKey s"
  "lookupKey (upd_client s c f) = lookupKey s" "lookupKey (incr_dirty n s) = lookupKey s"
  "lookupKey (propagateExpire s d k) = lookupKey s"
  by (auto simp: lookupKey_def get_db_def fun_eq_iff incr_dirty_def propagateExpire_def Let_def)

lemma expire_cong [simp]:
  "expire_of (s\<lparr>sv_stat_expiredkeys := n\<rparr>) = expire_of s" "expire_of (s\<lparr>sv_stat_keyspace_hits := n\<rparr>) = expire_of s"
  "expire_of (s\<lparr>sv_stat_keyspace_misses := n\<rparr>) = expire_of s" "expire_of (addReply s c r) = expire_of s"
  "expire_of (upd_client s c f) = expire_of s" "expire_of (incr_dirty n s) = expire_of s"
  "expire_of (propagateExpire s d k) = expire_of s"
  by (auto simp: expire_of_def get_db_def fun_eq_iff incr_dirty_def propagateExpire_def Let_def)

text \<open>The invariant, read on the maps.\<close>

lemma db_ok_iff: "db_ok s \<longleftrightarrow> (\<forall>d db. get_db s d = Some db \<longrightarrow> db_wf (db_dict db) (db_expires db))"
  by (auto simp: db_ok_def get_db_def list_all2_conv_all_nth)

lemma db_ok_wf: "db_ok s \<Longrightarrow> get_db s d = Some db \<Longrightarrow> db_wf (db_dict db) (db_expires db)"
  by (simp add: db_ok_iff)

lemma db_ok_expire: "db_ok s \<Longrightarrow> expire_of s d k = Some w \<Longrightarrow> \<exists>v. lookupKey s d k = Some v"
proof -
  assume ok: "db_ok s" and e: "expire_of s d k = Some w"
  then obtain db where db: "get_db s d = Some db" "map_of (db_expires db) k = Some w"
    by (auto simp: expire_of_def split: option.splits)
  then have "k \<in> fst ` set (db_dict db)"
    using db_ok_wf [OF ok db(1)] by (force simp: db_wf_def dest: map_of_SomeD)
  then show ?thesis using db(1) by (auto simp: lookupKey_def dest!: weak_map_of_SomeI)
qed

lemma db_ok_upd:
  assumes ok: "db_ok s"
    and f: "\<And>db. get_db s d = Some db \<Longrightarrow> db_wf (db_dict db) (db_expires db) \<Longrightarrow>
      db_wf (db_dict (f db)) (db_expires (f db))"
  shows "db_ok (upd_db s d f)"
  using ok f by (auto simp: db_ok_iff split: if_splits)

lemma keys_delete: "fst ` set (AList.delete k al) = fst ` set al - {k}"
  using arg_cong [OF delete_keys [of k al], of set] by auto

lemma keys_update: "fst ` set (AList.update k v al) = insert k (fst ` set al)"
  using dom_update [of k v al] by (simp add: dom_map_of_conv_image_fst)

lemma db_ok_del_key [simp]: "db_ok s \<Longrightarrow> db_ok (del_key s d k)"
  unfolding del_key_def by (rule db_ok_upd) (auto simp: db_wf_def distinct_delete keys_delete)

lemma db_ok_put_key [simp]: "db_ok s \<Longrightarrow> db_ok (put_key s d k v)"
  unfolding put_key_def
  by (rule db_ok_upd) (auto simp: db_wf_def distinct_update keys_update map_of_eq_None_iff)

lemma db_ok_del_exp [simp]: "db_ok s \<Longrightarrow> db_ok (del_exp s d k)"
  unfolding del_exp_def by (rule db_ok_upd) (auto simp: db_wf_def distinct_delete keys_delete)

lemma db_ok_set_exp: "db_ok s \<Longrightarrow> lookupKey s d k \<noteq> None \<Longrightarrow> db_ok (set_exp s d k w)"
  unfolding set_exp_def
  by (rule db_ok_upd) (auto simp: db_wf_def distinct_update keys_update lookupKey_def map_of_eq_None_iff
      intro: rev_image_eqI dest: map_of_SomeD)

subsection \<open>The operations on the maps\<close>

definition expired :: "'v redisServer \<Rightarrow> nat \<Rightarrow> string \<Rightarrow> bool" where
  "expired s d k = (case expire_of s d k of None \<Rightarrow> False | Some w \<Rightarrow> 0 \<le> w \<and> w < sv_mstime s)"

definition expires_keys :: "'v redisServer \<Rightarrow> bool" where
  "expires_keys s \<longleftrightarrow> \<not> sv_loading s \<and> \<not> sv_masterhost s"

definition expire_step :: "'v redisServer \<Rightarrow> nat \<Rightarrow> string \<Rightarrow> 'v redisServer" where
  "expire_step s d k =
     (if expired s d k \<and> expires_keys s
      then del_key (propagateExpire (s\<lparr>sv_stat_expiredkeys := sv_stat_expiredkeys s + 1\<rparr>) d k) d k else s)"

lemma upd_db_twice: "upd_db (upd_db s d f) d g = upd_db s d (\<lambda>db. g (f db))"
  by (cases "d < length (sv_db s)") (simp_all add: upd_db_def list_update_beyond)

lemma dbDelete_eq:
  assumes "d < length (sv_db s)"
  shows "dbDelete s d k = Some (del_key s d k, lookupKey s d k \<noteq> None)"
proof -
  obtain db where db: "get_db s d = Some db" using get_db_Some [OF assms] by blast
  have at: "sv_db s ! d = db" using db assms by (simp add: get_db_def)
  let ?s1 = "if length (db_expires db) > 0
       then upd_db s d (\<lambda>db. db\<lparr>db_expires := AList.delete k (db_expires db)\<rparr>) else s"
  have "upd_db ?s1 d (\<lambda>db. db\<lparr>db_dict := AList.delete k (db_dict db)\<rparr>) = del_key s d k"
  proof (cases "db_expires db = []")
    case True
    then have "db\<lparr>db_dict := AList.delete k (db_dict db)\<rparr> =
        db\<lparr>db_dict := AList.delete k (db_dict db), db_expires := AList.delete k (db_expires db)\<rparr>" by simp
    then show ?thesis using True by (simp add: del_key_def upd_db_def at) (cases db, simp)
  next
    case False
    have "db\<lparr>db_expires := AList.delete k (db_expires db), db_dict := AList.delete k (db_dict db)\<rparr> =
        db\<lparr>db_dict := AList.delete k (db_dict db), db_expires := AList.delete k (db_expires db)\<rparr>" by simp
    then show ?thesis using False at by (simp add: del_key_def upd_db_twice) (simp add: upd_db_def, cases db, simp)
  qed
  then show ?thesis using db by (simp add: dbDelete_def lookupKey_def Let_def)
qed

lemma dbAdd_eq: "d < length (sv_db s) \<Longrightarrow>
  dbAdd s d k v = (if lookupKey s d k = None then Some (put_key s d k v) else None)"
proof -
  assume d: "d < length (sv_db s)"
  then obtain db where db: "get_db s d = Some db" "sv_db s ! d = db" by (auto simp: get_db_def)
  then show ?thesis by (auto simp: dbAdd_def lookupKey_def put_key_def upd_db_def)
qed

lemma dbOverwrite_eq: "d < length (sv_db s) \<Longrightarrow>
  dbOverwrite s d k v = (if lookupKey s d k = None then None else Some (put_key s d k v))"
proof -
  assume d: "d < length (sv_db s)"
  then obtain db where db: "get_db s d = Some db" "sv_db s ! d = db" by (auto simp: get_db_def)
  then show ?thesis by (auto simp: dbOverwrite_def lookupKey_def put_key_def upd_db_def simp del: map_of_eq_None_iff)
qed

lemma setExpire_eq: "d < length (sv_db s) \<Longrightarrow>
  setExpire s d k w = (if lookupKey s d k = None then None else Some (set_exp s d k w))"
  using get_db_Some [of d s] by (auto simp: setExpire_def lookupKey_def set_exp_def)

lemma removeExpire_eq: "d < length (sv_db s) \<Longrightarrow>
  removeExpire s d k = (if lookupKey s d k = None then None else Some (del_exp s d k, expire_of s d k \<noteq> None))"
  using get_db_Some [of d s] by (auto simp: removeExpire_def lookupKey_def expire_of_def del_exp_def)

lemma getExpire_eq:
  assumes "db_ok s" and "d < length (sv_db s)"
  shows "getExpire s d k = Some (case expire_of s d k of None \<Rightarrow> - 1 | Some w \<Rightarrow> w)"
proof -
  obtain db where "get_db s d = Some db" using get_db_Some [OF assms(2)] by blast
  then show ?thesis
    using db_ok_expire [OF assms(1), of d k]
    by (cases "map_of (db_expires db) k") (auto simp: getExpire_def expire_of_def lookupKey_def)
qed

lemma propagateExpire_len [simp]: "sv_db (propagateExpire s d k) = sv_db s"
  by (simp add: propagateExpire_def Let_def)

lemma expireIfNeeded_eq:
  assumes "db_ok s" and "d < length (sv_db s)"
  shows "expireIfNeeded s d k = Some (expire_step s d k, expired s d k \<and> \<not> sv_loading s)"
proof (cases "expire_of s d k")
  case None
  then show ?thesis
    by (simp add: expireIfNeeded_def getExpire_eq [OF assms] expire_step_def expired_def)
next
  case (Some w)
  moreover obtain v where "lookupKey s d k = Some v" using db_ok_expire [OF assms(1) Some] by blast
  ultimately show ?thesis
    using assms(2)
    by (auto simp: expireIfNeeded_def getExpire_eq [OF assms] expire_step_def expired_def expires_keys_def dbDelete_eq)
qed

subsection \<open>What commands leave alone\<close>

text \<open>\<open>quiet\<close>: only data, statistics and what is propagated may change.\<close>

definition quiet :: "'v redisServer \<Rightarrow> 'v redisServer \<Rightarrow> bool" where
  "quiet s s' \<longleftrightarrow> sv_clients s' = sv_clients s \<and>
     map db_watched_keys (sv_db s') = map db_watched_keys (sv_db s) \<and> sv_slowlog s' = sv_slowlog s \<and>
     (db_ok s \<longrightarrow> db_ok s') \<and>
     aof_step s s' \<and> sv_dirty s \<le> sv_dirty s'"

text \<open>A client but for its replies and the mark on its transaction.\<close>

definition bare :: "redisClient \<Rightarrow> redisClient" where
  "bare cl = cl\<lparr>c_reply := [], c_dirty_cas := False\<rparr>"

text \<open>The contract of a command of client \<open>c\<close>: it keeps the state well formed, no client loses a watch
  or a mark, and of the other clients only replies and marks change.  And the contract with the
  append-only file.\<close>

definition tx_ctr :: "nat \<Rightarrow> 'v redisServer \<Rightarrow> 'v redisServer \<Rightarrow> bool" where
  "tx_ctr c s s' \<longleftrightarrow> (server_ok s \<longrightarrow> server_ok s' \<and> (\<forall>c'. cas_mono c' s s')) \<and>
     (\<forall>c'. c' \<noteq> c \<longrightarrow> map_option bare (sv_clients s' c') = map_option bare (sv_clients s c'))"

definition aof_ctr :: "'v redisServer \<Rightarrow> 'v redisServer \<Rightarrow> bool" where
  "aof_ctr s s' \<longleftrightarrow> aof_step s s' \<and> sv_dirty s \<le> sv_dirty s'"

definition ctr :: "nat \<Rightarrow> 'v redisServer \<Rightarrow> 'v redisServer \<Rightarrow> bool" where
  "ctr c s s' \<longleftrightarrow> tx_ctr c s s' \<and> aof_ctr s s'"

lemma tx_ctr_refl: "tx_ctr c s s"
  by (simp add: tx_ctr_def cas_mono_same)

lemma tx_ctr_trans: "tx_ctr c s t \<Longrightarrow> tx_ctr c t u \<Longrightarrow> tx_ctr c s u"
  unfolding tx_ctr_def by (metis cas_mono_trans)

lemma aof_ctr_trans: "aof_ctr s t \<Longrightarrow> aof_ctr t u \<Longrightarrow> aof_ctr s u"
  by (auto simp: aof_ctr_def intro: aof_step_trans)

lemma ctr_refl: "ctr c s s"
  by (simp add: ctr_def tx_ctr_refl aof_ctr_def aof_step_refl)

lemma ctr_trans: "ctr c s t \<Longrightarrow> ctr c t u \<Longrightarrow> ctr c s u"
  unfolding ctr_def by (blast intro: tx_ctr_trans aof_ctr_trans)

lemma watchers_map: "map db_watched_keys (sv_db s') = map db_watched_keys (sv_db s) \<Longrightarrow>
   map_option db_watched_keys (get_db s' d) = map_option db_watched_keys (get_db s d)"
  by (auto simp: get_db_def dest: map_eq_imp_length_eq) (metis length_map nth_map)+

lemma quiet_watch_ok:
  assumes "quiet s s'"
  shows "watch_ok s' = watch_ok s"
proof -
  have m: "map_option db_watched_keys (get_db s' d) = map_option db_watched_keys (get_db s d)" for d
    using watchers_map assms by (auto simp: quiet_def)
  have w: "watchers s' d k = watchers s d k" for d k
    using m [of d] by (cases "get_db s d"; cases "get_db s' d") (auto simp: watchers_def)
  have "(\<forall>db. get_db s' d = Some db \<longrightarrow> P (db_watched_keys db)) \<longleftrightarrow> (\<forall>db. get_db s d = Some db \<longrightarrow> P (db_watched_keys db))" for d P
    using m [of d] by (cases "get_db s d"; cases "get_db s' d") auto
  from this [of _ "\<lambda>al. distinct (map fst al) \<and> (\<forall>k. map_of al k \<noteq> Some [])"] have t: "tables_ok s' = tables_ok s"
    unfolding tables_ok_def by blast
  have "length (sv_db s') = length (sv_db s)" "sv_clients s' = sv_clients s"
    using assms by (auto simp: quiet_def dest: map_eq_imp_length_eq)
  then show ?thesis unfolding watch_ok_def by (simp add: w t)
qed

lemma quiet_ctr: "quiet s s' \<Longrightarrow> ctr c s s'"
  using quiet_watch_ok [of s s']
  by (auto simp: quiet_def ctr_def tx_ctr_def aof_ctr_def server_ok_def cas_mono_same)

lemma quiet_refl: "quiet s s"
  by (simp add: quiet_def aof_step_refl)

lemma quiet_trans: "quiet a b \<Longrightarrow> quiet b d \<Longrightarrow> quiet a d"
  by (auto simp: quiet_def intro: aof_step_trans)

lemma quiet_upd_db:
  assumes "\<And>db. db_watched_keys (f db) = db_watched_keys db" and "db_ok s \<Longrightarrow> db_ok (upd_db s d f)"
  shows "quiet s (upd_db s d f)"
proof -
  have "map db_watched_keys (sv_db (upd_db s d f)) = map db_watched_keys (sv_db s)"
    unfolding upd_db_def using assms(1) by (simp add: map_update_same)
  then show ?thesis using assms(2) by (simp add: quiet_def aof_step_def) (simp add: upd_db_def)
qed

lemma quiet_del_key: "quiet s (del_key s d k)"
  using db_ok_del_key [of s d k] unfolding del_key_def by (intro quiet_upd_db) auto

lemma quiet_put_key: "quiet s (put_key s d k v)"
  using db_ok_put_key [of s d k v] unfolding put_key_def by (intro quiet_upd_db) auto

lemma quiet_del_exp: "quiet s (del_exp s d k)"
  using db_ok_del_exp [of s d k] unfolding del_exp_def by (intro quiet_upd_db) auto

lemma quiet_set_exp: "lookupKey s d k \<noteq> None \<Longrightarrow> quiet s (set_exp s d k w)"
  using db_ok_set_exp [of s d k w] unfolding set_exp_def by (intro quiet_upd_db) auto

lemma quiet_stats:
  "quiet s (s\<lparr>sv_stat_expiredkeys := n\<rparr>)" "quiet s (s\<lparr>sv_stat_keyspace_hits := n\<rparr>)"
  "quiet s (s\<lparr>sv_stat_keyspace_misses := n\<rparr>)" "0 \<le> n \<Longrightarrow> quiet s (incr_dirty n s)" "quiet s (propagateExpire s d k)"
  by (simp_all add: quiet_def aof_step_def db_ok_def incr_dirty_def propagateExpire_def Let_def)

lemma get_db_less: "get_db s d = Some db \<Longrightarrow> d < length (sv_db s)"
  by (simp add: get_db_def split: if_splits)

lemma quiet_expire_step: "quiet s (expire_step s d k)"
  unfolding expire_step_def
  by (auto intro: quiet_refl quiet_trans [OF quiet_trans [OF quiet_stats(1) quiet_stats(5)] quiet_del_key])

subsection \<open>Contracts of the operations\<close>

lemma ens_quiet:
  assumes "ensures m (\<lambda>(s', b). quiet s s')" and "ctr c s0 s" and "\<And>s' b. ctr c s0 s' \<Longrightarrow> Q (s', b)"
  shows "ensures m Q"
proof (rule ensures_mono [OF assms(1)])
  show "case x of (s', b) \<Rightarrow> quiet s s' \<Longrightarrow> Q x" for x
    using ctr_trans [OF assms(2) quiet_ctr] assms(3) by (cases x) auto
qed

lemma ens_quiet1:
  assumes "ensures m (quiet s)" and "ctr c s0 s" and "\<And>s'. ctr c s0 s' \<Longrightarrow> Q s'"
  shows "ensures m Q"
  using ensures_mono [OF assms(1)] ctr_trans [OF assms(2) quiet_ctr] assms(3) by blast

lemma dbDelete_quiet: "ensures (dbDelete s d k) (\<lambda>(s', b). quiet s s')"
proof (rule ensures_any)
  fix r assume "dbDelete s d k = Some r"
  moreover from this have "d < length (sv_db s)" by (auto simp: dbDelete_def dest: get_db_less split: bind_splits)
  ultimately show "case r of (s', b) \<Rightarrow> quiet s s'" by (auto simp: dbDelete_eq quiet_del_key)
qed

lemma dbAdd_quiet: "ensures (dbAdd s d k v) (quiet s)"
proof (rule ensures_any)
  fix r assume "dbAdd s d k v = Some r"
  moreover from this have "d < length (sv_db s)" by (auto simp: dbAdd_def dest: get_db_less split: bind_splits)
  ultimately show "quiet s r" by (auto simp: dbAdd_eq quiet_put_key split: if_splits)
qed

lemma dbOverwrite_quiet: "ensures (dbOverwrite s d k v) (quiet s)"
proof (rule ensures_any)
  fix r assume "dbOverwrite s d k v = Some r"
  moreover from this have "d < length (sv_db s)" by (auto simp: dbOverwrite_def dest: get_db_less split: bind_splits)
  ultimately show "quiet s r" by (auto simp: dbOverwrite_eq quiet_put_key split: if_splits)
qed

lemma setExpire_quiet: "ensures (setExpire s d k w) (quiet s)"
proof (rule ensures_any)
  fix r assume "setExpire s d k w = Some r"
  moreover from this have "d < length (sv_db s)" by (auto simp: setExpire_def dest: get_db_less split: bind_splits)
  ultimately show "quiet s r" by (auto simp: setExpire_eq intro!: quiet_set_exp split: if_splits)
qed

lemma removeExpire_quiet: "ensures (removeExpire s d k) (\<lambda>(s', b). quiet s s')"
proof (rule ensures_any)
  fix r assume "removeExpire s d k = Some r"
  moreover from this have "d < length (sv_db s)" by (auto simp: removeExpire_def dest: get_db_less split: bind_splits)
  ultimately show "case r of (s', b) \<Rightarrow> quiet s s'" by (auto simp: removeExpire_eq quiet_del_exp split: if_splits)
qed

lemma expireIfNeeded_quiet: "ensures (expireIfNeeded s d k) (\<lambda>(s', b). quiet s s')"
  unfolding expireIfNeeded_def
proof (rule ensures_bind, rule ensures_any, intro ensures_if)
  let ?t = "propagateExpire (s\<lparr>sv_stat_expiredkeys := sv_stat_expiredkeys s + 1\<rparr>) d k"
  have "quiet s ?t" by (rule quiet_trans [OF quiet_stats(1) quiet_stats(5)])
  then show "ensures (dbDelete ?t d k) (\<lambda>(s', b). quiet s s')"
    by (intro ensures_mono [OF dbDelete_quiet]) (auto intro: quiet_trans)
qed (auto simp: quiet_refl)

lemma lookupKeyRead_quiet: "ensures (lookupKeyRead s d k) (\<lambda>(s', v). quiet s s')"
  unfolding lookupKeyRead_def
  by (rule ensures_bind, rule ensures_mono [OF expireIfNeeded_quiet])
     (auto simp: Let_def split: option.splits
        intro: quiet_trans [OF _ quiet_stats(2)] quiet_trans [OF _ quiet_stats(3)])

lemma lookupKeyWrite_quiet: "ensures (lookupKeyWrite s d k) (\<lambda>(s', v). quiet s s')"
  unfolding lookupKeyWrite_def by (rule ensures_bind, rule ensures_mono [OF expireIfNeeded_quiet]) auto

lemma bare_marked [simp]: "bare (cl\<lparr>c_dirty_cas := b\<rparr>) = bare cl" "bare (cl\<lparr>c_reply := rs\<rparr>) = bare cl"
  by (simp_all add: bare_def)

lemma fold_bare:
  "(\<And>s cl. bare (f s cl) = bare cl) \<Longrightarrow>
   map_option bare (sv_clients (fold (\<lambda>c s. upd_client s c (f s)) xs s) c) = map_option bare (sv_clients s c)"
  by (induction xs arbitrary: s) (simp_all add: option.map_comp o_def)

lemma touch_ctr: "ensures (signalModifiedKey s d k) (ctr c s)"
proof (rule ensures_any)
  fix s' assume s': "signalModifiedKey s d k = Some s'"
  then have d: "d < length (sv_db s)"
    by (auto simp: signalModifiedKey_def touchWatchedKey_def dest: get_db_less split: bind_splits)
  have "same_data s s'"
    using s' fold_dirty_ok same_data_refl
    by (auto simp: signalModifiedKey_def touchWatchedKey_def split: bind_splits if_splits option.splits)
  then have "aof_ctr s s'" by (auto simp: aof_ctr_def aof_step_def same_data_def)
  moreover have "tx_ctr c s s'"
    unfolding tx_ctr_def
  proof (intro impI conjI allI)
    show "map_option bare (sv_clients s' x) = map_option bare (sv_clients s x)" for x
      using s' fold_bare [of "\<lambda>_ cl. cl\<lparr>c_dirty_cas := True\<rparr>"]
      by (auto simp: signalModifiedKey_def touchWatchedKey_def split: bind_splits if_splits option.splits)
    assume ok: "server_ok s"
    have k: "keeps x (ETouch d k) s s'" for x using keeps_touch [OF ok d] s' by (simp add: signalModifiedKey_def)
    show "server_ok s'" using k by (simp add: keeps_def)
    show "cas_mono x s s'" for x using k [of x] by (simp add: keeps_def ends_watch_def)
  qed
  ultimately show "ctr c s s'" by (simp add: ctr_def)
qed

lemma upd_client_ctr:
  "(\<And>cl. c_watched_keys (f cl) = c_watched_keys cl \<and> c_db (f cl) = c_db cl \<and> c_dirty_cas (f cl) = c_dirty_cas cl) \<Longrightarrow>
   ctr c s (upd_client s c f)"
  by (auto simp: ctr_def tx_ctr_def aof_ctr_def aof_step_def cas_mono_def intro!: server_ok_client) (simp_all add: upd_client_def)

lemma reply_ctr: "ctr c s (addReply s c r)"
  unfolding addReply_def by (rule upd_client_ctr) simp

lemma select_ctr: "ctr c s (fst (selectDb s c i))"
proof -
  have "server_ok (upd_client s c (\<lambda>cl. cl\<lparr>c_db := nat i\<rparr>))" if ok: "server_ok s" and i: "0 \<le> i" "i < int (length (sv_db s))"
  proof -
    let ?s = "upd_client s c (\<lambda>cl. cl\<lparr>c_db := nat i\<rparr>)"
    have "watch_ok ?s"
      using ok i unfolding server_ok_def watch_ok_def by (auto split: if_splits)
    moreover have "sv_slowlog ?s = sv_slowlog s" by (simp add: upd_client_def)
    ultimately show ?thesis using ok by (simp add: server_ok_def db_ok_def)
  qed
  then show ?thesis
    by (auto simp: selectDb_def ctr_def tx_ctr_def aof_ctr_def aof_step_def cas_mono_def) (simp_all add: upd_client_def)
qed

lemma ens_touch [ens]:
  "ctr c s0 s \<Longrightarrow> (\<And>s'. ctr c s0 s' \<Longrightarrow> Q s') \<Longrightarrow> ensures (signalModifiedKey s d k) Q"
  by (rule ensures_mono [OF touch_ctr]) (auto intro: ctr_trans)

lemmas ens_prims =
  ens_quiet [OF dbDelete_quiet] ens_quiet1 [OF dbAdd_quiet] ens_quiet1 [OF dbOverwrite_quiet]
  ens_quiet1 [OF setExpire_quiet] ens_quiet [OF removeExpire_quiet] ens_quiet [OF expireIfNeeded_quiet]
  ens_quiet [OF lookupKeyRead_quiet] ens_quiet [OF lookupKeyWrite_quiet] ens_touch

lemma ctr_steps:
  "ctr c s0 s \<Longrightarrow> ctr c s0 (addReply s c r)"
  "ctr c s0 s \<Longrightarrow> 0 \<le> n \<Longrightarrow> ctr c s0 (incr_dirty n s)"
  "ctr c s0 s \<Longrightarrow> ctr c s0 (upd_client s c (\<lambda>cl. cl\<lparr>c_argv := argv, c_cmd := cmd\<rparr>))"
  "ctr c s0 s \<Longrightarrow> ctr c s0 (fst (selectDb s c i))"
  by (auto intro: ctr_trans [OF _ reply_ctr] ctr_trans [OF _ quiet_ctr [OF quiet_stats(4)]]
      ctr_trans [OF _ select_ctr] ctr_trans [OF _ upd_client_ctr])

lemma ens_reads:
  "(\<And>cl. sv_clients s c = Some cl \<Longrightarrow> Q cl) \<Longrightarrow> ensures (sv_clients s c) Q"
  "(\<And>x. P x) \<Longrightarrow> ensures (arg cl n) P"
  "(\<And>db. R db) \<Longrightarrow> ensures (get_db s d) R"
  "(\<And>w. W w) \<Longrightarrow> ensures (getExpire s d k) W"
  by (simp_all add: ensures_def)

lemma ens_rewrite: "ctr c s0 s \<Longrightarrow> (\<And>s'. ctr c s0 s' \<Longrightarrow> Q s') \<Longrightarrow> ensures (rewriteClientCommandVector s c argv) Q"
  unfolding rewriteClientCommandVector_def
  by (auto simp: ensures_def intro: ctr_steps(3) split: bind_splits)

lemmas ens_struct = ens_cases ens_reads
lemmas ens_ops = ens_prims ens_rewrite

text \<open>The commands of \<^verbatim>\<open>db.c\<close> keep the contract, whatever their arguments.\<close>

lemma setKey_ctr: "ensures (setKey s d k v) (ctr c s)"
  unfolding setKey_def by (intro ens_struct ens_ops [where c = c and ?s0.0 = s] ctr_refl ctr_steps; assumption)

lemma del_loop_ctr: "ctr c s0 s \<Longrightarrow> ensures (del_loop s d ks n) (\<lambda>(s', m). ctr c s0 s')"
proof (induction ks arbitrary: s n)
  case (Cons k ks)
  show ?case
    unfolding del_loop.simps
    by (intro ens_struct ens_ops [where c = c and ?s0.0 = s0] ctr_refl ctr_steps Cons) (use Cons.prems in simp_all)
qed simp

lemma delCommand_ctr: "ensures (delCommand s c) (ctr c s)"
  unfolding delCommand_def
  by (intro ens_struct ens_ops [where c = c and ?s0.0 = s] ensures_mono [OF del_loop_ctr [OF ctr_refl]]) (auto intro: ctr_steps)

lemma existsCommand_ctr: "ensures (existsCommand s c) (ctr c s)"
  unfolding existsCommand_def by (intro ens_struct ens_ops [where c = c and ?s0.0 = s] ctr_refl ctr_steps; assumption)

lemma dbsizeCommand_ctr: "ensures (dbsizeCommand s c) (ctr c s)"
  unfolding dbsizeCommand_def by (intro ens_struct ens_ops [where c = c and ?s0.0 = s] ctr_refl ctr_steps)

lemma typeCommand_ctr: "ensures (typeCommand ty s c) (ctr c s)"
  unfolding typeCommand_def by (intro ens_struct ens_ops [where c = c and ?s0.0 = s] ctr_refl ctr_steps; assumption)

lemma expireGenericCommand_ctr: "ensures (expireGenericCommand s c b u) (ctr c s)"
  unfolding expireGenericCommand_def Let_def
  by (intro ens_struct ens_ops [where c = c and ?s0.0 = s] ctr_refl ctr_steps; (assumption | simp))

lemma ttlGenericCommand_ctr: "ensures (ttlGenericCommand s c b) (ctr c s)"
  unfolding ttlGenericCommand_def Let_def
  by (intro ens_struct ens_ops [where c = c and ?s0.0 = s] ctr_refl ctr_steps)

lemma persistCommand_ctr: "ensures (persistCommand s c) (ctr c s)"
  unfolding persistCommand_def
  by (intro ens_struct ens_ops [where c = c and ?s0.0 = s] ctr_refl ctr_steps) (auto intro: ctr_steps)

lemma flush_ctr: "ctr c s (signalFlushedDb s i)"
proof -
  have "sv_aof (fold (\<lambda>c s. upd_client s c (f s)) xs s) = sv_aof s \<and>
      sv_aof_on (fold (\<lambda>c s. upd_client s c (f s)) xs s) = sv_aof_on s \<and>
      sv_also_propagate (fold (\<lambda>c s. upd_client s c (f s)) xs s) = sv_also_propagate s \<and>
      sv_dirty (fold (\<lambda>c s. upd_client s c (f s)) xs s) = sv_dirty s" for f xs
    by (induction xs arbitrary: s) (simp_all add: upd_client_def)
  then have "aof_ctr s (signalFlushedDb s i)"
    by (simp add: aof_ctr_def aof_step_def signalFlushedDb_def touchWatchedKeysOnFlush_def)
  moreover have "tx_ctr c s (signalFlushedDb s i)"
    unfolding tx_ctr_def signalFlushedDb_def
  proof (intro impI conjI allI)
    show "map_option bare (sv_clients (touchWatchedKeysOnFlush s i) x) = map_option bare (sv_clients s x)" for x
      unfolding touchWatchedKeysOnFlush_def by (rule fold_bare) simp
    assume ok: "server_ok s"
    have k: "keeps x (EFlush i) s (touchWatchedKeysOnFlush s i)" for x by (rule keeps_flush [OF ok])
    show "server_ok (touchWatchedKeysOnFlush s i)" using k by (simp add: keeps_def)
    show "cas_mono x s (touchWatchedKeysOnFlush s i)" for x using k [of x] by (simp add: keeps_def ends_watch_def)
  qed
  ultimately show ?thesis by (simp add: ctr_def)
qed

lemma clear_quiet: "quiet s (upd_db s d (\<lambda>db. db\<lparr>db_dict := [], db_expires := []\<rparr>))"
  by (rule quiet_upd_db) (auto intro!: db_ok_upd simp: db_wf_def)

lemma flushdbCommand_ctr: "ensures (flushdbCommand s c) (ctr c s)"
  unfolding flushdbCommand_def Let_def
  by (intro ens_struct ctr_steps ctr_trans [OF _ quiet_ctr [OF clear_quiet]] ctr_trans [OF _ flush_ctr] ctr_refl) simp

lemma emptyDb_ok: "quiet s (fst (emptyDb s))"
  by (simp add: emptyDb_def quiet_def aof_step_def db_ok_def db_wf_def list_all2_conv_all_nth o_def)

lemma tx_ctr_dirty: "tx_ctr c s t \<Longrightarrow> tx_ctr c s (t\<lparr>sv_dirty := n\<rparr>)"
  using server_ok_cong [of "t\<lparr>sv_dirty := n\<rparr>" t] by (simp add: tx_ctr_def cas_mono_def)

lemma tx_ctr_save: "tx_ctr c s t \<Longrightarrow> tx_ctr c s (rdbSave ok t)"
  using server_ok_cong [of "rdbSave ok t" t] by (auto simp: rdbSave_def tx_ctr_def cas_mono_def)

lemma flushallCommand_ctr: "ensures (flushallCommand ok s c) (tx_ctr c s)"
proof -
  have "ctr c s (fst (emptyDb (signalFlushedDb s (- 1))))"
    by (rule ctr_trans [OF flush_ctr quiet_ctr [OF emptyDb_ok]])
  then have "tx_ctr c s (addReply (incr_dirty n (fst (emptyDb (signalFlushedDb s (- 1))))) c r)" for n r
    using tx_ctr_dirty tx_ctr_trans [OF _ reply_ctr [unfolded ctr_def, THEN conjunct1]]
    by (fastforce simp: ctr_def incr_dirty_def)
  then show ?thesis
    unfolding flushallCommand_def
    by (intro ens_struct) (auto simp: Let_def split_beta incr_dirty_def intro!: tx_ctr_dirty tx_ctr_save)
qed

lemma selectCommand_ctr: "ensures (selectCommand s c) (ctr c s)"
proof -
  have "ensures (case selectDb s c i of (s1, False) \<Rightarrow> Some (addReply s1 c (R_Error ''invalid DB index''))
          | (s1, True) \<Rightarrow> Some (addReply s1 c (R_Status ''OK''))) (ctr c s)" for i
    using ctr_trans [OF select_ctr [of c s i] reply_ctr] by (cases "selectDb s c i") (auto split: bool.splits)
  then show ?thesis unfolding selectCommand_def by (intro ens_struct ctr_steps ctr_refl)
qed

lemma dbRandomKey_ctr: "ctr c s0 s \<Longrightarrow> ensures (dbRandomKey s d ps) (\<lambda>(s', k). ctr c s0 s')"
proof (induction ps arbitrary: s)
  case (Cons p ps)
  show ?case
    unfolding dbRandomKey.simps Let_def
    by (intro ens_struct ens_ops [where c = c and ?s0.0 = s0] Cons) (use Cons.prems in simp_all)
qed simp

lemma randomkeyCommand_ctr: "ensures (randomkeyCommand ps s c) (ctr c s)"
  unfolding randomkeyCommand_def
  by (intro ens_struct ensures_mono [OF dbRandomKey_ctr [OF ctr_refl]]) (auto intro: ctr_steps)

lemma keys_loop_ctr: "ctr c s0 s \<Longrightarrow> ensures (keys_loop s d p ks out) (\<lambda>(s', k). ctr c s0 s')"
proof (induction ks arbitrary: s out)
  case (Cons k ks)
  show ?case
    unfolding keys_loop.simps Let_def
    by (rule ensures_bind, rule ensures_any, intro ens_struct ens_ops [where c = c and ?s0.0 = s0] Cons)
       (use Cons.prems in simp_all)
qed simp

lemma replies_ctr: "ctr c s0 s \<Longrightarrow> ctr c s0 (fold (\<lambda>r s. addReply s c r) rs s)"
  by (induction rs arbitrary: s) (auto intro: ctr_steps)

lemma keysCommand_ctr: "ensures (keysCommand s c) (ctr c s)"
  unfolding keysCommand_def
  by (intro ens_struct ensures_mono [OF keys_loop_ctr [where c = c, OF ctr_refl]])
     (auto intro!: replies_ctr ctr_steps(1))

lemma lookupKeyWriteOrReply_ctr:
  "ctr c s0 s \<Longrightarrow> (\<And>s' v. ctr c s0 s' \<Longrightarrow> Q (s', v)) \<Longrightarrow> ensures (lookupKeyWriteOrReply s c k r) Q"
  unfolding lookupKeyWriteOrReply_def
  by (intro ens_struct ens_ops [where c = c and ?s0.0 = s0]) (auto intro: ctr_steps)

lemma renameGenericCommand_ctr: "ensures (renameGenericCommand s c nx) (ctr c s)"
  unfolding renameGenericCommand_def
  by (intro ens_struct ens_ops [where c = c and ?s0.0 = s] lookupKeyWriteOrReply_ctr [where ?s0.0 = s] ctr_refl ctr_steps;
      (assumption | simp))

lemma moveCommand_ctr: "ensures (moveCommand s c) (ctr c s)"
proof -
  have sel: "ctr c s s1" if "selectDb s c i = (s1, b)" for i s1 b
    using select_ctr [of c s i] that by simp
  show ?thesis
    unfolding moveCommand_def Let_def
    apply (intro ens_struct)
    apply (auto split: prod.split bool.split dest!: sel intro: ctr_steps)
    apply (intro ens_struct ens_ops [where c = c and ?s0.0 = s] ensures_any ctr_steps; (assumption | simp))
    done
qed

subsection \<open>Commands as equations\<close>

text \<open>In a well formed state every operation is a total function of the maps.\<close>

definition touch :: "'v redisServer \<Rightarrow> nat \<Rightarrow> string \<Rightarrow> 'v redisServer" where
  "touch s d k = fold (\<lambda>c s. upd_client s c (\<lambda>cl. cl\<lparr>c_dirty_cas := True\<rparr>)) (watchers s d k) s"

lemma signal_eq: "d < length (sv_db s) \<Longrightarrow> signalModifiedKey s d k = Some (touch s d k)"
  using get_db_Some [of d s]
  by (auto simp: signalModifiedKey_def touchWatchedKey_def touch_def watchers_def split: option.split)

lemma same_data_maps: "same_data s s' \<Longrightarrow>
  lookupKey s' = lookupKey s \<and> expire_of s' = expire_of s \<and> length (sv_db s') = length (sv_db s) \<and>
  sv_mstime s' = sv_mstime s \<and> sv_loading s' = sv_loading s \<and> sv_masterhost s' = sv_masterhost s"
proof -
  assume "same_data s s'"
  then obtain cls dbs where s': "s' = s\<lparr>sv_clients := cls, sv_db := dbs\<rparr>" "map db_dict dbs = map db_dict (sv_db s)"
    "map db_expires dbs = map db_expires (sv_db s)" by (auto simp: same_data_def)
  have l: "length dbs = length (sv_db s)" using s'(2) by (rule map_eq_imp_length_eq)
  have "db_dict (dbs ! d) = db_dict (sv_db s ! d) \<and> db_expires (dbs ! d) = db_expires (sv_db s ! d)"
    if "d < length dbs" for d
    using that l s'(2,3) by (metis nth_map)
  then show ?thesis using s'(1) l by (auto simp: lookupKey_def expire_of_def get_db_def fun_eq_iff)
qed

lemma same_data_touch: "same_data s (touch s d k)"
  unfolding touch_def using fold_dirty_ok by blast

lemma touch_simps [simp]:
  "lookupKey (touch s d k) = lookupKey s" "expire_of (touch s d k) = expire_of s"
  "length (sv_db (touch s d k)) = length (sv_db s)" "db_ok (touch s d k) = db_ok s"
  "sv_mstime (touch s d k) = sv_mstime s" "sv_masterhost (touch s d k) = sv_masterhost s"
  "sv_loading (touch s d k) = sv_loading s"
  using same_data_maps [OF same_data_touch [of s d k]] db_ok_same_data [OF same_data_touch [of s d k]] by auto

lemma touch_clients:
  "sv_clients (touch s d k) c = (if c \<in> set (watchers s d k)
     then map_option (\<lambda>cl. cl\<lparr>c_dirty_cas := True\<rparr>) (sv_clients s c) else sv_clients s c)"
  by (simp add: touch_def fold_dirty)

lemma db_update_fields [simp]:
  "sv_clients (del_key s d k) = sv_clients s" "sv_clients (put_key s d k v) = sv_clients s"
  "sv_clients (set_exp s d k w) = sv_clients s" "sv_clients (del_exp s d k) = sv_clients s"
  "length (sv_db (del_key s d k)) = length (sv_db s)" "length (sv_db (put_key s d k v)) = length (sv_db s)"
  "length (sv_db (set_exp s d k w)) = length (sv_db s)" "length (sv_db (del_exp s d k)) = length (sv_db s)"
  "sv_mstime (del_key s d k) = sv_mstime s" "sv_masterhost (del_key s d k) = sv_masterhost s"
  "sv_loading (del_key s d k) = sv_loading s"
  by (simp_all add: db_updates) (simp_all add: upd_db_def)

lemma propagateExpire_fields [simp]:
  "sv_clients (propagateExpire s d k) = sv_clients s" "sv_mstime (propagateExpire s d k) = sv_mstime s"
  "sv_masterhost (propagateExpire s d k) = sv_masterhost s" "sv_loading (propagateExpire s d k) = sv_loading s"
  by (simp_all add: propagateExpire_def Let_def)

lemma incr_dirty_fields [simp]:
  "sv_clients (incr_dirty n s) = sv_clients s" "sv_db (incr_dirty n s) = sv_db s"
  by (simp_all add: incr_dirty_def)

lemma db_ok_fields [simp]:
  "db_ok (incr_dirty n s) = db_ok s" "db_ok (addReply s c r) = db_ok s" "db_ok (upd_client s c f) = db_ok s"
  "db_ok (propagateExpire s d k) = db_ok s" "db_ok (s\<lparr>sv_stat_expiredkeys := n\<rparr>) = db_ok s"
  "db_ok (s\<lparr>sv_stat_keyspace_hits := n\<rparr>) = db_ok s" "db_ok (s\<lparr>sv_stat_keyspace_misses := n\<rparr>) = db_ok s"
  by (simp_all add: db_ok_def)

lemma expire_step_fields [simp]:
  "sv_clients (expire_step s d k) = sv_clients s" "length (sv_db (expire_step s d k)) = length (sv_db s)"
  "db_ok s \<Longrightarrow> db_ok (expire_step s d k)" "sv_mstime (expire_step s d k) = sv_mstime s"
  "sv_masterhost (expire_step s d k) = sv_masterhost s" "sv_loading (expire_step s d k) = sv_loading s"
  by (simp_all add: expire_step_def)

text \<open>What lookups see: an expired key is gone once it has been looked up, on a server that expires keys.\<close>

lemma lookup_expire_step:
  "lookupKey (expire_step s d k) d' k' =
   (if d' = d \<and> k' = k \<and> expired s d k \<and> expires_keys s then None else lookupKey s d' k')"
  by (simp add: expire_step_def)

lemma expire_expire_step:
  "expire_of (expire_step s d k) d' k' =
   (if d' = d \<and> k' = k \<and> expired s d k \<and> expires_keys s then None else expire_of s d' k')"
  by (simp add: expire_step_def)

lemma lookupKeyWrite_eq: "db_ok s \<Longrightarrow> d < length (sv_db s) \<Longrightarrow>
  lookupKeyWrite s d k = Some (expire_step s d k, lookupKey (expire_step s d k) d k)"
  by (simp add: lookupKeyWrite_def expireIfNeeded_eq)

lemma lookupKeyRead_eq: "db_ok s \<Longrightarrow> d < length (sv_db s) \<Longrightarrow>
  \<exists>s'. lookupKeyRead s d k = Some (s', lookupKey (expire_step s d k) d k) \<and> quiet s s' \<and> sv_db s' = sv_db (expire_step s d k) \<and>
    sv_mstime s' = sv_mstime s \<and> sv_loading s' = sv_loading s \<and> sv_masterhost s' = sv_masterhost s"
  using lookupKeyRead_quiet [of s d k]
  by (auto simp: lookupKeyRead_def expireIfNeeded_eq Let_def split: option.splits)

lemma quiet_clients: "quiet s s' \<Longrightarrow> sv_clients s' = sv_clients s"
  by (simp add: quiet_def aof_step_def)

end
