(* ===== verification/Keyspace.thy ===== *)
theory Keyspace
  imports Db
begin

section \<open>Correctness of the key space\<close>

text \<open>
  What the operations and commands of \<^verbatim>\<open>db.c\<close> do to the maps from keys to values and from keys to expire
  times, which clients they mark, and that no assertion of theirs fails in a well formed state.
\<close>

text \<open>Every client that watches the key is marked.\<close>

definition marked :: "'v redisServer \<Rightarrow> 'v redisServer \<Rightarrow> nat \<Rightarrow> string \<Rightarrow> bool" where
  "marked s s' d k \<longleftrightarrow> (\<forall>c cl. sv_clients s c = Some cl \<and> (k, d) \<in> set (c_watched_keys cl) \<longrightarrow>
     (\<exists>cl'. sv_clients s' c = Some cl' \<and> c_dirty_cas cl'))"

text \<open>The marks a state has are kept.\<close>

definition keeps_marks :: "'v redisServer \<Rightarrow> 'v redisServer \<Rightarrow> bool" where
  "keeps_marks s s' \<longleftrightarrow> (\<forall>c. cas_mono c s s')"

lemma keeps_marks_trans: "keeps_marks a b \<Longrightarrow> keeps_marks b d \<Longrightarrow> keeps_marks a d"
  unfolding keeps_marks_def by (blast intro: cas_mono_trans)

lemma quiet_keeps: "quiet s s' \<Longrightarrow> keeps_marks s s'"
  by (simp add: quiet_def keeps_marks_def cas_mono_same)

lemma reply_keeps: "keeps_marks s (addReply s c r)"
  by (simp add: keeps_marks_def cas_mono_def)

lemma touch_keeps: "keeps_marks s (touch s d k)"
  by (auto simp: keeps_marks_def cas_mono_def touch_clients)

lemma marked_later: "marked s t d k \<Longrightarrow> keeps_marks t s' \<Longrightarrow> marked s s' d k"
  unfolding marked_def keeps_marks_def cas_mono_def by blast

lemma marked_before:
  assumes "marked t s' d k" and "keeps_marks s t"
  shows "marked s s' d k"
  using assms unfolding marked_def keeps_marks_def cas_mono_def by blast

lemma touch_marked: "watch_ok s \<Longrightarrow> marked s (touch s d k) d k"
  unfolding marked_def touch_clients watch_ok_def by fastforce

lemma touch_server_ok: "server_ok s \<Longrightarrow> d < length (sv_db s) \<Longrightarrow> server_ok (touch s d k)"
  using keeps_touch [of s d k "touch s d k" 0 "ETouch d k"] signal_eq [of d s k]
  by (simp add: signalModifiedKey_def keeps_def)

lemma quiet_server_ok: "quiet s s' \<Longrightarrow> server_ok s \<Longrightarrow> server_ok s'"
  using quiet_ctr [of s s' 0] by (simp add: ctr_def tx_ctr_def)

lemma server_okD: "server_ok s \<Longrightarrow> watch_ok s" "server_ok s \<Longrightarrow> db_ok s"
  by (simp_all add: server_ok_def)

lemma server_ok_client_db: "server_ok s \<Longrightarrow> sv_clients s c = Some cl \<Longrightarrow> c_db cl < length (sv_db s)"
  by (auto simp: server_ok_def watch_ok_def)

lemma server_ok_reply [simp]: "server_ok s \<Longrightarrow> server_ok (addReply s c r)"
  using reply_ctr [of c s r] by (simp add: ctr_def tx_ctr_def)

lemma server_ok_dirty [simp]: "server_ok (incr_dirty n s) = server_ok s"
  by (rule server_ok_cong) (simp_all add: incr_dirty_def)

subsection \<open>Setting and deleting\<close>

lemma touch_reply [simp]: "map_option c_reply (sv_clients (touch s d k) c) = map_option c_reply (sv_clients s c)"
  by (cases "sv_clients s c") (auto simp: touch_clients)

lemma db_update_time [simp]: "sv_mstime (put_key s d k v) = sv_mstime s" "sv_mstime (del_exp s d k) = sv_mstime s"
  "sv_mstime (set_exp s d k w) = sv_mstime s" "sv_loading (put_key s d k v) = sv_loading s"
  "sv_loading (del_exp s d k) = sv_loading s" "sv_masterhost (put_key s d k v) = sv_masterhost s"
  "sv_masterhost (del_exp s d k) = sv_masterhost s"
  by (simp_all add: db_updates upd_db_def)

lemma touch_expires [simp]: "expires_keys (touch s d k) = expires_keys s"
  by (simp add: expires_keys_def)

lemma dirty_fields [simp]:
  "sv_dirty (put_key s d k v) = sv_dirty s" "sv_dirty (del_exp s d k) = sv_dirty s"
  "sv_dirty (set_exp s d k w) = sv_dirty s" "sv_dirty (expire_step s d k) = sv_dirty s" "sv_dirty (touch s d k) = sv_dirty s"
  using same_data_touch [of s d k]
  by (auto simp: same_data_def expire_step_def db_updates upd_db_def propagateExpire_def Let_def)

lemma setKey_ok:
  assumes ok: "server_ok s" and d: "d < length (sv_db s)"
  shows "\<exists>s'. setKey s d k v = Some s' \<and> server_ok s' \<and> marked s s' d k \<and>
    (\<forall>d' k'. lookupKey s' d' k' = (if d' = d \<and> k' = k then Some v else lookupKey s d' k')) \<and>
    (\<forall>d' k'. expire_of s' d' k' = (if d' = d \<and> k' = k then None else expire_of s d' k')) \<and>
    (\<forall>c. map_option c_reply (sv_clients s' c) = map_option c_reply (sv_clients s c)) \<and>
    sv_mstime s' = sv_mstime s \<and> length (sv_db s') = length (sv_db s) \<and> sv_dirty s' = sv_dirty s \<and>
    expires_keys s' = expires_keys s"
proof -
  define t where "t = del_exp (put_key (expire_step s d k) d k v) d k"
  have q: "quiet s t"
    unfolding t_def by (rule quiet_trans [OF quiet_trans [OF quiet_expire_step quiet_put_key] quiet_del_exp])
  have l: "length (sv_db t) = length (sv_db s)" by (simp add: t_def)
  have "setKey s d k v = Some (touch t d k)"
    using d server_okD(2) [OF ok]
    by (auto simp: setKey_def lookupKeyWrite_eq dbAdd_eq dbOverwrite_eq removeExpire_eq signal_eq t_def split: option.split)
  moreover have okt: "server_ok t" by (rule quiet_server_ok [OF q ok])
  moreover have "server_ok (touch t d k)" by (rule touch_server_ok [OF okt]) (simp add: l d)
  moreover have "marked s (touch t d k) d k"
    by (rule marked_before [OF touch_marked [OF server_okD(1) [OF okt]] quiet_keeps [OF q]])
  moreover have "sv_clients t = sv_clients s" "sv_mstime t = sv_mstime s" "sv_dirty t = sv_dirty s" "expires_keys t = expires_keys s"
    by (simp_all add: t_def expires_keys_def)
  ultimately show ?thesis using d l touch_reply [of t d k]
    by (auto simp: lookup_expire_step expire_expire_step) (auto simp: t_def lookup_expire_step expire_expire_step)
qed

text \<open>C14. \<^verbatim>\<open>setKey\<close> never fails an assertion, keeps the state well formed, binds the key to the value
  without an expire time, changes no other key, and marks every client that watches the key.\<close>

theorem setKey_correct:
  assumes "server_ok s" and "d < length (sv_db s)"
  shows "\<exists>s'. setKey s d k v = Some s' \<and> server_ok s' \<and> marked s s' d k \<and>
    (\<forall>d' k'. lookupKey s' d' k' = (if d' = d \<and> k' = k then Some v else lookupKey s d' k')) \<and>
    (\<forall>d' k'. expire_of s' d' k' = (if d' = d \<and> k' = k then None else expire_of s d' k'))"
  using setKey_ok [OF assms] by blast

lemma init_client_ok: "server_ok (createClient (initServer us) c)"
  by (rule createClient_server_ok [OF init_server_ok]) (simp_all add: initServer_def REDIS_DEFAULT_DBNUM_def)

lemma init_len [simp]: "length (sv_db (initServer us)) = 16"
  by (simp add: initServer_def REDIS_DEFAULT_DBNUM_def)

theorem setKey_correct_witness:
  "\<exists>s'. setKey (createClient (initServer 0) 1) 3 ''k'' (7::int) = Some s' \<and> lookupKey s' 3 ''k'' = Some 7"
  using setKey_correct [OF init_client_ok [of 0 1], of 3 "''k''" "7::int"] by auto

lemma del_loop_ok:
  "server_ok s \<Longrightarrow> d < length (sv_db s) \<Longrightarrow>
   \<exists>s'. del_loop s d ks n = Some (s', n + card {k \<in> set ks. lookupKey s d k \<noteq> None}) \<and> server_ok s' \<and> keeps_marks s s' \<and>
     (\<forall>k \<in> set ks. lookupKey s d k \<noteq> None \<longrightarrow> marked s s' d k) \<and>
     (\<forall>d' k'. lookupKey s' d' k' = (if d' = d \<and> k' \<in> set ks then None else lookupKey s d' k')) \<and>
     (\<forall>d' k'. expire_of s' d' k' = (if d' = d \<and> k' \<in> set ks then None else expire_of s d' k'))"
proof (induction ks arbitrary: s n)
  case Nil
  then show ?case by (simp add: quiet_keeps quiet_refl)
next
  case (Cons k ks)
  define found where "found = (lookupKey s d k \<noteq> None)"
  define t where "t = (if found then incr_dirty 1 (touch (del_key s d k) d k) else del_key s d k)"
  have ok1: "server_ok (del_key s d k)" by (rule quiet_server_ok [OF quiet_del_key Cons.prems(1)])
  have k1: "keeps_marks s (del_key s d k)" by (rule quiet_keeps [OF quiet_del_key])
  have k2: "keeps_marks (del_key s d k) t"
    using touch_keeps [of "del_key s d k" d k]
    by (auto simp: t_def keeps_marks_def cas_mono_def)
  have okt: "server_ok t" using ok1 Cons.prems(2) touch_server_ok [OF ok1, of d k] by (simp add: t_def)
  have lt: "d < length (sv_db t)" using Cons.prems(2) by (simp add: t_def)
  have look: "lookupKey t d' k' = (if d' = d \<and> k' = k then None else lookupKey s d' k')" for d' k'
    by (simp add: t_def)
  have exp: "expire_of t d' k' = (if d' = d \<and> k' = k then None else expire_of s d' k')" for d' k'
    by (simp add: t_def)
  have step: "del_loop s d (k # ks) n = del_loop t d ks (if found then n + 1 else n)"
    using Cons.prems(2) by (simp add: dbDelete_eq signal_eq t_def found_def)
  obtain s' where s': "del_loop t d ks (if found then n + 1 else n) =
      Some (s', (if found then n + 1 else n) + card {j \<in> set ks. lookupKey t d j \<noteq> None})"
    "server_ok s'" "keeps_marks t s'" "\<forall>j \<in> set ks. lookupKey t d j \<noteq> None \<longrightarrow> marked t s' d j"
    "\<forall>d' k'. lookupKey s' d' k' = (if d' = d \<and> k' \<in> set ks then None else lookupKey t d' k')"
    "\<forall>d' k'. expire_of s' d' k' = (if d' = d \<and> k' \<in> set ks then None else expire_of t d' k')"
    using Cons.IH [OF okt lt] by blast
  have "{j \<in> set (k # ks). lookupKey s d j \<noteq> None} =
      (if found then insert k {j \<in> set ks. lookupKey t d j \<noteq> None} else {j \<in> set ks. lookupKey t d j \<noteq> None})"
    by (auto simp: look found_def)
  moreover have "k \<notin> {j \<in> set ks. lookupKey t d j \<noteq> None}" by (simp add: look)
  ultimately have card: "(if found then n + 1 else n) + card {j \<in> set ks. lookupKey t d j \<noteq> None} =
      n + card {j \<in> set (k # ks). lookupKey s d j \<noteq> None}" by simp
  have kst: "keeps_marks s t" by (rule keeps_marks_trans [OF k1 k2])
  have "marked s s' d j" if "j \<in> set (k # ks)" "lookupKey s d j \<noteq> None" for j
  proof (cases "j = k")
    case True
    then have f: found using that(2) by (simp add: found_def)
    have "marked (del_key s d k) (touch (del_key s d k) d k) d k" by (rule touch_marked [OF server_okD(1) [OF ok1]])
    then have "marked (del_key s d k) t d k" using f by (simp add: t_def marked_def)
    then show ?thesis using True k1 s'(3) by (blast intro: marked_later marked_before)
  next
    case False
    then show ?thesis using that s'(4) look kst by (auto intro: marked_before)
  qed
  then show ?case
    using step s'(1,2,5,6) card keeps_marks_trans [OF kst s'(3)] look exp by auto
qed

text \<open>\<^verbatim>\<open>DEL\<close> removes exactly its arguments, with their expire times, marks the clients that watch a
  removed key, and replies the number of keys removed, counting a repeated argument once.\<close>

theorem delCommand_correct:
  assumes ok: "server_ok s" and c: "sv_clients s c = Some cl"
  shows "\<exists>s'. delCommand s c = Some s' \<and> server_ok s' \<and>
    (\<forall>d k. lookupKey s' d k = (if d = c_db cl \<and> k \<in> set (tl (c_argv cl)) then None else lookupKey s d k)) \<and>
    (\<forall>d k. expire_of s' d k = (if d = c_db cl \<and> k \<in> set (tl (c_argv cl)) then None else expire_of s d k)) \<and>
    (\<forall>k \<in> set (tl (c_argv cl)). lookupKey s (c_db cl) k \<noteq> None \<longrightarrow> marked s s' (c_db cl) k) \<and>
    (\<exists>cl'. sv_clients s' c = Some cl' \<and> last (c_reply cl') =
       R_Int (int (card {k \<in> set (tl (c_argv cl)). lookupKey s (c_db cl) k \<noteq> None})))"
proof -
  have d: "c_db cl < length (sv_db s)" by (rule server_ok_client_db [OF ok c])
  let ?n = "card {k \<in> set (tl (c_argv cl)). lookupKey s (c_db cl) k \<noteq> None}"
  obtain s1 where s1: "del_loop s (c_db cl) (tl (c_argv cl)) 0 = Some (s1, ?n)" "server_ok s1" "keeps_marks s s1"
    "\<forall>k \<in> set (tl (c_argv cl)). lookupKey s (c_db cl) k \<noteq> None \<longrightarrow> marked s s1 (c_db cl) k"
    "\<forall>d k. lookupKey s1 d k = (if d = c_db cl \<and> k \<in> set (tl (c_argv cl)) then None else lookupKey s d k)"
    "\<forall>d k. expire_of s1 d k = (if d = c_db cl \<and> k \<in> set (tl (c_argv cl)) then None else expire_of s d k)"
    using del_loop_ok [OF ok d, of "tl (c_argv cl)" 0] by auto
  obtain cl1 where cl1: "sv_clients s1 c = Some cl1" using s1(3) c unfolding keeps_marks_def cas_mono_def by blast
  have "delCommand s c = Some (addReply s1 c (R_Int (int ?n)))" using c s1(1) by (simp add: delCommand_def)
  then show ?thesis
    using s1(2,5,6) cl1 s1(4) by (auto intro: marked_later [OF _ reply_keeps])
qed

theorem delCommand_correct_witness:
  "\<exists>s'. delCommand (createClient (initServer 0 :: int redisServer) 1) 1 = Some s' \<and> server_ok s'"
  using delCommand_correct [OF init_client_ok createClient_new, of 0 1, where 'a = int] by blast

subsection \<open>Expiry\<close>

lemma propagateExpire_feeds:
  "sv_aof (propagateExpire s d k) = sv_aof s @ (if sv_aof_on s then [(d, [''DEL'', k])] else [])"
  "sv_repl_feed (propagateExpire s d k) = sv_repl_feed s @ (if sv_slaves s \<noteq> 0 then [(d, [''DEL'', k])] else [])"
  by (auto simp: propagateExpire_def Let_def)

lemma del_key_feeds [simp]:
  "sv_aof (del_key s d k) = sv_aof s" "sv_repl_feed (del_key s d k) = sv_repl_feed s"
  by (simp_all add: del_key_def upd_db_def)

text \<open>C15. \<^verbatim>\<open>expireIfNeeded\<close> never fails an assertion.  On a master that is not loading, a key past its time is
  removed with its expire time, and a \<^verbatim>\<open>DEL\<close> for it goes to the append-only file and to the slaves; no
  other key changes.  In every other case the state is unchanged.  It reports an expired key, also on
  a slave, which leaves the removal to its master.\<close>

theorem expireIfNeeded_correct:
  assumes ok: "server_ok s" and d: "d < length (sv_db s)"
  shows "\<exists>s'. expireIfNeeded s d k = Some (s', expired s d k \<and> \<not> sv_loading s) \<and> server_ok s' \<and>
    (if expired s d k \<and> \<not> sv_loading s \<and> \<not> sv_masterhost s
     then (\<forall>d' k'. lookupKey s' d' k' = (if d' = d \<and> k' = k then None else lookupKey s d' k')) \<and>
       (\<forall>d' k'. expire_of s' d' k' = (if d' = d \<and> k' = k then None else expire_of s d' k')) \<and>
       sv_clients s' = sv_clients s \<and>
       sv_aof s' = sv_aof s @ (if sv_aof_on s then [(d, [''DEL'', k])] else []) \<and>
       sv_repl_feed s' = sv_repl_feed s @ (if sv_slaves s \<noteq> 0 then [(d, [''DEL'', k])] else [])
     else s' = s)"
proof -
  have "server_ok (expire_step s d k)" by (rule quiet_server_ok [OF quiet_expire_step ok])
  moreover note expireIfNeeded_eq [OF server_okD(2) [OF ok] d, of k]
  ultimately show ?thesis
    by (auto simp: expire_step_def expires_keys_def propagateExpire_feeds)
qed

text \<open>A server with two databases and the append-only file on, whose database 0 holds an expired key.\<close>

definition expired_example :: "bool \<Rightarrow> int redisServer" where
  "expired_example slave = (initServer 5000 :: int redisServer)
     \<lparr>sv_db := [\<lparr>db_dict = [(''k'', 7)], db_expires = [(''k'', 3)], db_watched_keys = []\<rparr>, empty_db],
      sv_masterhost := slave, sv_aof_on := True\<rparr>"

lemma expired_example_ok: "server_ok (expired_example b)"
proof -
  have "get_db (expired_example b) d = (if d = 0 then Some \<lparr>db_dict = [(''k'', 7)], db_expires = [(''k'', 3)], db_watched_keys = []\<rparr>
      else if d = 1 then Some empty_db else None)" for d
    by (auto simp: expired_example_def get_db_def less_Suc_eq numeral_2_eq_2)
  moreover have "sv_clients (expired_example b) = Map.empty" by (simp add: expired_example_def)
  ultimately have "watch_ok (expired_example b)"
    by (auto simp: watch_ok_def watchers_def tables_ok_def empty_db_def split: if_splits)
  moreover have "slowlog_ok (sv_slowlog (expired_example b))"
    using init_server_ok [of 5000, where 'a = int, unfolded server_ok_def] by (simp add: expired_example_def)
  ultimately show ?thesis by (simp add: server_ok_def) (simp add: expired_example_def db_ok_def db_wf_def empty_db_def)
qed

theorem expireIfNeeded_correct_witness:
  "\<exists>s'. expireIfNeeded (expired_example False) 0 ''k'' = Some (s', True) \<and>
    lookupKey s' 0 ''k'' = None \<and> sv_aof s' = [(0, [''DEL'', ''k''])]"
proof -
  have "expired (expired_example False) 0 ''k''" "0 < length (sv_db (expired_example False))"
    by (simp_all add: expired_example_def expired_def expire_of_def get_db_def initServer_def)
  moreover have "\<not> sv_loading (expired_example False)" "\<not> sv_masterhost (expired_example False)"
    "sv_aof_on (expired_example False)" "sv_aof (expired_example False) = []"
    by (simp_all add: expired_example_def initServer_def)
  ultimately show ?thesis
    using expireIfNeeded_correct [OF expired_example_ok, of 0 False "''k''"] by auto
qed

subsection \<open>Random keys\<close>

lemma random_slave_loops:
  assumes "db_ok s" and "get_db s d = Some db" and "db_dict db \<noteq> []" and "sv_masterhost s" and "\<not> sv_loading s"
    and all: "\<forall>k. lookupKey s d k \<noteq> None \<longrightarrow> expired s d k"
  shows "dbRandomKey s d picks = None"
proof (induction picks)
  case (Cons p ps)
  let ?k = "fst (db_dict db ! (p mod length (db_dict db)))"
  have "p mod length (db_dict db) < length (db_dict db)" using assms(3) by simp
  then have "db_dict db ! (p mod length (db_dict db)) \<in> set (db_dict db)" by (rule nth_mem)
  then have "map_of (db_dict db) ?k \<noteq> None" by (auto simp: map_of_eq_None_iff)
  then have e: "expired s d ?k" using all assms(2) by (simp add: lookupKey_def)
  then have m: "map_of (db_expires db) ?k \<noteq> None"
    using assms(2) by (auto simp: expired_def expire_of_def split: option.splits)
  have "expireIfNeeded s d ?k = Some (s, True)"
    using e assms(4,5) by (simp add: expireIfNeeded_eq [OF assms(1) get_db_less [OF assms(2)]] expire_step_def expires_keys_def)
  then show ?case using Cons assms(2,3) m by (simp add: Let_def)
qed simp

text \<open>C24. On a slave whose selected database holds keys, all of them past their time, \<^verbatim>\<open>RANDOMKEY\<close> never
  ends, whatever keys are picked: the slave does not remove the keys, so the loop never finds the
  database empty and never finds a key that has not expired.\<close>

theorem randomkey_loops_on_slave:
  assumes "server_ok s" and "sv_clients s c = Some cl" and "get_db s (c_db cl) = Some db" and "db_dict db \<noteq> []"
    and "sv_masterhost s" and "\<not> sv_loading s" and "\<forall>k. lookupKey s (c_db cl) k \<noteq> None \<longrightarrow> expired s (c_db cl) k"
  shows "randomkeyCommand picks s c = None"
  using random_slave_loops [OF server_okD(2) [OF assms(1)] assms(3-7)] assms(2) by (simp add: randomkeyCommand_def)

lemma createClient_maps [simp]:
  "lookupKey (createClient s c) = lookupKey s" "expire_of (createClient s c) = expire_of s"
  "expired (createClient s c) = expired s"
  by (auto simp: lookupKey_def expire_of_def expired_def fun_eq_iff createClient_def get_db_def split: option.split)

theorem randomkey_loops_on_slave_witness:
  "\<forall>picks. randomkeyCommand picks (createClient (expired_example True) 1) 1 = None"
proof (rule allI, rule randomkey_loops_on_slave)
  show "server_ok (createClient (expired_example True) 1)"
    by (rule createClient_server_ok [OF expired_example_ok]) (simp_all add: expired_example_def)
qed (auto simp: expired_example_def initServer_def createClient_def get_db_def new_client_def
      lookupKey_def expired_def expire_of_def split: if_splits)

text \<open>The number of keys of a database.\<close>

definition db_size :: "'v redisServer \<Rightarrow> nat \<Rightarrow> nat" where
  "db_size s d = (case get_db s d of None \<Rightarrow> 0 | Some db \<Rightarrow> length (db_dict db))"

lemma length_delete_less: "map_of al k \<noteq> None \<Longrightarrow> length (AList.delete k al) < length al"
  by (induction al) (auto simp: less_Suc_eq_le length_delete_le split: if_splits)

lemma db_size_del: "lookupKey s d k \<noteq> None \<Longrightarrow> db_size (del_key s d k) d < db_size s d"
  by (auto simp: db_size_def lookupKey_def del_key_def split: option.splits intro!: length_delete_less)

lemma db_size_expire_step:
  assumes "db_ok s" and "expired s d k" and "expires_keys s"
  shows "db_size (expire_step s d k) d < db_size s d"
proof -
  have "lookupKey s d k \<noteq> None" using assms(1,2) db_ok_expire [OF assms(1)] by (auto simp: expired_def split: option.splits)
  moreover have "db_size (propagateExpire (s\<lparr>sv_stat_expiredkeys := n\<rparr>) d k) d = db_size s d" for n
    by (simp add: db_size_def get_db_def)
  moreover note db_size_del [of "propagateExpire (s\<lparr>sv_stat_expiredkeys := sv_stat_expiredkeys s + 1\<rparr>) d k" d k]
  ultimately show ?thesis using assms(2,3) by (simp add: expire_step_def)
qed

lemma random_master_returns:
  "db_ok s \<Longrightarrow> d < length (sv_db s) \<Longrightarrow> expires_keys s \<Longrightarrow> db_size s d < length picks \<Longrightarrow>
   \<exists>s' r. dbRandomKey s d picks = Some (s', r) \<and>
     (case r of None \<Rightarrow> \<forall>k. lookupKey s' d k = None | Some k \<Rightarrow> lookupKey s' d k \<noteq> None \<and> \<not> expired s' d k)"
proof (induction picks arbitrary: s)
  case (Cons p ps)
  obtain db where db: "get_db s d = Some db" using get_db_Some [OF Cons.prems(2)] by blast
  show ?case
  proof (cases "db_dict db = []")
    case True
    then show ?thesis using db by (simp add: lookupKey_def)
  next
    case False
    let ?k = "fst (db_dict db ! (p mod length (db_dict db)))"
    have "p mod length (db_dict db) < length (db_dict db)" using False by simp
    then have "db_dict db ! (p mod length (db_dict db)) \<in> set (db_dict db)" by (rule nth_mem)
    then have l: "lookupKey s d ?k \<noteq> None" using db by (auto simp: lookupKey_def map_of_eq_None_iff)
    note e = expireIfNeeded_eq [OF Cons.prems(1,2), of ?k]
    have x: "expired s d ?k \<Longrightarrow> map_of (db_expires db) ?k \<noteq> None"
      using db by (auto simp: expired_def expire_of_def split: option.splits)
    show ?thesis
    proof (cases "expired s d ?k")
      case True
      have "dbRandomKey s d (p # ps) = dbRandomKey (expire_step s d ?k) d ps"
        using True False db e x [OF True] Cons.prems(3)
        by (simp add: Let_def expires_keys_def)
      moreover have "expires_keys (expire_step s d ?k)" using Cons.prems(3) by (simp add: expires_keys_def)
      ultimately show ?thesis
        using Cons.IH [of "expire_step s d ?k"] Cons.prems db_size_expire_step [OF Cons.prems(1) True Cons.prems(3)]
        by simp
    next
      case False': False
      have "dbRandomKey s d (p # ps) = Some (s, Some ?k)"
        using False False' db e by (auto simp: Let_def expire_step_def)
      then show ?thesis using l False' by simp
    qed
  qed
qed simp

text \<open>On a master that is not loading, the loop of \<^verbatim>\<open>dbRandomKey\<close> ends after at most one round more than
  the database has keys, whatever keys are picked, and returns a key that is there and has not
  expired, or none when the database has become empty.\<close>

theorem dbRandomKey_returns:
  assumes "server_ok s" and "get_db s d = Some db" and "\<not> sv_masterhost s" and "\<not> sv_loading s"
    and "length (db_dict db) < length picks"
  shows "\<exists>s' r. dbRandomKey s d picks = Some (s', r) \<and>
     (case r of None \<Rightarrow> \<forall>k. lookupKey s' d k = None | Some k \<Rightarrow> lookupKey s' d k \<noteq> None \<and> \<not> expired s' d k)"
  using random_master_returns [OF server_okD(2) [OF assms(1)] get_db_less [OF assms(2)], of picks] assms(2-5)
  by (simp add: expires_keys_def db_size_def)

theorem dbRandomKey_returns_witness:
  "\<exists>s' r. dbRandomKey (expired_example False) 0 [4, 2] = Some (s', r)"
proof -
  have "get_db (expired_example False) 0 = Some \<lparr>db_dict = [(''k'', 7)], db_expires = [(''k'', 3)], db_watched_keys = []\<rparr>"
    by (simp add: expired_example_def get_db_def)
  from dbRandomKey_returns [OF expired_example_ok this, of "[4, 2]"] show ?thesis
    by (auto simp: expired_example_def initServer_def)
qed

subsection \<open>Renaming and moving\<close>

text \<open>The value that a command sees under a key.\<close>

definition live :: "'v redisServer \<Rightarrow> nat \<Rightarrow> string \<Rightarrow> 'v option" where
  "live s d k = (if expired s d k \<and> expires_keys s then None else lookupKey s d k)"

lemma live_step: "lookupKey (expire_step s d k) d k = live s d k"
  by (simp add: live_def lookup_expire_step)

lemma live_Some_step: "live s d k = Some v \<Longrightarrow> expire_step s d k = s \<and> lookupKey s d k = Some v"
  by (auto simp: live_def expire_step_def split: if_splits)

lemma live_cong:
  "lookupKey s' d k = lookupKey s d k \<Longrightarrow> expire_of s' d k = expire_of s d k \<Longrightarrow> sv_mstime s' = sv_mstime s \<Longrightarrow>
   expires_keys s' = expires_keys s \<Longrightarrow> live s' d k = live s d k"
  by (auto simp: live_def expired_def split: option.splits)

lemma live_simps [simp]:
  "live (touch s d k) = live s" "live (addReply s c r) = live s" "live (incr_dirty n s) = live s"
  by (auto simp: fun_eq_iff expires_keys_def incr_dirty_def addReply_def upd_client_def intro!: live_cong)
     (simp_all add: lookupKey_def expire_of_def get_db_def)

lemma expires_keys_updates [simp]:
  "expires_keys (del_key s d k) = expires_keys s" "expires_keys (put_key s d k v) = expires_keys s"
  "expires_keys (set_exp s d k w) = expires_keys s" "expires_keys (del_exp s d k) = expires_keys s"
  "expires_keys (expire_step s d k) = expires_keys s" "expires_keys (propagateExpire s d k) = expires_keys s"
  "expires_keys (s\<lparr>sv_stat_expiredkeys := n\<rparr>) = expires_keys s"
  by (simp_all add: expires_keys_def) (simp_all add: db_updates upd_db_def)

lemma mstime_updates [simp]:
  "sv_mstime (put_key s d k v) = sv_mstime s" "sv_mstime (set_exp s d k w) = sv_mstime s"
  "sv_mstime (del_exp s d k) = sv_mstime s"
  by (simp_all add: db_updates upd_db_def)

lemma live_expire_step [simp]: "live (expire_step s d k) = live s"
  by (auto simp: fun_eq_iff live_def expired_def lookup_expire_step expire_expire_step split: option.splits)

lemma live_del_key: "live (del_key s d k) d' k' = (if d' = d \<and> k' = k then None else live s d' k')"
  by (auto simp: live_def expired_def split: option.splits)

lemma live_put_new:
  "d < length (sv_db s) \<Longrightarrow> expire_of s d k = None \<Longrightarrow>
   live (put_key s d k v) d' k' = (if d' = d \<and> k' = k then Some v else live s d' k')"
  by (auto simp: live_def expired_def split: option.splits)

lemma live_set_exp:
  "d < length (sv_db s) \<Longrightarrow> live (set_exp s d k w) d' k' =
   (if d' = d \<and> k' = k then (if 0 \<le> w \<and> w < sv_mstime s \<and> expires_keys s then None else lookupKey s d k) else live s d' k')"
  by (auto simp: live_def expired_def split: option.splits)

text \<open>The expire time a renamed key takes along: \<open>- 1\<close> stands for none.\<close>

definition taken_expire :: "int option \<Rightarrow> int option" where
  "taken_expire e = (case e of None \<Rightarrow> None | Some w \<Rightarrow> if w = - 1 then None else Some w)"

text \<open>The data after a rename.\<close>

definition renamed :: "'v redisServer \<Rightarrow> nat \<Rightarrow> string \<Rightarrow> string \<Rightarrow> 'v \<Rightarrow> 'v redisServer" where
  "renamed s d src dst v =
     (let s2 = expire_step s d dst;
          s3 = (if lookupKey s2 d dst \<noteq> None then del_key s2 d dst else s2);
          s4 = put_key s3 d dst v;
          s5 = (case taken_expire (expire_of s d src) of None \<Rightarrow> s4 | Some w \<Rightarrow> set_exp s4 d dst w)
      in del_key s5 d src)"

lemma renamed_props:
  assumes ok: "db_ok s" and d: "d < length (sv_db s)" and l: "live s d src = Some v" and ne: "src \<noteq> dst"
  shows "quiet s (renamed s d src dst v)" and "length (sv_db (renamed s d src dst v)) = length (sv_db s)"
    and "live (renamed s d src dst v) d' k' =
      (if d' = d \<and> k' = dst then Some v else if d' = d \<and> k' = src then None else live s d' k')"
    and "expire_of (renamed s d src dst v) d dst = taken_expire (expire_of s d src)"
proof -
  define s2 where "s2 = expire_step s d dst"
  define s3 where "s3 = (if lookupKey s2 d dst \<noteq> None then del_key s2 d dst else s2)"
  define s4 where "s4 = put_key s3 d dst v"
  define s5 where "s5 = (case taken_expire (expire_of s d src) of None \<Rightarrow> s4 | Some w \<Rightarrow> set_exp s4 d dst w)"
  have r: "renamed s d src dst v = del_key s5 d src"
    unfolding renamed_def s5_def s4_def s3_def s2_def Let_def by (rule refl)
  have l2: "length (sv_db s2) = length (sv_db s)" and ok2: "db_ok s2" using ok by (simp_all add: s2_def)
  have l3: "length (sv_db s3) = length (sv_db s)" by (simp add: s3_def l2)
  have l4: "length (sv_db s4) = length (sv_db s)" by (simp add: s4_def l3)
  have l5: "length (sv_db s5) = length (sv_db s)" by (simp add: s5_def l4 split: option.split)
  have e3: "expire_of s3 d dst = None"
    using db_ok_expire [OF ok2, of d dst] by (cases "expire_of s2 d dst") (auto simp: s3_def)
  have k4: "lookupKey s4 d dst = Some v" using d l3 by (simp add: s4_def)
  have q2: "quiet s s2" unfolding s2_def by (rule quiet_expire_step)
  have q3: "quiet s s3" unfolding s3_def using q2 quiet_trans [OF q2 quiet_del_key] by simp
  have q4: "quiet s s4" unfolding s4_def by (rule quiet_trans [OF q3 quiet_put_key])
  have q5: "quiet s s5"
    using q4 quiet_trans [OF q4 quiet_set_exp] k4 by (simp add: s5_def split: option.split)
  show "quiet s (renamed s d src dst v)" unfolding r by (rule quiet_trans [OF q5 quiet_del_key])
  show "length (sv_db (renamed s d src dst v)) = length (sv_db s)" by (simp add: r l5)
  show "expire_of (renamed s d src dst v) d dst = taken_expire (expire_of s d src)"
    using e3 d l4 ne by (simp add: r s5_def s4_def split: option.split)
  have v4: "live s4 d' k' = (if d' = d \<and> k' = dst then Some v else live s d' k')"
    using d l3 e3 by (auto simp: s4_def live_put_new s3_def s2_def live_del_key)
  have m4: "sv_mstime s4 = sv_mstime s" "expires_keys s4 = expires_keys s" by (simp_all add: s4_def s3_def s2_def)
  have nx: "\<not> (0 \<le> w \<and> w < sv_mstime s \<and> expires_keys s)" if "taken_expire (expire_of s d src) = Some w" for w
    using that l by (auto simp: taken_expire_def live_def expired_def split: option.splits if_splits)
  have "live s5 d' k' = live s4 d' k'"
    using d l4 k4 m4 nx v4 by (auto simp: s5_def live_set_exp split: option.split)
  then show "live (renamed s d src dst v) d' k' =
      (if d' = d \<and> k' = dst then Some v else if d' = d \<and> k' = src then None else live s d' k')"
    using ne by (auto simp: r live_del_key v4)
qed

lemma renameGeneric_eq:
  assumes ok: "db_ok s" and c: "sv_clients s c = Some cl" and d: "c_db cl < length (sv_db s)"
    and argv: "c_argv cl = [nm, src, dst]" and ne: "src \<noteq> dst"
  shows "renameGenericCommand s c nx =
    (case live s (c_db cl) src of
       None \<Rightarrow> Some (addReply (expire_step s (c_db cl) src) c (R_Error ''no such key''))
     | Some v \<Rightarrow>
         if live s (c_db cl) dst \<noteq> None \<and> nx then Some (addReply s c (R_Int 0))
         else Some (addReply (incr_dirty 1 (touch (touch (renamed s (c_db cl) src dst v) (c_db cl) src) (c_db cl) dst)) c
           (if nx then R_Int 1 else R_Status ''OK'')))"
proof -
  let ?d = "c_db cl"
  have w: "lookupKeyWriteOrReply s c src r =
      Some (if live s ?d src = None then addReply (expire_step s ?d src) c r else expire_step s ?d src, live s ?d src)" for r
    using c by (simp add: lookupKeyWriteOrReply_def lookupKeyWrite_eq [OF ok d] live_step)
  show ?thesis
  proof (cases "live s ?d src")
    case None
    then show ?thesis using c argv ne w by (simp add: renameGenericCommand_def arg_def)
  next
    case (Some v)
    define s2 where "s2 = expire_step s ?d dst"
    define s3 where "s3 = (if lookupKey s2 ?d dst \<noteq> None then del_key s2 ?d dst else s2)"
    define s5 where "s5 = (case taken_expire (expire_of s ?d src) of None \<Rightarrow> put_key s3 ?d dst v
        | Some w \<Rightarrow> set_exp (put_key s3 ?d dst v) ?d dst w)"
    have r: "renamed s ?d src dst v = del_key s5 ?d src"
      unfolding renamed_def s5_def s3_def s2_def Let_def by (rule refl)
    note st = live_Some_step [OF Some, THEN conjunct1]
    have l3: "?d < length (sv_db s3)" "?d < length (sv_db s2)" using d by (simp_all add: s3_def s2_def)
    have l5: "?d < length (sv_db s5)" using l3 by (simp add: s5_def split: option.split)
    have n3: "lookupKey s3 ?d dst = None" by (simp add: s3_def)
    have old: "lookupKeyWrite s ?d dst = Some (s2, live s ?d dst)" "lookupKey s2 ?d dst = live s ?d dst"
      by (simp_all add: lookupKeyWrite_eq [OF ok d] s2_def live_step)
    have exp: "(if (case expire_of s ?d src of None \<Rightarrow> - 1 | Some w \<Rightarrow> w) \<noteq> - 1
        then setExpire (put_key s3 ?d dst v) ?d dst (case expire_of s ?d src of None \<Rightarrow> - 1 | Some w \<Rightarrow> w)
        else Some (put_key s3 ?d dst v)) = Some s5"
      using l3 by (auto simp: s5_def taken_expire_def setExpire_eq split: option.split)
    have del: "(if live s ?d dst \<noteq> None then map_option fst (dbDelete s2 ?d dst) else Some s2) = Some s3"
      using l3 by (simp add: dbDelete_eq s3_def old)
    have nx: "live s ?d dst \<noteq> None \<Longrightarrow> s2 = s"
      by (auto simp: s2_def dest: live_Some_step)
    show ?thesis
    proof (cases "live s ?d dst \<noteq> None \<and> nx")
      case True
      then show ?thesis
        using c argv ne w Some st old nx
        by (simp add: renameGenericCommand_def arg_def getExpire_eq [OF ok d])
    next
      case False
      have "renameGenericCommand s c nx = do {
             s3 \<leftarrow> (if live s ?d dst \<noteq> None then map_option fst (dbDelete s2 ?d dst) else Some s2);
             s4 \<leftarrow> dbAdd s3 ?d dst v;
             s5 \<leftarrow> (if (case expire_of s ?d src of None \<Rightarrow> - 1 | Some w \<Rightarrow> w) \<noteq> - 1
               then setExpire s4 ?d dst (case expire_of s ?d src of None \<Rightarrow> - 1 | Some w \<Rightarrow> w) else Some s4);
             (s6, _) \<leftarrow> dbDelete s5 ?d src;
             s7 \<leftarrow> signalModifiedKey s6 ?d src;
             s8 \<leftarrow> signalModifiedKey s7 ?d dst;
             Some (addReply (incr_dirty 1 s8) c (if nx then R_Int 1 else R_Status ''OK''))
           }"
        unfolding renameGenericCommand_def
        using c argv ne w Some st old by (simp add: arg_def getExpire_eq [OF ok d]) (use False in auto)
      also have "\<dots> = Some (addReply (incr_dirty 1 (touch (touch (renamed s ?d src dst v) ?d src) ?d dst)) c
           (if nx then R_Int 1 else R_Status ''OK''))"
        unfolding del using l3 l5 n3 exp by (simp add: dbAdd_eq r dbDelete_eq signal_eq)
      finally show ?thesis using Some False by auto
    qed
  qed
qed

text \<open>C16. \<^verbatim>\<open>RENAME\<close> and \<^verbatim>\<open>RENAMENX\<close> never fail an assertion and keep the state well
  formed.  When both names are the same, nothing but the reply, an error, changes.  When the source is missing, or the target of \<^verbatim>\<open>RENAMENX\<close> is there, no key a command sees
  changes and the reply says so.  Otherwise the target takes the value and the expire time of the
  source, the source is gone, no other key changes, and the clients watching either key are marked.\<close>

theorem renameGenericCommand_correct:
  assumes ok: "server_ok s" and c: "sv_clients s c = Some cl"
    and argv: "c_argv cl = [nm, src, dst]" and d: "d = c_db cl"
  shows "\<exists>s' cl'. renameGenericCommand s c nx = Some s' \<and> server_ok s' \<and> sv_clients s' c = Some cl' \<and>
    (if src = dst then s' = addReply s c (R_Error ''source and destination objects are the same'') else
     case live s d src of
       None \<Rightarrow> live s' = live s \<and> last (c_reply cl') = R_Error ''no such key''
     | Some v \<Rightarrow>
         if nx \<and> live s d dst \<noteq> None then live s' = live s \<and> last (c_reply cl') = R_Int 0
         else (\<forall>d' k'. live s' d' k' =
             (if d' = d \<and> k' = dst then Some v else if d' = d \<and> k' = src then None else live s d' k')) \<and>
           expire_of s' d dst = taken_expire (expire_of s d src) \<and> marked s s' d src \<and> marked s s' d dst \<and>
           last (c_reply cl') = (if nx then R_Int 1 else R_Status ''OK''))"
proof (cases "src = dst")
  case True
  then have "renameGenericCommand s c nx = Some (addReply s c (R_Error ''source and destination objects are the same''))"
    using c argv by (simp add: renameGenericCommand_def arg_def)
  moreover have "server_ok (addReply s c r)" for r
    unfolding addReply_def by (rule server_ok_client [OF ok]) simp
  ultimately show ?thesis using c True by simp
next
  case ne: False
  have len: "c_db cl < length (sv_db s)" by (rule server_ok_client_db [OF ok c])
  note eq = renameGeneric_eq [OF server_okD(2) [OF ok] c len argv ne, of nx, folded d]
  note okx = quiet_server_ok [OF quiet_expire_step ok, of d src]
  show ?thesis
  proof (cases "live s d src")
    case None
    then show ?thesis using eq okx c ne by simp
  next
    case (Some v)
    let ?r = "renamed s d src dst v"
    note rp = renamed_props [OF server_okD(2) [OF ok] len [folded d] Some ne]
    have okr: "server_ok ?r" by (rule quiet_server_ok [OF rp(1) ok])
    have lr: "d < length (sv_db ?r)" by (subst rp(2)) (use len d in simp)
    have ok1: "server_ok (touch ?r d src)" by (rule touch_server_ok [OF okr lr])
    have ok2: "server_ok (touch (touch ?r d src) d dst)" by (rule touch_server_ok [OF ok1]) (simp add: lr)
    have m: "marked s (touch (touch ?r d src) d dst) d src" "marked s (touch (touch ?r d src) d dst) d dst"
      using marked_before [OF marked_later [OF touch_marked [OF server_okD(1) [OF okr]] touch_keeps] quiet_keeps [OF rp(1)]]
        marked_before [OF marked_before [OF touch_marked [OF server_okD(1) [OF ok1]] touch_keeps] quiet_keeps [OF rp(1)]]
      by blast+
    have cs: "\<exists>cl'. sv_clients (touch (touch ?r d src) d dst) c = Some cl'"
      using c quiet_clients [OF rp(1)] by (simp add: touch_clients)
    have mk: "marked s t d k \<Longrightarrow> marked s (addReply (incr_dirty n t) c r) d k" for t k n r
      by (rule marked_later [OF _ reply_keeps]) (simp add: marked_def)
    show ?thesis using eq Some ok ok2 m [THEN mk] cs rp(3,4) c ne by auto
  qed
qed

text \<open>The example as a slave, with a client whose command has the given arguments.\<close>

definition slave_example :: "string list \<Rightarrow> int redisServer" where
  "slave_example argv = upd_client (createClient (expired_example True) 1) 1 (\<lambda>cl. cl\<lparr>c_argv := argv\<rparr>)"

lemma slave_example_ok: "server_ok (slave_example argv)"
proof -
  have "server_ok (createClient (expired_example True) 1)"
    by (rule createClient_server_ok [OF expired_example_ok]) (simp_all add: expired_example_def)
  then show ?thesis unfolding slave_example_def by (intro server_ok_client) auto
qed

lemma slave_example_client: "sv_clients (slave_example argv) 1 = Some (new_client\<lparr>c_argv := argv\<rparr>)"
  by (simp add: slave_example_def)

lemma slave_example_live: "live (slave_example argv) d k = (if d = 0 \<and> k = ''k'' then Some 7 else None)"
proof -
  have "\<not> expires_keys (slave_example argv)"
    by (simp add: slave_example_def expires_keys_def upd_client_def createClient_def expired_example_def)
  then show ?thesis
    by (simp add: live_def) (auto simp: slave_example_def expired_example_def lookupKey_def get_db_def less_Suc_eq numeral_2_eq_2 empty_db_def)
qed

theorem renameGenericCommand_correct_witness:
  "\<exists>s'. renameGenericCommand (slave_example [''rename'', ''k'', ''z'']) 1 False = Some s' \<and>
     live s' 0 ''z'' = Some 7 \<and> live s' 0 ''k'' = None"
  using renameGenericCommand_correct [OF slave_example_ok slave_example_client, of "[''rename'', ''k'', ''z'']" "''rename''" "''k''" "''z''" 0 False]
  by (auto simp: slave_example_live)

text \<open>\<^verbatim>\<open>MOVE\<close> of a key that is there to another database that does not have it moves the value and removes
  the source, changes nothing else the commands see, and replies 1.  The expire time is lost, and no client that watches the
  key, in either database, is marked: \<^verbatim>\<open>signalModifiedKey\<close> is not called.\<close>

theorem moveCommand_unsignalled:
  assumes ok: "server_ok s" and c: "sv_clients s c = Some cl" and argv: "c_argv cl = [nm, key, a]"
    and a: "atoi a = int dst" and dst: "dst < length (sv_db s)" "dst \<noteq> c_db cl"
    and src: "live s (c_db cl) key = Some v" and new: "live s dst key = None"
  shows "\<exists>s' cl'. moveCommand s c = Some s' \<and> server_ok s' \<and> sv_clients s' c = Some cl' \<and>
    (\<forall>d' k'. live s' d' k' =
       (if d' = dst \<and> k' = key then Some v else if d' = c_db cl \<and> k' = key then None else live s d' k')) \<and>
    expire_of s' dst key = None \<and> last (c_reply cl') = R_Int 1 \<and> c_dirty_cas cl' = c_dirty_cas cl \<and>
    (\<forall>c'. c' \<noteq> c \<longrightarrow> sv_clients s' c' = sv_clients s c')"
proof -
  let ?d = "c_db cl"
  have len: "?d < length (sv_db s)" by (rule server_ok_client_db [OF ok c])
  have sel: "selectDb s c (atoi a) = (upd_client s c (\<lambda>cl. cl\<lparr>c_db := dst\<rparr>), True)"
    using dst a by (simp add: selectDb_def)
  have bac: "fst (selectDb (upd_client s c (\<lambda>cl. cl\<lparr>c_db := dst\<rparr>)) c (int ?d)) = s"
  proof -
    have "(sv_clients s)(c := Some (cl\<lparr>c_db := ?d\<rparr>)) = sv_clients s" using c by (auto simp: fun_eq_iff)
    then show ?thesis using len c by (simp add: selectDb_def upd_client_def)
  qed
  define s4 where "s4 = expire_step s dst key"
  define s6 where "s6 = del_key (put_key s4 dst key v) ?d key"
  note st = live_Some_step [OF src]
  have l4: "length (sv_db s4) = length (sv_db s)" by (simp add: s4_def)
  have n4: "lookupKey s4 dst key = None" using new by (simp add: s4_def live_step)
  have ok4: "db_ok s4" using server_okD(2) [OF ok] by (simp add: s4_def)
  have e4: "expire_of s4 dst key = None" using db_ok_expire [OF ok4, of dst key] n4 by (cases "expire_of s4 dst key") auto
  have q: "quiet s s6"
    unfolding s6_def s4_def by (rule quiet_trans [OF quiet_trans [OF quiet_expire_step quiet_put_key] quiet_del_key])
  have eq: "moveCommand s c = Some (addReply (incr_dirty 1 s6) c (R_Int 1))"
    using c argv sel bac dst st len l4 n4 server_okD(2) [OF ok]
    by (simp add: moveCommand_def arg_def lookupKeyWrite_eq dbAdd_eq dbDelete_eq s6_def s4_def [symmetric])
  have "live s6 d' k' = (if d' = dst \<and> k' = key then Some v else if d' = ?d \<and> k' = key then None else live s d' k')" for d' k'
    using dst e4 l4 by (auto simp: s6_def live_del_key live_put_new) (auto simp: s4_def)
  moreover have "expire_of s6 dst key = None" using e4 by (simp add: s6_def)
  ultimately show ?thesis
    using eq quiet_server_ok [OF q ok] quiet_clients [OF q] c by auto
qed

theorem moveCommand_unsignalled_witness:
  "\<exists>s'. moveCommand (slave_example [''move'', ''k'', ''1'']) 1 = Some s' \<and>
     live s' 1 ''k'' = Some 7 \<and> live s' 0 ''k'' = None \<and> expire_of s' 1 ''k'' = None"
proof -
  have a: "atoi ''1'' = int 1" by code_simp
  have l: "1 < length (sv_db (slave_example argv))" for argv by (simp add: slave_example_def expired_example_def)
  show ?thesis
    using moveCommand_unsignalled [OF slave_example_ok slave_example_client, of "[''move'', ''k'', ''1'']" "''move''" "''k''" "''1''" 1 7] a l
    by (auto simp: slave_example_live)
qed

text \<open>\<^verbatim>\<open>SELECT\<close> reads a \<^verbatim>\<open>long\<close> and passes it as an \<^verbatim>\<open>int\<close>: an index of two to the power 32 selects database 0.\<close>

lemma select_truncates:
  assumes "sv_clients s c = Some cl" and "c_argv cl = [''select'', ''4294967296'']" and "sv_db s \<noteq> []"
  shows "selectCommand s c = Some (addReply (upd_client s c (\<lambda>cl. cl\<lparr>c_db := 0\<rparr>)) c (R_Status ''OK''))"
proof -
  have "getLongFromObjectOrReply (Some (createStringObject 0 ''4294967296'')) (Some ''invalid DB index'') = Inr 4294967296"
    by code_simp
  then show ?thesis using assms by (simp add: selectCommand_def arg_def selectDb_def to_signed_def)
qed

end
