(* ===== verification/Dispatch.thy ===== *)
theory Dispatch
  imports Keyspace Pubsub
begin

section \<open>Command dispatch (\<^verbatim>\<open>redis.c\<close>)\<close>

text \<open>
  The commands that need no data structure, the table from command names to the modelled procedures,
  and \<^verbatim>\<open>processCommand\<close>, which decides whether a command is refused, queued or called.  The record
  \<open>env\<close> holds what the dispatch uses and the model does not define: the procedures of the other
  commands, the type of a stored value, the keys that \<^verbatim>\<open>RANDOMKEY\<close> picks, whether a synchronous save
  succeeds, the eviction of keys (returning whether enough memory is free) and the service of clients
  blocked on lists.
\<close>

record 'v env =
  env_other :: "'v procs"
  env_type :: "'v \<Rightarrow> redis_type"
  env_picks :: "nat list"
  env_save_ok :: bool
  env_freeMemoryIfNeeded :: "'v redisServer \<Rightarrow> 'v redisServer \<times> bool"
  env_handleClientsBlockedOnLists :: "'v redisServer \<Rightarrow> 'v redisServer option"

subsection \<open>Simple commands\<close>

definition REDIS_AUTHPASS_MAX_LEN :: nat where
  "REDIS_AUTHPASS_MAX_LEN = 512"

text \<open>A buffer of the maximal length that holds a text and zeros after it.\<close>

definition auth_buf :: "string \<Rightarrow> int list" where
  "auth_buf t = map schar t @ replicate (REDIS_AUTHPASS_MAX_LEN - length t) 0"

definition time_independent_strcmp :: "string \<Rightarrow> string \<Rightarrow> int" where
  "time_independent_strcmp a b =
     (let ta = c_string a; tb = c_string b; alen = int (length ta); blen = int (length tb) in
      if length ta > REDIS_AUTHPASS_MAX_LEN \<or> length tb > REDIS_AUTHPASS_MAX_LEN then 1
      else or (fold (\<lambda>(x, y) diff. or diff (xor x y)) (zip (auth_buf ta) (auth_buf tb)) 0) (xor alen blen))"

definition authCommand :: "'v redisServer \<Rightarrow> nat \<Rightarrow> 'v redisServer option" where
  "authCommand s c = do {
     cl \<leftarrow> sv_clients s c;
     a \<leftarrow> arg cl 1;
     case sv_requirepass s of
       None \<Rightarrow> Some (addReply s c (R_Error ''Client sent AUTH, but no password is set''))
     | Some pass \<Rightarrow>
         if time_independent_strcmp a pass = 0
         then Some (addReply (upd_client s c (\<lambda>cl. cl\<lparr>c_authenticated := True\<rparr>)) c (R_Status ''OK''))
         else Some (addReply (upd_client s c (\<lambda>cl. cl\<lparr>c_authenticated := False\<rparr>)) c (R_Error ''invalid password''))
   }"

definition pingCommand :: "'v redisServer \<Rightarrow> nat \<Rightarrow> 'v redisServer option" where
  "pingCommand s c = Some (addReply s c (R_Status ''PONG''))"

definition echoCommand :: "'v redisServer \<Rightarrow> nat \<Rightarrow> 'v redisServer option" where
  "echoCommand s c = do {
     cl \<leftarrow> sv_clients s c;
     a \<leftarrow> arg cl 1;
     Some (addReply s c (R_Bulk a))
   }"

definition timeCommand :: "'v redisServer \<Rightarrow> nat \<Rightarrow> 'v redisServer option" where
  "timeCommand s c =
     Some (add_replies [R_MultiBulkLen 2, R_Bulk (snd (ll2string 64 (sv_ustime s div 1000000))),
       R_Bulk (snd (ll2string 64 (sv_ustime s mod 1000000)))] s c)"

definition lastsaveCommand :: "'v redisServer \<Rightarrow> nat \<Rightarrow> 'v redisServer option" where
  "lastsaveCommand s c = Some (addReply s c (R_Int (sv_lastsave s)))"

definition saveCommand :: "bool \<Rightarrow> 'v redisServer \<Rightarrow> nat \<Rightarrow> 'v redisServer option" where
  "saveCommand save_ok s c =
     (if sv_rdb_child s then Some (addReply s c (R_Error ''Background save already in progress''))
      else Some (addReply (rdbSave save_ok s) c (if save_ok then R_Status ''OK'' else R_Error '''')))"

fun slowlog_replies :: "slowlog_reply \<Rightarrow> reply list" where
  "slowlog_replies SL_Ok = [R_Status ''OK'']"
| "slowlog_replies (SL_Int n) = [R_Int n]"
| "slowlog_replies (SL_Error e) = [R_Error e]"
| "slowlog_replies (SL_Entries es) = R_MultiBulkLen (int (length es)) #
     concat (map (\<lambda>se. [R_MultiBulkLen 4, R_Int (se_id se), R_Int (se_time se), R_Int (se_duration se),
       R_MultiBulkLen (int (length (se_argv se)))] @ map R_Bulk (se_argv se)) es)"

text \<open>\<^verbatim>\<open>SLOWLOG\<close> on the log of the server.\<close>

definition slowlog_proc :: "'v redisServer \<Rightarrow> nat \<Rightarrow> 'v redisServer option" where
  "slowlog_proc s c = do {
     cl \<leftarrow> sv_clients s c;
     (sl, r) \<leftarrow> slowlogCommand (sv_slowlog s) (c_argv cl);
     Some (add_replies (slowlog_replies r) (s\<lparr>sv_slowlog := sl\<rparr>) c)
   }"

subsection \<open>The procedures\<close>

text \<open>The column of procedures of the command table, for the modelled commands but \<^verbatim>\<open>EXEC\<close>.\<close>

definition proc_table :: "'v env \<Rightarrow> (string \<times> ('v redisServer \<Rightarrow> nat \<Rightarrow> 'v redisServer option)) list" where
  "proc_table e =
     [(''del'', delCommand),
      (''exists'', existsCommand),
      (''select'', selectCommand),
      (''move'', moveCommand),
      (''rename'', renameCommand),
      (''renamenx'', renamenxCommand),
      (''expire'', expireCommand),
      (''expireat'', expireatCommand),
      (''pexpire'', pexpireCommand),
      (''pexpireat'', pexpireatCommand),
      (''keys'', keysCommand),
      (''dbsize'', dbsizeCommand),
      (''auth'', authCommand),
      (''ping'', pingCommand),
      (''echo'', echoCommand),
      (''save'', saveCommand (env_save_ok e)),
      (''lastsave'', lastsaveCommand),
      (''type'', typeCommand (env_type e)),
      (''multi'', multiCommand),
      (''discard'', discardCommand),
      (''flushdb'', flushdbCommand),
      (''flushall'', flushallCommand (env_save_ok e)),
      (''randomkey'', randomkeyCommand (env_picks e)),
      (''ttl'', ttlCommand),
      (''pttl'', pttlCommand),
      (''persist'', persistCommand),
      (''subscribe'', subscribeCommand),
      (''unsubscribe'', unsubscribeCommand),
      (''psubscribe'', psubscribeCommand),
      (''punsubscribe'', punsubscribeCommand),
      (''publish'', publishCommand),
      (''watch'', watchCommand),
      (''unwatch'', unwatchCommand),
      (''slowlog'', slowlog_proc),
      (''time'', timeCommand)]"

definition base_procs :: "'v env \<Rightarrow> 'v procs" where
  "base_procs e name = (case map_of (proc_table e) name of Some p \<Rightarrow> p | None \<Rightarrow> env_other e name)"

text \<open>\<^verbatim>\<open>EXEC\<close> is never queued, so the commands it calls are the others.\<close>

definition redis_procs :: "'v env \<Rightarrow> 'v procs" where
  "redis_procs e name = (if name = ''exec'' then execCommand (base_procs e) else base_procs e name)"

subsection \<open>\<^verbatim>\<open>processCommand\<close>\<close>

definition reject :: "string \<Rightarrow> 'v redisServer \<Rightarrow> nat \<Rightarrow> ('v redisServer \<times> bool) option" where
  "reject msg s c = Some (addReply s c (R_Error msg), True)"

definition reject_flagged :: "string \<Rightarrow> 'v redisServer \<Rightarrow> nat \<Rightarrow> ('v redisServer \<times> bool) option" where
  "reject_flagged msg s c = reject msg (flagTransaction s c) c"

text \<open>The first character of an argument, lower case, with the terminator of an empty one.\<close>

definition first_char :: "string \<Rightarrow> char" where
  "first_char t = tolower (case t of [] \<Rightarrow> NUL | x # _ \<Rightarrow> x)"

text \<open>The commands that a slow script lets through.\<close>

definition passes_script :: "redisCommand \<Rightarrow> string list \<Rightarrow> bool" where
  "passes_script cmd argv \<longleftrightarrow>
     rc_name cmd = ''auth'' \<or>
     (rc_name cmd = ''shutdown'' \<and> length argv = 2 \<and> first_char (argv ! 1) = CHR ''n'') \<or>
     (rc_name cmd = ''script'' \<and> length argv = 2 \<and> first_char (argv ! 1) = CHR ''k'')"

text \<open>The execution step: queue inside a transaction, call otherwise.\<close>

definition run_command :: "'v env \<Rightarrow> redisCommand \<Rightarrow> 'v redisServer \<Rightarrow> nat \<Rightarrow> ('v redisServer \<times> bool) option" where
  "run_command e cmd s c = do {
     cl \<leftarrow> sv_clients s c;
     if c_multi cl \<and> rc_name cmd \<notin> {''exec'', ''discard'', ''multi'', ''watch''} then do {
       s1 \<leftarrow> queueMultiCommand s c;
       Some (addReply s1 c (R_Status ''QUEUED''), True)
     } else do {
       s1 \<leftarrow> call (redis_procs e) s c True True True;
       s2 \<leftarrow> (if sv_ready_keys s1 \<noteq> 0 then env_handleClientsBlockedOnLists e s1 else Some s1);
       Some (s2, True)
     }
   }"

text \<open>The texts of the shared error replies.\<close>

definition shared_oomerr :: string where
  "shared_oomerr = ''OOM command not allowed when used memory > '' @ [CHR 0x27] @ ''maxmemory'' @ [CHR 0x27] @ ''.''"

definition shared_bgsaveerr :: string where
  "shared_bgsaveerr = ''MISCONF Redis is configured to save RDB snapshots, but is currently not able to persist on disk. Commands that may modify the data set are disabled. Please check Redis logs for details about the error.''"

definition shared_roslaveerr :: string where
  "shared_roslaveerr = ''READONLY You can'' @ [CHR 0x27] @ ''t write against a read only slave.''"

definition shared_masterdownerr :: string where
  "shared_masterdownerr =
     ''MASTERDOWN Link with MASTER is down and slave-serve-stale-data is set to '' @ [CHR 0x27] @ ''no'' @ [CHR 0x27] @ ''.''"

definition shared_loadingerr :: string where
  "shared_loadingerr = ''LOADING Redis is loading the dataset in memory''"

definition shared_slowscripterr :: string where
  "shared_slowscripterr =
     ''BUSY Redis is busy running a script. You can only call SCRIPT KILL or SHUTDOWN NOSAVE.''"

text \<open>The checks from the memory on; the results are \<open>True\<close> for \<^verbatim>\<open>REDIS_OK\<close>.\<close>

definition admit_command ::
  "'v env \<Rightarrow> redisClient \<Rightarrow> redisCommand \<Rightarrow> bool \<Rightarrow> 'v redisServer \<Rightarrow> nat \<Rightarrow> ('v redisServer \<times> bool) option" where
  "admit_command e cl cmd mem_ok s c =
     (if rc_denyoom cmd \<and> \<not> mem_ok then reject_flagged shared_oomerr s c
      else if sv_stop_writes_on_bgsave_err s \<and> sv_saveparamslen s > 0 \<and> \<not> sv_lastbgsave_ok s \<and> rc_write cmd then
        reject_flagged shared_bgsaveerr s c
      else if sv_masterhost s \<and> sv_repl_slave_ro s \<and> \<not> c_master cl \<and> rc_write cmd then
        reject shared_roslaveerr s c
      else if (c_pubsub_channels cl \<noteq> [] \<or> c_pubsub_patterns cl \<noteq> []) \<and>
          rc_name cmd \<notin> {''subscribe'', ''unsubscribe'', ''psubscribe'', ''punsubscribe''} then
        reject ''only (P)SUBSCRIBE / (P)UNSUBSCRIBE / QUIT allowed in this context'' s c
      else if sv_masterhost s \<and> \<not> sv_repl_connected s \<and> \<not> sv_repl_serve_stale_data s \<and> \<not> rc_stale cmd then
        reject_flagged shared_masterdownerr s c
      else if sv_loading s \<and> \<not> rc_loading cmd then
        reject shared_loadingerr s c
      else if sv_lua_timedout s \<and> \<not> passes_script cmd (c_argv cl) then
        reject_flagged shared_slowscripterr s c
      else run_command e cmd s c)"

definition processCommand :: "'v env \<Rightarrow> 'v redisServer \<Rightarrow> nat \<Rightarrow> ('v redisServer \<times> bool) option" where
  "processCommand e s c = do {
     cl \<leftarrow> sv_clients s c;
     name \<leftarrow> arg cl 0;
     if strcaseeq name ''quit'' then
       Some (upd_client (addReply s c (R_Status ''OK'')) c (\<lambda>cl. cl\<lparr>c_close_after_reply := True\<rparr>), False)
     else do {
       let s1 = upd_client s c (\<lambda>cl. cl\<lparr>c_cmd := lookupCommand name\<rparr>);
       case lookupCommand name of
         None \<Rightarrow> reject_flagged (''unknown command '' @ [CHR 0x27] @ c_string name @ [CHR 0x27]) s1 c
       | Some cmd \<Rightarrow>
           if \<not> arity_ok cmd (int (length (c_argv cl))) then
             reject_flagged (''wrong number of arguments for '' @ [CHR 0x27] @ rc_name cmd @ [CHR 0x27] @ '' command'') s1 c
           else if sv_requirepass s1 \<noteq> None \<and> \<not> c_authenticated cl \<and> rc_name cmd \<noteq> ''auth'' then
             reject_flagged ''operation not permitted'' s1 c
           else do {
             let (s2, mem_ok) = (if sv_maxmemory s1 then env_freeMemoryIfNeeded e s1 else (s1, True));
             admit_command e cl cmd mem_ok s2 c
           }
     }
   }"

subsection \<open>Contracts of the procedures\<close>

text \<open>What the publish and subscribe commands change: replies and subscriptions only.\<close>

definition watch_view :: "redisClient \<Rightarrow> (string \<times> nat) list \<times> bool \<times> nat" where
  "watch_view cl = (c_watched_keys cl, c_dirty_cas cl, c_db cl)"

definition light :: "nat \<Rightarrow> 'v redisServer \<Rightarrow> 'v redisServer \<Rightarrow> bool" where
  "light c s s' \<longleftrightarrow> sv_db s' = sv_db s \<and> sv_slowlog s' = sv_slowlog s \<and> sv_aof s' = sv_aof s \<and>
     sv_aof_on s' = sv_aof_on s \<and> sv_also_propagate s' = sv_also_propagate s \<and> sv_dirty s' = sv_dirty s \<and>
     (\<forall>c'. map_option watch_view (sv_clients s' c') = map_option watch_view (sv_clients s c')) \<and>
     (\<forall>c'. c' \<noteq> c \<longrightarrow> map_option bare (sv_clients s' c') = map_option bare (sv_clients s c'))"

lemma light_refl: "light c s s"
  by (simp add: light_def)

lemma light_trans: "light c s t \<Longrightarrow> light c t u \<Longrightarrow> light c s u"
  by (simp add: light_def)

lemma light_watch_ok:
  assumes "light c s s'"
  shows "watch_ok s' = watch_ok s"
proof -
  have db: "sv_db s' = sv_db s" using assms by (simp add: light_def)
  have w: "watchers s' = watchers s" by (simp add: watchers_def get_db_def db fun_eq_iff)
  have t: "tables_ok s' = tables_ok s" by (simp add: tables_ok_def get_db_def db)
  have v: "map_option watch_view (sv_clients s' x) = map_option watch_view (sv_clients s x)" for x
    using assms by (simp add: light_def)
  have "(\<exists>cl. sv_clients s' x = Some cl \<and> (k, d) \<in> set (c_watched_keys cl)) \<longleftrightarrow>
      (\<exists>cl. sv_clients s x = Some cl \<and> (k, d) \<in> set (c_watched_keys cl))" for x k d
    using v [of x] by (cases "sv_clients s x"; cases "sv_clients s' x") (auto simp: watch_view_def)
  moreover have "(\<forall>cl. sv_clients s' x = Some cl \<longrightarrow> distinct (c_watched_keys cl) \<and> c_db cl < n) \<longleftrightarrow>
      (\<forall>cl. sv_clients s x = Some cl \<longrightarrow> distinct (c_watched_keys cl) \<and> c_db cl < n)" for x n
    using v [of x] by (cases "sv_clients s x"; cases "sv_clients s' x") (auto simp: watch_view_def)
  ultimately show ?thesis unfolding watch_ok_def by (simp add: w t db)
qed

lemma light_ctr: "light c s s' \<Longrightarrow> ctr c s s'"
proof -
  assume l: "light c s s'"
  have "cas_mono x s s'" for x
  proof -
    have "map_option watch_view (sv_clients s' x) = map_option watch_view (sv_clients s x)"
      using l by (simp add: light_def)
    then show ?thesis
      unfolding cas_mono_def by (cases "sv_clients s x"; cases "sv_clients s' x") (auto simp: watch_view_def)
  qed
  then show ?thesis
    using l light_watch_ok [OF l]
    by (auto simp: ctr_def tx_ctr_def aof_ctr_def aof_step_def server_ok_def db_ok_def light_def)
qed

lemma light_client:
  assumes "\<And>cl. watch_view (f cl) = watch_view cl"
  shows "light c s (upd_client s c f)"
  using assms by (auto simp: light_def option.map_comp o_def) (simp_all add: upd_client_def)

lemma watch_view_reply [simp]: "watch_view (cl\<lparr>c_reply := rs\<rparr>) = watch_view cl"
  by (simp add: watch_view_def)

lemma light_replies: "light c s (add_replies rs s x)"
  by (auto simp: light_def add_replies_def option.map_comp o_def) (simp_all add: upd_client_def)

lemma light_tables:
  "light c s s' \<Longrightarrow> light c s (s'\<lparr>sv_pubsub_channels := a\<rparr>)" "light c s s' \<Longrightarrow> light c s (s'\<lparr>sv_pubsub_patterns := b\<rparr>)"
  by (simp_all add: light_def)

lemma light_notify: "light c s s' \<Longrightarrow> light c s (pubsub_notify k w s' c)"
  unfolding pubsub_notify_def by (rule light_trans [OF _ light_client]) (simp_all add: watch_view_def)

lemma light_channels:
  "light c s (upd_client s c (\<lambda>cl. cl\<lparr>c_pubsub_channels := f cl\<rparr>))"
  "light c s (upd_client s c (\<lambda>cl. cl\<lparr>c_pubsub_patterns := f cl\<rparr>))"
  by (rule light_client, simp add: watch_view_def)+

lemmas light_rules = light_refl light_tables light_notify light_channels

lemma subscribe_light:
  "ensures (pubsubSubscribeChannel s c ch) (\<lambda>(s', n). light c s s')"
  "ensures (pubsubUnsubscribeChannel s c ch b) (\<lambda>(s', n). light c s s')"
  "ensures (pubsubSubscribePattern s c ch) (\<lambda>(s', n). light c s s')"
  "ensures (pubsubUnsubscribePattern s c ch b) (\<lambda>(s', n). light c s s')"
  by (auto simp: ensures_def pubsubSubscribeChannel_def pubsubUnsubscribeChannel_def pubsubSubscribePattern_def
      pubsubUnsubscribePattern_def Let_def intro!: light_rules split: bind_splits if_splits)

lemma sum_calls_light:
  assumes "\<And>s x. ensures (f s x) (\<lambda>(s', n). light c s s')"
  shows "ensures (sum_calls f s xs) (\<lambda>(s', n). light c s s')"
proof (induction xs arbitrary: s)
  case (Cons x xs)
  show ?case
    using assms [of s x] Cons
    by (auto simp: ensures_def split: bind_splits) (blast intro: light_trans)
qed (simp add: light_refl)

lemma subscribe_all_light:
  "ensures (sum_calls (\<lambda>s ch. pubsubSubscribeChannel s c ch) s chs) (\<lambda>(s', n). light c s s')"
  "ensures (sum_calls (\<lambda>s ch. pubsubUnsubscribeChannel s c ch b) s chs) (\<lambda>(s', n). light c s s')"
  "ensures (sum_calls (\<lambda>s ch. pubsubSubscribePattern s c ch) s chs) (\<lambda>(s', n). light c s s')"
  "ensures (sum_calls (\<lambda>s ch. pubsubUnsubscribePattern s c ch b) s chs) (\<lambda>(s', n). light c s s')"
  by (rule sum_calls_light, rule subscribe_light)+

lemma light_ctrI: "ensures m (\<lambda>(s', n). light c s s') \<Longrightarrow> ensures (map_option fst m) (ctr c s)"
  by (auto simp: ensures_def dest: light_ctr)

lemma pubsub_procs_ctr:
  "ensures (subscribeCommand s c) (ctr c s)" "ensures (unsubscribeCommand s c) (ctr c s)"
  "ensures (psubscribeCommand s c) (ctr c s)" "ensures (punsubscribeCommand s c) (ctr c s)"
proof -
  have all: "ensures (pubsubUnsubscribeAllChannels s c True) (\<lambda>(s', n). light c s s')"
    "ensures (pubsubUnsubscribeAllPatterns s c True) (\<lambda>(s', n). light c s s')"
    unfolding pubsubUnsubscribeAllChannels_def pubsubUnsubscribeAllPatterns_def
    by (rule ensures_bind, rule ensures_any, rule ensures_bind, rule ensures_mono, rule subscribe_all_light,
        auto intro!: light_notify)+
  show "ensures (subscribeCommand s c) (ctr c s)" "ensures (unsubscribeCommand s c) (ctr c s)"
    "ensures (psubscribeCommand s c) (ctr c s)" "ensures (punsubscribeCommand s c) (ctr c s)"
    unfolding subscribeCommand_def unsubscribeCommand_def psubscribeCommand_def punsubscribeCommand_def
    by (intro ensures_bind ensures_any ensures_if light_ctrI subscribe_all_light all)+
qed

lemma publishCommand_ctr: "ensures (publishCommand s c) (ctr c s)"
proof -
  have m: "light c s (fold (\<lambda>x s. add_replies rs s x) xs s)" for rs xs and s :: "'a redisServer"
    by (induction xs arbitrary: s) (auto intro: light_refl light_trans [OF light_replies])
  have p: "ensures (publish_pattern ch msg s p) (\<lambda>(s', n). light c s s')" for ch msg p and s :: "'a redisServer"
    by (auto simp: ensures_def publish_pattern_def intro: light_replies light_refl split: bind_splits if_splits)
  have ps: "ensures (sum_calls (publish_pattern ch msg) s xs) (\<lambda>(s', n). light c s s')" for ch msg xs and s :: "'a redisServer"
    by (rule sum_calls_light, rule p)
  have "ensures (pubsubPublishMessage s ch msg) (\<lambda>(s', n). light c s s')" for ch msg
    unfolding pubsubPublishMessage_def Let_def
    by (rule ensures_bind, rule ensures_mono [OF ps]) (auto intro: light_trans [OF m])
  then have "ensures (do { (s1, n) \<leftarrow> pubsubPublishMessage s ch msg; Some (addReply s1 c (R_Int (int n))) }) (ctr c s)" for ch msg
    by (rule ensures_bind [OF ensures_mono]) (auto intro: ctr_trans [OF light_ctr reply_ctr])
  then show ?thesis
    unfolding publishCommand_def by (intro ensures_bind [OF ensures_any]) (auto split: list.split)
qed

lemma simple_procs_ctr:
  "ensures (authCommand s c) (ctr c s)" "ensures (pingCommand s c) (ctr c s)" "ensures (echoCommand s c) (ctr c s)"
  "ensures (timeCommand s c) (ctr c s)" "ensures (lastsaveCommand s c) (ctr c s)"
proof -
  have "ctr c s (addReply (upd_client s c (\<lambda>cl. cl\<lparr>c_authenticated := b\<rparr>)) c r)" for b r
    by (intro ctr_steps upd_client_ctr) simp
  then show "ensures (authCommand s c) (ctr c s)"
    by (auto simp: ensures_def authCommand_def intro: ctr_steps ctr_refl split: bind_splits option.splits if_splits)
  show "ensures (pingCommand s c) (ctr c s)" "ensures (echoCommand s c) (ctr c s)" "ensures (lastsaveCommand s c) (ctr c s)"
    unfolding pingCommand_def echoCommand_def lastsaveCommand_def by (intro ens_struct ctr_steps ctr_refl)+
  show "ensures (timeCommand s c) (ctr c s)"
    unfolding timeCommand_def by (intro ens_struct light_ctr light_replies)
qed

lemma saveCommand_ctr: "ensures (saveCommand b s c) (tx_ctr c s)"
  unfolding saveCommand_def
  by (intro ens_struct tx_ctr_trans [OF _ reply_ctr [unfolded ctr_def, THEN conjunct1]] tx_ctr_save tx_ctr_refl)

lemma slowlogCommand_ok: "slowlog_ok sl \<Longrightarrow> slowlogCommand sl argv = Some (sl', r) \<Longrightarrow> slowlog_ok sl'"
proof -
  assume "slowlog_ok sl" and run: "slowlogCommand sl argv = Some (sl', r)"
  then obtain es where "slowlog_rep sl es" by (auto simp: slowlog_ok_def)
  then obtain h l where "slowlogReset sl = Some (sl\<lparr>sl_heap := h, sl_list := l\<rparr>)" "values_rep (h, l) []"
    using slq.trim_take [of "(sl_heap sl, sl_list sl)" es 0] by (auto simp: slowlog_rep_def slowlogReset_def)
  moreover from this have "slowlog_ok (sl\<lparr>sl_heap := h, sl_list := l\<rparr>)"
    by (auto simp: slowlog_ok_def slowlog_rep_def)
  ultimately show ?thesis
    using run \<open>slowlog_ok sl\<close> by (auto simp: slowlogCommand_def split: if_splits sum.splits bind_splits)
qed

lemma slowlog_proc_ctr: "ensures (slowlog_proc s c) (ctr c s)"
proof -
  have "ctr c s (s\<lparr>sv_slowlog := sl\<rparr>)" if "slowlogCommand (sv_slowlog s) argv = Some (sl, r)" for argv sl r
    using slowlogCommand_ok [OF _ that] watch_ok_cong [of "s\<lparr>sv_slowlog := sl\<rparr>" s]
    by (auto simp: ctr_def tx_ctr_def aof_ctr_def aof_step_def server_ok_def db_ok_def cas_mono_same)
  then show ?thesis
    unfolding slowlog_proc_def
    by (auto simp: ensures_def split: bind_splits) (blast intro: ctr_trans light_ctr light_replies)
qed

text \<open>The commands of \<^verbatim>\<open>multi.c\<close>: \<^verbatim>\<open>UNWATCH\<close> and \<^verbatim>\<open>DISCARD\<close> end the watches of their own client.\<close>

definition feeds :: "nat \<Rightarrow> 'v redisServer \<Rightarrow> 'v redisServer \<Rightarrow> bool" where
  "feeds c s s' \<longleftrightarrow> sv_aof s' = sv_aof s \<and> sv_aof_on s' = sv_aof_on s \<and> sv_also_propagate s' = sv_also_propagate s \<and> sv_dirty s' = sv_dirty s \<and>
     (\<forall>c'. c' \<noteq> c \<longrightarrow> sv_clients s' c' = sv_clients s c')"

lemma feeds_refl: "feeds c s s"
  by (simp add: feeds_def)

lemma feeds_trans: "feeds c s t \<Longrightarrow> feeds c t u \<Longrightarrow> feeds c s u"
  by (simp add: feeds_def)

lemma feeds_client: "feeds c s (upd_client s c f)"
  by (simp add: feeds_def) (simp add: upd_client_def)

lemma feeds_reply: "feeds c s (addReply s c r)"
  unfolding addReply_def by (rule feeds_client)

lemma feeds_db: "feeds c s (upd_db s d f)"
  by (simp add: feeds_def) (simp add: upd_db_def)

lemma watchForKey_feeds: "ensures (watchForKey s c k) (feeds c s)"
  by (auto simp: ensures_def watchForKey_def Let_def feeds_refl split: bind_splits if_splits
      intro!: feeds_trans [OF feeds_db feeds_client])

lemma unwatch_key_feeds: "ensures (unwatch_key c s wk) (feeds c s)"
  by (cases wk) (auto simp: ensures_def unwatch_key_def Let_def split: bind_splits if_splits
      intro!: feeds_trans [OF feeds_db feeds_client])

lemma unwatchAllKeys_feeds: "ensures (unwatchAllKeys s c) (feeds c s)"
  unfolding unwatchAllKeys_def
  by (rule ensures_bind, rule ensures_any, rule ensures_run) (auto intro: feeds_refl feeds_trans unwatch_key_feeds)

lemma discardTransaction_feeds: "ensures (discardTransaction s c) (feeds c s)"
  unfolding discardTransaction_def
  by (rule ensures_mono [OF unwatchAllKeys_feeds]) (rule feeds_trans [OF feeds_client])

lemma multi_procs_feeds:
  "ensures (watchCommand s c) (feeds c s)" "ensures (unwatchCommand s c) (feeds c s)"
  "ensures (discardCommand s c) (feeds c s)" "ensures (multiCommand s c) (feeds c s)"
proof -
  have w: "ensures (run_option (\<lambda>s key. watchForKey s c key) s ks) (feeds c s)" for ks
    by (rule ensures_run) (auto intro: feeds_refl feeds_trans watchForKey_feeds)
  show "ensures (watchCommand s c) (feeds c s)"
    unfolding watchCommand_def
    by (intro ensures_bind ensures_any ensures_if ensures_SomeI feeds_reply ensures_mono [OF w] feeds_trans [OF _ feeds_reply])
  show "ensures (unwatchCommand s c) (feeds c s)"
    unfolding unwatchCommand_def
    by (intro ensures_bind ensures_mono [OF unwatchAllKeys_feeds] ensures_SomeI)
       (rule feeds_trans [OF feeds_trans [OF _ feeds_client] feeds_reply])
  show "ensures (discardCommand s c) (feeds c s)"
    unfolding discardCommand_def
    by (intro ensures_bind ensures_any ensures_if ensures_SomeI feeds_reply ensures_mono [OF discardTransaction_feeds]
        feeds_trans [OF _ feeds_reply])
  show "ensures (multiCommand s c) (feeds c s)"
    unfolding multiCommand_def
    by (intro ensures_bind ensures_any ensures_if ensures_SomeI feeds_reply feeds_trans [OF feeds_client feeds_reply])
qed

lemma feeds_aof_ctr: "feeds c s s' \<Longrightarrow> aof_ctr s s'"
  by (simp add: feeds_def aof_ctr_def aof_step_def)

lemma keeps_tx_ctr:
  "feeds c s s' \<Longrightarrow> (\<And>x. server_ok s \<Longrightarrow> keeps x (ETouch 0 []) s s') \<Longrightarrow> tx_ctr c s s'"
  by (simp add: tx_ctr_def feeds_def keeps_def ends_watch_def)

lemma multi_watch_ctr: "ensures (multiCommand s c) (ctr c s)" "ensures (watchCommand s c) (ctr c s)"
  using multi_procs_feeds(1,4) [of s c] keeps_watch keeps_multi
  by (auto simp: ensures_def ctr_def feeds_aof_ctr intro!: keeps_tx_ctr)

text \<open>The two contracts of the whole table.\<close>

lemmas table_ctrs = delCommand_ctr existsCommand_ctr selectCommand_ctr moveCommand_ctr
  renameGenericCommand_ctr [of _ _ False, folded renameCommand_def]
  renameGenericCommand_ctr [of _ _ True, folded renamenxCommand_def]
  keysCommand_ctr dbsizeCommand_ctr simple_procs_ctr typeCommand_ctr multi_watch_ctr flushdbCommand_ctr
  randomkeyCommand_ctr persistCommand_ctr pubsub_procs_ctr publishCommand_ctr slowlog_proc_ctr
  ttlGenericCommand_ctr [of _ _ False, folded ttlCommand_def] ttlGenericCommand_ctr [of _ _ True, folded pttlCommand_def]

lemma expire_ctrs:
  "ensures (expireCommand s c) (ctr c s)" "ensures (expireatCommand s c) (ctr c s)"
  "ensures (pexpireCommand s c) (ctr c s)" "ensures (pexpireatCommand s c) (ctr c s)"
  by (simp_all add: expireCommand_def expireatCommand_def pexpireCommand_def pexpireatCommand_def expireGenericCommand_ctr)

lemma proc_table_all:
  "list_all (\<lambda>(n, p). n \<in> {''unwatch'', ''discard'', ''save'', ''flushall''} \<or> (\<forall>s c. ensures (p s c) (ctr c s))) (proc_table e)"
  unfolding proc_table_def by (simp add: table_ctrs expire_ctrs)

lemma proc_table_ctr:
  assumes "map_of (proc_table e) n = Some p" and "n \<notin> {''unwatch'', ''discard'', ''save'', ''flushall''}"
  shows "ensures (p s c) (ctr c s)"
  using map_of_SomeD [OF assms(1)] proc_table_all [of e] assms(2) by (force simp: list_all_iff)

lemma proc_table_tx:
  assumes "map_of (proc_table e) n = Some p" and "n \<notin> {''unwatch'', ''discard''}"
  shows "ensures (p s c) (tx_ctr c s)"
proof (cases "n \<in> {''save'', ''flushall''}")
  case True
  then show ?thesis
    using assms(1) saveCommand_ctr flushallCommand_ctr by (auto simp: proc_table_def)
next
  case False
  then show ?thesis
    using proc_table_ctr [OF assms(1), of s c] assms(2) by (auto simp: ensures_def ctr_def)
qed

subsection \<open>The dispatcher keeps the invariant\<close>

definition any_ctr :: "'v redisServer \<Rightarrow> 'v redisServer \<Rightarrow> bool" where
  "any_ctr s s' \<longleftrightarrow> (server_ok s \<longrightarrow> server_ok s' \<and> (\<forall>c. cas_mono c s s'))"

lemma any_ctr_refl: "any_ctr s s"
  by (simp add: any_ctr_def cas_mono_same)

lemma any_ctr_trans: "any_ctr s t \<Longrightarrow> any_ctr t u \<Longrightarrow> any_ctr s u"
  unfolding any_ctr_def by (metis cas_mono_trans)

lemma tx_any: "tx_ctr c s s' \<Longrightarrow> any_ctr s s'"
  by (simp add: tx_ctr_def any_ctr_def)

lemma any_client:
  assumes "\<And>cl. c_watched_keys (f cl) = c_watched_keys cl \<and> c_db (f cl) = c_db cl \<and> (c_dirty_cas cl \<longrightarrow> c_dirty_cas (f cl))"
  shows "any_ctr s (upd_client s c f)"
  using assms by (auto simp: any_ctr_def cas_mono_def intro!: server_ok_client)

lemma any_reply: "any_ctr s (addReply s c r)"
  unfolding addReply_def by (rule any_client) simp

lemma any_flag: "any_ctr s (flagTransaction s c)"
  unfolding flagTransaction_def by (rule any_client) simp

lemma reject_any: "ensures (reject msg s c) (\<lambda>(s', b). any_ctr s s')" "ensures (reject_flagged msg s c) (\<lambda>(s', b). any_ctr s s')"
  by (auto simp: reject_def reject_flagged_def intro: any_reply any_ctr_trans [OF any_flag])

lemma queue_any: "ensures (queueMultiCommand s c) (any_ctr s)"
  by (auto simp: ensures_def queueMultiCommand_def split: bind_splits intro!: any_client)

text \<open>What a call does to the clients and the data is what its procedure does.\<close>

lemma call_runs:
  assumes "call proc s c f1 f2 f3 = Some s'"
  shows "\<exists>cl cmd s2. sv_clients s c = Some cl \<and> c_cmd cl = Some cmd \<and>
    proc (rc_name cmd) (call_pre cmd cl s) c = Some s2 \<and> sv_clients s' = sv_clients s2 \<and> sv_db s' = sv_db s2 \<and>
    sv_dirty s' = sv_dirty s2"
  using assms
  by (auto simp: call_def call_slowlog_def call_stats_def call_propagate_def Let_def split: bind_splits if_splits)

lemma call_pre_any: "any_ctr s (call_pre cmd cl s)"
  using server_ok_cong [of "call_pre cmd cl s" s] by (simp add: any_ctr_def cas_mono_same)

lemma bare_cmd: "bare a = bare b \<Longrightarrow> c_cmd a = c_cmd b"
  by (drule arg_cong [where f = c_cmd]) (simp add: bare_def)

text \<open>The names of the commands that end the watches of their own client.\<close>

definition ends_own :: "string set" where
  "ends_own = {''exec'', ''discard'', ''unwatch''}"

locale redis_env =
  fixes e :: "'v env"
  assumes other_ctr: "ensures (env_other e n s c) (tx_ctr c s)"
    and mem_ctr: "any_ctr s (fst (env_freeMemoryIfNeeded e s))"
    and mem_clients: "map_option bare (sv_clients (fst (env_freeMemoryIfNeeded e s)) c) = map_option bare (sv_clients s c)"
    and blocked_ctr: "ensures (env_handleClientsBlockedOnLists e s) (any_ctr s)"
begin

lemma base_ctr:
  assumes "n \<notin> {''unwatch'', ''discard''}"
  shows "ensures (base_procs e n s c) (tx_ctr c s)"
  using proc_table_tx [OF _ assms, of e _ s c] other_ctr by (auto simp: base_procs_def split: option.split)

lemma base_keeps:
  assumes ok: "server_ok s" and run: "base_procs e n s c = Some s'"
  shows "server_ok s' \<and> (\<forall>c'. c' \<noteq> c \<longrightarrow> cas_mono c' s s')"
proof (cases "n \<in> {''unwatch'', ''discard''}")
  case True
  have "base_procs e ''unwatch'' = unwatchCommand" "base_procs e ''discard'' = discardCommand"
    by (simp_all add: base_procs_def proc_table_def)
  then consider "unwatchCommand s c = Some s'" | "discardCommand s c = Some s'" using True run by auto
  then show ?thesis
    using keeps_unwatch [OF ok] keeps_discard [OF ok] by cases (auto simp: keeps_def ends_watch_def)
next
  case False
  then show ?thesis using ensuresD [OF base_ctr run] ok by (simp add: tx_ctr_def)
qed

end

sublocale redis_env \<subseteq> queued: tx_procs "base_procs e"
  by unfold_locales (use base_keeps in blast)+

context redis_env
begin

lemma redis_keeps:
  assumes ok: "server_ok s" and run: "redis_procs e n s c = Some s'"
  shows "server_ok s' \<and> (\<forall>c'. c' \<noteq> c \<longrightarrow> cas_mono c' s s')"
proof (cases "n = ''exec''")
  case True
  then have "keeps x (EExec c) s s'" for x using run queued.keeps_exec [OF ok] by (simp add: redis_procs_def)
  then show ?thesis by (auto simp: keeps_def ends_watch_def)
next
  case False
  then show ?thesis using run base_keeps [OF ok] by (simp add: redis_procs_def)
qed

end

sublocale redis_env \<subseteq> procs: tx_procs "redis_procs e"
  by unfold_locales (use redis_keeps in blast)+

context redis_env
begin

lemma call_own:
  assumes ok: "server_ok s" and run: "call (redis_procs e) s c f1 f2 f3 = Some s'"
    and c: "sv_clients s c = Some cl" "c_cmd cl = Some cmd" and n: "rc_name cmd \<notin> ends_own"
  shows "cas_mono c s s'"
proof -
  obtain s2 where s2: "redis_procs e (rc_name cmd) (call_pre cmd cl s) c = Some s2" "sv_clients s' = sv_clients s2"
    using call_runs [OF run] c by auto
  then have "base_procs e (rc_name cmd) (call_pre cmd cl s) c = Some s2" using n by (simp add: redis_procs_def ends_own_def)
  then have "tx_ctr c (call_pre cmd cl s) s2" by (rule ensuresD [OF base_ctr, rotated]) (use n in \<open>simp add: ends_own_def\<close>)
  then have "any_ctr s s2" by (rule any_ctr_trans [OF call_pre_any tx_any])
  then have "cas_mono c s s2" using ok by (simp add: any_ctr_def)
  then show ?thesis using s2(2) by (simp add: cas_mono_def)
qed

lemma run_command_keeps:
  assumes ok: "server_ok s" and c: "sv_clients s c = Some cl" "c_cmd cl = Some cmd"
    and run: "run_command e cmd s c = Some (s', b)"
  shows "server_ok s' \<and> (\<forall>c'. c' \<noteq> c \<or> rc_name cmd \<notin> ends_own \<longrightarrow> cas_mono c' s s')"
proof (cases "c_multi cl \<and> rc_name cmd \<notin> {''exec'', ''discard'', ''multi'', ''watch''}")
  case True
  then obtain s1 where "queueMultiCommand s c = Some s1" "s' = addReply s1 c (R_Status ''QUEUED'')"
    using run c by (auto simp: run_command_def split: bind_splits)
  then have "any_ctr s s'" using ensuresD [OF queue_any] any_ctr_trans any_reply by blast
  then show ?thesis using ok by (simp add: any_ctr_def)
next
  case False
  then obtain s1 where s1: "call (redis_procs e) s c True True True = Some s1"
    "(if sv_ready_keys s1 \<noteq> 0 then env_handleClientsBlockedOnLists e s1 else Some s1) = Some s'"
    using run c by (auto simp: run_command_def split: bind_splits if_splits)
  have ok1: "server_ok s1" "\<And>c'. c' \<noteq> c \<Longrightarrow> cas_mono c' s s1" using procs.call_ok [OF ok s1(1)] by blast+
  have "any_ctr s1 s'" using s1(2) ensuresD [OF blocked_ctr] any_ctr_refl by (auto split: if_splits)
  then have s': "server_ok s'" "\<And>c'. cas_mono c' s1 s'" using ok1(1) by (auto simp: any_ctr_def)
  have "cas_mono c' s s'" if "c' \<noteq> c \<or> rc_name cmd \<notin> ends_own" for c'
  proof (rule cas_mono_trans [OF _ s'(2)])
    show "cas_mono c' s s1" using that ok1(2) call_own [OF ok s1(1) c] by (cases "c' = c") auto
  qed
  then show ?thesis using s'(1) by blast
qed


text \<open>Whatever \<^verbatim>\<open>processCommand\<close> does keeps the invariant and the watches and marks of the other clients,
  and those of the client itself unless its command ends them.\<close>

lemma processCommand_keeps:
  assumes ok: "server_ok s" and c: "sv_clients s c = Some cl"
  shows "ensures (processCommand e s c) (\<lambda>(s', b). server_ok s' \<and>
    (\<forall>c'. c' \<noteq> c \<or> (\<forall>cmd. lookupCommand (c_argv cl ! 0) = Some cmd \<longrightarrow> rc_name cmd \<notin> ends_own) \<longrightarrow> cas_mono c' s s'))"
    (is "ensures _ (\<lambda>(s', b). ?K s')")
proof -
  let ?s1 = "\<lambda>name. upd_client s c (\<lambda>cl. cl\<lparr>c_cmd := lookupCommand name\<rparr>)"
  have K: "any_ctr s s' \<Longrightarrow> ?K s'" for s' using ok by (simp add: any_ctr_def)
  have rej: "any_ctr s t \<Longrightarrow> ensures (reject m t c) (\<lambda>(s', b). ?K s')"
    "any_ctr s t \<Longrightarrow> ensures (reject_flagged m t c) (\<lambda>(s', b). ?K s')" for m t
    using reject_any [of m t c] K any_ctr_trans by (auto simp: ensures_def reject_flagged_def reject_def)
  have quit: "?K (upd_client (addReply s c r) c (\<lambda>cl. cl\<lparr>c_close_after_reply := True\<rparr>))" for r
    by (intro K any_ctr_trans [OF any_reply any_client]) simp
  have a1: "any_ctr s (?s1 name)" for name by (rule any_client) simp
  have a2: "any_ctr s s2" if "(if sv_maxmemory (?s1 name) then env_freeMemoryIfNeeded e (?s1 name) else (?s1 name, True)) = (s2, m)" for name s2 m
    using that mem_ctr [of "?s1 name"] any_ctr_trans [OF a1] a1 [of name] by (cases "sv_maxmemory (?s1 name)") auto
  have run: "ensures (run_command e cmd s2 c) (\<lambda>(s', b). ?K s')"
    if name: "arg cl 0 = Some name" and look: "lookupCommand name = Some cmd"
      and s2: "(if sv_maxmemory (?s1 name) then env_freeMemoryIfNeeded e (?s1 name) else (?s1 name, True)) = (s2, m)"
    for name cmd s2 m
  proof (rule ensures_any, clarify)
    fix s' b
    assume run: "run_command e cmd s2 c = Some (s', b)"
    have "map_option bare (sv_clients s2 c) = map_option bare (sv_clients (?s1 name) c)"
      using s2 mem_clients [of "?s1 name" c] by (cases "sv_maxmemory (?s1 name)") auto
    then obtain cl2 where cl2: "sv_clients s2 c = Some cl2" "bare cl2 = bare (cl\<lparr>c_cmd := lookupCommand name\<rparr>)"
      using c by auto
    have cmd2: "c_cmd cl2 = Some cmd" using bare_cmd [OF cl2(2)] look by simp
    have ok2: "server_ok s2" using a2 [OF s2] ok by (simp add: any_ctr_def)
    note k = run_command_keeps [OF ok2 cl2(1) cmd2 run]
    have m: "cas_mono c' s s2" for c' using a2 [OF s2] ok by (simp add: any_ctr_def)
    have n: "c_argv cl ! 0 = name" using name by (auto simp: arg_def split: if_splits)
    show "?K s'" unfolding n look using k cas_mono_trans [OF m] by simp
  qed
  have bindI: "ensures (f x) Q \<Longrightarrow> ensures (Some x \<bind> f) Q" for f :: "redisClient \<Rightarrow> ('a redisServer \<times> bool) option" and x Q by simp
  show ?thesis
    unfolding processCommand_def admit_command_def c Let_def
    apply (rule bindI)
    apply (intro ensures_bind [OF ensures_any] ensures_if ensures_option ensures_prod)
               apply (simp only: ensures_Some prod.case, rule quit)
              apply ((rule rej, rule a1) | (rule rej, erule a2) | (erule (2) run))+
    done
qed

end

subsection \<open>Passwords\<close>

lemma xor_eq_0: "xor (a::int) b = 0 \<longleftrightarrow> a = b"
  by (auto simp: bit_eq_iff bit_xor_iff)

lemma fold_diff:
  "fold (\<lambda>(x, y) diff. or diff (xor x y)) xys (d::int) = 0 \<longleftrightarrow> d = 0 \<and> (\<forall>(x, y) \<in> set xys. x = y)"
  by (induction xys arbitrary: d) (auto simp: or_eq_0_iff xor_eq_0)

lemma schar_inj: "schar x = schar y \<longleftrightarrow> x = y"
proof
  have s: "schar z = (if of_char z < (128::nat) then int (of_char z) else int (of_char z) - 256)" for z
    using nat_of_char_less_256 [of z] by (auto simp: schar_def to_signed_def Let_def)
  assume "schar x = schar y"
  then have "(if of_char x < (128::nat) then int (of_char x) else int (of_char x) - 256) =
      (if of_char y < (128::nat) then int (of_char y) else int (of_char y) - 256)" by (simp only: s)
  moreover have "(of_char x :: nat) < 256" "(of_char y :: nat) < 256" by (rule nat_of_char_less_256)+
  ultimately have "(of_char x :: nat) = of_char y" by presburger
  then show "x = y" by simp
qed simp

text \<open>The comparison of passwords finds two strings equal exactly when the C strings they hold are the same and
  fit in its buffers.\<close>

theorem time_independent_strcmp_decides:
  "time_independent_strcmp a b = 0 \<longleftrightarrow> c_string a = c_string b \<and> length (c_string a) \<le> REDIS_AUTHPASS_MAX_LEN"
proof -
  let ?a = "c_string a" and ?b = "c_string b"
  have len: "length (auth_buf t) = REDIS_AUTHPASS_MAX_LEN" if "length t \<le> REDIS_AUTHPASS_MAX_LEN" for t
    using that by (simp add: auth_buf_def)
  have eq: "(\<forall>(x, y) \<in> set (zip (auth_buf ?a) (auth_buf ?b)). x = y) \<longleftrightarrow> ?a = ?b"
    if l: "length ?a = length ?b"
  proof -
    have "(\<forall>(x, y) \<in> set (zip (auth_buf ?a) (auth_buf ?b)). x = y) \<longleftrightarrow> auth_buf ?a = auth_buf ?b"
      using l by (auto simp: list_eq_iff_zip_eq auth_buf_def)
    also have "\<dots> \<longleftrightarrow> map schar ?a = map schar ?b" using l by (simp add: auth_buf_def)
    also have "\<dots> \<longleftrightarrow> ?a = ?b" using inj_map_eq_map [of schar ?a ?b] by (simp add: inj_def schar_inj)
    finally show ?thesis .
  qed
  show ?thesis
    using eq by (auto simp: time_independent_strcmp_def Let_def or_eq_0_iff xor_eq_0 fold_diff)
qed

end
