(* ===== verification/Histories.thy ===== *)
theory Histories
  imports Dispatch
begin

section \<open>Histories of the server\<close>

text \<open>
  Clients connect, time passes, and the commands the clients send are processed one after the other, in
  any order.  The theory shows what every history keeps, that a transaction is not executed when a key
  its client watches has been touched, and that a transaction with a writing command stands between
  \<^verbatim>\<open>MULTI\<close> and \<^verbatim>\<open>EXEC\<close> in the append-only file.
\<close>

datatype srv_event =
    Connect nat
  | Tick int
  | Command nat "string list"

inductive srv_step :: "'v env \<Rightarrow> 'v redisServer \<Rightarrow> srv_event \<Rightarrow> 'v redisServer \<Rightarrow> bool"
  for e where
  srv_Connect: "sv_clients s c = None \<Longrightarrow> sv_db s \<noteq> [] \<Longrightarrow> srv_step e s (Connect c) (createClient s c)"
| srv_Tick: "srv_step e s (Tick us) (s\<lparr>sv_ustime := us, sv_mstime := us div 1000\<rparr>)"
| srv_Command: "processCommand e (upd_client s c (\<lambda>cl. cl\<lparr>c_argv := argv\<rparr>)) c = Some (s', b) \<Longrightarrow>
    srv_step e s (Command c argv) s'"

inductive_cases srv_ConnectE: "srv_step e s (Connect c) s'"
inductive_cases srv_TickE: "srv_step e s (Tick us) s'"
inductive_cases srv_CommandE: "srv_step e s (Command c argv) s'"

inductive srv_run :: "'v env \<Rightarrow> 'v redisServer \<Rightarrow> srv_event list \<Rightarrow> 'v redisServer \<Rightarrow> bool"
  for e where
  srv_Nil: "srv_run e s [] s"
| srv_Cons: "srv_step e s ev s1 \<Longrightarrow> srv_run e s1 evs s' \<Longrightarrow> srv_run e s (ev # evs) s'"

text \<open>The events that end the watches of a client: its commands \<^verbatim>\<open>EXEC\<close>, \<^verbatim>\<open>DISCARD\<close> and \<^verbatim>\<open>UNWATCH\<close>.\<close>

fun unwatches :: "nat \<Rightarrow> srv_event \<Rightarrow> bool" where
  "unwatches c (Command x argv) \<longleftrightarrow>
     x = c \<and> (\<exists>cmd. lookupCommand (argv ! 0) = Some cmd \<and> rc_name cmd \<in> ends_own)"
| "unwatches c ev \<longleftrightarrow> False"

context redis_env
begin

lemma step_keeps:
  assumes "srv_step e s ev s'" and ok: "server_ok s"
  shows "server_ok s' \<and> (\<not> unwatches c ev \<longrightarrow> cas_mono c s s')"
  using assms(1)
proof cases
  case (srv_Connect x)
  then show ?thesis using createClient_server_ok [OF ok] by (auto simp: cas_mono_def)
next
  case (srv_Tick us)
  then show ?thesis using ok server_ok_cong [of s' s] by (simp add: cas_mono_same)
next
  case (srv_Command x argv b)
  let ?s = "upd_client s x (\<lambda>cl. cl\<lparr>c_argv := argv\<rparr>)"
  have a: "any_ctr s ?s" by (rule any_client) simp
  obtain cl where cl: "sv_clients ?s x = Some cl"
    using srv_Command(2) by (auto simp: processCommand_def split: bind_splits)
  then have argv: "c_argv cl = argv" by auto
  have "server_ok s'" "c \<noteq> x \<or> (\<forall>cmd. lookupCommand (argv ! 0) = Some cmd \<longrightarrow> rc_name cmd \<notin> ends_own) \<Longrightarrow> cas_mono c ?s s'"
    using ensuresD [OF processCommand_keeps [OF _ cl] srv_Command(2)] a ok argv by (auto simp: any_ctr_def)
  then show ?thesis using srv_Command(1) a ok cas_mono_trans [of c s ?s s'] by (auto simp: any_ctr_def)
qed

lemma run_keeps:
  "srv_run e s evs s' \<Longrightarrow> server_ok s \<Longrightarrow> server_ok s' \<and> ((\<forall>ev \<in> set evs. \<not> unwatches c ev) \<longrightarrow> cas_mono c s s')"
proof (induction rule: srv_run.induct)
  case (srv_Nil s)
  then show ?case by (simp add: cas_mono_same)
next
  case (srv_Cons s ev s1 evs s')
  then show ?case using step_keeps [OF srv_Cons(1), of c] by (auto intro: cas_mono_trans)
qed

lemma watched_then_marked:
  assumes ok: "server_ok s" and c: "sv_clients s c = Some cl" and k: "(k, d) \<in> set (c_watched_keys cl)"
    and r: "srv_run e s evs s1" "srv_step e s1 ev s2" "srv_run e s2 evs' s3"
    and e: "\<forall>ev \<in> set evs \<union> set evs'. \<not> unwatches c ev" and m: "marked s1 s2 d k"
  shows "server_ok s3 \<and> (\<exists>cl3. sv_clients s3 c = Some cl3 \<and> c_dirty_cas cl3)"
proof -
  have ok1: "server_ok s1" and m1: "cas_mono c s s1" using run_keeps [OF r(1) ok] e by blast+
  then obtain cl1 where "sv_clients s1 c = Some cl1" "(k, d) \<in> set (c_watched_keys cl1)"
    using c k unfolding cas_mono_def by blast
  then obtain cl2 where cl2: "sv_clients s2 c = Some cl2" "c_dirty_cas cl2" using m unfolding marked_def by blast
  have ok2: "server_ok s2" using step_keeps [OF r(2) ok1] by blast
  have "server_ok s3" "cas_mono c s2 s3" using run_keeps [OF r(3) ok2] e by blast+
  then show ?thesis using cl2 unfolding cas_mono_def by blast
qed

end

subsection \<open>A server with the modelled commands\<close>

text \<open>No other commands, no eviction and no blocked clients.\<close>

definition modelled_env :: "int env" where
  "modelled_env = \<lparr>env_other = (\<lambda>n s c. None), env_type = (\<lambda>v. REDIS_STRING), env_picks = [0], env_save_ok = True,
     env_freeMemoryIfNeeded = (\<lambda>s. (s, True)), env_handleClientsBlockedOnLists = Some\<rparr>"

interpretation modelled: redis_env modelled_env
  by unfold_locales (simp_all add: modelled_env_def any_ctr_refl)

subsection \<open>Queueing\<close>

lemma same_data_reply: "same_data s t \<Longrightarrow> same_data s (addReply t c r)"
  unfolding addReply_def by (rule same_data_trans [OF _ same_data_client])

lemma same_data_flag: "same_data s t \<Longrightarrow> same_data s (flagTransaction t c)"
  unfolding flagTransaction_def by (rule same_data_trans [OF _ same_data_client])

text \<open>The results of a refusal and of queueing, for the client in a transaction.\<close>

definition refused :: "'v redisServer \<Rightarrow> nat \<Rightarrow> redisClient \<Rightarrow> bool \<Rightarrow> 'v redisServer \<Rightarrow> bool" where
  "refused s c cl flagged s' \<longleftrightarrow> same_data s s' \<and>
     (\<exists>cmd msg. sv_clients s' = (sv_clients s)(c \<mapsto> cl\<lparr>c_cmd := cmd,
        c_dirty_exec := (flagged \<or> c_dirty_exec cl), c_reply := c_reply cl @ [R_Error msg]\<rparr>))"

definition queued :: "'v redisServer \<Rightarrow> nat \<Rightarrow> redisClient \<Rightarrow> redisCommand \<Rightarrow> 'v redisServer \<Rightarrow> bool" where
  "queued s c cl cmd s' \<longleftrightarrow> same_data s s' \<and>
     sv_clients s' = (sv_clients s)(c \<mapsto> cl\<lparr>c_cmd := Some cmd,
        c_mstate := c_mstate cl @ [\<lparr>mc_argv = c_argv cl, mc_cmd = cmd\<rparr>], c_reply := c_reply cl @ [R_Status ''QUEUED'']\<rparr>)"

lemma refused_intro:
  assumes "sv_clients s c = Some cl" and "c_multi cl"
  shows "\<exists>s'. reject_flagged msg (upd_client s c (\<lambda>cl. cl\<lparr>c_cmd := cmd\<rparr>)) c = Some (s', True) \<and> refused s c cl True s'"
    and "\<exists>s'. reject msg (upd_client s c (\<lambda>cl. cl\<lparr>c_cmd := cmd\<rparr>)) c = Some (s', True) \<and> refused s c cl False s'"
proof -
  let ?s = "upd_client s c (\<lambda>cl. cl\<lparr>c_cmd := cmd\<rparr>)"
  have "refused s c cl True (addReply (flagTransaction ?s c) c (R_Error msg))"
    using assms
    by (auto simp: refused_def fun_eq_iff flagTransaction_def intro!: same_data_reply same_data_trans [OF same_data_client same_data_client] exI [of _ cmd] exI [of _ msg])
  then show "\<exists>s'. reject_flagged msg ?s c = Some (s', True) \<and> refused s c cl True s'"
    by (simp add: reject_flagged_def reject_def)
  have "refused s c cl False (addReply ?s c (R_Error msg))"
    using assms by (auto simp: refused_def fun_eq_iff intro!: same_data_reply same_data_client exI [of _ cmd] exI [of _ msg])
  then show "\<exists>s'. reject msg ?s c = Some (s', True) \<and> refused s c cl False s'"
    by (simp add: reject_def)
qed

lemma queued_intro:
  assumes "sv_clients s c = Some cl" and "c_multi cl" and "rc_name cmd \<notin> {''exec'', ''discard'', ''multi'', ''watch''}"
  shows "\<exists>s'. run_command e cmd (upd_client s c (\<lambda>cl. cl\<lparr>c_cmd := Some cmd\<rparr>)) c = Some (s', True) \<and> queued s c cl cmd s'"
proof -
  let ?s = "upd_client s c (\<lambda>cl. cl\<lparr>c_cmd := Some cmd\<rparr>)"
  let ?t = "upd_client ?s c (\<lambda>cl. cl\<lparr>c_mstate := c_mstate cl @ [\<lparr>mc_argv = c_argv cl, mc_cmd = cmd\<rparr>]\<rparr>)"
  have "run_command e cmd ?s c = Some (addReply ?t c (R_Status ''QUEUED''), True)"
    using assms by (simp add: run_command_def queueMultiCommand_def)
  moreover have "queued s c cl cmd (addReply ?t c (R_Status ''QUEUED''))"
    using assms by (auto simp: queued_def fun_eq_iff intro!: same_data_reply same_data_trans [OF same_data_client same_data_client])
  ultimately show ?thesis by blast
qed

text \<open>A refusal that does not mark the transaction.\<close>

definition unmarked_refusal :: "'v redisServer \<Rightarrow> redisClient \<Rightarrow> redisCommand \<Rightarrow> bool" where
  "unmarked_refusal s cl cmd \<longleftrightarrow>
     sv_masterhost s \<and> sv_repl_slave_ro s \<and> \<not> c_master cl \<and> rc_write cmd \<or>
     (c_pubsub_channels cl \<noteq> [] \<or> c_pubsub_patterns cl \<noteq> []) \<and>
       rc_name cmd \<notin> {''subscribe'', ''unsubscribe'', ''psubscribe'', ''punsubscribe''} \<or>
     sv_loading s \<and> \<not> rc_loading cmd"

lemma admit_in_multi:
  assumes c: "sv_clients s c = Some cl" "c_multi cl" and n: "rc_name cmd \<notin> {''exec'', ''discard'', ''multi'', ''watch''}"
    and cl0: "c_master cl0 = c_master cl" "c_pubsub_channels cl0 = c_pubsub_channels cl" "c_pubsub_patterns cl0 = c_pubsub_patterns cl"
  shows "\<exists>s'. admit_command e cl0 cmd mem_ok (upd_client s c (\<lambda>cl. cl\<lparr>c_cmd := Some cmd\<rparr>)) c = Some (s', True) \<and>
    (refused s c cl True s' \<or> queued s c cl cmd s' \<or> refused s c cl False s' \<and> unmarked_refusal s cl cmd)"
proof -
  let ?s = "upd_client s c (\<lambda>cl. cl\<lparr>c_cmd := Some cmd\<rparr>)"
  let ?Q = "\<lambda>(s', b). b \<and> (refused s c cl True s' \<or> queued s c cl cmd s' \<or> refused s c cl False s' \<and> unmarked_refusal s cl cmd)"
  have f: "sv_masterhost ?s = sv_masterhost s" "sv_repl_slave_ro ?s = sv_repl_slave_ro s" "sv_loading ?s = sv_loading s"
    by (simp_all add: upd_client_def)
  note r = refused_intro [OF c]
  have R: "returns (reject_flagged msg ?s c) ?Q" for msg using r(1) [of msg "Some cmd"] by (auto simp: returns_def)
  have U: "returns (reject msg ?s c) ?Q" if "unmarked_refusal s cl cmd" for msg
    using r(2) [of msg "Some cmd"] that by (auto simp: returns_def)
  have q: "returns (run_command e cmd ?s c) ?Q" using queued_intro [OF c n, of e] by (auto simp: returns_def)
  have "returns (admit_command e cl0 cmd mem_ok ?s c) ?Q"
    unfolding admit_command_def f cl0 by (intro returns_if R U q) (simp_all add: unmarked_refusal_def)
  then show ?thesis by (auto simp: returns_def)
qed

text \<open>C12. Inside a transaction no command but \<^verbatim>\<open>EXEC\<close>, \<^verbatim>\<open>DISCARD\<close>, \<^verbatim>\<open>MULTI\<close> and \<^verbatim>\<open>WATCH\<close> is executed.  \<^verbatim>\<open>QUIT\<close> is
  answered and closes the client when the reply is sent.  Any other command is
  appended to the client's queue, with the reply \<^verbatim>\<open>QUEUED\<close>, or refused with an error; the data, the append-only file and the other
  clients stay as they were, but for the keys that \<^verbatim>\<open>freeMemoryIfNeeded\<close> evicts before, on a server with a memory limit.
  An unknown command, a wrong number of arguments and most other refusals mark the transaction, so
  that it will be aborted; the refusals of a read-only slave, of a subscribed client and while loading
  do not.\<close>

theorem multi_queues_commands:
  assumes env: "redis_env e" and c: "sv_clients s c = Some cl" "c_multi cl" and argv: "c_argv cl = name # args"
    and names: "\<forall>cmd. lookupCommand name = Some cmd \<longrightarrow> rc_name cmd \<notin> {''exec'', ''discard'', ''multi'', ''watch''}"
  shows "if strcaseeq name ''quit''
    then \<exists>s'. processCommand e s c = Some (s', False) \<and> same_data s s' \<and>
      sv_clients s' = (sv_clients s)(c \<mapsto> cl\<lparr>c_reply := c_reply cl @ [R_Status ''OK''], c_close_after_reply := True\<rparr>)
    else \<exists>s' t clt. processCommand e s c = Some (s', True) \<and>
      (t = s \<and> clt = cl \<or>
       sv_maxmemory s \<and> t = fst (env_freeMemoryIfNeeded e (upd_client s c (\<lambda>cl. cl\<lparr>c_cmd := lookupCommand name\<rparr>))) \<and>
         sv_clients t c = Some clt \<and> c_mstate clt = c_mstate cl \<and> c_multi clt) \<and>
      (refused t c clt True s' \<or>
       (\<exists>cmd. lookupCommand name = Some cmd \<and> arity_ok cmd (int (length (c_argv cl))) \<and>
         (queued t c clt cmd s' \<or> refused t c clt False s' \<and> unmarked_refusal t clt cmd)))"
proof -
  have a: "arg cl 0 = Some name" using argv by (simp add: arg_def)
  note r = refused_intro [OF c]
  show ?thesis
  proof (cases "strcaseeq name ''quit''")
    case True
    let ?t = "upd_client (addReply s c (R_Status ''OK'')) c (\<lambda>cl. cl\<lparr>c_close_after_reply := True\<rparr>)"
    have "processCommand e s c = Some (?t, False)" using c(1) a True by (simp add: processCommand_def)
    moreover have "same_data s ?t" by (rule same_data_trans [OF same_data_reply [OF same_data_refl] same_data_client])
    moreover have "sv_clients ?t = (sv_clients s)(c \<mapsto> cl\<lparr>c_reply := c_reply cl @ [R_Status ''OK''], c_close_after_reply := True\<rparr>)"
      using c(1) by (auto simp: fun_eq_iff)
    ultimately show ?thesis using True by auto
  next
    case quit: False
    show ?thesis
    proof (cases "lookupCommand name")
      case None
      then show ?thesis
        using c(1) a quit r(1) [of "''unknown command '' @ [CHR 0x27] @ c_string name @ [CHR 0x27]" None]
        by (auto simp: processCommand_def)
    next
      case (Some cmd)
      let ?s = "upd_client s c (\<lambda>cl. cl\<lparr>c_cmd := Some cmd\<rparr>)"
      have n: "rc_name cmd \<notin> {''exec'', ''discard'', ''multi'', ''watch''}" using names Some by blast
      obtain t mem_ok where mem: "(if sv_maxmemory ?s then env_freeMemoryIfNeeded e ?s else (?s, True)) = (t, mem_ok)" by fastforce
      have step: "processCommand e s c =
          (if \<not> arity_ok cmd (int (length (c_argv cl))) then
               reject_flagged (''wrong number of arguments for '' @ [CHR 0x27] @ rc_name cmd @ [CHR 0x27] @ '' command'') ?s c
           else if sv_requirepass ?s \<noteq> None \<and> \<not> c_authenticated cl \<and> rc_name cmd \<noteq> ''auth'' then
               reject_flagged ''operation not permitted'' ?s c
           else admit_command e cl cmd mem_ok t c)"
        using c(1) a quit Some mem by (simp add: processCommand_def)
      show ?thesis
      proof (cases "\<not> arity_ok cmd (int (length (c_argv cl))) \<or>
          sv_requirepass ?s \<noteq> None \<and> \<not> c_authenticated cl \<and> rc_name cmd \<noteq> ''auth''")
        case True
        then obtain msg where "processCommand e s c = reject_flagged msg ?s c" using step by (auto split: if_splits)
        then show ?thesis using r(1) [of msg "Some cmd"] quit by auto
      next
        case False
        then have p: "processCommand e s c = admit_command e cl cmd mem_ok t c" and ar: "arity_ok cmd (int (length (c_argv cl)))"
          using step by auto
        show ?thesis
        proof (cases "sv_maxmemory s")
          case False
          then have "t = ?s" using mem by (simp add: upd_client_def split: if_splits)
          then show ?thesis using admit_in_multi [OF c n, of cl e mem_ok] p ar Some quit by auto
        next
          case True
          then have tm: "t = fst (env_freeMemoryIfNeeded e ?s)" using mem by (auto simp: upd_client_def)
          have "map_option bare (sv_clients t c) = Some (bare (cl\<lparr>c_cmd := Some cmd\<rparr>))"
            using redis_env.mem_clients [OF env, of ?s c] c(1) unfolding tm by simp
          then obtain clt where t: "sv_clients t c = Some clt" "bare clt = bare (cl\<lparr>c_cmd := Some cmd\<rparr>)" by auto
          have b: "c_cmd clt = Some cmd" "c_multi clt" "c_mstate clt = c_mstate cl" "c_master cl = c_master clt"
            "c_pubsub_channels cl = c_pubsub_channels clt" "c_pubsub_patterns cl = c_pubsub_patterns clt"
            using arg_cong [OF t(2), of c_cmd] arg_cong [OF t(2), of c_multi] arg_cong [OF t(2), of c_mstate] arg_cong [OF t(2), of c_master]
              arg_cong [OF t(2), of c_pubsub_channels] arg_cong [OF t(2), of c_pubsub_patterns] c(2) by (simp_all add: bare_def)
          have "(sv_clients t)(c := Some (clt\<lparr>c_cmd := Some cmd\<rparr>)) = sv_clients t"
            using t(1) b(1) by (auto simp: fun_eq_iff)
          then have "upd_client t c (\<lambda>cl. cl\<lparr>c_cmd := Some cmd\<rparr>) = t"
            using t(1) by (simp add: upd_client_def)
          then show ?thesis
            using admit_in_multi [OF t(1) b(2) n b(4-6), of e mem_ok] p ar Some quit True t(1) b(2,3) tm
            by (simp only: if_False) (elim exE conjE, intro exI conjI, assumption, auto)
        qed
      qed
    qed
  qed
qed

text \<open>A client in a transaction, with the arguments of its next command.\<close>

definition multi_client :: "string list \<Rightarrow> redisClient" where
  "multi_client argv = new_client\<lparr>c_multi := True, c_argv := argv\<rparr>"

definition multi_example :: "string list \<Rightarrow> int redisServer" where
  "multi_example argv = (initServer 0 :: int redisServer)\<lparr>sv_clients := [1 \<mapsto> multi_client argv], sv_client_list := [1]\<rparr>"

lemma multi_example_fields:
  "sv_clients (multi_example argv) 1 = Some (multi_client argv)" "\<not> sv_maxmemory (multi_example argv)"
  "c_multi (multi_client argv)" "c_argv (multi_client argv) = argv" "\<not> c_dirty_exec (multi_client argv)"
  "\<not> c_master (multi_client argv)" "sv_requirepass (multi_example argv) = None" "sv_lastbgsave_ok (multi_example argv)"
  "sv_repl_slave_ro (multi_example argv)"
  by (simp_all add: multi_example_def multi_client_def initServer_def new_client_def)

lemma lookup_get: "\<exists>cmd. lookupCommand ''get'' = Some cmd \<and> rc_name cmd = ''get''"
proof -
  have "(''get'', 2, ''r'', GK_None, 1, 1, 1) \<in> set redisCommandTable" by (simp add: redisCommandTable_def)
  moreover have "caseeq ''get'' (fst (''get'', 2::int, ''r'', GK_None, 1::int, 1::int, 1::int))" by (simp add: caseeq_def)
  ultimately show ?thesis using lookup_row by (fastforce simp: from_row_def)
qed

theorem multi_queues_commands_witness:
  "\<exists>s'. processCommand modelled_env (multi_example [''get'', ''k'']) 1 = Some (s', True)"
proof -
  have "\<not> strcaseeq ''get'' ''quit''" by (simp add: strcaseeq_defs tolower_def char_of_def bit_simps)
  then show ?thesis
    using multi_queues_commands [OF modelled.redis_env_axioms multi_example_fields(1,3), of "[''get'', ''k'']" "''get''" "[''k'']"] lookup_get
    unfolding multi_example_fields by fastforce
qed

text \<open>A read-only slave refuses a writing command inside a transaction without marking the transaction:
  the queue and the marks stay as they were, so that \<^verbatim>\<open>EXEC\<close> will execute the rest of the transaction.\<close>

theorem readonly_refusal_not_flagged:
  assumes c: "sv_clients s c = Some cl" "c_multi cl" and argv: "c_argv cl = name # args"
    and cmd: "lookupCommand name = Some cmd" "rc_write cmd" "arity_ok cmd (int (length (c_argv cl)))"
    and quit: "\<not> strcaseeq name ''quit''"
    and s: "sv_masterhost s" "sv_repl_slave_ro s" "\<not> c_master cl" "sv_requirepass s = None" "\<not> sv_maxmemory s" "sv_lastbgsave_ok s"
  shows "\<exists>s' cl'. processCommand e s c = Some (s', True) \<and> sv_clients s' c = Some cl' \<and>
    c_reply cl' = c_reply cl @ [R_Error shared_roslaveerr] \<and>
    c_mstate cl' = c_mstate cl \<and> c_dirty_exec cl' = c_dirty_exec cl \<and> c_dirty_cas cl' = c_dirty_cas cl \<and> c_multi cl'"
proof -
  have a: "arg cl 0 = Some name" using argv by (simp add: arg_def)
  let ?s = "upd_client s c (\<lambda>cl. cl\<lparr>c_cmd := Some cmd\<rparr>)"
  have f: "sv_masterhost ?s" "sv_repl_slave_ro ?s" "sv_requirepass ?s = None" "\<not> sv_maxmemory ?s" "sv_lastbgsave_ok ?s"
    using s by (simp_all add: upd_client_def)
  have "processCommand e s c = admit_command e cl cmd True ?s c"
    using c(1) a quit cmd f by (simp add: processCommand_def)
  also have "\<dots> = reject shared_roslaveerr ?s c"
    using f s(3) cmd(2) by (simp add: admit_command_def)
  finally show ?thesis using c by (simp add: reject_def)
qed

lemma lookup_del: "\<exists>cmd. lookupCommand ''del'' = Some cmd \<and> rc_name cmd = ''del'' \<and> rc_write cmd \<and> arity_ok cmd 2"
proof -
  have "(''del'', -2, ''w'', GK_NoPreload, 1, - 1, 1) \<in> set redisCommandTable" by (simp add: redisCommandTable_def)
  moreover have "caseeq ''del'' (fst (''del'', -2::int, ''w'', GK_NoPreload, 1::int, - 1::int, 1::int))" by (simp add: caseeq_def)
  ultimately have "lookupCommand ''del'' = row_command (''del'', -2, ''w'', GK_NoPreload, 1, - 1, 1)"
    using lookup_row by blast
  then show ?thesis by (simp add: row_command_def command_flag_def arity_ok_def)
qed

theorem readonly_refusal_not_flagged_witness:
  "\<exists>s' cl'. processCommand modelled_env ((multi_example [''del'', ''k''])\<lparr>sv_masterhost := True\<rparr>) 1 = Some (s', True) \<and>
    sv_clients s' 1 = Some cl' \<and> \<not> c_dirty_exec cl'"
proof -
  have "\<not> strcaseeq ''del'' ''quit''" by (simp add: strcaseeq_defs tolower_def char_of_def bit_simps)
  moreover obtain cmd where "lookupCommand ''del'' = Some cmd" "rc_write cmd" "arity_ok cmd 2" using lookup_del by blast
  ultimately show ?thesis
    using readonly_refusal_not_flagged [of "(multi_example [''del'', ''k''])\<lparr>sv_masterhost := True\<rparr>" 1 "multi_client [''del'', ''k'']" "''del''" "[''k'']" cmd modelled_env]
    by (simp add: multi_example_fields del: One_nat_def) blast
qed

subsection \<open>Invariants of all histories\<close>

text \<open>C13. In every state the server reaches from its start, by connecting clients, passing time and processing
  any commands in any order, the tables of watched keys of the databases and of the clients agree, the
  slow log is a well formed list, and every database has distinct keys and expire times only for keys
  it holds, provided the commands and the eviction that are not modelled keep that.\<close>

theorem reachable_states_ok:
  assumes "redis_env e" and "srv_run e (initServer us) evs s"
  shows "watch_ok s \<and> slowlog_ok (sv_slowlog s) \<and> db_ok s"
  using redis_env.run_keeps [OF assms init_server_ok] by (simp add: server_ok_def)

lemma ping_runs: "\<exists>s'. srv_run modelled_env (initServer 0) [Connect 1, Tick 5000, Command 1 [''quit'']] s'"
proof -
  have 1: "srv_step modelled_env (initServer 0) (Connect 1) (createClient (initServer 0) 1)"
    by (rule srv_Connect) (simp_all add: initServer_def REDIS_DEFAULT_DBNUM_def)
  let ?s = "(createClient (initServer 0 :: int redisServer) 1)\<lparr>sv_ustime := 5000, sv_mstime := 5000 div 1000\<rparr>"
  have 2: "srv_step modelled_env (createClient (initServer 0) 1) (Tick 5000) ?s" by (rule srv_Tick)
  have "strcaseeq ''quit'' ''quit''" by (simp add: strcaseeq_def caseeq_def)
  then have "\<exists>s'. processCommand modelled_env (upd_client ?s 1 (\<lambda>cl. cl\<lparr>c_argv := [''quit'']\<rparr>)) 1 = Some (s', False)"
    by (simp add: processCommand_def arg_def createClient_def)
  then obtain s' where "srv_step modelled_env ?s (Command 1 [''quit'']) s'" by (blast intro: srv_Command)
  then show ?thesis using 1 2 srv_Nil by (blast intro: srv_Cons)
qed

theorem reachable_states_ok_witness:
  "\<exists>s. srv_run modelled_env (initServer 0) [Connect 1, Tick 5000, Command 1 [''quit'']] s \<and> db_ok s"
  using reachable_states_ok [OF modelled.redis_env_axioms] ping_runs by blast

text \<open>C1. Optimistic locking.  When a client watches a key and, at some later point of a history in which it
  sends no \<^verbatim>\<open>EXEC\<close>, \<^verbatim>\<open>DISCARD\<close> or \<^verbatim>\<open>UNWATCH\<close>, some event marks the clients watching that key, then its next
  \<^verbatim>\<open>EXEC\<close> executes nothing: it replies nil (or \<^verbatim>\<open>EXECABORT\<close> after an error while queueing), ends the
  transaction, and changes neither data nor append-only file nor another client.\<close>

theorem watched_key_aborts_exec:
  assumes env: "redis_env e" and ok: "server_ok s" and c: "sv_clients s c = Some cl" "(k, d) \<in> set (c_watched_keys cl)"
    and run: "srv_run e s evs s1" "srv_step e s1 ev s2" "srv_run e s2 evs' s3"
    and quiet: "\<forall>ev \<in> set evs \<union> set evs'. \<not> unwatches c ev" and marks: "marked s1 s2 d k"
    and c3: "sv_clients s3 c = Some cl3" "c_multi cl3"
  shows "\<exists>s4 fd. execCommand (base_procs e) s3 c = Some (s4\<lparr>sv_monitor_feed := fd\<rparr>) \<and> same_data s3 s4 \<and>
    sv_clients s4 = (sv_clients s3)(c \<mapsto> cleared (cl3\<lparr>c_reply := c_reply cl3 @ [abort_reply cl3]\<rparr>))"
proof -
  have "server_ok s3" and d: "c_dirty_cas cl3"
    using redis_env.watched_then_marked [OF env ok c run quiet marks] c3 by auto
  then have "watch_ok s3" by (simp add: server_ok_def)
  from exec_dirty_ok [OF this c3, of "base_procs e"] d show ?thesis by blast
qed

text \<open>Client 1 watches a key of database 0 and is in a transaction, client 2 is connected.\<close>

definition lock_example :: "int redisServer" where
  "lock_example = (initServer 0 :: int redisServer)\<lparr>
     sv_db := [\<lparr>db_dict = [(''k'', 7)], db_expires = [], db_watched_keys = [(''k'', [1])]\<rparr>],
     sv_clients := [1 \<mapsto> (multi_client [''exec''])\<lparr>c_watched_keys := [(''k'', 0)]\<rparr>, 2 \<mapsto> new_client],
     sv_client_list := [1, 2]\<rparr>"

lemma lock_example_ok: "server_ok lock_example"
proof -
  have g: "get_db lock_example d = (if d = 0 then Some \<lparr>db_dict = [(''k'', 7)], db_expires = [], db_watched_keys = [(''k'', [1])]\<rparr> else None)" for d
    by (auto simp: lock_example_def get_db_def)
  have w: "watchers lock_example d k = (if d = 0 \<and> k = ''k'' then [1] else [])" for d k
    by (simp add: watchers_def g)
  have cs: "sv_clients lock_example = [1 \<mapsto> (multi_client [''exec''])\<lparr>c_watched_keys := [(''k'', 0)]\<rparr>, 2 \<mapsto> new_client]"
    by (simp add: lock_example_def)
  have l: "length (sv_db lock_example) = 1" by (simp add: lock_example_def)
  have "watch_ok lock_example"
  proof (rule watch_okI)
    show "tables_ok lock_example" by (simp add: tables_ok_def g)
    show "distinct (watchers lock_example d k)" for d k by (simp add: w)
    show "x \<in> set (watchers lock_example d k) \<longleftrightarrow>
      (\<exists>cl. sv_clients lock_example x = Some cl \<and> (k, d) \<in> set (c_watched_keys cl))" for x d k
      by (auto simp: w cs)
    show "distinct (c_watched_keys cl) \<and> c_db cl < length (sv_db lock_example)" if "sv_clients lock_example x = Some cl" for x cl
      using that by (auto simp: cs l multi_client_def split: if_splits)
  qed
  moreover have "slowlog_ok (sv_slowlog lock_example)"
    using init_server_ok [of 0, where 'a = int, unfolded server_ok_def] by (simp add: lock_example_def)
  ultimately show ?thesis by (simp add: server_ok_def) (simp add: lock_example_def db_ok_def db_wf_def)
qed

lemma keeps_marks_any: "any_ctr s s' \<Longrightarrow> server_ok s \<Longrightarrow> keeps_marks s s'"
  by (simp add: any_ctr_def keeps_marks_def)

text \<open>A client that deletes the key marks the watching client.\<close>

lemma lock_example_step:
  "\<exists>s'. srv_step modelled_env lock_example (Command 2 [''del'', ''k'']) s' \<and> marked lock_example s' 0 ''k'' \<and>
    (\<exists>cl. sv_clients s' 1 = Some cl \<and> c_multi cl)"
proof -
  obtain cmd where cmd: "lookupCommand ''del'' = Some cmd" "rc_name cmd = ''del''" "arity_ok cmd 2" using lookup_del by blast
  define cl where "cl = new_client\<lparr>c_argv := [''del'', ''k''], c_cmd := Some cmd\<rparr>"
  let ?s1 = "upd_client lock_example 2 (\<lambda>cl. cl\<lparr>c_argv := [''del'', ''k'']\<rparr>)"
  define s2 where "s2 = upd_client ?s1 2 (\<lambda>cl. cl\<lparr>c_cmd := Some cmd\<rparr>)"
  define s3 where "s3 = call_pre cmd cl s2"
  have a3: "any_ctr lock_example s3"
    unfolding s3_def s2_def
    by (intro any_ctr_trans [OF any_ctr_trans [OF any_client any_client] call_pre_any]) auto
  then have ok3: "server_ok s3" using lock_example_ok by (simp add: any_ctr_def)
  have cl: "sv_clients s2 2 = Some cl" "sv_clients s3 2 = Some cl"
    by (simp_all add: s3_def s2_def lock_example_def cl_def)
  have l3: "lookupKey s3 0 ''k'' = Some 7" "0 < length (sv_db s3)"
    by (simp_all add: s3_def s2_def lock_example_def lookupKey_def get_db_def)
  have w3: "watchers (del_key s3 0 ''k'') 0 ''k'' = [1]"
    by (simp add: watchers_def del_key_def) (simp add: s3_def s2_def lock_example_def get_db_def)
  define s4 where "s4 = addReply (incr_dirty 1 (touch (del_key s3 0 ''k'') 0 ''k'')) 2 (R_Int 1)"
  have del: "redis_procs modelled_env (rc_name cmd) s3 2 = Some s4"
    using l3 cl(2) by (simp add: redis_procs_def base_procs_def proc_table_def cmd(2) delCommand_def cl_def dbDelete_eq signal_eq s4_def)
  have c4: "sv_clients s4 2 = Some (cl\<lparr>c_reply := c_reply cl @ [R_Int 1]\<rparr>)"
    "sv_clients s4 1 = Some ((multi_client [''exec''])\<lparr>c_watched_keys := [(''k'', 0)], c_dirty_cas := True\<rparr>)"
    using cl(2) by (simp_all add: s4_def touch_clients w3) (simp add: s3_def s2_def lock_example_def)
  have sl: "slowlog_ok (sv_slowlog s4)"
    using modelled.redis_keeps [OF ok3 del] by (simp add: server_ok_def)
  obtain s5 where s5: "call (redis_procs modelled_env) s2 2 True True True = Some s5" "sv_clients s5 = sv_clients s4"
    using call_Some [of s2 2 cl cmd "redis_procs modelled_env" s4, OF cl(1) _ del [unfolded s3_def] sl c4(1), of cmd True True True]
    by (auto simp: cl_def)
  have q: "\<not> strcaseeq ''del'' ''quit''" by (simp add: strcaseeq_defs tolower_def char_of_def bit_simps)
  have f: "sv_requirepass s2 = None" "\<not> sv_maxmemory s2" "sv_lastbgsave_ok s2" "\<not> sv_masterhost s2" "\<not> sv_loading s2" "\<not> sv_lua_timedout s2"
    by (simp_all add: s2_def lock_example_def initServer_def upd_client_def)
  have "run_command modelled_env cmd s2 2 = Some (s5, True)"
    using s5(1) cl(1) by (simp add: run_command_def cl_def new_client_def modelled_env_def)
  then have "admit_command modelled_env (new_client\<lparr>c_argv := [''del'', ''k'']\<rparr>) cmd True s2 2 = Some (s5, True)"
    using f by (simp add: admit_command_def new_client_def)
  moreover have "sv_clients lock_example 2 = Some new_client" by (simp add: lock_example_def)
  ultimately have "processCommand modelled_env ?s1 2 = Some (s5, True)"
    using q cmd f by (simp add: processCommand_def arg_def s2_def [symmetric])
  then have "srv_step modelled_env lock_example (Command 2 [''del'', ''k'']) s5" by (rule srv_Command)
  moreover have "marked lock_example s5 0 ''k''"
    using c4 s5(2) by (auto simp: marked_def lock_example_def split: if_splits)
  ultimately show ?thesis using c4(2) s5(2) by (auto simp: multi_client_def)
qed

theorem watched_key_aborts_exec_witness:
  "\<exists>s3 s4 fd. srv_step modelled_env lock_example (Command 2 [''del'', ''k'']) s3 \<and>
    execCommand (base_procs modelled_env) s3 1 = Some (s4\<lparr>sv_monitor_feed := fd\<rparr>) \<and> same_data s3 s4"
proof -
  obtain s3 cl3 where s3: "srv_step modelled_env lock_example (Command 2 [''del'', ''k'']) s3" "marked lock_example s3 0 ''k''"
    "sv_clients s3 1 = Some cl3" "c_multi cl3" using lock_example_step by blast
  have "sv_clients lock_example 1 = Some ((multi_client [''exec''])\<lparr>c_watched_keys := [(''k'', 0)]\<rparr>)"
    by (simp add: lock_example_def)
  from watched_key_aborts_exec [OF modelled.redis_env_axioms lock_example_ok this _ srv_Nil s3(1) srv_Nil _ s3(2-4)]
  show ?thesis using s3(1) by auto
qed

subsection \<open>Transactions in the append-only file\<close>

lemma call_cong:
  assumes "\<And>cl cmd. sv_clients s c = Some cl \<Longrightarrow> c_cmd cl = Some cmd \<Longrightarrow> proc (rc_name cmd) = proc' (rc_name cmd)"
  shows "call proc s c f1 f2 f3 = call proc' s c f1 f2 f3"
proof (cases "sv_clients s c")
  case (Some cl)
  then show ?thesis using assms by (cases "c_cmd cl") (simp_all add: call_def)
qed (simp add: call_def)

lemma exec_loop_cong:
  "\<forall>mc \<in> set mcs. proc (rc_name (mc_cmd mc)) = proc' (rc_name (mc_cmd mc)) \<Longrightarrow>
   exec_loop proc s c mcs must = exec_loop proc' s c mcs must"
proof (induction mcs arbitrary: s must)
  case (Cons mc mcs)
  let ?s = "upd_client s c (\<lambda>cl. cl\<lparr>c_argv := mc_argv mc, c_cmd := Some (mc_cmd mc)\<rparr>)"
  have "call proc t c True True True = call proc' t c True True True" if "sv_clients t = sv_clients ?s" for t
    using that Cons.prems by (intro call_cong) auto
  then have "call proc ?s c True True True = call proc' ?s c True True True"
    "execCommandPropagateMulti ?s c = Some t \<Longrightarrow> call proc t c True True True = call proc' t c True True True" for t
    by (auto simp: execCommandPropagateMulti_def split: bind_splits)
  then show ?case using Cons by (auto simp: Let_def intro!: Option.bind_cong split: bind_split)
qed simp

lemma execCommand_cong:
  assumes "\<And>cl mc. sv_clients s c = Some cl \<Longrightarrow> mc \<in> set (c_mstate cl) \<Longrightarrow> proc (rc_name (mc_cmd mc)) = proc' (rc_name (mc_cmd mc))"
  shows "execCommand proc s c = execCommand proc' s c"
proof (cases "sv_clients s c")
  case (Some cl)
  then have "exec_loop proc t c (c_mstate cl) b = exec_loop proc' t c (c_mstate cl) b" for t b
    using assms by (intro exec_loop_cong) blast
  then show ?thesis using Some by (simp add: execCommand_def)
qed (simp add: execCommand_def)

lemma runs_cong:
  "runs proc c s mcs ls s' \<Longrightarrow> \<forall>mc \<in> set mcs. proc (rc_name (mc_cmd mc)) = proc' (rc_name (mc_cmd mc)) \<Longrightarrow>
   runs proc' c s mcs ls s'"
proof (induction rule: runs.induct)
  case (runs_Cons t f a s mc t' cl' del l mcs ls s')
  have "call proc t c True True True = call proc' t c True True True"
    using runs_Cons.hyps(1) runs_Cons.prems by (intro call_cong) auto
  then have run: "call proc' t c True True True = Some t'" using runs_Cons.hyps(2) by simp
  have "runs proc' c t' mcs ls s'" using runs_Cons.IH runs_Cons.prems by simp
  with run show ?case by (rule runs.runs_Cons [OF runs_Cons.hyps(1) _ runs_Cons.hyps(3-6)])
qed (rule runs_Nil)

lemma runs_snocD:
  "runs proc c s (mcs @ [mc]) ls u \<Longrightarrow>
   \<exists>t cl. call proc t c True True True = Some u \<and> sv_clients t c = Some cl \<and> c_cmd cl = Some (mc_cmd mc)"
proof (induction mcs arbitrary: s ls)
  case Nil
  then obtain t where "call proc t c True True True = Some u" "sv_clients t = sv_clients (upd_client s c (\<lambda>cl. cl\<lparr>c_argv := mc_argv mc, c_cmd := Some (mc_cmd mc)\<rparr>))"
    by (auto elim!: runs_ConsE runs_NilE)
  then show ?case using call_SomeD [of proc t c True True True u] by fastforce
next
  case (Cons x mcs)
  then show ?case by (auto elim!: runs_ConsE)
qed

text \<open>The commands that may reset or truncate the count of changes.\<close>

definition resets_dirty :: "string set" where
  "resets_dirty = {''save'', ''flushall''}"

definition aof_table :: "'v env \<Rightarrow> 'v procs" where
  "aof_table e n = (if n \<in> resets_dirty then (\<lambda>s c. None) else base_procs e n)"

lemma rdbSave_step: "aof_step s t \<Longrightarrow> aof_step s (rdbSave ok t)"
  by (simp add: aof_step_def rdbSave_def)

lemma reply_step: "aof_step s t \<Longrightarrow> aof_step s (addReply t c r)"
  by (simp add: aof_step_def addReply_def upd_client_def)

lemma saves_step: "ensures (saveCommand ok s c) (aof_step s)" "ensures (flushallCommand ok s c) (aof_step s)"
proof -
  show "ensures (saveCommand ok s c) (aof_step s)"
    by (simp add: saveCommand_def ensures_def reply_step rdbSave_step aof_step_refl)
  have "aof_step s (fst (emptyDb (signalFlushedDb s (- 1))))"
    using ctr_trans [OF flush_ctr quiet_ctr [OF emptyDb_ok], of 0 s "- 1"] by (simp add: ctr_def aof_ctr_def)
  then have "aof_step s (addReply (incr_dirty n (fst (emptyDb (signalFlushedDb s (- 1))))) c r)" for n r
    by (intro reply_step) (simp add: aof_step_def incr_dirty_def)
  then show "ensures (flushallCommand ok s c) (aof_step s)"
    using rdbSave_step unfolding flushallCommand_def
    by (intro ens_struct) (auto simp: Let_def split_beta aof_step_def incr_dirty_def rdbSave_def)
qed

lemma base_step:
  assumes other: "\<forall>n s c. ensures (env_other e n s c) (ctr c s)" and run: "base_procs e n s c = Some s'"
  shows "aof_step s s' \<and> (n \<notin> resets_dirty \<longrightarrow> sv_dirty s \<le> sv_dirty s')"
proof -
  have b: "base_procs e ''unwatch'' = unwatchCommand" "base_procs e ''discard'' = discardCommand"
    "base_procs e ''save'' = saveCommand (env_save_ok e)" "base_procs e ''flushall'' = flushallCommand (env_save_ok e)"
    by (simp_all add: base_procs_def proc_table_def)
  consider "n \<in> {''unwatch'', ''discard''}" | "n \<in> resets_dirty" | "n \<notin> {''unwatch'', ''discard'', ''save'', ''flushall''}"
    by (auto simp: resets_dirty_def)
  then show ?thesis
  proof cases
    case 1
    then have "aof_ctr s s'" using run b multi_procs_feeds(2,3) [of s c] by (auto simp: ensures_def intro: feeds_aof_ctr)
    then show ?thesis by (simp add: aof_ctr_def)
  next
    case 2
    then show ?thesis using run b saves_step [of "env_save_ok e" s c] by (auto simp: resets_dirty_def ensures_def)
  next
    case 3
    then have "ensures (base_procs e n s c) (ctr c s)"
      using other proc_table_ctr [of e n _ s c] by (auto simp: base_procs_def split: option.split)
    then show ?thesis using run by (simp add: ensures_def ctr_def aof_ctr_def)
  qed
qed

lemma base_log_procs:
  assumes "redis_env e" and "\<forall>n s c. ensures (env_other e n s c) (ctr c s)"
  shows "log_procs (base_procs e)"
  by unfold_locales (use redis_env.base_keeps [OF assms(1)] base_step [OF assms(2)] in blast)+

lemma aof_table_procs:
  assumes env: "redis_env e" and other: "\<forall>n s c. ensures (env_other e n s c) (ctr c s)"
  shows "aof_procs (aof_table e)"
proof
  fix n s c s' c'
  assume ok: "server_ok s" and run: "aof_table e n s c = Some s'"
  then have "base_procs e n s c = Some s'" by (auto simp: aof_table_def split: if_splits)
  from redis_env.base_keeps [OF env ok this]
  show "server_ok s'" and "c' \<noteq> c \<Longrightarrow> cas_mono c' s s'" by blast+
next
  fix n s c s'
  assume "aof_table e n s c = Some s'"
  then have "base_procs e n s c = Some s'" "n \<notin> resets_dirty" by (auto simp: aof_table_def split: if_splits)
  then show "aof_step s s'" "sv_dirty s \<le> sv_dirty s'" using base_step [OF other] by blast+
qed

interpretation modelled_aof: aof_procs "aof_table modelled_env"
  by (rule aof_table_procs [OF modelled.redis_env_axioms]) (simp add: modelled_env_def)

interpretation modelled_log: log_procs "base_procs modelled_env"
  by (rule base_log_procs [OF modelled.redis_env_axioms]) (simp add: modelled_env_def)

text \<open>\<^verbatim>\<open>EXEC\<close> itself is logged unless the count of changes is what it was.\<close>

lemma exec_call:
  assumes env: "redis_env e" and other: "\<forall>n s c. ensures (env_other e n s c) (ctr c s)"
    and ok: "server_ok s" and c: "sv_clients s c = Some cl" "c_multi cl" "\<not> c_dirty_cas cl" "\<not> c_dirty_exec cl"
    and exec: "c_cmd cl = Some cmd" "rc_name cmd = ''exec''" and on: "sv_aof_on s"
    and w: "\<exists>mc \<in> set (c_mstate cl). \<not> rc_readonly (mc_cmd mc)"
    and run: "call (redis_procs e) s c True True True = Some s'"
  shows "\<exists>s0 s1 cl1 cl' ls d d'. server_ok s0 \<and> same_tables s s0 \<and> sv_dirty s0 = sv_dirty s \<and>
    runs (base_procs e) c s0 (c_mstate cl) ls s1 \<and> same_tables s1 s' \<and>
    sv_clients s1 c = Some cl1 \<and> sv_clients s' c = Some cl' \<and> c_reply cl' = c_reply cl1 \<and>
    sv_aof s' = sv_aof s @ tx_log d (c_mstate cl) ls @ (if sv_dirty s1 + 1 = sv_dirty s then [] else [(d', c_argv cl)])"
proof -
  let ?s = "call_pre cmd cl s"
  have c1: "sv_clients ?s c = Some cl" using c(1) by simp
  have ok1: "server_ok ?s" using ok call_pre_any by (auto simp: any_ctr_def)
  obtain s2 where s2: "execCommand (base_procs e) ?s c = Some s2"
    using call_SomeD [OF run] c(1) exec by (auto simp: redis_procs_def)
  have on1: "sv_aof_on ?s" using on by simp
  obtain s0 s1 cl1 cl' ls d where x: "server_ok s0" "same_tables ?s s0" "sv_dirty s0 = sv_dirty ?s"
    "runs (base_procs e) c s0 (c_mstate cl) ls s1" "same_tables s1 s2" "sv_dirty s2 = sv_dirty s1 + 1" "sv_aof_on s2"
    "sv_also_propagate s2 = []" "sv_clients s1 c = Some cl1" "sv_clients s2 c = Some cl'" "c_argv cl' = c_argv cl" "c_cmd cl' = c_cmd cl"
    "c_reply cl' = c_reply cl1" "sv_aof s2 = sv_aof ?s @ tx_log d (c_mstate cl) ls"
    using log_procs.exec_log [OF base_log_procs [OF env other] ok1 c1 c(2-4) on1 w s2] by blast
  have "server_ok s2"
    using redis_env.redis_keeps [OF env ok1, of "''exec''" c s2] s2 by (simp add: redis_procs_def)
  then have sl: "slowlog_ok (sv_slowlog s2)" by (simp add: server_ok_def)
  have p: "redis_procs e (rc_name cmd) ?s c = Some s2" using s2 exec(2) by (simp add: redis_procs_def)
  have cm: "c_cmd cl' = Some cmd" using x(12) exec(1) by simp
  have r: "sv_db s' = sv_db s2" "sv_clients s' = sv_clients s2"
    "sv_aof s' = sv_aof s2 @ (if sv_dirty s2 = sv_dirty s then [] else [(c_db cl', c_argv cl)])"
    using call_Some [of s c cl cmd "redis_procs e" s2, OF c(1) exec(1) p sl x(10) cm, of True True True] run x(7,8,11) by auto
  have "same_tables s s0" "same_tables s1 s'" using x(2,5) r(1) by (simp_all add: same_tables_def)
  then show ?thesis
    using x r(2,3)
    by (intro exI [of _ s0] exI [of _ s1] exI [of _ cl1] exI [of _ cl'] exI [of _ ls] exI [of _ d] exI [of _ "c_db cl'"]) simp
qed

text \<open>C8. What a transaction logs.  When \<^verbatim>\<open>EXEC\<close> runs a transaction with a command that is not read-only, the append-only file is
  on and no queued command resets the count of changes (\<^verbatim>\<open>SAVE\<close>, \<^verbatim>\<open>FLUSHALL\<close>), the file grows by the log
  of the transaction and the client's \<^verbatim>\<open>EXEC\<close>.  The queued commands are called one after the other on the data of the server (\<open>runs\<close>);
  a command logs the keys that expired meanwhile and, exactly when it changed the count of changes, itself.  The \<^verbatim>\<open>MULTI\<close> stands
  before all that the first command that is not read-only and the commands behind it log, and only what the read-only commands
  in front log stands before it (\<open>tx_log\<close>).\<close>

theorem transaction_bracketed_in_aof:
  assumes env: "redis_env e" and other: "\<forall>n s c. ensures (env_other e n s c) (ctr c s)"
    and ok: "server_ok s" and c: "sv_clients s c = Some cl" "c_multi cl" "\<not> c_dirty_cas cl" "\<not> c_dirty_exec cl"
    and exec: "c_cmd cl = Some cmd" "rc_name cmd = ''exec''" and on: "sv_aof_on s"
    and w: "\<exists>mc \<in> set (c_mstate cl). \<not> rc_readonly (mc_cmd mc)"
    and names: "\<forall>mc \<in> set (c_mstate cl). rc_name (mc_cmd mc) \<notin> {''save'', ''flushall''}"
    and run: "call (redis_procs e) s c True True True = Some s'"
  shows "\<exists>s0 s1 ls d d'. same_tables s s0 \<and> runs (base_procs e) c s0 (c_mstate cl) ls s1 \<and> same_tables s1 s' \<and>
    sv_aof s' = sv_aof s @ tx_log d (c_mstate cl) ls @ [(d', c_argv cl)]"
proof -
  obtain s0 s1 ls d d' where x: "server_ok s0" "same_tables s s0" "sv_dirty s0 = sv_dirty s"
    "runs (base_procs e) c s0 (c_mstate cl) ls s1" "same_tables s1 s'"
    "sv_aof s' = sv_aof s @ tx_log d (c_mstate cl) ls @ (if sv_dirty s1 + 1 = sv_dirty s then [] else [(d', c_argv cl)])"
    using exec_call [OF env other ok c exec on w run] by blast
  have "runs (aof_table e) c s0 (c_mstate cl) ls s1"
    using names by (intro runs_cong [OF x(4)]) (auto simp: aof_table_def resets_dirty_def)
  then have "sv_dirty s \<le> sv_dirty s1"
    using aof_procs.runs_dirty [OF aof_table_procs [OF env other]] x(1,3) by fastforce
  then show ?thesis using x(2,4-6) by (intro exI [of _ s0] exI [of _ s1] exI [of _ ls] exI [of _ d] exI [of _ d']) simp
qed

text \<open>A server with the append-only file on and a given number of changes since the last save; client 1
  is about to execute the given queue.\<close>

definition cmd_of :: "command_row \<Rightarrow> redisCommand" where
  "cmd_of row = (case row_command row of Some cmd \<Rightarrow> cmd | None \<Rightarrow> row_base row)"

definition exec_cmd :: redisCommand where
  "exec_cmd = cmd_of (''exec'', 1, ''sM'', GK_None, 0, 0, 0)"

definition del_mc :: multiCmd where
  "del_mc = \<lparr>mc_argv = [''DEL'', ''k''], mc_cmd = cmd_of (''del'', - 2, ''w'', GK_NoPreload, 1, - 1, 1)\<rparr>"

definition save_mc :: multiCmd where
  "save_mc = \<lparr>mc_argv = [''SAVE''], mc_cmd = cmd_of (''save'', 1, ''ars'', GK_None, 0, 0, 0)\<rparr>"

definition exec_example :: "multiCmd list \<Rightarrow> int \<Rightarrow> int redisServer" where
  "exec_example q dirty = (initServer 0 :: int redisServer)\<lparr>
     sv_db := [\<lparr>db_dict = [(''k'', 7)], db_expires = [], db_watched_keys = []\<rparr>],
     sv_clients := [1 \<mapsto> new_client\<lparr>c_multi := True, c_argv := [''EXEC''], c_cmd := Some exec_cmd, c_mstate := q\<rparr>],
     sv_client_list := [1], sv_aof_on := True, sv_dirty := dirty, sv_slowlog := slowlogInit (- 1) 128\<rparr>"

lemma exec_example_aof:
  "map_option sv_aof (call (redis_procs modelled_env) (exec_example [del_mc] 1) 1 True True True) =
   Some [(0, [''MULTI'']), (0, [''DEL'', ''k'']), (0, [''EXEC''])]"
  by code_simp

lemma exec_example_ok: "server_ok (exec_example q n)"
proof -
  have g: "get_db (exec_example q n) d = (if d = 0 then Some \<lparr>db_dict = [(''k'', 7)], db_expires = [], db_watched_keys = []\<rparr> else None)" for d
    by (auto simp: exec_example_def get_db_def)
  have "watch_ok (exec_example q n)"
    by (rule watch_okI) (auto simp: tables_ok_def watchers_def g split: if_splits, auto simp: exec_example_def split: if_splits)
  moreover have "slowlog_ok (sv_slowlog (exec_example q n))"
    using init_rep by (auto simp: slowlog_ok_def exec_example_def)
  ultimately show ?thesis by (simp add: server_ok_def) (simp add: exec_example_def db_ok_def db_wf_def)
qed

theorem transaction_bracketed_in_aof_witness:
  "\<exists>s' s0 s1 ls d d'. call (redis_procs modelled_env) (exec_example [del_mc] 1) 1 True True True = Some s' \<and>
    runs (base_procs modelled_env) 1 s0 [del_mc] ls s1 \<and> sv_aof s' = tx_log d [del_mc] ls @ [(d', [''EXEC''])]"
proof -
  let ?s = "exec_example [del_mc] 1"
  let ?cl = "new_client\<lparr>c_multi := True, c_argv := [''EXEC''], c_cmd := Some exec_cmd, c_mstate := [del_mc]\<rparr>"
  obtain s' where s': "call (redis_procs modelled_env) ?s 1 True True True = Some s'" using exec_example_aof by blast
  have c: "sv_clients ?s 1 = Some ?cl" "sv_aof_on ?s" "sv_aof ?s = []" by (simp_all add: exec_example_def initServer_def)
  have o: "\<forall>n s c. ensures (env_other modelled_env n s c) (ctr c s)" by (simp add: modelled_env_def)
  have n: "rc_name exec_cmd = ''exec''" "\<not> rc_readonly (mc_cmd del_mc)" "rc_name (mc_cmd del_mc) = ''del''" by code_simp+
  from transaction_bracketed_in_aof [OF modelled.redis_env_axioms o exec_example_ok c(1) _ _ _ _ n(1) c(2) _ _ s'] n c(3)
  obtain s0 s1 ls d d' where "runs (base_procs modelled_env) 1 s0 [del_mc] ls s1" "sv_aof s' = tx_log d [del_mc] ls @ [(d', [''EXEC''])]"
    by (auto simp: new_client_def)
  then show ?thesis using s' by blast
qed

text \<open>C23. A transaction that ends with a successful \<^verbatim>\<open>SAVE\<close>, on a server with one change since the last save, leaves
  a \<^verbatim>\<open>MULTI\<close> without \<^verbatim>\<open>EXEC\<close> in the append-only file, whatever the other commands are: \<^verbatim>\<open>SAVE\<close> resets the count of changes to 0,
  \<^verbatim>\<open>EXEC\<close> adds 1 to have itself logged, and \<^verbatim>\<open>call\<close> finds the count it started with and does not log it.\<close>

theorem save_leaves_multi_open:
  assumes env: "redis_env e" and other: "\<forall>n s c. ensures (env_other e n s c) (ctr c s)"
    and ok: "server_ok s" and c: "sv_clients s c = Some cl" "c_multi cl" "\<not> c_dirty_cas cl" "\<not> c_dirty_exec cl"
    and exec: "c_cmd cl = Some cmd" "rc_name cmd = ''exec''" and on: "sv_aof_on s"
    and w: "\<exists>mc \<in> set (c_mstate cl). \<not> rc_readonly (mc_cmd mc)"
    and q: "c_mstate cl = q @ [mc]" "rc_name (mc_cmd mc) = ''save''" and one: "sv_dirty s = 1"
    and run: "call (redis_procs e) s c True True True = Some s'"
    and saved: "sv_clients s' c = Some cl'" "last (c_reply cl') = R_Status ''OK''"
  shows "\<exists>s0 s1 ls d. same_tables s s0 \<and> runs (base_procs e) c s0 (c_mstate cl) ls s1 \<and> same_tables s1 s' \<and>
    sv_aof s' = sv_aof s @ tx_log d (c_mstate cl) ls"
proof -
  obtain s0 s1 cl1 ls d d' where x: "same_tables s s0" "runs (base_procs e) c s0 (c_mstate cl) ls s1" "same_tables s1 s'"
    "sv_clients s1 c = Some cl1" "c_reply cl' = c_reply cl1"
    "sv_aof s' = sv_aof s @ tx_log d (c_mstate cl) ls @ (if sv_dirty s1 + 1 = sv_dirty s then [] else [(d', c_argv cl)])"
    using exec_call [OF env other ok c exec on w run] saved(1) by auto
  obtain t clt where t: "call (base_procs e) t c True True True = Some s1" "sv_clients t c = Some clt" "c_cmd clt = Some (mc_cmd mc)"
    using runs_snocD [OF x(2) [unfolded q(1)]] by blast
  obtain s2 where s2: "saveCommand (env_save_ok e) (call_pre (mc_cmd mc) clt t) c = Some s2" "sv_clients s1 = sv_clients s2" "sv_dirty s1 = sv_dirty s2"
    using call_runs [OF t(1)] t(2,3) q(2) by (auto simp: base_procs_def proc_table_def)
  have "sv_dirty s2 = 0"
    using s2(1,2) x(4,5) saved(2) t(2)
    by (auto simp: saveCommand_def rdbSave_def addReply_def split: if_splits)
  then show ?thesis using x(1-3,6) one s2(3) by (intro exI [of _ s0] exI [of _ s1] exI [of _ ls] exI [of _ d]) simp
qed

theorem save_leaves_multi_open_witness:
  "\<exists>s' s0 s1 ls d. call (redis_procs modelled_env) (exec_example [del_mc, save_mc] 1) 1 True True True = Some s' \<and>
    runs (base_procs modelled_env) 1 s0 [del_mc, save_mc] ls s1 \<and> sv_aof s' = tx_log d [del_mc, save_mc] ls \<and>
    sv_aof s' = [(0, [''MULTI'']), (0, [''DEL'', ''k'']), (0, [''SAVE''])]"
proof -
  let ?s = "exec_example [del_mc, save_mc] 1"
  let ?cl = "new_client\<lparr>c_multi := True, c_argv := [''EXEC''], c_cmd := Some exec_cmd, c_mstate := [del_mc, save_mc]\<rparr>"
  have "map_option (\<lambda>s. (sv_aof s, map_option (\<lambda>cl. last (c_reply cl)) (sv_clients s 1)))
      (call (redis_procs modelled_env) ?s 1 True True True) =
    Some ([(0, [''MULTI'']), (0, [''DEL'', ''k'']), (0, [''SAVE''])], Some (R_Status ''OK''))"
    by code_simp
  then obtain s' cl' where s': "call (redis_procs modelled_env) ?s 1 True True True = Some s'"
    "sv_aof s' = [(0, [''MULTI'']), (0, [''DEL'', ''k'']), (0, [''SAVE''])]" "sv_clients s' 1 = Some cl'" "last (c_reply cl') = R_Status ''OK''"
    by auto
  have c: "sv_clients ?s 1 = Some ?cl" "sv_aof_on ?s" "sv_aof ?s = []" "sv_dirty ?s = 1" by (simp_all add: exec_example_def initServer_def)
  have o: "\<forall>n s c. ensures (env_other modelled_env n s c) (ctr c s)" by (simp add: modelled_env_def)
  have n: "rc_name exec_cmd = ''exec''" "\<not> rc_readonly (mc_cmd del_mc)" "rc_name (mc_cmd save_mc) = ''save''" by code_simp+
  from save_leaves_multi_open [OF modelled.redis_env_axioms o exec_example_ok c(1) _ _ _ _ n(1) c(2) _ _ n(3) c(4) s'(1,3,4), of "[del_mc]"] n c(3)
  show ?thesis using s'(1,2) by (auto simp: new_client_def)
qed

end
