(* ===== verification/Protocol.thy ===== *)
theory Protocol
  imports Histories Sds
begin

section \<open>The request protocol (\<^verbatim>\<open>networking.c\<close>, \<^verbatim>\<open>aof.c\<close>)\<close>

text \<open>
  Reading commands from a connection: the bytes received are collected in the query buffer, from which
  one command after the other is parsed, in the multi bulk or the inline format, and processed.  The
  buffer is the text of its dynamic string (the theory of dynamic strings shows that cutting and
  appending are what they are here).  The state of the parser is its own record; error replies are collected in it.  The
  flag \<^verbatim>\<open>rd_blocked\<close> is set by blocking commands only, which are not modelled.  \<open>None\<close> is a failed
  assertion.
\<close>

datatype reqtype = REDIS_REQ_INLINE | REDIS_REQ_MULTIBULK

record reader =
  rd_querybuf :: string
  rd_querybuf_peak :: nat
  rd_reqtype :: "reqtype option"
  rd_multibulklen :: nat
  rd_bulklen :: int
  rd_argv :: "string list"
  rd_blocked :: bool
  rd_close :: bool
  rd_reply :: "reply list"

abbreviation CR :: char where "CR \<equiv> CHR 0x0D"
abbreviation LF :: char where "LF \<equiv> CHR 0x0A"

definition REDIS_MAX_QUERYBUF_LEN :: nat where
  "REDIS_MAX_QUERYBUF_LEN = 1024 * 1024 * 1024"

definition REDIS_IOBUF_LEN :: nat where
  "REDIS_IOBUF_LEN = 1024 * 16"

definition REDIS_INLINE_MAX_SIZE :: nat where
  "REDIS_INLINE_MAX_SIZE = 1024 * 64"

definition REDIS_MBULK_BIG_ARG :: nat where
  "REDIS_MBULK_BIG_ARG = 1024 * 32"

definition new_reader :: reader where
  "new_reader = \<lparr>rd_querybuf = [], rd_querybuf_peak = 0, rd_reqtype = None, rd_multibulklen = 0, rd_bulklen = - 1, rd_argv = [],
     rd_blocked = False, rd_close = False, rd_reply = []\<rparr>"

text \<open>The position that \<^verbatim>\<open>strchr\<close> finds in a block terminated by NUL.\<close>

definition index_of :: "char \<Rightarrow> string \<Rightarrow> nat option" where
  "index_of x s = (let t = c_string s in if x \<in> set t then Some (length (takeWhile (\<lambda>y. y \<noteq> x) t)) else None)"

text \<open>The position that \<^verbatim>\<open>strstr\<close> finds for a line end.\<close>

fun index_crlf :: "string \<Rightarrow> nat option" where
  "index_crlf (x # y # s) =
     (if x = NUL then None
      else if x = CR \<and> y = LF then Some 0
      else map_option Suc (index_crlf (y # s)))"
| "index_crlf _ = None"

definition resetClient :: "reader \<Rightarrow> reader" where
  "resetClient r = r\<lparr>rd_argv := [], rd_reqtype := None, rd_multibulklen := 0, rd_bulklen := - 1\<rparr>"

definition setProtocolError :: "reader \<Rightarrow> nat \<Rightarrow> reader" where
  "setProtocolError r pos = r\<lparr>rd_close := True, rd_querybuf := drop pos (rd_querybuf r)\<rparr>"

definition addReplyError :: "reader \<Rightarrow> string \<Rightarrow> reader" where
  "addReplyError r msg = r\<lparr>rd_reply := rd_reply r @ [R_Error msg]\<rparr>"

text \<open>The formatted text ends at a NUL, and line ends in it become blanks.\<close>

definition addReplyErrorFormat :: "reader \<Rightarrow> string \<Rightarrow> reader" where
  "addReplyErrorFormat r msg = addReplyError r (map (\<lambda>x. if x = CR \<or> x = LF then CHR '' '' else x) (c_string msg))"

text \<open>\<open>True\<close> is \<^verbatim>\<open>REDIS_OK\<close>.\<close>

definition processInlineBuffer :: "reader \<Rightarrow> (reader \<times> bool) option" where
  "processInlineBuffer r =
     (case index_crlf (rd_querybuf r) of
        None \<Rightarrow>
          Some (if length (rd_querybuf r) > REDIS_INLINE_MAX_SIZE
                then setProtocolError (addReplyError r ''Protocol error: too big inline request'') 0 else r, False)
      | Some querylen \<Rightarrow> do {
          argv \<leftarrow> sdssplitlen (take querylen (rd_querybuf r)) '' '';
          Some (r\<lparr>rd_querybuf := drop (querylen + 2) (rd_querybuf r), rd_argv := filter (\<lambda>a. a \<noteq> []) argv\<rparr>, True)
        })"

subsection \<open>Multi bulk requests\<close>

text \<open>How a part of the loop ends: it goes on, breaks out of the loop, or returns an error.\<close>

datatype loop_end = Go | Break | Ret

definition read_bulklen :: "reader \<Rightarrow> nat \<Rightarrow> reader \<times> nat \<times> loop_end" where
  "read_bulklen r pos =
     (if rd_bulklen r \<noteq> - 1 then (r, pos, Go)
      else case index_of CR (drop pos (rd_querybuf r)) of
        None \<Rightarrow>
          (if length (rd_querybuf r) > REDIS_INLINE_MAX_SIZE
           then setProtocolError (addReplyError r ''Protocol error: too big bulk count string'') 0 else r, pos, Break)
      | Some n \<Rightarrow>
          if pos + n + 2 > length (rd_querybuf r) then (r, pos, Break)
          else if rd_querybuf r ! pos \<noteq> CHR ''$'' then
            (setProtocolError (addReplyErrorFormat r
               (''Protocol error: expected '' @ [CHR 0x27] @ ''$'' @ [CHR 0x27] @ '', got '' @ [CHR 0x27, rd_querybuf r ! pos, CHR 0x27])) pos,
             pos, Ret)
          else (case string2ll (take (n - 1) (drop (pos + 1) (rd_querybuf r))) of
            None \<Rightarrow> (setProtocolError (addReplyError r ''Protocol error: invalid bulk length'') pos, pos, Ret)
          | Some ll \<Rightarrow>
              if ll < 0 \<or> ll > 512 * 1024 * 1024
              then (setProtocolError (addReplyError r ''Protocol error: invalid bulk length'') pos, pos, Ret)
              else if ll \<ge> int REDIS_MBULK_BIG_ARG
              then (r\<lparr>rd_querybuf := drop (pos + n + 2) (rd_querybuf r), rd_bulklen := ll\<rparr>, 0, Go)
              else (r\<lparr>rd_bulklen := ll\<rparr>, pos + n + 2, Go)))"

text \<open>The argument, when all of it is there.\<close>

definition read_bulk :: "reader \<Rightarrow> nat \<Rightarrow> (reader \<times> nat) option" where
  "read_bulk r pos =
     (let len = nat (rd_bulklen r) in
      if length (rd_querybuf r) - pos < len + 2 then None
      else if pos = 0 \<and> len \<ge> REDIS_MBULK_BIG_ARG \<and> length (rd_querybuf r) = len + 2 then
        Some (r\<lparr>rd_argv := rd_argv r @ [take (length (rd_querybuf r) - 2) (rd_querybuf r)], rd_querybuf := [],
                rd_bulklen := - 1, rd_multibulklen := rd_multibulklen r - 1\<rparr>, 0)
      else
        Some (r\<lparr>rd_argv := rd_argv r @ [take len (drop pos (rd_querybuf r))],
                rd_bulklen := - 1, rd_multibulklen := rd_multibulklen r - 1\<rparr>, pos + len + 2))"

lemma read_bulklen_mbl: "read_bulklen r pos = (r1, pos1, z) \<Longrightarrow> rd_multibulklen r1 = rd_multibulklen r"
  by (auto simp: read_bulklen_def setProtocolError_def addReplyErrorFormat_def addReplyError_def split: if_splits option.splits)

lemma read_bulk_mbl: "read_bulk r pos = Some (r1, pos1) \<Longrightarrow> rd_multibulklen r1 = rd_multibulklen r - 1"
  by (auto simp: read_bulk_def Let_def split: if_splits)

text \<open>The loop over the arguments; the flag is whether it returned an error.\<close>

function mb_loop :: "reader \<Rightarrow> nat \<Rightarrow> reader \<times> nat \<times> bool" where
  "mb_loop r pos =
     (if rd_multibulklen r = 0 then (r, pos, False)
      else case read_bulklen r pos of
        (r1, pos1, Ret) \<Rightarrow> (r1, pos1, True)
      | (r1, pos1, Break) \<Rightarrow> (r1, pos1, False)
      | (r1, pos1, Go) \<Rightarrow>
          (case read_bulk r1 pos1 of
             None \<Rightarrow> (r1, pos1, False)
           | Some (r2, pos2) \<Rightarrow> mb_loop r2 pos2))"
  by pat_completeness auto
termination
  by (relation "measure (\<lambda>(r, pos). rd_multibulklen r)") (auto dest!: read_bulk_mbl dest: read_bulklen_mbl [OF sym])

declare mb_loop.simps [simp del]

text \<open>The header of a request, when it is not known: the number of arguments.  The flag of the second case is
  \<^verbatim>\<open>REDIS_OK\<close> of an early return.\<close>

definition read_header :: "reader \<Rightarrow> (reader \<times> (nat + bool)) option" where
  "read_header r =
     (if rd_argv r \<noteq> [] then None
      else case index_of CR (rd_querybuf r) of
        None \<Rightarrow>
          Some (if length (rd_querybuf r) > REDIS_INLINE_MAX_SIZE
                then setProtocolError (addReplyError r ''Protocol error: too big mbulk count string'') 0 else r, Inr False)
      | Some n \<Rightarrow>
          if n + 2 > length (rd_querybuf r) then Some (r, Inr False)
          else if rd_querybuf r ! 0 \<noteq> CHR ''*'' then None
          else (case string2ll (take (n - 1) (drop 1 (rd_querybuf r))) of
            None \<Rightarrow> Some (setProtocolError (addReplyError r ''Protocol error: invalid multibulk length'') 0, Inr False)
          | Some ll \<Rightarrow>
              if ll > 1024 * 1024
              then Some (setProtocolError (addReplyError r ''Protocol error: invalid multibulk length'') 0, Inr False)
              else if ll \<le> 0 then Some (r\<lparr>rd_querybuf := drop (n + 2) (rd_querybuf r)\<rparr>, Inr True)
              else Some (r\<lparr>rd_multibulklen := nat ll\<rparr>, Inl (n + 2))))"

definition processMultibulkBuffer :: "reader \<Rightarrow> (reader \<times> bool) option" where
  "processMultibulkBuffer r = do {
     (r1, h) \<leftarrow> (if rd_multibulklen r = 0 then read_header r else Some (r, Inl 0));
     case h of
       Inr ok \<Rightarrow> Some (r1, ok)
     | Inl pos0 \<Rightarrow>
         (case mb_loop r1 pos0 of
            (r2, pos, True) \<Rightarrow> Some (r2, False)
          | (r2, pos, False) \<Rightarrow>
              Some (r2\<lparr>rd_querybuf := drop pos (rd_querybuf r2)\<rparr>, rd_multibulklen r2 = 0))
   }"

subsection \<open>The input loop\<close>

text \<open>\<open>proc\<close> processes a command; it returns the new state, whether the connection is to be closed after
  the replies, and whether it was \<^verbatim>\<open>REDIS_OK\<close>.\<close>

type_synonym 's processor = "'s \<Rightarrow> string list \<Rightarrow> ('s \<times> bool \<times> bool) option"

definition request_type :: "reader \<Rightarrow> reader" where
  "request_type r =
     (if rd_reqtype r = None
      then r\<lparr>rd_reqtype := Some (if rd_querybuf r ! 0 = CHR ''*'' then REDIS_REQ_MULTIBULK else REDIS_REQ_INLINE)\<rparr> else r)"

definition parse_request :: "reader \<Rightarrow> (reader \<times> bool) option" where
  "parse_request r =
     (case rd_reqtype r of
        Some REDIS_REQ_INLINE \<Rightarrow> processInlineBuffer r
      | Some REDIS_REQ_MULTIBULK \<Rightarrow> processMultibulkBuffer r
      | None \<Rightarrow> None)"

definition handle_request :: "'s processor \<Rightarrow> 's \<Rightarrow> reader \<Rightarrow> ('s \<times> reader) option" where
  "handle_request proc s r =
     (if rd_argv r = [] then Some (s, resetClient r)
      else do {
        (s1, close, ok) \<leftarrow> proc s (rd_argv r);
        let r1 = r\<lparr>rd_close := rd_close r \<or> close\<rparr>;
        Some (s1, if ok then resetClient r1 else r1)
      })"

partial_function (option) processInputBuffer :: "'s processor \<Rightarrow> 's \<Rightarrow> reader \<Rightarrow> ('s \<times> reader) option" where
  "processInputBuffer proc s r =
     (if rd_querybuf r = [] \<or> rd_blocked r \<or> rd_close r then Some (s, r)
      else parse_request (request_type r) \<bind> (\<lambda>(r1, ok).
        if \<not> ok then Some (s, r1)
        else handle_request proc s r1 \<bind> (\<lambda>(s1, r2). processInputBuffer proc s1 r2)))"

text \<open>The number of bytes \<^verbatim>\<open>readQueryFromClient\<close> asks for, what the system call can return, and what the
  function does with it; the reader is gone when the client is freed.\<close>

definition readlen :: "reader \<Rightarrow> nat" where
  "readlen r =
     (if rd_reqtype r = Some REDIS_REQ_MULTIBULK \<and> rd_multibulklen r \<noteq> 0 \<and> rd_bulklen r \<noteq> - 1 \<and>
         rd_bulklen r \<ge> int REDIS_MBULK_BIG_ARG
      then min REDIS_IOBUF_LEN (nat (rd_bulklen r + 2) - length (rd_querybuf r)) else REDIS_IOBUF_LEN)"

datatype nread = Read_Error | Read_Again | Read_Eof | Read_Bytes string

definition readQueryFromClient :: "'s processor \<Rightarrow> 's \<Rightarrow> reader \<Rightarrow> nread \<Rightarrow> ('s \<times> reader option) option" where
  "readQueryFromClient proc s r n =
     (let r0 = r\<lparr>rd_querybuf_peak := max (rd_querybuf_peak r) (length (rd_querybuf r))\<rparr> in
      case n of
        Read_Error \<Rightarrow> Some (s, None)
      | Read_Eof \<Rightarrow> Some (s, None)
      | Read_Again \<Rightarrow> Some (s, Some r0)
      | Read_Bytes bytes \<Rightarrow>
          let r1 = r0\<lparr>rd_querybuf := rd_querybuf r0 @ bytes\<rparr> in
          if length (rd_querybuf r1) > REDIS_MAX_QUERYBUF_LEN then Some (s, None)
          else map_option (\<lambda>(s', r'). (s', Some r')) (processInputBuffer proc s r1))"

text \<open>The processor of a connected client of the server.\<close>

definition server_processor :: "'v env \<Rightarrow> nat \<Rightarrow> 'v redisServer processor" where
  "server_processor e c s argv = do {
     (s1, ok) \<leftarrow> processCommand e (upd_client s c (\<lambda>cl. cl\<lparr>c_argv := argv\<rparr>)) c;
     cl \<leftarrow> sv_clients s1 c;
     Some (s1, c_close_after_reply cl, ok)
   }"

subsection \<open>Writing requests\<close>

text \<open>The request that \<^verbatim>\<open>catAppendOnlyGenericCommand\<close> appends to the append-only file.\<close>

definition bulk_item :: "string \<Rightarrow> string" where
  "bulk_item a = CHR ''$'' # snd (ll2string 31 (int (length a))) @ [CR, LF] @ a @ [CR, LF]"

definition catAppendOnlyGenericCommand :: "string list \<Rightarrow> string" where
  "catAppendOnlyGenericCommand argv =
     CHR ''*'' # snd (ll2string 31 (int (length argv))) @ [CR, LF] @ concat (map bulk_item argv)"

subsection \<open>What the server does with any input\<close>

text \<open>The commands are executed in order until one closes the connection.\<close>

fun serve :: "'s processor \<Rightarrow> 's \<Rightarrow> string list list \<Rightarrow> ('s \<times> bool) option" where
  "serve proc s [] = Some (s, False)"
| "serve proc s (argv # cs) =
     proc s argv \<bind> (\<lambda>(s1, close, ok). if close then Some (s1, True) else serve proc s1 cs)"

text \<open>The states of a reader between two calls: where a new request begins, nothing of it has been
  parsed, and a multi bulk request of unknown length begins with its marker.\<close>

definition reader_ok :: "reader \<Rightarrow> bool" where
  "reader_ok r \<longleftrightarrow> rd_bulklen r \<ge> - 1 \<and>
     (rd_reqtype r \<noteq> Some REDIS_REQ_MULTIBULK \<longrightarrow> rd_multibulklen r = 0) \<and>
     (rd_multibulklen r = 0 \<longrightarrow> rd_argv r = [] \<and> rd_bulklen r = - 1) \<and>
     (rd_multibulklen r = 0 \<and> rd_reqtype r = Some REDIS_REQ_MULTIBULK \<longrightarrow>
        (\<exists>s. rd_querybuf r = CHR ''*'' # s))"

lemma takeWhile_first: "x \<notin> set ys \<Longrightarrow> takeWhile (\<lambda>y. y \<noteq> x) (ys @ x # zs) = ys"
  by (induction ys) auto

lemma index_of_Some: "index_of x s = Some n \<Longrightarrow> n < length s \<and> s ! n = x"
proof -
  assume i: "index_of x s = Some n"
  then have "x \<in> set (c_string s)" by (auto simp: index_of_def Let_def split: if_splits)
  then obtain ys zs where t: "c_string s = ys @ x # zs" "x \<notin> set ys" using split_list_first by metis
  then have n: "n = length ys"
    using i takeWhile_first [OF t(2)] by (simp add: index_of_def)
  obtain us where "s = c_string s @ us" unfolding c_string_def by (metis takeWhile_dropWhile_id)
  then have "s = ys @ x # (zs @ us)" unfolding t by simp
  then show ?thesis using n by (metis length_append length_Cons less_add_Suc1 nth_append_length add_Suc_right)
qed

lemma index_crlf_Some: "index_crlf s = Some n \<Longrightarrow> n + 2 \<le> length s"
  by (induction s arbitrary: n rule: index_crlf.induct) (auto split: if_splits)

lemmas error_defs = setProtocolError_def addReplyErrorFormat_def addReplyError_def

text \<open>What reading a length and reading an argument leave, in the terms of the invariant.\<close>

definition mid_request :: "reader \<Rightarrow> reader \<Rightarrow> bool" where
  "mid_request r r' \<longleftrightarrow> rd_reqtype r' = rd_reqtype r \<and> rd_blocked r' = rd_blocked r \<and> rd_bulklen r' \<ge> - 1"

lemma read_bulklen_ok:
  assumes "read_bulklen r pos = (r1, pos1, z)" and "pos \<le> length (rd_querybuf r)" and "- 1 \<le> rd_bulklen r"
  shows "mid_request r r1 \<and> (rd_close r1 \<or> z \<noteq> Ret \<and> rd_close r1 = rd_close r \<and> pos1 \<le> length (rd_querybuf r1)) \<and>
    length (rd_querybuf r1) - pos1 \<le> length (rd_querybuf r) - pos \<and> (z = Go \<longrightarrow> rd_close r1 = rd_close r)"
  using assms
  by (auto simp: read_bulklen_def error_defs mid_request_def split: if_splits option.splits)

lemma read_bulk_ok:
  assumes "read_bulk r pos = Some (r1, pos1)" and "pos \<le> length (rd_querybuf r)"
  shows "mid_request r r1 \<and> rd_close r1 = rd_close r \<and> pos1 \<le> length (rd_querybuf r1) \<and> rd_bulklen r1 = - 1 \<and>
    length (rd_querybuf r1) - pos1 + 2 \<le> length (rd_querybuf r) - pos"
  using assms by (auto simp: read_bulk_def mid_request_def Let_def split: if_splits)

text \<open>Every complete request is consumed from the buffer, so the loop ends.\<close>

lemma mb_loop_ok:
  "mb_loop r pos = (r', pos', err) \<Longrightarrow> pos \<le> length (rd_querybuf r) \<Longrightarrow> - 1 \<le> rd_bulklen r \<Longrightarrow> \<not> rd_close r \<Longrightarrow>
   rd_multibulklen r \<noteq> 0 \<or> rd_bulklen r = - 1 \<Longrightarrow>
   mid_request r r' \<and> (err \<longrightarrow> rd_close r') \<and> (rd_multibulklen r' = 0 \<longrightarrow> rd_bulklen r' = - 1 \<and> \<not> rd_close r') \<and>
   length (rd_querybuf r') - pos' + (if rd_multibulklen r' = 0 \<and> rd_multibulklen r \<noteq> 0 then 2 else 0)
     \<le> length (rd_querybuf r) - pos"
proof (induction r pos arbitrary: r' pos' err rule: mb_loop.induct)
  case (1 r pos)
  show ?case
  proof (cases "rd_multibulklen r = 0")
    case True
    then show ?thesis using 1 by (auto simp: mb_loop.simps [of r] mid_request_def)
  next
    case mbl: False
    obtain r1 pos1 z where l: "read_bulklen r pos = (r1, pos1, z)" by (metis prod_cases3)
    note b = read_bulklen_ok [OF l "1.prems"(2,3)] read_bulklen_mbl [OF l]
    show ?thesis
    proof (cases "z = Go")
      case True
      show ?thesis
      proof (cases "read_bulk r1 pos1")
        case None
        then show ?thesis using 1 b l True mbl by (auto simp: mb_loop.simps [of r])
      next
        case (Some x)
        then obtain r2 pos2 where x: "read_bulk r1 pos1 = Some (r2, pos2)" by (cases x) auto
        have p: "pos1 \<le> length (rd_querybuf r1)" using b True "1.prems"(4) by auto
        have m: "mb_loop r2 pos2 = (r', pos', err)"
          using "1.prems"(1) l x True mbl by (simp add: mb_loop.simps [of r])
        have "length (rd_querybuf r') - pos' \<le> length (rd_querybuf r2) - pos2 \<and> mid_request r2 r' \<and>
          (err \<longrightarrow> rd_close r') \<and> (rd_multibulklen r' = 0 \<longrightarrow> rd_bulklen r' = - 1 \<and> \<not> rd_close r')"
          using "1.IH" [OF mbl l [symmetric] refl _ x refl m] read_bulk_ok [OF x p] b True "1.prems"(4)
          by (auto split: if_splits)
        then show ?thesis using read_bulk_ok [OF x p] b mbl by (auto simp: mid_request_def)
      qed
    next
      case False
      then show ?thesis using "1.prems" b l mbl by (cases z) (auto simp: mb_loop.simps [of r])
    qed
  qed
qed

lemma read_header_ok:
  assumes "reader_ok r" and "rd_multibulklen r = 0" and "rd_reqtype r = Some REDIS_REQ_MULTIBULK"
  shows "\<exists>r1 h. read_header r = Some (r1, h) \<and> mid_request r r1 \<and> rd_argv r1 = [] \<and> rd_bulklen r1 = - 1 \<and>
    (case h of
       Inl pos \<Rightarrow> rd_querybuf r1 = rd_querybuf r \<and> pos \<le> length (rd_querybuf r) \<and> 2 \<le> pos \<and>
         rd_multibulklen r1 \<noteq> 0 \<and> rd_close r1 = rd_close r
     | Inr False \<Rightarrow> rd_close r1 \<or> r1 = r
     | Inr True \<Rightarrow> rd_multibulklen r1 = 0 \<and> length (rd_querybuf r1) < length (rd_querybuf r) \<and> rd_close r1 = rd_close r)"
proof -
  obtain s where "rd_querybuf r = CHR ''*'' # s" using assms by (auto simp: reader_ok_def)
  then show ?thesis using assms
    by (auto simp: read_header_def error_defs mid_request_def reader_ok_def split: option.splits if_splits)
qed

text \<open>No assertion of the parser fails; a request that is complete has been taken from the buffer.\<close>

definition parsed :: "reader \<Rightarrow> reader \<times> bool \<Rightarrow> bool" where
  "parsed r res \<longleftrightarrow> (case res of (r1, ok) \<Rightarrow> rd_blocked r1 = rd_blocked r \<and>
     (if ok then length (rd_querybuf r1) < length (rd_querybuf r) \<and> rd_close r1 = rd_close r
      else rd_close r1 \<or> reader_ok r1))"

lemma multibulk_parsed:
  assumes ok: "reader_ok r" and q: "rd_reqtype r = Some REDIS_REQ_MULTIBULK" and c: "\<not> rd_close r"
    and b: "rd_querybuf r \<noteq> []"
  shows "returns (processMultibulkBuffer r) (parsed r)"
proof -
  have loop: "returns (case mb_loop r1 pos of (r2, pos, True) \<Rightarrow> Some (r2, False)
          | (r2, pos, False) \<Rightarrow> Some (r2\<lparr>rd_querybuf := drop pos (rd_querybuf r2)\<rparr>, rd_multibulklen r2 = 0)) (parsed r)"
    if r1: "mid_request r r1" "rd_querybuf r1 = rd_querybuf r" "\<not> rd_close r1" "pos \<le> length (rd_querybuf r)"
      "rd_multibulklen r1 \<noteq> 0" for r1 pos
  proof -
    obtain r2 pos2 err where m: "mb_loop r1 pos = (r2, pos2, err)" by (metis prod_cases3)
    have "rd_blocked r2 = rd_blocked r" "rd_reqtype r2 = Some REDIS_REQ_MULTIBULK" "- 1 \<le> rd_bulklen r2"
      "err \<longrightarrow> rd_close r2" "rd_multibulklen r2 = 0 \<longrightarrow> \<not> rd_close r2 \<and> length (rd_querybuf r2) - pos2 + 2 \<le> length (rd_querybuf r)"
      using mb_loop_ok [OF m] r1 q by (auto simp: mid_request_def split: if_splits)
    then show ?thesis using m c by (auto simp: parsed_def reader_ok_def split: bool.splits)
  qed
  show ?thesis
  proof (cases "rd_multibulklen r = 0")
    case True
    obtain r1 h where h: "read_header r = Some (r1, h)" and r1: "mid_request r r1" "rd_argv r1 = []" "rd_bulklen r1 = - 1"
      and H: "case h of
       Inl pos \<Rightarrow> rd_querybuf r1 = rd_querybuf r \<and> pos \<le> length (rd_querybuf r) \<and> 2 \<le> pos \<and>
         rd_multibulklen r1 \<noteq> 0 \<and> rd_close r1 = rd_close r
     | Inr False \<Rightarrow> rd_close r1 \<or> r1 = r
     | Inr True \<Rightarrow> rd_multibulklen r1 = 0 \<and> length (rd_querybuf r1) < length (rd_querybuf r) \<and> rd_close r1 = rd_close r"
      using read_header_ok [OF ok True q] by blast
    show ?thesis
    proof (cases h)
      case (Inl pos)
      then show ?thesis using loop [of r1 pos] H r1 h True c by (simp add: processMultibulkBuffer_def)
    next
      case (Inr okf)
      then show ?thesis using H r1 h True ok by (cases okf) (auto simp: processMultibulkBuffer_def parsed_def mid_request_def)
    qed
  next
    case False
    then show ?thesis using loop [of r 0] ok c by (simp add: processMultibulkBuffer_def mid_request_def reader_ok_def)
  qed
qed

lemma inline_parsed:
  assumes "reader_ok r"
  shows "returns (processInlineBuffer r) (parsed r)"
proof (cases "index_crlf (rd_querybuf r)")
  case None
  then show ?thesis using assms by (auto simp: processInlineBuffer_def error_defs parsed_def)
next
  case (Some n)
  have "\<exists>ts. sdssplitlen t '' '' = Some ts" for t
    using splitlen_ok [of "'' ''" t] by (cases "t = []") (auto simp: sdssplitlen_def)
  then obtain ts where "sdssplitlen (take n (rd_querybuf r)) '' '' = Some ts" by blast
  then show ?thesis using Some index_crlf_Some [OF Some] by (auto simp: processInlineBuffer_def parsed_def)
qed

lemma request_parsed:
  assumes "reader_ok r" and "\<not> rd_close r" and "rd_querybuf r \<noteq> []"
  shows "returns (parse_request (request_type r)) (parsed r)"
proof -
  have ok: "reader_ok (request_type r)" and f: "\<not> rd_close (request_type r)" "rd_querybuf (request_type r) = rd_querybuf r"
    "rd_reqtype (request_type r) \<noteq> None" "parsed (request_type r) = parsed r"
    using assms by (auto simp: request_type_def reader_ok_def parsed_def neq_Nil_conv fun_eq_iff)
  then obtain q where "rd_reqtype (request_type r) = Some q" by blast
  then show ?thesis
    using inline_parsed [OF ok] multibulk_parsed [OF ok] f assms(3) by (cases q) (auto simp: parse_request_def)
qed

lemma resetClient_ok: "reader_ok (resetClient r)"
  by (simp add: resetClient_def reader_ok_def)

text \<open>What the input loop relies on: a command that is not executed closes the connection.\<close>

locale request_handler =
  fixes proc :: "'s processor"
  assumes handled: "proc s argv = Some (s', close, ok) \<Longrightarrow> ok \<or> close"
begin

text \<open>Any input is a finite sequence of commands.\<close>

lemma input_serves:
  "reader_ok r \<or> rd_close r \<Longrightarrow>
   \<exists>cmds. (\<forall>argv \<in> set cmds. argv \<noteq> []) \<and>
     map_option fst (processInputBuffer proc s r) = map_option fst (serve proc s cmds) \<and>
     (\<forall>s' r'. processInputBuffer proc s r = Some (s', r') \<longrightarrow> reader_ok r' \<or> rd_close r')"
proof (induction "length (rd_querybuf r)" arbitrary: r s rule: less_induct)
  case less
  show ?case
  proof (cases "rd_querybuf r = [] \<or> rd_blocked r \<or> rd_close r")
    case True
    then show ?thesis using less.prems by (intro exI [of _ "[]"]) (simp add: processInputBuffer.simps)
  next
    case False
    with less.prems have r: "reader_ok r" by simp
    then obtain r1 ok where p: "parse_request (request_type r) = Some (r1, ok)" "parsed r (r1, ok)"
      using request_parsed [OF r] False by (auto simp: returns_def)
    note step = processInputBuffer.simps [of proc s r]
    show ?thesis
    proof (cases "ok \<and> rd_argv r1 \<noteq> []")
      case fails: False
      show ?thesis
      proof (cases ok)
        case True
        then have l: "length (rd_querybuf (resetClient r1)) < length (rd_querybuf r)"
          using p(2) by (simp add: parsed_def resetClient_def)
        show ?thesis using less.hyps [OF l, of s] fails True p(1) False resetClient_ok
          by (simp add: step handle_request_def)
      next
        case False
        then show ?thesis using p \<open>\<not> (rd_querybuf r = [] \<or> rd_blocked r \<or> rd_close r)\<close>
          by (intro exI [of _ "[]"]) (auto simp: step parsed_def)
      qed
    next
      case ok: True
      show ?thesis
      proof (cases "proc s (rd_argv r1)")
        case None
        then show ?thesis using ok p(1) False by (intro exI [of _ "[rd_argv r1]"]) (simp add: step handle_request_def)
      next
        case (Some x)
        then obtain s1 close okc where x: "proc s (rd_argv r1) = Some (s1, close, okc)" by (cases x) auto
        define r2 where "r2 = (let r' = r1\<lparr>rd_close := rd_close r1 \<or> close\<rparr> in if okc then resetClient r' else r')"
        have r2: "length (rd_querybuf r2) < length (rd_querybuf r)" "reader_ok r2 \<or> rd_close r2" "close \<longrightarrow> rd_close r2"
          using p(2) ok handled [OF x] resetClient_ok
          by (auto simp: r2_def parsed_def resetClient_def reader_ok_def Let_def)
        have eq: "processInputBuffer proc s r = processInputBuffer proc s1 r2"
          using False p(1) ok x by (simp add: step handle_request_def r2_def Let_def)
        obtain cmds where c: "\<forall>argv \<in> set cmds. argv \<noteq> []"
            "map_option fst (processInputBuffer proc s1 r2) = map_option fst (serve proc s1 cmds)"
            "\<forall>s' r'. processInputBuffer proc s1 r2 = Some (s', r') \<longrightarrow> reader_ok r' \<or> rd_close r'"
          using less.hyps [OF r2(1,2), of s1] by blast
        show ?thesis
        proof (cases close)
          case True
          then have "processInputBuffer proc s1 r2 = Some (s1, r2)" using r2(3) by (simp add: processInputBuffer.simps)
          then show ?thesis using True x ok c(3) by (intro exI [of _ "[rd_argv r1]"]) (simp add: eq)
        next
          case False
          then show ?thesis using x ok c by (intro exI [of _ "rd_argv r1 # cmds"]) (simp add: eq)
        qed
      qed
    qed
  qed
qed

end

lemma reader_ok_append:
  "reader_ok r \<Longrightarrow> reader_ok (r\<lparr>rd_querybuf_peak := n, rd_querybuf := rd_querybuf r @ bytes\<rparr>)"
  by (auto simp: reader_ok_def)

lemma processCommand_quit:
  "processCommand e s c = Some (s', ok) \<Longrightarrow> ok \<or> (\<exists>cl. sv_clients s' c = Some cl \<and> c_close_after_reply cl)"
  by (auto simp: processCommand_def admit_command_def run_command_def reject_def reject_flagged_def Let_def
      split: bind_splits if_splits option.splits prod.splits)

interpretation server: request_handler "server_processor e c" for e c
  by unfold_locales (auto simp: server_processor_def dest!: processCommand_quit split: bind_splits)

text \<open>The commands that are executed are a part of a history of the server.\<close>

lemma serve_history:
  "\<exists>done rest. cmds = done @ rest \<and>
     (case serve (server_processor e c) s cmds of
        Some (s', closed) \<Rightarrow> srv_run e s (map (Command c) done) s'
      | None \<Rightarrow> \<exists>s1. srv_run e s (map (Command c) done) s1 \<and> rest \<noteq> [] \<and> server_processor e c s1 (hd rest) = None)"
proof (induction cmds arbitrary: s)
  case Nil
  then show ?case by (simp add: srv_Nil)
next
  case (Cons argv cmds)
  show ?case
  proof (cases "server_processor e c s argv")
    case None
    then show ?thesis by (intro exI [of _ "[]"] exI [of _ "argv # cmds"]) (auto intro: srv_Nil)
  next
    case (Some x)
    then obtain s1 close ok where x: "server_processor e c s argv = Some (s1, close, ok)" by (cases x) auto
    then have step: "srv_step e s (Command c argv) s1"
      by (auto simp: server_processor_def intro: srv_Command split: bind_splits)
    show ?thesis
    proof (cases close)
      case True
      then show ?thesis using x by (intro exI [of _ "[argv]"] exI [of _ cmds]) (auto intro: srv_Cons [OF step] srv_Nil)
    next
      case False
      obtain dn rest where d: "cmds = dn @ rest" and r: "case serve (server_processor e c) s1 cmds of
        Some (s', closed) \<Rightarrow> srv_run e s1 (map (Command c) dn) s'
      | None \<Rightarrow> \<exists>s2. srv_run e s1 (map (Command c) dn) s2 \<and> rest \<noteq> [] \<and> server_processor e c s2 (hd rest) = None"
        using Cons.IH [of s1] by blast
      then show ?thesis using x False
        by (intro exI [of _ "argv # dn"] exI [of _ rest]) (auto intro: srv_Cons [OF step] split: option.splits)
    qed
  qed
qed

text \<open>C7. Whatever bytes a client sends and however they are cut into reads, no assertion of the protocol parser
  fails, the input loop does not run forever on its own, and what the bytes do to the server is a
  finite sequence of commands of that client, processed one after the other; if the call does not
  return, one of these commands does not.\<close>

theorem any_input_is_commands:
  assumes "reader_ok r \<or> rd_close r"
  shows "\<exists>cmds. (\<forall>argv \<in> set cmds. argv \<noteq> []) \<and>
    (case readQueryFromClient (server_processor e c) s r n of
       Some (s', x) \<Rightarrow> srv_run e s (map (Command c) cmds) s' \<and> (\<forall>r'. x = Some r' \<longrightarrow> reader_ok r' \<or> rd_close r')
     | None \<Rightarrow> \<exists>s1 argv. srv_run e s (map (Command c) cmds) s1 \<and> argv \<noteq> [] \<and> server_processor e c s1 argv = None)"
proof -
  define p where "p = max (rd_querybuf_peak r) (length (rd_querybuf r))"
  have trivial: ?thesis if "readQueryFromClient (server_processor e c) s r n = Some (s, x)"
      "\<And>r'. x = Some r' \<Longrightarrow> reader_ok r' \<or> rd_close r'" for x
    using that by (intro exI [of _ "[]"]) (auto intro: srv_Nil)
  show ?thesis
  proof (cases n)
    case (Read_Bytes bytes)
    let ?r = "r\<lparr>rd_querybuf_peak := p, rd_querybuf := rd_querybuf r @ bytes\<rparr>"
    show ?thesis
    proof (cases "length (rd_querybuf ?r) > REDIS_MAX_QUERYBUF_LEN")
      case True
      then show ?thesis using Read_Bytes by (intro trivial) (auto simp: readQueryFromClient_def Let_def)
    next
      case False
      have "reader_ok ?r \<or> rd_close ?r" using assms reader_ok_append by auto
      then obtain cmds where c: "\<forall>argv \<in> set cmds. argv \<noteq> []"
          "map_option fst (processInputBuffer (server_processor e c) s ?r) = map_option fst (serve (server_processor e c) s cmds)"
          "\<forall>s' r'. processInputBuffer (server_processor e c) s ?r = Some (s', r') \<longrightarrow> reader_ok r' \<or> rd_close r'"
        using server.input_serves [of ?r e c s] by blast
      have rd: "readQueryFromClient (server_processor e c) s r n =
          map_option (\<lambda>(s', r'). (s', Some r')) (processInputBuffer (server_processor e c) s ?r)"
        using False Read_Bytes by (simp add: readQueryFromClient_def Let_def p_def)
      obtain dn rest where r: "cmds = dn @ rest \<and> (case serve (server_processor e c) s cmds of
          Some (s', closed) \<Rightarrow> srv_run e s (map (Command c) dn) s'
        | None \<Rightarrow> \<exists>s2. srv_run e s (map (Command c) dn) s2 \<and> rest \<noteq> [] \<and> server_processor e c s2 (hd rest) = None)"
        using serve_history [where cmds = cmds and e = e and c = c and s = s] by (elim exE) (rule that)
      then have d: "cmds = dn @ rest" by simp
      show ?thesis
      proof (intro exI [of _ dn] conjI)
        show "\<forall>argv \<in> set dn. argv \<noteq> []" using c(1) d by auto
        show "case readQueryFromClient (server_processor e c) s r n of
            Some (s', x) \<Rightarrow> srv_run e s (map (Command c) dn) s' \<and> (\<forall>r'. x = Some r' \<longrightarrow> reader_ok r' \<or> rd_close r')
          | None \<Rightarrow> \<exists>s1 argv. srv_run e s (map (Command c) dn) s1 \<and> argv \<noteq> [] \<and> server_processor e c s1 argv = None"
        proof (cases "processInputBuffer (server_processor e c) s ?r")
          case None
          then have "serve (server_processor e c) s cmds = None" using c(2) by simp
          then show ?thesis using r c(1) d None rd by (auto intro!: exI [of _ "hd rest"])
        next
          case (Some x)
          obtain s' r' where x: "x = (s', r')" by (cases x)
          then obtain cl where "serve (server_processor e c) s cmds = Some (s', cl)"
            using c(2) Some by (cases "serve (server_processor e c) s cmds") auto
          then show ?thesis using r c(3) Some x rd by auto
        qed
      qed
    qed
  next
    case Read_Again
    then show ?thesis using assms
      by (intro trivial [of "Some (r\<lparr>rd_querybuf_peak := p\<rparr>)"]) (auto simp: readQueryFromClient_def p_def reader_ok_def)
  qed (rule trivial [of None], simp add: readQueryFromClient_def, simp)+
qed

theorem any_input_is_commands_witness:
  "\<exists>cmds. (\<forall>argv \<in> set cmds. argv \<noteq> []) \<and>
    (case readQueryFromClient (server_processor modelled_env 1) (multi_example []) new_reader (Read_Bytes (''*1'' @ [CR, LF] @ ''$-7'' @ [CR, LF])) of
       Some (s', x) \<Rightarrow> srv_run modelled_env (multi_example []) (map (Command 1) cmds) s' \<and> (\<forall>r'. x = Some r' \<longrightarrow> reader_ok r' \<or> rd_close r')
     | None \<Rightarrow> \<exists>s1 argv. srv_run modelled_env (multi_example []) (map (Command 1) cmds) s1 \<and> argv \<noteq> [] \<and>
         server_processor modelled_env 1 s1 argv = None)"
  by (rule any_input_is_commands) (simp add: reader_ok_def new_reader_def)

end
