(* ===== verification/Protocol_Stream.thy ===== *)
theory Protocol_Stream
  imports Protocol
begin

section \<open>Request streams (\<^verbatim>\<open>networking.c\<close>, \<^verbatim>\<open>aof.c\<close>)\<close>

text \<open>
  The encoding of commands that \<^verbatim>\<open>catAppendOnlyGenericCommand\<close> writes is what the request parser reads, for every way
  of cutting the bytes into reads.  The relation \<open>awaits\<close> says which commands are still to come, given
  the state of the parser and the bytes that have not been delivered; every function of the parser
  preserves it.
\<close>

text \<open>The system delivers a stream of bytes in pieces of any size, at most as many bytes as asked for.\<close>

fun receive :: "'s processor \<Rightarrow> 's \<Rightarrow> reader \<Rightarrow> string \<Rightarrow> nat list \<Rightarrow> ('s \<times> reader option) option" where
  "receive proc s r bytes [] = Some (s, Some r)"
| "receive proc s r bytes (n # ns) =
     (if bytes = [] then Some (s, Some r)
      else let k = min (Suc n) (readlen r) in
        readQueryFromClient proc s r (Read_Bytes (take k bytes)) \<bind> (\<lambda>(s1, x).
          case x of None \<Rightarrow> Some (s1, None) | Some r1 \<Rightarrow> receive proc s1 r1 (drop k bytes) ns))"

definition encoding :: "string list list \<Rightarrow> string" where
  "encoding cmds = concat (map catAppendOnlyGenericCommand cmds)"

definition items :: "string list \<Rightarrow> string" where
  "items args = concat (map bulk_item args)"

lemma items_simps [simp]: "items [] = []" "items (a # as) = bulk_item a @ items as"
  by (simp_all add: items_def)

lemma items_empty: "items args = [] \<longleftrightarrow> args = []"
  by (cases args) (simp_all add: bulk_item_def)

text \<open>The commands that the protocol can carry.\<close>

definition sendable :: "string list \<Rightarrow> bool" where
  "sendable argv \<longleftrightarrow> argv \<noteq> [] \<and> length argv \<le> 1024 * 1024 \<and> (\<forall>a \<in> set argv. length a \<le> 512 * 1024 * 1024)"

lemma index_of_append: "x \<notin> set h \<Longrightarrow> NUL \<notin> set h \<Longrightarrow> x \<noteq> NUL \<Longrightarrow> index_of x (h @ x # t) = Some (length h)"
proof -
  assume x: "x \<notin> set h" "NUL \<notin> set h" "x \<noteq> NUL"
  then have "c_string (h @ x # t) = h @ x # c_string t" by (induction h) (auto simp: c_string_def)
  then show ?thesis using takeWhile_first [OF x(1)] by (simp add: index_of_def)
qed

lemma index_of_absent: "x \<notin> set h \<Longrightarrow> index_of x h = None"
  by (auto simp: index_of_def c_string_def Let_def dest: set_takeWhileD)

text \<open>A line is in the buffer, or it is not complete.\<close>

lemma line_cases:
  assumes "D @ ext = h @ CR # LF # rest" and h: "CR \<notin> set h" "NUL \<notin> set h"
  obtains (whole) D' where "D = h @ CR # LF # D'" "D' @ ext = rest" "index_of CR D = Some (length h)"
  | (part) "length D < length h + 2" "ext \<noteq> []" "index_of CR D = None \<or> (\<exists>n. index_of CR D = Some n \<and> length D < n + 2)"
proof -
  consider us where "D = h @ us" "us @ ext = CR # LF # rest" | us where "h = D @ us" "ext = us @ CR # LF # rest"
    using assms(1) by (auto simp: append_eq_append_conv2)
  then show ?thesis
  proof cases
    case (1 us)
    then consider "us = []" | "us = [CR]" "ext = LF # rest" | D' where "us = CR # LF # D'" "D' @ ext = rest"
      by (cases us; cases "tl us") auto
    then show ?thesis
    proof cases
      case 1
      then show ?thesis using part index_of_absent [OF h(1)] \<open>D = h @ us\<close> \<open>us @ ext = _\<close> by auto
    next
      case 2
      then show ?thesis using part index_of_append [OF h] \<open>D = h @ us\<close> by auto
    next
      case (3 D')
      then show ?thesis using whole [of D'] index_of_append [OF h] \<open>D = h @ us\<close> by auto
    qed
  next
    case (2 us)
    then show ?thesis using part index_of_absent [of CR D] h(1) by auto
  qed
qed

lemma count_repr:
  assumes "n \<le> 512 * 1024 * 1024"
  shows "snd (ll2string 31 (int n)) = ll_repr (int n)" "string2ll (ll_repr (int n)) = Some (int n)"
    "CR \<notin> set (ll_repr (int n))" "NUL \<notin> set (ll_repr (int n))" "length (ll_repr (int n)) \<le> 20"
proof -
  have l: "is_llong (int n)" using assms by (simp add: crange_simps)
  then show "snd (ll2string 31 (int n)) = ll_repr (int n)" by (simp add: ll2string_eq)
  show "string2ll (ll_repr (int n)) = Some (int n)" using string2ll_ll_repr [OF l] .
  have "list_all isdigit (ll_repr (int n))" using ll2string_loop_digits [of "int n"] by (simp add: ll_repr_def)
  then show "CR \<notin> set (ll_repr (int n))" "NUL \<notin> set (ll_repr (int n))" by (auto simp: list_all_iff isdigit_def)
  show "length (ll_repr (int n)) \<le> 20" using ll_repr_length [OF l] .
qed

text \<open>The part of a request that is still to be parsed: the argument whose length is known is without its
  length.\<close>

definition args_stream :: "reader \<Rightarrow> string list \<Rightarrow> string" where
  "args_stream r args = (if rd_bulklen r = - 1 then items args else hd args @ [CR, LF] @ items (tl args))"

definition in_args :: "reader \<Rightarrow> nat \<Rightarrow> string list \<Rightarrow> string list \<Rightarrow> string \<Rightarrow> string \<Rightarrow> bool" where
  "in_args r pos argv args rest ext \<longleftrightarrow> rd_argv r = argv \<and> rd_multibulklen r = length args \<and> pos \<le> length (rd_querybuf r) \<and>
     (rd_bulklen r = - 1 \<or> args \<noteq> [] \<and> rd_bulklen r = int (length (hd args))) \<and>
     drop pos (rd_querybuf r) @ ext = args_stream r args @ rest"

text \<open>The buffer is small, or it holds a part of a large argument and nothing else.\<close>

definition buf_fits :: "reader \<Rightarrow> nat \<Rightarrow> bool" where
  "buf_fits r pos \<longleftrightarrow> length (rd_querybuf r) \<le> REDIS_INLINE_MAX_SIZE \<or>
     pos = 0 \<and> rd_bulklen r \<ge> int REDIS_MBULK_BIG_ARG \<and> length (rd_querybuf r) \<le> nat (rd_bulklen r) + 2"

text \<open>After the loop at most a part of a line or of an argument is left.\<close>

definition buf_left :: "reader \<Rightarrow> nat \<Rightarrow> bool" where
  "buf_left r pos \<longleftrightarrow> (if rd_bulklen r = - 1 then length (rd_querybuf r) - pos < 32
     else length (rd_querybuf r) - pos < nat (rd_bulklen r) + 2 \<and> (rd_bulklen r \<ge> int REDIS_MBULK_BIG_ARG \<longrightarrow> pos = 0))"

text \<open>What parsing does not touch.\<close>

definition same_conn :: "reader \<Rightarrow> reader \<Rightarrow> bool" where
  "same_conn r r' \<longleftrightarrow> rd_reqtype r' = rd_reqtype r \<and> rd_blocked r' = rd_blocked r \<and> rd_close r' = rd_close r \<and>
     rd_reply r' = rd_reply r \<and> rd_querybuf_peak r' = rd_querybuf_peak r"

lemma same_conn_refl: "same_conn r r"
  by (simp add: same_conn_def)

lemma same_conn_trans: "same_conn a b \<Longrightarrow> same_conn b c \<Longrightarrow> same_conn a c"
  by (simp add: same_conn_def)

lemma bulk_item_repr:
  "length a \<le> 512 * 1024 * 1024 \<Longrightarrow> bulk_item a = (CHR ''$'' # ll_repr (int (length a))) @ CR # LF # a @ [CR, LF]"
  by (simp add: bulk_item_def count_repr)

lemma read_bulklen_known: "rd_bulklen r \<noteq> - 1 \<Longrightarrow> read_bulklen r pos = (r, pos, Go)"
  by (simp add: read_bulklen_def)

lemma drop_line:
  assumes "drop pos b = h @ CR # LF # D" and "pos \<le> length b"
  shows "drop (pos + length h + 2) b = D" "pos + length h + 2 \<le> length b"
proof -
  have "drop (pos + length h + 2) b = drop (length h + 2) (drop pos b)" by (simp add: add.commute add.left_commute)
  then show "drop (pos + length h + 2) b = D" using assms by simp
  have "length (drop pos b) \<ge> length h + 2" using assms(1) by simp
  then show "pos + length h + 2 \<le> length b" using assms(2) by simp
qed

lemma read_bulklen_unknown:
  assumes i: "in_args r pos argv (a # args) rest ext" and b: "rd_bulklen r = - 1"
    and a: "length a \<le> 512 * 1024 * 1024" and f: "length (rd_querybuf r) \<le> REDIS_INLINE_MAX_SIZE"
  obtains (part) "read_bulklen r pos = (r, pos, Break)" "ext \<noteq> []" "buf_left r pos"
  | (whole) r1 pos1 where "read_bulklen r pos = (r1, pos1, Go)" "in_args r1 pos1 argv (a # args) rest ext" "same_conn r r1"
      "rd_bulklen r1 = int (length a)" "length (rd_querybuf r1) \<le> REDIS_INLINE_MAX_SIZE"
      "length a \<ge> REDIS_MBULK_BIG_ARG \<longrightarrow> pos1 = 0"
proof -
  let ?h = "CHR ''$'' # ll_repr (int (length a))"
  let ?D = "drop pos (rd_querybuf r)"
  note n = count_repr [OF a]
  have pos: "pos \<le> length (rd_querybuf r)" and D: "?D @ ext = ?h @ CR # LF # (a @ [CR, LF] @ items args @ rest)"
    using i b a by (simp_all add: in_args_def args_stream_def bulk_item_repr)
  have h: "CR \<notin> set ?h" "NUL \<notin> set ?h" using n by auto
  show ?thesis
    using D h
  proof (cases rule: line_cases)
    case (whole D')
    note dl = drop_line [OF whole(1) pos]
    have hd: "rd_querybuf r ! pos = CHR ''$''" using arg_cong [OF whole(1), of "\<lambda>x. x ! 0"] pos by simp
    have num: "take (length ?h - 1) (drop (pos + 1) (rd_querybuf r)) = ll_repr (int (length a))"
    proof -
      have "drop (pos + 1) (rd_querybuf r) = drop 1 ?D" by simp
      then show ?thesis using whole(1) by simp
    qed
    show ?thesis
    proof (cases "length a \<ge> REDIS_MBULK_BIG_ARG")
      case True
      let ?r = "r\<lparr>rd_querybuf := drop (pos + length ?h + 2) (rd_querybuf r), rd_bulklen := int (length a)\<rparr>"
      have "read_bulklen r pos = (?r, 0, Go)"
        using b whole(3) dl(2) hd num n(2) a True by (simp add: read_bulklen_def)
      then show ?thesis
        using that(2) [of ?r 0] dl whole(2) i f by (simp add: in_args_def args_stream_def same_conn_def)
    next
      case False
      let ?r = "r\<lparr>rd_bulklen := int (length a)\<rparr>" and ?p = "pos + length ?h + 2"
      have "read_bulklen r pos = (?r, ?p, Go)"
        using b whole(3) dl(2) hd num n(2) a False by (simp add: read_bulklen_def)
      then show ?thesis
        using that(2) [of ?r ?p] dl whole(2) i f False by (simp add: in_args_def args_stream_def same_conn_def)
    qed
  next
    case part
    have "read_bulklen r pos = (r, pos, Break)"
      using b f part(3) pos by (auto simp: read_bulklen_def not_less [symmetric])
    moreover have "buf_left r pos" using b part(1) n(5) by (simp add: buf_left_def)
    ultimately show ?thesis using that(1) part(2) by blast
  qed
qed

lemma read_bulk_stream:
  assumes i: "in_args r pos argv (a # args) rest ext" and b: "rd_bulklen r = int (length a)"
    and f: "buf_fits r pos" and p: "length a \<ge> REDIS_MBULK_BIG_ARG \<longrightarrow> pos = 0"
  obtains (part) "read_bulk r pos = None" "ext \<noteq> []" "buf_left r pos"
  | (whole) r1 pos1 where "read_bulk r pos = Some (r1, pos1)" "in_args r1 pos1 (argv @ [a]) args rest ext" "same_conn r r1"
      "rd_bulklen r1 = - 1" "length (rd_querybuf r1) \<le> REDIS_INLINE_MAX_SIZE"
proof -
  let ?D = "drop pos (rd_querybuf r)"
  have pos: "pos \<le> length (rd_querybuf r)" and D: "?D @ ext = a @ CR # LF # (items args @ rest)"
    and r: "rd_argv r = argv" "rd_multibulklen r = Suc (length args)"
    using i b by (simp_all add: in_args_def args_stream_def)
  show ?thesis
  proof (cases "length (rd_querybuf r) - pos < length a + 2")
    case True
    then have "ext \<noteq> []" using arg_cong [OF D, of length] by auto
    then show ?thesis using that(1) True b p by (simp add: read_bulk_def buf_left_def)
  next
    case False
    then have "take (length a + 2) (?D @ ext) = take (length a + 2) ?D" by simp
    then have "take (length a + 2) ?D = a @ [CR, LF]" unfolding D by simp
    then obtain D' where D': "?D = a @ CR # LF # D'"
      by (metis append_Cons append_Nil append_assoc append_take_drop_id)
    then have ext: "D' @ ext = items args @ rest" using D by simp
    note dl = drop_line [OF D' pos]
    show ?thesis
    proof (cases "pos = 0 \<and> length a \<ge> REDIS_MBULK_BIG_ARG \<and> length (rd_querybuf r) = length a + 2")
      case True
      then have "D' = []" "rd_querybuf r = a @ [CR, LF]" using D' by auto
      then show ?thesis using that(2) [of "r\<lparr>rd_argv := argv @ [a], rd_querybuf := [], rd_bulklen := - 1, rd_multibulklen := length args\<rparr>" 0]
          True b r ext by (simp add: read_bulk_def in_args_def args_stream_def same_conn_def)
    next
      case small: False
      have l: "length (rd_querybuf r) \<le> REDIS_INLINE_MAX_SIZE"
        using f small False b by (auto simp: buf_fits_def)
      let ?r = "r\<lparr>rd_argv := argv @ [a], rd_bulklen := - 1, rd_multibulklen := length args\<rparr>"
      have "read_bulk r pos = Some (?r, pos + length a + 2)"
        using False small b r D' unfolding read_bulk_def Let_def by auto
      then show ?thesis using that(2) [of ?r "pos + length a + 2"] dl ext l
        by (simp add: in_args_def args_stream_def same_conn_def)
    qed
  qed
qed

text \<open>The loop over the arguments, on any prefix of the rest of the stream.\<close>

lemma mb_loop_stream:
  "in_args r pos argv args rest ext \<Longrightarrow> buf_fits r pos \<Longrightarrow> \<forall>a \<in> set args. length a \<le> 512 * 1024 * 1024 \<Longrightarrow>
   rd_bulklen r \<ge> int REDIS_MBULK_BIG_ARG \<longrightarrow> pos = 0 \<Longrightarrow>
   \<exists>r1 pos1 args1. mb_loop r pos = (r1, pos1, False) \<and> same_conn r r1 \<and> (\<exists>dn. args = dn @ args1 \<and>
     in_args r1 pos1 (argv @ dn) args1 rest ext) \<and>
     (if args1 = [] then length (rd_querybuf r1) \<le> REDIS_INLINE_MAX_SIZE
      else ext \<noteq> [] \<and> buf_left r1 pos1)"
proof (induction args arbitrary: r pos argv)
  case Nil
  then have "rd_multibulklen r = 0" "rd_bulklen r = - 1" by (auto simp: in_args_def)
  then show ?case using Nil by (auto simp: mb_loop.simps [of r] same_conn_refl buf_fits_def)
next
  case (Cons a args)
  have m: "rd_multibulklen r \<noteq> 0" using Cons.prems(1) by (simp add: in_args_def)
  have a: "length a \<le> 512 * 1024 * 1024" using Cons.prems(3) by simp
  have rest: ?case if l: "read_bulklen r pos = (r1, pos1, Go)" and i: "in_args r1 pos1 argv (a # args) rest ext"
    and s: "same_conn r r1" and b: "rd_bulklen r1 = int (length a)" and f: "buf_fits r1 pos1"
    and p: "length a \<ge> REDIS_MBULK_BIG_ARG \<longrightarrow> pos1 = 0" for r1 pos1
    using i b f p
  proof (cases rule: read_bulk_stream)
    case part
    then have "mb_loop r pos = (r1, pos1, False)" using m l by (simp add: mb_loop.simps [of r])
    then show ?thesis using part s i by (intro exI [of _ r1] exI [of _ pos1] exI [of _ "a # args"]) auto
  next
    case (whole r2 pos2)
    have e: "mb_loop r pos = mb_loop r2 pos2" using m l whole(1) by (simp add: mb_loop.simps [of r])
    have "\<exists>r3 pos3 args1. mb_loop r2 pos2 = (r3, pos3, False) \<and> same_conn r2 r3 \<and>
        (\<exists>dn. args = dn @ args1 \<and> in_args r3 pos3 ((argv @ [a]) @ dn) args1 rest ext) \<and>
        (if args1 = [] then length (rd_querybuf r3) \<le> REDIS_INLINE_MAX_SIZE
         else ext \<noteq> [] \<and> buf_left r3 pos3)"
      using Cons.prems(3) whole by (intro Cons.IH) (auto simp: buf_fits_def)
    then obtain r3 pos3 args1 dn where r3: "mb_loop r2 pos2 = (r3, pos3, False)" "same_conn r2 r3" "args = dn @ args1"
      "in_args r3 pos3 ((argv @ [a]) @ dn) args1 rest ext"
      "if args1 = [] then length (rd_querybuf r3) \<le> REDIS_INLINE_MAX_SIZE
         else ext \<noteq> [] \<and> buf_left r3 pos3" by blast
    have "same_conn r r3" using s whole(3) r3(2) same_conn_trans by blast
    then show ?thesis unfolding e using r3 whole(5)
      by (intro exI [of _ r3] exI [of _ pos3] exI [of _ args1] conjI exI [of _ "a # dn"]) (auto split: if_splits)
  qed
  show ?case
  proof (cases "rd_bulklen r = - 1")
    case False
    then have "rd_bulklen r = int (length a)" using Cons.prems(1) by (simp add: in_args_def)
    then show ?thesis using rest [OF read_bulklen_known [OF False]] Cons.prems same_conn_refl by simp
  next
    case True
    then have f: "length (rd_querybuf r) \<le> REDIS_INLINE_MAX_SIZE" using Cons.prems(2) by (auto simp: buf_fits_def)
    show ?thesis using Cons.prems(1) True a f
    proof (cases rule: read_bulklen_unknown)
      case part
      then have "mb_loop r pos = (r, pos, False)" using m by (simp add: mb_loop.simps [of r])
      then show ?thesis using part Cons.prems(1) same_conn_refl
        by (intro exI [of _ r] exI [of _ pos] exI [of _ "a # args"]) auto
    next
      case (whole r1 pos1)
      then show ?thesis using rest [OF whole(1-4)] by (simp add: buf_fits_def)
    qed
  qed
qed

text \<open>A reader to which the system still has to deliver the bytes \<open>ext\<close> of the given commands.\<close>

definition awaits :: "reader \<Rightarrow> string list list \<Rightarrow> string \<Rightarrow> bool" where
  "awaits r cmds ext \<longleftrightarrow> \<not> rd_blocked r \<and> \<not> rd_close r \<and>
     (rd_multibulklen r = 0 \<and> rd_argv r = [] \<and> rd_bulklen r = - 1 \<and> rd_querybuf r @ ext = encoding cmds \<and>
        (rd_reqtype r = None \<or> rd_reqtype r = Some REDIS_REQ_MULTIBULK \<and> rd_querybuf r \<noteq> []) \<or>
      (\<exists>argv args cmds'. rd_reqtype r = Some REDIS_REQ_MULTIBULK \<and> args \<noteq> [] \<and> cmds = (argv @ args) # cmds' \<and>
        in_args r 0 argv args (encoding cmds') ext))"

lemma encoding_Cons:
  "sendable cmd \<Longrightarrow>
   encoding (cmd # cmds) = (CHR ''*'' # ll_repr (int (length cmd))) @ CR # LF # (items cmd @ encoding cmds)"
  by (simp add: encoding_def catAppendOnlyGenericCommand_def items_def sendable_def count_repr)

lemma awaits_nonempty: "awaits r (cmd # cmds) ext \<Longrightarrow> rd_querybuf r = [] \<Longrightarrow> ext \<noteq> []"
  by (auto simp: awaits_def in_args_def args_stream_def encoding_def catAppendOnlyGenericCommand_def
      items_empty split: if_splits)

text \<open>The outcomes of parsing: a request is complete, or more bytes are needed.\<close>

definition parse_step :: "reader \<Rightarrow> string list list \<Rightarrow> string \<Rightarrow> reader \<times> bool \<Rightarrow> bool" where
  "parse_step r cmds ext res \<longleftrightarrow> (case res of (r1, ok) \<Rightarrow>
     rd_reply r1 = rd_reply r \<and> rd_querybuf_peak r1 = rd_querybuf_peak r \<and> \<not> rd_blocked r1 \<and> \<not> rd_close r1 \<and>
     (if ok then \<exists>cmd cmds'. cmds = cmd # cmds' \<and> rd_argv r1 = cmd \<and> rd_querybuf r1 @ ext = encoding cmds' \<and>
          length (rd_querybuf r1) \<le> REDIS_INLINE_MAX_SIZE
      else ext \<noteq> [] \<and> awaits r1 cmds ext \<and> buf_left r1 0))"

lemma loop_step:
  assumes i: "in_args r1 pos argv args (encoding cmds') ext" and a: "args \<noteq> []" and f: "buf_fits r1 pos"
    and z: "\<forall>a \<in> set args. length a \<le> 512 * 1024 * 1024" and p: "rd_bulklen r1 \<ge> int REDIS_MBULK_BIG_ARG \<longrightarrow> pos = 0"
    and s: "same_conn r r1" and r: "\<not> rd_blocked r" "\<not> rd_close r" "rd_reqtype r = Some REDIS_REQ_MULTIBULK"
  shows "returns (case mb_loop r1 pos of (r2, pos, True) \<Rightarrow> Some (r2, False)
          | (r2, pos, False) \<Rightarrow> Some (r2\<lparr>rd_querybuf := drop pos (rd_querybuf r2)\<rparr>, rd_multibulklen r2 = 0))
    (parse_step r ((argv @ args) # cmds') ext)"
proof -
  obtain r2 pos2 args2 dn where m: "mb_loop r1 pos = (r2, pos2, False)" "same_conn r1 r2" "args = dn @ args2"
    "in_args r2 pos2 (argv @ dn) args2 (encoding cmds') ext"
    "if args2 = [] then length (rd_querybuf r2) \<le> REDIS_INLINE_MAX_SIZE else ext \<noteq> [] \<and> buf_left r2 pos2"
    using mb_loop_stream [OF i f z p] by blast
  let ?r = "r2\<lparr>rd_querybuf := drop pos2 (rd_querybuf r2)\<rparr>"
  have sc: "same_conn r r2" using s m(2) same_conn_trans by blast
  have i2: "in_args ?r 0 (argv @ dn) args2 (encoding cmds') ext" using m(4) by (simp add: in_args_def args_stream_def)
  show ?thesis
  proof (cases "args2 = []")
    case True
    then have "rd_querybuf ?r @ ext = encoding cmds'" "rd_argv ?r = argv @ args"
      using i2 m(3) by (auto simp: in_args_def args_stream_def)
    then show ?thesis using True m sc r by (simp add: parse_step_def same_conn_def in_args_def)
  next
    case False
    then have "buf_left ?r 0" using m(5) by (auto simp: buf_left_def)
    moreover have "awaits ?r ((argv @ args) # cmds') ext"
      using i2 m(3) False sc r unfolding awaits_def same_conn_def
      by (intro conjI disjI2 exI [of _ "argv @ dn"] exI [of _ args2] exI [of _ cmds']) auto
    ultimately show ?thesis using False m sc r by (simp add: parse_step_def same_conn_def in_args_def)
  qed
qed

lemma request_step:
  assumes w: "awaits r cmds ext" and f: "buf_fits r 0" and b: "rd_querybuf r \<noteq> []" and z: "\<forall>cmd \<in> set cmds. sendable cmd"
  shows "returns (parse_request (request_type r)) (parse_step r cmds ext)"
proof (cases "rd_multibulklen r = 0")
  case False
  then obtain argv args cmds' where a: "rd_reqtype r = Some REDIS_REQ_MULTIBULK" "args \<noteq> []" "cmds = (argv @ args) # cmds'"
    "in_args r 0 argv args (encoding cmds') ext" using w by (auto simp: awaits_def)
  have "parse_request (request_type r) = processMultibulkBuffer r" using a by (simp add: request_type_def parse_request_def)
  moreover have "\<forall>a \<in> set args. length a \<le> 512 * 1024 * 1024" using z a(3) by (simp add: sendable_def)
  moreover have "\<not> rd_blocked r" "\<not> rd_close r" using w by (simp_all add: awaits_def)
  ultimately show ?thesis
    using loop_step [OF a(4,2) f _ _ same_conn_refl _ _ a(1)] False by (simp add: processMultibulkBuffer_def a(3))
next
  case True
  then have h: "rd_argv r = []" "rd_bulklen r = - 1" "rd_querybuf r @ ext = encoding cmds" "\<not> rd_blocked r" "\<not> rd_close r"
      "rd_reqtype r = None \<or> rd_reqtype r = Some REDIS_REQ_MULTIBULK"
    using w by (auto simp: awaits_def in_args_def)
  obtain cmd cmds' where c: "cmds = cmd # cmds'" using h(3) b by (cases cmds) (auto simp: encoding_def)
  then have cmd: "sendable cmd" using z by simp
  then have sz: "length cmd \<le> 512 * 1024 * 1024" by (simp add: sendable_def)
  note n = count_repr [OF sz]
  let ?h = "CHR ''*'' # ll_repr (int (length cmd))"
  have e: "rd_querybuf r @ ext = ?h @ CR # LF # (items cmd @ encoding cmds')"
    using h(3) encoding_Cons [OF cmd, of cmds'] c by simp
  then have hd: "rd_querybuf r ! 0 = CHR ''*''" using b by (cases "rd_querybuf r") auto
  define r0 where "r0 = r\<lparr>rd_reqtype := Some REDIS_REQ_MULTIBULK\<rparr>"
  have "request_type r = r0" using h(6) hd by (cases r) (auto simp: request_type_def r0_def)
  then have p: "parse_request (request_type r) = processMultibulkBuffer r0" by (simp add: parse_request_def r0_def)
  have l: "length (rd_querybuf r) \<le> REDIS_INLINE_MAX_SIZE" using f h(2) by (simp add: buf_fits_def)
  have ps: "parse_step r0 cmds ext = parse_step r cmds ext" by (simp add: fun_eq_iff parse_step_def r0_def)
  have nul: "CR \<notin> set ?h" "NUL \<notin> set ?h" using n by auto
  show ?thesis using e nul
  proof (cases rule: line_cases)
    case (whole D')
    have num: "take (length ?h - 1) (drop 1 (rd_querybuf r)) = ll_repr (int (length cmd))" using whole(1) by simp
    let ?r = "r0\<lparr>rd_multibulklen := length cmd\<rparr>"
    have dl: "drop (length ?h + 2) (rd_querybuf r) = D'" "length ?h + 2 \<le> length (rd_querybuf r)" using whole(1) by simp_all
    have "read_header r0 = Some (?r, Inl (length ?h + 2))"
      using whole(3) h(1) num n(2) cmd dl(2) hd by (simp add: read_header_def r0_def sendable_def)
    moreover have "in_args ?r (length ?h + 2) [] cmd (encoding cmds') ext"
      using h(1,2) dl whole(2) by (simp add: in_args_def args_stream_def r0_def)
    moreover have "\<forall>a \<in> set cmd. length a \<le> 512 * 1024 * 1024" "cmd \<noteq> []" using cmd by (simp_all add: sendable_def)
    ultimately show ?thesis
      using loop_step [of ?r "length ?h + 2" "[]" cmd cmds' ext r0] True l h c
      unfolding p ps [symmetric] by (simp add: processMultibulkBuffer_def r0_def buf_fits_def same_conn_def)
  next
    case part
    have "read_header r0 = Some (r0, Inr False)"
      using part(3) h(1) l by (auto simp: read_header_def r0_def not_less [symmetric])
    moreover have "awaits r0 cmds ext" "buf_left r0 0"
      using True h b part(1) n(5) by (simp_all add: awaits_def r0_def buf_left_def)
    ultimately show ?thesis using True h part(2) unfolding p by (simp add: processMultibulkBuffer_def parse_step_def r0_def)
  qed
qed

text \<open>Every read leaves room for the next one.\<close>

lemma delivery_fits:
  assumes w: "awaits r cmds bytes" and l: "buf_left r 0" and z: "\<forall>cmd \<in> set cmds. sendable cmd" and k: "k \<le> readlen r"
    and b: "bytes \<noteq> []"
  shows "0 < readlen r"
    and "awaits (r\<lparr>rd_querybuf_peak := p, rd_querybuf := rd_querybuf r @ take k bytes\<rparr>) cmds (drop k bytes)"
    and "buf_fits (r\<lparr>rd_querybuf_peak := p, rd_querybuf := rd_querybuf r @ take k bytes\<rparr>) 0"
    and "length (rd_querybuf r @ take k bytes) \<le> REDIS_MAX_QUERYBUF_LEN"
proof -
  note c = REDIS_IOBUF_LEN_def REDIS_MBULK_BIG_ARG_def REDIS_INLINE_MAX_SIZE_def REDIS_MAX_QUERYBUF_LEN_def
  show w1: "awaits (r\<lparr>rd_querybuf_peak := p, rd_querybuf := rd_querybuf r @ take k bytes\<rparr>) cmds (drop k bytes)"
    using w by (fastforce simp: awaits_def in_args_def args_stream_def)
  have big: "0 < readlen r \<and> length (rd_querybuf r @ take k bytes) \<le> nat (rd_bulklen r) + 2 \<and> rd_bulklen r \<le> 512 * 1024 * 1024"
    if x: "rd_bulklen r \<ge> int REDIS_MBULK_BIG_ARG"
  proof -
    obtain argv args cmds' where a: "rd_reqtype r = Some REDIS_REQ_MULTIBULK" "args \<noteq> []" "cmds = (argv @ args) # cmds'"
      "in_args r 0 argv args (encoding cmds') bytes" using w x by (auto simp: awaits_def c)
    have "hd args \<in> set args" using a(2) by simp
    then have "rd_bulklen r \<le> 512 * 1024 * 1024" using z a x by (auto simp: sendable_def in_args_def c)
    moreover have "rd_multibulklen r \<noteq> 0" using a(2,4) by (simp add: in_args_def)
    ultimately show ?thesis using a(1) l x k by (auto simp: readlen_def buf_left_def c)
  qed
  have small: "length (rd_querybuf r) + REDIS_IOBUF_LEN \<le> REDIS_INLINE_MAX_SIZE" if "rd_bulklen r < int REDIS_MBULK_BIG_ARG"
    using that l by (auto simp: buf_left_def c split: if_splits)
  have rl: "readlen r = REDIS_IOBUF_LEN" if "rd_bulklen r < int REDIS_MBULK_BIG_ARG" using that by (auto simp: readlen_def)
  show "0 < readlen r" using big rl by (cases "rd_bulklen r \<ge> int REDIS_MBULK_BIG_ARG") (auto simp: REDIS_IOBUF_LEN_def)
  have "length (rd_querybuf r @ take k bytes) \<le> REDIS_INLINE_MAX_SIZE" if "rd_bulklen r < int REDIS_MBULK_BIG_ARG"
    using small [OF that] rl [OF that] k by simp
  then show "buf_fits (r\<lparr>rd_querybuf_peak := p, rd_querybuf := rd_querybuf r @ take k bytes\<rparr>) 0"
    "length (rd_querybuf r @ take k bytes) \<le> REDIS_MAX_QUERYBUF_LEN"
    using big by (cases "rd_bulklen r \<ge> int REDIS_MBULK_BIG_ARG"; auto simp: buf_fits_def c)+
qed

context request_handler
begin

lemma input_stream:
  "awaits r cmds ext \<Longrightarrow> buf_fits r 0 \<Longrightarrow> \<forall>cmd \<in> set cmds. sendable cmd \<Longrightarrow> serve proc s cmds = Some (s', False) \<Longrightarrow>
   \<exists>s1 r1 dn cmds1. processInputBuffer proc s r = Some (s1, r1) \<and> cmds = dn @ cmds1 \<and> awaits r1 cmds1 ext \<and>
     (cmds1 = [] \<or> ext \<noteq> []) \<and> buf_left r1 0 \<and> serve proc s1 cmds1 = Some (s', False) \<and> rd_reply r1 = rd_reply r"
proof (induction cmds arbitrary: r s)
  case Nil
  then have "rd_querybuf r = [] \<and> rd_bulklen r = - 1" by (auto simp: awaits_def encoding_def)
  then show ?case using Nil by (intro exI [of _ s] exI [of _ r]) (simp add: processInputBuffer.simps buf_left_def)
next
  case (Cons cmd cmds)
  note step = processInputBuffer.simps [of proc s r]
  have nb: "\<not> rd_blocked r" "\<not> rd_close r" using Cons.prems(1) by (simp_all add: awaits_def)
  show ?case
  proof (cases "rd_querybuf r = []")
    case True
    then have "buf_left r 0" using Cons.prems(1) by (auto simp: buf_left_def)
    then show ?thesis using True Cons.prems awaits_nonempty
      by (intro exI [of _ s] exI [of _ r] exI [of _ "[]"] exI [of _ "cmd # cmds"]) (simp add: step)
  next
    case b: False
    obtain r1 ok where p: "parse_request (request_type r) = Some (r1, ok)" "parse_step r (cmd # cmds) ext (r1, ok)"
      using request_step [OF Cons.prems(1,2) b Cons.prems(3)] by (auto simp: returns_def)
    show ?thesis
    proof (cases ok)
      case False
      then show ?thesis using p b nb Cons.prems(4)
        by (intro exI [of _ s] exI [of _ r1] exI [of _ "[]"] exI [of _ "cmd # cmds"]) (simp add: step parse_step_def)
    next
      case True
      then have r1: "rd_argv r1 = cmd" "rd_querybuf r1 @ ext = encoding cmds" "length (rd_querybuf r1) \<le> REDIS_INLINE_MAX_SIZE"
        "rd_reply r1 = rd_reply r" "\<not> rd_blocked r1" "\<not> rd_close r1" using p(2) by (auto simp: parse_step_def)
      obtain s1 okc where x: "proc s cmd = Some (s1, False, okc)" "serve proc s1 cmds = Some (s', False)"
        using Cons.prems(4) by (auto split: bind_splits if_splits)
      have "okc" using handled [OF x(1)] by simp
      moreover have "cmd \<noteq> []" using Cons.prems(3) by (simp add: sendable_def)
      moreover have "resetClient (r1\<lparr>rd_close := False\<rparr>) = resetClient r1" using r1(6) by (cases r1) (simp add: resetClient_def)
      ultimately have eq: "processInputBuffer proc s r = processInputBuffer proc s1 (resetClient r1)"
        using b nb p(1) True r1 x(1) by (simp add: step handle_request_def Let_def)
      have "awaits (resetClient r1) cmds ext" "buf_fits (resetClient r1) 0"
        using r1 by (simp_all add: awaits_def resetClient_def buf_fits_def)
      then obtain s2 r2 dn cmds1 where "processInputBuffer proc s1 (resetClient r1) = Some (s2, r2)" "cmds = dn @ cmds1"
        "awaits r2 cmds1 ext" "cmds1 = [] \<or> ext \<noteq> []" "buf_left r2 0" "serve proc s2 cmds1 = Some (s', False)"
        "rd_reply r2 = rd_reply (resetClient r1)"
        using Cons.IH [of "resetClient r1" s1] Cons.prems(3) x(2) by auto
      then show ?thesis using eq r1(4)
        by (intro exI [of _ s2] exI [of _ r2] exI [of _ "cmd # dn"] exI [of _ cmds1]) (simp add: resetClient_def)
    qed
  qed
qed

lemma receive_stream:
  "awaits r cmds bytes \<Longrightarrow> buf_left r 0 \<Longrightarrow> cmds = [] \<or> bytes \<noteq> [] \<Longrightarrow> \<forall>cmd \<in> set cmds. sendable cmd \<Longrightarrow>
   serve proc s cmds = Some (s', False) \<Longrightarrow> length bytes \<le> length ns \<Longrightarrow>
   \<exists>r'. receive proc s r bytes ns = Some (s', Some r') \<and> awaits r' [] [] \<and> rd_reply r' = rd_reply r"
proof (induction ns arbitrary: r s cmds bytes)
  case Nil
  then show ?case by auto
next
  case (Cons n ns)
  show ?case
  proof (cases "bytes = []")
    case True
    then show ?thesis using Cons.prems by auto
  next
    case False
    define k where "k = min (Suc n) (readlen r)"
    define r1 where "r1 = r\<lparr>rd_querybuf_peak := max (rd_querybuf_peak r) (length (rd_querybuf r)),
      rd_querybuf := rd_querybuf r @ take k bytes\<rparr>"
    have "k \<le> readlen r" by (simp add: k_def)
    note d = delivery_fits [OF Cons.prems(1,2,4) this False]
    have "awaits r1 cmds (drop k bytes)" "buf_fits r1 0" "length (rd_querybuf r1) \<le> REDIS_MAX_QUERYBUF_LEN"
      using d by (simp_all add: r1_def)
    then obtain s2 r2 dn cmds1 where i: "processInputBuffer proc s r1 = Some (s2, r2)" "cmds = dn @ cmds1"
        "awaits r2 cmds1 (drop k bytes)" "cmds1 = [] \<or> drop k bytes \<noteq> []" "buf_left r2 0" "serve proc s2 cmds1 = Some (s', False)"
        "rd_reply r2 = rd_reply r1"
      using input_stream [OF _ _ Cons.prems(4,5)] by blast
    have "0 < k" using d(1) by (simp add: k_def)
    then have "length (drop k bytes) \<le> length ns" using Cons.prems(6) False by auto
    then obtain r' where "receive proc s2 r2 (drop k bytes) ns = Some (s', Some r')" "awaits r' [] []" "rd_reply r' = rd_reply r2"
      using Cons.IH [OF i(3,5,4) _ i(6)] Cons.prems(4) i(2) by auto
    moreover have "readQueryFromClient proc s r (Read_Bytes (take k bytes)) = Some (s2, Some r2)"
      using i(1) d(4) by (simp add: readQueryFromClient_def r1_def Let_def)
    ultimately show ?thesis using False i(7) by (simp add: k_def [symmetric] r1_def)
  qed
qed

lemma requests_arrive:
  assumes "\<forall>cmd \<in> set cmds. sendable cmd" and "serve proc s cmds = Some (s', False)" and "length (encoding cmds) \<le> length ns"
  shows "\<exists>p. receive proc s new_reader (encoding cmds) ns = Some (s', Some (new_reader\<lparr>rd_querybuf_peak := p\<rparr>))"
proof -
  have "awaits new_reader cmds (encoding cmds)" "buf_left new_reader 0"
    by (simp_all add: awaits_def new_reader_def buf_left_def)
  moreover have "cmds = [] \<or> encoding cmds \<noteq> []"
    by (cases cmds) (simp_all add: encoding_def catAppendOnlyGenericCommand_def)
  ultimately obtain r' where r: "receive proc s new_reader (encoding cmds) ns = Some (s', Some r')" "awaits r' [] []"
      "rd_reply r' = []"
    using receive_stream [OF _ _ _ assms] by (force simp: new_reader_def)
  then have "r' = new_reader\<lparr>rd_querybuf_peak := rd_querybuf_peak r'\<rparr>"
    by (cases r') (auto simp: awaits_def new_reader_def encoding_def)
  then show ?thesis using r(1) by metis
qed

end

text \<open>C3. Requests arrive as they were written.  Any sequence of commands, each of up to a million arguments of up
  to 512 megabytes with any bytes in them, encoded the way the server writes commands to its
  append-only file and delivered in pieces of any size, is executed command by command in that order:
  the server ends in the state that executing the commands themselves gives, no protocol error is
  raised, the buffer limit is not reached, and the reader is as new.\<close>

theorem requests_roundtrip:
  assumes "\<forall>cmd \<in> set cmds. sendable cmd" and "serve (server_processor e c) s cmds = Some (s', False)"
    and "length (encoding cmds) \<le> length ns"
  shows "\<exists>p. receive (server_processor e c) s new_reader (encoding cmds) ns = Some (s', Some (new_reader\<lparr>rd_querybuf_peak := p\<rparr>))"
  using assms by (rule server.requests_arrive)

lemma lookup_get_row:
  "\<exists>cmd. lookupCommand ''get'' = Some cmd \<and> rc_name cmd = ''get'' \<and> arity_ok cmd 2 \<and> \<not> rc_denyoom cmd \<and> \<not> rc_write cmd"
proof -
  have "(''get'', 2, ''r'', GK_None, 1, 1, 1) \<in> set redisCommandTable" by (simp add: redisCommandTable_def)
  moreover have "caseeq ''get'' (fst (''get'', 2::int, ''r'', GK_None, 1::int, 1::int, 1::int))" by (simp add: caseeq_def)
  ultimately have "lookupCommand ''get'' = row_command (''get'', 2, ''r'', GK_None, 1, 1, 1)" using lookup_row by blast
  then show ?thesis by (simp add: row_command_def command_flag_def arity_ok_def)
qed

text \<open>A client in a transaction queues a command.\<close>

lemma get_served:
  "\<exists>s'. serve (server_processor modelled_env 1) (multi_example []) [[''get'', ''k'']] = Some (s', False)"
proof -
  obtain cmd where l: "lookupCommand ''get'' = Some cmd" "rc_name cmd = ''get''" "arity_ok cmd 2" "\<not> rc_denyoom cmd" "\<not> rc_write cmd"
    using lookup_get_row by blast
  have q: "\<not> strcaseeq ''get'' ''quit''" by (simp add: strcaseeq_defs tolower_def char_of_def bit_simps)
  let ?s = "upd_client (multi_example []) 1 (\<lambda>cl. cl\<lparr>c_argv := [''get'', ''k'']\<rparr>)"
  have "\<exists>s' cl. processCommand modelled_env ?s 1 = Some (s', True) \<and> sv_clients s' 1 = Some cl \<and> \<not> c_close_after_reply cl"
    using l q
    by (simp add: processCommand_def arg_def admit_command_def run_command_def queueMultiCommand_def multi_example_def multi_client_def
        new_client_def initServer_def Let_def upd_client_def addReply_def del: One_nat_def)
  then show ?thesis by (auto simp: server_processor_def)
qed

theorem requests_roundtrip_witness:
  "\<exists>s' r'. receive (server_processor modelled_env 1) (multi_example []) new_reader (encoding [[''get'', ''k'']])
     (replicate (length (encoding [[''get'', ''k'']])) 2) = Some (s', Some r')"
proof -
  obtain s' where "serve (server_processor modelled_env 1) (multi_example []) [[''get'', ''k'']] = Some (s', False)"
    using get_served by blast
  then show ?thesis
    using requests_roundtrip [of "[[''get'', ''k'']]" modelled_env 1 "multi_example []" s' "replicate (length (encoding [[''get'', ''k'']])) 2"]
    by (auto simp: sendable_def)
qed

end
