(* ===== verification/T_String.thy ===== *)
theory T_String
  imports Keyspace
begin

section \<open>String commands (\<^verbatim>\<open>t_string.c\<close>)\<close>

text \<open>
  The commands on string values.  A stored value is a string in one of its two encodings or an object
  of another type.  Values are not shared: the source copies a value before it changes it when there
  is a second reference to it, so no two keys ever see each other's changes; reference counts are not
  modelled.  \<open>None\<close> is a missing argument, a failed assertion, an access outside a string or an
  allocation that cannot succeed, which aborts the process.  Arithmetic on \<^verbatim>\<open>long long\<close> is written with
  its wrap-around.  \<^verbatim>\<open>INCRBYFLOAT\<close>, which computes with \<^verbatim>\<open>long double\<close>, is not modelled.
\<close>

datatype 'o rvalue = StrObj str_val | OtherObj 'o

definition shared_wrongtypeerr :: string where
  "shared_wrongtypeerr = ''Operation against a key holding the wrong kind of value''"

definition shared_syntaxerr :: string where
  "shared_syntaxerr = ''syntax error''"

text \<open>The number in an argument; arguments are raw strings.\<close>

definition llong_arg :: "string \<Rightarrow> string + int" where
  "llong_arg t = getLongLongFromObjectOrReply (Some (createStringObject 0 t)) None"

definition long_arg :: "string \<Rightarrow> string + int" where
  "long_arg t = getLongFromObjectOrReply (Some (createStringObject 0 t)) None"

text \<open>The value made of an argument.\<close>

definition encode_arg :: "'v redisServer \<Rightarrow> string \<Rightarrow> str_val" where
  "encode_arg s t = o_ptr (ref_obj (tryObjectEncoding (sv_maxmemory s) (createStringObject 0 t)))"

text \<open>The error, when there is one.\<close>

definition checkStringLength :: "int \<Rightarrow> string option" where
  "checkStringLength n =
     (if n > 512 * 1024 * 1024 then Some ''string exceeds maximum allowed size (512MB)'' else None)"

subsection \<open>Setting\<close>

definition set_expire_arg :: "string option \<Rightarrow> bool \<Rightarrow> string + int" where
  "set_expire_arg expire seconds =
     (case expire of
        None \<Rightarrow> Inr 0
      | Some e \<Rightarrow>
          (case llong_arg e of
             Inl msg \<Rightarrow> Inl msg
           | Inr ms \<Rightarrow>
               if ms \<le> 0 then Inl ''invalid expire time in SETEX''
               else Inr (if seconds then to_signed 64 (ms * 1000) else ms)))"

text \<open>The test of the flags, with the lookups it makes.\<close>

definition set_aborts :: "bool \<Rightarrow> bool \<Rightarrow> 'v redisServer \<Rightarrow> nat \<Rightarrow> string \<Rightarrow> ('v redisServer \<times> bool) option" where
  "set_aborts nx xx s d key = do {
     (s1, found) \<leftarrow> (if nx then map_option (\<lambda>(s1, v). (s1, v \<noteq> None)) (lookupKeyWrite s d key) else Some (s, False));
     if found then Some (s1, True)
     else if xx then map_option (\<lambda>(s2, v). (s2, v = None)) (lookupKeyWrite s1 d key)
     else Some (s1, False)
   }"

definition setGenericCommand ::
  "'o rvalue redisServer \<Rightarrow> nat \<Rightarrow> bool \<Rightarrow> bool \<Rightarrow> string \<Rightarrow> str_val \<Rightarrow> string option \<Rightarrow> bool \<Rightarrow> reply \<Rightarrow> reply \<Rightarrow>
   'o rvalue redisServer option" where
  "setGenericCommand s c nx xx key val expire seconds ok_reply no_reply = do {
     cl \<leftarrow> sv_clients s c;
     case set_expire_arg expire seconds of
       Inl msg \<Rightarrow> Some (addReply s c (R_Error msg))
     | Inr ms \<Rightarrow> do {
         (s1, aborts) \<leftarrow> set_aborts nx xx s (c_db cl) key;
         if aborts then Some (addReply s1 c no_reply)
         else do {
           s2 \<leftarrow> setKey s1 (c_db cl) key (StrObj val);
           s3 \<leftarrow> (if expire = None then Some (incr_dirty 1 s2)
             else setExpire (incr_dirty 1 s2) (c_db cl) key (to_signed 64 (sv_mstime s2 + ms)));
           Some (addReply s3 c ok_reply)
         }
       }
   }"

text \<open>The options of \<^verbatim>\<open>SET\<close>: whether the key must not or must exist, the expire time and whether it is in seconds;
  \<open>None\<close> is a syntax error.\<close>

function set_opts :: "string list \<Rightarrow> bool \<Rightarrow> bool \<Rightarrow> string option \<Rightarrow> bool \<Rightarrow> (bool \<times> bool \<times> string option \<times> bool) option" where
  "set_opts [] nx xx expire seconds = Some (nx, xx, expire, seconds)"
| "set_opts (a # rest) nx xx expire seconds =
     (if strcaseeq a ''nx'' then set_opts rest True xx expire seconds
      else if strcaseeq a ''xx'' then set_opts rest nx True expire seconds
      else if strcaseeq a ''ex'' \<and> rest \<noteq> [] then set_opts (tl rest) nx xx (Some (hd rest)) True
      else if strcaseeq a ''px'' \<and> rest \<noteq> [] then set_opts (tl rest) nx xx (Some (hd rest)) False
      else None)"
  by pat_completeness auto
termination
  by (relation "measure (\<lambda>(l, _). length l)") auto

definition setCommand :: "'o rvalue redisServer \<Rightarrow> nat \<Rightarrow> 'o rvalue redisServer option" where
  "setCommand s c = do {
     cl \<leftarrow> sv_clients s c;
     key \<leftarrow> arg cl 1;
     val \<leftarrow> arg cl 2;
     case set_opts (drop 3 (c_argv cl)) False False None True of
       None \<Rightarrow> Some (addReply s c (R_Error shared_syntaxerr))
     | Some (nx, xx, expire, seconds) \<Rightarrow>
         setGenericCommand s c nx xx key (encode_arg s val) expire seconds (R_Status ''OK'') R_NullBulk
   }"

definition setnxCommand :: "'o rvalue redisServer \<Rightarrow> nat \<Rightarrow> 'o rvalue redisServer option" where
  "setnxCommand s c = do {
     cl \<leftarrow> sv_clients s c;
     key \<leftarrow> arg cl 1;
     val \<leftarrow> arg cl 2;
     setGenericCommand s c True False key (encode_arg s val) None False (R_Int 1) (R_Int 0)
   }"

definition setex_with :: "bool \<Rightarrow> 'o rvalue redisServer \<Rightarrow> nat \<Rightarrow> 'o rvalue redisServer option" where
  "setex_with seconds s c = do {
     cl \<leftarrow> sv_clients s c;
     key \<leftarrow> arg cl 1;
     expire \<leftarrow> arg cl 2;
     val \<leftarrow> arg cl 3;
     setGenericCommand s c False False key (encode_arg s val) (Some expire) seconds (R_Status ''OK'') R_NullBulk
   }"

definition setexCommand :: "'o rvalue redisServer \<Rightarrow> nat \<Rightarrow> 'o rvalue redisServer option" where
  "setexCommand = setex_with True"

definition psetexCommand :: "'o rvalue redisServer \<Rightarrow> nat \<Rightarrow> 'o rvalue redisServer option" where
  "psetexCommand = setex_with False"

subsection \<open>Getting\<close>

text \<open>The flag is whether the value was not of another type.\<close>

definition getGenericCommand :: "'o rvalue redisServer \<Rightarrow> nat \<Rightarrow> ('o rvalue redisServer \<times> bool) option" where
  "getGenericCommand s c = do {
     cl \<leftarrow> sv_clients s c;
     key \<leftarrow> arg cl 1;
     (s1, val) \<leftarrow> lookupKeyReadOrReply s c key R_NullBulk;
     Some (case val of
         None \<Rightarrow> (s1, True)
       | Some (OtherObj _) \<Rightarrow> (addReply s1 c (R_Error shared_wrongtypeerr), False)
       | Some (StrObj v) \<Rightarrow> (addReply s1 c (R_Bulk (val_text v)), True))
   }"

definition getCommand :: "'o rvalue redisServer \<Rightarrow> nat \<Rightarrow> 'o rvalue redisServer option" where
  "getCommand s c = map_option fst (getGenericCommand s c)"

definition getsetCommand :: "'o rvalue redisServer \<Rightarrow> nat \<Rightarrow> 'o rvalue redisServer option" where
  "getsetCommand s c = do {
     (s1, ok) \<leftarrow> getGenericCommand s c;
     if \<not> ok then Some s1
     else do {
       cl \<leftarrow> sv_clients s1 c;
       key \<leftarrow> arg cl 1;
       val \<leftarrow> arg cl 2;
       s2 \<leftarrow> setKey s1 (c_db cl) key (StrObj (encode_arg s1 val));
       Some (incr_dirty 1 s2)
     }
   }"

definition strlenCommand :: "'o rvalue redisServer \<Rightarrow> nat \<Rightarrow> 'o rvalue redisServer option" where
  "strlenCommand s c = do {
     cl \<leftarrow> sv_clients s c;
     key \<leftarrow> arg cl 1;
     (s1, val) \<leftarrow> lookupKeyReadOrReply s c key (R_Int 0);
     Some (case val of
         None \<Rightarrow> s1
       | Some (OtherObj _) \<Rightarrow> addReply s1 c (R_Error shared_wrongtypeerr)
       | Some (StrObj v) \<Rightarrow> addReply s1 c (R_Int (int (length (val_text v)))))
   }"

text \<open>The indexes of \<^verbatim>\<open>GETRANGE\<close> made absolute, and the bytes read; the end is cut to 32 bits before it is compared
  with the length.\<close>

definition range_read :: "string \<Rightarrow> int \<Rightarrow> int \<Rightarrow> string option" where
  "range_read str start0 end0 =
     (let strlen = int (length str);
          start1 = (if start0 < 0 then strlen + start0 else start0);
          end1 = (if end0 < 0 then strlen + end0 else end0);
          start = (if start1 < 0 then 0 else start1);
          end2 = (if end1 < 0 then 0 else end1);
          end3 = (if to_unsigned 32 end2 \<ge> strlen then strlen - 1 else end2)
      in if start > end3 then Some []
         else if end3 < strlen then Some (take (nat (end3 - start + 1)) (drop (nat start) str)) else None)"

definition getrangeCommand :: "'o rvalue redisServer \<Rightarrow> nat \<Rightarrow> 'o rvalue redisServer option" where
  "getrangeCommand s c = do {
     cl \<leftarrow> sv_clients s c;
     key \<leftarrow> arg cl 1;
     a1 \<leftarrow> arg cl 2;
     a2 \<leftarrow> arg cl 3;
     case (long_arg a1, long_arg a2) of
       (Inl msg, _) \<Rightarrow> Some (addReply s c (R_Error msg))
     | (_, Inl msg) \<Rightarrow> Some (addReply s c (R_Error msg))
     | (Inr start, Inr end) \<Rightarrow> do {
         (s1, val) \<leftarrow> lookupKeyReadOrReply s c key (R_Bulk []);
         case val of
           None \<Rightarrow> Some s1
         | Some (OtherObj _) \<Rightarrow> Some (addReply s1 c (R_Error shared_wrongtypeerr))
         | Some (StrObj v) \<Rightarrow> map_option (\<lambda>t. addReply s1 c (R_Bulk t)) (range_read (val_text v) start end)
       }
   }"

fun mget_loop :: "'o rvalue redisServer \<Rightarrow> nat \<Rightarrow> nat \<Rightarrow> string list \<Rightarrow> 'o rvalue redisServer option" where
  "mget_loop s c d [] = Some s"
| "mget_loop s c d (key # keys) = do {
     (s1, val) \<leftarrow> lookupKeyRead s d key;
     mget_loop (addReply s1 c (case val of Some (StrObj v) \<Rightarrow> R_Bulk (val_text v) | _ \<Rightarrow> R_NullBulk)) c d keys
   }"

definition mgetCommand :: "'o rvalue redisServer \<Rightarrow> nat \<Rightarrow> 'o rvalue redisServer option" where
  "mgetCommand s c = do {
     cl \<leftarrow> sv_clients s c;
     mget_loop (addReply s c (R_MultiBulkLen (int (length (c_argv cl)) - 1))) c (c_db cl) (tl (c_argv cl))
   }"

subsection \<open>Several keys\<close>

fun pairs_of :: "'a list \<Rightarrow> ('a \<times> 'a) list" where
  "pairs_of (k # v # l) = (k, v) # pairs_of l"
| "pairs_of _ = []"

fun busy_keys :: "'o rvalue redisServer \<Rightarrow> nat \<Rightarrow> string list \<Rightarrow> nat \<Rightarrow> ('o rvalue redisServer \<times> nat) option" where
  "busy_keys s d [] n = Some (s, n)"
| "busy_keys s d (key # keys) n = do {
     (s1, val) \<leftarrow> lookupKeyWrite s d key;
     busy_keys s1 d keys (if val = None then n else n + 1)
   }"

fun mset_loop :: "'o rvalue redisServer \<Rightarrow> nat \<Rightarrow> (string \<times> string) list \<Rightarrow> 'o rvalue redisServer option" where
  "mset_loop s d [] = Some s"
| "mset_loop s d ((key, val) # kvs) = do {
     s1 \<leftarrow> setKey s d key (StrObj (encode_arg s val));
     mset_loop s1 d kvs
   }"

definition msetGenericCommand :: "'o rvalue redisServer \<Rightarrow> nat \<Rightarrow> bool \<Rightarrow> 'o rvalue redisServer option" where
  "msetGenericCommand s c nx = do {
     cl \<leftarrow> sv_clients s c;
     if even (length (c_argv cl)) then Some (addReply s c (R_Error ''wrong number of arguments for MSET''))
     else do {
       let kvs = pairs_of (tl (c_argv cl));
       (s1, busy) \<leftarrow> (if nx then busy_keys s (c_db cl) (map fst kvs) 0 else Some (s, 0));
       if busy \<noteq> 0 then Some (addReply s1 c (R_Int 0))
       else do {
         s2 \<leftarrow> mset_loop s1 (c_db cl) kvs;
         Some (addReply (incr_dirty ((int (length (c_argv cl)) - 1) div 2) s2) c (if nx then R_Int 1 else R_Status ''OK''))
       }
     }
   }"

definition msetCommand :: "'o rvalue redisServer \<Rightarrow> nat \<Rightarrow> 'o rvalue redisServer option" where
  "msetCommand s c = msetGenericCommand s c False"

definition msetnxCommand :: "'o rvalue redisServer \<Rightarrow> nat \<Rightarrow> 'o rvalue redisServer option" where
  "msetnxCommand s c = msetGenericCommand s c True"

subsection \<open>Counting\<close>

definition incrDecrCommand :: "'o rvalue redisServer \<Rightarrow> nat \<Rightarrow> int \<Rightarrow> 'o rvalue redisServer option" where
  "incrDecrCommand s c incr = do {
     cl \<leftarrow> sv_clients s c;
     key \<leftarrow> arg cl 1;
     (s1, val) \<leftarrow> lookupKeyWrite s (c_db cl) key;
     case val of
       Some (OtherObj _) \<Rightarrow> Some (addReply s1 c (R_Error shared_wrongtypeerr))
     | _ \<Rightarrow>
         (case getLongLongFromObjectOrReply (case val of Some (StrObj v) \<Rightarrow> Some (createObject 0 v) | _ \<Rightarrow> None) None of
            Inl msg \<Rightarrow> Some (addReply s1 c (R_Error msg))
          | Inr oldvalue \<Rightarrow>
              if (incr < 0 \<and> oldvalue < 0 \<and> incr < LLONG_MIN - oldvalue) \<or>
                 (incr > 0 \<and> oldvalue > 0 \<and> incr > LLONG_MAX - oldvalue)
              then Some (addReply s1 c (R_Error ''increment or decrement would overflow''))
              else do {
                let value = to_signed 64 (oldvalue + incr);
                new \<leftarrow> createStringObjectFromLongLong 0 value;
                let ob = StrObj (o_ptr (ref_obj new));
                s2 \<leftarrow> (if val = None then dbAdd s1 (c_db cl) key ob else dbOverwrite s1 (c_db cl) key ob);
                s3 \<leftarrow> signalModifiedKey s2 (c_db cl) key;
                Some (addReply (incr_dirty 1 s3) c (R_Int value))
              })
   }"

definition incrCommand :: "'o rvalue redisServer \<Rightarrow> nat \<Rightarrow> 'o rvalue redisServer option" where
  "incrCommand s c = incrDecrCommand s c 1"

definition decrCommand :: "'o rvalue redisServer \<Rightarrow> nat \<Rightarrow> 'o rvalue redisServer option" where
  "decrCommand s c = incrDecrCommand s c (- 1)"

definition incrbyCommand :: "'o rvalue redisServer \<Rightarrow> nat \<Rightarrow> 'o rvalue redisServer option" where
  "incrbyCommand s c = do {
     cl \<leftarrow> sv_clients s c;
     a \<leftarrow> arg cl 2;
     case llong_arg a of
       Inl msg \<Rightarrow> Some (addReply s c (R_Error msg))
     | Inr incr \<Rightarrow> incrDecrCommand s c incr
   }"

definition decrbyCommand :: "'o rvalue redisServer \<Rightarrow> nat \<Rightarrow> 'o rvalue redisServer option" where
  "decrbyCommand s c = do {
     cl \<leftarrow> sv_clients s c;
     a \<leftarrow> arg cl 2;
     case llong_arg a of
       Inl msg \<Rightarrow> Some (addReply s c (R_Error msg))
     | Inr incr \<Rightarrow> incrDecrCommand s c (to_signed 64 (- incr))
   }"

subsection \<open>Changing a part\<close>

definition appendCommand :: "'o rvalue redisServer \<Rightarrow> nat \<Rightarrow> 'o rvalue redisServer option" where
  "appendCommand s c = do {
     cl \<leftarrow> sv_clients s c;
     key \<leftarrow> arg cl 1;
     app \<leftarrow> arg cl 2;
     (s1, val) \<leftarrow> lookupKeyWrite s (c_db cl) key;
     case val of
       Some (OtherObj _) \<Rightarrow> Some (addReply s1 c (R_Error shared_wrongtypeerr))
     | None \<Rightarrow> do {
         let v = encode_arg s1 app;
         s2 \<leftarrow> dbAdd s1 (c_db cl) key (StrObj v);
         s3 \<leftarrow> signalModifiedKey s2 (c_db cl) key;
         Some (addReply (incr_dirty 1 s3) c (R_Int (int (length (val_text v)))))
       }
     | Some (StrObj v) \<Rightarrow>
         (case checkStringLength (int (length (val_text v) + length app)) of
            Some msg \<Rightarrow> Some (addReply s1 c (R_Error msg))
          | None \<Rightarrow> do {
              let t = val_text v @ app;
              s2 \<leftarrow> dbOverwrite s1 (c_db cl) key (StrObj (EncRaw t));
              s3 \<leftarrow> signalModifiedKey s2 (c_db cl) key;
              Some (addReply (incr_dirty 1 s3) c (R_Int (int (length t))))
            })
   }"

text \<open>The part of the string that \<^verbatim>\<open>SETRANGE\<close> overwrites, after growing the string with zeros.  A length that is negative
  as a \<^verbatim>\<open>long long\<close> passes the check of the length but cannot be allocated.\<close>

definition write_at :: "string \<Rightarrow> int \<Rightarrow> string \<Rightarrow> string option" where
  "write_at t offset value =
     (let n = to_unsigned 64 (offset + int (length value)) in
      if n \<ge> 2 ^ 63 then None
      else let g = t @ replicate (nat n - length t) NUL in
        Some (take (nat offset) g @ value @ drop (nat offset + length value) g))"

definition setrangeCommand :: "'o rvalue redisServer \<Rightarrow> nat \<Rightarrow> 'o rvalue redisServer option" where
  "setrangeCommand s c = do {
     cl \<leftarrow> sv_clients s c;
     key \<leftarrow> arg cl 1;
     a \<leftarrow> arg cl 2;
     value \<leftarrow> arg cl 3;
     case long_arg a of
       Inl msg \<Rightarrow> Some (addReply s c (R_Error msg))
     | Inr offset \<Rightarrow>
         if offset < 0 then Some (addReply s c (R_Error ''offset is out of range''))
         else do {
           (s1, val) \<leftarrow> lookupKeyWrite s (c_db cl) key;
           case val of
             Some (OtherObj _) \<Rightarrow> Some (addReply s1 c (R_Error shared_wrongtypeerr))
           | _ \<Rightarrow>
               (let t = (case val of Some (StrObj v) \<Rightarrow> val_text v | _ \<Rightarrow> []) in
                if value = [] then Some (addReply s1 c (R_Int (int (length t))))
                else case checkStringLength (to_signed 64 (offset + int (length value))) of
                  Some msg \<Rightarrow> Some (addReply s1 c (R_Error msg))
                | None \<Rightarrow> do {
                    t1 \<leftarrow> write_at t offset value;
                    s2 \<leftarrow> (if val = None then dbAdd s1 (c_db cl) key (StrObj (EncRaw t1))
                       else dbOverwrite s1 (c_db cl) key (StrObj (EncRaw t1)));
                    s3 \<leftarrow> signalModifiedKey s2 (c_db cl) key;
                    Some (addReply (incr_dirty 1 s3) c (R_Int (int (length t1))))
                  })
         }
   }"

subsection \<open>Contracts\<close>

text \<open>The commands keep the contract of commands, whatever their arguments.\<close>

lemma lookupKeyReadOrReply_ctr:
  "ctr c s0 s \<Longrightarrow> (\<And>s' v. ctr c s0 s' \<Longrightarrow> Q (s', v)) \<Longrightarrow> ensures (lookupKeyReadOrReply s c k r) Q"
  unfolding lookupKeyReadOrReply_def
  by (intro ens_struct ens_ops [where c = c and ?s0.0 = s0]) (auto intro: ctr_steps)

lemma ens_setKey: "ctr c s0 s \<Longrightarrow> (\<And>s'. ctr c s0 s' \<Longrightarrow> Q s') \<Longrightarrow> ensures (setKey s d k v) Q"
  by (rule ensures_mono [OF setKey_ctr]) (auto intro: ctr_trans)

lemma ensures_rvalue:
  "(\<And>x. v = StrObj x \<Longrightarrow> ensures (f x) Q) \<Longrightarrow> (\<And>x. v = OtherObj x \<Longrightarrow> ensures (g x) Q) \<Longrightarrow>
   ensures (case v of StrObj x \<Rightarrow> f x | OtherObj x \<Rightarrow> g x) Q"
  by (cases v) auto

lemmas str_ens = ens_struct ensures_rvalue ensures_prod

lemma set_aborts_ctr: "ctr c s0 s \<Longrightarrow> (\<And>s' v. ctr c s0 s' \<Longrightarrow> Q (s', v)) \<Longrightarrow> ensures (set_aborts nx xx s d k) Q"
  unfolding set_aborts_def
  by (intro str_ens ens_ops [where c = c and ?s0.0 = s0]) (auto intro!: ens_ops [where c = c and ?s0.0 = s0])

lemma setGenericCommand_ctr: "ensures (setGenericCommand s c nx xx k v e b r1 r2) (ctr c s)"
  unfolding setGenericCommand_def
  by (intro str_ens set_aborts_ctr [where ?s0.0 = s and c = c] ens_setKey [where ?s0.0 = s and c = c]
      ens_ops [where c = c and ?s0.0 = s] ctr_refl ctr_steps; (assumption | simp))

lemma getGenericCommand_ctr: "ctr c s0 s \<Longrightarrow> (\<And>s' v. ctr c s0 s' \<Longrightarrow> Q (s', v)) \<Longrightarrow> ensures (getGenericCommand s c) Q"
  unfolding getGenericCommand_def
  by (intro str_ens lookupKeyReadOrReply_ctr [where ?s0.0 = s0 and c = c])
     (auto intro: ctr_steps split: option.splits rvalue.splits)

lemma mget_loop_ctr: "ctr c s0 s \<Longrightarrow> ensures (mget_loop s c d ks) (ctr c s0)"
proof (induction ks arbitrary: s)
  case (Cons k ks)
  show ?case
    unfolding mget_loop.simps
    by (intro str_ens ens_ops [where c = c and ?s0.0 = s0] Cons ctr_steps) (use Cons.prems in simp_all)
qed simp

lemma busy_keys_ctr: "ctr c s0 s \<Longrightarrow> ensures (busy_keys s d ks n) (\<lambda>(s', m). ctr c s0 s')"
proof (induction ks arbitrary: s n)
  case (Cons k ks)
  show ?case
    unfolding busy_keys.simps
    by (intro str_ens ens_ops [where c = c and ?s0.0 = s0] Cons) (use Cons.prems in simp_all)
qed simp

lemma mset_loop_ctr: "ctr c s0 s \<Longrightarrow> ensures (mset_loop s d kvs) (ctr c s0)"
proof (induction kvs arbitrary: s)
  case (Cons kv kvs)
  obtain k v where kv: "kv = (k, v)" by (cases kv)
  show ?case
    unfolding kv mset_loop.simps
    by (intro str_ens ens_setKey [where c = c and ?s0.0 = s0] Cons) (use Cons.prems in simp_all)
qed simp

lemma ens_mset:
  "ctr c s0 s \<Longrightarrow> (\<And>s' m. ctr c s0 s' \<Longrightarrow> Q (s', m)) \<Longrightarrow> ensures (busy_keys s d ks n) Q"
  "ctr c s0 s \<Longrightarrow> (\<And>s'. ctr c s0 s' \<Longrightarrow> R s') \<Longrightarrow> ensures (mset_loop s d kvs) R"
  by (rule ensures_mono [OF busy_keys_ctr], assumption, auto) (rule ensures_mono [OF mset_loop_ctr])

lemma mset_ctr: "ensures (msetGenericCommand s c nx) (ctr c s)"
proof -
  have n: "0 \<le> (int (length l) - 1) div 2" if "\<not> even (length l)" for l :: "string list"
    using odd_pos [OF that] by simp
  show ?thesis
    unfolding msetGenericCommand_def Let_def
    by (intro str_ens ens_mset [where c = c and ?s0.0 = s] ctr_refl ctr_steps n; assumption)
qed

lemma incrDecr_ctr: "ensures (incrDecrCommand s c n) (ctr c s)"
  unfolding incrDecrCommand_def Let_def
  apply (intro str_ens ens_ops [where c = c and ?s0.0 = s] ctr_refl ctr_steps ensures_any [of "createStringObjectFromLongLong _ _"])
  apply (assumption | simp)+
  done

lemma getset_ctr: "ensures (getsetCommand s c) (ctr c s)"
  unfolding getsetCommand_def
  by (intro str_ens getGenericCommand_ctr [where c = c and ?s0.0 = s] ens_setKey [where ?s0.0 = s and c = c] ctr_refl ctr_steps;
      (assumption | simp))

lemma strlen_ctr: "ensures (strlenCommand s c) (ctr c s)"
  unfolding strlenCommand_def
  by (intro str_ens lookupKeyReadOrReply_ctr [where c = c and ?s0.0 = s] ctr_refl)
     (auto intro: ctr_steps split: option.splits rvalue.splits)

lemma getrange_ctr: "ensures (getrangeCommand s c) (ctr c s)"
  unfolding getrangeCommand_def
  by (intro str_ens lookupKeyReadOrReply_ctr [where c = c and ?s0.0 = s] ctr_refl ctr_steps
      ensures_any [of "range_read _ _ _"]; assumption)

lemma append_ctr: "ensures (appendCommand s c) (ctr c s)"
  unfolding appendCommand_def Let_def
  by (intro str_ens ens_ops [where c = c and ?s0.0 = s] ctr_refl ctr_steps; (assumption | simp))

lemma setrange_ctr: "ensures (setrangeCommand s c) (ctr c s)"
  unfolding setrangeCommand_def Let_def
  by (intro str_ens ens_ops [where c = c and ?s0.0 = s] ctr_refl ctr_steps ensures_any [of "write_at _ _ _"];
      (assumption | simp))

text \<open>The rows of the command table.\<close>

definition string_table :: "(string \<times> ('o rvalue redisServer \<Rightarrow> nat \<Rightarrow> 'o rvalue redisServer option)) list" where
  "string_table =
     [(''get'', getCommand),
      (''set'', setCommand),
      (''setnx'', setnxCommand),
      (''setex'', setexCommand),
      (''psetex'', psetexCommand),
      (''append'', appendCommand),
      (''strlen'', strlenCommand),
      (''setrange'', setrangeCommand),
      (''getrange'', getrangeCommand),
      (''substr'', getrangeCommand),
      (''incr'', incrCommand),
      (''decr'', decrCommand),
      (''mget'', mgetCommand),
      (''incrby'', incrbyCommand),
      (''decrby'', decrbyCommand),
      (''getset'', getsetCommand),
      (''mset'', msetCommand),
      (''msetnx'', msetnxCommand)]"

lemma string_procs_ctr:
  "ensures (getCommand s c) (ctr c s)" "ensures (setCommand s c) (ctr c s)" "ensures (setnxCommand s c) (ctr c s)"
  "ensures (setexCommand s c) (ctr c s)" "ensures (psetexCommand s c) (ctr c s)" "ensures (incrCommand s c) (ctr c s)"
  "ensures (decrCommand s c) (ctr c s)" "ensures (mgetCommand s c) (ctr c s)" "ensures (incrbyCommand s c) (ctr c s)"
  "ensures (decrbyCommand s c) (ctr c s)" "ensures (msetCommand s c) (ctr c s)" "ensures (msetnxCommand s c) (ctr c s)"
  unfolding getCommand_def setCommand_def setnxCommand_def setexCommand_def psetexCommand_def setex_with_def incrCommand_def
    decrCommand_def mgetCommand_def incrbyCommand_def decrbyCommand_def msetCommand_def msetnxCommand_def
  by (intro str_ens setGenericCommand_ctr incrDecr_ctr mset_ctr mget_loop_ctr getGenericCommand_ctr [where c = c and ?s0.0 = s]
      ctr_refl ctr_steps; simp)+

lemma string_table_ctr: "map_of string_table n = Some p \<Longrightarrow> ensures (p s c) (ctr c s)"
  by (drule map_of_SomeD)
     (auto simp: string_table_def intro: string_procs_ctr getset_ctr strlen_ctr getrange_ctr append_ctr setrange_ctr)

end
