(* ===== verification/T_String_Correct.thy ===== *)
theory T_String_Correct
  imports T_String
begin

section \<open>Correctness of the string commands\<close>

text \<open>
  What the string commands store and reply, on every branch, for a server in a well formed state: in terms
  of the value that commands see under a key (\<open>live\<close>) and of the text and the number it stands for.
\<close>

definition replied :: "'v redisServer \<Rightarrow> nat \<Rightarrow> reply \<Rightarrow> 'v redisServer \<Rightarrow> bool" where
  "replied s c r s' \<longleftrightarrow>
     map_option c_reply (sv_clients s' c) = map_option (\<lambda>cl. c_reply cl @ [r]) (sv_clients s c)"

text \<open>Nothing but a reply: no command sees another value than before.\<close>

definition answered :: "'v redisServer \<Rightarrow> nat \<Rightarrow> reply \<Rightarrow> 'v redisServer \<Rightarrow> bool" where
  "answered s c r s' \<longleftrightarrow> server_ok s' \<and> (\<forall>d k. live s' d k = live s d k) \<and> replied s c r s'"

text \<open>One key has got a value and an expire time, every other key is as it was, the clients that watch the key
  are marked, and the change is counted.\<close>

definition stored ::
  "'v redisServer \<Rightarrow> nat \<Rightarrow> nat \<Rightarrow> string \<Rightarrow> 'v \<Rightarrow> int option \<Rightarrow> reply \<Rightarrow> 'v redisServer \<Rightarrow> bool" where
  "stored s c d k v e r s' \<longleftrightarrow> server_ok s' \<and> marked s s' d k \<and>
     (\<forall>d' k'. lookupKey s' d' k' = (if d' = d \<and> k' = k then Some v else lookupKey s d' k')) \<and>
     (\<forall>d' k'. expire_of s' d' k' = (if d' = d \<and> k' = k then e else expire_of s d' k')) \<and>
     replied s c r s' \<and> sv_dirty s' = sv_dirty s + 1"

lemma answered_reply: "server_ok s \<Longrightarrow> answered s c r (addReply s c r)"
  by (simp add: answered_def replied_def option.map_comp o_def)

lemma answered_expire: "server_ok s \<Longrightarrow> answered s c r (addReply (expire_step s d k) c r)"
  by (simp add: answered_def replied_def quiet_server_ok [OF quiet_expire_step] option.map_comp o_def)

lemma incr_dirty_dirty: "sv_dirty (incr_dirty n s) = sv_dirty s + n"
  by (simp add: incr_dirty_def)

text \<open>The expire time that a change of a value keeps.\<close>

definition kept_expire :: "'v redisServer \<Rightarrow> nat \<Rightarrow> string \<Rightarrow> int option" where
  "kept_expire s d k = (if live s d k = None then None else expire_of s d k)"

lemma kept_expire_step: "db_ok s \<Longrightarrow> expire_of (expire_step s d k) d k = kept_expire s d k"
  using db_ok_expire [of s d k] by (cases "expire_of s d k") (auto simp: kept_expire_def live_def expire_expire_step)

text \<open>The common end of the commands that change a value.\<close>

definition store :: "'v redisServer \<Rightarrow> nat \<Rightarrow> nat \<Rightarrow> string \<Rightarrow> 'v \<Rightarrow> reply \<Rightarrow> 'v redisServer" where
  "store s c d k v r = addReply (incr_dirty 1 (touch (put_key (expire_step s d k) d k v) d k)) c r"

lemma store_ok:
  assumes ok: "server_ok s" and d: "d < length (sv_db s)"
  shows "stored s c d k v (kept_expire s d k) r (store s c d k v r)"
proof -
  let ?t = "put_key (expire_step s d k) d k v"
  have q: "quiet s ?t" by (rule quiet_trans [OF quiet_expire_step quiet_put_key])
  have okt: "server_ok ?t" by (rule quiet_server_ok [OF q ok])
  have "server_ok (touch ?t d k)" by (rule touch_server_ok [OF okt]) (simp add: d)
  then have "server_ok (store s c d k v r)" by (simp add: store_def)
  moreover have "marked s (store s c d k v r) d k"
  proof -
    have "marked s (touch ?t d k) d k"
      by (rule marked_before [OF touch_marked [OF server_okD(1) [OF okt]] quiet_keeps [OF q]])
    then have "marked s (incr_dirty 1 (touch ?t d k)) d k" by (simp add: marked_def)
    then show ?thesis unfolding store_def by (rule marked_later [OF _ reply_keeps])
  qed
  moreover have "replied s c r (store s c d k v r)"
    by (cases "sv_clients s c") (auto simp: replied_def store_def touch_clients)
  moreover have "sv_dirty (store s c d k v r) = sv_dirty s + 1"
    by (simp add: store_def) (simp add: incr_dirty_def)
  ultimately show ?thesis
    using d kept_expire_step [OF server_okD(2) [OF ok], of d k]
    by (auto simp: stored_def store_def lookup_expire_step expire_expire_step)
qed

lemma lookups_eq:
  assumes ok: "server_ok s" and d: "d < length (sv_db s)"
  shows "lookupKeyWrite s d k = Some (expire_step s d k, live s d k)"
  using lookupKeyWrite_eq [OF server_okD(2) [OF ok] d] by (simp add: live_step)

lemma lookupKeyRead_ok:
  assumes ok: "server_ok s" and d: "d < length (sv_db s)"
  shows "\<exists>s1. lookupKeyRead s d k = Some (s1, live s d k) \<and> server_ok s1 \<and> live s1 = live s \<and> sv_clients s1 = sv_clients s \<and>
    sv_mstime s1 = sv_mstime s \<and> length (sv_db s1) = length (sv_db s)"
proof -
  obtain s1 where s1: "lookupKeyRead s d k = Some (s1, lookupKey (expire_step s d k) d k)" "quiet s s1"
    "sv_db s1 = sv_db (expire_step s d k)" "sv_mstime s1 = sv_mstime s" "sv_loading s1 = sv_loading s"
    "sv_masterhost s1 = sv_masterhost s"
    using lookupKeyRead_eq [OF server_okD(2) [OF ok] d] by blast
  have "live s1 d' k' = live (expire_step s d k) d' k'" for d' k'
    using s1 by (intro live_cong) (simp_all add: lookupKey_def expire_of_def get_db_def expires_keys_def)
  then have "live s1 = live s" by (simp add: fun_eq_iff)
  moreover have "length (sv_db s1) = length (sv_db s)" using s1(3) by simp
  ultimately show ?thesis using s1 quiet_server_ok [OF s1(2) ok] quiet_clients [OF s1(2)] by (auto simp: live_step)
qed

lemma readOrReply_ok:
  assumes ok: "server_ok s" and c: "sv_clients s c = Some cl"
  shows "\<exists>s1. lookupKeyReadOrReply s c k r =
      Some (if live s (c_db cl) k = None then addReply s1 c r else s1, live s (c_db cl) k) \<and>
    server_ok s1 \<and> live s1 = live s \<and> sv_clients s1 = sv_clients s"
  using lookupKeyRead_ok [OF ok server_ok_client_db [OF ok c], of k] c by (auto simp: lookupKeyReadOrReply_def)

lemma answered_after:
  "server_ok s1 \<Longrightarrow> live s1 = live s \<Longrightarrow> sv_clients s1 = sv_clients s \<Longrightarrow> answered s c r (addReply s1 c r)"
  by (simp add: answered_def replied_def option.map_comp o_def)

subsection \<open>Reading\<close>

text \<open>What a client is told about a value.\<close>

definition got :: "'o rvalue option \<Rightarrow> reply" where
  "got x = (case x of
     None \<Rightarrow> R_NullBulk | Some (OtherObj _) \<Rightarrow> R_Error shared_wrongtypeerr | Some (StrObj v) \<Rightarrow> R_Bulk (val_text v))"

lemma getGeneric_ok:
  assumes ok: "server_ok s" and c: "sv_clients s c = Some cl" and k: "arg cl 1 = Some k"
  shows "\<exists>s'. getGenericCommand s c = Some (s', \<forall>x. live s (c_db cl) k \<noteq> Some (OtherObj x)) \<and>
    answered s c (got (live s (c_db cl) k)) s'"
  using readOrReply_ok [OF ok c, of k R_NullBulk] c k answered_after [of _ s]
  by (auto simp: getGenericCommand_def got_def split: option.splits rvalue.splits)

lemma strlen_ok:
  assumes ok: "server_ok s" and c: "sv_clients s c = Some cl" and k: "arg cl 1 = Some k"
  shows "\<exists>s'. strlenCommand s c = Some s' \<and>
    answered s c (case live s (c_db cl) k of
        None \<Rightarrow> R_Int 0 | Some (OtherObj _) \<Rightarrow> R_Error shared_wrongtypeerr
      | Some (StrObj v) \<Rightarrow> R_Int (int (length (val_text v)))) s'"
  using readOrReply_ok [OF ok c, of k "R_Int 0"] c k answered_after [of _ s]
  by (auto simp: strlenCommand_def split: option.splits rvalue.splits)

subsection \<open>Setting\<close>

lemma encode_arg_text: "val_text (encode_arg s t) = t"
  using encode_keeps_text [of "createStringObject 0 t" "sv_maxmemory s"]
  by (simp add: encode_arg_def createStringObject_def createObject_def robj_ok_def val_text_def Let_def)

lemma set_aborts_ok:
  assumes ok: "server_ok s" and d: "d < length (sv_db s)"
  shows "\<exists>s1. set_aborts nx xx s d k = Some (s1, nx \<and> live s d k \<noteq> None \<or> xx \<and> live s d k = None) \<and>
    (s1 = s \<or> s1 = expire_step s d k)"
proof -
  have ok1: "server_ok (expire_step s d k)" by (rule quiet_server_ok [OF quiet_expire_step ok])
  have idem: "expire_step (expire_step s d k) d k = expire_step s d k"
  proof -
    have "\<not> (expired (expire_step s d k) d k \<and> expires_keys (expire_step s d k))"
      by (auto simp: expired_def expire_expire_step split: option.splits if_splits)
    then show ?thesis by (auto simp: expire_step_def [of "expire_step s d k"])
  qed
  show ?thesis using lookups_eq [OF ok d, of k] lookups_eq [OF ok1, of d k] d
    by (auto simp: set_aborts_def idem)
qed

text \<open>C25. Setting a string never fails an assertion, and on every branch does what the flags and the expire
  argument say: an expire argument that is no positive number is an error and nothing changes; when the
  key is there and must not be, or is not and must be, only the reply is sent; otherwise the key holds
  exactly the value, with the given expire time or none (the time wraps around at 64 bits), no other
  key changes, the clients that watch the key are marked and the change is counted.\<close>

theorem setGenericCommand_correct:
  assumes ok: "server_ok s" and c: "sv_clients s c = Some cl"
  shows "\<exists>s'. setGenericCommand s c nx xx k v expire seconds ok_reply no_reply = Some s' \<and>
    (case set_expire_arg expire seconds of
       Inl msg \<Rightarrow> answered s c (R_Error msg) s'
     | Inr ms \<Rightarrow>
         if nx \<and> live s (c_db cl) k \<noteq> None \<or> xx \<and> live s (c_db cl) k = None then answered s c no_reply s'
         else stored s c (c_db cl) k (StrObj v)
           (if expire = None then None else Some (to_signed 64 (sv_mstime s + ms))) ok_reply s')"
proof (cases "set_expire_arg expire seconds")
  case (Inl msg)
  then show ?thesis using c answered_reply [OF ok] by (auto simp: setGenericCommand_def)
next
  case (Inr ms)
  have d: "c_db cl < length (sv_db s)" by (rule server_ok_client_db [OF ok c])
  obtain s1 where s1: "set_aborts nx xx s (c_db cl) k =
      Some (s1, nx \<and> live s (c_db cl) k \<noteq> None \<or> xx \<and> live s (c_db cl) k = None)" "s1 = s \<or> s1 = expire_step s (c_db cl) k"
    using set_aborts_ok [OF ok d] by blast
  show ?thesis
  proof (cases "nx \<and> live s (c_db cl) k \<noteq> None \<or> xx \<and> live s (c_db cl) k = None")
    case True
    have "answered s c no_reply (addReply s1 c no_reply)"
      using s1(2) answered_reply [OF ok] answered_expire [OF ok] by auto
    then show ?thesis using True c Inr s1(1) by (auto simp: setGenericCommand_def)
  next
    case False
    have ok1: "server_ok s1" and d1: "c_db cl < length (sv_db s1)" and q1: "quiet s s1" and e1: "sv_mstime s1 = sv_mstime s"
      "sv_dirty s1 = sv_dirty s"
      using s1(2) ok d quiet_server_ok [OF quiet_expire_step ok] quiet_expire_step quiet_refl by auto
    obtain s2 where s2: "setKey s1 (c_db cl) k (StrObj v) = Some s2" "server_ok s2" "marked s1 s2 (c_db cl) k"
      "\<forall>d' k'. lookupKey s2 d' k' = (if d' = c_db cl \<and> k' = k then Some (StrObj v) else lookupKey s1 d' k')"
      "\<forall>d' k'. expire_of s2 d' k' = (if d' = c_db cl \<and> k' = k then None else expire_of s1 d' k')"
      "\<forall>c. map_option c_reply (sv_clients s2 c) = map_option c_reply (sv_clients s1 c)"
      "sv_mstime s2 = sv_mstime s1" "length (sv_db s2) = length (sv_db s1)" "sv_dirty s2 = sv_dirty s1"
      using setKey_ok [OF ok1 d1, of k "StrObj v"] by blast
    define t where "t = (if expire = None then incr_dirty 1 s2
      else set_exp (incr_dirty 1 s2) (c_db cl) k (to_signed 64 (sv_mstime s + ms)))"
    have run: "setGenericCommand s c nx xx k v expire seconds ok_reply no_reply = Some (addReply t c ok_reply)"
    proof -
      have "set_aborts nx xx s (c_db cl) k = Some (s1, False)" using s1(1) False by simp
      then show ?thesis using c Inr s2(1,4,7,8) e1 d1 by (simp add: setGenericCommand_def setExpire_eq t_def)
    qed
    have l: "lookupKey (incr_dirty 1 s2) (c_db cl) k \<noteq> None" using s2(4) by simp
    have "quiet (incr_dirty 1 s2) t" by (simp add: t_def quiet_set_exp [OF l] quiet_refl)
    then have okt: "server_ok t" and mt: "keeps_marks (incr_dirty 1 s2) t" and ct: "sv_clients t = sv_clients s2"
      using quiet_server_ok [of "incr_dirty 1 s2" t] s2(2) quiet_keeps quiet_clients by fastforce+
    have "marked s1 (incr_dirty 1 s2) (c_db cl) k" using s2(3) by (simp add: marked_def)
    then have "marked s t (c_db cl) k" using marked_later [OF _ mt] marked_before [OF _ quiet_keeps [OF q1]] by blast
    then have "marked s (addReply t c ok_reply) (c_db cl) k" by (rule marked_later [OF _ reply_keeps])
    moreover have "sv_clients s1 = sv_clients s" using quiet_clients [OF q1] .
    then have "replied s c ok_reply (addReply t c ok_reply)"
      using s2(6) [rule_format, of c] ct c by (auto simp: replied_def)
    moreover have same: "lookupKey s1 d' k' = lookupKey s d' k' \<and> expire_of s1 d' k' = expire_of s d' k'"
      if "\<not> (d' = c_db cl \<and> k' = k)" for d' k'
      using s1(2) that by (auto simp: lookup_expire_step expire_expire_step)
    have "lookupKey t d' k' = (if d' = c_db cl \<and> k' = k then Some (StrObj v) else lookupKey s d' k')"
      "expire_of t d' k' = (if d' = c_db cl \<and> k' = k
         then (if expire = None then None else Some (to_signed 64 (sv_mstime s + ms))) else expire_of s d' k')" for d' k'
      using s2(4,5,8) d1 same [of d' k'] by (auto simp: t_def)
    moreover have "sv_dirty t = sv_dirty s + 1" using s2(9) e1(2) by (simp add: t_def incr_dirty_dirty)
    ultimately have "stored s c (c_db cl) k (StrObj v)
        (if expire = None then None else Some (to_signed 64 (sv_mstime s + ms))) ok_reply (addReply t c ok_reply)"
      using okt by (simp add: stored_def)
    then show ?thesis using run Inr False by auto
  qed
qed

subsection \<open>Counting\<close>

text \<open>The number a value is read as.\<close>

definition number_of_value :: "'o rvalue option \<Rightarrow> int option" where
  "number_of_value x =
     (case x of None \<Rightarrow> Some 0 | Some (StrObj v) \<Rightarrow> getLongLongFromObject (Some (createObject 0 v)) | Some (OtherObj _) \<Rightarrow> None)"

text \<open>The values that commands store hold integers of 64 bits.\<close>

definition strings_ok :: "'o rvalue redisServer \<Rightarrow> bool" where
  "strings_ok s \<longleftrightarrow> (\<forall>d k v. lookupKey s d k = Some (StrObj (EncInt v)) \<longrightarrow> is_llong v)"

lemma strtoll_end_range: "strtoll_end s = (v, e, False) \<Longrightarrow> is_llong v"
  by (auto simp: strtoll_end_def Let_def crange_simps split: if_splits)

lemma number_range:
  assumes "strings_ok s" and "number_of_value (live s d k) = Some v"
  shows "is_llong v"
proof (cases "live s d k")
  case None
  then show ?thesis using assms(2) by (simp add: number_of_value_def crange_simps)
next
  case (Some x)
  then obtain sv where sv: "live s d k = Some (StrObj sv)" "getLongLongFromObject (Some (createObject 0 sv)) = Some v"
    using assms(2) by (cases x) (auto simp: number_of_value_def)
  show ?thesis
  proof (cases sv)
    case (EncInt n)
    then have "n = v" using sv(2) by (simp add: getLongLongFromObject_def createObject_def)
    then show ?thesis using assms(1) live_Some_step [OF sv(1)] EncInt by (auto simp: strings_ok_def)
  next
    case (EncRaw t)
    then show ?thesis using sv(2) strtoll_end_range [of t v]
      by (auto simp: getLongLongFromObject_def createObject_def split: prod.splits if_splits)
  qed
qed

lemma overflow_test:
  assumes "is_llong old" and "is_llong incr"
  shows "((incr < 0 \<and> old < 0 \<and> incr < LLONG_MIN - old) \<or> (incr > 0 \<and> old > 0 \<and> incr > LLONG_MAX - old)) \<longleftrightarrow> \<not> is_llong (old + incr)"
  using assms by (auto simp: crange_simps)

lemma from_longlong: "is_llong v \<Longrightarrow> \<exists>r. createStringObjectFromLongLong 0 v = Some r \<and> o_ptr (ref_obj r) = EncInt v"
  by (auto simp: createStringObjectFromLongLong_def ref_obj_def createObject_def crange_simps)

lemma put_eq:
  "server_ok s \<Longrightarrow> d < length (sv_db s) \<Longrightarrow>
   (if live s d k = None then dbAdd (expire_step s d k) d k v else dbOverwrite (expire_step s d k) d k v) =
     Some (put_key (expire_step s d k) d k v)"
  by (simp add: dbAdd_eq dbOverwrite_eq live_step)

lemma incrDecr_ok:
  assumes ok: "server_ok s" and so: "strings_ok s" and c: "sv_clients s c = Some cl" and k: "arg cl 1 = Some k"
    and incr: "is_llong incr"
  shows "\<exists>s'. incrDecrCommand s c incr = Some s' \<and>
    (case number_of_value (live s (c_db cl) k) of
       None \<Rightarrow> answered s c (R_Error (if \<exists>x. live s (c_db cl) k = Some (OtherObj x) then shared_wrongtypeerr
           else ''value is not an integer or out of range'')) s'
     | Some v \<Rightarrow>
         if is_llong (v + incr)
         then stored s c (c_db cl) k (StrObj (EncInt (v + incr))) (kept_expire s (c_db cl) k) (R_Int (v + incr)) s'
         else answered s c (R_Error ''increment or decrement would overflow'') s')"
proof -
  let ?d = "c_db cl"
  have d: "?d < length (sv_db s)" by (rule server_ok_client_db [OF ok c])
  note start = c k lookups_eq [OF ok d, of k]
  have err: "answered s c (R_Error msg) (addReply (expire_step s ?d k) c (R_Error msg))" for msg
    by (rule answered_expire [OF ok])
  show ?thesis
  proof (cases "\<exists>x. live s ?d k = Some (OtherObj x)")
    case True
    then show ?thesis using start err by (auto simp: incrDecrCommand_def number_of_value_def)
  next
    case str: False
    let ?o = "case live s ?d k of Some (StrObj v) \<Rightarrow> Some (createObject 0 v) | _ \<Rightarrow> None"
    have num: "getLongLongFromObject ?o = number_of_value (live s ?d k)"
      using str by (auto simp: number_of_value_def getLongLongFromObject_def split: option.splits rvalue.splits)
    have step: "incrDecrCommand s c incr =
       (case getLongLongFromObjectOrReply ?o None of
          Inl msg \<Rightarrow> Some (addReply (expire_step s ?d k) c (R_Error msg))
        | Inr old \<Rightarrow>
            if (incr < 0 \<and> old < 0 \<and> incr < LLONG_MIN - old) \<or> (incr > 0 \<and> old > 0 \<and> incr > LLONG_MAX - old)
            then Some (addReply (expire_step s ?d k) c (R_Error ''increment or decrement would overflow''))
            else do {
              let value = to_signed 64 (old + incr);
              new \<leftarrow> createStringObjectFromLongLong 0 value;
              let ob = StrObj (o_ptr (ref_obj new));
              s2 \<leftarrow> (if live s ?d k = None then dbAdd (expire_step s ?d k) ?d k ob else dbOverwrite (expire_step s ?d k) ?d k ob);
              s3 \<leftarrow> signalModifiedKey s2 ?d k;
              Some (addReply (incr_dirty 1 s3) c (R_Int value))
            })"
      using start str by (auto simp: incrDecrCommand_def split: option.splits rvalue.splits)
    show ?thesis
    proof (cases "number_of_value (live s ?d k)")
      case None
      then show ?thesis unfolding step using num err str by (auto simp: getLongLongFromObjectOrReply_def)
    next
      case (Some v)
      have v: "is_llong v" by (rule number_range [OF so Some])
      show ?thesis
      proof (cases "is_llong (v + incr)")
        case False
        then show ?thesis unfolding step using num Some overflow_test [OF v incr] err
          by (simp add: getLongLongFromObjectOrReply_def)
      next
        case True
        then have w: "to_signed 64 (v + incr) = v + incr" by (rule to_signed_64_id)
        obtain r where r: "createStringObjectFromLongLong 0 (v + incr) = Some r" "o_ptr (ref_obj r) = EncInt (v + incr)"
          using from_longlong [OF True] by blast
        have "incrDecrCommand s c incr = Some (store s c ?d k (StrObj (EncInt (v + incr))) (R_Int (v + incr)))"
        proof -
          let ?ob = "StrObj (EncInt (v + incr))"
          have g: "getLongLongFromObjectOrReply ?o None = Inr v" using num Some by (simp add: getLongLongFromObjectOrReply_def)
          have no: "\<not> ((incr < 0 \<and> v < 0 \<and> incr < LLONG_MIN - v) \<or> (incr > 0 \<and> v > 0 \<and> incr > LLONG_MAX - v))"
            using overflow_test [OF v incr] True by blast
          have p: "(if live s ?d k = None then dbAdd (expire_step s ?d k) ?d k ?ob else dbOverwrite (expire_step s ?d k) ?d k ?ob) =
              Some (put_key (expire_step s ?d k) ?d k ?ob)" by (rule put_eq [OF ok d])
          show ?thesis
            unfolding step g sum.case if_not_P [OF no] Let_def w r(1) Option.bind_lunit r(2) p
            using d by (simp add: signal_eq store_def)
        qed
        then show ?thesis using Some True store_ok [OF ok d] by simp
      qed
    qed
  qed
qed

text \<open>C9. Counting is exact.  For a value that reads as a number, or no value, which counts as zero, the commands
  \<^verbatim>\<open>INCR\<close>, \<^verbatim>\<open>DECR\<close>, \<^verbatim>\<open>INCRBY\<close> store and reply the sum when it fits into 64 bits, keeping the expire
  time, and otherwise reply an error and change nothing: the sum never wraps around.  A value of another
  type or one that is no number is an error and stays as it is.\<close>

theorem incrDecrCommand_correct:
  assumes ok: "server_ok s" and so: "strings_ok s" and c: "sv_clients s c = Some cl" and k: "arg cl 1 = Some k"
    and incr: "is_llong incr"
  shows "\<exists>s'. incrDecrCommand s c incr = Some s' \<and>
    (case number_of_value (live s (c_db cl) k) of
       None \<Rightarrow> answered s c (R_Error (if \<exists>x. live s (c_db cl) k = Some (OtherObj x) then shared_wrongtypeerr
           else ''value is not an integer or out of range'')) s'
     | Some v \<Rightarrow>
         if is_llong (v + incr)
         then stored s c (c_db cl) k (StrObj (EncInt (v + incr))) (kept_expire s (c_db cl) k) (R_Int (v + incr)) s'
         else answered s c (R_Error ''increment or decrement would overflow'') s')"
  using incrDecr_ok [OF assms] .

text \<open>A server whose database 0 has one key, and a client with the given arguments.\<close>

definition str_example :: "str_val \<Rightarrow> string list \<Rightarrow> nat rvalue redisServer" where
  "str_example v argv = upd_client (put_key (createClient (initServer 0) 1) 0 ''k'' (StrObj v)) 1 (\<lambda>cl. cl\<lparr>c_argv := argv\<rparr>)"

lemma str_example_ok: "server_ok (str_example v argv)"
  unfolding str_example_def by (rule server_ok_client [OF quiet_server_ok [OF quiet_put_key init_client_ok]]) simp_all

lemma str_example_client: "sv_clients (str_example v argv) 1 = Some (new_client\<lparr>c_argv := argv\<rparr>)"
  by (simp add: str_example_def createClient_def)

lemma str_example_live: "live (str_example v argv) 0 k = (if k = ''k'' then Some (StrObj v) else None)"
  by (simp add: live_def str_example_def expired_def expire_of_def lookupKey_def put_key_def upd_db_def get_db_def createClient_def
      initServer_def REDIS_DEFAULT_DBNUM_def empty_db_def upd_client_def)

lemma str_example_strings: "is_llong n \<Longrightarrow> strings_ok (str_example (EncInt n) argv)"
  by (auto simp: strings_ok_def str_example_def split: if_splits)
     (auto simp: lookupKey_def get_db_def initServer_def REDIS_DEFAULT_DBNUM_def empty_db_def split: if_splits)

lemma example_args: "arg (new_client\<lparr>c_argv := argv\<rparr>) n = (if n < length argv then Some (argv ! n) else None)"
  "c_db (new_client\<lparr>c_argv := argv\<rparr>) = 0"
  by (simp_all add: arg_def new_client_def)

theorem setGenericCommand_correct_witness:
  "\<exists>s'. setGenericCommand (str_example (EncInt 7) []) 1 True False ''k'' (EncRaw ''x'') None False (R_Int 1) (R_Int 0) = Some s' \<and>
     answered (str_example (EncInt 7) []) 1 (R_Int 0) s'"
  using setGenericCommand_correct [OF str_example_ok str_example_client,
      of "EncInt 7" "[]" True False "''k''" "EncRaw ''x''" None False "R_Int 1" "R_Int 0"]
  by (simp add: set_expire_arg_def str_example_live example_args del: One_nat_def)

theorem incrDecrCommand_correct_witness:
  "\<exists>s'. incrDecrCommand (str_example (EncInt 41) [''incr'', ''k'']) 1 1 = Some s' \<and> lookupKey s' 0 ''k'' = Some (StrObj (EncInt 42))"
proof -
  have n: "is_llong 41" "is_llong 1" "is_llong (41 + 1)" by (simp_all add: crange_simps)
  have v: "number_of_value (live (str_example (EncInt 41) [''incr'', ''k'']) 0 ''k'') = Some 41"
    by (simp add: str_example_live number_of_value_def getLongLongFromObject_def createObject_def)
  show ?thesis
    using incrDecrCommand_correct [OF str_example_ok str_example_strings [OF n(1)] str_example_client _ n(2), of "[''incr'', ''k'']" "''k''"] v n(3)
    by (auto simp: example_args stored_def)
qed

text \<open>C26. \<^verbatim>\<open>DECRBY\<close> negates its argument in 64 bits, and the negation of the smallest number wraps around to that
  number.  So a decrement by it is wrong for every value: when the value is not negative the difference does not fit into
  64 bits, and the command stores the value plus the smallest number instead of replying the overflow error;
  when the value is negative the difference fits, and the command replies the overflow error.\<close>

theorem decrby_min_wraps:
  assumes ok: "server_ok s" and so: "strings_ok s" and c: "sv_clients s c = Some cl"
    and args: "arg cl 1 = Some k" "arg cl 2 = Some a" "llong_arg a = Inr LLONG_MIN"
    and v: "number_of_value (live s (c_db cl) k) = Some v"
  shows "\<exists>s'. decrbyCommand s c = Some s' \<and>
    (if 0 \<le> v
     then \<not> is_llong (v - LLONG_MIN) \<and>
       stored s c (c_db cl) k (StrObj (EncInt (v + LLONG_MIN))) (kept_expire s (c_db cl) k) (R_Int (v + LLONG_MIN)) s'
     else is_llong (v - LLONG_MIN) \<and> answered s c (R_Error ''increment or decrement would overflow'') s')"
proof -
  have w: "to_signed 64 (- LLONG_MIN) = LLONG_MIN" by (simp add: to_signed_def crange_simps)
  have r: "is_llong v" by (rule number_range [OF so v])
  have n: "is_llong (v + LLONG_MIN) \<longleftrightarrow> 0 \<le> v" "is_llong (v - LLONG_MIN) \<longleftrightarrow> v < 0" "is_llong LLONG_MIN"
    using r by (auto simp: crange_simps)
  have "decrbyCommand s c = incrDecrCommand s c LLONG_MIN"
    using c args w by (simp add: decrbyCommand_def)
  then show ?thesis using incrDecr_ok [OF ok so c args(1) n(3)] v n(1,2) by auto
qed

theorem decrby_min_wraps_witness:
  "\<exists>s'. decrbyCommand (str_example (EncInt 0) [''decrby'', ''k'', ll_repr LLONG_MIN]) 1 = Some s' \<and>
     lookupKey s' 0 ''k'' = Some (StrObj (EncInt LLONG_MIN)) \<and> \<not> is_llong (0 - LLONG_MIN)"
proof -
  let ?argv = "[''decrby'', ''k'', ll_repr LLONG_MIN]"
  have n: "is_llong 0" "is_llong LLONG_MIN" by (simp_all add: crange_simps)
  have a: "llong_arg (ll_repr LLONG_MIN) = Inr LLONG_MIN"
    using getLongLong_ll_repr [OF n(2), of "createStringObject 0 (ll_repr LLONG_MIN)"]
    by (simp add: llong_arg_def getLongLongFromObjectOrReply_def createStringObject_def createObject_def)
  have v: "number_of_value (live (str_example (EncInt 0) ?argv) (c_db (new_client\<lparr>c_argv := ?argv\<rparr>)) ''k'') = Some 0"
    by (simp add: example_args str_example_live number_of_value_def getLongLongFromObject_def createObject_def)
  have args: "arg (new_client\<lparr>c_argv := ?argv\<rparr>) 1 = Some ''k''" "arg (new_client\<lparr>c_argv := ?argv\<rparr>) 2 = Some (ll_repr LLONG_MIN)"
    by (simp_all add: example_args)
  show ?thesis
    using decrby_min_wraps [OF str_example_ok str_example_strings [OF n(1)] str_example_client args a v]
    by (auto simp: example_args stored_def)
qed

subsection \<open>Parts of strings\<close>

lemma range_read_ok:
  assumes n: "length t < 2 ^ 32" and b: "b < 2 ^ 32"
  shows "range_read t a b = Some (str_range t a b)"
proof -
  define n where "n = int (length t)"
  define i where "i = (if a < 0 then max 0 (n + a) else a)"
  define j where "j = (if b < 0 then max 0 (n + b) else b)"
  have n0: "0 \<le> n" "n < 2 ^ 32" using n by (simp_all add: n_def)
  have j: "0 \<le> j" "j < 2 ^ 32" "to_unsigned 32 j = j" using b n0 by (auto simp: j_def to_unsigned_def)
  have i: "0 \<le> i" by (simp add: i_def)
  have s: "str_range t a b = take (nat (j - i + 1)) (drop (nat i) t)"
    by (simp add: str_range_def Let_def i_def j_def n_def)
  have st: "(if (if a < 0 then n + a else a) < 0 then 0 else (if a < 0 then n + a else a)) = i"
    "(if (if b < 0 then n + b else b) < 0 then 0 else (if b < 0 then n + b else b)) = j"
    by (auto simp: i_def j_def)
  have r: "range_read t a b = (let e = (if j \<ge> n then n - 1 else j) in
      if i > e then Some [] else if e < n then Some (take (nat (e - i + 1)) (drop (nat i) t)) else None)"
    by (simp only: range_read_def Let_def n_def [symmetric] st j(3))
  show ?thesis
  proof (cases "j \<ge> n")
    case True
    then have "take (nat (j - i + 1)) (drop (nat i) t) = drop (nat i) t" "take (nat (n - 1 - i + 1)) (drop (nat i) t) = drop (nat i) t"
      by (auto simp: n_def)
    moreover have "drop (nat i) t = []" if "i > n - 1" using that by (simp add: n_def)
    ultimately show ?thesis unfolding r s using True by (auto simp: Let_def)
  next
    case False
    then show ?thesis unfolding r s by (auto simp: Let_def)
  qed
qed

lemma range_read_None:
  assumes n: "length t < 2 ^ 32"
  shows "range_read t a b = None \<longleftrightarrow> 2 ^ 32 \<le> b \<and> b mod 2 ^ 32 < int (length t) \<and> a \<le> b"
proof (cases "b < 2 ^ 32")
  case True
  then show ?thesis using range_read_ok [OF n True, of a] by simp
next
  case False
  then show ?thesis using n by (auto simp: range_read_def Let_def to_unsigned_def)
qed

text \<open>C27. \<^verbatim>\<open>GETRANGE\<close> compares only the low 32 bits of the end of the range with the length.  The reply is
  read from beyond the string, an access outside the block, exactly when the end is at least \<open>2 ^ 32\<close>, its low 32 bits are below the length of the
  string, so that it is not cut, and the range is not empty.\<close>

theorem getrange_overreads:
  assumes ok: "server_ok s" and c: "sv_clients s c = Some cl" and argv: "c_argv cl = [name, k, a1, a2]"
    and v: "live s (c_db cl) k = Some (StrObj v)" and n: "length (val_text v) < 2 ^ 32"
    and a: "long_arg a1 = Inr start" "long_arg a2 = Inr stop"
  shows "getrangeCommand s c = None \<longleftrightarrow>
    2 ^ 32 \<le> stop \<and> stop mod 2 ^ 32 < int (length (val_text v)) \<and> start \<le> stop"
  using readOrReply_ok [OF ok c, of k "R_Bulk []"] c v a range_read_None [OF n, of start stop]
  by (auto simp: getrangeCommand_def arg_def argv)

lemma long_arg_repr: "is_llong n \<Longrightarrow> long_arg (ll_repr n) = Inr n"
  using getLongLong_ll_repr [of n "createStringObject 0 (ll_repr n)"]
  by (simp add: long_arg_def getLongFromObjectOrReply_def getLongLongFromObjectOrReply_def createStringObject_def createObject_def crange_simps)

theorem getrange_overreads_witness:
  "getrangeCommand (str_example (EncRaw ''abc'') [''getrange'', ''k'', ll_repr 0, ll_repr 4294967297]) 1 = None"
proof -
  let ?argv = "[''getrange'', ''k'', ll_repr 0, ll_repr 4294967297]"
  have a: "long_arg (ll_repr 0) = Inr 0" "long_arg (ll_repr 4294967297) = Inr 4294967297"
    by (rule long_arg_repr, simp add: crange_simps)+
  have argv: "c_argv (new_client\<lparr>c_argv := ?argv\<rparr>) = ?argv" by simp
  have v: "live (str_example (EncRaw ''abc'') ?argv) (c_db (new_client\<lparr>c_argv := ?argv\<rparr>)) ''k'' = Some (StrObj (EncRaw ''abc''))"
    by (simp add: str_example_live example_args)
  show ?thesis
    using getrange_overreads [OF str_example_ok str_example_client argv v _ a] by (simp add: val_text_def)
qed

text \<open>The text after writing a part.\<close>

lemma write_at_ok:
  assumes o: "0 \<le> off" and l: "off + int (length value) \<le> 512 * 1024 * 1024"
  shows "\<exists>t'. write_at t off value = Some t' \<and> length t' = max (length t) (nat off + length value) \<and>
    (\<forall>i < length t'. t' ! i = (if nat off \<le> i \<and> i < nat off + length value then value ! (i - nat off)
       else if i < length t then t ! i else NUL))"
proof -
  let ?g = "t @ replicate (nat off + length value - length t) NUL"
  have u: "to_unsigned 64 (off + int (length value)) = off + int (length value)" using o l by (simp add: to_unsigned_def)
  have g: "length ?g = max (length t) (nat off + length value)" by simp
  have w: "write_at t off value = Some (take (nat off) ?g @ value @ drop (nat off + length value) ?g)"
    using o l u by (simp add: write_at_def nat_add_distrib)
  have "(take (nat off) ?g @ value @ drop (nat off + length value) ?g) ! i =
      (if nat off \<le> i \<and> i < nat off + length value then value ! (i - nat off) else if i < length t then t ! i else NUL)"
    if "i < max (length t) (nat off + length value)" for i
    using that by (auto simp: nth_append min_def)
  then show ?thesis using w by (auto simp: max_def)
qed

lemma setrange_run:
  assumes ok: "server_ok s" and c: "sv_clients s c = Some cl" and argv: "c_argv cl = [name, k, a, value]"
    and a: "long_arg a = Inr off" "0 \<le> off" and str: "\<forall>x. live s (c_db cl) k \<noteq> Some (OtherObj x)" and v: "value \<noteq> []"
    and n: "to_signed 64 (off + int (length value)) \<le> 512 * 1024 * 1024"
  shows "setrangeCommand s c =
    map_option (\<lambda>t. store s c (c_db cl) k (StrObj (EncRaw t)) (R_Int (int (length t))))
      (write_at (case live s (c_db cl) k of Some (StrObj v) \<Rightarrow> val_text v | _ \<Rightarrow> []) off value)"
proof -
  have d: "c_db cl < length (sv_db s)" by (rule server_ok_client_db [OF ok c])
  have args: "arg cl 1 = Some k" "arg cl 2 = Some a" "arg cl 3 = Some value" using argv by (simp_all add: arg_def)
  note p = put_eq [OF ok d, of k]
  have ch: "checkStringLength (to_signed 64 (off + int (length value))) = None" using n by (simp add: checkStringLength_def)
  show ?thesis
  proof (cases "live s (c_db cl) k")
    case None
    then show ?thesis using c args a v ch d lookups_eq [OF ok d, of k] p
      by (cases "write_at [] off value") (simp_all add: setrangeCommand_def signal_eq store_def)
  next
    case (Some x)
    then obtain sv where "x = StrObj sv" using str by (cases x) auto
    then show ?thesis using Some c args a v ch d lookups_eq [OF ok d, of k] p
      by (cases "write_at (val_text sv) off value") (simp_all add: setrangeCommand_def signal_eq store_def)
  qed
qed

text \<open>\<^verbatim>\<open>SETRANGE\<close> within the size limit overwrites exactly the bytes from the offset on, growing the string with
  zero bytes where needed, keeps the expire time, and replies the new length.\<close>

theorem setrangeCommand_correct:
  assumes ok: "server_ok s" and c: "sv_clients s c = Some cl" and argv: "c_argv cl = [name, k, a, value]"
    and a: "long_arg a = Inr off" "0 \<le> off" and str: "\<forall>x. live s (c_db cl) k \<noteq> Some (OtherObj x)" and v: "value \<noteq> []"
    and n: "off + int (length value) \<le> 512 * 1024 * 1024"
    and t: "t = (case live s (c_db cl) k of Some (StrObj v) \<Rightarrow> val_text v | _ \<Rightarrow> [])"
  shows "\<exists>s' t'. setrangeCommand s c = Some s' \<and> length t' = max (length t) (nat off + length value) \<and>
    (\<forall>i < length t'. t' ! i = (if nat off \<le> i \<and> i < nat off + length value then value ! (i - nat off)
       else if i < length t then t ! i else NUL)) \<and>
    stored s c (c_db cl) k (StrObj (EncRaw t')) (kept_expire s (c_db cl) k) (R_Int (int (length t'))) s'"
proof -
  have "to_signed 64 (off + int (length value)) = off + int (length value)"
    using a(2) n by (intro to_signed_64_id) (simp add: crange_simps)
  then have r: "setrangeCommand s c = map_option (\<lambda>t. store s c (c_db cl) k (StrObj (EncRaw t)) (R_Int (int (length t)))) (write_at t off value)"
    using setrange_run [OF ok c argv a str v] n t by simp
  obtain t' where t': "write_at t off value = Some t'" "length t' = max (length t) (nat off + length value)"
    "\<forall>i < length t'. t' ! i = (if nat off \<le> i \<and> i < nat off + length value then value ! (i - nat off)
       else if i < length t then t ! i else NUL)" using write_at_ok [OF a(2) n, of t] by blast
  have "setrangeCommand s c = Some (store s c (c_db cl) k (StrObj (EncRaw t')) (R_Int (int (length t'))))" using r t'(1) by simp
  then show ?thesis using t'(2,3) store_ok [OF ok server_ok_client_db [OF ok c]] by blast
qed

text \<open>An offset close to the largest number makes the sum of offset and length wrap around to a negative number,
  which passes the check of the size limit: instead of an error reply the command tries to allocate more
  than \<open>2 ^ 63\<close> bytes, which aborts the process.\<close>

theorem setrange_overflow_aborts:
  assumes ok: "server_ok s" and c: "sv_clients s c = Some cl" and argv: "c_argv cl = [name, k, a, value]"
    and a: "long_arg a = Inr off" "off \<le> LLONG_MAX" and str: "\<forall>x. live s (c_db cl) k \<noteq> Some (OtherObj x)"
    and v: "int (length value) < 2 ^ 32" and n: "LLONG_MAX < off + int (length value)"
  shows "setrangeCommand s c = None"
proof -
  define z where "z = off + int (length value)"
  have z: "2 ^ 63 \<le> z" "z < 2 ^ 64" using a(2) v n by (simp_all add: z_def crange_simps)
  then have "to_signed 64 z = z - 2 ^ 64" "to_unsigned 64 z = z" by (simp_all add: to_signed_def to_unsigned_def Let_def)
  then have "to_signed 64 (off + int (length value)) \<le> 512 * 1024 * 1024" "write_at t off value = None" for t
    using z by (simp_all add: z_def [symmetric] write_at_def)
  moreover have "value \<noteq> []" "0 \<le> off" using a(2) n v by (auto simp: crange_simps)
  ultimately show ?thesis using setrange_run [OF ok c argv a(1) _ str] by simp
qed

theorem setrangeCommand_correct_witness:
  "\<exists>s' t'. setrangeCommand (str_example (EncRaw ''Hello'') [''setrange'', ''k'', ll_repr 6, ''Redis'']) 1 = Some s' \<and> length t' = 11 \<and>
     lookupKey s' 0 ''k'' = Some (StrObj (EncRaw t'))"
proof -
  let ?argv = "[''setrange'', ''k'', ll_repr 6, ''Redis'']"
  have a: "long_arg (ll_repr 6) = Inr 6" by (rule long_arg_repr) (simp add: crange_simps)
  have argv: "c_argv (new_client\<lparr>c_argv := ?argv\<rparr>) = ?argv" by simp
  show ?thesis
    using setrangeCommand_correct [OF str_example_ok str_example_client argv a, of "EncRaw ''Hello''" "''Hello''"]
    by (auto simp: str_example_live example_args val_text_def stored_def)
qed

theorem setrange_overflow_aborts_witness:
  "setrangeCommand (str_example (EncRaw ''Hello'') [''setrange'', ''k'', ll_repr LLONG_MAX, ''x'']) 1 = None"
proof -
  let ?argv = "[''setrange'', ''k'', ll_repr LLONG_MAX, ''x'']"
  have a: "long_arg (ll_repr LLONG_MAX) = Inr LLONG_MAX" by (rule long_arg_repr) (simp add: crange_simps)
  have argv: "c_argv (new_client\<lparr>c_argv := ?argv\<rparr>) = ?argv" by simp
  show ?thesis
    by (rule setrange_overflow_aborts [OF str_example_ok str_example_client argv a]) (simp_all add: str_example_live example_args)
qed

lemma append_ok:
  assumes ok: "server_ok s" and c: "sv_clients s c = Some cl" and argv: "c_argv cl = [name, k, app]"
  shows "\<exists>s'. appendCommand s c = Some s' \<and>
    (case live s (c_db cl) k of
       Some (OtherObj _) \<Rightarrow> answered s c (R_Error shared_wrongtypeerr) s'
     | None \<Rightarrow> stored s c (c_db cl) k (StrObj (encode_arg s app)) None (R_Int (int (length app))) s'
     | Some (StrObj v) \<Rightarrow>
         if length (val_text v) + length app \<le> 512 * 1024 * 1024
         then stored s c (c_db cl) k (StrObj (EncRaw (val_text v @ app))) (expire_of s (c_db cl) k)
           (R_Int (int (length (val_text v @ app)))) s'
         else answered s c (R_Error ''string exceeds maximum allowed size (512MB)'') s')"
proof -
  have d: "c_db cl < length (sv_db s)" by (rule server_ok_client_db [OF ok c])
  have args: "arg cl 1 = Some k" "arg cl 2 = Some app" using argv by (simp_all add: arg_def)
  have m: "encode_arg (expire_step s (c_db cl) k) app = encode_arg s app"
    by (simp add: encode_arg_def expire_step_def del_key_def upd_db_def propagateExpire_def Let_def)
  note st = store_ok [OF ok d, of c k]
  show ?thesis
  proof (cases "live s (c_db cl) k")
    case None
    let ?v = "encode_arg s app"
    have "appendCommand s c = Some (store s c (c_db cl) k (StrObj ?v) (R_Int (int (length app))))"
      using None c args d lookups_eq [OF ok d, of k] put_eq [OF ok d, of k "StrObj ?v"] m
      by (simp add: appendCommand_def signal_eq store_def Let_def encode_arg_text)
    then show ?thesis using st [of "StrObj ?v"] None by (simp add: kept_expire_def)
  next
    case (Some x)
    show ?thesis
    proof (cases x)
      case (OtherObj y)
      then show ?thesis using Some c args lookups_eq [OF ok d, of k] answered_expire [OF ok] by (simp add: appendCommand_def)
    next
      case (StrObj v)
      let ?t = "val_text v @ app"
      show ?thesis
      proof (cases "length (val_text v) + length app \<le> 512 * 1024 * 1024")
        case True
        have "appendCommand s c = Some (store s c (c_db cl) k (StrObj (EncRaw ?t)) (R_Int (int (length ?t))))"
          using True Some StrObj c args d lookups_eq [OF ok d, of k] put_eq [OF ok d, of k "StrObj (EncRaw ?t)"]
          by (simp add: appendCommand_def signal_eq store_def Let_def checkStringLength_def)
        then show ?thesis using st [of "StrObj (EncRaw ?t)"] Some StrObj True by (simp add: kept_expire_def)
      next
        case False
        then show ?thesis using Some StrObj c args lookups_eq [OF ok d, of k] answered_expire [OF ok]
          by (simp add: appendCommand_def checkStringLength_def)
      qed
    qed
  qed
qed

subsection \<open>Several keys\<close>

lemma busy_keys_ok:
  "server_ok s \<Longrightarrow> d < length (sv_db s) \<Longrightarrow>
   \<exists>s'. busy_keys s d ks n = Some (s', n + length (filter (\<lambda>k. live s d k \<noteq> None) ks)) \<and> server_ok s' \<and>
     live s' = live s \<and> sv_clients s' = sv_clients s \<and> length (sv_db s') = length (sv_db s)"
proof (induction ks arbitrary: s n)
  case (Cons k ks)
  have ok: "server_ok (expire_step s d k)" by (rule quiet_server_ok [OF quiet_expire_step Cons.prems(1)])
  show ?case using Cons.IH [OF ok, of "if live s d k = None then n else n + 1"] Cons.prems(2) lookups_eq [OF Cons.prems, of k]
    by (auto simp: fun_eq_iff split: if_splits)
qed simp

text \<open>Time and role do not change while keys are set.\<close>

definition mset_env :: "'v redisServer \<Rightarrow> 'v redisServer \<Rightarrow> bool" where
  "mset_env s s' \<longleftrightarrow> sv_mstime s' = sv_mstime s \<and> expires_keys s' = expires_keys s"

text \<open>The keys that were set hold the last value given for them, and no expire time.\<close>

lemma mset_loop_ok:
  "server_ok s \<Longrightarrow> d < length (sv_db s) \<Longrightarrow>
   \<exists>s'. mset_loop s d kvs = Some s' \<and> server_ok s' \<and> keeps_marks s s' \<and> (\<forall>k \<in> fst ` set kvs. marked s s' d k) \<and>
     (\<forall>d' k'. if d' = d \<and> k' \<in> fst ` set kvs
        then (\<exists>v. lookupKey s' d' k' = Some (StrObj v) \<and> map_of (rev kvs) k' = Some (val_text v)) \<and> expire_of s' d' k' = None
        else lookupKey s' d' k' = lookupKey s d' k' \<and> expire_of s' d' k' = expire_of s d' k') \<and>
     (\<forall>c. map_option c_reply (sv_clients s' c) = map_option c_reply (sv_clients s c)) \<and>
     sv_dirty s' = sv_dirty s \<and> mset_env s s'"
proof (induction kvs arbitrary: s)
  case Nil
  then show ?case by (auto simp: mset_env_def intro: quiet_keeps quiet_refl)
next
  case (Cons kv kvs)
  obtain k v where kv: "kv = (k, v)" by (cases kv)
  let ?v = "StrObj (encode_arg s v)"
  obtain s1 where s1: "setKey s d k ?v = Some s1" "server_ok s1" "marked s s1 d k"
      "\<forall>d' k'. lookupKey s1 d' k' = (if d' = d \<and> k' = k then Some ?v else lookupKey s d' k')"
      "\<forall>d' k'. expire_of s1 d' k' = (if d' = d \<and> k' = k then None else expire_of s d' k')"
      "\<forall>c. map_option c_reply (sv_clients s1 c) = map_option c_reply (sv_clients s c)"
      "sv_mstime s1 = sv_mstime s" "length (sv_db s1) = length (sv_db s)" "sv_dirty s1 = sv_dirty s" "expires_keys s1 = expires_keys s"
    using setKey_ok [OF Cons.prems, of k ?v] by blast
  have m: "keeps_marks s s1"
    using ensuresD [OF setKey_ctr [where c = 0] s1(1)] Cons.prems(1) by (simp add: ctr_def tx_ctr_def keeps_marks_def)
  obtain s' where s': "mset_loop s1 d kvs = Some s'" "server_ok s'" "keeps_marks s1 s'" "\<forall>k \<in> fst ` set kvs. marked s1 s' d k"
     "\<And>d' k'. if d' = d \<and> k' \<in> fst ` set kvs
        then (\<exists>v. lookupKey s' d' k' = Some (StrObj v) \<and> map_of (rev kvs) k' = Some (val_text v)) \<and> expire_of s' d' k' = None
        else lookupKey s' d' k' = lookupKey s1 d' k' \<and> expire_of s' d' k' = expire_of s1 d' k'"
     "\<forall>c. map_option c_reply (sv_clients s' c) = map_option c_reply (sv_clients s1 c)" "sv_dirty s' = sv_dirty s1" "mset_env s1 s'"
    using Cons.IH [OF s1(2)] Cons.prems(2) s1(8) by auto
  have look: "if d' = d \<and> k' \<in> fst ` set (kv # kvs)
        then (\<exists>v. lookupKey s' d' k' = Some (StrObj v) \<and> map_of (rev (kv # kvs)) k' = Some (val_text v)) \<and> expire_of s' d' k' = None
        else lookupKey s' d' k' = lookupKey s d' k' \<and> expire_of s' d' k' = expire_of s d' k'" for d' k'
  proof (cases "d' = d \<and> k' \<in> fst ` set kvs")
    case True
    then show ?thesis using s'(5) [of d' k'] kv by (auto simp: map_add_def)
  next
    case False
    then have n: "d' = d \<Longrightarrow> map_of (rev kvs) k' = None" by (auto simp: map_of_eq_None_iff)
    show ?thesis using s'(5) [of d' k'] False s1(4,5) n kv
      by (auto simp: map_add_def encode_arg_text split: if_splits)
  qed
  have "\<forall>k \<in> fst ` set (kv # kvs). marked s s' d k"
    using s'(4) marked_before [OF _ m] marked_later [OF s1(3) s'(3)] kv by auto
  moreover have "mset_loop s d (kv # kvs) = Some s'" using s1(1) s'(1) kv by simp
  moreover have "sv_dirty s' = sv_dirty s" "mset_env s s'" using s1(7,9,10) s'(7,8) by (simp_all add: mset_env_def)
  moreover have "map_option c_reply (sv_clients s' c) = map_option c_reply (sv_clients s c)" for c using s1(6) s'(6) by simp
  ultimately show ?case
    using s'(2) keeps_marks_trans [OF m s'(3)] by (intro exI [of _ s'] conjI allI look)
qed

text \<open>\<^verbatim>\<open>MSET\<close> sets all its keys, a repeated key to its last value, removes their expire times and marks every
  client that watches one of them; \<^verbatim>\<open>MSETNX\<close> does the same when none of the keys exists and nothing at
  all otherwise.\<close>

theorem msetGenericCommand_correct:
  assumes ok: "server_ok s" and c: "sv_clients s c = Some cl" and odd: "odd (length (c_argv cl))"
    and kvs: "kvs = pairs_of (tl (c_argv cl))"
  shows "\<exists>s'. msetGenericCommand s c nx = Some s' \<and> server_ok s' \<and>
    (if nx \<and> (\<exists>k \<in> fst ` set kvs. live s (c_db cl) k \<noteq> None) then answered s c (R_Int 0) s'
     else (\<forall>k \<in> fst ` set kvs. marked s s' (c_db cl) k) \<and> replied s c (if nx then R_Int 1 else R_Status ''OK'') s' \<and>
       (\<forall>d' k'. if d' = c_db cl \<and> k' \<in> fst ` set kvs
          then \<exists>v. lookupKey s' d' k' = Some (StrObj v) \<and> map_of (rev kvs) k' = Some (val_text v) \<and> expire_of s' d' k' = None
          else live s' d' k' = live s d' k'))"
proof -
  have d: "c_db cl < length (sv_db s)" by (rule server_ok_client_db [OF ok c])
  let ?busy = "length (filter (\<lambda>k. live s (c_db cl) k \<noteq> None) (map fst kvs))"
  obtain s1 where s1: "(if nx then busy_keys s (c_db cl) (map fst kvs) 0 else Some (s, 0)) = Some (s1, if nx then ?busy else 0)"
      "server_ok s1" "live s1 = live s" "sv_clients s1 = sv_clients s" "length (sv_db s1) = length (sv_db s)"
    using busy_keys_ok [OF ok d, of "map fst kvs" 0] ok by (cases nx) auto
  have b: "(?busy \<noteq> 0) = (\<exists>k \<in> fst ` set kvs. live s (c_db cl) k \<noteq> None)"
    by (auto simp: filter_empty_conv)
  show ?thesis
  proof (cases "nx \<and> (\<exists>k \<in> fst ` set kvs. live s (c_db cl) k \<noteq> None)")
    case True
    then have "msetGenericCommand s c nx = Some (addReply s1 c (R_Int 0))"
      using c odd s1(1) b by (simp add: msetGenericCommand_def kvs [symmetric] del: length_greater_0_conv length_0_conv)
    then show ?thesis using True answered_after [OF s1(2-4)] s1(2) by auto
  next
    case False
    then have z: "(if nx then ?busy else 0) = 0" using b by auto
    have d1: "c_db cl < length (sv_db s1)" using d s1(5) by simp
    obtain s2 where s2: "mset_loop s1 (c_db cl) kvs = Some s2" "server_ok s2" "keeps_marks s1 s2"
        "\<forall>k \<in> fst ` set kvs. marked s1 s2 (c_db cl) k"
        "\<And>d' k'. if d' = c_db cl \<and> k' \<in> fst ` set kvs
          then (\<exists>v. lookupKey s2 d' k' = Some (StrObj v) \<and> map_of (rev kvs) k' = Some (val_text v)) \<and> expire_of s2 d' k' = None
          else lookupKey s2 d' k' = lookupKey s1 d' k' \<and> expire_of s2 d' k' = expire_of s1 d' k'"
        "\<forall>c. map_option c_reply (sv_clients s2 c) = map_option c_reply (sv_clients s1 c)" "mset_env s1 s2"
      using mset_loop_ok [OF s1(2) d1, of kvs] by blast
    let ?r = "if nx then R_Int 1 else R_Status ''OK''" and ?n = "(int (length (c_argv cl)) - 1) div 2"
    let ?s = "addReply (incr_dirty ?n s2) c ?r"
    have run: "msetGenericCommand s c nx = Some ?s"
      using c odd s1(1) s2(1) z by (auto simp: msetGenericCommand_def kvs [symmetric])
    have "marked s ?s (c_db cl) k" if "k \<in> fst ` set kvs" for k
    proof -
      have "marked s1 s2 (c_db cl) k" using s2(4) that by blast
      then have "marked s1 (incr_dirty ?n s2) (c_db cl) k" by (simp add: marked_def)
      then have "marked s1 ?s (c_db cl) k" by (rule marked_later [OF _ reply_keeps])
      then show ?thesis using s1(4) by (simp add: marked_def)
    qed
    moreover have "replied s c ?r ?s" using s2(6) [rule_format, of c] s1(4) c by (auto simp: replied_def)
    moreover have "live s2 d' k' = live s d' k'" if "\<not> (d' = c_db cl \<and> k' \<in> fst ` set kvs)" for d' k'
    proof -
      have "live s2 d' k' = live s1 d' k'" using s2(5) [of d' k'] that s2(7) by (intro live_cong) (auto simp: mset_env_def)
      then show ?thesis using s1(3) by simp
    qed
    ultimately show ?thesis using run False s2(2) s2(5) by (intro exI [of _ ?s]) auto
  qed
qed

theorem msetGenericCommand_correct_witness:
  "\<exists>s'. msetGenericCommand (str_example (EncInt 1) [''msetnx'', ''k'', ''a'', ''l'', ''b'']) 1 True = Some s' \<and>
     answered (str_example (EncInt 1) [''msetnx'', ''k'', ''a'', ''l'', ''b'']) 1 (R_Int 0) s'"
  using msetGenericCommand_correct [OF str_example_ok str_example_client _ refl, of "[''msetnx'', ''k'', ''a'', ''l'', ''b'']" "EncInt 1" True]
  by (auto simp: str_example_live example_args)

end
