(* ===== verification/Bits.thy ===== *)
theory Bits
  imports Prelude
begin

unbundle bit_operations_syntax

section \<open>Strings as arrays of bits (\<^verbatim>\<open>bitops.c\<close>)\<close>

text \<open>
  The bit operations on byte strings under the commands of \<^verbatim>\<open>bitops.c\<close>: reading and writing one bit,
  the counting of bits in words of 32 bits, and the combination of strings in words of 64 bits that makes
  \<^verbatim>\<open>BITOP\<close> fast.  Strings are lists of bytes here; words are read from memory in little-endian order and
  \<open>None\<close> is an access outside a string.  Each is shown to agree with the bit by bit reading of the string.
\<close>

subsection \<open>Counting bits\<close>

definition bitsinbyte :: "nat list" where
  "bitsinbyte =
     [0, 1, 1, 2, 1, 2, 2, 3, 1, 2, 2, 3, 2, 3, 3, 4, 1, 2, 2, 3, 2, 3, 3, 4, 2, 3, 3, 4, 3, 4, 4, 5,
      1, 2, 2, 3, 2, 3, 3, 4, 2, 3, 3, 4, 3, 4, 4, 5, 2, 3, 3, 4, 3, 4, 4, 5, 3, 4, 4, 5, 4, 5, 5, 6,
      1, 2, 2, 3, 2, 3, 3, 4, 2, 3, 3, 4, 3, 4, 4, 5, 2, 3, 3, 4, 3, 4, 4, 5, 3, 4, 4, 5, 4, 5, 5, 6,
      2, 3, 3, 4, 3, 4, 4, 5, 3, 4, 4, 5, 4, 5, 5, 6, 3, 4, 4, 5, 4, 5, 5, 6, 4, 5, 5, 6, 5, 6, 6, 7,
      1, 2, 2, 3, 2, 3, 3, 4, 2, 3, 3, 4, 3, 4, 4, 5, 2, 3, 3, 4, 3, 4, 4, 5, 3, 4, 4, 5, 4, 5, 5, 6,
      2, 3, 3, 4, 3, 4, 4, 5, 3, 4, 4, 5, 4, 5, 5, 6, 3, 4, 4, 5, 4, 5, 5, 6, 4, 5, 5, 6, 5, 6, 6, 7,
      2, 3, 3, 4, 3, 4, 4, 5, 3, 4, 4, 5, 4, 5, 5, 6, 3, 4, 4, 5, 4, 5, 5, 6, 4, 5, 5, 6, 5, 6, 6, 7,
      3, 4, 4, 5, 4, 5, 5, 6, 4, 5, 5, 6, 5, 6, 6, 7, 4, 5, 5, 6, 5, 6, 6, 7, 5, 6, 6, 7, 6, 7, 7, 8]"

text \<open>The number of bits set in a word of 32 bits.\<close>

definition swar32 :: "32 word \<Rightarrow> 32 word" where
  "swar32 aux =
     (let aux1 = aux - ((drop_bit 1 aux) AND 0x55555555);
          aux2 = (aux1 AND 0x33333333) + ((drop_bit 2 aux1) AND 0x33333333)
      in drop_bit 24 (((aux2 + drop_bit 4 aux2) AND 0x0F0F0F0F) * 0x01010101))"

definition load32 :: "byte list \<Rightarrow> nat \<Rightarrow> 32 word" where
  "load32 bs i = word_of_int (le_uint (take 4 (drop (4 * i) bs)))"

text \<open>\<open>bs\<close> is what the pointer points to, \<^verbatim>\<open>count\<close> bytes long.\<close>

function popcount :: "byte list \<Rightarrow> nat" where
  "popcount bs =
     (if length bs \<ge> 16
      then unat (swar32 (load32 bs 0)) + unat (swar32 (load32 bs 1)) + unat (swar32 (load32 bs 2)) + unat (swar32 (load32 bs 3)) +
        popcount (drop 16 bs)
      else sum_list (map (\<lambda>b. bitsinbyte ! unat b) bs))"
  by pat_completeness auto
termination
  by (relation "measure length") auto

declare popcount.simps [simp del]

subsection \<open>Single bits\<close>

text \<open>Writing one bit of a string: the new text and whether the bit was set.\<close>

definition set_bit_at :: "byte list \<Rightarrow> nat \<Rightarrow> bool \<Rightarrow> byte list \<times> bool" where
  "set_bit_at bs bitoffset on =
     (let byte = drop_bit 3 bitoffset;
          g = bs @ replicate (byte + 1 - length bs) 0;
          byteval = g ! byte;
          bit = 7 - (bitoffset AND 7);
          bitval = byteval AND (push_bit bit 1);
          byteval1 = byteval AND NOT (push_bit bit 1);
          byteval2 = byteval1 OR (push_bit bit (if on then 1 else 0))
      in (g[byte := byteval2], bitval \<noteq> 0))"

definition get_bit_at :: "byte list \<Rightarrow> nat \<Rightarrow> bool" where
  "get_bit_at bs bitoffset =
     (let byte = drop_bit 3 bitoffset; bit = 7 - (bitoffset AND 7) in
      if byte < length bs then (bs ! byte) AND (push_bit bit 1) \<noteq> 0 else False)"

subsection \<open>Combining strings\<close>

datatype bitop = BITOP_AND | BITOP_OR | BITOP_XOR | BITOP_NOT

text \<open>The operation on a byte or a word; \<^verbatim>\<open>NOT\<close> has no second operand.\<close>

fun bit_op :: "bitop \<Rightarrow> 'a::len word \<Rightarrow> 'a word \<Rightarrow> 'a word" where
  "bit_op BITOP_AND x y = x AND y"
| "bit_op BITOP_OR x y = x OR y"
| "bit_op BITOP_XOR x y = x XOR y"
| "bit_op BITOP_NOT x y = x"

definition load64 :: "byte list \<Rightarrow> nat \<Rightarrow> 64 word option" where
  "load64 bs off = (if off + 8 \<le> length bs then Some (word_of_int (le_uint (take 8 (drop off bs)))) else None)"

definition store64 :: "byte list \<Rightarrow> nat \<Rightarrow> 64 word \<Rightarrow> byte list option" where
  "store64 bs off w =
     (if off + 8 \<le> length bs then Some (take off bs @ le_bytes 8 (uint w) @ drop (off + 8) bs) else None)"

text \<open>One word of the result combined with the word of a source at the same place.\<close>

definition fast_word :: "bitop \<Rightarrow> byte list \<Rightarrow> byte list \<Rightarrow> nat \<Rightarrow> byte list option" where
  "fast_word op res src off = do {
     x \<leftarrow> load64 res off;
     y \<leftarrow> load64 src off;
     store64 res off (bit_op op x y)
   }"

definition fast_four :: "bitop \<Rightarrow> byte list \<Rightarrow> byte list \<Rightarrow> nat \<Rightarrow> byte list option" where
  "fast_four op res src j = do {
     r1 \<leftarrow> fast_word op res src j;
     r2 \<leftarrow> fast_word op r1 src (j + 8);
     r3 \<leftarrow> fast_word op r2 src (j + 16);
     fast_word op r3 src (j + 24)
   }"

text \<open>One round: four words with all sources but the first, or four words negated.\<close>

fun fast_round :: "bitop \<Rightarrow> byte list \<Rightarrow> byte list list \<Rightarrow> nat \<Rightarrow> byte list option" where
  "fast_round op res [] j = Some res"
| "fast_round op res (src # srcs) j = do { r \<leftarrow> fast_four op res src j; fast_round op r srcs j }"

definition not_word :: "byte list \<Rightarrow> nat \<Rightarrow> byte list option" where
  "not_word res off = do { x \<leftarrow> load64 res off; store64 res off (NOT x) }"

definition not_round :: "byte list \<Rightarrow> nat \<Rightarrow> byte list option" where
  "not_round res j = do {
     r1 \<leftarrow> not_word res j;
     r2 \<leftarrow> not_word r1 (j + 8);
     r3 \<leftarrow> not_word r2 (j + 16);
     not_word r3 (j + 24)
   }"

function fast_loop :: "bitop \<Rightarrow> byte list \<Rightarrow> byte list list \<Rightarrow> nat \<Rightarrow> nat \<Rightarrow> (byte list \<times> nat) option" where
  "fast_loop op res srcs j minlen =
     (if minlen \<ge> 32 then
        (if op = BITOP_NOT then not_round res j else fast_round op res (tl srcs) j) \<bind>
          (\<lambda>r. fast_loop op r srcs (j + 32) (minlen - 32))
      else Some (res, j))"
  by pat_completeness auto
termination
  by (relation "measure (\<lambda>(op, res, srcs, j, minlen). minlen)") auto

declare fast_loop.simps [simp del]

text \<open>One byte of the result, and the loop over the bytes that are left.\<close>

definition byte_at :: "byte list \<Rightarrow> nat \<Rightarrow> byte" where
  "byte_at src j = (if length src \<le> j then 0 else src ! j)"

definition slow_byte :: "bitop \<Rightarrow> byte list list \<Rightarrow> nat \<Rightarrow> byte" where
  "slow_byte op srcs j =
     (let output = byte_at (hd srcs) j;
          output1 = (if op = BITOP_NOT then NOT output else output)
      in fold (\<lambda>src out. bit_op op out (byte_at src j)) (tl srcs) output1)"

definition slow_loop :: "bitop \<Rightarrow> byte list list \<Rightarrow> byte list \<Rightarrow> nat \<Rightarrow> byte list" where
  "slow_loop op srcs res j = take j res @ map (slow_byte op srcs) [j..<length res]"

definition bitop_result :: "bitop \<Rightarrow> byte list list \<Rightarrow> nat \<Rightarrow> nat \<Rightarrow> byte list option" where
  "bitop_result op srcs minlen maxlen =
     (let res = replicate maxlen 0 in
      if minlen \<noteq> 0 \<and> length srcs \<le> 16 then do {
        (r, j) \<leftarrow> fast_loop op (take minlen (hd srcs) @ drop minlen res) srcs 0 minlen;
        Some (slow_loop op srcs r j)
      } else Some (slow_loop op srcs res 0))"

subsection \<open>The count of bits\<close>

text \<open>Masks act on each byte of a number alone, and so does a shift whose mask leaves out what comes from the next byte.\<close>

lemma and_bytes:
  fixes u v m n :: nat
  assumes "u < 2 ^ k" and "m < 2 ^ k"
  shows "(u + 2 ^ k * v) AND (m + 2 ^ k * n) = (u AND m) + 2 ^ k * (v AND n)"
proof -
  have parts: "take_bit k (x + 2 ^ k * y) = x" "drop_bit k (x + 2 ^ k * y) = y" if "x < 2 ^ k" for x y :: nat
    using that by (simp_all add: take_bit_eq_mod drop_bit_eq_div)
  have "take_bit k ((u + 2 ^ k * v) AND (m + 2 ^ k * n)) = u AND m"
    using assms by (simp only: take_bit_and parts)
  moreover have "drop_bit k ((u + 2 ^ k * v) AND (m + 2 ^ k * n)) = v AND n"
    using assms by (simp only: drop_bit_and parts)
  ultimately show ?thesis
    by (metis add.commute bits_ident push_bit_eq_mult mult.commute)
qed

lemma shift_and_bytes:
  fixes b y m n :: nat
  assumes "b < 256" and "m < 2 ^ (8 - s)" and "s \<le> 8"
  shows "drop_bit s (b + 256 * y) AND (m + 256 * n) = (drop_bit s b AND m) + 256 * (drop_bit s y AND n)"
proof -
  have p: "(2::nat) ^ s * 2 ^ (8 - s) = 256" using assms(3) by (simp flip: power_add)
  have low: "drop_bit s b < 2 ^ (8 - s)"
    using assms(1) p by (simp add: drop_bit_eq_div less_mult_imp_div_less mult.commute)
  have y: "y = y mod 2 ^ s + 2 ^ s * drop_bit s y" by (simp add: drop_bit_eq_div)
  have "drop_bit s (b + 256 * y) = drop_bit s b + 2 ^ (8 - s) * y"
    using p by (simp add: drop_bit_eq_div flip: p) (simp add: mult.assoc)
  also have "\<dots> = (drop_bit s b + 2 ^ (8 - s) * (y mod 2 ^ s)) + 2 ^ 8 * drop_bit s y"
    by (subst y) (use p in \<open>simp add: algebra_simps\<close>)
  finally have e: "drop_bit s (b + 256 * y) = (drop_bit s b + 2 ^ (8 - s) * (y mod 2 ^ s)) + 2 ^ 8 * drop_bit s y" .
  have "drop_bit s b + 2 ^ (8 - s) * (y mod 2 ^ s) < 2 ^ (8 - s) * Suc (y mod 2 ^ s)" using low by simp
  also have "\<dots> \<le> 2 ^ (8 - s) * 2 ^ s" by (intro mult_le_mono) (simp_all add: Suc_leI)
  finally have "drop_bit s b + 2 ^ (8 - s) * (y mod 2 ^ s) < 2 ^ 8" using p by (simp add: mult.commute)
  moreover have "m < 2 ^ 8" using assms(2) p by (meson less_le_trans diff_le_self one_le_numeral power_increasing)
  ultimately have "drop_bit s (b + 256 * y) AND (m + 256 * n) =
     ((drop_bit s b + 2 ^ (8 - s) * (y mod 2 ^ s)) AND m) + 256 * (drop_bit s y AND n)"
    using and_bytes [of _ 8 m "drop_bit s y" n] by (simp add: e)
  then show ?thesis using and_bytes [OF low assms(2), of "y mod 2 ^ s" 0] by simp
qed

text \<open>What the steps of the count do to one byte; the last step also adds half a byte of the next one.\<close>

definition pairs :: "nat \<Rightarrow> nat" where
  "pairs b = b - (drop_bit 1 b AND 0x55)"

definition quads :: "nat \<Rightarrow> nat" where
  "quads b = (pairs b AND 0x33) + (drop_bit 2 (pairs b) AND 0x33)"

definition bits_in :: "nat \<Rightarrow> nat" where
  "bits_in b = length (filter (bit b) [0..<8])"

definition byte_steps_ok :: "nat \<Rightarrow> bool" where
  "byte_steps_ok b \<longleftrightarrow> drop_bit 1 b AND 0x55 \<le> b \<and> pairs b < 256 \<and> quads b mod 16 + quads b div 16 = bits_in b \<and>
     quads b mod 16 \<le> 4 \<and> quads b div 16 \<le> 4"

lemma bits_in_rec: "bits_in b = (\<Sum>i\<leftarrow>[0, 1, 2, 3, 4, 5, 6, 7]. of_bool (bit b i))"
  by (simp add: bits_in_def upt_conv_Cons numeral_2_eq_2 [symmetric] del: upt_rec_numeral cong: if_cong)

lemma all_bytes: "[0..<256] = 0 # 1 # [2..<256]"
  by (simp add: upt_conv_Cons numeral_2_eq_2)

lemma bytes_checked: "list_all byte_steps_ok [0..<256]"
  by (simp add: all_bytes byte_steps_ok_def quads_def pairs_def bits_in_rec bit_Suc_0_iff)

lemma bitsinbyte_checked: "bitsinbyte = map bits_in [0..<256]"
  by (simp add: all_bytes bits_in_rec bitsinbyte_def bit_Suc_0_iff)

lemma byte_facts:
  assumes "b < 256"
  shows "drop_bit 1 b AND 0x55 \<le> b" "pairs b < 256" "quads b mod 16 + quads b div 16 = bits_in b"
    "quads b mod 16 \<le> 4" "quads b div 16 \<le> 4" "bitsinbyte ! b = bits_in b"
  using bytes_checked assms by (auto simp: list_all_iff byte_steps_ok_def bitsinbyte_checked)

text \<open>A word of four bytes, the lowest first.\<close>

definition word4 :: "nat \<Rightarrow> nat \<Rightarrow> nat \<Rightarrow> nat \<Rightarrow> nat" where
  "word4 a b c d = a + 256 * (b + 256 * (c + 256 * d))"

lemma word4_less: "a < 256 \<Longrightarrow> b < 256 \<Longrightarrow> c < 256 \<Longrightarrow> d < 256 \<Longrightarrow> word4 a b c d < 2 ^ 32"
  by (simp add: word4_def)

lemma word4_and:
  assumes "a < 256" "b < 256" "c < 256" "d < 256" "m < 256"
  shows "word4 a b c d AND word4 m m m m = word4 (a AND m) (b AND m) (c AND m) (d AND m)"
proof -
  have "(u + 256 * v) AND (m + 256 * n) = (u AND m) + 256 * (v AND n)" if "u < 256" for u v n :: nat
    using and_bytes [of u 8 m v n] that assms(5) by simp
  then show ?thesis using assms(1-3) by (simp only: word4_def)
qed

lemma word4_shift_and:
  assumes "a < 256" "b < 256" "c < 256" "d < 256" "m < 2 ^ (8 - s)" "s \<le> 8"
  shows "drop_bit s (word4 a b c d) AND word4 m m m m =
    word4 (drop_bit s a AND m) (drop_bit s b AND m) (drop_bit s c AND m) (drop_bit s d AND m)"
  by (simp only: word4_def shift_and_bytes [OF assms(1,5,6)] shift_and_bytes [OF assms(2,5,6)]
    shift_and_bytes [OF assms(3,5,6)])

lemma word4_masks:
  "0x55555555 = word4 0x55 0x55 0x55 0x55" "0x33333333 = word4 0x33 0x33 0x33 0x33"
  "0x0F0F0F0F = word4 0x0F 0x0F 0x0F 0x0F" "0x01010101 = word4 1 1 1 1"
  by (simp_all add: word4_def)

lemma word4_mono: "a \<le> a' \<Longrightarrow> b \<le> b' \<Longrightarrow> c \<le> c' \<Longrightarrow> d \<le> d' \<Longrightarrow> word4 a b c d \<le> word4 a' b' c' d'"
  by (simp add: word4_def add_mono)

lemma word4_add: "word4 a b c d + word4 a' b' c' d' = word4 (a + a') (b + b') (c + c') (d + d')"
  by (simp add: word4_def algebra_simps)

lemma word4_diff:
  "a' \<le> a \<Longrightarrow> b' \<le> b \<Longrightarrow> c' \<le> c \<Longrightarrow> d' \<le> d \<Longrightarrow>
   word4 a b c d - word4 a' b' c' d' = word4 (a - a') (b - b') (c - c') (d - d')"
  by (simp add: word4_def algebra_simps)

lemma word4_sum:
  assumes "a + b + c + d < 256"
  shows "word4 a b c d * word4 1 1 1 1 mod 2 ^ 32 div 2 ^ 24 = a + b + c + d"
proof -
  have e: "word4 a b c d * word4 1 1 1 1 =
      word4 a (a + b) (a + b + c) (a + b + c + d) + 2 ^ 32 * (b + c + d + 256 * (c + d) + 65536 * d)"
    by (simp add: word4_def algebra_simps)
  have "word4 a b c d * word4 1 1 1 1 mod 2 ^ 32 = word4 a (a + b) (a + b + c) (a + b + c + d)"
    unfolding e mod_mult_self2 using word4_less [of a "a + b" "a + b + c" "a + b + c + d"] assms by (intro mod_less) simp
  also have "\<dots> div 2 ^ 24 = a + b + c + d" using assms by (simp add: word4_def)
  finally show ?thesis .
qed

lemma unat_and_word: "unat (x AND y :: 'a::len word) = unat x AND unat y"
  by (simp add: unsigned_and_eq)

lemma unat_drop_word: "unat (drop_bit n x :: 'a::len word) = drop_bit n (unat x)"
  by (rule unat_drop_bit_eq)

lemma and_mask16: "(e::nat) AND 0x0F = e mod 16"
  using and_exp_eq_0_iff_not_bit take_bit_eq_mask [of 4 e] by (simp add: take_bit_eq_mod mask_eq_exp_minus_1)

text \<open>The first two steps, on the four bytes at once.\<close>

lemma swar_quads:
  assumes x: "unat x = word4 a b c d" and bytes: "a < 256" "b < 256" "c < 256" "d < 256"
    and x1_def: "x1 = x - (drop_bit 1 x AND 0x55555555)"
    and x2_def: "x2 = (x1 AND 0x33333333) + (drop_bit 2 x1 AND 0x33333333)"
  shows "unat (x2 :: 32 word) = word4 (quads a) (quads b) (quads c) (quads d)"
proof -
  note fa = byte_facts [OF bytes(1)] and fb = byte_facts [OF bytes(2)]
    and fc = byte_facts [OF bytes(3)] and fd = byte_facts [OF bytes(4)]
  have m1: "unat (0x55555555 :: 32 word) = word4 0x55 0x55 0x55 0x55"
    and m2: "unat (0x33333333 :: 32 word) = word4 0x33 0x33 0x33 0x33"
    by (simp_all add: word4_def)
  have h1: "unat (drop_bit 1 x AND 0x55555555) = word4 (drop_bit 1 a AND 0x55) (drop_bit 1 b AND 0x55) (drop_bit 1 c AND 0x55) (drop_bit 1 d AND 0x55)"
    unfolding unat_and_word unat_drop_word x m1 by (rule word4_shift_and) (use bytes in simp_all)
  have "drop_bit 1 x AND 0x55555555 \<le> x"
    unfolding word_le_nat_alt h1 x by (intro word4_mono fa fb fc fd)
  then have "unat x1 = word4 a b c d - word4 (drop_bit 1 a AND 0x55) (drop_bit 1 b AND 0x55) (drop_bit 1 c AND 0x55) (drop_bit 1 d AND 0x55)"
    unfolding x1_def by (simp add: unat_sub h1 x del: One_nat_def)
  then have x1: "unat x1 = word4 (pairs a) (pairs b) (pairs c) (pairs d)"
    unfolding pairs_def using word4_diff [OF fa(1) fb(1) fc(1) fd(1)] by simp
  have l: "unat (x1 AND 0x33333333) = word4 (pairs a AND 0x33) (pairs b AND 0x33) (pairs c AND 0x33) (pairs d AND 0x33)"
    unfolding unat_and_word x1 m2 by (rule word4_and) (use fa(2) fb(2) fc(2) fd(2) in simp_all)
  have h: "unat (drop_bit 2 x1 AND 0x33333333) = word4 (drop_bit 2 (pairs a) AND 0x33) (drop_bit 2 (pairs b) AND 0x33)
      (drop_bit 2 (pairs c) AND 0x33) (drop_bit 2 (pairs d) AND 0x33)"
    unfolding unat_and_word unat_drop_word x1 m2 by (rule word4_shift_and) (use fa(2) fb(2) fc(2) fd(2) in simp_all)
  have q: "quads e < 0x45" if "e < 256" for e using byte_facts(4,5) [OF that] div_mult_mod_eq [of "quads e" 16] by linarith
  have sum2: "unat (x1 AND 0x33333333) + unat (drop_bit 2 x1 AND 0x33333333) = word4 (quads a) (quads b) (quads c) (quads d)"
    unfolding l h word4_add by (simp add: quads_def)
  have "word4 (quads a) (quads b) (quads c) (quads d) < 2 ^ 32"
    by (intro word4_less) (use q bytes in fastforce)+
  then show ?thesis
    unfolding x2_def by (subst unat_add_lem [THEN iffD1]) (simp_all add: sum2)
qed

lemma word4_shift4:
  "drop_bit 4 (word4 p q r s) =
     word4 (p div 16 + 16 * (q mod 16)) (q div 16 + 16 * (r mod 16)) (r div 16 + 16 * (s mod 16)) (s div 16)"
proof -
  have "(x + 256 * y) mod 16 = x mod 16 \<and> (x + 256 * y) div 16 = x div 16 + 16 * (y mod 16) + 256 * (y div 16)" for x y :: nat
  proof -
    have "x + 256 * y = x + 16 * (16 * y)" by simp
    moreover have "16 * z = 16 * r + 256 * q" if "z = 16 * q + r" for z q r :: nat using that by simp
    from this [OF mult_div_mod_eq [symmetric]] have "16 * y = 16 * (y mod 16) + 256 * (y div 16)" .
    ultimately show ?thesis by (simp only: mod_mult_self2) (simp add: div_mult_self2 [of 16 x "16 * y"])
  qed
  moreover have "(2::nat) ^ 4 = 16" by simp
  ultimately show ?thesis by (simp only: word4_def drop_bit_eq_div)
qed

lemma zero_quads: "quads 0 = 0"
  by (simp add: quads_def pairs_def)

lemma swar32_eq:
  assumes x: "unat x = word4 a b c d" and bytes: "a < 256" "b < 256" "c < 256" "d < 256"
  shows "unat (swar32 x) = bits_in a + bits_in b + bits_in c + bits_in d"
proof -
  define x1 where "x1 = x - (drop_bit 1 x AND 0x55555555)"
  define x2 where "x2 = (x1 AND 0x33333333) + (drop_bit 2 x1 AND 0x33333333)"
  note x2 = swar_quads [OF x bytes x1_def x2_def]
  have m3: "unat (0x0F0F0F0F :: 32 word) = word4 0x0F 0x0F 0x0F 0x0F"
    and m4: "unat (0x01010101 :: 32 word) = word4 1 1 1 1"
    by (simp_all add: word4_def)
  define n where "n e f = quads e + quads e div 16 + 16 * (quads f mod 16)" for e f
  have n: "n e f < 256" "n e f mod 16 = bits_in e" "bits_in e \<le> 8" if "e < 256" "f < 256" for e f
  proof -
    have "q + h + 16 * k = t + 16 * (h + k)" if "l + h = t" "h * 16 + l = q" for q h k l t :: nat using that by simp
    from this [OF byte_facts(3) [OF that(1)] div_mult_mod_eq]
    have "n e f = bits_in e + 16 * (quads e div 16 + quads f mod 16)" by (simp add: n_def)
    moreover show "bits_in e \<le> 8" using byte_facts(3-5) [OF that(1)] by linarith
    ultimately show "n e f < 256" "n e f mod 16 = bits_in e"
      using byte_facts(5) [OF that(1)] byte_facts(4) [OF that(2)] by (simp, simp only: mod_mult_self2 mod_less)
  qed
  have "unat x2 + unat (drop_bit 4 x2) = word4 (n a b) (n b c) (n c d) (n d 0)"
    unfolding unat_drop_word x2 word4_shift4 word4_add by (simp add: n_def add.assoc zero_quads)
  moreover have "word4 (n a b) (n b c) (n c d) (n d 0) < 2 ^ 32"
    by (intro word4_less n) (use bytes in simp_all)
  ultimately have "unat (x2 + drop_bit 4 x2) = word4 (n a b) (n b c) (n c d) (n d 0)"
    by (subst unat_add_lem [THEN iffD1]) simp_all
  then have "unat ((x2 + drop_bit 4 x2) AND 0x0F0F0F0F) =
      word4 (n a b AND 0x0F) (n b c AND 0x0F) (n c d AND 0x0F) (n d 0 AND 0x0F)"
    unfolding unat_and_word m3 by (simp only:) (rule word4_and; use bytes in \<open>simp add: n\<close>)
  also have "\<dots> = word4 (bits_in a) (bits_in b) (bits_in c) (bits_in d)"
    using bytes n(2) and_mask16 by simp
  finally have "unat (((x2 + drop_bit 4 x2) AND 0x0F0F0F0F) * 0x01010101) =
      word4 (bits_in a) (bits_in b) (bits_in c) (bits_in d) * word4 1 1 1 1 mod 2 ^ 32"
    unfolding unat_word_ariths m4 by simp
  then have "unat (drop_bit 24 (((x2 + drop_bit 4 x2) AND 0x0F0F0F0F) * 0x01010101)) =
      word4 (bits_in a) (bits_in b) (bits_in c) (bits_in d) * word4 1 1 1 1 mod 2 ^ 32 div 2 ^ 24"
    unfolding unat_drop_word by (simp only: drop_bit_eq_div [where ?'a = nat])
  also have "\<dots> = bits_in a + bits_in b + bits_in c + bits_in d"
    by (rule word4_sum) (use bytes n(3) [of a 0] n(3) [of b 0] n(3) [of c 0] n(3) [of d 0] in linarith)
  finally show ?thesis by (simp add: swar32_def Let_def x1_def x2_def)
qed

lemma unat_byte_less: "unat (b :: byte) < 256"
  using unsigned_less [of b] by simp

lemma le_uint_word4: "le_uint [a, b, c, d] = int (word4 (unat a) (unat b) (unat c) (unat d))"
  by (simp add: word4_def)

lemma swar32_bytes:
  "unat (swar32 (word_of_int (le_uint [a, b, c, d]))) =
     bits_in (unat a) + bits_in (unat b) + bits_in (unat c) + bits_in (unat d)"
proof -
  have "word4 (unat a) (unat b) (unat c) (unat d) < 2 ^ 32" by (intro word4_less unat_byte_less)
  then have "unat (word_of_int (le_uint [a, b, c, d]) :: 32 word) = word4 (unat a) (unat b) (unat c) (unat d)"
    by (simp add: le_uint_word4 unsigned_of_nat take_bit_eq_mod del: le_uint.simps)
  then show ?thesis by (rule swar32_eq) (rule unat_byte_less)+
qed

lemma four_bytes: "4 \<le> length bs \<Longrightarrow> \<exists>a b c d r. bs = a # b # c # d # r"
  by (auto simp: numeral_eq_Suc Suc_le_length_iff)

lemma popcount_bytes: "popcount bs = (\<Sum>b\<leftarrow>bs. bits_in (unat b))"
proof (induction bs rule: popcount.induct)
  case (1 bs)
  show ?case
  proof (cases "16 \<le> length bs")
    case True
    obtain a1 b1 c1 d1 r1 where 1: "bs = a1 # b1 # c1 # d1 # r1" using four_bytes [of bs] True by auto
    obtain a2 b2 c2 d2 r2 where 2: "r1 = a2 # b2 # c2 # d2 # r2" using four_bytes [of r1] True 1 by auto
    obtain a3 b3 c3 d3 r3 where 3: "r2 = a3 # b3 # c3 # d3 # r3" using four_bytes [of r2] True 1 2 by auto
    obtain a4 b4 c4 d4 r4 where 4: "r3 = a4 # b4 # c4 # d4 # r4" using four_bytes [of r3] True 1 2 3 by auto
    have "load32 bs 0 = word_of_int (le_uint [a1, b1, c1, d1])" "load32 bs 1 = word_of_int (le_uint [a2, b2, c2, d2])"
      "load32 bs 2 = word_of_int (le_uint [a3, b3, c3, d3])" "load32 bs 3 = word_of_int (le_uint [a4, b4, c4, d4])"
      and "drop 16 bs = r4"
      by (simp_all only: load32_def) (simp_all add: 1 2 3 4)
    then show ?thesis
      using True "1.IH" by (subst popcount.simps) (simp only: if_True swar32_bytes, simp add: 1 2 3 4)
  next
    case False
    then show ?thesis
      by (subst popcount.simps) (simp add: byte_facts(6) [OF unat_byte_less])
  qed
qed

lemma bits_in_reversed: "bits_in (unat b) = length (filter (\<lambda>i. bit (b :: byte) (7 - i)) [0..<8])"
  by (simp add: bits_in_rec bit_unsigned_iff upt_conv_Cons numeral_2_eq_2 [symmetric] del: upt_rec_numeral)

lemma get_bit_at_eq: "get_bit_at bs i \<longleftrightarrow> i < 8 * length bs \<and> bit (bs ! (i div 8)) (7 - i mod 8)"
proof -
  have "i div 8 < length bs \<longleftrightarrow> i < 8 * length bs" by (simp add: div_less_iff_less_mult mult.commute)
  moreover have "i AND 7 = i mod 8" using take_bit_eq_mask [of 3 i] by (simp add: take_bit_eq_mod mask_eq_exp_minus_1)
  moreover have "(b AND push_bit n 1 \<noteq> 0) = bit b n" for b :: byte and n
    by (simp add: bit_iff_and_push_bit_not_eq_0)
  ultimately show ?thesis by (simp add: get_bit_at_def drop_bit_eq_div)
qed

lemma count_Cons:
  "length (filter (get_bit_at (b # bs)) [0..<8 * length (b # bs)]) =
   bits_in (unat b) + length (filter (get_bit_at bs) [0..<8 * length bs])"
proof -
  have "[0..<8 * length (b # bs)] = [0..<8] @ map (\<lambda>i. i + 8) [0..<8 * length bs]"
    by (simp add: map_add_upt upt_add_eq_append [of 0 8, simplified] add.commute)
  moreover have "get_bit_at (b # bs) (i + 8) = get_bit_at bs i" for i
  proof -
    have "(i + 8) div 8 = Suc (i div 8)" by simp
    then show ?thesis by (simp add: get_bit_at_eq)
  qed
  moreover have "filter (get_bit_at (b # bs)) [0..<8] = filter (\<lambda>i. bit b (7 - i)) [0..<8]"
    by (rule filter_cong) (auto simp: get_bit_at_eq)
  ultimately show ?thesis by (simp add: filter_map comp_def bits_in_reversed del: upt_rec_numeral)
qed

lemma count_bits: "popcount bs = length (filter (get_bit_at bs) [0..<8 * length bs])"
proof -
  have "length (filter (get_bit_at bs) [0..<8 * length bs]) = (\<Sum>b\<leftarrow>bs. bits_in (unat b))"
    by (induction bs) (simp_all only: count_Cons, simp_all)
  then show ?thesis by (simp add: popcount_bytes)
qed

text \<open>C28. Counting by words of 32 bits, with the masks and the multiplication, and the rest by the table, is the number
  of bits that reading them one by one finds set, for strings of every length.\<close>

theorem popcount_counts_bits: "popcount bs = length (filter (get_bit_at bs) [0..<8 * length bs])"
  by (rule count_bits)

subsection \<open>Writing a bit\<close>

lemma set_bit_at_byte:
  "set_bit_at bs i on =
    (let g = bs @ replicate (i div 8 + 1 - length bs) 0; n = 7 - i mod 8
     in (g[i div 8 := (if on then set_bit n (g ! (i div 8)) else unset_bit n (g ! (i div 8)))], bit (g ! (i div 8)) n))"
proof -
  have m: "i AND 7 = i mod 8" using take_bit_eq_mask [of 3 i] by (simp add: take_bit_eq_mod mask_eq_exp_minus_1)
  have "(b AND push_bit n 1 \<noteq> 0) = bit b n" for b :: byte and n
    by (simp add: bit_iff_and_push_bit_not_eq_0)
  moreover have "(b AND NOT (push_bit n 1)) OR push_bit n (if on then 1 else 0) = (if on then set_bit n b else unset_bit n b)"
    for b :: byte and n
    by (rule bit_word_eqI) (auto simp: bit_simps)
  ultimately show ?thesis unfolding set_bit_at_def Let_def m by (simp add: drop_bit_eq_div)
qed

lemma grown_bit: "get_bit_at (bs @ replicate n 0) i = get_bit_at bs i"
  by (auto simp: get_bit_at_eq nth_append)

lemma set_bit_at_correct:
  shows set_bit_at_bits: "get_bit_at (fst (set_bit_at bs i on)) j \<longleftrightarrow> (if j = i then on else get_bit_at bs j)"
    and set_bit_at_old: "snd (set_bit_at bs i on) = get_bit_at bs i"
    and set_bit_at_length: "length (fst (set_bit_at bs i on)) = max (length bs) (i div 8 + 1)"
proof -
  define g where "g = bs @ replicate (i div 8 + 1 - length bs) 0"
  let ?n = "7 - i mod 8"
  have len: "length g = max (length bs) (i div 8 + 1)" by (simp add: g_def)
  have in_g: "i div 8 < length g" and i: "i < 8 * length g" using len by linarith+
  have g: "get_bit_at g j = get_bit_at bs j" for j unfolding g_def by (rule grown_bit)
  have res: "set_bit_at bs i on =
      (g[i div 8 := (if on then set_bit ?n (g ! (i div 8)) else unset_bit ?n (g ! (i div 8)))], bit (g ! (i div 8)) ?n)"
    by (simp only: set_bit_at_byte g_def [symmetric] Let_def)
  show "length (fst (set_bit_at bs i on)) = max (length bs) (i div 8 + 1)" by (simp add: res len)
  show "snd (set_bit_at bs i on) = get_bit_at bs i" using i unfolding g [symmetric] by (simp add: res get_bit_at_eq)
  have same: "(7 - j mod 8 = ?n) = (j = i)" if "j div 8 = i div 8"
  proof -
    have "(7 - a = 7 - b) = (a = b)" if "a < 8" "b < 8" for a b :: nat using that by auto
    then have "(7 - j mod 8 = ?n) = (j mod 8 = i mod 8)" by simp
    also have "\<dots> = (j = i)" using that by (metis div_mult_mod_eq)
    finally show ?thesis .
  qed
  show "get_bit_at (fst (set_bit_at bs i on)) j \<longleftrightarrow> (if j = i then on else get_bit_at bs j)"
  proof (cases "j div 8 = i div 8")
    case True
    let ?B = "g ! (i div 8)"
    have j: "j < 8 * length g" using True in_g by linarith
    have "get_bit_at (fst (set_bit_at bs i on)) j = bit (if on then set_bit ?n ?B else unset_bit ?n ?B) (7 - j mod 8)"
      using j in_g by (simp add: res get_bit_at_eq True)
    also have "\<dots> = (if j = i then on else bit ?B (7 - j mod 8))"
      using same [OF True] by (auto simp: bit_set_bit_iff bit_unset_bit_iff)
    also have "bit ?B (7 - j mod 8) = get_bit_at bs j" using j unfolding g [symmetric] by (simp add: get_bit_at_eq True)
    finally show ?thesis .
  next
    case False
    then have "get_bit_at (fst (set_bit_at bs i on)) j = get_bit_at g j" by (auto simp: res get_bit_at_eq)
    then show ?thesis using False g by auto
  qed
qed

subsection \<open>The fast path of the combination\<close>

text \<open>Combining numbers combines their bytes.\<close>

lemma bit_op_bytes:
  "op \<noteq> BITOP_NOT \<Longrightarrow> length xs = length ys \<Longrightarrow>
   le_uint (map2 (bit_op op) xs ys) =
     (case op of BITOP_AND \<Rightarrow> le_uint xs AND le_uint ys | BITOP_OR \<Rightarrow> le_uint xs OR le_uint ys | _ \<Rightarrow> le_uint xs XOR le_uint ys)"
proof (induction xs ys rule: list_induct2')
  case (4 x xs y ys)
  have byte: "0 \<le> uint z" "uint z < 256" for z :: byte using uint_lt2p [of z] by simp_all
  have parts: "take_bit 8 (uint z + 256 * v) = uint z" "drop_bit 8 (uint z + 256 * v) = v" for z :: byte and v
    using byte [of z] by (simp_all add: take_bit_eq_mod drop_bit_eq_div)
  have join: "w = take_bit 8 w + 256 * drop_bit 8 w" for w :: int
    by (simp add: take_bit_eq_mod drop_bit_eq_div)
  have "(uint x + 256 * v) AND (uint y + 256 * w) = uint (x AND y) + 256 * (v AND w)" for v w
    by (subst join) (simp only: take_bit_and drop_bit_and parts unsigned_and_eq)
  moreover have "(uint x + 256 * v) OR (uint y + 256 * w) = uint (x OR y) + 256 * (v OR w)" for v w
    by (subst join) (simp only: take_bit_or drop_bit_or parts unsigned_or_eq)
  moreover have "(uint x + 256 * v) XOR (uint y + 256 * w) = uint (x XOR y) + 256 * (v XOR w)" for v w
    by (subst join) (simp only: take_bit_xor drop_bit_xor parts unsigned_xor_eq)
  ultimately show ?case using 4 by (cases op) simp_all
qed (auto split: bitop.splits)

lemma byte_range: "0 \<le> uint (b :: byte)" "uint b < 256"
  using uint_lt2p [of b] by simp_all

lemma le_uint_range: "0 \<le> le_uint bs \<and> le_uint bs < 256 ^ length bs"
proof (induction bs)
  case (Cons b bs)
  have "uint b < 256" using uint_lt2p [of b] by simp
  then show ?case using Cons by auto
qed simp

lemma le_bytes_le_uint: "le_bytes (length bs) (le_uint bs) = bs"
proof (induction bs)
  case (Cons b bs)
  have "0 \<le> uint b" "uint b < 256" using uint_lt2p [of b] by simp_all
  then have "(uint b + 256 * le_uint bs) div 256 = le_uint bs" by simp
  moreover have "(word_of_int (uint b + 256 * le_uint bs) :: byte) = b"
    using \<open>0 \<le> uint b\<close> \<open>uint b < 256\<close> by (subst word_uint_eq_iff) (simp only: uint_word_of_int, simp)
  ultimately show ?case using Cons by simp
qed simp

lemma le_uint_not: "le_uint (map (\<lambda>b. NOT b) bs) = 256 ^ length bs - 1 - le_uint bs"
proof (induction bs)
  case (Cons b bs)
  have "uint (NOT b) = 255 - uint b" 
  proof -
    have "uint (NOT b) = (255 - uint b) mod 256"
      using mod_add_self2 [of "- uint b - 1" 256] by (simp only: unsigned_not_eq) (simp add: take_bit_eq_mod not_eq_complement)
    moreover have "(255 - uint b) mod 256 = 255 - uint b"
      using byte_range [of b] by (intro mod_pos_pos_trivial) linarith+
    ultimately show ?thesis by simp
  qed
  then show ?case using Cons by (simp add: algebra_simps)
qed simp

lemma uint_load: "length bs = 8 \<Longrightarrow> uint (word_of_int (le_uint bs) :: 64 word) = le_uint bs"
  using le_uint_range [of bs] by (simp add: uint_word_of_int mod_pos_pos_trivial)

lemma word_op_bytes:
  assumes "op \<noteq> BITOP_NOT" and "length xs = 8" and "length ys = 8"
  shows "le_bytes 8 (uint (bit_op op (word_of_int (le_uint xs)) (word_of_int (le_uint ys)) :: 64 word)) = map2 (bit_op op) xs ys"
proof -
  have "uint (bit_op op (word_of_int (le_uint xs)) (word_of_int (le_uint ys)) :: 64 word) = le_uint (map2 (bit_op op) xs ys)"
    using assms bit_op_bytes [of op xs ys]
    by (cases op) (simp_all only: bit_op.simps unsigned_and_eq unsigned_or_eq unsigned_xor_eq uint_load, simp_all)
  then show ?thesis using le_bytes_le_uint [of "map2 (bit_op op) xs ys"] assms by simp
qed

lemma word_not_bytes:
  assumes "length xs = 8"
  shows "le_bytes 8 (uint (NOT (word_of_int (le_uint xs)) :: 64 word)) = map (\<lambda>b. NOT b) xs"
proof -
  have "uint (NOT (word_of_int (le_uint xs)) :: 64 word) = (2 ^ 64 - 1 - le_uint xs) mod 2 ^ 64"
    using mod_add_self2 [of "- le_uint xs - 1" "2 ^ 64"] uint_load [OF assms]
    by (simp only: unsigned_not_eq) (simp add: take_bit_eq_mod not_eq_complement)
  also have "\<dots> = 2 ^ 64 - 1 - le_uint xs" using le_uint_range [of xs] assms by (simp add: mod_pos_pos_trivial)
  also have "\<dots> = le_uint (map (\<lambda>b. NOT b) xs)" using le_uint_not [of xs] assms by simp
  finally show ?thesis using le_bytes_le_uint [of "map (\<lambda>b. NOT b) xs"] assms by simp
qed

text \<open>The bytes from \<open>a\<close> to \<open>b\<close> replaced by a function of the place and of what was there.\<close>

definition upd_range :: "(nat \<Rightarrow> byte \<Rightarrow> byte) \<Rightarrow> byte list \<Rightarrow> nat \<Rightarrow> nat \<Rightarrow> byte list" where
  "upd_range f res a b = map (\<lambda>i. if a \<le> i \<and> i < b then f i (res ! i) else res ! i) [0..<length res]"

lemma upd_range_simps [simp]:
  "length (upd_range f res a b) = length res"
  "i < length res \<Longrightarrow> upd_range f res a b ! i = (if a \<le> i \<and> i < b then f i (res ! i) else res ! i)"
  by (simp_all add: upd_range_def)

lemma upd_range_append: "a \<le> b \<Longrightarrow> b \<le> c \<Longrightarrow> upd_range f (upd_range f res a b) b c = upd_range f res a c"
  by (rule nth_equalityI) auto

lemma upd_range_twice: "upd_range g (upd_range f res a b) a b = upd_range (\<lambda>i x. g i (f i x)) res a b"
  by (rule nth_equalityI) auto

lemma upd_range_empty: "upd_range f res a a = res" "upd_range (\<lambda>i x. x) res a b = res"
  by (rule nth_equalityI; auto)+

lemma upd_range_word:
  assumes "a + 8 \<le> length res" and "ws = map (\<lambda>i. f (a + i) (res ! (a + i))) [0..<8]"
  shows "take a res @ ws @ drop (a + 8) res = upd_range f res a (a + 8)"
proof (rule nth_equalityI)
  show "length (take a res @ ws @ drop (a + 8) res) = length (upd_range f res a (a + 8))" using assms by simp
next
  fix i assume "i < length (take a res @ ws @ drop (a + 8) res)"
  then show "(take a res @ ws @ drop (a + 8) res) ! i = upd_range f res a (a + 8) ! i"
    using assms by (auto simp: nth_append)
qed

lemma fast_word_eq:
  assumes "op \<noteq> BITOP_NOT" and "a + 8 \<le> length res" and "a + 8 \<le> length src"
  shows "fast_word op res src a = Some (upd_range (\<lambda>i x. bit_op op x (src ! i)) res a (a + 8))"
proof -
  have "map2 (bit_op op) (take 8 (drop a res)) (take 8 (drop a src)) =
      map (\<lambda>i. bit_op op (res ! (a + i)) (src ! (a + i))) [0..<8]"
    using assms(2,3) by (intro nth_equalityI) auto
  then show ?thesis
    using assms word_op_bytes [of op "take 8 (drop a res)" "take 8 (drop a src)"] upd_range_word [of a res]
    by (simp add: fast_word_def load64_def store64_def del: upt_rec_numeral)
qed

lemma not_word_eq:
  assumes "a + 8 \<le> length res"
  shows "not_word res a = Some (upd_range (\<lambda>i x. NOT x) res a (a + 8))"
proof -
  have "map (\<lambda>b. NOT b) (take 8 (drop a res)) = map (\<lambda>i. NOT (res ! (a + i))) [0..<8]"
    using assms by (intro nth_equalityI) auto
  then show ?thesis
    using assms word_not_bytes [of "take 8 (drop a res)"] upd_range_word [of a res]
    by (simp add: not_word_def load64_def store64_def del: upt_rec_numeral)
qed

lemma fast_four_eq:
  assumes "op \<noteq> BITOP_NOT" and "j + 32 \<le> length res" and "j + 32 \<le> length src"
  shows "fast_four op res src j = Some (upd_range (\<lambda>i x. bit_op op x (src ! i)) res j (j + 32))"
  using assms by (simp add: fast_four_def fast_word_eq upd_range_append add.assoc)

lemma not_round_eq: "j + 32 \<le> length res \<Longrightarrow> not_round res j = Some (upd_range (\<lambda>i x. NOT x) res j (j + 32))"
  by (simp add: not_round_def not_word_eq upd_range_append add.assoc)

lemma fast_round_eq:
  "op \<noteq> BITOP_NOT \<Longrightarrow> j + 32 \<le> length res \<Longrightarrow> list_all (\<lambda>src. j + 32 \<le> length src) srcs \<Longrightarrow>
   fast_round op res srcs j = Some (upd_range (\<lambda>i x. fold (\<lambda>src out. bit_op op out (src ! i)) srcs x) res j (j + 32))"
  by (induction srcs arbitrary: res) (simp_all add: upd_range_empty fast_four_eq upd_range_twice comp_def id_def)

text \<open>What the operation makes of the byte of the first source at a place that all sources have.\<close>

definition fast_byte :: "bitop \<Rightarrow> byte list list \<Rightarrow> nat \<Rightarrow> byte \<Rightarrow> byte" where
  "fast_byte op srcs i x =
     (if op = BITOP_NOT then NOT x else fold (\<lambda>src out. bit_op op out (src ! i)) (tl srcs) x)"

lemma fast_loop_eq:
  "j + minlen \<le> length res \<Longrightarrow> list_all (\<lambda>src. j + minlen \<le> length src) srcs \<Longrightarrow>
   fast_loop op res srcs j minlen =
     Some (upd_range (fast_byte op srcs) res j (j + 32 * (minlen div 32)), j + 32 * (minlen div 32))"
proof (induction op res srcs j minlen rule: fast_loop.induct)
  case (1 op res srcs j minlen)
  show ?case
  proof (cases "minlen \<ge> 32")
    case True
    let ?r = "upd_range (fast_byte op srcs) res j (j + 32)"
    have "list_all (\<lambda>src. j + 32 \<le> length src) (tl srcs)"
      using "1.prems"(2) True by (cases srcs) (auto simp: list_all_iff)
    then have r: "(if op = BITOP_NOT then not_round res j else fast_round op res (tl srcs) j) = Some ?r"
      using "1.prems"(1) True by (auto simp: not_round_eq fast_round_eq fast_byte_def [abs_def])
    have e: "32 * (minlen div 32) = 32 + 32 * ((minlen - 32) div 32)" using True by (simp add: le_div_geq)
    have "fast_loop op ?r srcs (j + 32) (minlen - 32) =
      Some (upd_range (fast_byte op srcs) ?r (j + 32) (j + 32 + 32 * ((minlen - 32) div 32)), j + 32 + 32 * ((minlen - 32) div 32))"
      using "1.prems" True r by (intro "1.IH") auto
    then show ?thesis
      by (subst fast_loop.simps) (simp add: r True upd_range_append e add.assoc)
  next
    case False
    then show ?thesis by (subst fast_loop.simps) (simp add: upd_range_empty)
  qed
qed

lemma fast_byte_slow:
  assumes "srcs \<noteq> []" and "list_all (\<lambda>src. i < length src) srcs"
  shows "fast_byte op srcs i (hd srcs ! i) = slow_byte op srcs i"
proof -
  obtain x xs where s: "srcs = x # xs" using assms(1) by (cases srcs) auto
  have not: "fold (\<lambda>src out. bit_op BITOP_NOT out (byte_at src i)) ys b = b" for ys b by (induction ys) auto
  have "fold (\<lambda>src out. bit_op op out (src ! i)) xs b = fold (\<lambda>src out. bit_op op out (byte_at src i)) xs b" for b
    using assms(2) s by (intro fold_cong) (auto simp: byte_at_def list_all_iff)
  then show ?thesis using assms(2) s not by (simp add: fast_byte_def slow_byte_def byte_at_def Let_def)
qed

text \<open>The same for single bits.\<close>

fun bool_op :: "bitop \<Rightarrow> bool list \<Rightarrow> bool" where
  "bool_op BITOP_AND ps = list_all (\<lambda>p. p) ps"
| "bool_op BITOP_OR ps = list_ex (\<lambda>p. p) ps"
| "bool_op BITOP_XOR ps = odd (length (filter (\<lambda>p. p) ps))"
| "bool_op BITOP_NOT ps = (\<not> hd ps)"

lemma byte_at_bit: "bit (byte_at src (i div 8)) (7 - i mod 8) = get_bit_at src i"
  by (auto simp: byte_at_def get_bit_at_eq)

lemma fold_bit:
  "op \<noteq> BITOP_NOT \<Longrightarrow> bit (fold (\<lambda>src out. bit_op op out (byte_at src (i div 8))) xs (byte_at x (i div 8))) (7 - i mod 8) =
     bool_op op (get_bit_at x i # map (\<lambda>src. get_bit_at src i) xs)"
proof (induction xs rule: rev_induct)
  case (snoc y ys)
  then show ?case
    by (cases op) (auto simp: bit_and_iff bit_or_iff bit_xor_iff byte_at_bit)
qed (cases op; simp add: byte_at_bit)

lemma bitop_bits:
  assumes "srcs \<noteq> []"
  shows "get_bit_at (map (slow_byte op srcs) [0..<maxlen]) i \<longleftrightarrow>
    i < 8 * maxlen \<and> bool_op op (map (\<lambda>src. get_bit_at src i) srcs)"
proof -
  obtain x xs where s: "srcs = x # xs" using assms by (cases srcs) auto
  have not: "fold (\<lambda>src out. bit_op BITOP_NOT out (byte_at src i)) ys b = b" for ys b i by (induction ys) auto
  have "7 - i mod 8 < 8" by linarith
  have "bit (slow_byte op srcs (i div 8)) (7 - i mod 8) = bool_op op (map (\<lambda>src. get_bit_at src i) srcs)"
    using fold_bit [of op i xs x] not \<open>7 - i mod 8 < 8\<close> by (cases op) (simp_all add: slow_byte_def s bit_not_iff byte_at_bit)
  moreover have "i < 8 * maxlen \<Longrightarrow> i div 8 < maxlen" by linarith
  ultimately show ?thesis by (auto simp: get_bit_at_eq [of "map _ _"])
qed

lemma fast_path_eq:
  assumes srcs: "srcs \<noteq> []" and minlen: "list_all (\<lambda>src. minlen \<le> length src) srcs" and maxlen: "minlen \<le> maxlen"
  shows "bitop_result op srcs minlen maxlen = Some (map (slow_byte op srcs) [0..<maxlen])"
proof (cases "minlen \<noteq> 0 \<and> length srcs \<le> 16")
  case True
  let ?res = "take minlen (hd srcs) @ drop minlen (replicate maxlen 0)" and ?j = "32 * (minlen div 32)"
  have hd: "minlen \<le> length (hd srcs)" using srcs minlen by (cases srcs) auto
  have j: "?j \<le> minlen" by simp
  have len: "length ?res = maxlen" using hd maxlen by simp
  have "upd_range (fast_byte op srcs) ?res 0 ?j ! i = slow_byte op srcs i" if "i < ?j" for i
  proof -
    have i: "i < minlen" using that j by (rule less_le_trans)
    then have "list_all (\<lambda>src. i < length src) srcs" using minlen by (auto simp: list_all_iff)
    then show ?thesis using i that hd maxlen fast_byte_slow [OF srcs, of i op] by (simp add: nth_append)
  qed
  then have "take ?j (upd_range (fast_byte op srcs) ?res 0 ?j) = map (slow_byte op srcs) [0..<?j]"
    using j maxlen len by (intro nth_equalityI) auto
  moreover have "[0..<maxlen] = [0..<?j] @ [?j..<maxlen]"
    using j maxlen upt_add_eq_append [of 0 ?j "maxlen - ?j"] by simp
  moreover have "fast_loop op ?res srcs 0 minlen = Some (upd_range (fast_byte op srcs) ?res 0 ?j, ?j)"
    using fast_loop_eq [of 0 minlen ?res srcs op] minlen maxlen len by simp
  ultimately show ?thesis using True len by (simp add: bitop_result_def slow_loop_def)
next
  case False
  then show ?thesis by (auto simp: bitop_result_def slow_loop_def)
qed

text \<open>C29. The words of 64 bits that \<^verbatim>\<open>BITOP\<close> combines as far as all its sources reach never reach outside a string, and
  the result is, byte for byte, the one of the simple loop: at each place the operation on the bytes of the sources there,
  with zero where a source has ended.\<close>

theorem bitop_fast_path_correct:
  assumes "srcs \<noteq> []" and "list_all (\<lambda>src. minlen \<le> length src) srcs" and "minlen \<le> maxlen"
  shows "bitop_result op srcs minlen maxlen = Some (map (slow_byte op srcs) [0..<maxlen])"
  using fast_path_eq [OF assms] .

theorem bitop_fast_path_correct_witness:
  "bitop_result BITOP_XOR [replicate 40 0xF0, replicate 33 0x3C] 33 40 =
     Some (map (slow_byte BITOP_XOR [replicate 40 0xF0, replicate 33 0x3C]) [0..<40])"
  by (rule bitop_fast_path_correct) simp_all

end
