(* ===== verification/Bitops.thy ===== *)
theory Bitops
  imports T_String_Correct Bits
begin

unbundle bit_operations_syntax

section \<open>The bit commands (\<^verbatim>\<open>bitops.c\<close>)\<close>

text \<open>
  \<^verbatim>\<open>SETBIT\<close>, \<^verbatim>\<open>GETBIT\<close>, \<^verbatim>\<open>BITOP\<close> and \<^verbatim>\<open>BITCOUNT\<close> on the key space, over the bit operations of \<open>Bits\<close>,
  with the contracts of the command table and what they store and reply.
\<close>

definition to_bytes :: "string \<Rightarrow> byte list" where
  "to_bytes s = map (\<lambda>ch. of_nat (of_char ch)) s"

definition of_bytes :: "byte list \<Rightarrow> string" where
  "of_bytes bs = map (\<lambda>b. char_of (unat b)) bs"

text \<open>The offset or the error.\<close>

definition getBitOffsetFromArgument :: "string \<Rightarrow> string + nat" where
  "getBitOffsetFromArgument t =
     (let err = ''bit offset is not an integer or out of range'' in
      case getLongLongFromObjectOrReply (Some (createStringObject 0 t)) (Some err) of
        Inl msg \<Rightarrow> Inl msg
      | Inr loffset \<Rightarrow>
          if loffset < 0 \<or> drop_bit 3 loffset \<ge> 512 * 1024 * 1024 then Inl err else Inr (nat loffset))"

definition setbitCommand :: "'o rvalue redisServer \<Rightarrow> nat \<Rightarrow> 'o rvalue redisServer option" where
  "setbitCommand s c = do {
     cl \<leftarrow> sv_clients s c;
     key \<leftarrow> arg cl 1;
     a1 \<leftarrow> arg cl 2;
     a2 \<leftarrow> arg cl 3;
     let err = ''bit is not an integer or out of range'';
     case getBitOffsetFromArgument a1 of
       Inl msg \<Rightarrow> Some (addReply s c (R_Error msg))
     | Inr bitoffset \<Rightarrow>
         (case getLongFromObjectOrReply (Some (createStringObject 0 a2)) (Some err) of
            Inl msg \<Rightarrow> Some (addReply s c (R_Error msg))
          | Inr on \<Rightarrow>
              if on AND NOT 1 \<noteq> 0 then Some (addReply s c (R_Error err))
              else do {
                (s1, val) \<leftarrow> lookupKeyWrite s (c_db cl) key;
                case val of
                  Some (OtherObj _) \<Rightarrow> Some (addReply s1 c (R_Error shared_wrongtypeerr))
                | _ \<Rightarrow> do {
                    let (bs, old) = set_bit_at (to_bytes (case val of Some (StrObj v) \<Rightarrow> val_text v | _ \<Rightarrow> [])) bitoffset (on AND 1 \<noteq> 0);
                    let ob = StrObj (EncRaw (of_bytes bs));
                    s2 \<leftarrow> (if val = None then dbAdd s1 (c_db cl) key ob else dbOverwrite s1 (c_db cl) key ob);
                    s3 \<leftarrow> signalModifiedKey s2 (c_db cl) key;
                    Some (addReply (incr_dirty 1 s3) c (R_Int (if old then 1 else 0)))
                  }
              })
   }"

definition getbitCommand :: "'o rvalue redisServer \<Rightarrow> nat \<Rightarrow> 'o rvalue redisServer option" where
  "getbitCommand s c = do {
     cl \<leftarrow> sv_clients s c;
     key \<leftarrow> arg cl 1;
     a \<leftarrow> arg cl 2;
     case getBitOffsetFromArgument a of
       Inl msg \<Rightarrow> Some (addReply s c (R_Error msg))
     | Inr bitoffset \<Rightarrow> do {
         (s1, val) \<leftarrow> lookupKeyReadOrReply s c key (R_Int 0);
         Some (case val of
             None \<Rightarrow> s1
           | Some (OtherObj _) \<Rightarrow> addReply s1 c (R_Error shared_wrongtypeerr)
           | Some (StrObj v) \<Rightarrow> addReply s1 c (R_Int (if get_bit_at (to_bytes (val_text v)) bitoffset then 1 else 0)))
       }
   }"

definition parse_bitop :: "string \<Rightarrow> bitop option" where
  "parse_bitop opname =
     (if strcaseeq opname ''and'' then Some BITOP_AND
      else if strcaseeq opname ''or'' then Some BITOP_OR
      else if strcaseeq opname ''xor'' then Some BITOP_XOR
      else if strcaseeq opname ''not'' then Some BITOP_NOT
      else None)"

text \<open>The loop that looks the sources up: the strings, with an empty one for a missing key, and the longest and the
  shortest length; or the type error.\<close>

fun bitop_keys ::
  "'o rvalue redisServer \<Rightarrow> nat \<Rightarrow> string list \<Rightarrow> byte list list \<Rightarrow> nat \<Rightarrow> nat \<Rightarrow>
   ('o rvalue redisServer \<times> (byte list list \<times> nat \<times> nat) option) option" where
  "bitop_keys s d [] srcs minlen maxlen = Some (s, Some (srcs, minlen, maxlen))"
| "bitop_keys s d (key # keys) srcs minlen maxlen = do {
     (s1, val) \<leftarrow> lookupKeyRead s d key;
     case val of
       None \<Rightarrow> bitop_keys s1 d keys (srcs @ [[]]) 0 maxlen
     | Some (OtherObj _) \<Rightarrow> Some (s1, None)
     | Some (StrObj v) \<Rightarrow>
         (let bs = to_bytes (val_text v) in
          bitop_keys s1 d keys (srcs @ [bs])
            (if srcs = [] \<or> length bs < minlen then length bs else minlen) (if length bs > maxlen then length bs else maxlen))
   }"

definition bitopCommand :: "'o rvalue redisServer \<Rightarrow> nat \<Rightarrow> 'o rvalue redisServer option" where
  "bitopCommand s c = do {
     cl \<leftarrow> sv_clients s c;
     opname \<leftarrow> arg cl 1;
     targetkey \<leftarrow> arg cl 2;
     case parse_bitop opname of
       None \<Rightarrow> Some (addReply s c (R_Error shared_syntaxerr))
     | Some op \<Rightarrow>
         if op = BITOP_NOT \<and> length (c_argv cl) \<noteq> 4
         then Some (addReply s c (R_Error ''BITOP NOT must be called with a single source key.''))
         else do {
           (s1, r) \<leftarrow> bitop_keys s (c_db cl) (drop 3 (c_argv cl)) [] 0 0;
           case r of
             None \<Rightarrow> Some (addReply s1 c (R_Error shared_wrongtypeerr))
           | Some (srcs, minlen, maxlen) \<Rightarrow> do {
               s2 \<leftarrow> (if maxlen \<noteq> 0 then do {
                   res \<leftarrow> bitop_result op srcs minlen maxlen;
                   setKey s1 (c_db cl) targetkey (StrObj (EncRaw (of_bytes res)))
                 } else do {
                   (s2, deleted) \<leftarrow> dbDelete s1 (c_db cl) targetkey;
                   if deleted then signalModifiedKey s2 (c_db cl) targetkey else Some s2
                 });
               Some (addReply (incr_dirty 1 s2) c (R_Int (int maxlen)))
             }
         }
   }"

text \<open>The range of \<^verbatim>\<open>BITCOUNT\<close>, and the count of its bits.\<close>

definition count_range :: "byte list \<Rightarrow> int \<Rightarrow> int \<Rightarrow> nat option" where
  "count_range bs start stop =
     (if start > stop then Some 0
      else if 0 \<le> start \<and> stop < int (length bs)
      then Some (popcount (take (nat (stop - start + 1)) (drop (nat start) bs))) else None)"

text \<open>The range that the arguments name, or the error.\<close>

definition bitcount_args :: "int \<Rightarrow> string list \<Rightarrow> string + int \<times> int" where
  "bitcount_args slen argv =
     (case argv of
        [_, _, a1, a2] \<Rightarrow>
          (case (long_arg a1, long_arg a2) of
             (Inl msg, _) \<Rightarrow> Inl msg
           | (_, Inl msg) \<Rightarrow> Inl msg
           | (Inr start0, Inr end0) \<Rightarrow>
               let start1 = (if start0 < 0 then slen + start0 else start0);
                   end1 = (if end0 < 0 then slen + end0 else end0);
                   start = (if start1 < 0 then 0 else start1);
                   end2 = (if end1 < 0 then 0 else end1);
                   end3 = (if end2 \<ge> slen then slen - 1 else end2)
               in Inr (start, end3))
      | [_, _] \<Rightarrow> Inr (0, slen - 1)
      | _ \<Rightarrow> Inl shared_syntaxerr)"

definition bitcountCommand :: "'o rvalue redisServer \<Rightarrow> nat \<Rightarrow> 'o rvalue redisServer option" where
  "bitcountCommand s c = do {
     cl \<leftarrow> sv_clients s c;
     key \<leftarrow> arg cl 1;
     (s1, val) \<leftarrow> lookupKeyReadOrReply s c key (R_Int 0);
     case val of
       None \<Rightarrow> Some s1
     | Some (OtherObj _) \<Rightarrow> Some (addReply s1 c (R_Error shared_wrongtypeerr))
     | Some (StrObj v) \<Rightarrow>
         (let bs = to_bytes (val_text v) in
          case bitcount_args (int (length bs)) (c_argv cl) of
            Inl msg \<Rightarrow> Some (addReply s1 c (R_Error msg))
          | Inr (start, stop) \<Rightarrow> do {
              n \<leftarrow> count_range bs start stop;
              Some (addReply s1 c (R_Int (int n)))
            })
   }"

subsection \<open>The contract of the command table\<close>

lemma setbit_ctr: "ensures (setbitCommand s c) (ctr c s)"
  unfolding setbitCommand_def
  by (intro str_ens ens_ops [where c = c and ?s0.0 = s] ctr_refl ctr_steps; (assumption | simp))

lemma getbit_ctr: "ensures (getbitCommand s c) (ctr c s)"
  unfolding getbitCommand_def
  by (intro str_ens lookupKeyReadOrReply_ctr [where c = c and ?s0.0 = s] ctr_refl ctr_steps)
     (auto intro: ctr_steps split: option.splits rvalue.splits)

lemma bitop_keys_ctr: "ctr c s0 s \<Longrightarrow> ensures (bitop_keys s d ks srcs m n) (\<lambda>(s', r). ctr c s0 s')"
proof (induction ks arbitrary: s srcs m n)
  case (Cons k ks)
  show ?case
    unfolding bitop_keys.simps
    by (intro str_ens ens_ops [where c = c and ?s0.0 = s0] Cons) (use Cons.prems in simp_all)
qed simp

lemma ens_bitop_keys:
  "ctr c s0 s \<Longrightarrow> (\<And>s' r. ctr c s0 s' \<Longrightarrow> Q (s', r)) \<Longrightarrow> ensures (bitop_keys s d ks srcs m n) Q"
  by (rule ensures_mono [OF bitop_keys_ctr]) auto

lemma bitop_ctr: "ensures (bitopCommand s c) (ctr c s)"
  unfolding bitopCommand_def
  by (intro str_ens ens_bitop_keys [where c = c and ?s0.0 = s] ens_setKey [where c = c and ?s0.0 = s]
      ens_ops [where c = c and ?s0.0 = s] ensures_any [of "bitop_result _ _ _ _"] ctr_refl ctr_steps; (assumption | simp))

lemma bitcount_ctr: "ensures (bitcountCommand s c) (ctr c s)"
  unfolding bitcountCommand_def Let_def
  by (intro str_ens lookupKeyReadOrReply_ctr [where c = c and ?s0.0 = s] ctr_refl ctr_steps ensures_any [of "count_range _ _ _"]; assumption)

text \<open>The rows of the command table.\<close>

definition bit_table :: "(string \<times> ('o rvalue redisServer \<Rightarrow> nat \<Rightarrow> 'o rvalue redisServer option)) list" where
  "bit_table =
     [(''setbit'', setbitCommand),
      (''getbit'', getbitCommand),
      (''bitop'', bitopCommand),
      (''bitcount'', bitcountCommand)]"

lemma bit_table_ctr: "map_of bit_table n = Some p \<Longrightarrow> ensures (p s c) (ctr c s)"
  by (drule map_of_SomeD) (auto simp: bit_table_def intro: setbit_ctr getbit_ctr bitop_ctr bitcount_ctr)

subsection \<open>Correctness\<close>

lemma to_bytes_of_bytes [simp]: "to_bytes (of_bytes bs) = bs"
proof -
  have "of_nat (of_char (char_of (unat b))) = (b :: byte)" for b
  proof -
    have "unat b < 256" using unsigned_less [of b] by simp
    then have "of_char (char_of (unat b)) = unat b" by (simp add: of_char_of)
    then show ?thesis by simp
  qed
  then show ?thesis by (simp add: to_bytes_def of_bytes_def comp_def)
qed

lemma of_bytes_to_bytes [simp]: "of_bytes (to_bytes t) = t"
proof -
  have "char_of (unat (of_nat (of_char ch) :: byte)) = ch" for ch
    by (simp add: unsigned_of_nat take_bit_eq_mod)
  then show ?thesis by (simp add: to_bytes_def of_bytes_def comp_def)
qed

lemma length_bytes [simp]: "length (to_bytes t) = length t" "length (of_bytes bs) = length bs"
  by (simp_all add: to_bytes_def of_bytes_def)

text \<open>The bytes that commands see under a key; a missing key is an empty string.\<close>

definition key_bytes :: "'o rvalue redisServer \<Rightarrow> nat \<Rightarrow> string \<Rightarrow> byte list" where
  "key_bytes s d k = to_bytes (case live s d k of Some (StrObj v) \<Rightarrow> val_text v | _ \<Rightarrow> [])"

lemma long_arg_any_msg: "long_arg a = Inr v \<Longrightarrow> getLongFromObjectOrReply (Some (createStringObject 0 a)) msg = Inr v"
  by (auto simp: long_arg_def getLongFromObjectOrReply_def getLongLongFromObjectOrReply_def split: sum.splits option.splits if_splits)

text \<open>\<^verbatim>\<open>SETBIT\<close> with an offset and a bit in range writes exactly that bit: every other bit of the string reads as
  before, the string grows with zero bytes just as far as needed, the reply is the bit that was there, and the expire
  time, the other keys and the watching clients are treated as by the other commands that change a string.\<close>

theorem setbitCommand_correct:
  assumes ok: "server_ok s" and c: "sv_clients s c = Some cl" and argv: "c_argv cl = [name, k, a1, a2]"
    and a1: "getBitOffsetFromArgument a1 = Inr off" and a2: "long_arg a2 = Inr on" and on: "on = 0 \<or> on = 1"
    and str: "\<forall>x. live s (c_db cl) k \<noteq> Some (OtherObj x)"
  shows "\<exists>s' bs. setbitCommand s c = Some s' \<and>
    stored s c (c_db cl) k (StrObj (EncRaw (of_bytes bs))) (kept_expire s (c_db cl) k)
      (R_Int (if get_bit_at (key_bytes s (c_db cl) k) off then 1 else 0)) s' \<and>
    length bs = max (length (key_bytes s (c_db cl) k)) (off div 8 + 1) \<and>
    (\<forall>j. get_bit_at bs j \<longleftrightarrow> (if j = off then on = 1 else get_bit_at (key_bytes s (c_db cl) k) j))"
proof -
  let ?d = "c_db cl" and ?old = "key_bytes s (c_db cl) k"
  define bs where "bs = fst (set_bit_at ?old off (on = 1))"
  have d: "?d < length (sv_db s)" by (rule server_ok_client_db [OF ok c])
  have args: "arg cl 1 = Some k" "arg cl 2 = Some a1" "arg cl 3 = Some a2" using argv by (simp_all add: arg_def)
  have bit: "on AND NOT 1 = 0" "(on AND 1 \<noteq> 0) = (on = 1)" using on by auto
  have sb: "set_bit_at ?old off (on = 1) = (bs, get_bit_at ?old off)"
    using set_bit_at_old [of ?old off "on = 1"] by (simp add: bs_def prod_eq_iff)
  note a2' = long_arg_any_msg [OF a2]
  have "setbitCommand s c =
      Some (store s c ?d k (StrObj (EncRaw (of_bytes bs))) (R_Int (if get_bit_at ?old off then 1 else 0)))"
  proof (cases "live s ?d k")
    case None
    then have "set_bit_at (to_bytes []) off (on = 1) = (bs, get_bit_at ?old off)" using sb by (simp add: key_bytes_def)
    then show ?thesis using None c args a1 a2' bit d lookups_eq [OF ok d, of k] put_eq [OF ok d, of k]
      by (simp add: setbitCommand_def signal_eq store_def Let_def)
  next
    case (Some x)
    then obtain v where v: "x = StrObj v" using str by (cases x) auto
    then have "set_bit_at (to_bytes (val_text v)) off (on = 1) = (bs, get_bit_at ?old off)" using sb Some by (simp add: key_bytes_def)
    then show ?thesis using v Some c args a1 a2' bit d lookups_eq [OF ok d, of k] put_eq [OF ok d, of k]
      by (simp add: setbitCommand_def signal_eq store_def Let_def)
  qed
  then show ?thesis
    using store_ok [OF ok d] set_bit_at_bits [of ?old off "on = 1"] set_bit_at_length [of ?old off "on = 1"]
    unfolding bs_def [symmetric] by blast
qed

text \<open>The bits of the combination are looked up without changing what commands see.\<close>

definition longest :: "byte list list \<Rightarrow> nat" where
  "longest srcs = foldr max (map length srcs) 0"

lemma longest_snoc: "longest (srcs @ [bs]) = max (longest srcs) (length bs)"
  unfolding longest_def by (induction srcs) auto

definition lens_ok :: "byte list list \<Rightarrow> nat \<Rightarrow> nat \<Rightarrow> bool" where
  "lens_ok srcs m n \<longleftrightarrow> list_all (\<lambda>src. m \<le> length src) srcs \<and> n = longest srcs \<and> m \<le> n"

lemma lens_ok_snoc:
  "lens_ok srcs m n \<Longrightarrow>
   lens_ok (srcs @ [bs]) (if srcs = [] \<or> length bs < m then length bs else m) (if length bs > n then length bs else n)"
  "lens_ok srcs m n \<Longrightarrow> lens_ok (srcs @ [[]]) 0 n"
  by (auto simp: lens_ok_def longest_snoc list_all_iff max_def split: if_splits)

lemma bitop_keys_ok:
  assumes "server_ok s" and "d < length (sv_db s)" and "lens_ok srcs m n" and "\<forall>k\<in>set ks. \<forall>x. live s d k \<noteq> Some (OtherObj x)"
  shows "\<exists>s1 m' n'. bitop_keys s d ks srcs m n = Some (s1, Some (srcs @ map (key_bytes s d) ks, m', n')) \<and>
    lens_ok (srcs @ map (key_bytes s d) ks) m' n' \<and> server_ok s1 \<and> live s1 = live s \<and> sv_clients s1 = sv_clients s \<and>
    length (sv_db s1) = length (sv_db s)"
  using assms
proof (induction ks arbitrary: s srcs m n)
  case (Cons k ks)
  obtain s1 where s1: "lookupKeyRead s d k = Some (s1, live s d k)" "server_ok s1" "live s1 = live s" "sv_clients s1 = sv_clients s"
    "length (sv_db s1) = length (sv_db s)" using lookupKeyRead_ok [OF Cons.prems(1,2), of k] by blast
  have same: "key_bytes s1 d = key_bytes s d" using s1(3) by (simp add: fun_eq_iff key_bytes_def)
  have next_ok: "\<exists>s2 m2 n2. bitop_keys s1 d ks (srcs @ [key_bytes s d k]) m1 n1 =
      Some (s2, Some ((srcs @ [key_bytes s d k]) @ map (key_bytes s d) ks, m2, n2)) \<and>
    lens_ok ((srcs @ [key_bytes s d k]) @ map (key_bytes s d) ks) m2 n2 \<and> server_ok s2 \<and> live s2 = live s \<and>
    sv_clients s2 = sv_clients s \<and> length (sv_db s2) = length (sv_db s)"
    if "lens_ok (srcs @ [key_bytes s d k]) m1 n1" for m1 n1
    using Cons.IH [OF s1(2) _ that] Cons.prems(2,4) s1(3-5) same by simp
  show ?case
  proof (cases "live s d k")
    case None
    then have "key_bytes s d k = []" by (simp add: key_bytes_def to_bytes_def)
    then show ?thesis using None s1(1) next_ok [of 0 n] lens_ok_snoc(2) [OF Cons.prems(3)] by simp
  next
    case (Some x)
    then obtain v where v: "x = StrObj v" using Cons.prems(4) by (cases x) auto
    have b: "key_bytes s d k = to_bytes (val_text v)" using Some v by (simp add: key_bytes_def)
    let ?m = "if srcs = [] \<or> length (key_bytes s d k) < m then length (key_bytes s d k) else m"
      and ?n = "if length (key_bytes s d k) > n then length (key_bytes s d k) else n"
    have "bitop_keys s d (k # ks) srcs m n = bitop_keys s1 d ks (srcs @ [key_bytes s d k]) ?m ?n"
      using Some v s1(1) b by (simp add: Let_def)
    then show ?thesis using next_ok [OF lens_ok_snoc(1) [OF Cons.prems(3)]] by simp
  qed
qed simp

text \<open>C30. \<^verbatim>\<open>BITOP\<close> with a known operation and keys of strings, or of nothing, stores under the target key the string as
  long as the longest source whose every bit is the operation on the bits of the sources at the same place, a
  source that has ended counting as zero, and replies its length; when all sources are empty the target key is gone.
  The command never reads or writes outside a string, and no other key changes.\<close>

theorem bitopCommand_correct:
  assumes ok: "server_ok s" and c: "sv_clients s c = Some cl" and argv: "c_argv cl = name # opname # target # keys"
    and op: "parse_bitop opname = Some op" and keys: "keys \<noteq> []" "op = BITOP_NOT \<Longrightarrow> length keys = 1"
    and str: "\<forall>k\<in>set keys. \<forall>x. live s (c_db cl) k \<noteq> Some (OtherObj x)"
    and srcs: "srcs = map (key_bytes s (c_db cl)) keys" and n: "n = longest srcs"
  shows "\<exists>s'. bitopCommand s c = Some s' \<and> server_ok s' \<and> replied s c (R_Int (int n)) s' \<and>
    (\<forall>d' k'. (d', k') \<noteq> (c_db cl, target) \<longrightarrow> live s' d' k' = live s d' k') \<and>
    (if n = 0 then live s' (c_db cl) target = None
     else \<exists>res. live s' (c_db cl) target = Some (StrObj (EncRaw (of_bytes res))) \<and> length res = n \<and>
       (\<forall>i < 8 * n. get_bit_at res i \<longleftrightarrow> bool_op op (map (\<lambda>src. get_bit_at src i) srcs)))"
proof -
  let ?d = "c_db cl" and ?res = "map (slow_byte op srcs) [0..<n]"
  have d: "?d < length (sv_db s)" by (rule server_ok_client_db [OF ok c])
  have args: "arg cl 1 = Some opname" "arg cl 2 = Some target" "drop 3 (c_argv cl) = keys" "length (c_argv cl) = length keys + 3"
    using argv by (simp_all add: arg_def)
  have "lens_ok [] 0 0" by (simp add: lens_ok_def longest_def)
  then obtain s1 m where s1: "bitop_keys s ?d keys [] 0 0 = Some (s1, Some (srcs, m, n))" and lens: "lens_ok srcs m n" and
    ok1: "server_ok s1" and same: "live s1 = live s" "sv_clients s1 = sv_clients s" "length (sv_db s1) = length (sv_db s)"
    using bitop_keys_ok [OF ok d _ str] srcs n by (fastforce simp: lens_ok_def)
  have not_args: "\<not> (op = BITOP_NOT \<and> length (c_argv cl) \<noteq> 4)" using keys(2) args(4) by auto
  show ?thesis
  proof (cases "n = 0")
    case True
    let ?s2 = "del_key s1 ?d target"
    let ?s3 = "if lookupKey s1 ?d target \<noteq> None then touch ?s2 ?d target else ?s2"
    have run: "bitopCommand s c = Some (addReply (incr_dirty 1 ?s3) c (R_Int (int n)))"
      using c args not_args s1 op True d same(3) by (auto simp: bitopCommand_def dbDelete_eq signal_eq)
    have q: "quiet s1 ?s2" by (rule quiet_del_key)
    have ok2: "server_ok ?s2" by (rule quiet_server_ok [OF q ok1])
    then have "server_ok ?s3" using touch_server_ok [OF ok2, of ?d target] d same(3) by simp
    moreover have "live ?s3 d' k' = (if (d', k') = (?d, target) then None else live s d' k')" for d' k'
      using same(1) by (simp add: live_del_key)
    moreover have "map_option c_reply (sv_clients ?s3 c) = map_option c_reply (sv_clients s c)"
      using touch_reply [of ?s2 ?d target c] quiet_clients [OF q] same(2) by auto
    ultimately obtain s3 where s3: "bitopCommand s c = Some (addReply (incr_dirty 1 s3) c (R_Int (int n)))" "server_ok s3"
      "\<forall>d' k'. live s3 d' k' = (if (d', k') = (?d, target) then None else live s d' k')"
      "map_option c_reply (sv_clients s3 c) = map_option c_reply (sv_clients s c)" using run by blast
    then show ?thesis using True c by (cases "sv_clients s3 c") (auto simp: replied_def)
  next
    case False
    have ne: "srcs \<noteq> []" using keys srcs by auto
    have res: "bitop_result op srcs m n = Some ?res" by (rule fast_path_eq [OF ne]) (use lens in \<open>auto simp: lens_ok_def\<close>)
    obtain s2 where s2: "setKey s1 ?d target (StrObj (EncRaw (of_bytes ?res))) = Some s2" "server_ok s2"
      "\<forall>d' k'. lookupKey s2 d' k' = (if d' = ?d \<and> k' = target then Some (StrObj (EncRaw (of_bytes ?res))) else lookupKey s1 d' k')"
      "\<forall>d' k'. expire_of s2 d' k' = (if d' = ?d \<and> k' = target then None else expire_of s1 d' k')"
      "\<forall>c. map_option c_reply (sv_clients s2 c) = map_option c_reply (sv_clients s1 c)" "sv_mstime s2 = sv_mstime s1"
      "expires_keys s2 = expires_keys s1"
      using setKey_ok [OF ok1, of ?d target "StrObj (EncRaw (of_bytes ?res))"] d same(3) by auto
    have "bitopCommand s c = Some (addReply (incr_dirty 1 s2) c (R_Int (int n)))"
      using c args not_args s1 op False res s2(1) by (auto simp: bitopCommand_def)
    moreover have "live s2 d' k' = live s d' k'" if "(d', k') \<noteq> (?d, target)" for d' k'
      using that s2(3,4,6,7) same(1) live_cong [of s2 d' k' s1] by auto
    moreover have "live s2 ?d target = Some (StrObj (EncRaw (of_bytes ?res)))" using s2(3,4) by (simp add: live_def expired_def)
    moreover have "replied s c (R_Int (int n)) (addReply (incr_dirty 1 s2) c (R_Int (int n)))"
      using s2(5) [rule_format, of c] same(2) c by (auto simp: replied_def)
    ultimately show ?thesis using False s2(2) bitop_bits [OF ne, of op n] by auto
  qed
qed

lemma count_range_ok:
  assumes args: "bitcount_args (int (length bs)) [name, k, a1, a2] = Inr (i, j)" and a: "long_arg a1 = Inr start" "long_arg a2 = Inr stop"
  shows "count_range bs i j = Some (popcount (to_bytes (str_range (of_bytes bs) start stop)))"
proof -
  define n where "n = int (length bs)"
  define e where "e = (if stop < 0 then max 0 (n + stop) else stop)"
  have i: "i = (if start < 0 then max 0 (n + start) else start)" and j: "j = (if e \<ge> n then n - 1 else e)"
    using args a by (auto simp: bitcount_args_def Let_def n_def e_def split: if_splits)
  have ie: "0 \<le> i" "0 \<le> e" "0 \<le> n" by (simp_all add: i e_def n_def)
  have r: "to_bytes (str_range (of_bytes bs) start stop) = take (nat (e - i + 1)) (drop (nat i) bs)"
  proof -
    have "str_range (of_bytes bs) start stop = take (nat (e - i + 1)) (drop (nat i) (of_bytes bs))"
      by (simp add: str_range_def Let_def i e_def n_def)
    also have "\<dots> = of_bytes (take (nat (e - i + 1)) (drop (nat i) bs))" by (simp add: of_bytes_def take_map drop_map)
    finally show ?thesis by simp
  qed
  show ?thesis
  proof (cases "i > j")
    case True
    have "take (nat (e - i + 1)) (drop (nat i) bs) = []"
    proof (cases "e \<ge> n")
      case True
      then have "length bs \<le> nat i" using \<open>i > j\<close> j n_def by auto
      then show ?thesis by simp
    next
      case False
      then have "nat (e - i + 1) = 0" using \<open>i > j\<close> j by simp
      then show ?thesis by simp
    qed
    then show ?thesis using True unfolding r by (simp only: count_range_def popcount_bytes) simp
  next
    case False
    have "take (nat (j - i + 1)) (drop (nat i) bs) = take (nat (e - i + 1)) (drop (nat i) bs)"
    proof (cases "e \<ge> n")
      case True
      then have "length (drop (nat i) bs) \<le> nat (j - i + 1)" "length (drop (nat i) bs) \<le> nat (e - i + 1)"
        using j ie by (simp_all add: n_def)
      then show ?thesis by simp
    qed (simp add: j)
    moreover have "j < n" using j by auto
    ultimately show ?thesis using False ie unfolding r by (simp add: count_range_def n_def)
  qed
qed

text \<open>\<^verbatim>\<open>BITCOUNT\<close> with a range replies the number of bits set in the part of the string that \<^verbatim>\<open>GETRANGE\<close> names by the
  same numbers, negative ones counting from the end, and never reads outside the string, whatever the numbers and
  also for the empty string.\<close>

theorem bitcountCommand_correct:
  assumes ok: "server_ok s" and c: "sv_clients s c = Some cl" and argv: "c_argv cl = [name, k, a1, a2]"
    and v: "live s (c_db cl) k = Some (StrObj v)" and a: "long_arg a1 = Inr start" "long_arg a2 = Inr stop"
    and bs: "bs = to_bytes (str_range (val_text v) start stop)"
  shows "\<exists>s'. bitcountCommand s c = Some s' \<and>
    answered s c (R_Int (int (length (filter (get_bit_at bs) [0..<8 * length bs])))) s'"
proof -
  obtain s1 where s1: "lookupKeyReadOrReply s c k (R_Int 0) = Some (s1, Some (StrObj v))" "server_ok s1" "live s1 = live s"
    "sv_clients s1 = sv_clients s"
    using readOrReply_ok [OF ok c, of k "R_Int 0"] v by auto
  have "\<exists>i j. bitcount_args (int (length (to_bytes (val_text v)))) [name, k, a1, a2] = Inr (i, j)"
    using a by (simp add: bitcount_args_def Let_def)
  then obtain i j where ij: "bitcount_args (int (length (to_bytes (val_text v)))) [name, k, a1, a2] = Inr (i, j)" by blast
  have "count_range (to_bytes (val_text v)) i j = Some (length (filter (get_bit_at bs) [0..<8 * length bs]))"
    using count_range_ok [OF ij a] by (simp add: bs count_bits)
  then have "bitcountCommand s c = Some (addReply s1 c (R_Int (int (length (filter (get_bit_at bs) [0..<8 * length bs])))))"
    using s1(1) c ij argv by (simp add: bitcountCommand_def arg_def)
  then show ?thesis using answered_after [OF s1(2-4)] by blast
qed

theorem setbitCommand_correct_witness:
  "\<exists>s' bs. setbitCommand (str_example (EncRaw ''a'') [''setbit'', ''k'', ll_repr 6, ll_repr 1]) 1 = Some s' \<and>
     lookupKey s' 0 ''k'' = Some (StrObj (EncRaw (of_bytes bs))) \<and> get_bit_at bs 6 \<and> length bs = 1"
proof -
  let ?argv = "[''setbit'', ''k'', ll_repr 6, ll_repr 1]"
  have a: "getBitOffsetFromArgument (ll_repr 6) = Inr 6" "long_arg (ll_repr 1) = Inr 1"
    using long_arg_repr [of 1] getLongLong_ll_repr [of 6 "createStringObject 0 (ll_repr 6)"]
    by (simp_all add: crange_simps getBitOffsetFromArgument_def getLongLongFromObjectOrReply_def createStringObject_def createObject_def)
  have argv: "c_argv (new_client\<lparr>c_argv := ?argv\<rparr>) = ?argv" by simp
  let ?s = "str_example (EncRaw ''a'') ?argv"
  have old: "length (key_bytes ?s 0 ''k'') = 1" by (simp add: key_bytes_def str_example_live val_text_def)
  obtain s' bs where r: "setbitCommand ?s 1 = Some s'" "lookupKey s' 0 ''k'' = Some (StrObj (EncRaw (of_bytes bs)))"
    "length bs = max (length (key_bytes ?s 0 ''k'')) (6 div 8 + 1)"
    "\<forall>j. get_bit_at bs j \<longleftrightarrow> (if j = 6 then (1::int) = 1 else get_bit_at (key_bytes ?s 0 ''k'') j)"
    using setbitCommand_correct [OF str_example_ok str_example_client argv a, of "EncRaw ''a''"]
    by (auto simp: str_example_live example_args stored_def)
  have "get_bit_at bs 6" using r(4) by (simp only:) simp
  then show ?thesis using r(1-3) old by auto
qed

theorem bitopCommand_correct_witness:
  "\<exists>s'. bitopCommand (str_example (EncRaw ''a'') [''bitop'', ''NOT'', ''dest'', ''k'']) 1 = Some s' \<and>
     (\<exists>res. live s' 0 ''dest'' = Some (StrObj (EncRaw (of_bytes res))) \<and> length res = 1)"
proof -
  let ?argv = "[''bitop'', ''NOT'', ''dest'', ''k'']" and ?s = "str_example (EncRaw ''a'') [''bitop'', ''NOT'', ''dest'', ''k'']"
  have argv: "c_argv (new_client\<lparr>c_argv := ?argv\<rparr>) = ''bitop'' # ''NOT'' # ''dest'' # [''k'']" by simp
  have op: "parse_bitop ''NOT'' = Some BITOP_NOT" by code_simp
  have n: "longest (map (key_bytes ?s 0) [''k'']) = 1"
    by (simp add: longest_def key_bytes_def str_example_live val_text_def)
  show ?thesis
    using bitopCommand_correct [OF str_example_ok str_example_client argv op, of "EncRaw ''a''" "map (key_bytes ?s 0) [''k'']" 1] n
    by (auto simp: str_example_live example_args)
qed

theorem bitcountCommand_correct_witness:
  "\<exists>s'. bitcountCommand (str_example (EncRaw ''foobar'') [''bitcount'', ''k'', ll_repr 1, ll_repr 1]) 1 = Some s' \<and>
     replied (str_example (EncRaw ''foobar'') [''bitcount'', ''k'', ll_repr 1, ll_repr 1]) 1 (R_Int 6) s'"
proof -
  let ?argv = "[''bitcount'', ''k'', ll_repr 1, ll_repr 1]"
  have a: "long_arg (ll_repr 1) = Inr 1" by (rule long_arg_repr) (simp add: crange_simps)
  have argv: "c_argv (new_client\<lparr>c_argv := ?argv\<rparr>) = ?argv" by simp
  have bs: "[0x6F] = to_bytes (str_range (val_text (EncRaw ''foobar'')) 1 1)"
    by (simp add: str_range_def val_text_def to_bytes_def)
  have "length (filter (get_bit_at [0x6F]) [0..<8 * length [0x6F :: byte]]) = 6"
    using count_bits [of "[0x6F]"] popcount_bytes [of "[0x6F]"] by (simp add: bits_in_rec bit_Suc_0_iff)
  then show ?thesis
    using bitcountCommand_correct [OF str_example_ok str_example_client argv _ a a bs]
    by (auto simp: str_example_live example_args answered_def)
qed

end
