(* ===== verification/Wire.thy ===== *)
theory Wire
  imports Bitops Protocol_Stream
begin

section \<open>Strings over the wire\<close>

text \<open>
  The parts together: bytes on a connection are parsed into commands, dispatched, executed on the key space
  and answered.  \<open>string_env\<close> is a server that knows the string and bit commands besides those of the dispatch
  table.
\<close>

definition string_env :: "nat rvalue env" where
  "string_env = \<lparr>env_other = (\<lambda>n. case map_of (string_table @ bit_table) n of Some p \<Rightarrow> p | None \<Rightarrow> (\<lambda>s c. None)),
     env_type = (\<lambda>v. case v of StrObj _ \<Rightarrow> REDIS_STRING | OtherObj _ \<Rightarrow> REDIS_LIST), env_picks = [0], env_save_ok = True,
     env_freeMemoryIfNeeded = (\<lambda>s. (s, True)), env_handleClientsBlockedOnLists = Some\<rparr>"

lemma string_other_ctr: "ensures (env_other string_env n s c) (ctr c s)"
  by (auto simp: string_env_def map_of_append map_add_Some_iff intro: string_table_ctr bit_table_ctr split: option.split)

interpretation strings: redis_env string_env
proof
  show "ensures (env_other string_env n s c) (tx_ctr c s)" for n s c
    by (rule ensures_mono [OF string_other_ctr]) (simp add: ctr_def)
qed (simp_all add: string_env_def any_ctr_refl)

interpretation strings_aof: aof_procs "aof_table string_env"
  by (rule aof_table_procs [OF strings.redis_env_axioms]) (simp add: string_other_ctr)

text \<open>What decides whether a command is executed at once.\<close>

definition mode :: "'v redisServer \<Rightarrow> string option \<times> bool \<times> bool \<times> bool \<times> bool \<times> bool \<times> nat" where
  "mode s = (sv_requirepass s, sv_maxmemory s, sv_lastbgsave_ok s, sv_masterhost s, sv_loading s, sv_lua_timedout s, sv_ready_keys s)"

definition plain :: "redisClient \<Rightarrow> bool" where
  "plain cl \<longleftrightarrow> \<not> c_multi cl \<and> \<not> c_close_after_reply cl \<and> c_pubsub_channels cl = [] \<and> c_pubsub_patterns cl = []"

definition ready :: "'v redisServer \<Rightarrow> nat \<Rightarrow> redisClient \<Rightarrow> bool" where
  "ready s c cl \<longleftrightarrow> server_ok s \<and> sv_clients s c = Some cl \<and> plain cl \<and> mode s = (None, False, True, False, False, False, 0)"

lemma mode_updates [simp]:
  "mode (upd_client s c f) = mode s" "mode (addReply s c r) = mode s" "mode (incr_dirty n s) = mode s"
  "mode (put_key s d k v) = mode s" "mode (del_exp s d k) = mode s" "mode (expire_step s d k) = mode s"
  "mode (touch s d k) = mode s" "mode (call_pre cmd cl s) = mode s"
  "mode (s\<lparr>sv_stat_keyspace_hits := n\<rparr>) = mode s" "mode (s\<lparr>sv_stat_keyspace_misses := n\<rparr>) = mode s"
  using same_data_touch [of s d k]
  by (auto simp: mode_def upd_client_def addReply_def incr_dirty_def db_updates upd_db_def expire_step_def propagateExpire_def Let_def
      same_data_def call_pre_def replicationFeedMonitors_def)

lemma mode_propagate [simp]: "mode (propagate d argv a b s) = mode s" "mode (propagate_ops ops s) = mode s"
proof -
  show p: "mode (propagate d argv a b s) = mode s" for d argv a b s by (simp add: propagate_def Let_def mode_def)
  show "mode (propagate_ops ops s) = mode s"
    unfolding propagate_ops_def by (induction ops arbitrary: s) (auto simp: p)
qed

lemma call_mode:
  assumes "call proc s c f1 f2 f3 = Some s'" and "sv_clients s c = Some cl" and "c_cmd cl = Some cmd"
    and "proc (rc_name cmd) (call_pre cmd cl s) c = Some s2"
  shows "mode s' = mode s2"
proof -
  have sl: "mode t' = mode t" if "call_slowlog f x y z t = Some t'" for f x y z and t t' :: "'a redisServer"
    using that by (auto simp: call_slowlog_def mode_def split: if_splits bind_splits)
  have cp: "mode (call_propagate f x y z w t) = mode t" "mode (call_stats f x v t) = mode t" for f x y z w v and t :: "'a redisServer"
    by (simp_all add: call_propagate_def Let_def) (simp add: call_stats_def mode_def)
  have up: "mode (t\<lparr>sv_also_propagate := x, sv_stat_numcommands := y\<rparr>) = mode t" for x y and t :: "'a redisServer"
    by (simp add: mode_def)
  show ?thesis using assms by (auto simp: call_def Let_def up cp dest: sl split: bind_splits)
qed

text \<open>A command of a client that may execute it is called.\<close>

lemma ready_executes:
  assumes r: "ready s c cl" and l: "lookupCommand name = Some cmd" "arity_ok cmd (int (length (name # args)))"
    and q: "\<not> strcaseeq name ''quit''"
    and p: "redis_procs string_env (rc_name cmd) s1 c = Some s2"
    and s1: "s1 = call_pre cmd (cl\<lparr>c_argv := name # args, c_cmd := Some cmd\<rparr>)
      (upd_client s c (\<lambda>cl. cl\<lparr>c_argv := name # args, c_cmd := Some cmd\<rparr>))"
    and s2: "server_ok s2" "mode s2 = mode s" "sv_clients s2 c = Some cl2" "plain cl2" "c_cmd cl2 = Some cmd"
  shows "\<exists>s'. server_processor string_env c s (name # args) = Some (s', False, True) \<and> ready s' c cl2 \<and>
    sv_db s' = sv_db s2 \<and> sv_clients s' = sv_clients s2"
proof -
  let ?cl = "cl\<lparr>c_argv := name # args, c_cmd := Some cmd\<rparr>"
  let ?s = "upd_client s c (\<lambda>cl. cl\<lparr>c_argv := name # args\<rparr>)"
  let ?t = "upd_client ?s c (\<lambda>cl. cl\<lparr>c_cmd := Some cmd\<rparr>)"
  have t: "?t = upd_client s c (\<lambda>cl. cl\<lparr>c_argv := name # args, c_cmd := Some cmd\<rparr>)"
    by (simp add: upd_client_def fun_eq_iff option.map_comp o_def)
  have cl: "sv_clients s c = Some cl" and pl: "plain cl" and m: "mode s = (None, False, True, False, False, False, 0)"
    using r by (simp_all add: ready_def)
  have mt: "mode ?t = (None, False, True, False, False, False, 0)" using m by simp
  have ct: "sv_clients ?t c = Some ?cl" using cl by simp
  have sl: "slowlog_ok (sv_slowlog s2)" using s2(1) by (simp add: server_ok_def)
  obtain s' where run: "call (redis_procs string_env) ?t c True True True = Some s'" "sv_db s' = sv_db s2"
      "sv_clients s' = sv_clients s2" "slowlog_ok (sv_slowlog s')"
    using call_Some [OF ct, of cmd "redis_procs string_env" s2 cl2 cmd True True True] p s2 sl unfolding s1 t [symmetric] by auto
  have m': "mode s' = (None, False, True, False, False, False, 0)"
    using call_mode [OF run(1) ct, of cmd s2] p s2(2) m unfolding s1 t [symmetric] by simp
  have "run_command string_env cmd ?t c = Some (s', True)"
    using cl pl run(1) m' by (simp add: run_command_def plain_def mode_def)
  then have "processCommand string_env ?s c = Some (s', True)"
    using cl q l mt pl by (simp add: processCommand_def arg_def admit_command_def mode_def plain_def)
  moreover have "server_ok s'" using s2(1) watch_ok_cong [OF run(2,3)] run(2,4) by (simp add: server_ok_def db_ok_def)
  ultimately show ?thesis using run(2,3) s2 m' by (auto simp: server_processor_def ready_def plain_def)
qed

lemma row_lookup:
  "\<exists>cmd. lookupCommand ''GET'' = Some cmd \<and> rc_name cmd = ''get'' \<and> arity_ok cmd 2"
  "\<exists>cmd. lookupCommand ''SET'' = Some cmd \<and> rc_name cmd = ''set'' \<and> arity_ok cmd 3"
proof -
  have "(''get'', 2, ''r'', GK_None, 1, 1, 1) \<in> set redisCommandTable" "(''set'', - 3, ''wm'', GK_NoPreload, 1, 1, 1) \<in> set redisCommandTable"
    by (simp_all add: redisCommandTable_def)
  moreover have "caseeq ''GET'' (fst (''get'', 2::int, ''r'', GK_None, 1::int, 1::int, 1::int))"
    "caseeq ''SET'' (fst (''set'', - 3::int, ''wm'', GK_NoPreload, 1::int, 1::int, 1::int))"
    by (simp_all add: caseeq_def tolower_def char_of_def bit_simps)
  ultimately have "lookupCommand ''GET'' = row_command (''get'', 2, ''r'', GK_None, 1, 1, 1)"
    "lookupCommand ''SET'' = row_command (''set'', - 3, ''wm'', GK_NoPreload, 1, 1, 1)" using lookup_row by blast+
  then show "\<exists>cmd. lookupCommand ''GET'' = Some cmd \<and> rc_name cmd = ''get'' \<and> arity_ok cmd 2"
    "\<exists>cmd. lookupCommand ''SET'' = Some cmd \<and> rc_name cmd = ''set'' \<and> arity_ok cmd 3"
    by (simp_all add: row_command_def command_flag_def arity_ok_def)
qed

lemma string_procs_lookup:
  "redis_procs string_env ''get'' = getCommand" "redis_procs string_env ''set'' = setCommand"
  by (simp_all add: redis_procs_def base_procs_def proc_table_def string_env_def string_table_def)

lemma not_quit: "\<not> strcaseeq ''GET'' ''quit''" "\<not> strcaseeq ''SET'' ''quit''"
  by (simp_all add: strcaseeq_defs tolower_def char_of_def bit_simps)

text \<open>The state after \<^verbatim>\<open>SET\<close> without options, and after \<^verbatim>\<open>GET\<close>.\<close>

lemma set_plain:
  assumes ok: "server_ok s" and c: "sv_clients s c = Some cl" and argv: "c_argv cl = [name, k, v]"
  shows "setCommand s c = Some (addReply (incr_dirty 1
    (touch (del_exp (put_key (expire_step s (c_db cl) k) (c_db cl) k (StrObj (encode_arg s v))) (c_db cl) k) (c_db cl) k)) c (R_Status ''OK''))"
proof -
  have d: "c_db cl < length (sv_db s)" by (rule server_ok_client_db [OF ok c])
  have "setKey s (c_db cl) k (StrObj (encode_arg s v)) =
      Some (touch (del_exp (put_key (expire_step s (c_db cl) k) (c_db cl) k (StrObj (encode_arg s v))) (c_db cl) k) (c_db cl) k)"
    using d server_okD(2) [OF ok]
    by (auto simp: setKey_def lookupKeyWrite_eq dbAdd_eq dbOverwrite_eq removeExpire_eq signal_eq split: option.split)
  then show ?thesis
    using c argv by (simp add: setCommand_def setGenericCommand_def set_aborts_def set_expire_arg_def arg_def)
qed

lemma set_is_served:
  assumes r: "ready s c cl"
  shows "\<exists>s' cl'. server_processor string_env c s [''SET'', k, v] = Some (s', False, True) \<and> ready s' c cl' \<and>
    c_db cl' = c_db cl \<and> c_reply cl' = c_reply cl @ [R_Status ''OK''] \<and>
    (\<exists>x. lookupKey s' (c_db cl) k = Some (StrObj x) \<and> val_text x = v) \<and> expire_of s' (c_db cl) k = None"
proof -
  obtain cmd where cmd: "lookupCommand ''SET'' = Some cmd" "rc_name cmd = ''set''" "arity_ok cmd 3" using row_lookup(2) by blast
  let ?cl = "cl\<lparr>c_argv := [''SET'', k, v], c_cmd := Some cmd\<rparr>"
  define s1 where "s1 = call_pre cmd ?cl (upd_client s c (\<lambda>cl. cl\<lparr>c_argv := [''SET'', k, v], c_cmd := Some cmd\<rparr>))"
  have ok: "server_ok s" and c: "sv_clients s c = Some cl" using r by (simp_all add: ready_def)
  have ok1: "server_ok s1"
    using server_ok_client [OF ok, of "\<lambda>cl. cl\<lparr>c_argv := [''SET'', k, v], c_cmd := Some cmd\<rparr>" c] call_pre_any
    by (auto simp: s1_def any_ctr_def)
  have c1: "sv_clients s1 c = Some ?cl" using c by (simp add: s1_def)
  have d: "c_db cl < length (sv_db s1)" using server_ok_client_db [OF ok1 c1] by simp
  let ?t = "touch (del_exp (put_key (expire_step s1 (c_db cl) k) (c_db cl) k (StrObj (encode_arg s1 v))) (c_db cl) k) (c_db cl) k"
  define s2 where "s2 = addReply (incr_dirty 1 ?t) c (R_Status ''OK'')"
  have run: "setCommand s1 c = Some s2" using set_plain [OF ok1 c1] by (simp add: s2_def)
  have ok2: "server_ok s2" using ensuresD [OF string_procs_ctr(2) run] ok1 by (simp add: ctr_def tx_ctr_def)
  have m: "mode s2 = mode s" by (simp add: s2_def s1_def)
  define b where "b = (c \<in> set (watchers (del_exp (put_key (expire_step s1 (c_db cl) k) (c_db cl) k (StrObj (encode_arg s1 v))) (c_db cl) k) (c_db cl) k))"
  define cl2 where "cl2 = ?cl\<lparr>c_dirty_cas := (b \<or> c_dirty_cas cl), c_reply := c_reply cl @ [R_Status ''OK'']\<rparr>"
  have c2: "sv_clients s2 c = Some cl2" using c1 by (simp add: s2_def touch_clients cl2_def b_def)
  have "plain cl2" "c_cmd cl2 = Some cmd" using r by (simp_all add: cl2_def plain_def ready_def)
  moreover have "redis_procs string_env (rc_name cmd) s1 c = Some s2" using run cmd(2) by (simp add: string_procs_lookup)
  ultimately obtain s' where s': "server_processor string_env c s [''SET'', k, v] = Some (s', False, True)" "ready s' c cl2"
      "sv_db s' = sv_db s2"
    using ready_executes [OF r cmd(1) _ not_quit(2) _ s1_def ok2 m c2] cmd(3) by auto
  have "lookupKey s' (c_db cl) k = lookupKey s2 (c_db cl) k" "expire_of s' (c_db cl) k = expire_of s2 (c_db cl) k"
    using s'(3) by (simp_all add: lookupKey_def expire_of_def get_db_def)
  then show ?thesis using s' d encode_arg_text [of s1 v] by (auto simp: s2_def cl2_def)
qed

lemma get_is_served:
  assumes r: "ready s c cl" and l: "live s (c_db cl) k = Some (StrObj x)"
  shows "\<exists>s' cl'. server_processor string_env c s [''GET'', k] = Some (s', False, True) \<and> ready s' c cl' \<and>
    c_reply cl' = c_reply cl @ [R_Bulk (val_text x)]"
proof -
  obtain cmd where cmd: "lookupCommand ''GET'' = Some cmd" "rc_name cmd = ''get''" "arity_ok cmd 2" using row_lookup(1) by blast
  let ?cl = "cl\<lparr>c_argv := [''GET'', k], c_cmd := Some cmd\<rparr>"
  define s1 where "s1 = call_pre cmd ?cl (upd_client s c (\<lambda>cl. cl\<lparr>c_argv := [''GET'', k], c_cmd := Some cmd\<rparr>))"
  have ok: "server_ok s" and c: "sv_clients s c = Some cl" using r by (simp_all add: ready_def)
  have ok1: "server_ok s1"
    using server_ok_client [OF ok, of "\<lambda>cl. cl\<lparr>c_argv := [''GET'', k], c_cmd := Some cmd\<rparr>" c] call_pre_any
    by (auto simp: s1_def any_ctr_def)
  have c1: "sv_clients s1 c = Some ?cl" using c by (simp add: s1_def)
  have "live s1 (c_db cl) k = live s (c_db cl) k"
    by (rule live_cong) (auto simp: s1_def call_pre_def replicationFeedMonitors_def lookupKey_def expire_of_def get_db_def upd_client_def expires_keys_def)
  then have l1: "live s1 (c_db cl) k = Some (StrObj x)" using l by simp
  then have st: "expire_step s1 (c_db cl) k = s1" "lookupKey s1 (c_db cl) k = Some (StrObj x)" using live_Some_step [of s1 "c_db cl" k] by auto
  have d: "c_db cl < length (sv_db s1)" using server_ok_client_db [OF ok1 c1] by simp
  define s2 where "s2 = addReply (s1\<lparr>sv_stat_keyspace_hits := sv_stat_keyspace_hits s1 + 1\<rparr>) c (R_Bulk (val_text x))"
  have "lookupKeyWrite s1 (c_db cl) k = Some (s1, Some (StrObj x))" using lookups_eq [OF ok1 d] st l1 by simp
  then have run: "getCommand s1 c = Some s2"
    using c1 st by (auto simp: getCommand_def getGenericCommand_def lookupKeyReadOrReply_def lookupKeyRead_def lookupKeyWrite_def arg_def
        s2_def split: bind_splits)
  have ok2: "server_ok s2" using ensuresD [OF string_procs_ctr(1) run] ok1 by (simp add: ctr_def tx_ctr_def)
  have m: "mode s2 = mode s" by (simp add: s2_def s1_def)
  define cl2 where "cl2 = ?cl\<lparr>c_reply := c_reply cl @ [R_Bulk (val_text x)]\<rparr>"
  have c2: "sv_clients s2 c = Some cl2" using c1 by (simp add: s2_def cl2_def)
  have "plain cl2" "c_cmd cl2 = Some cmd" using r by (simp_all add: cl2_def plain_def ready_def)
  moreover have "redis_procs string_env (rc_name cmd) s1 c = Some s2" using run cmd(2) by (simp add: string_procs_lookup)
  ultimately obtain s' where "server_processor string_env c s [''GET'', k] = Some (s', False, True)" "ready s' c cl2"
    using ready_executes [OF r cmd(1) _ not_quit(1) _ s1_def ok2 m c2] cmd(3) by auto
  then show ?thesis by (auto simp: cl2_def)
qed

text \<open>C2. End to end: when a client whose commands are executed sends the bytes of \<^verbatim>\<open>SET k v\<close> and \<^verbatim>\<open>GET k\<close>, for any key and any
  value up to 512 megabytes with any bytes in them, cut into reads of any sizes, then its replies are
  \<^verbatim>\<open>OK\<close> and exactly the value, the connection stays open, and the reader is as new.\<close>

theorem set_get_over_the_wire:
  assumes r: "ready s c cl" and k: "length k \<le> 512 * 1024 * 1024" "length v \<le> 512 * 1024 * 1024"
    and ns: "length (encoding [[''SET'', k, v], [''GET'', k]]) \<le> length ns"
  shows "\<exists>s' cl' p. receive (server_processor string_env c) s new_reader (encoding [[''SET'', k, v], [''GET'', k]]) ns =
      Some (s', Some (new_reader\<lparr>rd_querybuf_peak := p\<rparr>)) \<and>
    sv_clients s' c = Some cl' \<and> c_reply cl' = c_reply cl @ [R_Status ''OK'', R_Bulk v] \<and> \<not> c_close_after_reply cl'"
proof -
  obtain s1 cl1 x where s1: "server_processor string_env c s [''SET'', k, v] = Some (s1, False, True)" "ready s1 c cl1"
      "c_db cl1 = c_db cl" "c_reply cl1 = c_reply cl @ [R_Status ''OK'']" "lookupKey s1 (c_db cl) k = Some (StrObj x)" "val_text x = v"
      "expire_of s1 (c_db cl) k = None"
    using set_is_served [OF r, of k v] by blast
  then have "live s1 (c_db cl1) k = Some (StrObj x)" by (simp add: live_def expired_def)
  then obtain s2 cl2 where s2: "server_processor string_env c s1 [''GET'', k] = Some (s2, False, True)" "ready s2 c cl2"
      "c_reply cl2 = c_reply cl1 @ [R_Bulk (val_text x)]"
    using get_is_served [OF s1(2)] by blast
  have "serve (server_processor string_env c) s [[''SET'', k, v], [''GET'', k]] = Some (s2, False)" using s1(1) s2(1) by simp
  moreover have "\<forall>cmd \<in> set [[''SET'', k, v], [''GET'', k]]. sendable cmd" using k by (auto simp: sendable_def)
  ultimately obtain p where "receive (server_processor string_env c) s new_reader (encoding [[''SET'', k, v], [''GET'', k]]) ns =
      Some (s2, Some (new_reader\<lparr>rd_querybuf_peak := p\<rparr>))"
    using server.requests_arrive [OF _ _ ns, of string_env c s s2] by blast
  then show ?thesis using s2 s1(4,6) by (auto simp: ready_def plain_def)
qed

theorem set_get_over_the_wire_witness:
  "\<exists>s' cl' r'. receive (server_processor string_env 1) (createClient (initServer 0) 1) new_reader (encoding [[''SET'', ''k'', ''007''], [''GET'', ''k'']])
      (replicate (length (encoding [[''SET'', ''k'', ''007''], [''GET'', ''k'']])) 3) = Some (s', Some r') \<and>
    sv_clients s' 1 = Some cl' \<and> c_reply cl' = [R_Status ''OK'', R_Bulk ''007'']"
proof -
  have "ready (createClient (initServer 0 :: nat rvalue redisServer) 1) 1 new_client"
    using init_client_ok [of 0 1, where 'a = "nat rvalue"]
    by (simp add: ready_def createClient_def plain_def new_client_def mode_def initServer_def)
  from set_get_over_the_wire [OF this, of "''k''" "''007''" "replicate (length (encoding [[''SET'', ''k'', ''007''], [''GET'', ''k'']])) 3"]
  show ?thesis by (auto simp: new_client_def)
qed

end
