(* ===== verification/Output.thy ===== *)
theory Output
  imports Server
begin

section \<open>Reply buffers (\<^verbatim>\<open>networking.c\<close>)\<close>

text \<open>
  Replies are queued in a buffer of fixed size in the client and, once something is in it, in a list of
  strings; the event loop writes both to the socket, as much at a time as the socket takes.  A node of
  the list whose string is NULL holds the place of the length of a multi bulk reply that is filled in
  later; it has a number that stands for its address.  The string of a node comes with the size of its block,
  which \<^verbatim>\<open>zmalloc_size\<close> reports; \<open>oe_new\<close> and \<open>oe_cat\<close> of the environment are the sizes of the
  block of a new string and of a string after appending (and duplicating, when it was shared).  The
  list of the clients to close is the flag \<open>o_close_asap\<close> of each client.  A connection accepts a number
  of bytes at each write; \<open>None\<close> is a failed assertion, a NULL dereference or an access outside a table.
\<close>

definition REDIS_REPLY_CHUNK_BYTES :: nat where "REDIS_REPLY_CHUNK_BYTES = 16 * 1024"
definition REDIS_MAX_WRITE_PER_EVENT :: nat where "REDIS_MAX_WRITE_PER_EVENT = 1024 * 64"
definition REDIS_SHARED_BULKHDR_LEN :: int where "REDIS_SHARED_BULKHDR_LEN = 32"
definition ULONG_MAX :: int where "ULONG_MAX = 18446744073709551615"

datatype limit_class = CLASS_NORMAL | CLASS_SLAVE | CLASS_PUBSUB

record outEnv =
  oe_hard_limit_bytes :: "limit_class \<Rightarrow> int"
  oe_soft_limit_bytes :: "limit_class \<Rightarrow> int"
  oe_soft_limit_seconds :: "limit_class \<Rightarrow> int"
  oe_unixtime :: int
  oe_new :: "string \<Rightarrow> nat"
  oe_cat :: "string \<times> nat \<Rightarrow> string \<Rightarrow> nat"
  oe_event_ok :: bool
  oe_below_maxmemory :: bool

datatype out_node = Chunk string nat | Hole nat

record clientOutput =
  o_fd :: int
  o_lua_client :: bool
  o_master :: bool
  o_slave :: bool
  o_close_after_reply :: bool
  o_close_asap :: bool
  o_pubsub :: bool
  o_repl_none_or_online :: bool
  o_buf :: string
  o_reply :: "out_node list"
  o_next_hole :: nat
  o_reply_bytes :: int
  o_sentlen :: nat
  o_soft_limit_reached_time :: int
  o_lastinteraction :: int
  o_writable_event :: bool

subsection \<open>The limits of the output\<close>

definition list_item_size :: int where "list_item_size = 24 + 16"

definition getClientOutputBufferMemoryUsage :: "clientOutput \<Rightarrow> int" where
  "getClientOutputBufferMemoryUsage c = to_unsigned 64 (o_reply_bytes c + list_item_size * int (length (o_reply c)))"

definition getClientLimitClass :: "clientOutput \<Rightarrow> limit_class" where
  "getClientLimitClass c = (if o_slave c then CLASS_SLAVE else if o_pubsub c then CLASS_PUBSUB else CLASS_NORMAL)"

definition getClientLimitClassByName :: "string \<Rightarrow> limit_class option" where
  "getClientLimitClassByName name =
     (if strcaseeq name ''normal'' then Some CLASS_NORMAL
      else if strcaseeq name ''slave'' then Some CLASS_SLAVE
      else if strcaseeq name ''pubsub'' then Some CLASS_PUBSUB
      else None)"

fun getClientLimitClassName :: "limit_class \<Rightarrow> string" where
  "getClientLimitClassName CLASS_NORMAL = ''normal''"
| "getClientLimitClassName CLASS_SLAVE = ''slave''"
| "getClientLimitClassName CLASS_PUBSUB = ''pubsub''"

definition checkClientOutputBufferLimits :: "outEnv \<Rightarrow> clientOutput \<Rightarrow> clientOutput \<times> bool" where
  "checkClientOutputBufferLimits e c =
     (let used_mem = getClientOutputBufferMemoryUsage c;
          class = getClientLimitClass c;
          hard = (oe_hard_limit_bytes e class \<noteq> 0 \<and> used_mem \<ge> oe_hard_limit_bytes e class);
          soft = (oe_soft_limit_bytes e class \<noteq> 0 \<and> used_mem \<ge> oe_soft_limit_bytes e class)
      in if soft then
           (if o_soft_limit_reached_time c = 0 then (c\<lparr>o_soft_limit_reached_time := oe_unixtime e\<rparr>, hard)
            else (c, oe_unixtime e - o_soft_limit_reached_time c > oe_soft_limit_seconds e class \<or> hard))
         else (c\<lparr>o_soft_limit_reached_time := 0\<rparr>, hard))"

definition freeClientAsync :: "clientOutput \<Rightarrow> clientOutput" where
  "freeClientAsync c = (if o_close_asap c then c else c\<lparr>o_close_asap := True\<rparr>)"

definition asyncCloseClientOnOutputBufferLimitReached :: "outEnv \<Rightarrow> clientOutput \<Rightarrow> clientOutput option" where
  "asyncCloseClientOnOutputBufferLimitReached e c =
     (if \<not> o_reply_bytes c < ULONG_MAX - 1024 * 64 then None
      else if o_reply_bytes c = 0 \<or> o_close_asap c then Some c
      else let (c1, reached) = checkClientOutputBufferLimits e c in
        Some (if reached then freeClientAsync c1 else c1))"

subsection \<open>Adding to the buffers\<close>

text \<open>Whether something may be added, with the write handler installed.\<close>

definition prepareClientToWrite :: "outEnv \<Rightarrow> clientOutput \<Rightarrow> clientOutput \<times> bool" where
  "prepareClientToWrite e c =
     (if o_lua_client c then (c, True)
      else if o_fd c \<le> 0 then (c, False)
      else if o_buf c = [] \<and> o_reply c = [] \<and> o_repl_none_or_online c
      then (if oe_event_ok e then (c\<lparr>o_writable_event := True\<rparr>, True) else (c, False))
      else (c, True))"

definition u_addReplyToBuffer :: "clientOutput \<Rightarrow> string \<Rightarrow> clientOutput \<times> bool" where
  "u_addReplyToBuffer c s =
     (let available = REDIS_REPLY_CHUNK_BYTES - length (o_buf c) in
      if o_close_after_reply c then (c, True)
      else if length (o_reply c) > 0 then (c, False)
      else if length s > available then (c, False)
      else (c\<lparr>o_buf := o_buf c @ s\<rparr>, True))"

definition addNodeTail :: "outEnv \<Rightarrow> clientOutput \<Rightarrow> string \<Rightarrow> clientOutput" where
  "addNodeTail e c s =
     c\<lparr>o_reply := o_reply c @ [Chunk s (oe_new e s)], o_reply_bytes := to_unsigned 64 (o_reply_bytes c + int (oe_new e s))\<rparr>"

text \<open>\<^verbatim>\<open>_addReplyObjectToList\<close>, \<^verbatim>\<open>_addReplySdsToList\<close> and \<^verbatim>\<open>_addReplyStringToList\<close>, which differ in who owns the string only.\<close>

definition u_addReplyStringToList :: "outEnv \<Rightarrow> clientOutput \<Rightarrow> string \<Rightarrow> clientOutput option" where
  "u_addReplyStringToList e c s =
     (if o_close_after_reply c then Some c
      else
        (let c1 =
           (if length (o_reply c) = 0 then addNodeTail e c s
            else case last (o_reply c) of
                Chunk t m \<Rightarrow>
                  if length t + length s \<le> REDIS_REPLY_CHUNK_BYTES
                  then let m1 = oe_cat e (t, m) s;
                           bytes = to_unsigned 64 (o_reply_bytes c - int m)
                       in c\<lparr>o_reply := butlast (o_reply c) @ [Chunk (t @ s) m1],
                            o_reply_bytes := to_unsigned 64 (bytes + int m1)\<rparr>
                  else addNodeTail e c s
              | Hole _ \<Rightarrow> addNodeTail e c s)
         in asyncCloseClientOnOutputBufferLimitReached e c1))"

definition addReplyString :: "outEnv \<Rightarrow> clientOutput \<Rightarrow> string \<Rightarrow> clientOutput option" where
  "addReplyString e c s =
     (let (c1, ok) = prepareClientToWrite e c in
      if \<not> ok then Some c1
      else let (c2, added) = u_addReplyToBuffer c1 s in
        if added then Some c2 else u_addReplyStringToList e c2 s)"

definition addReplySds :: "outEnv \<Rightarrow> clientOutput \<Rightarrow> string \<Rightarrow> clientOutput option" where
  "addReplySds e c s =
     (case prepareClientToWrite e c of
        (c1, False) \<Rightarrow> Some c1
      | (c1, True) \<Rightarrow>
          (case u_addReplyToBuffer c1 s of
             (c2, True) \<Rightarrow> Some c2
           | (c2, False) \<Rightarrow> u_addReplyStringToList e c2 s))"

definition addReply_o :: "outEnv \<Rightarrow> clientOutput \<Rightarrow> str_val \<Rightarrow> clientOutput option" where
  "addReply_o e c obj =
     (let (c1, ok) = prepareClientToWrite e c in
      if \<not> ok then Some c1
      else case obj of
          EncRaw s \<Rightarrow>
            (let (c2, added) = u_addReplyToBuffer c1 s in if added then Some c2 else u_addReplyStringToList e c2 s)
        | EncInt n \<Rightarrow>
            (let (c2, done) =
               (if length (o_reply c1) = 0 \<and> REDIS_REPLY_CHUNK_BYTES - length (o_buf c1) \<ge> 32
                then u_addReplyToBuffer c1 (snd (ll2string 32 n)) else (c1, False))
             in if done then Some c2
                else let s = snd (ll2string 32 n); (c3, added) = u_addReplyToBuffer c2 s in
                  if added then Some c3 else u_addReplyStringToList e c3 s))"

subsection \<open>Replies\<close>

definition crlf :: string where "crlf = [CHR 0x0D, CHR 0x0A]"

definition addReplyErrorLength :: "outEnv \<Rightarrow> clientOutput \<Rightarrow> string \<Rightarrow> clientOutput option" where
  "addReplyErrorLength e c s = do {
     c1 \<leftarrow> addReplyString e c ''-ERR '';
     c2 \<leftarrow> addReplyString e c1 s;
     addReplyString e c2 crlf
   }"

definition addReplyError_o :: "outEnv \<Rightarrow> clientOutput \<Rightarrow> string \<Rightarrow> clientOutput option" where
  "addReplyError_o e c err = addReplyErrorLength e c (c_string err)"

definition addReplyStatusLength :: "outEnv \<Rightarrow> clientOutput \<Rightarrow> string \<Rightarrow> clientOutput option" where
  "addReplyStatusLength e c s = do {
     c1 \<leftarrow> addReplyString e c ''+'';
     c2 \<leftarrow> addReplyString e c1 s;
     addReplyString e c2 crlf
   }"

definition addReplyStatus :: "outEnv \<Rightarrow> clientOutput \<Rightarrow> string \<Rightarrow> clientOutput option" where
  "addReplyStatus e c status = addReplyStatusLength e c (c_string status)"

text \<open>The node that will hold the length, or NULL.\<close>

definition addDeferredMultiBulkLength :: "outEnv \<Rightarrow> clientOutput \<Rightarrow> clientOutput \<times> nat option" where
  "addDeferredMultiBulkLength e c =
     (let (c1, ok) = prepareClientToWrite e c in
      if \<not> ok then (c1, None)
      else (c1\<lparr>o_reply := o_reply c1 @ [Hole (o_next_hole c1)], o_next_hole := o_next_hole c1 + 1\<rparr>, Some (o_next_hole c1)))"

text \<open>Filling a node in, with the string of the next node appended to it; the memory counted besides.\<close>

fun fill_node :: "outEnv \<Rightarrow> nat \<Rightarrow> string \<Rightarrow> out_node list \<Rightarrow> int \<Rightarrow> (out_node list \<times> int) option" where
  "fill_node e node hdr [] bytes = None"
| "fill_node e node hdr (x # ns) bytes =
     (if x = Hole node then
        let m = oe_new e hdr; bytes1 = to_unsigned 64 (bytes + int m) in
        case ns of
          Chunk t m2 # ns2 \<Rightarrow>
            let m3 = oe_cat e (hdr, m) t;
                bytes2 = to_unsigned 64 (to_unsigned 64 (bytes1 - int m) - int m2)
            in Some (Chunk (hdr @ t) m3 # ns2, to_unsigned 64 (bytes2 + int m3))
        | _ \<Rightarrow> Some (Chunk hdr m # ns, bytes1)
      else map_option (\<lambda>(r, b). (x # r, b)) (fill_node e node hdr ns bytes))"

definition setDeferredMultiBulkLength :: "outEnv \<Rightarrow> clientOutput \<Rightarrow> nat option \<Rightarrow> int \<Rightarrow> clientOutput option" where
  "setDeferredMultiBulkLength e c node len =
     (case node of
        None \<Rightarrow> Some c
      | Some n \<Rightarrow> do {
          (r, bytes) \<leftarrow> fill_node e n (''*'' @ ll_repr len @ crlf) (o_reply c) (o_reply_bytes c);
          asyncCloseClientOnOutputBufferLimitReached e (c\<lparr>o_reply := r, o_reply_bytes := bytes\<rparr>)
        })"

text \<open>The shared objects are an array of 32 headers; another index is outside it.\<close>

definition addReplyLongLongWithPrefix :: "outEnv \<Rightarrow> clientOutput \<Rightarrow> int \<Rightarrow> char \<Rightarrow> clientOutput option" where
  "addReplyLongLongWithPrefix e c ll pre =
     (if (pre = CHR ''*'' \<or> pre = CHR ''$'') \<and> ll < REDIS_SHARED_BULKHDR_LEN
      then (if 0 \<le> ll then addReply_o e c (EncRaw ([pre] @ ll_repr ll @ crlf)) else None)
      else addReplyString e c ([pre] @ snd (ll2string 127 ll) @ crlf))"

definition addReplyLongLong :: "outEnv \<Rightarrow> clientOutput \<Rightarrow> int \<Rightarrow> clientOutput option" where
  "addReplyLongLong e c ll =
     (if ll = 0 then addReply_o e c (EncRaw ('':0'' @ crlf))
      else if ll = 1 then addReply_o e c (EncRaw ('':1'' @ crlf))
      else addReplyLongLongWithPrefix e c ll (CHR '':''))"

definition addReplyMultiBulkLen :: "outEnv \<Rightarrow> clientOutput \<Rightarrow> int \<Rightarrow> clientOutput option" where
  "addReplyMultiBulkLen e c len = addReplyLongLongWithPrefix e c len (CHR ''*'')"

text \<open>The number of digits: C division rounds towards zero, and the negation wraps around.\<close>

definition cdiv10 :: "int \<Rightarrow> int" where
  "cdiv10 n = (if n < 0 then - (- n div 10) else n div 10)"

function digits_loop :: "int \<Rightarrow> nat \<Rightarrow> nat" where
  "digits_loop n len = (if cdiv10 n = 0 then len else digits_loop (cdiv10 n) (len + 1))"
  by pat_completeness auto
termination
  by (relation "measure (\<lambda>(n, len). nat \<bar>n\<bar>)") (auto simp: cdiv10_def)

declare digits_loop.simps [simp del]

definition bulk_len :: "str_val \<Rightarrow> nat" where
  "bulk_len obj =
     (case obj of
        EncRaw s \<Rightarrow> length s
      | EncInt n \<Rightarrow> if n < 0 then digits_loop (to_signed 64 (- n)) 2 else digits_loop n 1)"

definition addReplyBulkLen :: "outEnv \<Rightarrow> clientOutput \<Rightarrow> str_val \<Rightarrow> clientOutput option" where
  "addReplyBulkLen e c obj = addReplyLongLongWithPrefix e c (int (bulk_len obj)) (CHR ''$'')"

definition addReplyBulk :: "outEnv \<Rightarrow> clientOutput \<Rightarrow> str_val \<Rightarrow> clientOutput option" where
  "addReplyBulk e c obj = do {
     c1 \<leftarrow> addReplyBulkLen e c obj;
     c2 \<leftarrow> addReply_o e c1 obj;
     addReply_o e c2 (EncRaw crlf)
   }"

definition addReplyBulkCBuffer :: "outEnv \<Rightarrow> clientOutput \<Rightarrow> string \<Rightarrow> clientOutput option" where
  "addReplyBulkCBuffer e c p = do {
     c1 \<leftarrow> addReplyLongLongWithPrefix e c (int (length p)) (CHR ''$'');
     c2 \<leftarrow> addReplyString e c1 p;
     addReply_o e c2 (EncRaw crlf)
   }"

definition addReplyBulkCString :: "outEnv \<Rightarrow> clientOutput \<Rightarrow> string option \<Rightarrow> clientOutput option" where
  "addReplyBulkCString e c s =
     (case s of
        None \<Rightarrow> addReply_o e c (EncRaw (''$-1'' @ crlf))
      | Some t \<Rightarrow> addReplyBulkCBuffer e c (c_string t))"

definition addReplyBulkLongLong :: "outEnv \<Rightarrow> clientOutput \<Rightarrow> int \<Rightarrow> clientOutput option" where
  "addReplyBulkLongLong e c ll = addReplyBulkCBuffer e c (snd (ll2string 64 ll))"

definition copyClientOutputBuffer :: "clientOutput \<Rightarrow> clientOutput \<Rightarrow> clientOutput" where
  "copyClientOutputBuffer dst src =
     dst\<lparr>o_reply := o_reply src, o_next_hole := o_next_hole src, o_buf := o_buf src, o_reply_bytes := o_reply_bytes src\<rparr>"

subsection \<open>Writing to the socket\<close>

text \<open>What a write returns when the connection accepts \<open>room\<close> bytes; not above zero when it accepts none or is broken.\<close>

definition sys_write :: "int \<Rightarrow> string \<Rightarrow> int" where
  "sys_write room s = min room (int (length s))"

text \<open>One turn of the loop: a break, or the bytes it writes and the state after it.\<close>

datatype turn = Break_on int | Skip_empty clientOutput | Wrote string int clientOutput

definition send_turn :: "int \<Rightarrow> clientOutput \<Rightarrow> turn option" where
  "send_turn room c =
     (if length (o_buf c) > 0 then
        (let rest = drop (o_sentlen c) (o_buf c);
             nwritten = (if o_master c then int (length (o_buf c)) - int (o_sentlen c) else sys_write room rest)
         in if \<not> o_master c \<and> nwritten \<le> 0 then Some (Break_on nwritten)
            else let sent = o_sentlen c + nat nwritten in
              Some (Wrote (if o_master c then [] else take (nat nwritten) rest) nwritten
                (if sent = length (o_buf c) then c\<lparr>o_buf := [], o_sentlen := 0\<rparr> else c\<lparr>o_sentlen := sent\<rparr>)))
      else
        (case o_reply c of
           Chunk t m # ns \<Rightarrow>
             (if length t = 0 then Some (Skip_empty (c\<lparr>o_reply := ns\<rparr>))
              else
                (let rest = drop (o_sentlen c) t;
                     nwritten = (if o_master c then int (length t) - int (o_sentlen c) else sys_write room rest)
                 in if \<not> o_master c \<and> nwritten \<le> 0 then Some (Break_on nwritten)
                    else let sent = o_sentlen c + nat nwritten in
                      Some (Wrote (if o_master c then [] else take (nat nwritten) rest) nwritten
                        (if sent = length t
                         then c\<lparr>o_reply := ns, o_sentlen := 0, o_reply_bytes := to_unsigned 64 (o_reply_bytes c - int m)\<rparr>
                         else c\<lparr>o_sentlen := sent\<rparr>))))
         | _ \<Rightarrow> None))"

text \<open>The loop.  \<open>rooms\<close> says how many bytes the connection accepts at each write; without an entry the write would block.\<close>

fun out_room :: "int list \<Rightarrow> int \<times> int list" where
  "out_room [] = (-1, [])"
| "out_room (r # rs) = (r, rs)"

fun send_loop ::
  "nat \<Rightarrow> outEnv \<Rightarrow> int list \<Rightarrow> clientOutput \<Rightarrow> nat \<Rightarrow> int \<Rightarrow> string \<Rightarrow> (clientOutput \<times> nat \<times> int \<times> string) option" where
  "send_loop 0 e rooms c totwritten nwritten out = None"
| "send_loop (Suc fuel) e rooms c totwritten nwritten out =
     (if o_buf c = [] \<and> o_reply c = [] then Some (c, totwritten, nwritten, out)
      else case send_turn (fst (out_room rooms)) c of
          None \<Rightarrow> None
        | Some (Break_on n) \<Rightarrow> Some (c, totwritten, n, out)
        | Some (Skip_empty c1) \<Rightarrow> send_loop fuel e rooms c1 totwritten nwritten out
        | Some (Wrote s n c1) \<Rightarrow>
            (let tot = totwritten + nat n in
             if tot > REDIS_MAX_WRITE_PER_EVENT \<and> oe_below_maxmemory e then Some (c1, tot, n, out @ s)
             else send_loop fuel e (snd (out_room rooms)) c1 tot n (out @ s)))"

text \<open>A bound on the turns: every turn sends a byte or removes a node.\<close>

fun node_size :: "out_node \<Rightarrow> nat" where
  "node_size (Chunk t m) = Suc (length t)"
| "node_size (Hole n) = 1"

definition out_size :: "clientOutput \<Rightarrow> nat" where
  "out_size c = length (o_buf c) + sum_list (map node_size (o_reply c))"

text \<open>The write handler: the client, what was written to the connection, and whether the client was freed.\<close>

definition sendReplyToClient :: "outEnv \<Rightarrow> int list \<Rightarrow> bool \<Rightarrow> clientOutput \<Rightarrow> (clientOutput \<times> string \<times> bool) option" where
  "sendReplyToClient e rooms eagain c = do {
     (c1, totwritten, nwritten, out) \<leftarrow> send_loop (Suc (out_size c)) e rooms c 0 0 [];
     if nwritten = -1 \<and> \<not> eagain then Some (c1, out, True)
     else do {
       let c2 = (if totwritten > 0 then c1\<lparr>o_lastinteraction := oe_unixtime e\<rparr> else c1);
       if o_buf c2 = [] \<and> o_reply c2 = []
       then Some (c2\<lparr>o_sentlen := 0, o_writable_event := False\<rparr>, out, o_close_after_reply c2)
       else Some (c2, out, False)
     }
   }"

end
