(* ===== verification/Output_Stream.thy ===== *)
theory Output_Stream
  imports Output
begin

section \<open>Replies arrive in order and complete\<close>

text \<open>
  What is queued for a client is a sequence of bytes with holes for the lengths that are not known yet.
  The buffer, the list and the position reached in them implement it: every addition appends to the
  sequence, filling a hole replaces it, and the write handler moves bytes from its front to the connection,
  whatever the connection accepts.
\<close>

subsection \<open>The abstraction and the invariant\<close>

fun syms :: "out_node \<Rightarrow> (char + nat) list" where
  "syms (Chunk t m) = map Inl t"
| "syms (Hole n) = [Inr n]"

definition stream :: "clientOutput \<Rightarrow> (char + nat) list" where
  "stream c = map Inl (o_buf c) @ concat (map syms (o_reply c))"

definition pend :: "clientOutput \<Rightarrow> (char + nat) list" where
  "pend c = drop (o_sentlen c) (stream c)"

fun node_holes :: "out_node \<Rightarrow> nat list" where
  "node_holes (Hole n) = [n]"
| "node_holes (Chunk t m) = []"

fun node_mem :: "out_node \<Rightarrow> int" where
  "node_mem (Chunk t m) = int m"
| "node_mem (Hole n) = 0"

text \<open>A bound on the memory of a node, and that it is one.\<close>

fun node_pot :: "int \<Rightarrow> out_node \<Rightarrow> int" where
  "node_pot K (Chunk t m) = 2 * int (length t) + K"
| "node_pot K (Hole n) = K"

definition fits :: "int \<Rightarrow> out_node \<Rightarrow> bool" where
  "fits K x \<longleftrightarrow> node_mem x \<le> node_pot K x"

definition head_pos :: "nat \<Rightarrow> string \<Rightarrow> out_node list \<Rightarrow> bool" where
  "head_pos n bs ns \<longleftrightarrow> n = 0 \<or>
     (if bs \<noteq> [] then n < length bs else case ns of Chunk t m # _ \<Rightarrow> n < length t | _ \<Rightarrow> False)"

lemma head_pos_0 [simp]: "head_pos 0 bs ns"
  by (simp add: head_pos_def)

definition head_ok :: "clientOutput \<Rightarrow> bool" where
  "head_ok c \<longleftrightarrow> head_pos (o_sentlen c) (o_buf c) (o_reply c)"

definition memory_ok :: "int \<Rightarrow> int \<Rightarrow> out_node list \<Rightarrow> int \<Rightarrow> bool" where
  "memory_ok K B ns bytes \<longleftrightarrow> list_all (fits K) ns \<and>
     sum_list (map node_mem ns) \<le> bytes \<and> sum_list (map (node_pot K) ns) + (bytes - sum_list (map node_mem ns)) \<le> B"

definition out_inv :: "int \<Rightarrow> int \<Rightarrow> clientOutput \<Rightarrow> bool" where
  "out_inv K B c \<longleftrightarrow> length (o_buf c) \<le> REDIS_REPLY_CHUNK_BYTES \<and> head_ok c \<and>
     distinct (concat (map node_holes (o_reply c))) \<and> list_all (\<lambda>n. n < o_next_hole c) (concat (map node_holes (o_reply c))) \<and>
     (o_repl_none_or_online c \<longrightarrow> o_buf c \<noteq> [] \<or> o_reply c \<noteq> [] \<longrightarrow> o_writable_event c) \<and>
     memory_ok K B (o_reply c) (o_reply_bytes c)"

text \<open>What no operation here changes.\<close>

definition conn :: "clientOutput \<Rightarrow> int \<times> bool \<times> bool \<times> bool \<times> bool \<times> bool \<times> bool" where
  "conn c = (o_fd c, o_lua_client c, o_master c, o_slave c, o_close_after_reply c, o_pubsub c, o_repl_none_or_online c)"

text \<open>A client connected to a socket and not about to be closed, and an environment in which the write handler
  can be installed and blocks are at most twice as long as their strings and \<open>K\<close> bytes.\<close>

definition normal :: "clientOutput \<Rightarrow> bool" where
  "normal c \<longleftrightarrow> o_fd c > 0 \<and> \<not> o_lua_client c \<and> \<not> o_master c \<and> \<not> o_close_after_reply c"

definition env_ok :: "int \<Rightarrow> outEnv \<Rightarrow> bool" where
  "env_ok K e \<longleftrightarrow> oe_event_ok e \<and> (\<forall>s. int (oe_new e s) \<le> 2 * int (length s) + K) \<and>
     (\<forall>t m s. int (oe_cat e (t, m) s) \<le> 2 * int (length t + length s) + K)"

lemma normal_conn: "conn c' = conn c \<Longrightarrow> normal c' = normal c"
  by (simp add: conn_def normal_def)

lemma head_ok_le: "head_ok c \<Longrightarrow> o_sentlen c \<le> length (stream c)"
  by (auto simp: head_ok_def head_pos_def stream_def split: if_splits list.splits out_node.splits)

lemma pend_append: "head_ok c \<Longrightarrow> o_sentlen c' = o_sentlen c \<Longrightarrow> stream c' = stream c @ xs \<Longrightarrow> pend c' = pend c @ xs"
  using head_ok_le [of c] by (simp add: pend_def)

lemma memory_le: "memory_ok K B ns bytes \<Longrightarrow> 0 \<le> K \<Longrightarrow> 0 \<le> bytes \<and> bytes \<le> B"
proof -
  assume a: "memory_ok K B ns bytes" "0 \<le> K"
  have "list_all (fits K) ns \<Longrightarrow> 0 \<le> sum_list (map node_mem ns) \<and> sum_list (map node_mem ns) \<le> sum_list (map (node_pot K) ns)" for ns
  proof (induction ns)
    case (Cons x ns)
    then show ?case by (cases x) (auto simp: fits_def)
  qed simp
  then show ?thesis using a unfolding memory_ok_def by fastforce
qed

subsection \<open>Adding\<close>

text \<open>The check of the limits changes neither what is queued nor the invariant.\<close>

lemma asyncClose_ok:
  assumes "o_reply_bytes c < ULONG_MAX - 1024 * 64"
  shows "\<exists>a t. asyncCloseClientOnOutputBufferLimitReached e c = Some (c\<lparr>o_close_asap := a, o_soft_limit_reached_time := t\<rparr>)"
proof -
  have "\<exists>t. fst (checkClientOutputBufferLimits e c) = c\<lparr>o_soft_limit_reached_time := t\<rparr>"
    by (cases c) (auto simp: checkClientOutputBufferLimits_def Let_def)
  then obtain t reached where c1: "checkClientOutputBufferLimits e c = (c\<lparr>o_soft_limit_reached_time := t\<rparr>, reached)"
    by (metis prod.collapse)
  show ?thesis
  proof (cases "o_reply_bytes c = 0 \<or> o_close_asap c")
    case True
    then show ?thesis using assms
      by (intro exI [of _ "o_close_asap c"] exI [of _ "o_soft_limit_reached_time c"])
         (simp add: asyncCloseClientOnOutputBufferLimitReached_def)
  next
    case False
    then show ?thesis using assms c1
      by (intro exI [of _ reached] exI [of _ t]) (simp add: asyncCloseClientOnOutputBufferLimitReached_def freeClientAsync_def)
  qed
qed

lemma limit_fields [simp]:
  "out_inv K B (c\<lparr>o_close_asap := a, o_soft_limit_reached_time := t\<rparr>) = out_inv K B c"
  "pend (c\<lparr>o_close_asap := a, o_soft_limit_reached_time := t\<rparr>) = pend c"
  "conn (c\<lparr>o_close_asap := a, o_soft_limit_reached_time := t\<rparr>) = conn c"
  by (simp_all add: out_inv_def head_ok_def pend_def stream_def conn_def)

lemma unsigned_id: "0 \<le> v \<Longrightarrow> v \<le> ULONG_MAX \<Longrightarrow> to_unsigned 64 v = v"
  by (simp add: to_unsigned_def ULONG_MAX_def)

lemma sum_node_mem: "0 \<le> sum_list (map node_mem ns)"
proof -
  have "0 \<le> node_mem x" for x by (cases x) auto
  then show ?thesis by (intro sum_list_nonneg) auto
qed

lemma memory_snoc:
  assumes "memory_ok K B ns bytes" and "int m \<le> 2 * int (length s) + K"
  shows "memory_ok K (B + 2 * int (length s) + K) (ns @ [Chunk s m]) (bytes + int m)"
  using assms by (simp add: memory_ok_def fits_def)

lemma memory_last:
  assumes "memory_ok K B (ns @ [Chunk t m]) bytes" and "int m' \<le> 2 * int (length t + length s) + K" and "0 \<le> K"
  shows "memory_ok K (B + 2 * int (length s) + K) (ns @ [Chunk (t @ s) m']) (bytes - int m + int m')" and "int m \<le> bytes"
proof -
  show "memory_ok K (B + 2 * int (length s) + K) (ns @ [Chunk (t @ s) m']) (bytes - int m + int m')"
    using assms by (simp add: memory_ok_def fits_def)
  show "int m \<le> bytes" using assms(1) sum_node_mem [of ns] by (simp add: memory_ok_def)
qed

lemma list_ok:
  assumes inv: "out_inv K B c" and e: "env_ok K e" and K: "0 \<le> K" and n: "\<not> o_close_after_reply c"
    and ev: "o_repl_none_or_online c \<longrightarrow> o_writable_event c"
    and B: "B + 2 * int (length s) + K < ULONG_MAX - 1024 * 64"
  shows "\<exists>c'. u_addReplyStringToList e c s = Some c' \<and> out_inv K (B + 2 * int (length s) + K) c' \<and>
    pend c' = pend c @ map Inl s \<and> conn c' = conn c \<and> o_next_hole c' = o_next_hole c"
proof -
  have head: "head_ok c" and mem: "memory_ok K B (o_reply c) (o_reply_bytes c)" using inv by (simp_all add: out_inv_def)
  note bytes = memory_le [OF mem K]
  have tail: "\<exists>c1. c1 = addNodeTail e c s \<and> out_inv K (B + 2 * int (length s) + K) c1 \<and> pend c1 = pend c @ map Inl s \<and>
      conn c1 = conn c \<and> o_next_hole c1 = o_next_hole c \<and> o_reply_bytes c1 < ULONG_MAX - 1024 * 64"
  proof -
    let ?c1 = "addNodeTail e c s" and ?m = "oe_new e s"
    have m: "int ?m \<le> 2 * int (length s) + K" using e by (simp add: env_ok_def)
    note mem1 = memory_snoc [OF mem m]
    have b1: "to_unsigned 64 (o_reply_bytes c + int ?m) = o_reply_bytes c + int ?m"
      using memory_le [OF mem1 K] B by (intro unsigned_id) auto
    have "head_ok ?c1" using head by (auto simp: head_ok_def head_pos_def addNodeTail_def split: if_splits list.splits)
    then have "out_inv K (B + 2 * int (length s) + K) ?c1"
      using inv mem1 ev b1 by (simp add: out_inv_def addNodeTail_def)
    moreover have "pend ?c1 = pend c @ map Inl s" by (rule pend_append [OF head]) (simp_all add: addNodeTail_def stream_def)
    ultimately show ?thesis using memory_le [OF mem1 K] B b1 by (auto simp: conn_def addNodeTail_def)
  qed
  have "\<exists>c1. u_addReplyStringToList e c s = asyncCloseClientOnOutputBufferLimitReached e c1 \<and>
      out_inv K (B + 2 * int (length s) + K) c1 \<and> pend c1 = pend c @ map Inl s \<and> conn c1 = conn c \<and>
      o_next_hole c1 = o_next_hole c \<and> o_reply_bytes c1 < ULONG_MAX - 1024 * 64"
  proof (cases "\<exists>ns t m. o_reply c = ns @ [Chunk t m] \<and> length t + length s \<le> REDIS_REPLY_CHUNK_BYTES")
    case False
    have "u_addReplyStringToList e c s = asyncCloseClientOnOutputBufferLimitReached e (addNodeTail e c s)"
    proof (cases "o_reply c" rule: rev_cases)
      case Nil
      then show ?thesis using n by (simp add: u_addReplyStringToList_def)
    next
      case (snoc ns x)
      then show ?thesis using n False by (cases x) (auto simp: u_addReplyStringToList_def)
    qed
    then show ?thesis using tail by auto
  next
    case True
    then obtain ns t m where r: "o_reply c = ns @ [Chunk t m]" and l: "length t + length s \<le> REDIS_REPLY_CHUNK_BYTES" by blast
    let ?m = "oe_cat e (t, m) s"
    let ?c1 = "c\<lparr>o_reply := ns @ [Chunk (t @ s) ?m], o_reply_bytes := o_reply_bytes c - int m + int ?m\<rparr>"
    have m: "int ?m \<le> 2 * int (length t + length s) + K" using e by (simp add: env_ok_def)
    note mem1 = memory_last [OF mem [unfolded r] m K]
    have b: "to_unsigned 64 (o_reply_bytes c - int m) = o_reply_bytes c - int m" using mem1(2) bytes B K by (intro unsigned_id) auto
    have b1: "to_unsigned 64 (o_reply_bytes c - int m + int ?m) = o_reply_bytes c - int m + int ?m"
      using memory_le [OF mem1(1) K] B by (intro unsigned_id) auto
    have "u_addReplyStringToList e c s = asyncCloseClientOnOutputBufferLimitReached e ?c1"
      using n r l b b1 by (simp add: u_addReplyStringToList_def Let_def)
    moreover have "head_ok ?c1" using head r
      by (cases ns) (auto simp: head_ok_def head_pos_def split: if_splits list.splits out_node.splits)
    then have "out_inv K (B + 2 * int (length s) + K) ?c1" using inv mem1(1) ev r by (simp add: out_inv_def)
    moreover have "pend ?c1 = pend c @ map Inl s" by (rule pend_append [OF head]) (simp_all add: stream_def r)
    ultimately show ?thesis using memory_le [OF mem1(1) K] B by (auto simp: conn_def)
  qed
  then obtain c1 where c1: "u_addReplyStringToList e c s = asyncCloseClientOnOutputBufferLimitReached e c1"
    "out_inv K (B + 2 * int (length s) + K) c1" "pend c1 = pend c @ map Inl s" "conn c1 = conn c"
    "o_next_hole c1 = o_next_hole c" "o_reply_bytes c1 < ULONG_MAX - 1024 * 64" by blast
  show ?thesis using asyncClose_ok [OF c1(6), of e] c1 by auto
qed

lemma out_inv_mono: "out_inv K B c \<Longrightarrow> B \<le> B' \<Longrightarrow> out_inv K B' c"
  by (auto simp: out_inv_def memory_ok_def)

lemma prepare_ok:
  assumes inv: "out_inv K B c" and e: "env_ok K e" and n: "normal c"
  shows "\<exists>c1. prepareClientToWrite e c = (c1, True) \<and> out_inv K B c1 \<and> pend c1 = pend c \<and> conn c1 = conn c \<and>
    o_next_hole c1 = o_next_hole c \<and> (o_repl_none_or_online c1 \<longrightarrow> o_writable_event c1)"
proof (cases "o_buf c = [] \<and> o_reply c = [] \<and> o_repl_none_or_online c")
  case True
  then show ?thesis using assms
    by (auto simp: prepareClientToWrite_def normal_def env_ok_def out_inv_def head_ok_def pend_def stream_def conn_def)
next
  case False
  then show ?thesis using assms by (auto simp: prepareClientToWrite_def normal_def out_inv_def)
qed

lemma buffer_ok:
  assumes inv: "out_inv K B c" and n: "\<not> o_close_after_reply c" and ev: "o_repl_none_or_online c \<longrightarrow> o_writable_event c"
  shows "u_addReplyToBuffer c s = (c, False) \<or>
    (\<exists>c'. u_addReplyToBuffer c s = (c', True) \<and> out_inv K B c' \<and> pend c' = pend c @ map Inl s \<and> conn c' = conn c \<and>
      o_next_hole c' = o_next_hole c)"
proof (cases "o_reply c = [] \<and> length s \<le> REDIS_REPLY_CHUNK_BYTES - length (o_buf c)")
  case True
  let ?c = "c\<lparr>o_buf := o_buf c @ s\<rparr>"
  have head: "head_ok c" using inv by (simp add: out_inv_def)
  have "out_inv K B ?c"
    using inv True ev by (auto simp: out_inv_def head_ok_def head_pos_def split: if_splits)
  moreover have "pend ?c = pend c @ map Inl s" by (rule pend_append [OF head]) (simp_all add: stream_def True)
  ultimately show ?thesis using True n by (simp add: u_addReplyToBuffer_def conn_def)
qed (use n in \<open>auto simp: u_addReplyToBuffer_def Let_def\<close>)

lemma addReplyString_ok:
  assumes inv: "out_inv K B c" and e: "env_ok K e" and K: "0 \<le> K" and n: "normal c"
    and B: "B + 2 * int (length s) + K < ULONG_MAX - 1024 * 64"
  shows "\<exists>c'. addReplyString e c s = Some c' \<and> out_inv K (B + 2 * int (length s) + K) c' \<and>
    pend c' = pend c @ map Inl s \<and> conn c' = conn c \<and> o_next_hole c' = o_next_hole c"
proof -
  obtain c1 where c1: "prepareClientToWrite e c = (c1, True)" "out_inv K B c1" "pend c1 = pend c" "conn c1 = conn c"
    "o_next_hole c1 = o_next_hole c" "o_repl_none_or_online c1 \<longrightarrow> o_writable_event c1"
    using prepare_ok [OF inv e n] by blast
  have n1: "\<not> o_close_after_reply c1" using n c1(4) by (simp add: normal_def conn_def)
  show ?thesis
  proof (cases "u_addReplyToBuffer c1 s = (c1, False)")
    case True
    then show ?thesis using list_ok [OF c1(2) e K n1 c1(6) B] c1 by (simp add: addReplyString_def)
  next
    case False
    then obtain c' where c': "u_addReplyToBuffer c1 s = (c', True)" "out_inv K B c'" "pend c' = pend c1 @ map Inl s"
      "conn c' = conn c1" "o_next_hole c' = o_next_hole c1"
      using buffer_ok [OF c1(2) n1 c1(6), of s] by blast
    have "out_inv K (B + 2 * int (length s) + K) c'" by (rule out_inv_mono [OF c'(2)]) (simp add: K)
    then show ?thesis using c' c1 by (simp add: addReplyString_def)
  qed
qed

text \<open>An object is added as its text.\<close>

lemma addReply_text:
  assumes "\<forall>n. obj = EncInt n \<longrightarrow> is_llong n"
  shows "addReply_o e c obj = addReplyString e c (val_text obj)"
proof (cases obj)
  case (EncRaw s)
  then show ?thesis by (simp add: addReply_o_def addReplyString_def val_text_def split: prod.split)
next
  case (EncInt n)
  then have t: "snd (ll2string 32 n) = ll_repr n" "val_text obj = ll_repr n"
    using assms ll2string_eq [of n 32] by (simp_all add: val_text_def)
  have same: "u_addReplyToBuffer c1 s = (c2, False) \<Longrightarrow> c2 = c1" for c1 s c2
    by (auto simp: u_addReplyToBuffer_def Let_def split: if_splits)
  obtain c1 ok where p: "prepareClientToWrite e c = (c1, ok)" by (cases "prepareClientToWrite e c")
  obtain c2 added where b: "u_addReplyToBuffer c1 (ll_repr n) = (c2, added)" by (cases "u_addReplyToBuffer c1 (ll_repr n)")
  show ?thesis using EncInt p b t same [of c1 "ll_repr n" c2]
    by (cases added) (auto simp: addReply_o_def addReplyString_def)
qed

lemma defer_ok:
  assumes inv: "out_inv K B c" and e: "env_ok K e" and K: "0 \<le> K" and n: "normal c"
  shows "\<exists>c'. addDeferredMultiBulkLength e c = (c', Some (o_next_hole c)) \<and> out_inv K (B + K) c' \<and>
    pend c' = pend c @ [Inr (o_next_hole c)] \<and> conn c' = conn c \<and> o_next_hole c' = o_next_hole c + 1"
proof -
  obtain c1 where c1: "prepareClientToWrite e c = (c1, True)" "out_inv K B c1" "pend c1 = pend c" "conn c1 = conn c"
    "o_next_hole c1 = o_next_hole c" "o_repl_none_or_online c1 \<longrightarrow> o_writable_event c1"
    using prepare_ok [OF inv e n] by blast
  let ?c = "c1\<lparr>o_reply := o_reply c1 @ [Hole (o_next_hole c1)], o_next_hole := o_next_hole c1 + 1\<rparr>"
  have head: "head_ok c1" using c1(2) by (simp add: out_inv_def)
  have "head_ok ?c" using head by (auto simp: head_ok_def head_pos_def split: if_splits list.splits out_node.splits)
  moreover have "memory_ok K (B + K) (o_reply ?c) (o_reply_bytes ?c)"
    using c1(2) K by (simp add: out_inv_def memory_ok_def fits_def)
  moreover have "distinct (concat (map node_holes (o_reply ?c)))" "list_all (\<lambda>n. n < o_next_hole ?c) (concat (map node_holes (o_reply ?c)))"
    using c1(2) by (auto simp: out_inv_def list_all_iff intro: less_SucI)
  ultimately have "out_inv K (B + K) ?c" using c1(2,6) by (simp add: out_inv_def)
  moreover have "pend ?c = pend c1 @ [Inr (o_next_hole c)]"
    by (rule pend_append [OF head]) (simp_all add: stream_def c1(5))
  ultimately show ?thesis using c1 by (simp add: addDeferredMultiBulkLength_def conn_def)
qed

subsection \<open>Filling a hole\<close>

definition fill_sym :: "nat \<Rightarrow> string \<Rightarrow> (char + nat) list \<Rightarrow> (char + nat) list" where
  "fill_sym n hdr xs = concat (map (\<lambda>x. if x = Inr n then map Inl hdr else [x]) xs)"

lemma fill_sym_append [simp]: "fill_sym n hdr (xs @ ys) = fill_sym n hdr xs @ fill_sym n hdr ys"
  by (simp add: fill_sym_def)

lemma fill_sym_Inl [simp]: "fill_sym n hdr (map Inl s) = map Inl s"
  by (induction s) (simp_all add: fill_sym_def)

lemma fill_sym_Inr [simp]: "fill_sym n hdr (Inr k # xs) = (if k = n then map Inl hdr else [Inr k]) @ fill_sym n hdr xs"
  by (simp add: fill_sym_def)

lemma fill_sym_other: "n \<notin> set (concat (map node_holes ns)) \<Longrightarrow> fill_sym n hdr (concat (map syms ns)) = concat (map syms ns)"
proof (induction ns)
  case (Cons x ns)
  then show ?case by (cases x) auto
qed (simp add: fill_sym_def)

lemma fill_node_pre:
  "Hole n \<notin> set pre \<Longrightarrow> fill_node e n hdr (pre @ ns) bytes = map_option (\<lambda>(r, b). (pre @ r, b)) (fill_node e n hdr ns bytes)"
  by (induction pre) (auto simp: option.map_comp comp_def case_prod_beta' option.map_ident)

lemma holes_split:
  assumes "n \<in> set (concat (map node_holes ns))" and "distinct (concat (map node_holes ns))"
  shows "\<exists>pre post. ns = pre @ Hole n # post \<and> n \<notin> set (concat (map node_holes pre)) \<and> n \<notin> set (concat (map node_holes post))"
proof -
  obtain x where x: "x \<in> set ns" "n \<in> set (node_holes x)" using assms(1) by auto
  from x(2) have "x = Hole n" by (cases x) auto
  then obtain pre post where "ns = pre @ Hole n # post" using x(1) by (auto dest: split_list)
  then show ?thesis using assms(2) by auto
qed

lemma fill_node_ok:
  assumes n: "n \<in> set (concat (map node_holes ns))" and d: "distinct (concat (map node_holes ns))" and mem: "memory_ok K B ns bytes"
    and e: "env_ok K e" and K: "0 \<le> K" and B: "B + 2 * int (length hdr) + K \<le> ULONG_MAX"
  shows "\<exists>ns' bytes'. fill_node e n hdr ns bytes = Some (ns', bytes') \<and>
    concat (map syms ns') = fill_sym n hdr (concat (map syms ns)) \<and>
    concat (map node_holes ns') = remove1 n (concat (map node_holes ns)) \<and>
    memory_ok K (B + 2 * int (length hdr) + K) ns' bytes' \<and>
    (\<forall>t m. hd ns = Chunk t m \<longrightarrow> hd ns' = Chunk t m) \<and> ns' \<noteq> []"
proof -
  obtain pre post where ns: "ns = pre @ Hole n # post" and pre: "n \<notin> set (concat (map node_holes pre))" and
    post: "n \<notin> set (concat (map node_holes post))" using holes_split [OF n d] by blast
  have hole: "Hole n \<notin> set pre" using pre by auto
  have view: "fill_sym n hdr (concat (map syms ns)) = concat (map syms pre) @ map Inl hdr @ concat (map syms post)"
    "remove1 n (concat (map node_holes ns)) = concat (map node_holes pre) @ concat (map node_holes post)"
    using fill_sym_other [OF pre] fill_sym_other [OF post] pre by (simp_all add: ns remove1_append)
  have hd: "\<forall>t m. hd ns = Chunk t m \<longrightarrow> hd (pre @ y # zs) = Chunk t m" for y zs by (cases pre) (auto simp: ns)
  let ?m = "oe_new e hdr"
  have m: "int ?m \<le> 2 * int (length hdr) + K" using e by (simp add: env_ok_def)
  note bytes = memory_le [OF mem K]
  have b1: "to_unsigned 64 (bytes + int ?m) = bytes + int ?m" using bytes m B by (intro unsigned_id) auto
  show ?thesis
  proof (cases "\<exists>t m2 ns2. post = Chunk t m2 # ns2")
    case False
    then have f: "fill_node e n hdr (Hole n # post) bytes = Some (Chunk hdr ?m # post, bytes + int ?m)"
      using b1 by (auto simp: Let_def split: list.splits out_node.splits)
    have run: "fill_node e n hdr ns bytes = Some (pre @ Chunk hdr ?m # post, bytes + int ?m)"
      by (simp only: ns fill_node_pre [OF hole] f option.map prod.case)
    have "memory_ok K (B + 2 * int (length hdr) + K) (pre @ Chunk hdr ?m # post) (bytes + int ?m)"
      using mem m K by (simp add: memory_ok_def ns fits_def)
    then show ?thesis using run hd [of "Chunk hdr ?m" post] unfolding view
      by (intro exI [of _ "pre @ Chunk hdr ?m # post"] exI [of _ "bytes + int ?m"]) simp
  next
    case True
    then obtain t m2 ns2 where p: "post = Chunk t m2 # ns2" by blast
    let ?m3 = "oe_cat e (hdr, ?m) t"
    have m3: "int ?m3 \<le> 2 * int (length hdr + length t) + K" using e by (simp add: env_ok_def)
    have "int m2 \<le> bytes" using mem sum_node_mem [of pre] sum_node_mem [of ns2] by (simp add: memory_ok_def ns p)
    then have b2: "to_unsigned 64 (to_unsigned 64 (bytes + int ?m - int ?m) - int m2) = bytes - int m2"
      using bytes B K by (simp add: unsigned_id)
    have mem3: "memory_ok K (B + 2 * int (length hdr) + K) (pre @ Chunk (hdr @ t) ?m3 # ns2) (bytes - int m2 + int ?m3)"
      using mem m3 K by (simp add: memory_ok_def ns p fits_def)
    have b3: "to_unsigned 64 (bytes - int m2 + int ?m3) = bytes - int m2 + int ?m3"
      using memory_le [OF mem3 K] B by (intro unsigned_id) auto
    have f: "fill_node e n hdr (Hole n # post) bytes = Some (Chunk (hdr @ t) ?m3 # ns2, bytes - int m2 + int ?m3)"
      unfolding p fill_node.simps Let_def b1 using b2 b3 by simp
    have run: "fill_node e n hdr ns bytes = Some (pre @ Chunk (hdr @ t) ?m3 # ns2, bytes - int m2 + int ?m3)"
      by (simp only: ns fill_node_pre [OF hole] f option.map prod.case)
    then show ?thesis using mem3 hd [of "Chunk (hdr @ t) ?m3" ns2] unfolding view p
      by (intro exI [of _ "pre @ Chunk (hdr @ t) ?m3 # ns2"] exI [of _ "bytes - int m2 + int ?m3"]) simp
  qed
qed

lemma taken_Inl: "head_ok c \<Longrightarrow> \<exists>s. take (o_sentlen c) (stream c) = map Inl s"
proof -
  assume h: "head_ok c"
  show ?thesis
  proof (cases "o_buf c = []")
    case False
    then have "o_sentlen c \<le> length (o_buf c)" using h by (auto simp: head_ok_def head_pos_def)
    then show ?thesis by (auto simp: stream_def take_map)
  next
    case True
    show ?thesis
    proof (cases "o_sentlen c = 0")
      case False
      then obtain t m ns where "o_reply c = Chunk t m # ns" "o_sentlen c < length t"
        using h True by (auto simp: head_ok_def head_pos_def split: list.splits out_node.splits)
      then show ?thesis using True by (auto simp: stream_def take_map)
    qed simp
  qed
qed

lemma fill_ok:
  assumes inv: "out_inv K B c" and e: "env_ok K e" and K: "0 \<le> K" and n: "Inr n \<in> set (pend c)"
    and hdr: "hdr = ''*'' @ ll_repr len @ crlf" and B: "B + 2 * int (length hdr) + K < ULONG_MAX - 1024 * 64"
  shows "\<exists>c'. setDeferredMultiBulkLength e c (Some n) len = Some c' \<and> out_inv K (B + 2 * int (length hdr) + K) c' \<and>
    pend c' = fill_sym n hdr (pend c) \<and> conn c' = conn c \<and> o_next_hole c' = o_next_hole c"
proof -
  have head: "head_ok c" and mem: "memory_ok K B (o_reply c) (o_reply_bytes c)" and
    dist: "distinct (concat (map node_holes (o_reply c)))" using inv by (simp_all add: out_inv_def)
  have "Inr n \<in> set (concat (map syms ns)) \<Longrightarrow> n \<in> set (concat (map node_holes ns))" for ns
  proof (induction ns)
    case (Cons x ns)
    then show ?case by (cases x) auto
  qed simp
  then have "n \<in> set (concat (map node_holes (o_reply c)))"
    using n in_set_dropD [of "Inr n" "o_sentlen c" "stream c"] by (auto simp: pend_def stream_def)
  from fill_node_ok [OF this dist mem e K, of hdr] B obtain ns' bytes' where
    f: "fill_node e n hdr (o_reply c) (o_reply_bytes c) = Some (ns', bytes')"
    "concat (map syms ns') = fill_sym n hdr (concat (map syms (o_reply c)))"
    "concat (map node_holes ns') = remove1 n (concat (map node_holes (o_reply c)))"
    "memory_ok K (B + 2 * int (length hdr) + K) ns' bytes'"
    "\<forall>t m. hd (o_reply c) = Chunk t m \<longrightarrow> hd ns' = Chunk t m" "ns' \<noteq> []" by auto
  let ?c = "c\<lparr>o_reply := ns', o_reply_bytes := bytes'\<rparr>"
  have h1: "head_ok ?c"
  proof (cases "o_buf c = [] \<and> o_sentlen c \<noteq> 0")
    case True
    then obtain t m ns where r: "o_reply c = Chunk t m # ns" "o_sentlen c < length t"
      using head by (auto simp: head_ok_def head_pos_def split: list.splits out_node.splits)
    then obtain ns2 where "ns' = Chunk t m # ns2" using f(5,6) by (cases ns') auto
    then show ?thesis using r True by (simp add: head_ok_def head_pos_def)
  qed (use head in \<open>auto simp: head_ok_def head_pos_def\<close>)
  have "o_reply c \<noteq> []" using \<open>n \<in> set (concat (map node_holes (o_reply c)))\<close> by auto
  then have "o_repl_none_or_online c \<longrightarrow> o_writable_event c" using inv by (simp add: out_inv_def)
  then have inv1: "out_inv K (B + 2 * int (length hdr) + K) ?c"
    using inv f(3,4) h1 by (auto simp: out_inv_def list_all_iff dest: notin_set_remove1)
  obtain s where s: "take (o_sentlen c) (stream c) = map Inl s" using taken_Inl [OF head] by blast
  have st: "stream ?c = fill_sym n hdr (stream c)" using f(2) by (simp add: stream_def)
  also have "stream c = map Inl s @ pend c" unfolding pend_def s [symmetric] by simp
  finally have "stream ?c = map Inl s @ fill_sym n hdr (pend c)" by simp
  moreover have "length s = o_sentlen c" using arg_cong [OF s, of length] head_ok_le [OF head] by simp
  ultimately have p: "pend ?c = fill_sym n hdr (pend c)" by (simp add: pend_def)
  have "o_reply_bytes ?c < ULONG_MAX - 1024 * 64" using memory_le [OF f(4) K] B by simp
  from asyncClose_ok [OF this, of e] obtain a t where
    "asyncCloseClientOnOutputBufferLimitReached e ?c = Some (?c\<lparr>o_close_asap := a, o_soft_limit_reached_time := t\<rparr>)" by blast
  then have "setDeferredMultiBulkLength e c (Some n) len = Some (?c\<lparr>o_close_asap := a, o_soft_limit_reached_time := t\<rparr>)"
    unfolding setDeferredMultiBulkLength_def hdr [symmetric] option.case f(1) Option.bind_lunit prod.case .
  then show ?thesis using inv1 p
    by (intro exI [of _ "?c\<lparr>o_close_asap := a, o_soft_limit_reached_time := t\<rparr>"]) (simp add: conn_def)
qed

subsection \<open>Sending\<close>

abbreviation no_holes :: "clientOutput \<Rightarrow> bool" where
  "no_holes c \<equiv> concat (map node_holes (o_reply c)) = []"

lemma front_moved:
  assumes "n + k \<le> length t"
  shows "map Inl (take k (drop n t)) @ drop (n + k) (map Inl t @ R) = drop n (map Inl t @ R)"
proof -
  have "drop n t = take k (drop n t) @ drop (n + k) t" by (metis append_take_drop_id drop_drop add.commute)
  then have "map Inl (drop n t) = map Inl (take k (drop n t)) @ map Inl (drop (n + k) t)" by (metis map_append)
  moreover have "drop n (map Inl t @ R) = map Inl (drop n t) @ R" "drop (n + k) (map Inl t @ R) = map Inl (drop (n + k) t) @ R"
    using assms by (simp_all add: drop_map)
  ultimately show ?thesis by (metis append_assoc)
qed

text \<open>One turn moves bytes from the front of what is queued, or removes a node without any, or the connection accepts nothing.\<close>

lemma send_turn_ok:
  assumes inv: "out_inv K B c" and n: "\<not> o_master c" and h: "no_holes c" and q: "o_buf c \<noteq> [] \<or> o_reply c \<noteq> []" and K: "0 \<le> K"
    and B: "B \<le> ULONG_MAX"
  shows "(\<exists>i. send_turn room c = Some (Break_on i) \<and> i = room \<and> room \<le> 0) \<or>
    (\<exists>c1. send_turn room c = Some (Skip_empty c1) \<and> out_inv K B c1 \<and> no_holes c1 \<and> pend c1 = pend c \<and> conn c1 = conn c \<and>
       o_next_hole c1 = o_next_hole c \<and> out_size c1 - o_sentlen c1 < out_size c - o_sentlen c) \<or>
    (\<exists>s c1. send_turn room c = Some (Wrote s (int (length s)) c1) \<and> s \<noteq> [] \<and> out_inv K B c1 \<and> no_holes c1 \<and> map Inl s @ pend c1 = pend c \<and>
       conn c1 = conn c \<and> o_next_hole c1 = o_next_hole c \<and> out_size c1 - o_sentlen c1 < out_size c - o_sentlen c)"
proof (cases "o_buf c = []")
  case False
  let ?rest = "drop (o_sentlen c) (o_buf c)"
  have lt: "o_sentlen c < length (o_buf c)" using False inv by (auto simp: out_inv_def head_ok_def head_pos_def)
  show ?thesis
  proof (cases "room \<le> 0")
    case True
    then show ?thesis using False n lt by (simp add: send_turn_def sys_write_def Let_def)
  next
    case room: False
    define k where "k = min (nat room) (length ?rest)"
    have k: "0 < k" "k \<le> length ?rest" "sys_write room ?rest = int k"
      using room lt by (auto simp: k_def sys_write_def min_def)
    let ?c1 = "if o_sentlen c + k = length (o_buf c) then c\<lparr>o_buf := [], o_sentlen := 0\<rparr> else c\<lparr>o_sentlen := o_sentlen c + k\<rparr>"
    have "send_turn room c = Some (Wrote (take k ?rest) (int k) ?c1)"
      using False n k by (simp add: send_turn_def Let_def)
    moreover have "out_inv K B ?c1" using inv k lt False by (auto simp: out_inv_def head_ok_def head_pos_def)
    moreover have "map Inl (take k ?rest) @ pend ?c1 = pend c"
      using k lt front_moved [of "o_sentlen c" k "o_buf c" "concat (map syms (o_reply c))"] by (auto simp: pend_def stream_def)
    moreover have "out_size ?c1 - o_sentlen ?c1 < out_size c - o_sentlen c" using k lt by (auto simp: out_size_def)
    ultimately show ?thesis using k h by (intro disjI2 exI [of _ "take k ?rest"] exI [of _ ?c1]) (auto simp: conn_def)
  qed
next
  case empty: True
  then obtain t m ns where r: "o_reply c = Chunk t m # ns" using q h by (cases "o_reply c") (auto elim: node_holes.elims)
  have mem: "memory_ok K B (Chunk t m # ns) (o_reply_bytes c)" using inv r by (simp add: out_inv_def)
  show ?thesis
  proof (cases "t = []")
    case True
    let ?c1 = "c\<lparr>o_reply := ns\<rparr>"
    have s0: "o_sentlen c = 0" using inv empty r True by (auto simp: out_inv_def head_ok_def head_pos_def)
    have "memory_ok K B ns (o_reply_bytes c)" using mem K True by (auto simp: memory_ok_def fits_def)
    then have "out_inv K B ?c1" using inv s0 empty r by (auto simp: out_inv_def head_ok_def head_pos_def)
    moreover have "send_turn room c = Some (Skip_empty ?c1)" using empty r True by (simp add: send_turn_def)
    ultimately show ?thesis using h r True s0 by (auto simp: pend_def stream_def conn_def out_size_def)
  next
    case False
    let ?rest = "drop (o_sentlen c) t"
    have lt: "o_sentlen c < length t" using False inv empty r by (auto simp: out_inv_def head_ok_def head_pos_def)
    show ?thesis
    proof (cases "room \<le> 0")
      case True
      then show ?thesis using False empty r n lt by (simp add: send_turn_def sys_write_def Let_def)
    next
      case room: False
      define k where "k = min (nat room) (length ?rest)"
      have k: "0 < k" "k \<le> length ?rest" "sys_write room ?rest = int k"
        using room lt by (auto simp: k_def sys_write_def min_def)
      have b: "to_unsigned 64 (o_reply_bytes c - int m) = o_reply_bytes c - int m"
        using mem sum_node_mem [of ns] memory_le [OF mem K] B by (intro unsigned_id) (auto simp: memory_ok_def)
      let ?c1 = "if o_sentlen c + k = length t then c\<lparr>o_reply := ns, o_sentlen := 0, o_reply_bytes := o_reply_bytes c - int m\<rparr>
        else c\<lparr>o_sentlen := o_sentlen c + k\<rparr>"
      have "send_turn room c = Some (Wrote (take k ?rest) (int k) ?c1)"
        using False empty r n k b by (simp add: send_turn_def Let_def)
      moreover have "memory_ok K B ns (o_reply_bytes c - int m)" using mem K by (auto simp: memory_ok_def fits_def)
      then have "out_inv K B ?c1" using inv k lt empty r by (auto simp: out_inv_def head_ok_def head_pos_def)
      moreover have "map Inl (take k ?rest) @ pend ?c1 = pend c"
        using k lt empty r front_moved [of "o_sentlen c" k t "concat (map syms ns)"] by (auto simp: pend_def stream_def)
      moreover have "out_size ?c1 - o_sentlen ?c1 < out_size c - o_sentlen c" using k lt empty r by (auto simp: out_size_def)
      ultimately show ?thesis using k h r by (intro disjI2 exI [of _ "take k ?rest"] exI [of _ ?c1]) (auto simp: conn_def)
    qed
  qed
qed

lemma send_loop_ok:
  assumes "out_inv K B c" and n: "\<not> o_master c" and "no_holes c" and K: "0 \<le> K" and B: "B \<le> ULONG_MAX"
    and "out_size c - o_sentlen c < fuel"
  shows "\<exists>c' tot' nw' s. send_loop fuel e rooms c tot nw out = Some (c', tot', nw', out @ s) \<and> map Inl s @ pend c' = pend c \<and>
    out_inv K B c' \<and> no_holes c' \<and> conn c' = conn c \<and> o_next_hole c' = o_next_hole c \<and>
    (fst (out_room rooms) > 0 \<longrightarrow> pend c \<noteq> [] \<longrightarrow> s \<noteq> [])"
  using assms
proof (induction fuel arbitrary: rooms c tot nw out)
  case (Suc fuel)
  let ?room = "fst (out_room rooms)"
  show ?case
  proof (cases "o_buf c = [] \<and> o_reply c = []")
    case True
    then have "pend c = []" by (simp add: pend_def stream_def)
    then show ?thesis using True Suc.prems(1,3) by (simp add: exI [of _ "[]"])
  next
    case False
    then have q: "o_buf c \<noteq> [] \<or> o_reply c \<noteq> []" by simp
    from send_turn_ok [OF Suc.prems(1,2,3) q K B, of ?room] consider
        (stop) i where "send_turn ?room c = Some (Break_on i)" "i = ?room" "?room \<le> 0"
      | (skip) c1 where "send_turn ?room c = Some (Skip_empty c1)" "out_inv K B c1" "no_holes c1" "pend c1 = pend c" "conn c1 = conn c"
          "o_next_hole c1 = o_next_hole c" "out_size c1 - o_sentlen c1 < out_size c - o_sentlen c"
      | (wrote) s c1 where "send_turn ?room c = Some (Wrote s (int (length s)) c1)" "s \<noteq> []" "out_inv K B c1" "no_holes c1"
          "map Inl s @ pend c1 = pend c" "conn c1 = conn c" "o_next_hole c1 = o_next_hole c"
          "out_size c1 - o_sentlen c1 < out_size c - o_sentlen c"
      by blast
    then show ?thesis
    proof cases
      case stop
      then show ?thesis using False Suc.prems(1,3) by (simp add: exI [of _ "[]"])
    next
      case skip
      have "\<not> o_master c1" "out_size c1 - o_sentlen c1 < fuel" using skip(5,7) Suc.prems(2,6) by (simp_all add: conn_def)
      from Suc.IH [OF skip(2) this(1) skip(3) K B this(2), of rooms tot nw out]
      show ?thesis using skip(1) unfolding skip(4-6) send_loop.simps if_not_P [OF False] by simp
    next
      case wrote
      let ?tot = "tot + nat (int (length s))"
      show ?thesis
      proof (cases "?tot > REDIS_MAX_WRITE_PER_EVENT \<and> oe_below_maxmemory e")
        case True
        then show ?thesis using False wrote by auto
      next
        case go: False
        have "\<not> o_master c1" "out_size c1 - o_sentlen c1 < fuel" using wrote(6,8) Suc.prems(2,6) by (simp_all add: conn_def)
        from Suc.IH [OF wrote(3) this(1) wrote(4) K B this(2), of "snd (out_room rooms)" ?tot "int (length s)" "out @ s"]
        obtain c' tot' nw' s' where "send_loop fuel e (snd (out_room rooms)) c1 ?tot (int (length s)) (out @ s) =
            Some (c', tot', nw', (out @ s) @ s')" "map Inl s' @ pend c' = pend c1" "out_inv K B c'" "no_holes c'" "conn c' = conn c1"
          "o_next_hole c' = o_next_hole c1" by blast
        then show ?thesis using False go wrote
          by (intro exI [of _ c'] exI [of _ tot'] exI [of _ nw'] exI [of _ "s @ s'"]) auto
      qed
    qed
  qed
qed simp

lemma sendReply_ok:
  assumes inv: "out_inv K B c" and n: "normal c" and h: "no_holes c" and K: "0 \<le> K" and B: "B \<le> ULONG_MAX"
  shows "\<exists>c' s. sendReplyToClient e rooms True c = Some (c', s, False) \<and> map Inl s @ pend c' = pend c \<and> out_inv K B c' \<and>
    no_holes c' \<and> conn c' = conn c \<and> o_next_hole c' = o_next_hole c \<and> (fst (out_room rooms) > 0 \<longrightarrow> pend c \<noteq> [] \<longrightarrow> s \<noteq> [])"
proof -
  have m: "\<not> o_master c" using n by (simp add: normal_def)
  have "out_size c - o_sentlen c < Suc (out_size c)" by simp
  from send_loop_ok [OF inv m h K B this, of e rooms 0 0 "[]"]
  obtain c1 tot nw s where r: "send_loop (Suc (out_size c)) e rooms c 0 0 [] = Some (c1, tot, nw, s)" "map Inl s @ pend c1 = pend c"
    "out_inv K B c1" "no_holes c1" "conn c1 = conn c" "o_next_hole c1 = o_next_hole c"
    "fst (out_room rooms) > 0 \<longrightarrow> pend c \<noteq> [] \<longrightarrow> s \<noteq> []" unfolding append_Nil by blast
  let ?c2 = "if tot > 0 then c1\<lparr>o_lastinteraction := oe_unixtime e\<rparr> else c1"
  let ?c3 = "if o_buf ?c2 = [] \<and> o_reply ?c2 = [] then ?c2\<lparr>o_sentlen := 0, o_writable_event := False\<rparr> else ?c2"
  have cl: "\<not> o_close_after_reply c1" using n r(5) by (simp add: normal_def conn_def)
  have "sendReplyToClient e rooms True c = Some (?c3, s, False)"
    using r(1) cl by (auto simp: sendReplyToClient_def Let_def)
  moreover have "out_inv K B ?c3" using r(3) by (auto simp: out_inv_def head_ok_def)
  moreover have "pend ?c3 = pend c1" by (auto simp: pend_def stream_def)
  moreover have "no_holes ?c3" "conn ?c3 = conn c" "o_next_hole ?c3 = o_next_hole c" using r(4-6) by (auto simp: conn_def)
  ultimately show ?thesis using r(2,7) by metis
qed

subsection \<open>Any history of replies\<close>

datatype out_op =
    Add outEnv string
  | AddObj outEnv str_val
  | Defer outEnv
  | Fill outEnv nat int
  | Send outEnv "int list"

text \<open>The operations on a client and what has arrived at the other end of its connection.\<close>

fun out_step :: "clientOutput \<times> string \<Rightarrow> out_op \<Rightarrow> (clientOutput \<times> string) option" where
  "out_step (c, sent) (Add e s) = map_option (\<lambda>c'. (c', sent)) (addReplyString e c s)"
| "out_step (c, sent) (AddObj e v) = map_option (\<lambda>c'. (c', sent)) (addReply_o e c v)"
| "out_step (c, sent) (Defer e) = Some (fst (addDeferredMultiBulkLength e c), sent)"
| "out_step (c, sent) (Fill e n len) = map_option (\<lambda>c'. (c', sent)) (setDeferredMultiBulkLength e c (Some n) len)"
| "out_step (c, sent) (Send e rooms) =
     (case sendReplyToClient e rooms True c of Some (c', s, False) \<Rightarrow> Some (c', sent @ s) | _ \<Rightarrow> None)"

text \<open>What they mean: a sequence of bytes and holes, and the number of holes made.\<close>

definition length_header :: "int \<Rightarrow> string" where
  "length_header len = ''*'' @ ll_repr len @ crlf"

fun abs_step :: "out_op \<Rightarrow> (char + nat) list \<times> nat \<Rightarrow> (char + nat) list \<times> nat" where
  "abs_step (Add e s) (xs, n) = (xs @ map Inl s, n)"
| "abs_step (AddObj e v) (xs, n) = (xs @ map Inl (val_text v), n)"
| "abs_step (Defer e) (xs, n) = (xs @ [Inr n], n + 1)"
| "abs_step (Fill e k len) (xs, n) = (fill_sym k (length_header len) xs, n)"
| "abs_step (Send e rooms) (xs, n) = (xs, n)"

text \<open>A hole is filled in once it is there, nothing is sent while there is one, and the memory a history takes.\<close>

fun op_ok :: "int \<Rightarrow> out_op \<Rightarrow> (char + nat) list \<times> nat \<Rightarrow> bool" where
  "op_ok K (Add e s) (xs, n) \<longleftrightarrow> env_ok K e"
| "op_ok K (AddObj e v) (xs, n) \<longleftrightarrow> env_ok K e \<and> (\<forall>i. v = EncInt i \<longrightarrow> is_llong i)"
| "op_ok K (Defer e) (xs, n) \<longleftrightarrow> env_ok K e"
| "op_ok K (Fill e k len) (xs, n) \<longleftrightarrow> env_ok K e \<and> Inr k \<in> set xs"
| "op_ok K (Send e rooms) (xs, n) \<longleftrightarrow> list_all (\<lambda>x. \<exists>ch. x = Inl ch) xs"

fun ops_ok :: "int \<Rightarrow> out_op list \<Rightarrow> (char + nat) list \<times> nat \<Rightarrow> bool" where
  "ops_ok K [] a = True"
| "ops_ok K (op # ops) a \<longleftrightarrow> op_ok K op a \<and> ops_ok K ops (abs_step op a)"

fun op_cost :: "int \<Rightarrow> out_op \<Rightarrow> int" where
  "op_cost K (Add e s) = 2 * int (length s) + K"
| "op_cost K (AddObj e v) = 2 * int (length (val_text v)) + K"
| "op_cost K (Defer e) = K"
| "op_cost K (Fill e k len) = 2 * int (length (length_header len)) + K"
| "op_cost K (Send e rooms) = 0"

definition implements :: "int \<Rightarrow> int \<Rightarrow> clientOutput \<times> string \<Rightarrow> (char + nat) list \<times> nat \<Rightarrow> bool" where
  "implements K B st a \<longleftrightarrow> out_inv K B (fst st) \<and> normal (fst st) \<and> map Inl (snd st) @ pend (fst st) = fst a \<and> o_next_hole (fst st) = snd a"

lemma no_holes_pend:
  assumes "head_ok c" and "list_all (\<lambda>x. \<exists>ch. x = Inl ch) (pend c)"
  shows "no_holes c"
proof -
  obtain s where s: "take (o_sentlen c) (stream c) = map Inl s" using taken_Inl [OF assms(1)] by blast
  have e: "stream c = map Inl s @ pend c" unfolding s [symmetric] pend_def by simp
  have "list_all (\<lambda>x. \<exists>ch. x = Inl ch) (stream c)" unfolding e using assms(2) by (auto simp: list_all_iff)
  then have all: "list_all (\<lambda>x. \<exists>ch. x = Inl ch) (concat (map syms (o_reply c)))" by (simp add: stream_def)
  have "list_all (\<lambda>x. \<exists>ch. x = Inl ch) (concat (map syms ns)) \<Longrightarrow> concat (map node_holes ns) = []" for ns
  proof (induction ns)
    case (Cons x ns)
    then show ?case by (cases x) auto
  qed simp
  then show ?thesis using all by blast
qed

lemma out_step_ok:
  assumes "implements K B st a" and K: "0 \<le> K" and op: "op_ok K op a" and B: "B + op_cost K op < ULONG_MAX - 1024 * 64"
  shows "\<exists>st'. out_step st op = Some st' \<and> implements K (B + op_cost K op) st' (abs_step op a)"
proof -
  obtain c sent where st: "st = (c, sent)" by (cases st)
  obtain xs n where a: "a = (xs, n)" by (cases a)
  have inv: "out_inv K B c" and nc: "normal c" and xs: "xs = map Inl sent @ pend c" and n: "n = o_next_hole c"
    using assms(1) by (simp_all add: implements_def st a)
  have str: "\<exists>c'. addReplyString e c s = Some c' \<and> implements K (B + (2 * int (length s) + K)) (c', sent) (xs @ map Inl s, n)"
    if e: "env_ok K e" and b: "B + (2 * int (length s) + K) < ULONG_MAX - 1024 * 64" for e s
  proof -
    obtain c' where c': "addReplyString e c s = Some c'" "out_inv K (B + 2 * int (length s) + K) c'" "pend c' = pend c @ map Inl s"
      "conn c' = conn c" "o_next_hole c' = o_next_hole c"
      using addReplyString_ok [OF inv e K nc, of s] b by (auto simp: add.assoc)
    then show ?thesis using nc normal_conn [OF c'(4)] by (simp add: implements_def xs n add.assoc)
  qed
  show ?thesis
  proof (cases op)
    case (Add e s)
    then show ?thesis using str [of e s] op B by (auto simp: st a)
  next
    case (AddObj e v)
    then have t: "addReply_o e c v = addReplyString e c (val_text v)" using op a by (intro addReply_text) auto
    show ?thesis using str [of e "val_text v"] op B AddObj by (auto simp: st a t)
  next
    case (Defer e)
    then obtain c' where "addDeferredMultiBulkLength e c = (c', Some (o_next_hole c))" "out_inv K (B + K) c'"
      "pend c' = pend c @ [Inr (o_next_hole c)]" "conn c' = conn c" "o_next_hole c' = o_next_hole c + 1"
      using defer_ok [OF inv _ K nc, of e] op a by auto
    then show ?thesis using Defer nc normal_conn [of c' c] by (simp add: st a implements_def xs n)
  next
    case (Fill e k len)
    let ?h = "length_header len"
    have "Inr k \<in> set (pend c)" using Fill op a xs by auto
    then obtain c' where "setDeferredMultiBulkLength e c (Some k) len = Some c'" "out_inv K (B + 2 * int (length ?h) + K) c'"
      "pend c' = fill_sym k ?h (pend c)" "conn c' = conn c" "o_next_hole c' = o_next_hole c"
      using fill_ok [OF inv _ K, of e k ?h len] op a Fill B by (auto simp: length_header_def)
    then show ?thesis using Fill nc normal_conn [of c' c] by (simp add: st a implements_def xs n add.assoc)
  next
    case (Send e rooms)
    then have h: "no_holes c" using op a xs inv by (intro no_holes_pend) (auto simp: out_inv_def)
    have "B \<le> ULONG_MAX" using B Send by simp
    from sendReply_ok [OF inv nc h K this, of e rooms] obtain c' s where
      c': "sendReplyToClient e rooms True c = Some (c', s, False)" "map Inl s @ pend c' = pend c" "out_inv K B c'"
      "conn c' = conn c" "o_next_hole c' = o_next_hole c" by blast
    have "map Inl (sent @ s) @ pend c' = map Inl sent @ pend c" using c'(2) by simp
    then show ?thesis using Send nc normal_conn [of c' c] c' by (simp add: st a implements_def xs n)
  qed
qed

definition fresh_output :: clientOutput where
  "fresh_output = \<lparr>o_fd = 1, o_lua_client = False, o_master = False, o_slave = False, o_close_after_reply = False,
     o_close_asap = False, o_pubsub = False, o_repl_none_or_online = True, o_buf = [], o_reply = [], o_next_hole = 0, o_reply_bytes = 0,
     o_sentlen = 0, o_soft_limit_reached_time = 0, o_lastinteraction = 0, o_writable_event = False\<rparr>"

lemma fresh_implements: "implements K 0 (fresh_output, []) ([], 0)"
  by (simp add: implements_def out_inv_def head_ok_def fresh_output_def memory_ok_def normal_def pend_def stream_def)

lemma run_ok:
  assumes "implements K B st a" and K: "0 \<le> K" and "ops_ok K ops a" and "B + sum_list (map (op_cost K) ops) < ULONG_MAX - 1024 * 64"
  shows "\<exists>st'. run_option out_step st ops = Some st' \<and> implements K (B + sum_list (map (op_cost K) ops)) st' (fold abs_step ops a)"
  using assms
proof (induction ops arbitrary: st a B)
  case (Cons op ops)
  have "0 \<le> op_cost K op" for op using K by (cases op) auto
  then have "0 \<le> sum_list (map (op_cost K) ops)" by (intro sum_list_nonneg) auto
  then have B: "B + op_cost K op < ULONG_MAX - 1024 * 64" using Cons.prems(4) by simp
  have "op_ok K op a" using Cons.prems(3) by simp
  from out_step_ok [OF Cons.prems(1) K this B] obtain st' where
    st': "out_step st op = Some st'" "implements K (B + op_cost K op) st' (abs_step op a)" by blast
  show ?case using Cons.IH [OF st'(2) K] Cons.prems(3,4) st'(1) by (simp add: add.assoc)
qed simp

text \<open>C31. Replies arrive in order and complete.  Whatever is queued for a client, by copying into its buffer or by appending to its
  list, with lengths filled in later, and however much the connection accepts at each write, what has arrived followed by
  what is still queued is the concatenation of the replies, with the lengths in their places; no assertion fails, no
  place outside the buffers is read, and the write handler is installed as long as something is queued.\<close>

theorem output_implements_stream:
  assumes K: "0 \<le> K" and ops: "ops_ok K ops ([], 0)" and cost: "sum_list (map (op_cost K) ops) < ULONG_MAX - 1024 * 64"
  shows "\<exists>c sent. run_option out_step (fresh_output, []) ops = Some (c, sent) \<and>
    map Inl sent @ pend c = fst (fold abs_step ops ([], 0)) \<and> length (o_buf c) \<le> REDIS_REPLY_CHUNK_BYTES \<and>
    (pend c \<noteq> [] \<longrightarrow> o_writable_event c \<or> \<not> o_repl_none_or_online c)"
proof -
  have "implements K 0 (fresh_output, []) ([], 0)" by (rule fresh_implements)
  from run_ok [OF this K ops] cost obtain c sent where
    r: "run_option out_step (fresh_output, []) ops = Some (c, sent)" "implements K (sum_list (map (op_cost K) ops)) (c, sent) (fold abs_step ops ([], 0))"
    by auto
  have "pend c \<noteq> [] \<Longrightarrow> o_buf c \<noteq> [] \<or> o_reply c \<noteq> []" by (auto simp: pend_def stream_def)
  then show ?thesis using r by (auto simp: implements_def out_inv_def)
qed

text \<open>An environment whose blocks are as long as their strings.\<close>

definition tight_env :: outEnv where
  "tight_env = \<lparr>oe_hard_limit_bytes = (\<lambda>_. 0), oe_soft_limit_bytes = (\<lambda>_. 0), oe_soft_limit_seconds = (\<lambda>_. 0), oe_unixtime = 0,
     oe_new = length, oe_cat = (\<lambda>x s. length (fst x) + length s), oe_event_ok = True, oe_below_maxmemory = True\<rparr>"

lemma tight_env_ok: "env_ok 0 tight_env"
  by (simp add: env_ok_def tight_env_def)

theorem output_implements_stream_witness:
  "\<exists>c sent. run_option out_step (fresh_output, []) [Defer tight_env, AddObj tight_env (EncInt 7), Fill tight_env 0 1, Send tight_env [2]] = Some (c, sent) \<and>
     map Inl sent @ pend c = map Inl (length_header 1) @ map Inl (ll_repr 7)"
proof -
  let ?ops = "[Defer tight_env, AddObj tight_env (EncInt 7), Fill tight_env 0 1, Send tight_env [2]]"
  have l: "is_llong 7" "is_llong 1" by (simp_all add: crange_simps)
  have "ops_ok 0 ?ops ([], 0)"
    using l by (simp add: tight_env_ok) (auto simp: fill_sym_def list_all_iff split: if_splits)
  moreover have "sum_list (map (op_cost 0) ?ops) < ULONG_MAX - 1024 * 64"
    using ll_repr_length [OF l(1)] ll_repr_length [OF l(2)] by (simp add: val_text_def length_header_def crlf_def ULONG_MAX_def)
  moreover have "fst (fold abs_step ?ops ([], 0)) = map Inl (length_header 1) @ map Inl (ll_repr 7)"
    by (simp add: val_text_def)
  ultimately show ?thesis using output_implements_stream [of 0 ?ops] by auto
qed

subsection \<open>Everything queued is sent\<close>

lemma drain_steps:
  assumes "implements K B (c, sent) a" and K: "0 \<le> K" and "no_holes c" and B: "B < ULONG_MAX - 1024 * 64"
    and "length (pend c) \<le> length evs" and "list_all (\<lambda>(e, rooms). fst (out_room rooms) > 0) evs"
  shows "\<exists>c' s. run_option out_step (c, sent) (map (\<lambda>(e, rooms). Send e rooms) evs) = Some (c', sent @ s) \<and>
    map Inl s = pend c \<and> pend c' = []"
  using assms
proof (induction evs arbitrary: c sent)
  case (Cons ev evs)
  obtain e rooms where ev: "ev = (e, rooms)" by (cases ev)
  have inv: "out_inv K B c" and nc: "normal c" using Cons.prems(1) by (simp_all add: implements_def)
  have "B \<le> ULONG_MAX" using B by simp
  from sendReply_ok [OF inv nc Cons.prems(3) K this, of e rooms] obtain c1 s where
    c1: "sendReplyToClient e rooms True c = Some (c1, s, False)" "map Inl s @ pend c1 = pend c" "out_inv K B c1" "no_holes c1"
    "conn c1 = conn c" "o_next_hole c1 = o_next_hole c" "fst (out_room rooms) > 0 \<longrightarrow> pend c \<noteq> [] \<longrightarrow> s \<noteq> []" by blast
  have "implements K B (c1, sent @ s) a"
    using Cons.prems(1) c1(3,6) normal_conn [OF c1(5)] by (simp add: implements_def flip: c1(2))
  moreover have "length (pend c1) \<le> length evs"
    using Cons.prems(5,6) c1(7) arg_cong [OF c1(2), of length] ev by (cases "pend c = []") (auto simp: neq_Nil_conv)
  ultimately obtain c' s' where "run_option out_step (c1, sent @ s) (map (\<lambda>(e, rooms). Send e rooms) evs) = Some (c', (sent @ s) @ s')"
    "map Inl s' = pend c1" "pend c' = []" using Cons.IH [OF _ K c1(4) B] Cons.prems(6) by fastforce
  then show ?case using c1(1,2) ev by (intro exI [of _ c'] exI [of _ "s @ s'"]) simp
qed simp

text \<open>C32. Nothing queued is stuck.  After any history of replies with all lengths filled in, as many write events as bytes are queued,
  on a connection that accepts at least a byte at each, deliver everything that is queued, in order.\<close>

theorem replies_drain:
  assumes K: "0 \<le> K" and ops: "ops_ok K ops ([], 0)" and cost: "sum_list (map (op_cost K) ops) < ULONG_MAX - 1024 * 64"
    and filled: "list_all (\<lambda>x. \<exists>ch. x = Inl ch) (fst (fold abs_step ops ([], 0)))"
    and evs: "length (fst (fold abs_step ops ([], 0))) \<le> length evs" "list_all (\<lambda>(e, rooms). fst (out_room rooms) > 0) evs"
  shows "\<exists>c sent. run_option out_step (fresh_output, []) (ops @ map (\<lambda>(e, rooms). Send e rooms) evs) = Some (c, sent) \<and>
    map Inl sent = fst (fold abs_step ops ([], 0)) \<and> pend c = []"
proof -
  have "implements K 0 (fresh_output, []) ([], 0)" by (rule fresh_implements)
  from run_ok [OF this K ops] cost obtain c sent where
    r: "run_option out_step (fresh_output, []) ops = Some (c, sent)" "implements K (sum_list (map (op_cost K) ops)) (c, sent) (fold abs_step ops ([], 0))"
    by auto
  have x: "map Inl sent @ pend c = fst (fold abs_step ops ([], 0))" using r(2) by (simp add: implements_def)
  have "list_all (\<lambda>x. \<exists>ch. x = Inl ch) (pend c)" using filled unfolding x [symmetric] by simp
  then have h: "no_holes c" using r(2) by (intro no_holes_pend) (auto simp: implements_def out_inv_def)
  have "length (pend c) \<le> length evs" using evs(1) unfolding x [symmetric] by simp
  from drain_steps [OF r(2) K h cost this evs(2)] obtain c' s where
    "run_option out_step (c, sent) (map (\<lambda>(e, rooms). Send e rooms) evs) = Some (c', sent @ s)" "map Inl s = pend c" "pend c' = []" by blast
  then show ?thesis using r(1) x by (auto simp: run_option_append)
qed

theorem replies_drain_witness:
  "\<exists>c sent. run_option out_step (fresh_output, []) ([Add tight_env ''ab''] @ map (\<lambda>(e, rooms). Send e rooms) [(tight_env, [1]), (tight_env, [1, 3])]) =
     Some (c, sent) \<and> map Inl sent = (map Inl ''ab'' :: (char + nat) list) \<and> pend c = []"
  using replies_drain [of 0 "[Add tight_env ''ab'']" "[(tight_env, [1]), (tight_env, [1, 3])]"]
  by (simp add: tight_env_ok ULONG_MAX_def del: run_option.simps)

subsection \<open>The encoding of replies\<close>

lemma cdiv10_simps: "0 \<le> n \<Longrightarrow> cdiv10 n = n div 10" "n < 0 \<Longrightarrow> cdiv10 n = - cdiv10 (- n)"
  by (simp_all add: cdiv10_def)

lemma digits_loop_neg: "digits_loop (- n) len = digits_loop n len"
proof (induction n len rule: digits_loop.induct)
  case (1 n len)
  have "cdiv10 (- n) = - cdiv10 n" by (auto simp: cdiv10_def)
  then show ?case using 1 by (subst (1 2) digits_loop.simps) simp
qed

lemma digits_loop_eq: "0 \<le> n \<Longrightarrow> digits_loop n len + 1 = len + length (ll2string_loop n [])"
proof (induction n len rule: digits_loop.induct)
  case (1 n len)
  show ?case
  proof (cases "n < 10")
    case True
    then show ?thesis using 1(2) by (subst digits_loop.simps, subst ll2string_loop_step) (simp_all add: cdiv10_def)
  next
    case False
    then have c: "cdiv10 n = n div 10" "cdiv10 n \<noteq> 0" using 1(2) by (auto simp: cdiv10_def)
    have "digits_loop n len = digits_loop (n div 10) (len + 1)"
      by (subst digits_loop.simps) (simp only: c(2) if_False, simp only: c(1))
    moreover have "length (ll2string_loop n []) = length (ll2string_loop (n div 10) []) + 1"
      using False 1(2) by (subst ll2string_loop_step) simp_all
    ultimately show ?thesis using 1(1) [OF c(2)] 1(2) c(1) by simp
  qed
qed

lemma bulk_len_eq:
  assumes "\<forall>n. v = EncInt n \<longrightarrow> is_llong n"
  shows "bulk_len v = length (val_text v)"
proof (cases v)
  case (EncInt n)
  have neg: "digits_loop (to_signed 64 (- n)) 2 = digits_loop \<bar>n\<bar> 2" if "n < 0"
  proof (cases "n = LLONG_MIN")
    case True
    then have "to_signed 64 (- n) = n" by (simp add: to_signed_def crange_simps)
    then show ?thesis using that digits_loop_neg [of n 2] by simp
  next
    case False
    then have "is_llong (- n)" using assms EncInt that by (simp add: crange_simps)
    then have "to_signed 64 (- n) = - n" by (rule to_signed_64_id)
    then show ?thesis using that by simp
  qed
  have "digits_loop \<bar>n\<bar> (if n < 0 then 2 else 1) + 1 = (if n < 0 then 2 else 1) + length (ll2string_loop \<bar>n\<bar> [])"
    by (rule digits_loop_eq) simp
  then show ?thesis using EncInt neg by (auto simp: bulk_len_def val_text_def ll_repr_def)
qed (simp add: bulk_len_def val_text_def)

definition bulk_text :: "string \<Rightarrow> string" where
  "bulk_text t = ''$'' @ ll_repr (int (length t)) @ crlf @ t @ crlf"

lemma with_prefix_text:
  assumes "is_llong ll" and "pre = CHR '':'' \<or> 0 \<le> ll"
  shows "addReplyLongLongWithPrefix e c ll pre = addReplyString e c ([pre] @ ll_repr ll @ crlf)"
proof -
  have "snd (ll2string 127 ll) = ll_repr ll" using ll2string_eq [OF assms(1), of 127] by simp
  then show ?thesis using assms(2) addReply_text [of "EncRaw _" e c] by (auto simp: addReplyLongLongWithPrefix_def val_text_def)
qed

text \<open>A bulk reply is framed by its exact length, for strings and for integers that are kept as such, whose digits are counted by
  dividing, down to the smallest one, whose negation wraps around: the bytes queued are the length, the text and
  the line ends.\<close>

theorem addReplyBulk_frames:
  assumes inv: "out_inv K B c" and e: "env_ok K e" and K: "0 \<le> K" and n: "normal c" and v: "\<forall>i. v = EncInt i \<longrightarrow> is_llong i"
    and len: "int (length (val_text v)) \<le> LLONG_MAX" and B: "B + 2 * int (length (bulk_text (val_text v))) + 3 * K < ULONG_MAX - 1024 * 64"
  shows "\<exists>c'. addReplyBulk e c v = Some c' \<and> pend c' = pend c @ map Inl (bulk_text (val_text v)) \<and> normal c' \<and>
    out_inv K (B + 2 * int (length (bulk_text (val_text v))) + 3 * K) c'"
proof -
  let ?t = "val_text v" and ?h = "[CHR ''$''] @ ll_repr (int (length (val_text v))) @ crlf"
  have l: "is_llong (int (length ?t))" using len by (simp add: crange_simps)
  have h: "addReplyBulkLen e c v = addReplyString e c ?h"
    unfolding addReplyBulkLen_def bulk_len_eq [OF v] by (rule with_prefix_text [OF l]) simp
  have B0: "2 * int (length (bulk_text ?t)) = 2 * int (length ?h) + 2 * int (length ?t) + 2 * int (length crlf)"
    by (simp add: bulk_text_def)
  obtain c1 where c1: "addReplyString e c ?h = Some c1" "out_inv K (B + 2 * int (length ?h) + K) c1" "pend c1 = pend c @ map Inl ?h" "conn c1 = conn c"
    using addReplyString_ok [OF inv e K n, of ?h] B B0 K by auto
  have n1: "normal c1" using normal_conn [OF c1(4)] n by simp
  let ?B1 = "B + 2 * int (length ?h) + K"
  obtain c2 where c2: "addReplyString e c1 ?t = Some c2" "out_inv K (?B1 + 2 * int (length ?t) + K) c2" "pend c2 = pend c1 @ map Inl ?t" "conn c2 = conn c1"
    using addReplyString_ok [OF c1(2) e K n1, of ?t] B B0 K by auto
  have n2: "normal c2" using normal_conn [OF c2(4)] n1 by simp
  let ?B2 = "?B1 + 2 * int (length ?t) + K"
  obtain c3 where c3: "addReplyString e c2 crlf = Some c3" "out_inv K (?B2 + 2 * int (length crlf) + K) c3" "pend c3 = pend c2 @ map Inl crlf" "conn c3 = conn c2"
    using addReplyString_ok [OF c2(2) e K n2, of crlf] B B0 K by auto
  have n3: "normal c3" using normal_conn [OF c3(4)] n2 by simp
  have "addReplyBulk e c v = Some c3"
    unfolding addReplyBulk_def h c1(1) Option.bind_lunit addReply_text [OF v] c2(1)
    using c3(1) addReply_text [of "EncRaw crlf" e c2] by (simp add: val_text_def)
  moreover have "pend c3 = pend c @ map Inl (bulk_text ?t)" using c1(3) c2(3) c3(3) by (simp add: bulk_text_def)
  moreover have "?B2 + 2 * int (length crlf) + K = B + 2 * int (length (bulk_text ?t)) + 3 * K" using B0 by simp
  ultimately show ?thesis using n3 c3(2) by metis
qed

theorem addReplyBulk_frames_witness:
  "\<exists>c'. addReplyBulk tight_env fresh_output (EncInt LLONG_MIN) = Some c' \<and> pend c' = map Inl (bulk_text (ll_repr LLONG_MIN))"
proof -
  have l: "is_llong LLONG_MIN" by (simp add: crange_simps)
  have inv: "out_inv 0 0 fresh_output" "normal fresh_output" "pend fresh_output = []"
    using fresh_implements [of 0] by (simp_all add: implements_def)
  have t: "val_text (EncInt LLONG_MIN) = ll_repr LLONG_MIN" by (simp add: val_text_def)
  have n: "length (ll_repr LLONG_MIN) \<le> 20" by (rule ll_repr_length [OF l])
  have "is_llong (int (length (ll_repr LLONG_MIN)))" using n by (simp add: crange_simps)
  then have "length (bulk_text (ll_repr LLONG_MIN)) \<le> 45" using n ll_repr_length [of "int (length (ll_repr LLONG_MIN))"]
    by (simp add: bulk_text_def crlf_def)
  then show ?thesis
    using addReplyBulk_frames [OF inv(1) tight_env_ok _ inv(2), of "EncInt LLONG_MIN"] l n inv(3)
    by (auto simp: t ULONG_MAX_def LLONG_MAX_def)
qed

end
