(* ===== verification/Crc64.thy ===== *)
theory Crc64
  imports Prelude
begin

unbundle bit_operations_syntax

section \<open>Checksums of snapshots (\<^verbatim>\<open>crc64.c\<close>)\<close>

text \<open>
  The table-driven checksum and its meaning: the cyclic redundancy check that feeds one bit after the other
  through the polynomial.  The theory shows that the table is the right one, that the two agree on every
  string, and which corruptions of a snapshot the checksum is certain to detect.
\<close>

definition crc64_tab :: "64 word list" where
  "crc64_tab =
     [      0x0000000000000000, 0x7ad870c830358979, 0xf5b0e190606b12f2, 0x8f689158505e9b8b,
      0xc038e5739841b68f, 0xbae095bba8743ff6, 0x358804e3f82aa47d, 0x4f50742bc81f2d04,
      0xab28ecb46814fe75, 0xd1f09c7c5821770c, 0x5e980d24087fec87, 0x24407dec384a65fe,
      0x6b1009c7f05548fa, 0x11c8790fc060c183, 0x9ea0e857903e5a08, 0xe478989fa00bd371,
      0x7d08ff3b88be6f81, 0x07d08ff3b88be6f8, 0x88b81eabe8d57d73, 0xf2606e63d8e0f40a,
      0xbd301a4810ffd90e, 0xc7e86a8020ca5077, 0x4880fbd87094cbfc, 0x32588b1040a14285,
      0xd620138fe0aa91f4, 0xacf86347d09f188d, 0x2390f21f80c18306, 0x594882d7b0f40a7f,
      0x1618f6fc78eb277b, 0x6cc0863448deae02, 0xe3a8176c18803589, 0x997067a428b5bcf0,
      0xfa11fe77117cdf02, 0x80c98ebf2149567b, 0x0fa11fe77117cdf0, 0x75796f2f41224489,
      0x3a291b04893d698d, 0x40f16bccb908e0f4, 0xcf99fa94e9567b7f, 0xb5418a5cd963f206,
      0x513912c379682177, 0x2be1620b495da80e, 0xa489f35319033385, 0xde51839b2936bafc,
      0x9101f7b0e12997f8, 0xebd98778d11c1e81, 0x64b116208142850a, 0x1e6966e8b1770c73,
      0x8719014c99c2b083, 0xfdc17184a9f739fa, 0x72a9e0dcf9a9a271, 0x08719014c99c2b08,
      0x4721e43f0183060c, 0x3df994f731b68f75, 0xb29105af61e814fe, 0xc849756751dd9d87,
      0x2c31edf8f1d64ef6, 0x56e99d30c1e3c78f, 0xd9810c6891bd5c04, 0xa3597ca0a188d57d,
      0xec09088b6997f879, 0x96d1784359a27100, 0x19b9e91b09fcea8b, 0x636199d339c963f2,
      0xdf7adabd7a6e2d6f, 0xa5a2aa754a5ba416, 0x2aca3b2d1a053f9d, 0x50124be52a30b6e4,
      0x1f423fcee22f9be0, 0x659a4f06d21a1299, 0xeaf2de5e82448912, 0x902aae96b271006b,
      0x74523609127ad31a, 0x0e8a46c1224f5a63, 0x81e2d7997211c1e8, 0xfb3aa75142244891,
      0xb46ad37a8a3b6595, 0xceb2a3b2ba0eecec, 0x41da32eaea507767, 0x3b024222da65fe1e,
      0xa2722586f2d042ee, 0xd8aa554ec2e5cb97, 0x57c2c41692bb501c, 0x2d1ab4dea28ed965,
      0x624ac0f56a91f461, 0x1892b03d5aa47d18, 0x97fa21650afae693, 0xed2251ad3acf6fea,
      0x095ac9329ac4bc9b, 0x7382b9faaaf135e2, 0xfcea28a2faafae69, 0x8632586aca9a2710,
      0xc9622c4102850a14, 0xb3ba5c8932b0836d, 0x3cd2cdd162ee18e6, 0x460abd1952db919f,
      0x256b24ca6b12f26d, 0x5fb354025b277b14, 0xd0dbc55a0b79e09f, 0xaa03b5923b4c69e6,
      0xe553c1b9f35344e2, 0x9f8bb171c366cd9b, 0x10e3202993385610, 0x6a3b50e1a30ddf69,
      0x8e43c87e03060c18, 0xf49bb8b633338561, 0x7bf329ee636d1eea, 0x012b592653589793,
      0x4e7b2d0d9b47ba97, 0x34a35dc5ab7233ee, 0xbbcbcc9dfb2ca865, 0xc113bc55cb19211c,
      0x5863dbf1e3ac9dec, 0x22bbab39d3991495, 0xadd33a6183c78f1e, 0xd70b4aa9b3f20667,
      0x985b3e827bed2b63, 0xe2834e4a4bd8a21a, 0x6debdf121b863991, 0x1733afda2bb3b0e8,
      0xf34b37458bb86399, 0x8993478dbb8deae0, 0x06fbd6d5ebd3716b, 0x7c23a61ddbe6f812,
      0x3373d23613f9d516, 0x49aba2fe23cc5c6f, 0xc6c333a67392c7e4, 0xbc1b436e43a74e9d,
      0x95ac9329ac4bc9b5, 0xef74e3e19c7e40cc, 0x601c72b9cc20db47, 0x1ac40271fc15523e,
      0x5594765a340a7f3a, 0x2f4c0692043ff643, 0xa02497ca54616dc8, 0xdafce7026454e4b1,
      0x3e847f9dc45f37c0, 0x445c0f55f46abeb9, 0xcb349e0da4342532, 0xb1eceec59401ac4b,
      0xfebc9aee5c1e814f, 0x8464ea266c2b0836, 0x0b0c7b7e3c7593bd, 0x71d40bb60c401ac4,
      0xe8a46c1224f5a634, 0x927c1cda14c02f4d, 0x1d148d82449eb4c6, 0x67ccfd4a74ab3dbf,
      0x289c8961bcb410bb, 0x5244f9a98c8199c2, 0xdd2c68f1dcdf0249, 0xa7f41839ecea8b30,
      0x438c80a64ce15841, 0x3954f06e7cd4d138, 0xb63c61362c8a4ab3, 0xcce411fe1cbfc3ca,
      0x83b465d5d4a0eece, 0xf96c151de49567b7, 0x76048445b4cbfc3c, 0x0cdcf48d84fe7545,
      0x6fbd6d5ebd3716b7, 0x15651d968d029fce, 0x9a0d8ccedd5c0445, 0xe0d5fc06ed698d3c,
      0xaf85882d2576a038, 0xd55df8e515432941, 0x5a3569bd451db2ca, 0x20ed197575283bb3,
      0xc49581ead523e8c2, 0xbe4df122e51661bb, 0x3125607ab548fa30, 0x4bfd10b2857d7349,
      0x04ad64994d625e4d, 0x7e7514517d57d734, 0xf11d85092d094cbf, 0x8bc5f5c11d3cc5c6,
      0x12b5926535897936, 0x686de2ad05bcf04f, 0xe70573f555e26bc4, 0x9ddd033d65d7e2bd,
      0xd28d7716adc8cfb9, 0xa85507de9dfd46c0, 0x273d9686cda3dd4b, 0x5de5e64efd965432,
      0xb99d7ed15d9d8743, 0xc3450e196da80e3a, 0x4c2d9f413df695b1, 0x36f5ef890dc31cc8,
      0x79a59ba2c5dc31cc, 0x037deb6af5e9b8b5, 0x8c157a32a5b7233e, 0xf6cd0afa9582aa47,
      0x4ad64994d625e4da, 0x300e395ce6106da3, 0xbf66a804b64ef628, 0xc5bed8cc867b7f51,
      0x8aeeace74e645255, 0xf036dc2f7e51db2c, 0x7f5e4d772e0f40a7, 0x05863dbf1e3ac9de,
      0xe1fea520be311aaf, 0x9b26d5e88e0493d6, 0x144e44b0de5a085d, 0x6e963478ee6f8124,
      0x21c640532670ac20, 0x5b1e309b16452559, 0xd476a1c3461bbed2, 0xaeaed10b762e37ab,
      0x37deb6af5e9b8b5b, 0x4d06c6676eae0222, 0xc26e573f3ef099a9, 0xb8b627f70ec510d0,
      0xf7e653dcc6da3dd4, 0x8d3e2314f6efb4ad, 0x0256b24ca6b12f26, 0x788ec2849684a65f,
      0x9cf65a1b368f752e, 0xe62e2ad306bafc57, 0x6946bb8b56e467dc, 0x139ecb4366d1eea5,
      0x5ccebf68aecec3a1, 0x2616cfa09efb4ad8, 0xa97e5ef8cea5d153, 0xd3a62e30fe90582a,
      0xb0c7b7e3c7593bd8, 0xca1fc72bf76cb2a1, 0x45775673a732292a, 0x3faf26bb9707a053,
      0x70ff52905f188d57, 0x0a2722586f2d042e, 0x854fb3003f739fa5, 0xff97c3c80f4616dc,
      0x1bef5b57af4dc5ad, 0x61372b9f9f784cd4, 0xee5fbac7cf26d75f, 0x9487ca0fff135e26,
      0xdbd7be24370c7322, 0xa10fceec0739fa5b, 0x2e675fb4576761d0, 0x54bf2f7c6752e8a9,
      0xcdcf48d84fe75459, 0xb71738107fd2dd20, 0x387fa9482f8c46ab, 0x42a7d9801fb9cfd2,
      0x0df7adabd7a6e2d6, 0x772fdd63e7936baf, 0xf8474c3bb7cdf024, 0x829f3cf387f8795d,
      0x66e7a46c27f3aa2c, 0x1c3fd4a417c62355, 0x935745fc4798b8de, 0xe98f353477ad31a7,
      0xa6df411fbfb21ca3, 0xdc0731d78f8795da, 0x536fa08fdfd90e51, 0x29b7d047efec8728]"

text \<open>\<open>s\<close> is the string that the pointer and the length describe.\<close>

fun crc64 :: "64 word \<Rightarrow> byte list \<Rightarrow> 64 word" where
  "crc64 crc [] = crc"
| "crc64 crc (b # s) = crc64 ((crc64_tab ! unat ((ucast crc :: byte) XOR b)) XOR drop_bit 8 crc) s"

subsection \<open>The bit by bit definition\<close>

text \<open>The polynomial as the source gives it, most significant bit first, and reflected.\<close>

definition jones_poly :: "64 word" where
  "jones_poly = 0xad93d23594c935a9"

definition reflected_poly :: "64 word" where
  "reflected_poly = 0x95ac9329ac4bc9b5"

definition crc_bit :: "64 word \<Rightarrow> 64 word" where
  "crc_bit x = (if bit x 0 then drop_bit 1 x XOR reflected_poly else drop_bit 1 x)"

definition crc_byte :: "64 word \<Rightarrow> byte \<Rightarrow> 64 word" where
  "crc_byte crc b = (crc_bit ^^ 8) (crc XOR ucast b)"

lemma reflected: "i < 64 \<Longrightarrow> bit reflected_poly i \<longleftrightarrow> bit jones_poly (63 - i)"
proof -
  have "list_all (\<lambda>i. bit reflected_poly i \<longleftrightarrow> bit jones_poly (63 - i)) [0..<64]"
    by (simp add: upt_conv_Cons reflected_poly_def jones_poly_def)
  then show "i < 64 \<Longrightarrow> ?thesis" by (simp add: list_all_iff)
qed

lemma crc8: "(crc_bit ^^ 8) x = crc_bit (crc_bit (crc_bit (crc_bit (crc_bit (crc_bit (crc_bit (crc_bit x)))))))"
  by (simp add: numeral_eq_Suc)

lemma crc_bit_numeral:
  "crc_bit 0 = 0" "crc_bit 1 = 0x95ac9329ac4bc9b5"
  "crc_bit (numeral (num.Bit0 n)) = drop_bit 1 (numeral (num.Bit0 n))"
  "crc_bit (numeral (num.Bit1 n)) = drop_bit 1 (numeral (num.Bit1 n)) XOR 0x95ac9329ac4bc9b5"
  by (simp_all add: crc_bit_def reflected_poly_def)

definition table_entry :: "nat \<Rightarrow> 64 word" where
  "table_entry b = (crc_bit ^^ 8) (of_nat b)"

lemma all_entries: "[0..<256] = 0 # 1 # [2..<256]"
  by (simp add: upt_conv_Cons numeral_2_eq_2)

definition double_table :: "64 word \<Rightarrow> 64 word list \<Rightarrow> 64 word list" where
  "double_table e xs = xs @ map (\<lambda>x. e XOR x) xs"

lemma tab_doubles:
  "crc64_tab = fold double_table [0x7ad870c830358979, 0xf5b0e190606b12f2, 0xc038e5739841b68f, 0xab28ecb46814fe75,
     0x7d08ff3b88be6f81, 0xfa11fe77117cdf02, 0xdf7adabd7a6e2d6f, 0x95ac9329ac4bc9b5] [0]"
  by (simp add: crc64_tab_def double_table_def)

subsection \<open>The table\<close>

lemma crc_bit_xor: "crc_bit (x XOR y) = crc_bit x XOR crc_bit y"
  by (auto simp: crc_bit_def bit_simps drop_bit_xor intro!: bit_word_eqI)

lemma crc_bits_xor: "(crc_bit ^^ n) (x XOR y) = (crc_bit ^^ n) x XOR (crc_bit ^^ n) y"
  by (induction n) (simp_all add: crc_bit_xor)

lemma nat_power_add_xor:
  fixes j k :: nat
  assumes "j < 2 ^ k"
  shows "2 ^ k + j = 2 ^ k XOR j"
proof (rule disjunctive_add_eq_xor)
  have "\<not> bit j k" using assms by (simp add: bit_iff_odd)
  then show "2 ^ k AND j = 0"
    by (intro bit_eqI) (auto simp: bit_simps)
qed

lemma table_entry_add: "j < 2 ^ k \<Longrightarrow> table_entry (2 ^ k + j) = table_entry (2 ^ k) XOR table_entry j"
  by (simp only: table_entry_def nat_power_add_xor of_nat_xor_eq crc_bits_xor)

lemma entries_double:
  "map table_entry [0..<2 ^ Suc k] = double_table (table_entry (2 ^ k)) (map table_entry [0..<2 ^ k])"
proof -
  have "[0..<2 ^ Suc k] = [0..<2 ^ k] @ map (\<lambda>j. 2 ^ k + j) [0..<2 ^ k]"
    using map_add_upt[of "2 ^ k" "2 ^ k"] upt_add_eq_append[of 0 "2 ^ k" "2 ^ k"]
    by (simp add: add.commute mult_2)
  then show ?thesis by (simp add: double_table_def table_entry_add)
qed

lemma entries_fold: "map table_entry [0..<2 ^ n] = fold double_table (map (\<lambda>k. table_entry (2 ^ k)) [0..<n]) [table_entry 0]"
  by (induction n) (simp_all only: entries_double upt_Suc_append map_append fold_append, simp_all)

lemma tab_checked: "crc64_tab = map table_entry [0..<256]"
proof -
  have "map (\<lambda>k. table_entry (2 ^ k)) [0..<8] = [0x7ad870c830358979, 0xf5b0e190606b12f2, 0xc038e5739841b68f, 0xab28ecb46814fe75,
     0x7d08ff3b88be6f81, 0xfa11fe77117cdf02, 0xdf7adabd7a6e2d6f, 0x95ac9329ac4bc9b5]"
    by (simp add: upt_conv_Cons table_entry_def crc8 crc_bit_numeral)
  moreover have "table_entry 0 = 0" by (simp add: table_entry_def crc8 crc_bit_def)
  ultimately show ?thesis using entries_fold[of 8] by (simp add: tab_doubles)
qed

lemma tab_entry: "crc64_tab ! unat b = (crc_bit ^^ 8) (ucast b)" for b :: byte
proof -
  have "unat b < 256" using unsigned_less[of b, where 'a = nat] by simp
  then show ?thesis by (simp add: tab_checked table_entry_def)
qed

subsection \<open>The loop\<close>

lemma take_bit_Suc_iff: "take_bit (Suc n) x = 0 \<longleftrightarrow> take_bit n x = 0 \<and> \<not> bit x n" for x :: "64 word"
proof
  assume a: "take_bit (Suc n) x = 0"
  have "\<not> bit x i" if "i \<le> n" for i
    using arg_cong[OF a, of "\<lambda>y. bit y i"] that by (simp add: bit_take_bit_iff)
  then show "take_bit n x = 0 \<and> \<not> bit x n"
    by (auto intro!: bit_word_eqI simp: bit_take_bit_iff)
next
  assume a: "take_bit n x = 0 \<and> \<not> bit x n"
  have "\<not> bit x i" if "i < n" for i
    using arg_cong[OF conjunct1[OF a], of "\<lambda>y. bit y i"] that by (simp add: bit_take_bit_iff)
  with a show "take_bit (Suc n) x = 0"
    by (auto intro!: bit_word_eqI simp: bit_take_bit_iff less_Suc_eq)
qed

lemma crc_bits_shift: "take_bit n x = 0 \<Longrightarrow> (crc_bit ^^ n) x = drop_bit n x"
proof (induction n)
  case (Suc n)
  have z: "take_bit n x = 0" "\<not> bit x n"
    using Suc.prems by (auto simp: take_bit_Suc_iff)
  then show ?case using Suc.IH by (simp add: crc_bit_def bit_simps drop_bit_drop_bit)
qed simp

lemma crc_bits_push: "drop_bit 8 (push_bit 8 y) = y \<Longrightarrow> (crc_bit ^^ 8) (push_bit 8 y) = y"
  by (simp add: crc_bits_shift take_bit_push_bit)

lemma crc_split: "crc XOR ucast b = ucast ((ucast crc :: byte) XOR b) XOR push_bit 8 (drop_bit 8 crc)"
  for crc :: "64 word" and b :: byte
  by (rule bit_word_eqI) (auto simp: bit_simps)

lemma crc64_step: "(crc64_tab ! unat ((ucast crc :: byte) XOR b)) XOR drop_bit 8 crc = crc_byte crc b"
proof -
  have "drop_bit 8 (push_bit 8 (drop_bit 8 crc)) = drop_bit 8 crc"
    by (rule bit_word_eqI) (auto simp: bit_simps dest: bit_imp_le_length)
  then show ?thesis
    by (simp add: crc_byte_def crc_split crc_bits_xor crc_bits_push tab_entry)
qed

lemma crc64_fold: "crc64 crc s = fold (\<lambda>b c. crc_byte c b) s crc"
  by (induction s arbitrary: crc) (simp_all add: crc64_step)

subsection \<open>What a corruption does\<close>

lemma crc_bit_zero: "crc_bit x = 0 \<Longrightarrow> x = 0"
proof -
  assume z: "crc_bit x = 0"
  have p: "bit reflected_poly 63" by (simp add: reflected_poly_def)
  have "\<not> bit (drop_bit 1 x) 63" by (auto simp: bit_simps dest: bit_imp_le_length)
  then have "drop_bit 1 x XOR reflected_poly \<noteq> 0"
    using p by (metis bit_xor_iff bit_0_eq bot_apply bot_bool_def)
  then have e: "\<not> bit x 0" "drop_bit 1 x = 0" using z by (auto simp: crc_bit_def split: if_splits)
  have "\<not> bit x n" for n
    using e(1) arg_cong[OF e(2), of "\<lambda>y. bit y (n - 1)"] by (cases n) (auto simp: bit_simps)
  then show "x = 0" by (intro bit_word_eqI) simp
qed

lemma xor_cancel: "x XOR z = y XOR z \<Longrightarrow> x = y" for x y z :: "64 word"
proof -
  assume "x XOR z = y XOR z"
  then have "(x XOR z) XOR z = (y XOR z) XOR z" by simp
  then show ?thesis by (simp add: xor.assoc)
qed

lemma crc_bit_inj: "crc_bit x = crc_bit y \<Longrightarrow> x = y"
proof -
  assume "crc_bit x = crc_bit y"
  then have "crc_bit (x XOR y) = 0" by (simp add: crc_bit_xor)
  then have "x XOR y = y XOR y" by (simp add: crc_bit_zero)
  then show "x = y" by (rule xor_cancel)
qed

lemma crc_bits_inj: "(crc_bit ^^ n) x = (crc_bit ^^ n) y \<Longrightarrow> x = y"
proof (induction n)
  case (Suc n)
  then have "crc_bit ((crc_bit ^^ n) x) = crc_bit ((crc_bit ^^ n) y)" by simp
  then show ?case using Suc.IH crc_bit_inj by blast
qed simp

lemma crc_byte_inj: "crc_byte c b = crc_byte d b \<Longrightarrow> c = d"
  unfolding crc_byte_def by (blast dest: crc_bits_inj xor_cancel)

lemma crc64_inj: "crc64 c s = crc64 d s \<Longrightarrow> c = d"
  unfolding crc64_fold by (induction s arbitrary: c d) (auto dest: crc_byte_inj)

lemma crc64_append: "crc64 c (s @ t) = crc64 (crc64 c s) t"
  by (simp add: crc64_fold)

text \<open>The word whose bytes are the string, least significant byte first.\<close>

primrec le_word :: "byte list \<Rightarrow> 64 word" where
  "le_word [] = 0"
| "le_word (b # s) = ucast b XOR push_bit 8 (le_word s)"

lemma le_word_bits: "8 * length s \<le> n \<Longrightarrow> \<not> bit (le_word s) n"
proof (induction s arbitrary: n)
  case (Cons b s)
  then have "\<not> bit (le_word s) (n - 8)" by simp
  moreover have "\<not> bit b n" using Cons.prems by (auto dest: bit_imp_le_length)
  ultimately show ?case by (simp add: bit_simps)
qed simp

lemma le_word_push: "length s < 8 \<Longrightarrow> drop_bit 8 (push_bit 8 (le_word s)) = le_word s"
proof (rule bit_word_eqI)
  fix n assume s: "length s < 8" and "n < LENGTH(64)"
  show "bit (drop_bit 8 (push_bit 8 (le_word s))) n = bit (le_word s) n"
  proof (cases "n < 56")
    case True
    then show ?thesis by (simp add: bit_simps)
  next
    case False
    then show ?thesis using s le_word_bits[of s n] by (simp add: bit_simps)
  qed
qed

lemma le_word_inj: "length s = length t \<Longrightarrow> length s \<le> 8 \<Longrightarrow> le_word s = le_word t \<Longrightarrow> s = t"
proof (induction s t rule: list_induct2)
  case (Cons b s d t)
  have ub: "(ucast (le_word (b # s)) :: byte) = b" for b :: byte and s
    by (rule bit_word_eqI) (auto simp: bit_simps)
  have ud: "drop_bit 8 (le_word (b # s)) = drop_bit 8 (push_bit 8 (le_word s))" for b :: byte and s
    by (rule bit_word_eqI) (auto simp: bit_simps dest: bit_imp_le_length)
  have "b = d" using Cons.prems ub by metis
  moreover have "le_word s = le_word t"
    using Cons.prems Cons.hyps ud[of b s] ud[of d t] le_word_push[of s] le_word_push[of t] by simp
  ultimately show ?case using Cons by simp
qed simp

lemma crc64_short: "length s \<le> 8 \<Longrightarrow> crc64 c s = (crc_bit ^^ (8 * length s)) (c XOR le_word s)"
proof (induction s arbitrary: c)
  case (Cons b s)
  have "crc64 c (b # s) = (crc_bit ^^ (8 * length s)) (crc_byte c b XOR le_word s)"
    using Cons by (simp add: crc64_step)
  also have "crc_byte c b XOR le_word s = (crc_bit ^^ 8) (c XOR le_word (b # s))"
    using Cons.prems crc_bits_push[OF le_word_push, of s]
    by (simp add: crc_byte_def crc_bits_xor xor.assoc)
  also have "(crc_bit ^^ (8 * length s)) \<dots> = (crc_bit ^^ (8 * length (b # s))) (c XOR le_word (b # s))"
    using funpow_add[of "8 * length s" 8 crc_bit] by (simp add: add.commute del: le_word.simps)
  finally show ?case .
qed simp

lemma crc64_short_inj:
  assumes "length x = length y" "length x \<le> 8" "crc64 c x = crc64 c y"
  shows "x = y"
proof -
  have "(crc_bit ^^ (8 * length x)) (c XOR le_word x) = (crc_bit ^^ (8 * length x)) (c XOR le_word y)"
    using assms by (simp add: crc64_short)
  then have "c XOR le_word x = c XOR le_word y" by (rule crc_bits_inj)
  then have "le_word x = le_word y" using xor_cancel[of "le_word x" c "le_word y"] by (simp add: xor.commute)
  then show ?thesis using assms by (intro le_word_inj)
qed

subsection \<open>Theorems\<close>

text \<open>C33. The table-driven checksum of any string, from any start value, is the one that the bit by bit
  definition of the polynomial gives: the 256 constants of the source are right and the loop uses them
  right.\<close>

theorem crc64_is_bitwise: "crc64 crc s = fold (\<lambda>b c. (crc_bit ^^ 8) (c XOR ucast b)) s crc"
  by (simp add: crc64_fold crc_byte_def)

text \<open>C34. A corruption that is confined to eight consecutive bytes of a file, wherever they stand and whatever
  the bytes around them are, changes the checksum; so does a start value that differs.\<close>

theorem crc64_detects_burst:
  assumes "length x = length y" "length x \<le> 8" "x \<noteq> y"
  shows "crc64 c (pre @ x @ post) \<noteq> crc64 c (pre @ y @ post)"
  using assms crc64_short_inj[of x y "crc64 c pre"] crc64_inj by (metis crc64_append)

theorem crc64_detects_burst_witness:
  "crc64 0 ([82, 69] @ [0, 1] @ [255]) \<noteq> crc64 0 ([82, 69] @ [0, 2] @ [255])"
  by (rule crc64_detects_burst) simp_all

lemma crc64_check_value:
  "crc64 0 [0x31, 0x32, 0x33, 0x34, 0x35, 0x36, 0x37, 0x38, 0x39] = 0xe9c6d914c4b8d9ca"
  by (simp add: crc64_tab_def)

end
