(* ===== verification/Lzf.thy ===== *)
theory Lzf
  imports Prelude
begin

unbundle bit_operations_syntax

section \<open>Compression of strings in snapshots (\<^verbatim>\<open>lzf_c.c\<close>, \<^verbatim>\<open>lzf_d.c\<close>, \<^verbatim>\<open>lzfP.h\<close>)\<close>

text \<open>
  The compressor and the decompressor with the settings of the repository (\<^verbatim>\<open>HLOG\<close> 16, \<^verbatim>\<open>VERY_FAST\<close>,
  \<^verbatim>\<open>CHECK_INPUT\<close>, the hash table not initialised).  Blocks are lists of bytes and positions in them natural
  numbers; \<open>None\<close> is an access outside a block.  The hash table holds pointers into the input as offsets from
  its start; as it lies uninitialised on the stack, its first content is an argument and a slot may hold any
  address.  The theory shows that the decompressor stays in its blocks whatever the input is, that the
  compressor writes at most one byte past the length it is given, and that decompression gives back what was
  compressed.
\<close>

definition HSIZE :: nat where "HSIZE = 2 ^ 16"
definition MAX_LIT :: nat where "MAX_LIT = 2 ^ 5"
definition MAX_OFF :: int where "MAX_OFF = 2 ^ 13"
definition MAX_REF :: nat where "MAX_REF = 2 ^ 8 + 2 ^ 3"

definition FRST :: "byte list \<Rightarrow> nat \<Rightarrow> 32 word option" where
  "FRST p i = do {
     a \<leftarrow> mem_get p i;
     b \<leftarrow> mem_get p (i + 1);
     Some (push_bit 8 (ucast a) OR ucast b) }"

definition NEXT :: "32 word \<Rightarrow> byte list \<Rightarrow> nat \<Rightarrow> 32 word option" where
  "NEXT v p i = do { c \<leftarrow> mem_get p (i + 2); Some (push_bit 8 v OR ucast c) }"

definition IDX :: "32 word \<Rightarrow> nat" where
  "IDX h = unat ((drop_bit 8 h - h * 5) AND of_nat (HSIZE - 1))"

subsection \<open>The compressor\<close>

type_synonym lzf_state_tab = "nat \<Rightarrow> int"

record lzf =
  lz_ip :: nat
  lz_op :: nat
  lz_out :: "byte list"
  lz_lit :: nat
  lz_hval :: "32 word"
  lz_htab :: lzf_state_tab

text \<open>The assignment \<open>op [- lit - 1] = lit - 1\<close> that ends a run of literals.\<close>

definition stop_run :: "byte list \<Rightarrow> nat \<Rightarrow> nat \<Rightarrow> byte list option" where
  "stop_run out op lit = (if op < lit + 1 then None else mem_set out (op - lit - 1) (of_int (int lit - 1)))"

definition lzf_off :: "nat \<Rightarrow> int \<Rightarrow> int" where
  "lzf_off ip ref = to_unsigned 64 (int ip - ref - 1)"

text \<open>The condition of the match: two bytes are compared at once, then the third.\<close>

definition match_found :: "byte list \<Rightarrow> nat \<Rightarrow> int \<Rightarrow> bool option" where
  "match_found inp ip ref =
     (if lzf_off ip ref < MAX_OFF \<and> ip + 4 < length inp \<and> ref > 0
      then do {
        r \<leftarrow> mem_read inp (nat ref) 2;
        i \<leftarrow> mem_read inp ip 2;
        if r \<noteq> i then Some False
        else do {
          r2 \<leftarrow> mem_get inp (nat ref + 2);
          i2 \<leftarrow> mem_get inp (ip + 2);
          Some (r2 = i2)
        }
      }
      else Some False)"

text \<open>\<open>k\<close> times \<^verbatim>\<open>len++; if (ref [len] != ip [len]) break;\<close>: the length and whether no break was reached.\<close>

fun match_some :: "byte list \<Rightarrow> nat \<Rightarrow> nat \<Rightarrow> nat \<Rightarrow> nat \<Rightarrow> (nat \<times> bool) option" where
  "match_some inp ref ip 0 len = Some (len, True)"
| "match_some inp ref ip (Suc k) len = do {
     a \<leftarrow> mem_get inp (ref + (len + 1));
     b \<leftarrow> mem_get inp (ip + (len + 1));
     if a \<noteq> b then Some (len + 1, False) else match_some inp ref ip k (len + 1) }"

text \<open>The loop \<^verbatim>\<open>do len++; while (len < maxlen && ref[len] == ip[len])\<close>.\<close>

function match_rest :: "byte list \<Rightarrow> nat \<Rightarrow> nat \<Rightarrow> nat \<Rightarrow> nat \<Rightarrow> nat option" where
  "match_rest inp ref ip maxlen len =
     (if len + 1 < maxlen
      then do {
        a \<leftarrow> mem_get inp (ref + (len + 1));
        b \<leftarrow> mem_get inp (ip + (len + 1));
        if a = b then match_rest inp ref ip maxlen (len + 1) else Some (len + 1)
      }
      else Some (len + 1))"
  by pat_completeness auto
termination by (relation "measure (\<lambda>(inp, ref, ip, maxlen, len). maxlen - len)") auto

declare match_rest.simps [simp del]

definition match_len :: "byte list \<Rightarrow> nat \<Rightarrow> nat \<Rightarrow> nat option" where
  "match_len inp ref ip =
     (let maxlen = length inp - ip - 2;
          maxlen = (if maxlen > MAX_REF then MAX_REF else maxlen)
      in if maxlen > 16
         then do {
           (len, go) \<leftarrow> match_some inp ref ip 16 2;
           if go then match_rest inp ref ip maxlen len else Some len
         }
         else match_rest inp ref ip maxlen 2)"

text \<open>The back reference written at \<^verbatim>\<open>op\<close>: the block and the position behind it.\<close>

definition put_ref :: "byte list \<Rightarrow> nat \<Rightarrow> int \<Rightarrow> nat \<Rightarrow> (byte list \<times> nat) option" where
  "put_ref out op off len = do {
     (out1, op1) \<leftarrow>
       (if len < 7 then do {
          o1 \<leftarrow> mem_set out op (of_int (off div 256 + int len * 32));
          Some (o1, op + 1)
        } else do {
          o1 \<leftarrow> mem_set out op (of_int (off div 256 + 7 * 32));
          o2 \<leftarrow> mem_set o1 (op + 1) (of_int (int len - 7));
          Some (o2, op + 2)
        });
     out2 \<leftarrow> mem_set out1 op1 (of_int off);
     Some (out2, op1 + 1) }"

text \<open>After a match the last two positions of it are entered in the hash table.\<close>

definition rehash2 :: "byte list \<Rightarrow> nat \<Rightarrow> lzf_state_tab \<Rightarrow> (32 word \<times> lzf_state_tab) option" where
  "rehash2 inp ip htab = do {
     h0 \<leftarrow> FRST inp ip;
     h1 \<leftarrow> NEXT h0 inp ip;
     h2 \<leftarrow> NEXT h1 inp (ip + 1);
     Some (h2, htab(IDX h1 := int ip, IDX h2 := int (ip + 1))) }"

text \<open>One turn of the main loop goes on, leaves the loop or returns 0.\<close>

datatype lzf_turn = Lz_Next lzf | Lz_Break lzf | Lz_Fail "byte list"

definition take_match :: "byte list \<Rightarrow> nat \<Rightarrow> lzf \<Rightarrow> int \<Rightarrow> lzf_turn option" where
  "take_match inp out_len st ref = do {
     out1 \<leftarrow> stop_run (lz_out st) (lz_op st) (lz_lit st);
     let op1 = (if lz_lit st = 0 then lz_op st - 1 else lz_op st);
     if op1 + 3 + 1 \<ge> out_len then Some (Lz_Fail out1)
     else do {
       n \<leftarrow> match_len inp (nat ref) (lz_ip st);
       let len = n - 2;
       (out2, op2) \<leftarrow> put_ref out1 op1 (lzf_off (lz_ip st) ref) len;
       let ip2 = lz_ip st + 1 + (len + 1);
       let st2 = st\<lparr>lz_ip := ip2, lz_op := op2 + 1, lz_out := out2, lz_lit := 0\<rparr>;
       if ip2 + 2 \<ge> length inp then Some (Lz_Break st2)
       else do {
         (hval, htab) \<leftarrow> rehash2 inp (ip2 - 2) (lz_htab st);
         Some (Lz_Next (st2\<lparr>lz_hval := hval, lz_htab := htab\<rparr>))
       }
     }
   }"

definition copy_literal :: "byte list \<Rightarrow> lzf \<Rightarrow> lzf option" where
  "copy_literal inp st = do {
     b \<leftarrow> mem_get inp (lz_ip st);
     out1 \<leftarrow> mem_set (lz_out st) (lz_op st) b;
     let st1 = st\<lparr>lz_lit := lz_lit st + 1, lz_op := lz_op st + 1, lz_ip := lz_ip st + 1, lz_out := out1\<rparr>;
     if lz_lit st1 = MAX_LIT then do {
       out2 \<leftarrow> stop_run out1 (lz_op st1) (lz_lit st1);
       Some (st1\<lparr>lz_out := out2, lz_lit := 0, lz_op := lz_op st1 + 1\<rparr>)
     } else Some st1 }"

definition lzf_step :: "byte list \<Rightarrow> nat \<Rightarrow> lzf \<Rightarrow> lzf_turn option" where
  "lzf_step inp out_len st = do {
     hval \<leftarrow> NEXT (lz_hval st) inp (lz_ip st);
     let ref = lz_htab st (IDX hval);
     let st1 = st\<lparr>lz_hval := hval, lz_htab := (lz_htab st)(IDX hval := int (lz_ip st))\<rparr>;
     m \<leftarrow> match_found inp (lz_ip st) ref;
     if m then take_match inp out_len st1 ref
     else if lz_op st1 \<ge> out_len then Some (Lz_Fail (lz_out st1))
     else do { st2 \<leftarrow> copy_literal inp st1; Some (Lz_Next st2) } }"

text \<open>The main loop: the state after it, or the block when 0 is returned.\<close>

partial_function (option) lzf_loop :: "byte list \<Rightarrow> nat \<Rightarrow> lzf \<Rightarrow> (byte list + lzf) option" where
  "lzf_loop inp out_len st =
     (if lz_ip st + 2 < length inp
      then Option.bind (lzf_step inp out_len st) (\<lambda>t.
        (case t of
           Lz_Next st1 \<Rightarrow> lzf_loop inp out_len st1
         | Lz_Break st1 \<Rightarrow> Some (Inr st1)
         | Lz_Fail out \<Rightarrow> Some (Inl out)))
      else Some (Inr st))"

partial_function (option) lzf_tail :: "byte list \<Rightarrow> lzf \<Rightarrow> lzf option" where
  "lzf_tail inp st =
     (if lz_ip st < length inp then Option.bind (copy_literal inp st) (lzf_tail inp) else Some st)"

text \<open>The output block as it is left and the value returned.\<close>

definition lzf_compress :: "lzf_state_tab \<Rightarrow> byte list \<Rightarrow> byte list \<Rightarrow> nat \<Rightarrow> (byte list \<times> nat) option" where
  "lzf_compress htab inp out out_len =
     (if inp = [] \<or> out_len = 0 then Some (out, 0)
      else do {
        hval \<leftarrow> FRST inp 0;
        r \<leftarrow> lzf_loop inp out_len \<lparr>lz_ip = 0, lz_op = 1, lz_out = out, lz_lit = 0, lz_hval = hval, lz_htab = htab\<rparr>;
        (case r of
           Inl out1 \<Rightarrow> Some (out1, 0)
         | Inr st \<Rightarrow>
             if lz_op st + 3 > out_len then Some (lz_out st, 0)
             else do {
               st1 \<leftarrow> lzf_tail inp st;
               out2 \<leftarrow> stop_run (lz_out st1) (lz_op st1) (lz_lit st1);
               Some (out2, if lz_lit st1 = 0 then lz_op st1 - 1 else lz_op st1)
             })
      })"

subsection \<open>The decompressor\<close>

primrec copy_run :: "byte list \<Rightarrow> nat \<Rightarrow> nat \<Rightarrow> nat \<Rightarrow> byte list \<Rightarrow> byte list option" where
  "copy_run inp 0 ip op out = Some out"
| "copy_run inp (Suc n) ip op out = do {
     b \<leftarrow> mem_get inp ip;
     out1 \<leftarrow> mem_set out op b;
     copy_run inp n (ip + 1) (op + 1) out1 }"

primrec copy_ref :: "nat \<Rightarrow> nat \<Rightarrow> nat \<Rightarrow> byte list \<Rightarrow> byte list option" where
  "copy_ref 0 ref op out = Some out"
| "copy_ref (Suc n) ref op out = do {
     b \<leftarrow> mem_get out ref;
     out1 \<leftarrow> mem_set out op b;
     copy_ref n (ref + 1) (op + 1) out1 }"

text \<open>What follows a control byte of a back reference: the length and the position of the offset byte, or
  nothing when the input ends.\<close>

definition ref_len :: "byte list \<Rightarrow> nat \<Rightarrow> nat \<Rightarrow> (nat \<times> nat) option option" where
  "ref_len inp ip ctrl =
     (if ip \<ge> length inp then Some None
      else if ctrl div 32 = 7 then do {
        b \<leftarrow> mem_get inp ip;
        if ip + 1 \<ge> length inp then Some None else Some (Some (7 + unat b, ip + 1))
      }
      else Some (Some (ctrl div 32, ip)))"

lemma ref_len_ge: "ref_len inp ip ctrl = Some (Some (len, ip')) \<Longrightarrow> ip \<le> ip'"
  by (auto simp: ref_len_def bind_eq_Some_conv split: if_splits)

function lzf_dloop :: "byte list \<Rightarrow> nat \<Rightarrow> nat \<Rightarrow> byte list \<Rightarrow> (byte list \<times> nat) option" where
  "lzf_dloop inp ip op out =
     (case mem_get inp ip of
        None \<Rightarrow> None
      | Some b \<Rightarrow>
          (let ctrl = unat b; ip = ip + 1 in
           if ctrl < 32 then
             (let n = ctrl + 1 in
              if op + n > length out then Some (out, 0)
              else if ip + n > length inp then Some (out, 0)
              else (case copy_run inp n ip op out of
                  None \<Rightarrow> None
                | Some out1 \<Rightarrow>
                    if ip + n < length inp then lzf_dloop inp (ip + n) (op + n) out1 else Some (out1, op + n)))
           else
             (case ref_len inp ip ctrl of
                None \<Rightarrow> None
              | Some None \<Rightarrow> Some (out, 0)
              | Some (Some (len, ip1)) \<Rightarrow>
                  (case mem_get inp ip1 of
                     None \<Rightarrow> None
                   | Some b1 \<Rightarrow>
                       (let ref = int op - int (ctrl mod 32) * 256 - 1 - uint b1 in
                        if op + len + 2 > length out then Some (out, 0)
                        else if ref < 0 then Some (out, 0)
                        else (case copy_ref (len + 2) (nat ref) op out of
                            None \<Rightarrow> None
                          | Some out1 \<Rightarrow>
                              if ip1 + 1 < length inp then lzf_dloop inp (ip1 + 1) (op + len + 2) out1
                              else Some (out1, op + len + 2)))))))"
  by pat_completeness auto
termination
  by (relation "measure (\<lambda>(inp, ip, op, out). length inp - ip)")
     (auto simp: mem_get_def split: if_splits dest!: ref_len_ge)

declare lzf_dloop.simps [simp del]

text \<open>\<open>out\<close> is the block of \<^verbatim>\<open>out_len\<close> bytes.\<close>

definition lzf_decompress :: "byte list \<Rightarrow> byte list \<Rightarrow> (byte list \<times> nat) option" where
  "lzf_decompress inp out = lzf_dloop inp 0 0 out"

subsection \<open>The format\<close>

text \<open>A compressed string is a sequence of literal runs and back references; \<open>BackRef d n\<close> repeats \<open>n\<close> bytes
  from \<open>d + 1\<close> positions before the end of what has been produced.\<close>

datatype lz_token = LitRun "byte list" | BackRef nat nat

primrec lz_copy :: "nat \<Rightarrow> nat \<Rightarrow> byte list \<Rightarrow> byte list" where
  "lz_copy 0 d h = h"
| "lz_copy (Suc n) d h = lz_copy n d (h @ [h ! (length h - 1 - d)])"

primrec lz_produce :: "byte list \<Rightarrow> lz_token \<Rightarrow> byte list" where
  "lz_produce h (LitRun bs) = h @ bs"
| "lz_produce h (BackRef d n) = lz_copy n d h"

definition lz_expand :: "lz_token list \<Rightarrow> byte list" where
  "lz_expand ts = foldl lz_produce [] ts"

primrec lz_code :: "lz_token \<Rightarrow> byte list" where
  "lz_code (LitRun bs) = of_nat (length bs - 1) # bs"
| "lz_code (BackRef d n) =
     (if n < 9 then [of_nat (d div 256 + (n - 2) * 32), of_nat d]
      else [of_nat (d div 256 + 224), of_nat (n - 9), of_nat d])"

primrec lz_fits :: "byte list \<Rightarrow> lz_token \<Rightarrow> bool" where
  "lz_fits h (LitRun bs) \<longleftrightarrow> bs \<noteq> [] \<and> length bs \<le> 32"
| "lz_fits h (BackRef d n) \<longleftrightarrow> d < length h \<and> d < 8192 \<and> 3 \<le> n \<and> n \<le> 264"

fun lz_fit :: "byte list \<Rightarrow> lz_token list \<Rightarrow> bool" where
  "lz_fit h [] \<longleftrightarrow> True"
| "lz_fit h (t # ts) \<longleftrightarrow> lz_fits h t \<and> lz_fit (lz_produce h t) ts"

lemma lz_fit_append: "lz_fit h (ts @ us) \<longleftrightarrow> lz_fit h ts \<and> lz_fit (foldl lz_produce h ts) us"
  by (induction ts arbitrary: h) auto

lemma lz_copy_length [simp]: "length (lz_copy n d h) = length h + n"
  by (induction n arbitrary: h) auto

lemma lz_produce_length: "length h \<le> length (lz_produce h t)"
  by (cases t) auto

lemma foldl_produce_length: "length h \<le> length (foldl lz_produce h ts)"
  by (induction ts arbitrary: h) (auto intro: order_trans[OF lz_produce_length])

subsection \<open>The decompressor reads the format and stays in its blocks\<close>

lemma copy_run_Some:
  "ip + n \<le> length inp \<Longrightarrow> op + n \<le> length out \<Longrightarrow>
   copy_run inp n ip op out = Some (take op out @ take n (drop ip inp) @ drop (op + n) out)"
proof (induction n arbitrary: ip op out)
  case (Suc n)
  have "take n (drop (Suc ip) inp) = tl (take (Suc n) (drop ip inp))" "take (Suc n) (drop ip inp) \<noteq> []"
    "hd (take (Suc n) (drop ip inp)) = inp ! ip"
    using Suc.prems by (auto simp: tl_take drop_Suc tl_drop hd_drop_conv_nth)
  then have e: "inp ! ip # take n (drop (Suc ip) inp) = take (Suc n) (drop ip inp)"
    by (metis list.collapse)
  show ?case
    using Suc e by (simp add: mem_get_def mem_set_def take_Suc_conv_app_nth)
qed simp

lemma copy_ref_Some:
  assumes "ref < op" "op + n \<le> length out"
  shows "\<exists>out1. copy_ref n ref op out = Some out1 \<and> length out1 = length out \<and>
    take (op + n) out1 = lz_copy n (op - 1 - ref) (take op out)"
  using assms
proof (induction n arbitrary: ref op out)
  case (Suc n)
  let ?o = "out[op := out ! ref]"
  obtain out1 where o: "copy_ref n (ref + 1) (op + 1) ?o = Some out1" "length out1 = length out"
    "take (op + 1 + n) out1 = lz_copy n (op - 1 - ref) (take (op + 1) ?o)"
    using Suc.IH[of "ref + 1" "op + 1" ?o] Suc.prems by auto
  have "take (op + 1) ?o = take op out @ [out ! ref]"
    using Suc.prems by (simp add: take_Suc_conv_app_nth)
  moreover have "take op out ! (op - 1 - (op - 1 - ref)) = out ! ref" using Suc.prems by simp
  ultimately show ?case
    using o Suc.prems by (simp add: mem_get_def mem_set_def)
qed simp

lemma dloop_run:
  assumes "mem_get inp ip = Some b" "unat b + 1 = n" "n \<le> 32" "op + n \<le> length out" "ip + 1 + n \<le> length inp"
    "copy_run inp n (ip + 1) op out = Some o1"
  shows "lzf_dloop inp ip op out =
    (if ip + 1 + n < length inp then lzf_dloop inp (ip + 1 + n) (op + n) o1 else Some (o1, op + n))"
  using assms by (subst lzf_dloop.simps) (auto simp: Let_def simp del: copy_run.simps)

lemma dloop_ref:
  assumes "mem_get inp ip = Some b" "unat b = ctrl" "32 \<le> ctrl" "ref_len inp (ip + 1) ctrl = Some (Some (len, ip1))"
    "mem_get inp ip1 = Some b1" "ref = int op - int (ctrl mod 32) * 256 - 1 - uint b1" "0 \<le> ref"
    "op + len + 2 \<le> length out" "copy_ref (len + 2) (nat ref) op out = Some o1"
  shows "lzf_dloop inp ip op out =
    (if ip1 + 1 < length inp then lzf_dloop inp (ip1 + 1) (op + len + 2) o1 else Some (o1, op + len + 2))"
  using assms by (subst lzf_dloop.simps) (auto simp: Let_def simp del: copy_ref.simps)

text \<open>A turn of the loop ends it, or goes on further in the input.\<close>

definition dl_ends :: "byte list \<Rightarrow> nat \<Rightarrow> nat \<Rightarrow> byte list \<Rightarrow> bool" where
  "dl_ends inp ip op out \<longleftrightarrow>
     (\<exists>out1 n. lzf_dloop inp ip op out = Some (out1, n) \<and> length out1 = length out \<and> n \<le> length out)"

definition dl_continues :: "byte list \<Rightarrow> nat \<Rightarrow> nat \<Rightarrow> byte list \<Rightarrow> bool" where
  "dl_continues inp ip op out \<longleftrightarrow>
     (\<exists>ip1 op1 out1. lzf_dloop inp ip op out = lzf_dloop inp ip1 op1 out1 \<and> ip < ip1 \<and> ip1 < length inp \<and>
        op1 \<le> length out1 \<and> length out1 = length out)"

lemma dloop_turn_run:
  assumes "ip < length inp" "op \<le> length out" "unat (inp ! ip) < 32"
  shows "dl_ends inp ip op out \<or> dl_continues inp ip op out"
proof -
  define n where "n = unat (inp ! ip) + 1"
  note u = lzf_dloop.simps[of inp ip op out]
  have g: "mem_get inp ip = Some (inp ! ip)" using assms by (simp add: mem_get_def)
  consider (short) "op + n > length out \<or> ip + 1 + n > length inp"
    | (fits) "op + n \<le> length out" "ip + 1 + n \<le> length inp" by linarith
  then show ?thesis
  proof cases
    case short
    then have "lzf_dloop inp ip op out = Some (out, 0)" using g assms by (auto simp: u n_def Let_def)
    then show ?thesis by (simp add: dl_ends_def)
  next
    case fits
    define o1 where "o1 = take op out @ take n (drop (ip + 1) inp) @ drop (op + n) out"
    have c: "copy_run inp n (ip + 1) op out = Some o1"
      unfolding o1_def using fits by (intro copy_run_Some)
    have l: "length o1 = length out" using fits by (simp add: o1_def)
    have d: "lzf_dloop inp ip op out =
        (if ip + 1 + n < length inp then lzf_dloop inp (ip + 1 + n) (op + n) o1 else Some (o1, op + n))"
      using g assms fits c n_def by (intro dloop_run) auto
    show ?thesis
    proof (cases "ip + 1 + n < length inp")
      case True
      then have "dl_continues inp ip op out"
        unfolding dl_continues_def using d fits l
        by (intro exI[of _ "ip + 1 + n"] exI[of _ "op + n"] exI[of _ o1]) simp
      then show ?thesis ..
    qed (use d fits l in \<open>simp add: dl_ends_def\<close>)
  qed
qed

lemma dloop_turn_ref:
  assumes "ip < length inp" "op \<le> length out" "\<not> unat (inp ! ip) < 32"
  shows "dl_ends inp ip op out \<or> dl_continues inp ip op out"
proof -
  define ctrl where "ctrl = unat (inp ! ip)"
  note u = lzf_dloop.simps[of inp ip op out]
  have g: "mem_get inp ip = Some (inp ! ip)" using assms by (simp add: mem_get_def)
  consider (short) "ref_len inp (ip + 1) ctrl = Some None"
    | (len) len ip1 where "ref_len inp (ip + 1) ctrl = Some (Some (len, ip1))" "ip < ip1" "ip1 < length inp"
  proof (cases "ip + 1 \<ge> length inp \<or> (ctrl div 32 = 7 \<and> ip + 2 \<ge> length inp)")
    case True
    then show thesis by (intro that(1)) (auto simp: ref_len_def mem_get_def)
  next
    case False
    then show thesis
      by (intro that(2)[of "if ctrl div 32 = 7 then 7 + unat (inp ! (ip + 1)) else ctrl div 32"
            "if ctrl div 32 = 7 then ip + 2 else ip + 1"])
         (auto simp: ref_len_def mem_get_def)
  qed
  then show ?thesis
  proof cases
    case short
    then have "lzf_dloop inp ip op out = Some (out, 0)" using g assms by (auto simp: u ctrl_def Let_def)
    then show ?thesis by (simp add: dl_ends_def)
  next
    case len
    define ref where "ref = int op - int (ctrl mod 32) * 256 - 1 - uint (inp ! ip1)"
    have g1: "mem_get inp ip1 = Some (inp ! ip1)" using len by (simp add: mem_get_def)
    show ?thesis
    proof (cases "op + len + 2 > length out \<or> ref < 0")
      case True
      then have "lzf_dloop inp ip op out = Some (out, 0)"
        using g assms len g1 by (auto simp: u ctrl_def ref_def Let_def)
      then show ?thesis by (simp add: dl_ends_def)
    next
      case False
      moreover have "ref < int op" using unsigned_greater_eq[of "inp ! ip1", where 'a = int] unfolding ref_def by linarith
      ultimately have "nat ref < op" "op + (len + 2) \<le> length out" by linarith+
      then obtain o1 where c: "copy_ref (len + 2) (nat ref) op out = Some o1" "length o1 = length out"
        using copy_ref_Some by blast
      have d: "lzf_dloop inp ip op out =
          (if ip1 + 1 < length inp then lzf_dloop inp (ip1 + 1) (op + len + 2) o1 else Some (o1, op + len + 2))"
        using g assms False len c g1 ref_def ctrl_def by (intro dloop_ref) auto
      show ?thesis
      proof (cases "ip1 + 1 < length inp")
        case True
        then have "dl_continues inp ip op out"
          unfolding dl_continues_def using d False len c
          by (intro exI[of _ "ip1 + 1"] exI[of _ "op + len + 2"] exI[of _ o1]) simp
        then show ?thesis ..
      qed (use d False c in \<open>simp add: dl_ends_def\<close>)
    qed
  qed
qed

lemma dloop_safe: "ip < length inp \<Longrightarrow> op \<le> length out \<Longrightarrow> dl_ends inp ip op out"
proof (induction "length inp - ip" arbitrary: ip op out rule: less_induct)
  case less
  then consider "dl_ends inp ip op out" | "dl_continues inp ip op out"
    using dloop_turn_run dloop_turn_ref by blast
  then show ?case
  proof cases
    case 2
    then obtain ip1 op1 out1 where s: "lzf_dloop inp ip op out = lzf_dloop inp ip1 op1 out1" "ip < ip1" "ip1 < length inp"
      "op1 \<le> length out1" "length out1 = length out" by (auto simp: dl_continues_def)
    then have "dl_ends inp ip1 op1 out1" using less(1)[of ip1] less.prems by simp
    then show ?thesis using s by (simp add: dl_ends_def)
  qed
qed

subsection \<open>Decompression of a sequence of tokens\<close>

lemma unat_byte: "k < 256 \<Longrightarrow> unat (of_nat k :: byte) = k"
  by (simp add: unat_of_nat)

lemma mem_get_at: "mem_get (pre @ x # post) (length pre) = Some x"
  by (simp add: mem_get_def)

lemma dloop_token:
  assumes "inp = pre @ lz_code t @ post" "lz_fits h t" "take (length h) out = h"
    "length (lz_produce h t) \<le> length out"
  obtains o1 where "length o1 = length out" "take (length (lz_produce h t)) o1 = lz_produce h t"
    "lzf_dloop inp (length pre) (length h) out =
       (if post = [] then Some (o1, length (lz_produce h t))
        else lzf_dloop inp (length (pre @ lz_code t)) (length (lz_produce h t)) o1)"
proof (cases t)
  case (LitRun bs)
  define b :: byte where "b = of_nat (length bs - 1)"
  have "length bs - 1 < 256" "bs \<noteq> []" using assms(2) LitRun by auto
  then have n: "unat b + 1 = length bs" by (simp add: b_def unat_of_nat)
  define o1 where "o1 = h @ bs @ drop (length h + length bs) out"
  have i: "inp = pre @ b # bs @ post" using assms(1) LitRun by (simp add: b_def)
  have "copy_run inp (length bs) (length pre + 1) (length h) out = Some o1"
    unfolding o1_def using assms(3,4) LitRun i by (subst copy_run_Some) auto
  moreover have "mem_get inp (length pre) = Some b" unfolding i by (rule mem_get_at)
  ultimately have "lzf_dloop inp (length pre) (length h) out =
      (if length pre + 1 + length bs < length inp then lzf_dloop inp (length pre + 1 + length bs) (length h + length bs) o1
       else Some (o1, length h + length bs))"
    using assms(2-4) LitRun n i by (intro dloop_run) auto
  then show thesis using that[of o1] assms(3,4) LitRun i by (auto simp: o1_def)
next
  case (BackRef d n)
  have f: "d < length h" "d < 8192" "3 \<le> n" "n \<le> 264" using assms(2) BackRef by auto
  define b :: byte where "b = of_nat (d div 256 + (if n < 9 then n - 2 else 7) * 32)"
  have "d div 256 < 32" using f by (simp add: less_mult_imp_div_less)
  then have c: "unat b = d div 256 + (if n < 9 then n - 2 else 7) * 32"
    unfolding b_def by (intro unat_byte) auto
  obtain mid where i: "inp = pre @ b # mid @ of_nat d # post" "lz_code t = b # mid @ [of_nat d]"
    "mid = (if n < 9 then [] else [of_nat (n - 9)])"
    using assms(1) BackRef by (auto simp: b_def split: if_splits)
  have r: "ref_len inp (length pre + 1) (unat b) = Some (Some (n - 2, length (pre @ b # mid)))"
  proof (cases "n < 9")
    case True
    then show ?thesis using \<open>d div 256 < 32\<close> f c i(1,3) by (auto simp: ref_len_def)
  next
    case False
    then have "unat (of_nat (n - 9) :: byte) = n - 9" using f by (intro unat_byte) auto
    then show ?thesis using \<open>d div 256 < 32\<close> False f c i(1,3) by (auto simp: ref_len_def mem_get_def nth_append)
  qed
  have m: "mem_get inp (length pre) = Some b" unfolding i(1) by (rule mem_get_at)
  have m1: "mem_get inp (length (pre @ b # mid)) = Some (of_nat d)"
    using mem_get_at[of "pre @ b # mid" "of_nat d" post] i(1) by simp
  have "uint (of_nat d :: byte) = int (d mod 256)" by (simp add: unsigned_of_nat take_bit_eq_mod of_nat_mod)
  moreover have "unat b mod 32 = d div 256" using c \<open>d div 256 < 32\<close> by (auto)
  moreover define r0 where "r0 = length h - 1 - d"
  ultimately have e: "int (length h) - int (unat b mod 32) * 256 - 1 - uint (of_nat d :: byte) = int (r0)"
    using f div_mult_mod_eq[of d 256] by linarith
  have r0: "r0 < length h" "length h - 1 - r0 = d" using f by (auto simp: r0_def)
  have n2: "n - 2 + 2 = n" using f by simp
  have "length h + n \<le> length out" using assms(4) BackRef by simp
  then obtain o1 where o1: "copy_ref n (r0) (length h) out = Some o1" "length o1 = length out"
    "take (length h + n) o1 = lz_copy n d h"
    using copy_ref_Some[OF r0(1)] r0(2) assms(3) by metis
  have "lzf_dloop inp (length pre) (length h) out =
    (if length (pre @ b # mid) + 1 < length inp then lzf_dloop inp (length (pre @ b # mid) + 1) (length h + (n - 2) + 2) o1
     else Some (o1, length h + (n - 2) + 2))"
    by (rule dloop_ref[OF m refl _ r m1 e[symmetric]]) (use c f o1 n2 assms(4) BackRef in \<open>auto simp del: copy_ref.simps\<close>)
  moreover have "length h + (n - 2) + 2 = length (lz_produce h t)" using BackRef f by simp
  moreover have "lz_produce h t = lz_copy n d h" using BackRef by simp
  ultimately show thesis using that[of o1] o1 f i by (auto simp: BackRef)
qed

lemma lz_code_nonempty [simp]: "lz_code t \<noteq> []"
  by (cases t) auto

lemma dloop_tokens:
  assumes "inp = pre @ concat (map lz_code ts)" "ts \<noteq> []" "lz_fit h ts" "take (length h) out = h"
    "length (foldl lz_produce h ts) \<le> length out"
  shows "\<exists>o1. lzf_dloop inp (length pre) (length h) out = Some (o1, length (foldl lz_produce h ts)) \<and>
    length o1 = length out \<and> take (length (foldl lz_produce h ts)) o1 = foldl lz_produce h ts"
  using assms
proof (induction ts arbitrary: pre h out)
  case (Cons t ts)
  have l: "length (lz_produce h t) \<le> length out"
    using Cons.prems(5) foldl_produce_length[of "lz_produce h t" ts] by simp
  obtain o1 where o1: "length o1 = length out" "take (length (lz_produce h t)) o1 = lz_produce h t"
    "lzf_dloop inp (length pre) (length h) out =
       (if concat (map lz_code ts) = [] then Some (o1, length (lz_produce h t))
        else lzf_dloop inp (length (pre @ lz_code t)) (length (lz_produce h t)) o1)"
    using dloop_token[OF _ _ Cons.prems(4) l, of inp pre "concat (map lz_code ts)"] Cons.prems(1,3) by auto
  show ?case
  proof (cases "ts = []")
    case False
    then have "concat (map lz_code ts) \<noteq> []" by (cases ts) auto
    then show ?thesis
      using Cons.IH[of "pre @ lz_code t" "lz_produce h t" o1] False Cons.prems o1 by (simp del: length_append)
  qed (use o1 in auto)
qed simp

subsection \<open>The compressor writes the format\<close>

text \<open>The block holds the codes of some tokens that expand to what has been read.\<close>

definition lz_closed :: "byte list \<Rightarrow> nat \<Rightarrow> byte list \<Rightarrow> nat \<Rightarrow> nat \<Rightarrow> lz_token list \<Rightarrow> bool" where
  "lz_closed inp L out op ip ts \<longleftrightarrow>
     length out = L \<and> op \<le> L \<and> take op out = concat (map lz_code ts) \<and> lz_fit [] ts \<and>
     ip \<le> length inp \<and> lz_expand ts = take ip inp"

text \<open>The invariant of the loops: behind the tokens there is room for a control byte, and then the literals of
  the run that has been started.\<close>

definition lz_inv :: "byte list \<Rightarrow> nat \<Rightarrow> nat \<Rightarrow> lz_token list \<Rightarrow> lzf \<Rightarrow> bool" where
  "lz_inv inp out_len L ts st \<longleftrightarrow>
     (let n = lz_op st - lz_lit st - 1 in
      lz_closed inp L (lz_out st) n (lz_ip st - lz_lit st) ts \<and> lz_lit st \<le> lz_ip st \<and> lz_ip st \<le> length inp \<and>
      lz_op st = n + 1 + lz_lit st \<and> lz_lit st \<le> 32 \<and>
      take (lz_lit st) (drop (n + 1) (lz_out st)) = take (lz_lit st) (drop (lz_ip st - lz_lit st) inp) \<and>
      out_len < L \<and> lz_op st \<le> out_len + (if lz_lit st = 0 then 1 else 0) \<and>
      (\<forall>h. lz_htab st h < 2 ^ 64 - 8192) \<and> int (length inp) < 2 ^ 32)"

lemma lz_expand_snoc: "lz_expand (ts @ [t]) = lz_produce (lz_expand ts) t"
  by (simp add: lz_expand_def)

lemma lz_closed_add:
  assumes "lz_closed inp L out op ip ts" "length out1 = L" "take op1 out1 = take op out @ lz_code t"
    "op1 \<le> L" "lz_fits (take ip inp) t" "lz_produce (take ip inp) t = take ip1 inp" "ip1 \<le> length inp"
  shows "lz_closed inp L out1 op1 ip1 (ts @ [t])"
  using assms by (simp add: lz_closed_def lz_expand_snoc lz_fit_append flip: lz_expand_def)

lemma lz_closed_len: "lz_closed inp L out op ip ts \<Longrightarrow> op \<le> length out"
  by (simp add: lz_closed_def)

lemma lz_closed_cong:
  "lz_closed inp L out op ip ts \<Longrightarrow> length out1 = length out \<Longrightarrow> take op out1 = take op out \<Longrightarrow>
   lz_closed inp L out1 op ip ts"
  by (simp add: lz_closed_def)

lemma take_split_nth: "n < length xs \<Longrightarrow> take (n + 1 + k) xs = take n xs @ xs ! n # take k (drop (n + 1) xs)"
  using take_add[of "n + 1" k xs] by (simp add: take_Suc_conv_app_nth)

lemma stop_run_closed:
  assumes "lz_inv inp out_len L ts st"
  obtains out1 ts1 where "stop_run (lz_out st) (lz_op st) (lz_lit st) = Some out1"
    "lz_closed inp L out1 (if lz_lit st = 0 then lz_op st - 1 else lz_op st) (lz_ip st) ts1"
    "(if lz_lit st = 0 then lz_op st - 1 else lz_op st) \<le> out_len"
proof -
  define n where "n = lz_op st - lz_lit st - 1"
  have i: "lz_closed inp L (lz_out st) n (lz_ip st - lz_lit st) ts" "lz_lit st \<le> lz_ip st" "lz_ip st \<le> length inp"
     "lz_op st = n + 1 + lz_lit st" "lz_lit st \<le> 32"
     "take (lz_lit st) (drop (n + 1) (lz_out st)) = take (lz_lit st) (drop (lz_ip st - lz_lit st) inp)"
     "out_len < L" "lz_op st \<le> out_len + (if lz_lit st = 0 then 1 else 0)"
    using assms by (simp_all add: lz_inv_def Let_def n_def)
  define out1 where "out1 = (lz_out st)[n := of_int (int (lz_lit st) - 1)]"
  have L: "length (lz_out st) = L" using i(1) by (simp add: lz_closed_def)
  have nL: "n < L" using i(4,7,8) by (simp split: if_splits)
  have s: "stop_run (lz_out st) (lz_op st) (lz_lit st) = Some out1"
    using i(4) nL L by (simp add: stop_run_def mem_set_def out1_def)
  show thesis
  proof (cases "lz_lit st = 0")
    case True
    have "lz_closed inp L out1 n (lz_ip st) ts"
      using lz_closed_cong[OF i(1), of out1] True by (simp add: out1_def)
    then show thesis using that[OF s, of ts] True i(4,8) by simp
  next
    case False
    define lits where "lits = take (lz_lit st) (drop (lz_ip st - lz_lit st) inp)"
    have ll: "length lits = lz_lit st" using i(2,3) by (simp add: lits_def)
    have "of_int (int (lz_lit st) - 1) = (of_nat (lz_lit st - 1) :: byte)"
      using False by (simp add: of_nat_diff)
    moreover have "take (lz_op st) out1 = take n out1 @ out1 ! n # take (lz_lit st) (drop (n + 1) out1)"
      unfolding i(4) by (rule take_split_nth) (simp add: out1_def nL L)
    ultimately have "take (lz_op st) out1 = take n (lz_out st) @ lz_code (LitRun lits)"
      using nL L i(6) ll by (simp add: out1_def lits_def)
    moreover have "lz_produce (take (lz_ip st - lz_lit st) inp) (LitRun lits) = take (lz_ip st) inp"
      using i(2) by (simp add: lits_def flip: take_add)
    ultimately have "lz_closed inp L out1 (lz_op st) (lz_ip st) (ts @ [LitRun lits])"
      using i ll False L by (intro lz_closed_add[OF i(1)]) (auto simp: out1_def)
    then show thesis using that[OF s, of "ts @ [LitRun lits]"] False i(8) by simp
  qed
qed

lemma lz_inv_start:
  assumes "lz_closed inp L (lz_out st) op (lz_ip st) ts" "lz_op st = op + 1" "lz_lit st = 0" "op \<le> out_len" "out_len < L"
    "\<forall>h. lz_htab st h < 2 ^ 64 - 8192" "int (length inp) < 2 ^ 32"
  shows "lz_inv inp out_len L ts st"
  using assms by (simp add: lz_inv_def lz_closed_def)

lemma lz_inv_glob: "lz_inv inp out_len L ts st \<Longrightarrow>
  out_len < L \<and> lz_ip st \<le> length inp \<and> (\<forall>h. lz_htab st h < 2 ^ 64 - 8192) \<and> int (length inp) < 2 ^ 32"
  by (simp add: lz_inv_def Let_def)

lemma lz_inv_literal:
  assumes "lz_inv inp out_len L ts st" "lz_lit st < 32" "lz_ip st < length inp" "lz_op st < out_len"
  shows "lz_op st < length (lz_out st)"
    "lz_inv inp out_len L ts (st\<lparr>lz_lit := lz_lit st + 1, lz_op := lz_op st + 1, lz_ip := lz_ip st + 1,
       lz_out := (lz_out st)[lz_op st := inp ! lz_ip st]\<rparr>)" (is "lz_inv _ _ _ _ ?st1")
proof -
  define n where "n = lz_op st - lz_lit st - 1"
  have i: "lz_closed inp L (lz_out st) n (lz_ip st - lz_lit st) ts" "lz_lit st \<le> lz_ip st"
     "lz_op st = n + 1 + lz_lit st"
     "take (lz_lit st) (drop (n + 1) (lz_out st)) = take (lz_lit st) (drop (lz_ip st - lz_lit st) inp)"
     "out_len < L" "\<forall>h. lz_htab st h < 2 ^ 64 - 8192" "int (length inp) < 2 ^ 32"
    using assms(1) by (simp_all add: lz_inv_def Let_def n_def)
  have L: "length (lz_out st) = L" using i(1) by (simp add: lz_closed_def)
  then show b: "lz_op st < length (lz_out st)" using assms(4) i(5) by simp
  define out1 where "out1 = (lz_out st)[lz_op st := inp ! lz_ip st]"
  have "lz_closed inp L out1 n (lz_ip st - lz_lit st) ts"
    using lz_closed_cong[OF i(1), of out1] i(3) by (simp add: out1_def)
  moreover have "take (lz_lit st + 1) (drop (n + 1) out1) = take (lz_lit st + 1) (drop (lz_ip st - lz_lit st) inp)"
  proof -
    have "take (lz_lit st) (drop (n + 1) out1) = take (lz_lit st) (drop (n + 1) (lz_out st))"
      using i(3) by (simp add: out1_def drop_update_swap)
    moreover have "drop (n + 1) out1 ! lz_lit st = inp ! lz_ip st" using b i(3) by (simp add: out1_def)
    moreover have "drop (lz_ip st - lz_lit st) inp ! lz_lit st = inp ! lz_ip st" using i(2) assms(3) by simp
    ultimately show ?thesis
      using b i(2,3,4) assms(3) by (simp add: take_Suc_conv_app_nth out1_def)
  qed
  moreover have n1: "lz_op st + 1 - (lz_lit st + 1) - 1 = n" using i(3) by simp
  ultimately show "lz_inv inp out_len L ts ?st1"
    using i(2,5-7) assms(2-4) n1 unfolding lz_inv_def out1_def[symmetric] by (simp add: i(3))
qed

definition lz_good :: "byte list \<Rightarrow> nat \<Rightarrow> nat \<Rightarrow> lzf \<Rightarrow> bool" where
  "lz_good inp out_len L st \<longleftrightarrow> (\<exists>ts. lz_inv inp out_len L ts st) \<and> lz_lit st < 32"

lemma copy_literal_good:
  assumes "lz_good inp out_len L st" "lz_ip st < length inp" "lz_op st < out_len"
  obtains st1 where "copy_literal inp st = Some st1" "lz_good inp out_len L st1" "lz_ip st1 = lz_ip st + 1"
    "lz_op st1 \<le> lz_op st + 2"
proof -
  obtain ts where ts: "lz_inv inp out_len L ts st" "lz_lit st < 32" using assms(1) by (auto simp: lz_good_def)
  define st1 where "st1 = st\<lparr>lz_lit := lz_lit st + 1, lz_op := lz_op st + 1, lz_ip := lz_ip st + 1,
       lz_out := (lz_out st)[lz_op st := inp ! lz_ip st]\<rparr>"
  note i = lz_inv_literal[OF ts assms(2,3), folded st1_def]
  have c: "copy_literal inp st = (if lz_lit st1 = MAX_LIT then do {
       out2 \<leftarrow> stop_run (lz_out st1) (lz_op st1) (lz_lit st1);
       Some (st1\<lparr>lz_out := out2, lz_lit := 0, lz_op := lz_op st1 + 1\<rparr>)
     } else Some st1)"
    using i(1) assms(2) by (simp add: copy_literal_def mem_get_def mem_set_def st1_def Let_def)
  show thesis
  proof (cases "lz_lit st1 = MAX_LIT")
    case True
    then have l: "lz_lit st1 \<noteq> 0" by (simp add: MAX_LIT_def)
    obtain out2 ts1 where s: "stop_run (lz_out st1) (lz_op st1) (lz_lit st1) = Some out2"
      "lz_closed inp L out2 (lz_op st1) (lz_ip st1) ts1" "lz_op st1 \<le> out_len"
      using stop_run_closed[OF i(2)] l by auto
    define st2 where "st2 = st1\<lparr>lz_out := out2, lz_lit := 0, lz_op := lz_op st1 + 1\<rparr>"
    have "lz_inv inp out_len L ts1 st2"
      using s lz_inv_glob[OF i(2)] by (intro lz_inv_start[of _ _ _ "lz_op st1"]) (auto simp: st2_def)
    then show thesis using that[of st2] c True s by (auto simp: lz_good_def st2_def st1_def)
  next
    case False
    then have "lz_lit st1 < 32" using ts(2) by (simp add: st1_def MAX_LIT_def)
    then show thesis using that[of st1] c False i(2) by (auto simp: lz_good_def st1_def)
  qed
qed

text \<open>\<open>n\<close> bytes at a position are those at an earlier one.\<close>

definition same_bytes :: "byte list \<Rightarrow> nat \<Rightarrow> nat \<Rightarrow> nat \<Rightarrow> bool" where
  "same_bytes inp ref ip n \<longleftrightarrow> ip + n \<le> length inp \<and> (\<forall>j<n. inp ! (ref + j) = inp ! (ip + j))"

lemma same_bytes_Suc:
  "same_bytes inp ref ip (Suc n) \<longleftrightarrow>
   same_bytes inp ref ip n \<and> ip + n < length inp \<and> inp ! (ref + n) = inp ! (ip + n)"
  by (auto simp: same_bytes_def less_Suc_eq)

lemma match_some_same:
  "ref < ip \<Longrightarrow> same_bytes inp ref ip (len + 1) \<Longrightarrow> ip + len + k < length inp \<Longrightarrow>
   \<exists>n go. match_some inp ref ip k len = Some (n, go) \<and> len \<le> n \<and> n \<le> len + k \<and>
     (if go then n = len + k \<and> same_bytes inp ref ip (n + 1) else len < n \<and> same_bytes inp ref ip n)"
proof (induction k arbitrary: len)
  case (Suc k)
  have g: "mem_get inp (ref + (len + 1)) = Some (inp ! (ref + (len + 1)))"
    "mem_get inp (ip + (len + 1)) = Some (inp ! (ip + (len + 1)))" using Suc.prems by (auto simp: mem_get_def)
  show ?case
  proof (cases "inp ! (ref + (len + 1)) = inp ! (ip + (len + 1))")
    case True
    then have "same_bytes inp ref ip (len + 1 + 1)" using Suc.prems same_bytes_Suc[of inp ref ip "len + 1"] by simp
    then obtain n go where "match_some inp ref ip k (len + 1) = Some (n, go)" "len + 1 \<le> n" "n \<le> len + 1 + k"
      "if go then n = len + 1 + k \<and> same_bytes inp ref ip (n + 1) else len + 1 < n \<and> same_bytes inp ref ip n"
      using Suc.IH[of "len + 1"] Suc.prems by auto
    then show ?thesis using g True by (auto split: if_splits)
  next
    case False
    then show ?thesis using g Suc.prems by auto
  qed
qed auto

lemma match_rest_same:
  "ref < ip \<Longrightarrow> same_bytes inp ref ip (len + 1) \<Longrightarrow> ip + maxlen < length inp \<Longrightarrow>
   \<exists>n. match_rest inp ref ip maxlen len = Some n \<and> len < n \<and> (n \<le> maxlen \<or> n = len + 1) \<and> same_bytes inp ref ip n"
proof (induction inp ref ip maxlen len rule: match_rest.induct)
  case (1 inp ref ip maxlen len)
  show ?case
  proof (cases "len + 1 < maxlen")
    case True
    then have g: "mem_get inp (ref + (len + 1)) = Some (inp ! (ref + (len + 1)))"
      "mem_get inp (ip + (len + 1)) = Some (inp ! (ip + (len + 1)))" using 1(2-) by (auto simp: mem_get_def)
    show ?thesis
    proof (cases "inp ! (ref + (len + 1)) = inp ! (ip + (len + 1))")
      case e: True
      then have "same_bytes inp ref ip (len + 1 + 1)"
        using 1(2-) True same_bytes_Suc[of inp ref ip "len + 1"] by simp
      then obtain n where "match_rest inp ref ip maxlen (len + 1) = Some n" "len + 1 < n"
          "n \<le> maxlen \<or> n = len + 1 + 1" "same_bytes inp ref ip n"
        using 1(1)[OF True g e] 1(2-) by auto
      then show ?thesis using True e g by (subst match_rest.simps) auto
    qed (use True g 1(3) in \<open>subst match_rest.simps, auto\<close>)
  qed (use 1(3) in \<open>subst match_rest.simps, auto\<close>)
qed

lemma match_len_same:
  assumes "ref < ip" "same_bytes inp ref ip 3" "ip + 4 < length inp"
  shows "\<exists>n. match_len inp ref ip = Some n \<and> 3 \<le> n \<and> n \<le> 264 \<and> same_bytes inp ref ip n"
proof -
  define m where "m = (if length inp - ip - 2 > MAX_REF then MAX_REF else length inp - ip - 2)"
  have m: "m \<le> 264" "3 \<le> m" "ip + m + 2 \<le> length inp" using assms(3) by (auto simp: m_def MAX_REF_def)
  have e: "match_len inp ref ip =
      (if m > 16 then do { (len, go) \<leftarrow> match_some inp ref ip 16 2;
           if go then match_rest inp ref ip m len else Some len } else match_rest inp ref ip m 2)"
    unfolding match_len_def m_def Let_def by simp
  show ?thesis
  proof (cases "m > 16")
    case True
    obtain n go where s: "match_some inp ref ip 16 2 = Some (n, go)" "2 \<le> n" "n \<le> 18"
      "if go then n = 18 \<and> same_bytes inp ref ip (n + 1) else 2 < n \<and> same_bytes inp ref ip n"
      using match_some_same[of ref ip inp 2 16] assms m True by (auto simp: numeral_3_eq_3 split: if_splits)
    show ?thesis
    proof (cases go)
      case go: True
      have "\<exists>k. match_rest inp ref ip m n = Some k \<and> n < k \<and> (k \<le> m \<or> k = n + 1) \<and> same_bytes inp ref ip k"
        using s go assms m by (intro match_rest_same) auto
      then show ?thesis using e True s go m by auto
    qed (use e True s in auto)
  next
    case False
    have "\<exists>k. match_rest inp ref ip m 2 = Some k \<and> 2 < k \<and> (k \<le> m \<or> k = 2 + 1) \<and> same_bytes inp ref ip k"
      using assms m by (intro match_rest_same) (auto simp: numeral_3_eq_3)
    then show ?thesis using e False m by auto
  qed
qed

lemma match_found_same:
  assumes "ref < 2 ^ 64 - 8192" "int ip < 2 ^ 32"
  shows "\<exists>m. match_found inp ip ref = Some m \<and>
    (m \<longrightarrow> 0 < ref \<and> ref < int ip \<and> lzf_off ip ref = int ip - ref - 1 \<and> int ip - ref - 1 < 8192 \<and>
       ip + 4 < length inp \<and> same_bytes inp (nat ref) ip 3)"
proof (cases "lzf_off ip ref < MAX_OFF \<and> ip + 4 < length inp \<and> ref > 0")
  case True
  have lt: "ref < int ip"
  proof (rule ccontr)
    assume "\<not> ref < int ip"
    then have "(int ip - ref - 1 + 2 ^ 64) mod 2 ^ 64 = int ip - ref - 1 + 2 ^ 64"
      using assms True by (intro mod_pos_pos_trivial) auto
    then have "lzf_off ip ref = int ip - ref - 1 + 2 ^ 64"
      unfolding lzf_off_def to_unsigned_def mod_add_self2 .
    then show False using True assms by (simp add: MAX_OFF_def)
  qed
  then have o: "lzf_off ip ref = int ip - ref - 1"
    using assms True unfolding lzf_off_def to_unsigned_def by (intro mod_pos_pos_trivial) auto
  define r where "r = nat ref"
  have r: "r < ip" "r + 4 < length inp" using lt True by (auto simp: r_def)
  have t: "take 2 (drop k inp) = [inp ! k, inp ! (k + 1)]" if "k + 4 < length inp" for k
    using that by (auto simp: numeral_2_eq_2 take_Suc_conv_app_nth simp flip: Cons_nth_drop_Suc)
  have s: "same_bytes inp r ip 3 \<longleftrightarrow> inp ! r = inp ! ip \<and> inp ! (r + 1) = inp ! (ip + 1) \<and> inp ! (r + 2) = inp ! (ip + 2)"
    using True by (auto simp: same_bytes_def numeral_3_eq_3 numeral_2_eq_2 less_Suc_eq)
  have "match_found inp ip ref = Some (same_bytes inp r ip 3)"
    using True r unfolding match_found_def r_def[symmetric] s
    by (auto simp: mem_read_def mem_get_def t)
  then show ?thesis using lt o True by (auto simp: MAX_OFF_def r_def)
qed (auto simp: match_found_def)

text \<open>A back reference is written behind the tokens.\<close>

lemma put_ref_code:
  assumes "op + 3 \<le> length out" "off < 8192" "3 \<le> n" "n \<le> 264"
  shows "\<exists>out1 op1. put_ref out op (int off) (n - 2) = Some (out1, op1) \<and> length out1 = length out \<and>
    op1 \<le> op + 3 \<and> take op1 out1 = take op out @ lz_code (BackRef off n)"
proof (cases "n < 9")
  case True
  have b: "of_int (int off div 256 + int (n - 2) * 32) = (of_nat (off div 256 + (n - 2) * 32) :: byte)"
    using of_int_of_nat_eq[of "off div 256 + (n - 2) * 32", where 'a = byte] by (simp add: zdiv_int)
  have "take (op + 2) ((out[op := x])[op + 1 := y]) = take op out @ [x, y]" for x y :: byte
    using assms(1) by (simp add: take_Suc_conv_app_nth numeral_2_eq_2)
  moreover have "n - 2 < 7" using True assms(3) by simp
  ultimately show ?thesis using assms True b
    by (simp add: put_ref_def mem_set_def)
next
  case False
  have b: "of_int (int off div 256 + 7 * 32) = (of_nat (off div 256 + 224) :: byte)"
    "of_int (int (n - 2) - 7) = (of_nat (n - 9) :: byte)"
    using False of_int_of_nat_eq[of "off div 256", where 'a = byte] by (simp_all add: zdiv_int of_nat_diff)
  have "take (op + 3) (((out[op := x])[op + 1 := y])[op + 2 := z]) = take op out @ [x, y, z]" for x y z :: byte
    using assms(1) by (simp add: take_Suc_conv_app_nth numeral_3_eq_3)
  then have "take (Suc (Suc (Suc op))) (((out[op := x])[Suc op := y])[Suc (Suc op) := z]) = take op out @ [x, y, z]"
    for x y z :: byte by (simp add: numeral_3_eq_3)
  moreover have "\<not> n - 2 < 7" using False by simp
  ultimately show ?thesis using assms False b
    by (simp add: put_ref_def mem_set_def)
qed

lemma lz_copy_same:
  assumes "same_bytes inp ref ip n" "ref < ip"
  shows "lz_copy n (ip - 1 - ref) (take ip inp) = take (ip + n) inp"
  using assms
proof (induction n arbitrary: ref ip)
  case (Suc n)
  have s: "same_bytes inp (ref + 1) (ip + 1) n" "inp ! ref = inp ! ip" "ip < length inp"
    using Suc.prems by (auto simp: same_bytes_def dest: spec[of _ 0] spec[of _ "Suc _"])
  have "take ip inp ! (ip - 1 - (ip - 1 - ref)) = inp ! ip" using s Suc.prems by simp
  then have "take ip inp @ [take ip inp ! (length (take ip inp) - 1 - (ip - 1 - ref))] = take (ip + 1) inp"
    using s by (simp add: take_Suc_conv_app_nth)
  then show ?case using Suc.IH[OF s(1)] Suc.prems by simp
qed simp

lemma rehash2_Some:
  assumes "ip + 3 < length inp" "\<forall>h. htab h < 2 ^ 64 - 8192" "int (length inp) < 2 ^ 32"
  obtains hval htab1 where "rehash2 inp ip htab = Some (hval, htab1)" "\<forall>h. htab1 h < 2 ^ 64 - 8192"
  using assms by (auto simp: rehash2_def FRST_def NEXT_def mem_get_def)

lemma take_match_good:
  assumes "lz_good inp out_len L st" "0 < ref" "ref < int (lz_ip st)" "lzf_off (lz_ip st) ref = int (lz_ip st) - ref - 1"
    "int (lz_ip st) - ref - 1 < 8192" "lz_ip st + 4 < length inp" "same_bytes inp (nat ref) (lz_ip st) 3"
  shows "\<exists>t. take_match inp out_len st ref = Some t \<and>
    (case t of
       Lz_Next st1 \<Rightarrow> lz_good inp out_len L st1 \<and> lz_ip st < lz_ip st1
     | Lz_Break st1 \<Rightarrow> lz_good inp out_len L st1 \<and> lz_ip st1 + 2 \<ge> length inp
     | Lz_Fail out \<Rightarrow> length out = L)"
proof -
  obtain ts where ts: "lz_inv inp out_len L ts st" "lz_lit st < 32" using assms(1) by (auto simp: lz_good_def)
  note g = lz_inv_glob[OF ts(1)]
  define op1 where "op1 = (if lz_lit st = 0 then lz_op st - 1 else lz_op st)"
  obtain out1 ts1 where s: "stop_run (lz_out st) (lz_op st) (lz_lit st) = Some out1"
    "lz_closed inp L out1 op1 (lz_ip st) ts1" "op1 \<le> out_len"
    using stop_run_closed[OF ts(1)] unfolding op1_def by blast
  have L: "length out1 = L" using s(2) by (simp add: lz_closed_def)
  show ?thesis
  proof (cases "op1 + 3 + 1 \<ge> out_len")
    case True
    then show ?thesis using s L by (auto simp: take_match_def op1_def)
  next
    case False
    define r where "r = nat ref"
    have r: "r < lz_ip st" "lzf_off (lz_ip st) ref = int (lz_ip st - 1 - r)" "lz_ip st - 1 - r < 8192"
      using assms(2-5) by (auto simp: r_def)
    obtain n where n: "match_len inp r (lz_ip st) = Some n" "3 \<le> n" "n \<le> 264" "same_bytes inp r (lz_ip st) n"
      using match_len_same[OF r(1)] assms(6,7) by (auto simp: r_def)
    obtain out2 op2 where p: "put_ref out1 op1 (int (lz_ip st - 1 - r)) (n - 2) = Some (out2, op2)"
      "length out2 = length out1" "op2 \<le> op1 + 3" "take op2 out2 = take op1 out1 @ lz_code (BackRef (lz_ip st - 1 - r) n)"
      using put_ref_code[of op1 out1 "lz_ip st - 1 - r" n] r n False L g by auto
    define ip2 where "ip2 = lz_ip st + n"
    define st2 where "st2 = st\<lparr>lz_ip := ip2, lz_op := op2 + 1, lz_out := out2, lz_lit := 0\<rparr>"
    have "lz_closed inp L out2 op2 ip2 (ts1 @ [BackRef (lz_ip st - 1 - r) n])"
    proof (rule lz_closed_add[OF s(2)])
      show "lz_produce (take (lz_ip st) inp) (BackRef (lz_ip st - 1 - r) n) = take ip2 inp"
        using lz_copy_same[OF n(4) r(1)] by (simp add: ip2_def)
      show "lz_fits (take (lz_ip st) inp) (BackRef (lz_ip st - 1 - r) n)" using r n g by auto
    qed (use p L False g n in \<open>auto simp: ip2_def same_bytes_def\<close>)
    then have i2: "lz_inv inp out_len L (ts1 @ [BackRef (lz_ip st - 1 - r) n]) (st2\<lparr>lz_hval := hv, lz_htab := ht\<rparr>)"
      if "\<forall>h. ht h < 2 ^ 64 - 8192" for hv ht
      using p False g that by (intro lz_inv_start[of _ _ _ op2]) (auto simp: st2_def)
    have good: "lz_good inp out_len L (st2\<lparr>lz_hval := hv, lz_htab := ht\<rparr>)" if "\<forall>h. ht h < 2 ^ 64 - 8192" for hv ht
      using i2[OF that] by (auto simp: lz_good_def st2_def)
    have ipe: "lz_ip st + 1 + (n - 2 + 1) = ip2" using n(2) by (simp add: ip2_def)
    have e: "take_match inp out_len st ref =
       (if ip2 + 2 \<ge> length inp then Some (Lz_Break st2)
        else do { (hval, htab) \<leftarrow> rehash2 inp (ip2 - 2) (lz_htab st);
                  Some (Lz_Next (st2\<lparr>lz_hval := hval, lz_htab := htab\<rparr>)) })"
      using False by (simp only: take_match_def s(1) Option.bind_lunit Let_def op1_def[symmetric] r_def[symmetric]
        n(1) r(2) p(1) if_False ipe st2_def prod.case)
    show ?thesis
    proof (cases "ip2 + 2 \<ge> length inp")
      case True
      have "lz_good inp out_len L st2" using good[of "lz_htab st" "lz_hval st"] g by (simp add: st2_def)
      then show ?thesis using e True by (simp add: st2_def)
    next
      case c: False
      then obtain hval htab1 where h: "rehash2 inp (ip2 - 2) (lz_htab st) = Some (hval, htab1)" "\<forall>h. htab1 h < 2 ^ 64 - 8192"
        using rehash2_Some[of "ip2 - 2" inp "lz_htab st"] n g by (auto simp: ip2_def)
      then show ?thesis using e c good[OF h(2)] n by (simp add: st2_def ip2_def)
    qed
  qed
qed

lemma lzf_step_good:
  assumes "lz_good inp out_len L st" "lz_ip st + 2 < length inp"
  shows "\<exists>t. lzf_step inp out_len st = Some t \<and>
    (case t of
       Lz_Next st1 \<Rightarrow> lz_good inp out_len L st1 \<and> lz_ip st < lz_ip st1
     | Lz_Break st1 \<Rightarrow> lz_good inp out_len L st1 \<and> lz_ip st1 + 2 \<ge> length inp
     | Lz_Fail out \<Rightarrow> length out = L)"
proof -
  obtain ts where ts: "lz_inv inp out_len L ts st" "lz_lit st < 32" using assms(1) by (auto simp: lz_good_def)
  note g = lz_inv_glob[OF ts(1)]
  obtain hval where hv: "NEXT (lz_hval st) inp (lz_ip st) = Some hval"
    using assms(2) by (auto simp: NEXT_def mem_get_def)
  define ref where "ref = lz_htab st (IDX hval)"
  define st1 where "st1 = st\<lparr>lz_hval := hval, lz_htab := (lz_htab st)(IDX hval := int (lz_ip st))\<rparr>"
  have i1: "lz_inv inp out_len L ts st1"
    using ts(1) g assms(2) unfolding lz_inv_def st1_def by (simp add: Let_def)
  then have g1: "lz_good inp out_len L st1" using ts(2) by (auto simp: lz_good_def st1_def)
  have "int (lz_ip st) < 2 ^ 32" using g assms(2) by linarith
  then obtain m where m: "match_found inp (lz_ip st) ref = Some m"
    "m \<longrightarrow> 0 < ref \<and> ref < int (lz_ip st) \<and> lzf_off (lz_ip st) ref = int (lz_ip st) - ref - 1 \<and>
       int (lz_ip st) - ref - 1 < 8192 \<and> lz_ip st + 4 < length inp \<and> same_bytes inp (nat ref) (lz_ip st) 3"
    using match_found_same[of ref "lz_ip st" inp] g by (auto simp: ref_def)
  have e: "lzf_step inp out_len st =
     (if m then take_match inp out_len st1 ref
      else if lz_op st1 \<ge> out_len then Some (Lz_Fail (lz_out st1))
      else do { st2 \<leftarrow> copy_literal inp st1; Some (Lz_Next st2) })"
    by (simp only: lzf_step_def hv Option.bind_lunit Let_def ref_def[symmetric] m(1) st1_def[symmetric])
  have ip: "lz_ip st1 = lz_ip st" by (simp add: st1_def)
  consider m | "\<not> m" "lz_op st1 \<ge> out_len" | "\<not> m" "lz_op st1 < out_len" by linarith
  then show ?thesis
  proof cases
    case 1
    then show ?thesis using take_match_good[OF g1, of ref] m(2) e unfolding ip by auto
  next
    case 2
    then show ?thesis using i1 e by (auto simp: lz_inv_def lz_closed_def Let_def)
  next
    case 3
    obtain st2 where "copy_literal inp st1 = Some st2" "lz_good inp out_len L st2" "lz_ip st2 = lz_ip st1 + 1"
      by (rule copy_literal_good[OF g1]) (use 3 assms(2) ip in auto)
    then show ?thesis using 3 e ip by simp
  qed
qed

lemma lzf_loop_good:
  "lz_good inp out_len L st \<Longrightarrow>
   \<exists>r. lzf_loop inp out_len st = Some r \<and>
    (case r of Inr st1 \<Rightarrow> lz_good inp out_len L st1 \<and> lz_ip st1 + 2 \<ge> length inp | Inl out \<Rightarrow> length out = L)"
proof (induction "length inp - lz_ip st" arbitrary: st rule: less_induct)
  case less
  show ?case
  proof (cases "lz_ip st + 2 < length inp")
    case True
    obtain t where t: "lzf_step inp out_len st = Some t"
      "case t of
         Lz_Next st1 \<Rightarrow> lz_good inp out_len L st1 \<and> lz_ip st < lz_ip st1
       | Lz_Break st1 \<Rightarrow> lz_good inp out_len L st1 \<and> lz_ip st1 + 2 \<ge> length inp
       | Lz_Fail out \<Rightarrow> length out = L"
      using lzf_step_good[OF less.prems True] by auto
    show ?thesis
    proof (cases t)
      case (Lz_Next st1)
      then have "length inp - lz_ip st1 < length inp - lz_ip st" "lz_good inp out_len L st1" using t True by auto
      then show ?thesis using less.hyps[of st1] Lz_Next t True by (subst lzf_loop.simps) simp
    qed (use t True in \<open>subst lzf_loop.simps, simp\<close>)+
  qed (use less.prems in \<open>subst lzf_loop.simps, simp\<close>)
qed

lemma lzf_tail_good:
  "lz_good inp out_len L st \<Longrightarrow> length inp \<le> lz_ip st + k \<Longrightarrow> k \<le> 2 \<Longrightarrow> lz_op st + 2 * k \<le> out_len + 1 \<Longrightarrow>
   \<exists>st1. lzf_tail inp st = Some st1 \<and> lz_good inp out_len L st1 \<and> lz_ip st1 = length inp"
proof (induction k arbitrary: st)
  case 0
  then have "lz_ip st = length inp" using lz_inv_glob by (fastforce simp: lz_good_def)
  then show ?case using 0 by (subst lzf_tail.simps) simp
next
  case (Suc k)
  show ?case
  proof (cases "lz_ip st < length inp")
    case True
    obtain st1 where "copy_literal inp st = Some st1" "lz_good inp out_len L st1" "lz_ip st1 = lz_ip st + 1"
      "lz_op st1 \<le> lz_op st + 2"
      by (rule copy_literal_good[OF Suc.prems(1) True]) (use Suc.prems in auto)
    then show ?thesis using Suc.IH[of st1] Suc.prems True by (subst lzf_tail.simps) simp
  next
    case False
    then have "lz_ip st = length inp" using lz_inv_glob Suc.prems(1) by (fastforce simp: lz_good_def)
    then show ?thesis using Suc.prems by (subst lzf_tail.simps) simp
  qed
qed

lemma lzf_compress_tokens:
  assumes "2 \<le> length inp" "int (length inp) < 2 ^ 32" "\<forall>h. htab h < 2 ^ 64 - 8192" "out_len < length out"
  shows "\<exists>out1 n. lzf_compress htab inp out out_len = Some (out1, n) \<and> length out1 = length out \<and> n \<le> out_len \<and>
    (n \<noteq> 0 \<longrightarrow> (\<exists>ts. take n out1 = concat (map lz_code ts) \<and> lz_fit [] ts \<and> lz_expand ts = inp))"
proof (cases "out_len = 0")
  case False
  define L where "L = length out"
  obtain hval where hv: "FRST inp 0 = Some hval"
    using assms(1) by (cases inp; cases "tl inp") (auto simp: FRST_def mem_get_def)
  define st where "st = \<lparr>lz_ip = 0, lz_op = 1, lz_out = out, lz_lit = 0, lz_hval = hval, lz_htab = htab\<rparr>"
  have "lz_inv inp out_len L [] st"
    using assms by (intro lz_inv_start[of _ _ _ 0]) (auto simp: st_def L_def lz_closed_def lz_expand_def)
  then have "lz_good inp out_len L st" by (auto simp: lz_good_def st_def)
  then obtain r where r: "lzf_loop inp out_len st = Some r"
    "case r of Inr st1 \<Rightarrow> lz_good inp out_len L st1 \<and> lz_ip st1 + 2 \<ge> length inp | Inl out \<Rightarrow> length out = L"
    using lzf_loop_good by blast
  have "inp \<noteq> []" using assms(1) by auto
  then have e: "lzf_compress htab inp out out_len =
        (case r of
           Inl out1 \<Rightarrow> Some (out1, 0)
         | Inr st \<Rightarrow>
             if lz_op st + 3 > out_len then Some (lz_out st, 0)
             else do {
               st1 \<leftarrow> lzf_tail inp st;
               out2 \<leftarrow> stop_run (lz_out st1) (lz_op st1) (lz_lit st1);
               Some (out2, if lz_lit st1 = 0 then lz_op st1 - 1 else lz_op st1)
             })"
    using False hv r(1)[unfolded st_def] by (simp add: lzf_compress_def)
  show ?thesis
  proof (cases r)
    case (Inl out1)
    then show ?thesis using e r(2) by (simp add: L_def)
  next
    case (Inr s1)
    show ?thesis
    proof (cases "lz_op s1 + 3 > out_len")
      case True
      then show ?thesis using e r(2) Inr by (auto simp: lz_good_def lz_inv_def lz_closed_def Let_def L_def)
    next
      case c: False
      then obtain st1 where s: "lzf_tail inp s1 = Some st1" "lz_good inp out_len L st1" "lz_ip st1 = length inp"
        using lzf_tail_good[of inp out_len L s1 2] r(2) Inr by auto
      then obtain ts where ts: "lz_inv inp out_len L ts st1" by (auto simp: lz_good_def)
      then obtain out2 ts1 where "stop_run (lz_out st1) (lz_op st1) (lz_lit st1) = Some out2"
        "lz_closed inp L out2 (if lz_lit st1 = 0 then lz_op st1 - 1 else lz_op st1) (lz_ip st1) ts1"
        "(if lz_lit st1 = 0 then lz_op st1 - 1 else lz_op st1) \<le> out_len"
        using stop_run_closed by blast
      then show ?thesis using e Inr c s by (auto simp: lz_closed_def L_def)
    qed
  qed
qed (use assms in \<open>auto simp: lzf_compress_def\<close>)

lemma lzf_compress_inverse:
  assumes "2 \<le> length inp" "int (length inp) < 2 ^ 32" "\<forall>h. htab h < 2 ^ 64 - 8192" "length out = out_len + 1"
  shows "\<exists>out1 n. lzf_compress htab inp out out_len = Some (out1, n) \<and> length out1 = length out \<and> n \<le> out_len \<and>
    (n \<noteq> 0 \<longrightarrow> (\<forall>blk. length blk = length inp \<longrightarrow> lzf_decompress (take n out1) blk = Some (inp, length inp)))"
proof -
  obtain out1 n where c: "lzf_compress htab inp out out_len = Some (out1, n)" "length out1 = length out" "n \<le> out_len"
    "n \<noteq> 0 \<longrightarrow> (\<exists>ts. take n out1 = concat (map lz_code ts) \<and> lz_fit [] ts \<and> lz_expand ts = inp)"
    using lzf_compress_tokens[OF assms(1-3), of out_len out] assms(4) by auto
  have "lzf_decompress (take n out1) blk = Some (inp, length inp)" if nz: "n \<noteq> 0" and bl: "length blk = length inp" for blk
  proof -
    obtain ts where ts: "take n out1 = concat (map lz_code ts)" "lz_fit [] ts" "lz_expand ts = inp"
      using c(4) nz by blast
    have "ts \<noteq> []" using ts(3) assms(1) by (auto simp: lz_expand_def)
    then show ?thesis
      using dloop_tokens[of "take n out1" "[]" ts "[]" blk] ts bl by (auto simp: lzf_decompress_def lz_expand_def)
  qed
  then show ?thesis using c by blast
qed

subsection \<open>Theorems\<close>

lemma lzf_decompress_ends:
  "inp \<noteq> [] \<Longrightarrow> \<exists>out1 n. lzf_decompress inp out = Some (out1, n) \<and> length out1 = length out \<and> n \<le> length out"
  using dloop_safe[of 0 inp 0 out] by (auto simp: lzf_decompress_def dl_ends_def)

text \<open>C36. On every input of at least one byte the decompressor returns, and it neither reads nor writes outside its blocks:
  corrupted data makes it return 0 or other bytes, no more; the output block keeps its length and the number that is
  returned lies within it.  The empty input is the exception: the first control byte is read before any test, so
  the code reads behind the input.  Both cases are for any input and any output block.\<close>

theorem lzf_decompress_safe:
  "if inp = [] then lzf_decompress inp out = None
   else \<exists>out1 n. lzf_decompress inp out = Some (out1, n) \<and> length out1 = length out \<and> n \<le> length out"
  using lzf_decompress_ends[of inp out] by (simp add: lzf_decompress_def lzf_dloop.simps[of "[]"] mem_get_def)

text \<open>C35. For an input of at least two bytes, and whatever the uninitialised hash table holds (any addresses, as long as the input does not lie in the first
  8 kilobytes of the address space), the compressor returns, accesses nothing outside the input and a block of one
  byte more than the length it is given, and writes a result within that length; and when it does
  not give up, decompressing the result into a block of the length of the input gives the input back.\<close>

theorem lzf_roundtrip:
  assumes "2 \<le> length inp" "int (length inp) < 2 ^ 32" "\<forall>h. htab h < 2 ^ 64 - 8192" "length out = out_len + 1"
  shows "\<exists>out1 n. lzf_compress htab inp out out_len = Some (out1, n) \<and> length out1 = length out \<and> n \<le> out_len \<and>
    (n \<noteq> 0 \<longrightarrow> (\<forall>blk. length blk = length inp \<longrightarrow> lzf_decompress (take n out1) blk = Some (inp, length inp)))"
  using assms by (rule lzf_compress_inverse)

theorem lzf_roundtrip_witness:
  "\<exists>out1 n. lzf_compress (\<lambda>h. - 1) (replicate 40 7) (replicate 37 0) 36 = Some (out1, n) \<and>
    length out1 = length (replicate 37 (0 :: byte)) \<and> n \<le> 36 \<and>
    (n \<noteq> 0 \<longrightarrow> (\<forall>blk. length blk = length (replicate 40 (7 :: byte)) \<longrightarrow>
       lzf_decompress (take n out1) blk = Some (replicate 40 7, length (replicate 40 (7 :: byte)))))"
  by (rule lzf_roundtrip) simp_all

text \<open>The byte more is needed: a match right behind a full run of literals at the end of the output is ended with
  a store behind it, before the space is tested.\<close>

lemma take_match_past_end:
  "lz_lit st = 0 \<Longrightarrow> lz_op st = length (lz_out st) + 1 \<Longrightarrow> take_match inp (length (lz_out st)) st ref = None"
  by (simp add: take_match_def stop_run_def mem_set_def)

end
