(* ===== verification/Set_Type.thy ===== *)
theory Set_Type
  imports Object Intset
begin

section \<open>Set objects (\<^verbatim>\<open>t_set.c\<close>, \<^verbatim>\<open>object.c\<close>)\<close>

text \<open>
  A set object is an intset as long as all its elements are integers and there are not too many, and a hash
  table of string objects otherwise.  The operations below choose between the two and convert; they are shown to
  implement sets of strings.  The hash table is the list of its keys in the order of an iteration, as in the
  theory of the server; its keys are string objects in either encoding, compared by
  \<^verbatim>\<open>dictEncObjKeyCompare\<close>.  An iterator is its position.  \<open>mx\<close> is the setting \<^verbatim>\<open>set-max-intset-entries\<close>.  \<open>None\<close> is
  a failed assertion or an access outside the intset.
\<close>

datatype set_obj = SetIntset intset | SetHT "str_val list"

definition REDIS_SET_MAX_INTSET_ENTRIES :: nat where "REDIS_SET_MAX_INTSET_ENTRIES = 512"

definition createIntsetObject :: set_obj where "createIntsetObject = SetIntset intsetNew"

definition createSetObject :: set_obj where "createSetObject = SetHT []"

definition decoded_text :: "str_val \<Rightarrow> string" where
  "decoded_text v = (case v of EncRaw t \<Rightarrow> t | EncInt n \<Rightarrow> snd (ll2string 32 n))"

definition dictEncObjKeyCompare :: "str_val \<Rightarrow> str_val \<Rightarrow> bool" where
  "dictEncObjKeyCompare a b =
     (case (a, b) of
        (EncInt v, EncInt w) \<Rightarrow> v = w
      | _ \<Rightarrow> decoded_text a = decoded_text b)"

text \<open>\<^verbatim>\<open>dictFind\<close>, \<^verbatim>\<open>dictAdd\<close> and \<^verbatim>\<open>dictDelete\<close> on the table of a set; adding a key that is there is refused.\<close>

definition ht_find :: "str_val list \<Rightarrow> str_val \<Rightarrow> bool" where
  "ht_find xs v = list_ex (\<lambda>w. dictEncObjKeyCompare v w) xs"

definition ht_add :: "str_val list \<Rightarrow> str_val \<Rightarrow> str_val list option" where
  "ht_add xs v = (if ht_find xs v then None else Some (xs @ [v]))"

definition ht_delete :: "str_val list \<Rightarrow> str_val \<Rightarrow> str_val list option" where
  "ht_delete xs v = (if ht_find xs v then Some (filter (\<lambda>w. \<not> dictEncObjKeyCompare v w) xs) else None)"

definition as_llong :: "str_val \<Rightarrow> int option" where
  "as_llong v = isObjectRepresentableAsLongLong (createObject 0 v)"

definition setTypeCreate :: "str_val \<Rightarrow> set_obj" where
  "setTypeCreate value = (if as_llong value \<noteq> None then createIntsetObject else createSetObject)"

text \<open>The object at a position of an iterator, or none at the end.\<close>

definition setTypeNextObject :: "set_obj \<Rightarrow> nat \<Rightarrow> str_val option option" where
  "setTypeNextObject so pos =
     (case so of
        SetHT xs \<Rightarrow> Some (if pos < length xs then Some (xs ! pos) else None)
      | SetIntset is \<Rightarrow>
          Option.bind (intsetGet is pos) (\<lambda>r.
            (case r of
               None \<Rightarrow> Some None
             | Some llele \<Rightarrow> map_option (\<lambda>ob. Some (o_ptr (ref_obj ob))) (createStringObjectFromLongLong 0 llele))))"

text \<open>A loop over an iterator.\<close>

partial_function (option) set_loop :: "set_obj \<Rightarrow> nat \<Rightarrow> ('a \<Rightarrow> str_val \<Rightarrow> 'a option) \<Rightarrow> 'a \<Rightarrow> 'a option" where
  "set_loop so pos f a =
     Option.bind (setTypeNextObject so pos) (\<lambda>r.
       (case r of
          None \<Rightarrow> Some a
        | Some v \<Rightarrow> Option.bind (f a v) (\<lambda>a1. set_loop so (pos + 1) f a1)))"

definition setTypeConvert :: "set_obj \<Rightarrow> set_obj option" where
  "setTypeConvert so =
     (case so of
        SetHT _ \<Rightarrow> None
      | SetIntset _ \<Rightarrow> map_option SetHT (set_loop so 0 ht_add []))"

definition setTypeSize :: "set_obj \<Rightarrow> nat" where
  "setTypeSize so = (case so of SetHT xs \<Rightarrow> length xs | SetIntset is \<Rightarrow> intsetLen is)"

definition setTypeAdd :: "nat \<Rightarrow> set_obj \<Rightarrow> str_val \<Rightarrow> (set_obj \<times> bool) option" where
  "setTypeAdd mx subject value =
     (case subject of
        SetHT xs \<Rightarrow>
          (case ht_add xs value of
             Some ys \<Rightarrow> Some (SetHT ys, True)
           | None \<Rightarrow> Some (subject, False))
      | SetIntset is \<Rightarrow>
          (case as_llong value of
             Some llval \<Rightarrow> do {
               (is1, success) \<leftarrow> intsetAdd is llval;
               if success then
                 (if intsetLen is1 > mx then do { so \<leftarrow> setTypeConvert (SetIntset is1); Some (so, True) }
                  else Some (SetIntset is1, True))
               else Some (SetIntset is1, False)
             }
           | None \<Rightarrow> do {
               so \<leftarrow> setTypeConvert subject;
               (case so of
                  SetHT xs \<Rightarrow> map_option (\<lambda>ys. (SetHT ys, True)) (ht_add xs value)
                | SetIntset _ \<Rightarrow> None)
             }))"

definition setTypeRemove :: "set_obj \<Rightarrow> str_val \<Rightarrow> (set_obj \<times> bool) option" where
  "setTypeRemove setobj value =
     (case setobj of
        SetHT xs \<Rightarrow>
          (case ht_delete xs value of
             Some ys \<Rightarrow> Some (SetHT ys, True)
           | None \<Rightarrow> Some (setobj, False))
      | SetIntset is \<Rightarrow>
          (case as_llong value of
             Some llval \<Rightarrow> map_option (\<lambda>(is1, success). (SetIntset is1, success)) (intsetRemove is llval)
           | None \<Rightarrow> Some (setobj, False)))"

definition setTypeIsMember :: "set_obj \<Rightarrow> str_val \<Rightarrow> bool option" where
  "setTypeIsMember subject value =
     (case subject of
        SetHT xs \<Rightarrow> Some (ht_find xs value)
      | SetIntset is \<Rightarrow>
          (case as_llong value of
             Some llval \<Rightarrow> intsetFind is llval
           | None \<Rightarrow> Some False))"

text \<open>\<open>r\<close> is the random number; \<^verbatim>\<open>dictGetRandomKey\<close> of a table that is not empty returns one of its keys.\<close>

definition setTypeRandomElement :: "nat \<Rightarrow> set_obj \<Rightarrow> (str_val + int) option" where
  "setTypeRandomElement r setobj =
     (case setobj of
        SetHT xs \<Rightarrow> if xs = [] then None else Some (Inl (xs ! (r mod length xs)))
      | SetIntset is \<Rightarrow> map_option Inr (intsetRandom r is))"

subsection \<open>Sets of strings\<close>

definition val_ok :: "str_val \<Rightarrow> bool" where
  "val_ok v = (case v of EncRaw _ \<Rightarrow> True | EncInt n \<Rightarrow> is_llong n)"

text \<open>The elements in the order of an iteration, the set of their texts, and what keeps a set object well
  formed.\<close>

definition set_elems :: "set_obj \<Rightarrow> str_val list" where
  "set_elems so = (case so of SetHT xs \<Rightarrow> xs | SetIntset is \<Rightarrow> map EncInt (intset_elems is))"

definition set_texts :: "set_obj \<Rightarrow> string set" where
  "set_texts so = val_text ` set (set_elems so)"

definition set_ok :: "nat \<Rightarrow> set_obj \<Rightarrow> bool" where
  "set_ok mx so =
     (case so of
        SetHT xs \<Rightarrow> list_all val_ok xs \<and> distinct (map val_text xs)
      | SetIntset is \<Rightarrow> intset_inv is \<and> is_length is \<le> mx)"

lemma decoded_text: "val_ok v \<Longrightarrow> decoded_text v = val_text v"
  by (cases v) (auto simp: decoded_text_def val_text_def val_ok_def ll2string_eq)

lemma key_compare: "val_ok a \<Longrightarrow> val_ok b \<Longrightarrow> dictEncObjKeyCompare a b \<longleftrightarrow> val_text a = val_text b"
proof (cases a; cases b)
  fix v w assume "val_ok a" "val_ok b" "a = EncInt v" "b = EncInt w"
  then show ?thesis by (simp add: dictEncObjKeyCompare_def val_text_def val_ok_def ll_repr_inj)
qed (simp_all add: dictEncObjKeyCompare_def decoded_text)

lemma as_llong: "val_ok v \<Longrightarrow> as_llong v = Some n \<longleftrightarrow> is_llong n \<and> val_text v = ll_repr n"
proof (cases v)
  case (EncInt k)
  then show "val_ok v \<Longrightarrow> ?thesis"
    by (auto simp: as_llong_def isObjectRepresentableAsLongLong_def createObject_def val_text_def val_ok_def ll_repr_inj)
next
  case (EncRaw t)
  then show "val_ok v \<Longrightarrow> ?thesis"
    using string2ll_Some_repr[of t n] string2ll_ll_repr[of n]
    by (auto simp: as_llong_def isObjectRepresentableAsLongLong_def createObject_def val_text_def)
qed

lemma ht_find: "val_ok v \<Longrightarrow> list_all val_ok xs \<Longrightarrow> ht_find xs v \<longleftrightarrow> val_text v \<in> val_text ` set xs"
  by (auto simp: ht_find_def list_ex_iff list_all_iff key_compare)

lemma elems_llong: "intset_inv is \<Longrightarrow> x \<in> set (intset_elems is) \<Longrightarrow> is_llong x"
  by (auto simp: intset_inv_def intset_rep_def in_sint_def crange_simps)

lemma set_elems_ok: "set_ok mx so \<Longrightarrow> list_all val_ok (set_elems so)"
  by (cases so) (auto simp: set_ok_def set_elems_def list_all_iff val_ok_def elems_llong)

lemma set_elems_distinct: "set_ok mx so \<Longrightarrow> distinct (map val_text (set_elems so))"
proof (cases so)
  case (SetIntset "is")
  assume "set_ok mx so"
  then have i: "intset_inv is" using SetIntset by (simp add: set_ok_def)
  then have "distinct (intset_elems is)" by (auto simp: intset_inv_def intset_rep_def strict_sorted_iff)
  moreover have "inj_on ll_repr (set (intset_elems is))" using elems_llong[OF i] ll_repr_inj by (auto intro!: inj_onI)
  ultimately show ?thesis using SetIntset by (simp add: set_elems_def distinct_map comp_def val_text_def)
qed (simp add: set_ok_def set_elems_def)

lemma set_size: "set_ok mx so \<Longrightarrow> setTypeSize so = card (set_texts so)"
proof -
  assume "set_ok mx so"
  then have "card (set_texts so) = length (set_elems so)"
    using distinct_card[OF set_elems_distinct] by (simp add: set_texts_def)
  then show ?thesis by (cases so) (simp_all add: setTypeSize_def set_elems_def intsetLen_def intset_elems_def)
qed

subsection \<open>Iteration and conversion\<close>

lemma intset_get: "intset_inv is \<Longrightarrow>
  intsetGet is pos = Some (if pos < length (intset_elems is) then Some (intset_elems is ! pos) else None)"
  using rep_get[of "is" "intset_elems is" pos] by (auto simp: intset_inv_def intsetGet_def intset_elems_def)

lemma from_llong: "is_llong n \<Longrightarrow> \<exists>z. createStringObjectFromLongLong 0 n = Some z \<and> o_ptr (ref_obj z) = EncInt n"
  by (auto simp: createStringObjectFromLongLong_def ref_obj_def createObject_def crange_simps)

lemma next_object:
  "set_ok mx so \<Longrightarrow> setTypeNextObject so pos = Some (if pos < length (set_elems so) then Some (set_elems so ! pos) else None)"
  by (cases so) (auto simp: set_ok_def setTypeNextObject_def set_elems_def intset_get from_llong elems_llong)

lemma set_loop_from:
  "set_ok mx so \<Longrightarrow> pos \<le> length (set_elems so) \<Longrightarrow>
   set_loop so pos f a = run_option f a (drop pos (set_elems so))"
proof (induction "length (set_elems so) - pos" arbitrary: pos a)
  case 0
  then show ?case by (subst set_loop.simps) (simp add: next_object)
next
  case (Suc n)
  then have "pos < length (set_elems so)" by simp
  moreover have "set_loop so (Suc pos) f = (\<lambda>b. run_option f b (drop (Suc pos) (set_elems so)))"
    using Suc by (intro ext Suc.hyps(1)) auto
  ultimately show ?case using Suc.prems
    by (subst set_loop.simps) (simp add: next_object flip: Cons_nth_drop_Suc)
qed

lemma set_loop_run: "set_ok mx so \<Longrightarrow> set_loop so 0 f a = run_option f a (set_elems so)"
  by (simp add: set_loop_from)

lemma ht_add_all:
  "list_all val_ok (ys @ xs) \<Longrightarrow> distinct (map val_text (ys @ xs)) \<Longrightarrow> run_option ht_add ys xs = Some (ys @ xs)"
proof (induction xs arbitrary: ys)
  case (Cons x xs)
  then have "ht_add ys x = Some (ys @ [x])" by (auto simp: ht_add_def ht_find)
  then show ?case using Cons.IH[of "ys @ [x]"] Cons.prems by simp
qed simp

lemma convert_spec: "set_ok mx (SetIntset is) \<Longrightarrow> setTypeConvert (SetIntset is) = Some (SetHT (set_elems (SetIntset is)))"
  using set_loop_run[of mx "SetIntset is" ht_add "[]"] ht_add_all[of "[]" "set_elems (SetIntset is)"]
    set_elems_ok set_elems_distinct by (simp add: setTypeConvert_def)

lemma set_ok_mono: "set_ok mx so \<Longrightarrow> mx \<le> my \<Longrightarrow> set_ok my so"
  by (cases so) (auto simp: set_ok_def)

lemma convert_ok: "set_ok mx so \<Longrightarrow> set_ok my (SetHT (set_elems so)) \<and> set_texts (SetHT (set_elems so)) = set_texts so"
  using set_elems_ok[of mx so] set_elems_distinct[of mx so]
  by (simp add: set_ok_def set_texts_def) (simp add: set_elems_def)

lemma texts_intset: "set_texts (SetIntset is) = ll_repr ` intset_set is"
  by (simp add: set_texts_def set_elems_def intset_set_def val_text_def image_image)

lemma texts_ht: "set_texts (SetHT xs) = val_text ` set xs"
  by (simp add: set_texts_def set_elems_def)

lemma text_in_intset:
  "intset_inv is \<Longrightarrow> is_llong n \<Longrightarrow> ll_repr n \<in> ll_repr ` intset_set is \<longleftrightarrow> n \<in> intset_set is"
  using elems_llong ll_repr_inj by (auto simp: intset_set_def)

lemma not_int_text: "val_ok v \<Longrightarrow> as_llong v = None \<Longrightarrow> intset_inv is \<Longrightarrow> val_text v \<notin> ll_repr ` intset_set is"
  using as_llong[of v] elems_llong by (fastforce simp: intset_set_def)

subsection \<open>The operations\<close>

lemma add_spec:
  assumes "set_ok mx so" "val_ok v" "mx < 2 ^ 28 - 1"
  shows "\<exists>so1. setTypeAdd mx so v = Some (so1, val_text v \<notin> set_texts so) \<and> set_ok mx so1 \<and>
    set_texts so1 = insert (val_text v) (set_texts so)"
proof (cases so)
  case (SetHT xs)
  then have x: "list_all val_ok xs" "distinct (map val_text xs)" using assms by (auto simp: set_ok_def)
  then show ?thesis using SetHT assms(2)
    by (auto simp: setTypeAdd_def ht_add_def ht_find texts_ht set_ok_def insert_absorb)
next
  case (SetIntset "is")
  then have i: "intset_inv is" "is_length is \<le> mx" using assms(1) by (auto simp: set_ok_def)
  show ?thesis
  proof (cases "as_llong v")
    case None
    have o: "list_all val_ok (set_elems so @ [v])" using set_elems_ok[OF assms(1)] assms(2) by simp
    have n: "val_text v \<notin> set_texts so" using not_int_text[OF assms(2) None i(1)] SetIntset texts_intset by simp
    then have "ht_add (set_elems so) v = Some (set_elems so @ [v])"
      using ht_find[OF assms(2)] set_elems_ok[OF assms(1)] by (simp add: ht_add_def set_texts_def)
    then have "setTypeAdd mx so v = Some (SetHT (set_elems so @ [v]), True)"
      using SetIntset None convert_spec[of mx "is"] assms(1) by (simp add: setTypeAdd_def)
    moreover have "set_ok mx (SetHT (set_elems so @ [v]))"
      using o n set_elems_distinct[OF assms(1)] by (auto simp: set_ok_def set_texts_def)
    ultimately show ?thesis using n by (auto simp: set_texts_def) (auto simp: set_elems_def)
  next
    case (Some n)
    then have n: "is_llong n" "val_text v = ll_repr n" using as_llong[OF assms(2)] by auto
    obtain is1 where a: "intsetAdd is n = Some (is1, n \<notin> intset_set is)" "intset_inv is1" "intset_set is1 = insert n (intset_set is)"
      using intset_add_spec[OF i(1) n(1)] i(2) assms(3) by auto
    have t: "val_text v \<in> set_texts so \<longleftrightarrow> n \<in> intset_set is"
      using text_in_intset[OF i(1) n(1)] n(2) SetIntset texts_intset by simp
    have t1: "set_texts (SetIntset is1) = insert (val_text v) (set_texts so)"
      using a(3) n(2) SetIntset texts_intset by simp
    show ?thesis
    proof (cases "n \<in> intset_set is")
      case True
      then have "is_length is1 = is_length is" using a(2,3) i intset_card by (metis insert_absorb)
      then show ?thesis using True a i t t1 Some SetIntset by (simp add: setTypeAdd_def set_ok_def)
    next
      case False
      have c: "set_ok (is_length is1) (SetIntset is1)" using a(2) by (simp add: set_ok_def)
      show ?thesis
      proof (cases "intsetLen is1 > mx")
        case True
        then show ?thesis using False a t t1 Some SetIntset convert_spec[OF c] convert_ok[OF c, of mx]
          by (simp add: setTypeAdd_def)
      next
        case l: False
        then show ?thesis using False a t t1 Some SetIntset by (simp add: setTypeAdd_def set_ok_def intsetLen_def)
      qed
    qed
  qed
qed

lemma remove_spec:
  assumes "set_ok mx so" "val_ok v"
  shows "\<exists>so1. setTypeRemove so v = Some (so1, val_text v \<in> set_texts so) \<and> set_ok mx so1 \<and>
    set_texts so1 = set_texts so - {val_text v}"
proof (cases so)
  case (SetHT xs)
  then have x: "list_all val_ok xs" "distinct (map val_text xs)" using assms by (auto simp: set_ok_def)
  have f: "filter (\<lambda>w. \<not> dictEncObjKeyCompare v w) xs = filter (\<lambda>w. val_text w \<noteq> val_text v) xs"
    using x(1) assms(2) by (intro filter_cong) (auto simp: key_compare list_all_iff)
  have "set_ok mx (SetHT (filter (\<lambda>w. val_text w \<noteq> val_text v) xs))"
    using x by (auto simp: set_ok_def list_all_iff distinct_map_filter)
  then show ?thesis using SetHT assms x f
    by (auto simp: setTypeRemove_def ht_delete_def ht_find texts_ht)
next
  case (SetIntset "is")
  then have i: "intset_inv is" "is_length is \<le> mx" using assms(1) by (auto simp: set_ok_def)
  show ?thesis
  proof (cases "as_llong v")
    case None
    then show ?thesis using not_int_text[OF assms(2) None i(1)] SetIntset assms(1)
      by (auto simp: setTypeRemove_def texts_intset)
  next
    case (Some n)
    then have n: "is_llong n" "val_text v = ll_repr n" using as_llong[OF assms(2)] by auto
    obtain is1 where a: "intsetRemove is n = Some (is1, n \<in> intset_set is)" "intset_inv is1" "intset_set is1 = intset_set is - {n}"
      using intset_remove_spec[OF i(1) n(1)] by auto
    have "is_length is1 \<le> is_length is" using intset_card[OF a(2)] intset_card[OF i(1)] a(3)
      by (metis card_mono Diff_subset finite_set intset_set_def)
    moreover have "ll_repr ` (intset_set is - {n}) = ll_repr ` intset_set is - {ll_repr n}"
      using elems_llong[OF i(1)] n(1) ll_repr_inj by (auto simp: intset_set_def)
    ultimately show ?thesis using a i n Some SetIntset text_in_intset[OF i(1) n(1)]
      by (simp add: setTypeRemove_def set_ok_def texts_intset)
  qed
qed

lemma member_spec: "set_ok mx so \<Longrightarrow> val_ok v \<Longrightarrow> setTypeIsMember so v = Some (val_text v \<in> set_texts so)"
proof (cases so)
  case (SetIntset "is")
  assume o: "set_ok mx so" "val_ok v"
  then have i: "intset_inv is" using SetIntset by (simp add: set_ok_def)
  show ?thesis
  proof (cases "as_llong v")
    case None
    then show ?thesis using not_int_text[OF o(2) None i] SetIntset by (simp add: setTypeIsMember_def texts_intset)
  next
    case (Some n)
    then have n: "is_llong n" "val_text v = ll_repr n" using as_llong[OF o(2)] by auto
    then show ?thesis using Some SetIntset intset_find_spec[OF i n(1)] text_in_intset[OF i n(1)]
      by (simp add: setTypeIsMember_def texts_intset)
  qed
qed (simp add: set_ok_def setTypeIsMember_def ht_find texts_ht)

lemma create_spec: "set_ok mx (setTypeCreate v) \<and> set_texts (setTypeCreate v) = {}"
  using rep_inv[OF intset_new_rep]
  by (simp add: setTypeCreate_def createIntsetObject_def createSetObject_def set_ok_def texts_intset texts_ht intsetNew_def)

lemma random_spec:
  assumes "set_ok mx so" "set_texts so \<noteq> {}"
  obtains (obj) v where "setTypeRandomElement r so = Some (Inl v)" "v \<in> set (set_elems so)"
  | (int) n where "setTypeRandomElement r so = Some (Inr n)" "EncInt n \<in> set (set_elems so)"
proof (cases so)
  case (SetHT xs)
  then show thesis using assms(2) by (intro obj[of "xs ! (r mod length xs)"]) (auto simp: setTypeRandomElement_def texts_ht set_elems_def)
next
  case (SetIntset "is")
  have i: "intset_rep is (intset_elems is)" "intset_elems is \<noteq> []" "is_length is = length (intset_elems is)"
    using assms SetIntset by (auto simp: set_ok_def texts_intset intset_inv_def intset_set_def intset_elems_def)
  then have "intsetRandom r is = Some (intset_elems is ! (r mod is_length is))"
    by (simp add: intsetRandom_def rep_get)
  then show thesis using SetIntset i(2,3) by (intro int[of "intset_elems is ! (r mod is_length is)"])
    (auto simp: setTypeRandomElement_def set_elems_def)
qed

text \<open>A set object with the default setting is a set of strings without a bound on its size, whose elements
  come in as raw strings.\<close>

interpretation sets: bounded_set createIntsetObject
  "\<lambda>so t. setTypeAdd REDIS_SET_MAX_INTSET_ENTRIES so (EncRaw t)" "\<lambda>so t. setTypeRemove so (EncRaw t)"
  "\<lambda>so t. setTypeIsMember so (EncRaw t)" set_texts "set_ok REDIS_SET_MAX_INTSET_ENTRIES" "\<lambda>t. True" cap
  for cap
proof (unfold_locales, goal_cases)
  case 1
  show ?case using rep_inv[OF intset_new_rep] by (simp add: createIntsetObject_def texts_intset)
next
  case 2
  show ?case using rep_inv[OF intset_new_rep] by (simp add: createIntsetObject_def set_ok_def intsetNew_def)
next
  case 3
  then show ?case by (simp add: set_texts_def)
next
  case (4 s v)
  then show ?case using add_spec[of REDIS_SET_MAX_INTSET_ENTRIES s "EncRaw v"]
    by (simp add: val_ok_def val_text_def REDIS_SET_MAX_INTSET_ENTRIES_def)
next
  case (5 s v)
  then show ?case using remove_spec[of _ s "EncRaw v"] by (simp add: val_ok_def val_text_def)
next
  case (6 s v)
  then show ?case using member_spec[of _ s "EncRaw v"] by (simp add: val_ok_def val_text_def)
qed

subsection \<open>Theorems\<close>

datatype set_op = Op_Add str_val | Op_Remove str_val | Op_Member str_val

fun op_val :: "set_op \<Rightarrow> str_val" where
  "op_val (Op_Add v) = v"
| "op_val (Op_Remove v) = v"
| "op_val (Op_Member v) = v"

text \<open>An operation on the object, and on the set of strings it stands for.\<close>

fun set_op_run :: "nat \<Rightarrow> set_obj \<Rightarrow> set_op \<Rightarrow> (set_obj \<times> bool) option" where
  "set_op_run mx so (Op_Add v) = setTypeAdd mx so v"
| "set_op_run mx so (Op_Remove v) = setTypeRemove so v"
| "set_op_run mx so (Op_Member v) = map_option (\<lambda>r. (so, r)) (setTypeIsMember so v)"

fun set_op_spec :: "string set \<Rightarrow> set_op \<Rightarrow> string set \<times> bool" where
  "set_op_spec A (Op_Add v) = (insert (val_text v) A, val_text v \<notin> A)"
| "set_op_spec A (Op_Remove v) = (A - {val_text v}, val_text v \<in> A)"
| "set_op_spec A (Op_Member v) = (A, val_text v \<in> A)"

fun set_ops_run :: "nat \<Rightarrow> set_obj \<Rightarrow> set_op list \<Rightarrow> (set_obj \<times> bool list) option" where
  "set_ops_run mx so [] = Some (so, [])"
| "set_ops_run mx so (x # xs) = do {
     (so1, r) \<leftarrow> set_op_run mx so x;
     (so2, rs) \<leftarrow> set_ops_run mx so1 xs;
     Some (so2, r # rs) }"

fun set_ops_spec :: "string set \<Rightarrow> set_op list \<Rightarrow> string set \<times> bool list" where
  "set_ops_spec A [] = (A, [])"
| "set_ops_spec A (x # xs) =
     (let (A1, r) = set_op_spec A x; (A2, rs) = set_ops_spec A1 xs in (A2, r # rs))"

lemma set_op_refines:
  assumes "set_ok mx so" "val_ok (op_val x)" "mx < 2 ^ 28 - 1"
  shows "\<exists>so1 r. set_op_run mx so x = Some (so1, r) \<and> set_ok mx so1 \<and> set_op_spec (set_texts so) x = (set_texts so1, r)"
proof (cases x)
  case (Op_Add v)
  then show ?thesis using add_spec[OF assms(1) _ assms(3), of v] assms(2) by auto
next
  case (Op_Remove v)
  then show ?thesis using remove_spec[OF assms(1), of v] assms(2) by auto
next
  case (Op_Member v)
  then show ?thesis using member_spec[OF assms(1), of v] assms by simp
qed

lemma set_ops_refine:
  "set_ok mx so \<Longrightarrow> \<forall>x \<in> set xs. val_ok (op_val x) \<Longrightarrow> mx < 2 ^ 28 - 1 \<Longrightarrow>
   \<exists>so1 rs. set_ops_run mx so xs = Some (so1, rs) \<and> set_ok mx so1 \<and> set_ops_spec (set_texts so) xs = (set_texts so1, rs)"
proof (induction xs arbitrary: so)
  case (Cons x xs)
  obtain so1 r where "set_op_run mx so x = Some (so1, r)" "set_ok mx so1" "set_op_spec (set_texts so) x = (set_texts so1, r)"
    using set_op_refines[of mx so x] Cons.prems by auto
  then show ?case using Cons.IH[of so1] Cons.prems by (fastforce simp: Let_def)
qed auto

text \<open>C37. Set objects implement sets of strings: any sequence of additions, removals and membership tests on a new
  set, with elements in either encoding, gives the results and the elements of the abstract set,
  through all changes of the representation between the packed integers and the hash table, without a failed
  assertion or an access outside the intset, and the size is the number of elements.\<close>

theorem set_type_implements_set:
  assumes "\<forall>x \<in> set xs. val_ok (op_val x)" "mx < 2 ^ 28 - 1"
  shows "\<exists>so1 rs. set_ops_run mx createIntsetObject xs = Some (so1, rs) \<and> set_ok mx so1 \<and>
    set_ops_spec {} xs = (set_texts so1, rs) \<and> setTypeSize so1 = card (set_texts so1)"
proof -
  have "set_ok mx createIntsetObject" "set_texts createIntsetObject = {}"
    using rep_inv[OF intset_new_rep] by (simp_all add: createIntsetObject_def set_ok_def texts_intset intsetNew_def)
  then show ?thesis using set_ops_refine[OF _ assms, of createIntsetObject] set_size by fastforce
qed

theorem set_type_implements_set_witness:
  "\<exists>so1 rs. set_ops_run 512 createIntsetObject [Op_Add (EncInt 5), Op_Add (EncRaw ''5''), Op_Add (EncRaw ''x'')] = Some (so1, rs) \<and>
    set_ok 512 so1 \<and>
    set_ops_spec {} [Op_Add (EncInt 5), Op_Add (EncRaw ''5''), Op_Add (EncRaw ''x'')] = (set_texts so1, rs) \<and>
    setTypeSize so1 = card (set_texts so1)"
  by (rule set_type_implements_set) (simp_all add: val_ok_def crange_simps)

text \<open>The conversion to a hash table keeps the elements and their order.\<close>

theorem setTypeConvert_keeps_elements:
  assumes "set_ok mx (SetIntset is)"
  shows "\<exists>xs. setTypeConvert (SetIntset is) = Some (SetHT xs) \<and> xs = map EncInt (intset_elems is) \<and>
    set_texts (SetHT xs) = set_texts (SetIntset is) \<and> set_ok mx (SetHT xs)"
  using convert_spec[OF assms] convert_ok[OF assms] by (simp add: set_elems_def)

end
