(* ===== verification/Rdb.thy ===== *)
theory Rdb
  imports Bitops Set_Type Lzf Crc64
begin

unbundle bit_operations_syntax

section \<open>The snapshot format (\<^verbatim>\<open>rio.c\<close>, \<^verbatim>\<open>rdb.c\<close>): streams, lengths, strings and objects\<close>

text \<open>
  A snapshot is written to and read from a file through \<^verbatim>\<open>rio\<close>, which keeps a running checksum.  A stream that
  is written has the list of what will happen to the next writes: \<open>Some k\<close> is a failure after \<open>k\<close> bytes, and when
  the list is used up all writes succeed.  \<^verbatim>\<open>fwrite\<close> and \<^verbatim>\<open>fread\<close> of no bytes report 0, that is, a failure.  A
  function that saves returns the stream and the number of bytes, or no number for -1; an outer \<open>None\<close> is an access
  outside a block.  A function that loads returns what it read and the stream, or the error: the end of the file
  (NULL in the source, \<open>Rdb_Short\<close>), an exit or a panic (\<open>Rdb_Abort\<close>), a read outside a block or a failed assertion
  on damaged data (\<open>Rdb_Wild\<close>), or a value of a type that is not modelled (\<open>Rdb_Other\<close>).  The first byte of a 32-bit length and the integers of the format are put
  together as in the source; the byte order is little-endian.  \<open>ht\<close> is the content of the uninitialised hash table
  of the compressor when it is called for a string.

  Only the file stream is modelled; the stream over a buffer, which DUMP and RESTORE use, reads no bytes with success.
  The numbers of bytes that are returned are \<^verbatim>\<open>int\<close> in the source and natural numbers here, so what is said about saving
  is about values whose encoding is shorter than 2 GB.
\<close>

subsection \<open>Streams\<close>

record rout =
  w_out :: "byte list"
  w_cksum :: "64 word"
  w_sum :: bool
  w_faults :: "nat option list"

record rin =
  in_bytes :: "byte list"
  in_cksum :: "64 word"
  in_sum :: bool

datatype rdb_error = Rdb_Short | Rdb_Abort | Rdb_Wild | Rdb_Other

definition rioWrite :: "rout \<Rightarrow> byte list \<Rightarrow> rout \<times> bool" where
  "rioWrite r bs =
     (let r1 = (if w_sum r then r\<lparr>w_cksum := crc64 (w_cksum r) bs\<rparr> else r) in
      if bs = [] then (r1, False)
      else (case w_faults r1 of
          [] \<Rightarrow> (r1\<lparr>w_out := w_out r1 @ bs\<rparr>, True)
        | None # fs \<Rightarrow> (r1\<lparr>w_out := w_out r1 @ bs, w_faults := fs\<rparr>, True)
        | Some k # fs \<Rightarrow> (r1\<lparr>w_out := w_out r1 @ take k bs, w_faults := fs\<rparr>, False)))"

definition rioRead :: "rin \<Rightarrow> nat \<Rightarrow> (byte list \<times> rin) option" where
  "rioRead r n =
     (if n = 0 \<or> length (in_bytes r) < n then None
      else Some (take n (in_bytes r),
        r\<lparr>in_bytes := drop n (in_bytes r),
          in_cksum := (if in_sum r then crc64 (in_cksum r) (take n (in_bytes r)) else in_cksum r)\<rparr>))"

text \<open>Sequencing: a -1 is passed on, and so is an error.\<close>

type_synonym saved = "(rout \<times> nat option) option"

definition sv_then :: "saved \<Rightarrow> (rout \<Rightarrow> nat \<Rightarrow> saved) \<Rightarrow> saved" where
  "sv_then m f = Option.bind m (\<lambda>(r, n). (case n of None \<Rightarrow> Some (r, None) | Some k \<Rightarrow> f r k))"

definition ld_then :: "rdb_error + 'a \<times> rin \<Rightarrow> ('a \<Rightarrow> rin \<Rightarrow> rdb_error + 'b \<times> rin) \<Rightarrow> rdb_error + 'b \<times> rin" where
  "ld_then m f = (case m of Inl e \<Rightarrow> Inl e | Inr (x, r) \<Rightarrow> f x r)"

definition rd :: "rin \<Rightarrow> nat \<Rightarrow> rdb_error + byte list \<times> rin" where
  "rd r n = (case rioRead r n of None \<Rightarrow> Inl Rdb_Short | Some x \<Rightarrow> Inr x)"

subsection \<open>Types, times and lengths\<close>

definition rdbWriteRaw :: "rout \<Rightarrow> byte list \<Rightarrow> rout \<times> nat option" where
  "rdbWriteRaw r p = (case rioWrite r p of (r1, ok) \<Rightarrow> (r1, if ok then Some (length p) else None))"

definition rdbSaveType :: "rout \<Rightarrow> byte \<Rightarrow> rout \<times> nat option" where
  "rdbSaveType r ty = rdbWriteRaw r [ty]"

definition rdbLoadType :: "rin \<Rightarrow> rdb_error + nat \<times> rin" where
  "rdbLoadType r = ld_then (rd r 1) (\<lambda>bs r1. Inr (unat (bs ! 0), r1))"

definition rdbLoadTime :: "rin \<Rightarrow> rdb_error + int \<times> rin" where
  "rdbLoadTime r = ld_then (rd r 4) (\<lambda>bs r1. Inr (le_sint bs, r1))"

definition rdbSaveMillisecondTime :: "rout \<Rightarrow> int \<Rightarrow> rout \<times> nat option" where
  "rdbSaveMillisecondTime r t = rdbWriteRaw r (le_bytes 8 t)"

definition rdbLoadMillisecondTime :: "rin \<Rightarrow> rdb_error + int \<times> rin" where
  "rdbLoadMillisecondTime r = ld_then (rd r 8) (\<lambda>bs r1. Inr (le_sint bs, r1))"

definition REDIS_RDB_LENERR :: nat where "REDIS_RDB_LENERR = 2 ^ 32 - 1"

text \<open>The argument is converted to 32 bits.  The second write of a long length is tested for -4, which it never
  returns.\<close>

definition rdbSaveLen :: "rout \<Rightarrow> nat \<Rightarrow> rout \<times> nat option" where
  "rdbSaveLen r n =
     (let len = n mod 2 ^ 32 in
      if len < 64 then
        (case rdbWriteRaw r [of_nat len] of
           (r1, None) \<Rightarrow> (r1, None)
         | (r1, Some _) \<Rightarrow> (r1, Some 1))
      else if len < 16384 then
        (case rdbWriteRaw r [of_nat (len div 256) OR 0x40, of_nat len] of
           (r1, None) \<Rightarrow> (r1, None)
         | (r1, Some _) \<Rightarrow> (r1, Some 2))
      else
        (case rdbWriteRaw r [0x80] of
           (r1, None) \<Rightarrow> (r1, None)
         | (r1, Some _) \<Rightarrow> (fst (rdbWriteRaw r1 (rev (le_bytes 4 (int len)))), Some 5)))"

text \<open>Whether the length is an encoding, and the length.\<close>

definition rdbLoadLen :: "rin \<Rightarrow> (bool \<times> nat) \<times> rin" where
  "rdbLoadLen r =
     (case rioRead r 1 of
        None \<Rightarrow> ((False, REDIS_RDB_LENERR), r)
      | Some (bs, r1) \<Rightarrow>
          (let b = bs ! 0; ty = drop_bit 6 (b AND 0xC0) in
           if ty = 3 then ((True, unat (b AND 0x3F)), r1)
           else if ty = 0 then ((False, unat (b AND 0x3F)), r1)
           else if ty = 1 then
             (case rioRead r1 1 of
                None \<Rightarrow> ((False, REDIS_RDB_LENERR), r1)
              | Some (cs, r2) \<Rightarrow> ((False, unat (b AND 0x3F) * 256 + unat (cs ! 0)), r2))
           else
             (case rioRead r1 4 of
                None \<Rightarrow> ((False, REDIS_RDB_LENERR), r1)
              | Some (cs, r2) \<Rightarrow> ((False, nat (le_uint (rev cs))), r2))))"

subsection \<open>Strings\<close>

text \<open>The bytes written to \<^verbatim>\<open>enc\<close>; none stands for the result 0.\<close>

definition rdbEncodeInteger :: "int \<Rightarrow> byte list" where
  "rdbEncodeInteger v =
     (if v \<ge> - (2 ^ 7) \<and> v \<le> 2 ^ 7 - 1 then 0xC0 # le_bytes 1 v
      else if v \<ge> - (2 ^ 15) \<and> v \<le> 2 ^ 15 - 1 then 0xC1 # le_bytes 2 v
      else if v \<ge> - (2 ^ 31) \<and> v \<le> 2 ^ 31 - 1 then 0xC2 # le_bytes 4 v
      else [])"

definition rdbLoadIntegerObject :: "rin \<Rightarrow> nat \<Rightarrow> bool \<Rightarrow> rdb_error + str_val \<times> rin" where
  "rdbLoadIntegerObject r enctype encode =
     (if enctype > 2 then Inl Rdb_Abort
      else ld_then (rd r (if enctype = 0 then 1 else if enctype = 1 then 2 else 4)) (\<lambda>bs r1.
        (let val = le_sint bs in
         if encode then
           (case createStringObjectFromLongLong 0 val of
              None \<Rightarrow> Inl Rdb_Abort
            | Some ob \<Rightarrow> Inr (o_ptr (ref_obj ob), r1))
         else
           (case sdsfromlonglong val of
              None \<Rightarrow> Inl Rdb_Abort
            | Some s \<Rightarrow> Inr (EncRaw (sds_str s), r1)))))"

definition rdbTryIntegerEncoding :: "string \<Rightarrow> byte list" where
  "rdbTryIntegerEncoding s =
     (case strtoll_end s of (value, endptr, erange) \<Rightarrow>
        if endptr \<noteq> [] then []
        else if snd (ll2string 32 value) \<noteq> s then []
        else rdbEncodeInteger value)"

definition rdbSaveLzfStringObject :: "(byte list \<Rightarrow> lzf_state_tab) \<Rightarrow> rout \<Rightarrow> byte list \<Rightarrow> saved" where
  "rdbSaveLzfStringObject ht r s =
     (if length s \<le> 4 then Some (r, Some 0)
      else do {
        let outlen = length s - 4;
        (out, comprlen) \<leftarrow> lzf_compress (ht s) s (replicate (outlen + 1) 0) outlen;
        if comprlen = 0 then Some (r, Some 0)
        else sv_then (Some (rdbWriteRaw r [0xC3])) (\<lambda>r1 n1.
          sv_then (Some (rdbSaveLen r1 comprlen)) (\<lambda>r2 n2.
            sv_then (Some (rdbSaveLen r2 (length s))) (\<lambda>r3 n3.
              sv_then (Some (rdbWriteRaw r3 (take comprlen out))) (\<lambda>r4 n4.
                Some (r4, Some (n1 + n2 + n3 + n4))))))
      })"

definition rdbLoadLzfStringObject :: "rin \<Rightarrow> rdb_error + str_val \<times> rin" where
  "rdbLoadLzfStringObject r =
     (case rdbLoadLen r of ((_, clen), r1) \<Rightarrow>
        if clen = REDIS_RDB_LENERR then Inl Rdb_Short
        else (case rdbLoadLen r1 of ((_, len), r2) \<Rightarrow>
          if len = REDIS_RDB_LENERR then Inl Rdb_Short
          else ld_then (rd r2 clen) (\<lambda>cs r3.
            (case lzf_decompress cs (replicate len 0) of
               None \<Rightarrow> Inl Rdb_Wild
             | Some (val, n) \<Rightarrow> if n = 0 then Inl Rdb_Short else Inr (EncRaw (of_bytes val), r3)))))"

definition rdbSaveRawString :: "(byte list \<Rightarrow> lzf_state_tab) \<Rightarrow> bool \<Rightarrow> rout \<Rightarrow> string \<Rightarrow> saved" where
  "rdbSaveRawString ht rdb_compression r s =
     (let enc = (if length s \<le> 11 then rdbTryIntegerEncoding s else []) in
      if enc \<noteq> [] then sv_then (Some (rdbWriteRaw r enc)) (\<lambda>r1 _. Some (r1, Some (length enc)))
      else sv_then
        (if rdb_compression \<and> length s > 20 then rdbSaveLzfStringObject ht r (to_bytes s) else Some (r, Some 0))
        (\<lambda>r1 n.
          if n > 0 then Some (r1, Some n)
          else sv_then (Some (rdbSaveLen r1 (length s))) (\<lambda>r2 n2.
            if length s > 0 then sv_then (Some (rdbWriteRaw r2 (to_bytes s))) (\<lambda>r3 _. Some (r3, Some (n2 + length s)))
            else Some (r2, Some n2))))"

definition rdbSaveLongLongAsStringObject :: "rout \<Rightarrow> int \<Rightarrow> saved" where
  "rdbSaveLongLongAsStringObject r value =
     (let enc = rdbEncodeInteger value in
      if enc \<noteq> [] then Some (rdbWriteRaw r enc)
      else (case ll2string 32 value of (enclen, digits) \<Rightarrow>
        if enclen \<ge> 32 then None
        else sv_then (Some (rdbSaveLen r enclen)) (\<lambda>r1 n1.
          sv_then (Some (rdbWriteRaw r1 (to_bytes digits))) (\<lambda>r2 n2. Some (r2, Some (n1 + n2))))))"

definition rdbSaveStringObject :: "(byte list \<Rightarrow> lzf_state_tab) \<Rightarrow> bool \<Rightarrow> rout \<Rightarrow> str_val \<Rightarrow> saved" where
  "rdbSaveStringObject ht rdb_compression r ob =
     (case ob of
        EncInt v \<Rightarrow> rdbSaveLongLongAsStringObject r v
      | EncRaw s \<Rightarrow> rdbSaveRawString ht rdb_compression r s)"

definition rdbGenericLoadStringObject :: "rin \<Rightarrow> bool \<Rightarrow> rdb_error + str_val \<times> rin" where
  "rdbGenericLoadStringObject r encode =
     (case rdbLoadLen r of ((isencoded, len), r1) \<Rightarrow>
        if isencoded then
          (if len \<le> 2 then rdbLoadIntegerObject r1 len encode
           else if len = 3 then rdbLoadLzfStringObject r1
           else Inl Rdb_Abort)
        else if len = REDIS_RDB_LENERR then Inl Rdb_Short
        else if len = 0 then Inr (EncRaw [], r1)
        else ld_then (rd r1 len) (\<lambda>bs r2. Inr (EncRaw (of_bytes bs), r2)))"

definition rdbLoadStringObject :: "rin \<Rightarrow> rdb_error + str_val \<times> rin" where
  "rdbLoadStringObject r = rdbGenericLoadStringObject r False"

definition rdbLoadEncodedStringObject :: "rin \<Rightarrow> rdb_error + str_val \<times> rin" where
  "rdbLoadEncodedStringObject r = rdbGenericLoadStringObject r True"

subsection \<open>What is written and what is read\<close>

definition wput :: "byte list \<Rightarrow> rout \<Rightarrow> rout" where
  "wput bs r = r\<lparr>w_out := w_out r @ bs, w_cksum := (if w_sum r then crc64 (w_cksum r) bs else w_cksum r)\<rparr>"

definition radv :: "byte list \<Rightarrow> rin \<Rightarrow> rin" where
  "radv bs r = r\<lparr>in_bytes := drop (length bs) (in_bytes r),
     in_cksum := (if in_sum r then crc64 (in_cksum r) bs else in_cksum r)\<rparr>"

text \<open>On a stream without faults \<open>f\<close> writes \<open>bs\<close>; on a stream that starts with \<open>bs\<close> \<open>f\<close> reads them as \<open>x\<close>.\<close>

definition writes :: "(rout \<Rightarrow> rout \<times> nat option) \<Rightarrow> byte list \<Rightarrow> bool" where
  "writes f bs \<longleftrightarrow> (\<forall>r. w_faults r = [] \<longrightarrow> f r = (wput bs r, Some (length bs)))"

definition saves :: "(rout \<Rightarrow> saved) \<Rightarrow> byte list \<Rightarrow> bool" where
  "saves f bs \<longleftrightarrow> (\<forall>r. w_faults r = [] \<longrightarrow> f r = Some (wput bs r, Some (length bs)))"

definition loads :: "(rin \<Rightarrow> rdb_error + 'a \<times> rin) \<Rightarrow> byte list \<Rightarrow> 'a \<Rightarrow> bool" where
  "loads f bs x \<longleftrightarrow> (\<forall>r rest. in_bytes r = bs @ rest \<longrightarrow> f r = Inr (x, radv bs r))"

lemma wput_fields [simp]: "w_faults (wput bs r) = w_faults r" "w_sum (wput bs r) = w_sum r" "w_out (wput bs r) = w_out r @ bs"
  by (simp_all add: wput_def)

lemma wput_append: "wput (a @ b) r = wput b (wput a r)"
  by (simp add: wput_def crc64_append)

lemma wput_Nil [simp]: "wput [] r = r"
  by (simp add: wput_def)

lemma radv_fields [simp]: "in_sum (radv bs r) = in_sum r" "in_bytes (radv bs r) = drop (length bs) (in_bytes r)"
  by (simp_all add: radv_def)

lemma radv_append: "radv (a @ b) r = radv b (radv a r)"
  by (simp add: radv_def crc64_append add.commute)

lemma radv_Nil [simp]: "radv [] r = r"
  by (simp add: radv_def)

lemma writeRaw_writes: "bs \<noteq> [] \<Longrightarrow> writes (\<lambda>r. rdbWriteRaw r bs) bs"
  by (simp add: writes_def rdbWriteRaw_def rioWrite_def wput_def)

lemma writes_saves: "writes f bs \<Longrightarrow> saves (\<lambda>r. Some (f r)) bs"
  by (simp add: writes_def saves_def)

lemma saves_sv_then:
  "saves f a \<Longrightarrow> w_faults r = [] \<Longrightarrow> sv_then (f r) g = g (wput a r) (length a)"
  by (simp add: saves_def sv_then_def)

lemma rioRead_take:
  "in_bytes r = bs @ rest \<Longrightarrow> bs \<noteq> [] \<Longrightarrow> length bs = n \<Longrightarrow> rioRead r n = Some (bs, radv bs r)"
  by (auto simp: rioRead_def radv_def)

lemma rd_loads: "bs \<noteq> [] \<Longrightarrow> length bs = n \<Longrightarrow> loads (\<lambda>r. rd r n) bs bs"
  by (simp add: loads_def rd_def rioRead_take)

lemma loads_then: "loads f a x \<Longrightarrow> in_bytes r = a @ rest \<Longrightarrow> ld_then (f r) g = g x (radv a r)"
  by (auto simp: loads_def ld_then_def)

text \<open>The bytes of a length.\<close>

definition len_bytes :: "nat \<Rightarrow> byte list" where
  "len_bytes n =
     (if n < 64 then [of_nat n]
      else if n < 16384 then [of_nat (n div 256) OR 0x40, of_nat n]
      else 0x80 # rev (le_bytes 4 (int n)))"

lemma len_bytes_nonempty [simp]: "len_bytes n \<noteq> []"
  by (simp add: len_bytes_def)

lemma saveLen_writes: "n < 2 ^ 32 \<Longrightarrow> writes (\<lambda>r. rdbSaveLen r n) (len_bytes n)"
proof -
  assume n: "n < 2 ^ 32"
  have w: "w_faults r = [] \<Longrightarrow> bs \<noteq> [] \<Longrightarrow> rdbWriteRaw r bs = (wput bs r, Some (length bs))" for r bs
    using writeRaw_writes by (simp add: writes_def)
  have l: "rev (le_bytes 4 (int n)) \<noteq> []" "length (le_bytes 4 (int n)) = 4"
    using length_le_bytes[of 4 "int n"] by (metis length_0_conv length_rev zero_neq_numeral) simp
  show ?thesis
    unfolding writes_def
  proof (intro allI impI)
    fix r :: rout assume f: "w_faults r = []"
    consider "n < 64" | "64 \<le> n" "n < 16384" | "16384 \<le> n" by linarith
    then show "rdbSaveLen r n = (wput (len_bytes n) r, Some (length (len_bytes n)))"
    proof cases
      case 3
      then have "rdbSaveLen r n = (wput (rev (le_bytes 4 (int n))) (wput [0x80] r), Some 5)"
        using n f w l by (simp add: rdbSaveLen_def)
      then show ?thesis using 3 l(2) wput_append[of "[0x80]" "rev (le_bytes 4 (int n))" r]
        by (simp add: len_bytes_def)
    qed (use n f w in \<open>simp_all add: rdbSaveLen_def len_bytes_def\<close>)
  qed
qed

lemma byte_parts: "unat (b AND 0x3F) = unat b mod 64" "unat (drop_bit 6 (b AND 0xC0)) = unat b div 64" for b :: byte
proof -
  have "b AND 0x3F = take_bit 6 b" by (simp add: take_bit_eq_mask mask_eq_exp_minus_1)
  then show "unat (b AND 0x3F) = unat b mod 64"
    by (simp only: unsigned_take_bit_eq) (simp add: take_bit_eq_mod)
  have "drop_bit 6 (b AND 0xC0) = drop_bit 6 b"
  proof (rule bit_word_eqI)
    fix n assume "n < LENGTH(8)"
    then have "n = 0 \<or> n = 1 \<or> 2 \<le> n" "n < 8" by auto
    then show "bit (drop_bit 6 (b AND 0xC0)) n = bit (drop_bit 6 b) n"
      by (auto simp: bit_simps dest: bit_imp_le_length)
  qed
  then show "unat (drop_bit 6 (b AND 0xC0)) = unat b div 64" using unsigned_less[of b, where 'a = nat]
    by (simp only: unsigned_drop_bit_eq) (simp add: drop_bit_eq_div take_bit_nat_eq_self)
qed

lemma byte_eq_nat: "b = c \<longleftrightarrow> unat b = unat c" for b c :: byte
  by (simp add: word_unat_eq_iff)

lemma or_0x40: "k < 64 \<Longrightarrow> unat ((of_nat k :: byte) OR 0x40) = k + 64"
proof -
  assume k: "k < 64"
  have "\<not> bit k 6" using k by (simp add: bit_iff_odd)
  then have "k AND 64 = 0" using and_exp_eq_0_iff_not_bit[of k 6] by simp
  then have "k + 64 = k OR 64" by (rule disjunctive_add_eq_or)
  then have "(of_nat k :: byte) OR 0x40 = of_nat (k + 64)" by (simp add: of_nat_or_eq del: of_nat_add)
  then show ?thesis using k by (simp add: unat_byte del: of_nat_add)
qed

lemma loadLen_loads:
  assumes "n < 2 ^ 32" "in_bytes r = len_bytes n @ rest"
  shows "rdbLoadLen r = ((False, n), radv (len_bytes n) r)"
proof -
  consider "n < 64" | "64 \<le> n" "n < 16384" | "16384 \<le> n" by linarith
  then show ?thesis
  proof cases
    case 1
    define b :: byte where "b = of_nat n"
    have b: "unat b = n" using 1 by (simp add: b_def unat_byte)
    have "rioRead r 1 = Some ([b], radv [b] r)"
      using assms(2) 1 by (intro rioRead_take[of _ _ rest]) (auto simp: len_bytes_def b_def)
    moreover have "drop_bit 6 (b AND 0xC0) = 0" "unat (b AND 0x3F) = n"
      using 1 b byte_parts[of b] by (simp_all add: byte_eq_nat)
    moreover have "len_bytes n = [b]" using 1 by (simp add: len_bytes_def b_def)
    ultimately show ?thesis by (simp add: rdbLoadLen_def Let_def)
  next
    case 2
    define b :: byte where "b = of_nat (n div 256) OR 0x40"
    define c :: byte where "c = of_nat n"
    have "n div 256 < 64" using 2 by (simp add: less_mult_imp_div_less)
    then have b: "unat b = n div 256 + 64" by (simp add: b_def or_0x40)
    have c: "unat c = n mod 256" by (simp add: c_def unsigned_of_nat take_bit_eq_mod)
    have l: "len_bytes n = [b, c]" using 2 by (simp add: len_bytes_def b_def c_def)
    have "rioRead r 1 = Some ([b], radv [b] r)"
      using assms(2) l by (intro rioRead_take[of _ _ "c # rest"]) auto
    moreover have "rioRead (radv [b] r) 1 = Some ([c], radv [c] (radv [b] r))"
      using assms(2) l by (intro rioRead_take[of _ _ rest]) auto
    moreover have "drop_bit 6 (b AND 0xC0) = 1" "unat (b AND 0x3F) = n div 256"
      using b byte_parts[of b] \<open>n div 256 < 64\<close> by (simp_all add: byte_eq_nat)
    ultimately show ?thesis using c l radv_append[of "[b]" "[c]" r] by (simp add: rdbLoadLen_def Let_def)
  next
    case 3
    define cs where "cs = rev (le_bytes 4 (int n))"
    have l: "len_bytes n = [0x80] @ cs" "length cs = 4" using 3 by (simp_all add: len_bytes_def cs_def)
    have "rioRead r 1 = Some ([0x80], radv [0x80] r)"
      using assms(2) l by (intro rioRead_take[of _ _ "cs @ rest"]) auto
    moreover have "rioRead (radv [0x80] r) 4 = Some (cs, radv cs (radv [0x80] r))"
      using assms(2) l by (intro rioRead_take[of _ _ rest]) auto
    moreover have "nat (le_uint (rev cs)) = n"
      using assms(1) by (simp add: cs_def le_uint_le_bytes nat_mod_distrib)
    ultimately show ?thesis using l radv_append[of "[0x80]" cs r] by (simp add: rdbLoadLen_def Let_def)
  qed
qed

subsection \<open>Strings are read as they were written\<close>

lemma loadLen_enc:
  assumes "in_bytes r = b # rest" "unat b = 192 + k" "k < 64"
  shows "rdbLoadLen r = ((True, k), radv [b] r)"
proof -
  have rr: "rioRead r 1 = Some ([b], radv [b] r)" using assms(1) by (intro rioRead_take[of _ _ rest]) auto
  have "(k + 3 * 64) mod 64 = k mod 64" "(k + 3 * 64) div 64 = 3 + k div 64" by (rule mod_mult_self1, rule div_mult_self1) simp
  then have "(192 + k) mod 64 = k" "(192 + k) div 64 = 3" using assms(3) by (simp_all add: add.commute)
  then have "drop_bit 6 (b AND 0xC0) = 3" "unat (b AND 0x3F) = k"
    using assms(2) byte_parts[of b] by (simp_all add: byte_eq_nat)
  then show ?thesis using rr by (simp add: rdbLoadLen_def Let_def)
qed

definition int_val :: "bool \<Rightarrow> int \<Rightarrow> str_val" where
  "int_val encode v = (if encode then EncInt v else EncRaw (ll_repr v))"

lemma int_val_text [simp]: "val_text (int_val encode v) = ll_repr v"
  by (simp add: int_val_def val_text_def)

lemma loadInteger_loads:
  assumes "is_llong v" "e \<le> 2" "le_sint bs = v" "length bs = (if e = 0 then 1 else if e = 1 then 2 else 4)"
  shows "loads (\<lambda>r. rdbLoadIntegerObject r e encode) bs (int_val encode v)"
proof -
  have n: "bs \<noteq> []" using assms(4) by (auto split: if_splits)
  obtain z where z: "createStringObjectFromLongLong 0 v = Some z" "o_ptr (ref_obj z) = EncInt v"
    using from_llong[OF assms(1)] by blast
  have "sdsfromlonglong v = sdsnewlen (Some (ll_repr v)) (length (ll_repr v))"
    using abs_llong_unsigned[OF assms(1)] by (cases "v < 0") (simp_all add: sdsfromlonglong_def ll_repr_def Let_def)
  then obtain s where s: "sdsfromlonglong v = Some s" "sds_str s = ll_repr v"
    using newlen_ok[of "length (ll_repr v)" "ll_repr v"] by auto
  show ?thesis
    unfolding loads_def
  proof (intro allI impI)
    fix r :: rin and rest assume "in_bytes r = bs @ rest"
    then have "ld_then (rd r (length bs)) g = g bs (radv bs r)" for g :: "byte list \<Rightarrow> rin \<Rightarrow> rdb_error + str_val \<times> rin"
      using loads_then[OF rd_loads[OF n refl]] by blast
    then show "rdbLoadIntegerObject r e encode = Inr (int_val encode v, radv bs r)"
      using assms z s by (simp add: rdbLoadIntegerObject_def int_val_def Let_def)
  qed
qed

lemma encodeInteger_loads:
  assumes "rdbEncodeInteger v \<noteq> []"
  shows "is_llong v" "loads (\<lambda>r. rdbGenericLoadStringObject r encode) (rdbEncodeInteger v) (int_val encode v)"
proof -
  obtain e b bs where e: "rdbEncodeInteger v = b # bs" "e \<le> 2" "unat b = 192 + e" "le_sint bs = v"
    "length bs = (if e = 0 then 1 else if e = 1 then 2 else 4)" "is_llong v"
  proof -
    consider (a) "v \<ge> - (2 ^ 7)" "v \<le> 2 ^ 7 - 1" | (b) "\<not> (v \<ge> - (2 ^ 7) \<and> v \<le> 2 ^ 7 - 1)" "v \<ge> - (2 ^ 15)" "v \<le> 2 ^ 15 - 1"
      | (c) "\<not> (v \<ge> - (2 ^ 7) \<and> v \<le> 2 ^ 7 - 1)" "\<not> (v \<ge> - (2 ^ 15) \<and> v \<le> 2 ^ 15 - 1)" "v \<ge> - (2 ^ 31)" "v \<le> 2 ^ 31 - 1"
      using assms unfolding rdbEncodeInteger_def by (auto split: if_splits)
    then show thesis
    proof cases
      case a
      then show thesis using that[of "0xC0" "le_bytes 1 v" 0] le_sint_le_bytes[of 1 v]
        by (simp add: rdbEncodeInteger_def in_sint_def crange_simps del: le_bytes.simps)
    next
      case b
      then show thesis using that[of "0xC1" "le_bytes 2 v" 1] le_sint_le_bytes[of 2 v]
        by (simp add: rdbEncodeInteger_def in_sint_def crange_simps del: le_bytes.simps)
    next
      case c
      then show thesis using that[of "0xC2" "le_bytes 4 v" 2] le_sint_le_bytes[of 4 v]
        by (simp add: rdbEncodeInteger_def in_sint_def crange_simps del: le_bytes.simps)
    qed
  qed
  show "is_llong v" by (rule e(6))
  show "loads (\<lambda>r. rdbGenericLoadStringObject r encode) (rdbEncodeInteger v) (int_val encode v)"
    unfolding loads_def
  proof (intro allI impI)
    fix r :: rin and rest assume i: "in_bytes r = rdbEncodeInteger v @ rest"
    then have "rdbLoadLen r = ((True, e), radv [b] r)" using e(1-3) by (intro loadLen_enc[of _ _ "bs @ rest"]) auto
    moreover have "rdbLoadIntegerObject (radv [b] r) e encode = Inr (int_val encode v, radv bs (radv [b] r))"
      using loadInteger_loads[OF e(6,2,4,5)] i e(1) by (simp add: loads_def)
    ultimately show "rdbGenericLoadStringObject r encode = Inr (int_val encode v, radv (rdbEncodeInteger v) r)"
      using e(1,2) radv_append[of "[b]" bs r] by (simp add: rdbGenericLoadStringObject_def)
  qed
qed

lemma strtoll_Some_llong: "is_llong (fst (strtoll_end s))"
  by (auto simp: strtoll_end_def Let_def crange_simps)

lemma tryInteger:
  assumes "rdbTryIntegerEncoding s \<noteq> []"
  obtains v where "is_llong v" "s = ll_repr v" "rdbTryIntegerEncoding s = rdbEncodeInteger v"
proof -
  obtain v e x where st: "strtoll_end s = (v, e, x)" by (cases "strtoll_end s") auto
  have "is_llong v" using strtoll_Some_llong[of s] st by simp
  then show thesis using that[of v] assms st ll2string_eq[of v 32] by (auto simp: rdbTryIntegerEncoding_def split: if_splits)
qed

lemma saves_cong: "(\<And>r. w_faults r = [] \<Longrightarrow> f r = g r) \<Longrightarrow> saves f bs = saves g bs"
  by (simp add: saves_def)

lemma saves_then_writes:
  "saves f a \<Longrightarrow> writes g b \<Longrightarrow> saves (\<lambda>r. sv_then (f r) (\<lambda>r1 n. sv_then (Some (g r1)) (\<lambda>r2 m. Some (r2, Some (n + m))))) (a @ b)"
  by (auto simp: saves_def writes_def sv_then_def wput_append)

text \<open>What the load of a string gives: the text, raw unless integers may stay encoded.\<close>

definition str_loads :: "byte list \<Rightarrow> string \<Rightarrow> bool" where
  "str_loads bs t \<longleftrightarrow> bs \<noteq> [] \<and>
     loads rdbLoadStringObject bs (EncRaw t) \<and>
     (\<exists>v. loads rdbLoadEncodedStringObject bs v \<and> val_ok v \<and> val_text v = t)"

lemma str_loads_int: "rdbEncodeInteger v \<noteq> [] \<Longrightarrow> str_loads (rdbEncodeInteger v) (ll_repr v)"
  using encodeInteger_loads(1)[of v] encodeInteger_loads(2)[of v False] encodeInteger_loads(2)[of v True]
  by (auto simp: str_loads_def rdbLoadStringObject_def[abs_def] rdbLoadEncodedStringObject_def[abs_def] int_val_def
      val_ok_def val_text_def intro!: exI[of _ "EncInt v"])

lemma str_loads_raw:
  assumes "bs \<noteq> []" "\<And>encode. loads (\<lambda>r. rdbGenericLoadStringObject r encode) bs (EncRaw t)"
  shows "str_loads bs t"
  using assms by (auto simp: str_loads_def rdbLoadStringObject_def[abs_def] rdbLoadEncodedStringObject_def[abs_def]
      val_ok_def val_text_def intro!: exI[of _ "EncRaw t"])

lemma str_loads_verbatim:
  assumes "length t < 2 ^ 32 - 1"
  shows "str_loads (len_bytes (length t) @ to_bytes t) t"
proof (rule str_loads_raw)
  fix encode
  have l: "length t < 2 ^ 32" using assms by simp
  show "loads (\<lambda>r. rdbGenericLoadStringObject r encode) (len_bytes (length t) @ to_bytes t) (EncRaw t)"
    unfolding loads_def
  proof (intro allI impI)
    fix r :: rin and rest assume "in_bytes r = (len_bytes (length t) @ to_bytes t) @ rest"
    then have i: "in_bytes r = len_bytes (length t) @ to_bytes t @ rest" by simp
    have n: "rdbLoadLen r = ((False, length t), radv (len_bytes (length t)) r)" by (rule loadLen_loads[OF l i])
    show "rdbGenericLoadStringObject r encode = Inr (EncRaw t, radv (len_bytes (length t) @ to_bytes t) r)"
    proof (cases "t = []")
      case True
      then show ?thesis using n by (simp add: rdbGenericLoadStringObject_def REDIS_RDB_LENERR_def to_bytes_def)
    next
      case False
      then have "to_bytes t \<noteq> []" by (simp add: to_bytes_def)
      moreover have "in_bytes (radv (len_bytes (length t)) r) = to_bytes t @ rest" using i by simp
      ultimately have "ld_then (rd (radv (len_bytes (length t)) r) (length t)) g =
          g (to_bytes t) (radv (to_bytes t) (radv (len_bytes (length t)) r))"
        for g :: "byte list \<Rightarrow> rin \<Rightarrow> rdb_error + str_val \<times> rin"
        by (intro loads_then[OF rd_loads]) auto
      then show ?thesis using n False assms
        by (simp add: rdbGenericLoadStringObject_def REDIS_RDB_LENERR_def radv_append)
    qed
  qed
qed simp

definition ht_ok :: "(byte list \<Rightarrow> lzf_state_tab) \<Rightarrow> bool" where
  "ht_ok ht \<longleftrightarrow> (\<forall>s h. ht s h < 2 ^ 64 - 8192)"

definition lzf_bytes :: "byte list \<Rightarrow> nat \<Rightarrow> byte list" where
  "lzf_bytes cs n = [0xC3] @ len_bytes (length cs) @ len_bytes n @ cs"

lemma wput_lzf_bytes: "wput (lzf_bytes cs n) r = wput cs (wput (len_bytes n) (wput (len_bytes (length cs)) (wput [0xC3] r)))"
  by (simp only: lzf_bytes_def wput_append)

lemma radv_lzf_bytes: "radv (lzf_bytes cs n) r = radv cs (radv (len_bytes n) (radv (len_bytes (length cs)) (radv [0xC3] r)))"
  by (simp only: lzf_bytes_def radv_append)

lemma length_lzf_bytes: "length (lzf_bytes cs n) = 1 + length (len_bytes (length cs)) + length (len_bytes n) + length cs"
  by (simp add: lzf_bytes_def)

lemma lzf_compressed:
  assumes "ht_ok ht" "4 < length s" "int (length s) < 2 ^ 32"
  obtains "\<And>r. rdbSaveLzfStringObject ht r s = Some (r, Some 0)"
  | cs where "saves (\<lambda>r. rdbSaveLzfStringObject ht r s) (lzf_bytes cs (length s))" "cs \<noteq> []" "length cs < length s"
      "lzf_decompress cs (replicate (length s) 0) = Some (s, length s)"
proof -
  define outlen where "outlen = length s - 4"
  obtain out n where c: "lzf_compress (ht s) s (replicate (outlen + 1) 0) outlen = Some (out, n)" "n \<le> outlen"
    "length out = outlen + 1"
    "n \<noteq> 0 \<longrightarrow> lzf_decompress (take n out) (replicate (length s) 0) = Some (s, length s)"
    using lzf_compress_inverse[of s "ht s" "replicate (outlen + 1) 0" outlen] assms by (auto simp: ht_ok_def)
  show thesis
  proof (cases "n = 0")
    case True
    then show thesis using that(1) c assms(2) by (simp add: rdbSaveLzfStringObject_def outlen_def)
  next
    case False
    define cs where "cs = take n out"
    have l: "cs \<noteq> []" "length cs = n" "n < length s" using False c(2,3) assms(2) by (auto simp: cs_def outlen_def)
    have "saves (\<lambda>r. rdbSaveLzfStringObject ht r s) (lzf_bytes cs (length s))"
      unfolding saves_def
    proof (intro allI impI)
      fix r :: rout assume f: "w_faults r = []"
      have w: "writes (\<lambda>r. rdbWriteRaw r [0xC3]) [0xC3]" "writes (\<lambda>r. rdbWriteRaw r cs) cs"
        "writes (\<lambda>r. rdbSaveLen r n) (len_bytes n)" "writes (\<lambda>r. rdbSaveLen r (length s)) (len_bytes (length s))"
        using l assms(3) by (auto intro!: writeRaw_writes saveLen_writes)
      show "rdbSaveLzfStringObject ht r s = Some (wput (lzf_bytes cs (length s)) r, Some (length (lzf_bytes cs (length s))))"
        using w f c(1) False assms(2) l(2) length_lzf_bytes[of cs "length s"]
        by (simp add: rdbSaveLzfStringObject_def outlen_def cs_def[symmetric] sv_then_def writes_def wput_lzf_bytes)
    qed
    then show thesis using that(2)[of cs] l c(4) False by (simp add: cs_def)
  qed
qed

lemma str_loads_lzf:
  assumes "cs \<noteq> []" "length cs < length t" "length t < 2 ^ 32 - 1"
    "lzf_decompress cs (replicate (length t) 0) = Some (to_bytes t, length t)"
  shows "str_loads (lzf_bytes cs (length t)) t"
proof (rule str_loads_raw)
  fix encode
  define a where "a = [0xC3 :: byte]"
  show "loads (\<lambda>r. rdbGenericLoadStringObject r encode) (lzf_bytes cs (length t)) (EncRaw t)"
    unfolding loads_def
  proof (intro allI impI)
    fix r :: rin and rest assume i: "in_bytes r = lzf_bytes cs (length t) @ rest"
    have n0: "rdbLoadLen r = ((True, 3), radv a r)"
      using i unfolding a_def by (intro loadLen_enc) (auto simp: lzf_bytes_def)
    have n1: "rdbLoadLen (radv a r) = ((False, length cs), radv (len_bytes (length cs)) (radv a r))"
      using i assms by (intro loadLen_loads[of _ _ "len_bytes (length t) @ cs @ rest"]) (auto simp: lzf_bytes_def a_def)
    have n2: "rdbLoadLen (radv (len_bytes (length cs)) (radv a r)) =
        ((False, length t), radv (len_bytes (length t)) (radv (len_bytes (length cs)) (radv a r)))"
      using i assms by (intro loadLen_loads[of _ _ "cs @ rest"]) (auto simp: lzf_bytes_def a_def)
    define q where "q = radv (len_bytes (length t)) (radv (len_bytes (length cs)) (radv a r))"
    have "in_bytes q = cs @ rest" using i by (simp add: q_def lzf_bytes_def a_def)
    then have "ld_then (rd q (length cs)) g = g cs (radv cs q)" for g :: "byte list \<Rightarrow> rin \<Rightarrow> rdb_error + str_val \<times> rin"
      using loads_then[OF rd_loads[OF assms(1) refl]] by blast
    moreover have "radv (lzf_bytes cs (length t)) r = radv cs q"
      by (simp only: radv_lzf_bytes q_def a_def)
    moreover have "t \<noteq> []" using assms(2) by auto
    ultimately show "rdbGenericLoadStringObject r encode = Inr (EncRaw t, radv (lzf_bytes cs (length t)) r)"
      using n0 n1 n2 assms
      by (simp add: rdbGenericLoadStringObject_def rdbLoadLzfStringObject_def REDIS_RDB_LENERR_def q_def[symmetric])
  qed
qed (simp add: lzf_bytes_def)

lemma saveVerbatim_saves:
  assumes "length t < 2 ^ 32 - 1"
  shows "saves (\<lambda>r. sv_then (Some (rdbSaveLen r (length t))) (\<lambda>r2 n2.
      if length t > 0 then sv_then (Some (rdbWriteRaw r2 (to_bytes t))) (\<lambda>r3 _. Some (r3, Some (n2 + length t)))
      else Some (r2, Some n2))) (len_bytes (length t) @ to_bytes t)"
proof -
  have "writes (\<lambda>r. rdbSaveLen r (length t)) (len_bytes (length t))" using assms by (intro saveLen_writes) simp
  moreover have "t \<noteq> [] \<Longrightarrow> writes (\<lambda>r. rdbWriteRaw r (to_bytes t)) (to_bytes t)"
    by (intro writeRaw_writes) (simp add: to_bytes_def)
  ultimately show ?thesis
    by (cases "t = []") (simp_all add: saves_def writes_def sv_then_def wput_append, simp add: to_bytes_def)
qed

lemma saveRaw_str:
  assumes "ht_ok ht" "length t < 2 ^ 32 - 1"
  shows "\<exists>bs. saves (\<lambda>r. rdbSaveRawString ht cmpr r t) bs \<and> str_loads bs t"
proof -
  define enc where "enc = (if length t \<le> 11 then rdbTryIntegerEncoding t else [])"
  show ?thesis
  proof (cases "enc = []")
    case False
    then have "rdbTryIntegerEncoding t = enc" by (auto simp: enc_def split: if_splits)
    then obtain v where v: "is_llong v" "t = ll_repr v" "enc = rdbEncodeInteger v"
      using tryInteger[of t] False by auto
    have "saves (\<lambda>r. rdbSaveRawString ht cmpr r t) enc"
      using writeRaw_writes[OF False] False
      by (simp add: saves_def writes_def rdbSaveRawString_def enc_def[symmetric] sv_then_def)
    then show ?thesis using str_loads_int[of v] v False by auto
  next
    case enc: True
    have raw: "saves (\<lambda>r. rdbSaveRawString ht cmpr r t) (len_bytes (length t) @ to_bytes t)"
      if "\<And>r. (if cmpr \<and> length t > 20 then rdbSaveLzfStringObject ht r (to_bytes t) else Some (r, Some 0)) = Some (r, Some 0)"
      using saveVerbatim_saves[OF assms(2)]
      by (simp add: rdbSaveRawString_def enc_def[symmetric] enc that) (simp add: sv_then_def)
    show ?thesis
    proof (cases "cmpr \<and> length t > 20")
      case False
      then show ?thesis using raw str_loads_verbatim[OF assms(2)] by auto
    next
      case True
      then have l: "4 < length (to_bytes t)" "int (length (to_bytes t)) < 2 ^ 32" using assms(2) by auto
      show ?thesis
      proof (rule lzf_compressed[OF assms(1) l])
        assume "\<And>r. rdbSaveLzfStringObject ht r (to_bytes t) = Some (r, Some 0)"
        then have "saves (\<lambda>r. rdbSaveRawString ht cmpr r t) (len_bytes (length t) @ to_bytes t)"
          by (intro raw) simp
        then show ?thesis using str_loads_verbatim[OF assms(2)] by blast
      next
        fix cs assume c: "saves (\<lambda>r. rdbSaveLzfStringObject ht r (to_bytes t)) (lzf_bytes cs (length (to_bytes t)))" "cs \<noteq> []"
          "length cs < length (to_bytes t)" "lzf_decompress cs (replicate (length (to_bytes t)) 0) = Some (to_bytes t, length (to_bytes t))"
        have "length (lzf_bytes cs (length t)) \<noteq> 0" by (simp add: lzf_bytes_def)
        then have "saves (\<lambda>r. rdbSaveRawString ht cmpr r t) (lzf_bytes cs (length t))"
          using c(1) True by (simp add: saves_def rdbSaveRawString_def enc_def[symmetric] enc sv_then_def)
        then show ?thesis using str_loads_lzf[of cs t] c assms(2) by auto
      qed
    qed
  qed
qed

lemma saveLongLong_str:
  assumes "is_llong v"
  shows "\<exists>bs. saves (\<lambda>r. rdbSaveLongLongAsStringObject r v) bs \<and> str_loads bs (ll_repr v)"
proof (cases "rdbEncodeInteger v = []")
  case True
  have l: "length (ll_repr v) \<le> 20" by (rule ll_repr_length[OF assms])
  have "ll_repr v \<noteq> []" using ll_repr_hd[OF assms] by simp
  then have "writes (\<lambda>r. rdbWriteRaw r (to_bytes (ll_repr v))) (to_bytes (ll_repr v))"
    by (intro writeRaw_writes) (simp add: to_bytes_def)
  moreover have "writes (\<lambda>r. rdbSaveLen r (length (ll_repr v))) (len_bytes (length (ll_repr v)))"
    using l by (intro saveLen_writes) simp
  ultimately have "saves (\<lambda>r. rdbSaveLongLongAsStringObject r v) (len_bytes (length (ll_repr v)) @ to_bytes (ll_repr v))"
    using True ll2string_eq[OF assms, of 32] l
    by (simp add: saves_def writes_def rdbSaveLongLongAsStringObject_def sv_then_def wput_append)
  then show ?thesis using str_loads_verbatim[of "ll_repr v"] l by auto
next
  case False
  then have "saves (\<lambda>r. rdbSaveLongLongAsStringObject r v) (rdbEncodeInteger v)"
    using writeRaw_writes[OF False] by (simp add: saves_def writes_def rdbSaveLongLongAsStringObject_def)
  then show ?thesis using str_loads_int[OF False] by auto
qed

lemma saveString_str:
  assumes "ht_ok ht" "val_ok v" "length (val_text v) < 2 ^ 32 - 1"
  shows "\<exists>bs. saves (\<lambda>r. rdbSaveStringObject ht cmpr r v) bs \<and> str_loads bs (val_text v)"
  using assms saveRaw_str[OF assms(1)] saveLongLong_str
  by (cases v) (simp_all add: rdbSaveStringObject_def val_text_def val_ok_def)

subsection \<open>Objects\<close>

text \<open>The header and the elements of an intset as they lie in memory.\<close>

definition intset_blob :: "intset \<Rightarrow> byte list" where
  "intset_blob is = le_bytes 4 (int (is_encoding is)) @ le_bytes 4 (int (is_length is)) @ contents is"

definition blob_intset :: "byte list \<Rightarrow> intset option" where
  "blob_intset bs =
     (if length bs < 8 then None
      else Some \<lparr>is_encoding = nat (le_uint (take 4 bs)), is_length = nat (le_uint (take 4 (drop 4 bs))),
                 contents = drop 8 bs\<rparr>)"

definition rdbSaveObjectType :: "rout \<Rightarrow> set_obj rvalue \<Rightarrow> rout \<times> nat option" where
  "rdbSaveObjectType r ob =
     (case ob of
        StrObj _ \<Rightarrow> rdbSaveType r 0
      | OtherObj (SetIntset _) \<Rightarrow> rdbSaveType r 11
      | OtherObj (SetHT _) \<Rightarrow> rdbSaveType r 2)"

fun save_elements :: "(byte list \<Rightarrow> lzf_state_tab) \<Rightarrow> bool \<Rightarrow> rout \<Rightarrow> str_val list \<Rightarrow> nat \<Rightarrow> saved" where
  "save_elements ht cmpr r [] n = Some (r, Some n)"
| "save_elements ht cmpr r (x # xs) n =
     sv_then (rdbSaveStringObject ht cmpr r x) (\<lambda>r1 k. save_elements ht cmpr r1 xs (n + k))"

definition save_set :: "(byte list \<Rightarrow> lzf_state_tab) \<Rightarrow> bool \<Rightarrow> rout \<Rightarrow> set_obj \<Rightarrow> saved" where
  "save_set ht cmpr r so =
     (case so of
        SetHT xs \<Rightarrow>
          sv_then (Some (rdbSaveLen r (length xs))) (\<lambda>r1 n. save_elements ht cmpr r1 xs n)
      | SetIntset is \<Rightarrow> do {
          bs \<leftarrow> mem_read (intset_blob is) 0 (intsetBlobLen is);
          rdbSaveRawString ht cmpr r (of_bytes bs)
        })"

definition rdbSaveObject :: "(byte list \<Rightarrow> lzf_state_tab) \<Rightarrow> bool \<Rightarrow> rout \<Rightarrow> set_obj rvalue \<Rightarrow> saved" where
  "rdbSaveObject ht cmpr r ob =
     (case ob of
        StrObj v \<Rightarrow> rdbSaveStringObject ht cmpr r v
      | OtherObj so \<Rightarrow> save_set ht cmpr r so)"

definition encode_loaded :: "bool \<Rightarrow> str_val \<Rightarrow> str_val" where
  "encode_loaded maxmemory v = o_ptr (ref_obj (tryObjectEncoding maxmemory (createObject 0 v)))"

text \<open>An element that has been read goes into the set; the result of \<^verbatim>\<open>dictAdd\<close> is not looked at.\<close>

definition load_element :: "set_obj \<Rightarrow> str_val \<Rightarrow> set_obj option" where
  "load_element so ele =
     (case so of
        SetIntset is \<Rightarrow>
          (case as_llong ele of
             Some llval \<Rightarrow> map_option (\<lambda>(is1, _). SetIntset is1) (intsetAdd is llval)
           | None \<Rightarrow> do {
               so1 \<leftarrow> setTypeConvert so;
               Some (SetHT (case ht_add (set_elems so1) ele of Some ys \<Rightarrow> ys | None \<Rightarrow> set_elems so1))
             })
      | SetHT xs \<Rightarrow> Some (SetHT (case ht_add xs ele of Some ys \<Rightarrow> ys | None \<Rightarrow> xs)))"

fun load_elements :: "bool \<Rightarrow> rin \<Rightarrow> nat \<Rightarrow> set_obj \<Rightarrow> rdb_error + set_obj \<times> rin" where
  "load_elements maxmemory r 0 so = Inr (so, r)"
| "load_elements maxmemory r (Suc n) so =
     ld_then (rdbLoadEncodedStringObject r) (\<lambda>v r1.
       (case load_element so (encode_loaded maxmemory v) of
          None \<Rightarrow> Inl Rdb_Wild
        | Some so1 \<Rightarrow> load_elements maxmemory r1 n so1))"

definition load_set :: "nat \<Rightarrow> bool \<Rightarrow> rin \<Rightarrow> rdb_error + set_obj rvalue \<times> rin" where
  "load_set mx maxmemory r =
     (case rdbLoadLen r of ((_, len), r1) \<Rightarrow>
        if len = REDIS_RDB_LENERR then Inl Rdb_Short
        else ld_then (load_elements maxmemory r1 len (if len > mx then createSetObject else createIntsetObject))
          (\<lambda>so r2. Inr (OtherObj so, r2)))"

definition load_intset :: "nat \<Rightarrow> rin \<Rightarrow> rdb_error + set_obj rvalue \<times> rin" where
  "load_intset mx r =
     ld_then (rdbLoadStringObject r) (\<lambda>aux r1.
       (case aux of
          EncInt _ \<Rightarrow> Inl Rdb_Wild
        | EncRaw t \<Rightarrow>
            (case blob_intset (to_bytes t) of
               None \<Rightarrow> Inl Rdb_Wild
             | Some is \<Rightarrow>
                 if intsetLen is > mx then
                   (case setTypeConvert (SetIntset is) of
                      None \<Rightarrow> Inl Rdb_Wild
                    | Some so \<Rightarrow> Inr (OtherObj so, r1))
                 else Inr (OtherObj (SetIntset is), r1))))"

text \<open>The block of an integer set is taken over as it is: only its header is read, and the elements when there are too
  many of them.  Lists, hashes and sorted sets (types 1, 3, 4, 9, 10, 12 and 13) are not modelled, which is a result of
  its own; any other type is a panic.\<close>

definition rdbLoadObject :: "nat \<Rightarrow> bool \<Rightarrow> nat \<Rightarrow> rin \<Rightarrow> rdb_error + set_obj rvalue \<times> rin" where
  "rdbLoadObject mx maxmemory rdbtype r =
     (if rdbtype = 0 then
        ld_then (rdbLoadEncodedStringObject r) (\<lambda>v r1. Inr (StrObj (encode_loaded maxmemory v), r1))
      else if rdbtype = 2 then load_set mx maxmemory r
      else if rdbtype = 11 then load_intset mx r
      else if rdbtype \<in> {1, 3, 4, 9, 10, 12, 13} then Inl Rdb_Other
      else Inl Rdb_Abort)"

subsection \<open>Objects are read as they were written\<close>

definition small :: "string \<Rightarrow> bool" where "small t \<longleftrightarrow> length t < 2 ^ 32 - 1"

definition obj_ok :: "nat \<Rightarrow> set_obj rvalue \<Rightarrow> bool" where
  "obj_ok mx ob =
     (case ob of
        StrObj v \<Rightarrow> val_ok v \<and> small (val_text v)
      | OtherObj so \<Rightarrow> set_ok mx so \<and> (\<forall>t \<in> set_texts so. small t) \<and> card (set_texts so) < 2 ^ 32 - 1)"

text \<open>The same string or the same set of strings, in whatever representation.\<close>

definition same_obj :: "set_obj rvalue \<Rightarrow> set_obj rvalue \<Rightarrow> bool" where
  "same_obj a b =
     (case (a, b) of
        (StrObj v, StrObj w) \<Rightarrow> val_text v = val_text w
      | (OtherObj so, OtherObj to) \<Rightarrow> set_texts so = set_texts to
      | _ \<Rightarrow> False)"

definition obj_type :: "set_obj rvalue \<Rightarrow> nat" where
  "obj_type ob = (case ob of StrObj _ \<Rightarrow> 0 | OtherObj (SetIntset _) \<Rightarrow> 11 | OtherObj (SetHT _) \<Rightarrow> 2)"

lemma saveType_writes: "writes (\<lambda>r. rdbSaveObjectType r ob) [of_nat (obj_type ob)]"
  using writeRaw_writes by (simp add: rdbSaveObjectType_def obj_type_def rdbSaveType_def split: rvalue.splits set_obj.splits)

lemma encode_loaded: "val_ok v \<Longrightarrow> val_ok (encode_loaded mm v) \<and> val_text (encode_loaded mm v) = val_text v"
  using encode_keeps_text[of "createObject 0 v" mm]
  by (simp add: encode_loaded_def Let_def robj_ok_def val_ok_def createObject_def)

lemma save_elements_saves:
  assumes "ht_ok ht" "\<forall>x \<in> set xs. val_ok x \<and> small (val_text x)"
  shows "\<exists>bss. list_all2 (\<lambda>bs x. str_loads bs (val_text x)) bss xs \<and>
    (\<forall>n r. w_faults r = [] \<longrightarrow> save_elements ht cmpr r xs n = Some (wput (concat bss) r, Some (n + length (concat bss))))"
  using assms(2)
proof (induction xs)
  case (Cons x xs)
  obtain bss where b: "list_all2 (\<lambda>bs x. str_loads bs (val_text x)) bss xs"
    "\<forall>n r. w_faults r = [] \<longrightarrow> save_elements ht cmpr r xs n = Some (wput (concat bss) r, Some (n + length (concat bss)))"
    using Cons by auto
  obtain bs where s: "saves (\<lambda>r. rdbSaveStringObject ht cmpr r x) bs" "str_loads bs (val_text x)"
    using saveString_str[OF assms(1), of x] Cons.prems by (auto simp: small_def)
  show ?case
    by (rule exI[of _ "bs # bss"]) (use b s in \<open>auto simp: saves_def sv_then_def wput_append\<close>)
qed simp

lemma load_element_spec:
  assumes "set_ok k so" "val_ok v" "k + 1 < 2 ^ 28 - 1 \<or> (\<exists>xs. so = SetHT xs)"
  shows "\<exists>so1. load_element so v = Some so1 \<and> set_ok (k + 1) so1 \<and> set_texts so1 = insert (val_text v) (set_texts so) \<and>
    ((\<exists>xs. so = SetHT xs) \<longrightarrow> (\<exists>xs. so1 = SetHT xs))"
proof (cases so)
  case (SetHT xs)
  then have x: "list_all val_ok xs" "distinct (map val_text xs)" using assms by (auto simp: set_ok_def)
  then show ?thesis using SetHT assms(2)
    by (auto simp: load_element_def ht_add_def ht_find texts_ht set_ok_def insert_absorb)
next
  case (SetIntset "is")
  then have i: "intset_inv is" "is_length is \<le> k" and k: "k + 1 < 2 ^ 28 - 1" using assms by (auto simp: set_ok_def)
  show ?thesis
  proof (cases "as_llong v")
    case None
    have n: "val_text v \<notin> set_texts so" using not_int_text[OF assms(2) None i(1)] SetIntset texts_intset by simp
    then have "ht_add (set_elems so) v = Some (set_elems so @ [v])"
      using ht_find[OF assms(2)] set_elems_ok[OF assms(1)] by (simp add: ht_add_def set_texts_def)
    then have "load_element so v = Some (SetHT (set_elems so @ [v]))"
      using SetIntset None convert_spec[of k "is"] assms(1) by (simp add: load_element_def) (simp add: set_elems_def)
    moreover have "set_ok (k + 1) (SetHT (set_elems so @ [v]))"
      using n set_elems_ok[OF assms(1)] assms(2) set_elems_distinct[OF assms(1)] by (auto simp: set_ok_def set_texts_def)
    moreover have "set_texts (SetHT (set_elems so @ [v])) = insert (val_text v) (set_texts so)"
      by (simp add: texts_ht) (simp add: set_texts_def)
    ultimately show ?thesis using SetIntset by auto
  next
    case (Some n)
    then have n: "is_llong n" "val_text v = ll_repr n" using as_llong[OF assms(2)] by auto
    obtain is1 where a: "intsetAdd is n = Some (is1, n \<notin> intset_set is)" "intset_inv is1" "intset_set is1 = insert n (intset_set is)"
      using intset_add_spec[OF i(1) n(1)] i(2) k by auto
    have "is_length is1 \<le> is_length is + 1" using intset_card[OF a(2)] intset_card[OF i(1)] a(3)
      by (metis Suc_eq_plus1 card_insert_le_m1 card_insert_if finite_set intset_set_def le_Suc_eq order_refl)
    then show ?thesis using Some SetIntset a i n by (simp add: load_element_def set_ok_def texts_intset)
  qed
qed

lemma load_elements_loads:
  assumes "list_all2 (\<lambda>bs x. str_loads bs (val_text x)) bss xs" "set_ok k so"
    "k + length xs < 2 ^ 28 - 1 \<or> (\<exists>ys. so = SetHT ys)"
  shows "\<exists>so1. loads (\<lambda>r. load_elements mm r (length xs) so) (concat bss) so1 \<and> set_ok (k + length xs) so1 \<and>
    set_texts so1 = set_texts so \<union> val_text ` set xs \<and> ((\<exists>ys. so = SetHT ys) \<longrightarrow> (\<exists>ys. so1 = SetHT ys))"
  using assms
proof (induction bss xs arbitrary: k so rule: list_all2_induct)
  case Nil
  then show ?case by (auto simp: loads_def)
next
  case (Cons bs bss x xs)
  obtain v where v: "loads rdbLoadEncodedStringObject bs v" "val_ok v" "val_text v = val_text x"
    using Cons.hyps by (auto simp: str_loads_def)
  obtain so1 where s: "load_element so (encode_loaded mm v) = Some so1" "set_ok (k + 1) so1"
    "set_texts so1 = insert (val_text x) (set_texts so)" "(\<exists>xs. so = SetHT xs) \<longrightarrow> (\<exists>xs. so1 = SetHT xs)"
    using load_element_spec[OF Cons.prems(1), of "encode_loaded mm v"] encode_loaded[OF v(2), of mm] v(3) Cons.prems(2) by auto
  have "k + 1 + length xs < 2 ^ 28 - 1 \<or> (\<exists>ys. so1 = SetHT ys)" using Cons.prems(2) s(4) by auto
  then obtain so2 where t: "loads (\<lambda>r. load_elements mm r (length xs) so1) (concat bss) so2"
    "set_ok (k + 1 + length xs) so2" "set_texts so2 = set_texts so1 \<union> val_text ` set xs"
    "(\<exists>ys. so1 = SetHT ys) \<longrightarrow> (\<exists>ys. so2 = SetHT ys)"
    using Cons.IH[OF s(2)] by blast
  have "loads (\<lambda>r. load_elements mm r (length (x # xs)) so) (concat (bs # bss)) so2"
    unfolding loads_def
  proof (intro allI impI)
    fix r :: rin and rest assume i: "in_bytes r = concat (bs # bss) @ rest"
    then have "ld_then (rdbLoadEncodedStringObject r) g = g v (radv bs r)" for g :: "str_val \<Rightarrow> rin \<Rightarrow> rdb_error + set_obj \<times> rin"
      using loads_then[OF v(1)] by auto
    moreover have "load_elements mm (radv bs r) (length xs) so1 = Inr (so2, radv (concat bss) (radv bs r))"
      using t(1) i by (simp add: loads_def)
    ultimately show "load_elements mm r (length (x # xs)) so = Inr (so2, radv (concat (bs # bss)) r)"
      using s(1) by (simp add: radv_append)
  qed
  then show ?case using s t by (intro exI[of _ so2]) auto
qed

lemma blob_inverse:
  assumes "intset_inv is"
  shows "mem_read (intset_blob is) 0 (intsetBlobLen is) = Some (intset_blob is)" "blob_intset (intset_blob is) = Some is"
    "length (intset_blob is) < 2 ^ 32 - 1"
proof -
  have r: "intset_rep is (intset_elems is)" using assms by (simp add: intset_inv_def)
  have e: "valid_enc (is_encoding is)" "is_length is < 2 ^ 28" "length (contents is) = is_length is * is_encoding is"
    using r length_concat_chunks[of "is_encoding is" "map (le_bytes (is_encoding is)) (intset_elems is)"]
    by (auto simp: intset_rep_def)
  have "is_length is * is_encoding is \<le> 2 ^ 28 * 8" using e(1,2) by (intro mult_le_mono) auto
  then have b: "is_length is * is_encoding is < 2 ^ 32 - 9" by simp
  then have l: "length (intset_blob is) = intsetBlobLen is"
    using e(3) by (simp add: intset_blob_def intsetBlobLen_def)
  then show "mem_read (intset_blob is) 0 (intsetBlobLen is) = Some (intset_blob is)"
    by (simp add: mem_read_def)
  show "length (intset_blob is) < 2 ^ 32 - 1" using b e(3) by (simp add: intset_blob_def)
  have "nat (le_uint (le_bytes 4 (int (is_encoding is)))) = is_encoding is"
    "nat (le_uint (le_bytes 4 (int (is_length is)))) = is_length is"
    using e(1,2) by (auto simp: le_uint_le_bytes)
  then show "blob_intset (intset_blob is) = Some is"
    by (simp add: blob_intset_def intset_blob_def)
qed

lemma loads_map:
  "loads f bs x \<Longrightarrow> (\<And>r. g x r = Inr (y, r)) \<Longrightarrow> loads (\<lambda>r. ld_then (f r) g) bs y"
  by (simp add: loads_def ld_then_def)

lemma saveString_object:
  assumes "ht_ok ht" "val_ok v" "small (val_text v)"
  shows "\<exists>bs w. saves (\<lambda>r. rdbSaveObject ht cmpr r (StrObj v)) bs \<and> bs \<noteq> [] \<and>
    loads (rdbLoadObject mx mm 0) bs (StrObj w) \<and> val_ok w \<and> val_text w = val_text v"
proof -
  obtain bs where b: "saves (\<lambda>r. rdbSaveStringObject ht cmpr r v) bs" "str_loads bs (val_text v)"
    using saveString_str[OF assms(1,2)] assms(3) by (auto simp: small_def)
  obtain w where w: "loads rdbLoadEncodedStringObject bs w" "val_ok w" "val_text w = val_text v" "bs \<noteq> []"
    using b(2) by (auto simp: str_loads_def)
  have "loads (rdbLoadObject mx mm 0) bs (StrObj (encode_loaded mm w))"
    unfolding rdbLoadObject_def by (simp, rule loads_map[OF w(1)]) simp
  then show ?thesis using b(1) w encode_loaded[OF w(2), of mm]
    by (intro exI[of _ bs] exI[of _ "encode_loaded mm w"]) (simp add: rdbSaveObject_def)
qed

lemma saveHT_object:
  assumes "ht_ok ht" "obj_ok mx (OtherObj (SetHT xs))" "mx1 < 2 ^ 28 - 1"
  shows "\<exists>bs so. saves (\<lambda>r. rdbSaveObject ht cmpr r (OtherObj (SetHT xs))) bs \<and> bs \<noteq> [] \<and>
    loads (rdbLoadObject mx1 mm 2) bs (OtherObj so) \<and> set_ok mx1 so \<and> set_texts so = val_text ` set xs"
proof -
  have x: "\<forall>x \<in> set xs. val_ok x \<and> small (val_text x)" "distinct (map val_text xs)" "length xs < 2 ^ 32 - 1"
    using assms(2) distinct_card[of "map val_text xs"]
    by (auto simp: obj_ok_def set_ok_def texts_ht list_all_iff)
  obtain bss where b: "list_all2 (\<lambda>bs x. str_loads bs (val_text x)) bss xs"
    "\<forall>n r. w_faults r = [] \<longrightarrow> save_elements ht cmpr r xs n = Some (wput (concat bss) r, Some (n + length (concat bss)))"
    using save_elements_saves[OF assms(1) x(1)] by blast
  define bs where "bs = len_bytes (length xs) @ concat bss"
  have "writes (\<lambda>r. rdbSaveLen r (length xs)) (len_bytes (length xs))" using x(3) by (intro saveLen_writes) simp
  then have s: "saves (\<lambda>r. rdbSaveObject ht cmpr r (OtherObj (SetHT xs))) bs"
    using b(2) by (simp add: saves_def writes_def rdbSaveObject_def save_set_def sv_then_def bs_def wput_append)
  define so0 where "so0 = (if length xs > mx1 then createSetObject else createIntsetObject)"
  have o: "set_ok 0 so0" "set_texts so0 = {}"
    using rep_inv[OF intset_new_rep]
    by (auto simp: so0_def createSetObject_def createIntsetObject_def set_ok_def texts_ht texts_intset intsetNew_def)
  have c: "0 + length xs < 2 ^ 28 - 1 \<or> (\<exists>ys. so0 = SetHT ys)" using assms(3) by (auto simp: so0_def createSetObject_def)
  obtain so where t: "loads (\<lambda>r. load_elements mm r (length xs) so0) (concat bss) so" "set_ok (0 + length xs) so"
    "set_texts so = set_texts so0 \<union> val_text ` set xs" "(\<exists>ys. so0 = SetHT ys) \<longrightarrow> (\<exists>ys. so = SetHT ys)"
    using load_elements_loads[OF b(1) o(1) c, of mm] by (elim exE conjE) (rule that)
  have "loads (rdbLoadObject mx1 mm 2) bs (OtherObj so)"
    unfolding loads_def
  proof (intro allI impI)
    fix r :: rin and rest assume "in_bytes r = bs @ rest"
    then have i: "in_bytes r = len_bytes (length xs) @ concat bss @ rest" by (simp add: bs_def)
    have "rdbLoadLen r = ((False, length xs), radv (len_bytes (length xs)) r)"
      using x(3) by (intro loadLen_loads[OF _ i]) simp
    moreover have "load_elements mm (radv (len_bytes (length xs)) r) (length xs) so0 =
        Inr (so, radv (concat bss) (radv (len_bytes (length xs)) r))"
      using t(1) i by (simp add: loads_def)
    ultimately show "rdbLoadObject mx1 mm 2 r = Inr (OtherObj so, radv bs r)"
      using x(3) by (simp add: rdbLoadObject_def load_set_def so0_def[symmetric] REDIS_RDB_LENERR_def ld_then_def bs_def radv_append)
  qed
  moreover have "set_ok mx1 so"
  proof (cases "length xs > mx1")
    case True
    then obtain ys where "so = SetHT ys" using t(4) by (auto simp: so0_def createSetObject_def)
    then show ?thesis using t(2) by (simp add: set_ok_def)
  qed (use t(2) set_ok_mono in auto)
  ultimately show ?thesis using s t(3) o(2)
    by (intro exI[of _ bs] exI[of _ so]) (simp add: bs_def)
qed

lemma saveIntset_object:
  assumes "ht_ok ht" "obj_ok mx (OtherObj (SetIntset is))"
  shows "\<exists>bs so. saves (\<lambda>r. rdbSaveObject ht cmpr r (OtherObj (SetIntset is))) bs \<and> bs \<noteq> [] \<and>
    loads (rdbLoadObject mx1 mm 11) bs (OtherObj so) \<and> set_ok mx1 so \<and> set_texts so = set_texts (SetIntset is)"
proof -
  have i: "intset_inv is" "set_ok mx (SetIntset is)" using assms(2) by (auto simp: obj_ok_def set_ok_def)
  note bi = blob_inverse[OF i(1)]
  obtain bs where b: "saves (\<lambda>r. rdbSaveRawString ht cmpr r (of_bytes (intset_blob is))) bs" "str_loads bs (of_bytes (intset_blob is))"
    using saveRaw_str[OF assms(1), of "of_bytes (intset_blob is)"] bi(3) by auto
  have l: "loads rdbLoadStringObject bs (EncRaw (of_bytes (intset_blob is)))" "bs \<noteq> []" using b(2) by (auto simp: str_loads_def)
  define so where "so = (if intsetLen is > mx1 then SetHT (set_elems (SetIntset is)) else SetIntset is)"
  have "loads (rdbLoadObject mx1 mm 11) bs (OtherObj so)"
    unfolding rdbLoadObject_def load_intset_def by (simp, rule loads_map[OF l(1)]) (simp add: bi(2) convert_spec[OF i(2)] so_def)
  moreover have "set_ok mx1 so \<and> set_texts so = set_texts (SetIntset is)"
    using convert_ok[OF i(2), of mx1] i by (auto simp: so_def set_ok_def intsetLen_def)
  ultimately show ?thesis using b(1) l(2) bi(1)
    by (intro exI[of _ bs] exI[of _ so]) (simp add: rdbSaveObject_def save_set_def)
qed

lemma saveObject_loads:
  assumes "ht_ok ht" "obj_ok mx ob" "mx1 < 2 ^ 28 - 1"
  shows "\<exists>bs ob1. saves (\<lambda>r. rdbSaveObject ht cmpr r ob) bs \<and> bs \<noteq> [] \<and>
    loads (rdbLoadObject mx1 mm (obj_type ob)) bs ob1 \<and> obj_ok mx1 ob1 \<and> same_obj ob ob1"
proof (cases ob)
  case (StrObj v)
  then obtain bs w where b: "saves (\<lambda>r. rdbSaveObject ht cmpr r ob) bs" "bs \<noteq> []"
    "loads (rdbLoadObject mx1 mm 0) bs (StrObj w)" "val_ok w" "val_text w = val_text v"
    using saveString_object[OF assms(1), of v] assms(2) by (fastforce simp: obj_ok_def)
  then show ?thesis using StrObj assms(2)
    by (intro exI[of _ bs] exI[of _ "StrObj w"]) (auto simp: obj_type_def obj_ok_def same_obj_def)
next
  case (OtherObj so)
  have e: "\<exists>bs so1. saves (\<lambda>r. rdbSaveObject ht cmpr r ob) bs \<and> bs \<noteq> [] \<and>
    loads (rdbLoadObject mx1 mm (obj_type ob)) bs (OtherObj so1) \<and> set_ok mx1 so1 \<and> set_texts so1 = set_texts so"
    using saveIntset_object[OF assms(1), of mx _ cmpr mx1 mm] saveHT_object[OF assms(1) _ assms(3), of mx _ cmpr mm] assms(2)
    by (cases so) (simp_all add: OtherObj obj_type_def texts_ht)
  then obtain bs so1 where b: "saves (\<lambda>r. rdbSaveObject ht cmpr r ob) bs" "bs \<noteq> []"
    "loads (rdbLoadObject mx1 mm (obj_type ob)) bs (OtherObj so1)" "set_ok mx1 so1" "set_texts so1 = set_texts so"
    by blast
  then show ?thesis using OtherObj assms(2)
    by (intro exI[of _ bs] exI[of _ "OtherObj so1"]) (auto simp: obj_ok_def same_obj_def)
qed

subsection \<open>Theorems\<close>

text \<open>C38. A value written to a stream that takes it is read back from it: the writer reports as many bytes as it
  has written, and the reader, which may have other settings and is followed by anything, consumes exactly
  those bytes and returns a well formed object with the same text or the same elements.  This covers the integer
  encodings of 8, 16 and 32 bits, compressed strings, strings with a length of 6, 14 and 32 bits, and sets as
  packed integers and as lists of elements.\<close>

theorem rdb_object_roundtrip:
  assumes "ht_ok ht" "obj_ok mx ob" "mx1 < 2 ^ 28 - 1" "w_faults r = []"
  shows "\<exists>bs r1 ob1. rdbSaveObject ht cmpr r ob = Some (r1, Some (length bs)) \<and> w_out r1 = w_out r @ bs \<and>
    obj_ok mx1 ob1 \<and> same_obj ob ob1 \<and>
    (\<forall>q rest. in_bytes q = bs @ rest \<longrightarrow>
       (\<exists>q1. rdbLoadObject mx1 mm (obj_type ob) q = Inr (ob1, q1) \<and> in_bytes q1 = rest))"
proof -
  obtain bs ob1 where b: "saves (\<lambda>r. rdbSaveObject ht cmpr r ob) bs" "loads (rdbLoadObject mx1 mm (obj_type ob)) bs ob1"
    "obj_ok mx1 ob1" "same_obj ob ob1"
    using saveObject_loads[OF assms(1-3)] by blast
  show ?thesis
    using b assms(4) by (intro exI[of _ bs] exI[of _ "wput bs r"] exI[of _ ob1]) (auto simp: saves_def loads_def)
qed

theorem rdb_object_roundtrip_witness:
  "\<exists>bs r1 ob1. rdbSaveObject (\<lambda>_ _. 0) True \<lparr>w_out = [], w_cksum = 0, w_sum = True, w_faults = []\<rparr> (StrObj (EncRaw ''12345'')) =
      Some (r1, Some (length bs)) \<and> w_out r1 = w_out \<lparr>w_out = [], w_cksum = 0, w_sum = True, w_faults = []\<rparr> @ bs \<and>
    obj_ok 512 ob1 \<and> same_obj (StrObj (EncRaw ''12345'')) ob1 \<and>
    (\<forall>q rest. in_bytes q = bs @ rest \<longrightarrow>
       (\<exists>q1. rdbLoadObject 512 False (obj_type (StrObj (EncRaw ''12345''))) q = Inr (ob1, q1) \<and> in_bytes q1 = rest))"
  by (rule rdb_object_roundtrip[where mx = 512]) (simp_all add: ht_ok_def obj_ok_def val_ok_def small_def val_text_def)

text \<open>C39. The failure of the second write of a long length is not noticed: \<^verbatim>\<open>rdbSaveLen\<close> reports five bytes, although
  the length is missing in the file.\<close>

theorem rdbSaveLen_ignores_failure:
  assumes "16384 \<le> n" "n < 2 ^ 32" "w_faults r = [None, Some k]"
  shows "\<exists>r1. rdbSaveLen r n = (r1, Some 5) \<and> w_out r1 = w_out r @ 0x80 # take k (rev (le_bytes 4 (int n)))"
proof -
  have "le_bytes 4 (int n) \<noteq> []" using length_le_bytes[of 4 "int n"] by (metis length_0_conv zero_neq_numeral)
  then show ?thesis using assms by (simp add: rdbSaveLen_def rdbWriteRaw_def rioWrite_def Let_def)
qed

theorem rdbSaveLen_ignores_failure_witness:
  "\<exists>r1. rdbSaveLen \<lparr>w_out = [], w_cksum = 0, w_sum = False, w_faults = [None, Some 0]\<rparr> 20000 = (r1, Some 5) \<and>
    w_out r1 = w_out \<lparr>w_out = [], w_cksum = 0, w_sum = False, w_faults = [None, Some 0]\<rparr> @
      0x80 # take 0 (rev (le_bytes 4 (int 20000)))"
  by (rule rdbSaveLen_ignores_failure) simp_all

end
