(* ===== verification/Rdb_File.thy ===== *)
theory Rdb_File
  imports Rdb
begin

section \<open>Snapshot files (\<^verbatim>\<open>rdb.c\<close>)\<close>

text \<open>
  Saving the whole key space to a file and loading it.  The server here holds strings and sets.  A save writes to
  a temporary file that replaces the old one when it is done; what happens to its writes is the list of faults of
  the stream.  Opening files succeeds, and the clients that \<^verbatim>\<open>rdbLoad\<close> serves now and then while it
  loads are left out (their commands are refused as long as \<^verbatim>\<open>server.loading\<close> is set).  A load returns the new state,
  refuses the file, ends the process with an error, or goes wrong on a damaged value (a read outside a block or a failed
  assertion); a file with a list, a hash or a sorted set is outside the model, which is an outcome of its own.

  The lemmas follow the file: the header of an entry, a key with its value (\<open>pair_saved\<close>), the entries of a database, the
  databases, and both ends of the file.  \<open>steps\<close> says what the loop of the load does with some bytes, \<open>restores\<close> what it
  makes of the keys that were saved in them, \<open>shrinks\<close> that what is left of the input is an end of it, and \<open>orderly\<close>
  that no damaged data was used.
\<close>

type_synonym server = "set_obj rvalue redisServer"

record rdb_config =
  cf_compression :: bool
  cf_checksum :: bool
  cf_max_intset :: nat

subsection \<open>Saving\<close>

definition rdbSaveKeyValuePair ::
  "(byte list \<Rightarrow> lzf_state_tab) \<Rightarrow> bool \<Rightarrow> rout \<Rightarrow> string \<Rightarrow> set_obj rvalue \<Rightarrow> int \<Rightarrow> int \<Rightarrow> saved" where
  "rdbSaveKeyValuePair ht cmpr r key val expiretime now =
     (if expiretime \<noteq> - 1 \<and> expiretime < now then Some (r, Some 0)
      else sv_then
        (if expiretime \<noteq> - 1
         then sv_then (Some (rdbSaveType r 252)) (\<lambda>r1 _. Some (rdbSaveMillisecondTime r1 expiretime))
         else Some (r, Some 0))
        (\<lambda>r2 _. sv_then (Some (rdbSaveObjectType r2 val)) (\<lambda>r3 _.
          sv_then (rdbSaveStringObject ht cmpr r3 (EncRaw key)) (\<lambda>r4 _.
            sv_then (rdbSaveObject ht cmpr r4 val) (\<lambda>r5 _. Some (r5, Some 1))))))"

fun save_entries ::
  "(byte list \<Rightarrow> lzf_state_tab) \<Rightarrow> bool \<Rightarrow> server \<Rightarrow> nat \<Rightarrow> rout \<Rightarrow> (string \<times> set_obj rvalue) list \<Rightarrow> saved" where
  "save_entries ht cmpr s d r [] = Some (r, Some 0)"
| "save_entries ht cmpr s d r ((key, val) # es) = do {
     expire \<leftarrow> getExpire s d key;
     sv_then (rdbSaveKeyValuePair ht cmpr r key val expire (sv_mstime s)) (\<lambda>r1 _. save_entries ht cmpr s d r1 es)
   }"

definition save_db :: "(byte list \<Rightarrow> lzf_state_tab) \<Rightarrow> bool \<Rightarrow> server \<Rightarrow> nat \<Rightarrow> rout \<Rightarrow> saved" where
  "save_db ht cmpr s d r =
     (let es = db_dict (sv_db s ! d) in
      if es = [] then Some (r, Some 0)
      else sv_then (Some (rdbSaveType r 254)) (\<lambda>r1 _.
        sv_then (Some (rdbSaveLen r1 d)) (\<lambda>r2 _. save_entries ht cmpr s d r2 es)))"

fun save_dbs :: "(byte list \<Rightarrow> lzf_state_tab) \<Rightarrow> bool \<Rightarrow> server \<Rightarrow> nat list \<Rightarrow> rout \<Rightarrow> saved" where
  "save_dbs ht cmpr s [] r = Some (r, Some 0)"
| "save_dbs ht cmpr s (d # ds) r = sv_then (save_db ht cmpr s d r) (\<lambda>r1 _. save_dbs ht cmpr s ds r1)"

definition rdb_magic :: "byte list" where
  "rdb_magic = to_bytes ''REDIS0006''"

text \<open>What is written to the temporary file; the result of the last write is not looked at.\<close>

definition rdbSave_stream :: "(byte list \<Rightarrow> lzf_state_tab) \<Rightarrow> rdb_config \<Rightarrow> server \<Rightarrow> nat option list \<Rightarrow> saved" where
  "rdbSave_stream ht cf s faults =
     sv_then (Some (rdbWriteRaw \<lparr>w_out = [], w_cksum = 0, w_sum = cf_checksum cf, w_faults = faults\<rparr> rdb_magic)) (\<lambda>r1 _.
       sv_then (save_dbs ht (cf_compression cf) s [0..<length (sv_db s)] r1) (\<lambda>r2 _.
         sv_then (Some (rdbSaveType r2 255)) (\<lambda>r3 _.
           Some (fst (rioWrite r3 (le_bytes 8 (uint (w_cksum r3)))), Some 0))))"

text \<open>The state, the content of the file with its name, and whether the result is \<^verbatim>\<open>REDIS_OK\<close>; \<open>old\<close> is what the
  file held and \<open>rename_ok\<close> the result of the renaming.\<close>

definition rdbSave_file ::
  "(byte list \<Rightarrow> lzf_state_tab) \<Rightarrow> rdb_config \<Rightarrow> server \<Rightarrow> nat option list \<Rightarrow> bool \<Rightarrow> byte list \<Rightarrow> (server \<times> byte list \<times> bool) option" where
  "rdbSave_file ht cf s faults rename_ok old =
     Option.bind (rdbSave_stream ht cf s faults) (\<lambda>(r, n).
       (case n of
          None \<Rightarrow> Some (rdbSave False s, old, False)
        | Some _ \<Rightarrow> if rename_ok then Some (rdbSave True s, w_out r, True) else Some (rdbSave False s, old, False)))"

subsection \<open>Loading\<close>

text \<open>The type that follows and the expire time, when there is one.\<close>

definition load_header :: "rin \<Rightarrow> rdb_error + (nat \<times> int) \<times> rin" where
  "load_header r =
     ld_then (rdbLoadType r) (\<lambda>ty r1.
       if ty = 253 then
         ld_then (rdbLoadTime r1) (\<lambda>e r2.
           if e = - 1 then Inl Rdb_Short
           else ld_then (rdbLoadType r2) (\<lambda>ty2 r3. Inr ((ty2, e * 1000), r3)))
       else if ty = 252 then
         ld_then (rdbLoadMillisecondTime r1) (\<lambda>e r2.
           if e = - 1 then Inl Rdb_Short
           else ld_then (rdbLoadType r2) (\<lambda>ty2 r3. Inr ((ty2, e), r3)))
       else Inr ((ty, - 1), r1))"

text \<open>A key and its value go into the key space, unless the key has expired on a master.\<close>

definition load_entry :: "server \<Rightarrow> nat \<Rightarrow> string \<Rightarrow> set_obj rvalue \<Rightarrow> int \<Rightarrow> server option" where
  "load_entry s d key val expiretime =
     (if \<not> sv_masterhost s \<and> expiretime \<noteq> - 1 \<and> expiretime < sv_mstime s then Some s
      else do {
        s1 \<leftarrow> dbAdd s d key val;
        if expiretime \<noteq> - 1 then setExpire s1 d key expiretime else Some s1
      })"

partial_function (option) load_loop ::
  "rdb_config \<Rightarrow> rin \<Rightarrow> nat \<Rightarrow> server \<Rightarrow> (rdb_error + server \<times> rin) option" where
  "load_loop cf r d s =
     (case load_header r of
        Inl e \<Rightarrow> Some (Inl e)
      | Inr ((ty, expiretime), r1) \<Rightarrow>
          if ty = 255 then Some (Inr (s, r1))
          else if ty = 254 then
            (case rdbLoadLen r1 of ((_, dbid), r2) \<Rightarrow>
               if dbid = REDIS_RDB_LENERR then Some (Inl Rdb_Short)
               else if dbid \<ge> length (sv_db s) then Some (Inl Rdb_Abort)
               else load_loop cf r2 dbid s)
          else
            (case rdbLoadStringObject r1 of
               Inl e \<Rightarrow> Some (Inl e)
             | Inr (key, r2) \<Rightarrow>
                 (case rdbLoadObject (cf_max_intset cf) (sv_maxmemory s) ty r2 of
                    Inl e \<Rightarrow> Some (Inl e)
                  | Inr (val, r3) \<Rightarrow>
                      (case load_entry s d (val_text key) val expiretime of
                         None \<Rightarrow> Some (Inl Rdb_Abort)
                       | Some s1 \<Rightarrow> load_loop cf r3 d s1))))"

datatype rdb_outcome = Loaded server | Refused | Died | Wild | Unmodelled

definition rdbLoad :: "rdb_config \<Rightarrow> byte list \<Rightarrow> server \<Rightarrow> rdb_outcome option" where
  "rdbLoad cf file s =
     (case rioRead \<lparr>in_bytes = file, in_cksum = 0, in_sum = cf_checksum cf\<rparr> 9 of
        None \<Rightarrow> Some Died
      | Some (magic, r) \<Rightarrow>
          (let txt = of_bytes magic; rdbver = fst (strtoll_end (drop 5 txt)) in
           if take 5 txt \<noteq> ''REDIS'' then Some Refused
           else if rdbver < 1 \<or> rdbver > 6 then Some Refused
           else
             Option.bind (load_loop cf r 0 (s\<lparr>sv_loading := True\<rparr>)) (\<lambda>res.
               (case res of
                  Inl Rdb_Wild \<Rightarrow> Some Wild
                | Inl Rdb_Other \<Rightarrow> Some Unmodelled
                | Inl _ \<Rightarrow> Some Died
                | Inr (s1, r1) \<Rightarrow>
                    if rdbver \<ge> 5 \<and> cf_checksum cf then
                      (case rioRead r1 8 of
                         None \<Rightarrow> Some Died
                       | Some (cs, _) \<Rightarrow>
                           (let cksum = word_of_int (le_uint cs) in
                            if cksum \<noteq> 0 \<and> cksum \<noteq> in_cksum r1 then Some Died
                            else Some (Loaded (s1\<lparr>sv_loading := False\<rparr>))))
                    else Some (Loaded (s1\<lparr>sv_loading := False\<rparr>))))))"

subsection \<open>A key and its value\<close>

lemma type_byte: "unat (of_nat (obj_type ob) :: byte) = obj_type ob" "obj_type ob \<in> {0, 2, 11}"
  by (auto simp: obj_type_def split: rvalue.splits set_obj.splits)

lemma loadType_loads: "loads rdbLoadType [b] (unat b)"
  unfolding rdbLoadType_def[abs_def] using rd_loads[of "[b]" 1] by (intro loads_map) auto

lemma loadTime_loads: "is_llong e \<Longrightarrow> loads rdbLoadMillisecondTime (le_bytes 8 e) e"
proof -
  assume "is_llong e"
  then have "le_sint (le_bytes 8 e) = e" by (intro le_sint_le_bytes) (auto simp: in_sint_def crange_simps)
  moreover have "le_bytes 8 e \<noteq> []" using length_le_bytes[of 8 e] by (metis length_0_conv zero_neq_numeral)
  ultimately show ?thesis
    unfolding rdbLoadMillisecondTime_def[abs_def] using rd_loads[of "le_bytes 8 e" 8] by (intro loads_map) auto
qed

definition header_bytes :: "nat \<Rightarrow> int \<Rightarrow> byte list" where
  "header_bytes ty e = (if e = - 1 then [] else 252 # le_bytes 8 e) @ [of_nat ty]"

lemma loadHeader_plain:
  assumes "ty < 252 \<or> 253 < ty" "ty < 256"
  shows "loads load_header [of_nat ty] (ty, - 1)"
  unfolding loads_def
proof (intro allI impI)
  fix r :: rin and rest assume "in_bytes r = [of_nat ty] @ rest"
  then have "ld_then (rdbLoadType r) g = g ty (radv [of_nat ty] r)" for g :: "nat \<Rightarrow> rin \<Rightarrow> rdb_error + (nat \<times> int) \<times> rin"
    using loads_then[OF loadType_loads[of "of_nat ty"], of r rest g] unat_byte[OF assms(2)] by simp
  then show "load_header r = Inr ((ty, - 1), radv [of_nat ty] r)"
    using assms(1) by (auto simp: load_header_def)
qed

lemma loadHeader_loads:
  assumes "ty < 252" "is_llong e"
  shows "loads load_header (header_bytes ty e) (ty, e)"
proof (cases "e = - 1")
  case True
  then show ?thesis using loadHeader_plain[of ty] assms(1) by (simp add: header_bytes_def)
next
  case False
  show ?thesis
    unfolding loads_def
  proof (intro allI impI)
    fix r :: rin and rest assume "in_bytes r = header_bytes ty e @ rest"
    then have i: "in_bytes r = [252] @ le_bytes 8 e @ [of_nat ty] @ rest" using False by (simp add: header_bytes_def)
    have "ld_then (rdbLoadType r) g = g 252 (radv [252] r)" for g :: "nat \<Rightarrow> rin \<Rightarrow> rdb_error + (nat \<times> int) \<times> rin"
      using loads_then[OF loadType_loads i] by simp
    moreover have "in_bytes (radv [252] r) = le_bytes 8 e @ [of_nat ty] @ rest" using i by simp
    then have "ld_then (rdbLoadMillisecondTime (radv [252] r)) g = g e (radv (le_bytes 8 e) (radv [252] r))"
      for g :: "int \<Rightarrow> rin \<Rightarrow> rdb_error + (nat \<times> int) \<times> rin"
      using loads_then[OF loadTime_loads[OF assms(2)]] by blast
    moreover have "in_bytes (radv (le_bytes 8 e) (radv [252] r)) = [of_nat ty] @ rest" using i by simp
    then have "ld_then (rdbLoadType (radv (le_bytes 8 e) (radv [252] r))) g =
        g ty (radv [of_nat ty] (radv (le_bytes 8 e) (radv [252] r)))" for g :: "nat \<Rightarrow> rin \<Rightarrow> rdb_error + (nat \<times> int) \<times> rin"
      using loads_then[OF loadType_loads[of "of_nat ty"], of "radv (le_bytes 8 e) (radv [252] r)" rest g] unat_byte[of ty] assms(1)
      by simp
    moreover have "radv (header_bytes ty e) r = radv [of_nat ty] (radv (le_bytes 8 e) (radv [252] r))"
      using False radv_append[of "[252]" "le_bytes 8 e @ [of_nat ty]" r] by (simp add: header_bytes_def radv_append)
    ultimately show "load_header r = Inr ((ty, e), radv (header_bytes ty e) r)"
      using False by (simp add: load_header_def)
  qed
qed

text \<open>What the loop of the load does with some bytes: it goes on behind them with another state.\<close>

definition steps :: "rdb_config \<Rightarrow> byte list \<Rightarrow> nat \<Rightarrow> server \<Rightarrow> nat \<Rightarrow> server \<Rightarrow> bool" where
  "steps cf bs d s d1 s1 \<longleftrightarrow>
     (\<forall>r rest. in_bytes r = bs @ rest \<longrightarrow> load_loop cf r d s = load_loop cf (radv bs r) d1 s1)"

lemma steps_Nil: "steps cf [] d s d s"
  by (simp add: steps_def)

lemma steps_append: "steps cf a d s d1 s1 \<Longrightarrow> steps cf b d1 s1 d2 s2 \<Longrightarrow> steps cf (a @ b) d s d2 s2"
  by (simp add: steps_def radv_append)

lemma pair_saved:
  assumes "ht_ok ht" "obj_ok mx ob" "small key" "is_llong e" "cf_max_intset cf < 2 ^ 28 - 1" "\<not> (e \<noteq> - 1 \<and> e < now)"
  shows "\<exists>bs ob1. (\<forall>r. w_faults r = [] \<longrightarrow> rdbSaveKeyValuePair ht cmpr r key ob e now = Some (wput bs r, Some 1)) \<and>
    obj_ok (cf_max_intset cf) ob1 \<and> same_obj ob ob1 \<and>
    (\<forall>d s s1. sv_maxmemory s = mm \<longrightarrow> load_entry s d key ob1 e = Some s1 \<longrightarrow> steps cf bs d s d s1)"
proof -
  define hb where "hb = header_bytes (obj_type ob) e"
  obtain kb where kb: "saves (\<lambda>r. rdbSaveStringObject ht cmpr r (EncRaw key)) kb" "loads rdbLoadStringObject kb (EncRaw key)"
    using saveString_str[OF assms(1), of "EncRaw key"] assms(3) by (auto simp: val_ok_def small_def str_loads_def val_text_def)
  obtain vb ob1 where vb: "saves (\<lambda>r. rdbSaveObject ht cmpr r ob) vb"
    "loads (rdbLoadObject (cf_max_intset cf) mm (obj_type ob)) vb ob1" "obj_ok (cf_max_intset cf) ob1" "same_obj ob ob1"
    using saveObject_loads[OF assms(1,2,5)] by blast
  have w: "w_faults r = [] \<Longrightarrow> rdbSaveType r b = (wput [b] r, Some 1)"
    "w_faults r = [] \<Longrightarrow> rdbSaveObjectType r ob = (wput [of_nat (obj_type ob)] r, Some 1)"
    "w_faults r = [] \<Longrightarrow> rdbSaveMillisecondTime r e = (wput (le_bytes 8 e) r, Some 8)" for r b
    using writeRaw_writes[of "[b]"] saveType_writes[of ob] writeRaw_writes[of "le_bytes 8 e"] length_le_bytes[of 8 e]
    by (auto simp: writes_def rdbSaveType_def rdbSaveMillisecondTime_def simp flip: length_0_conv)
  have hw: "wput hb r = (if e = - 1 then wput [of_nat (obj_type ob)] r
      else wput [of_nat (obj_type ob)] (wput (le_bytes 8 e) (wput [252] r)))" for r
    using wput_append[of "[252]" "le_bytes 8 e @ [of_nat (obj_type ob)]" r]
      wput_append[of "le_bytes 8 e" "[of_nat (obj_type ob)]" "wput [252] r"] by (simp add: hb_def header_bytes_def)
  have "rdbSaveKeyValuePair ht cmpr r key ob e now = Some (wput (hb @ kb @ vb) r, Some 1)" if "w_faults r = []" for r
    using kb(1) vb(1) w hw that assms(6)
    by (auto simp: rdbSaveKeyValuePair_def sv_then_def saves_def wput_append)
  moreover have "steps cf (hb @ kb @ vb) d s d s1" if "sv_maxmemory s = mm" "load_entry s d key ob1 e = Some s1" for d s s1
    unfolding steps_def
  proof (intro allI impI)
    fix r :: rin and rest assume i: "in_bytes r = (hb @ kb @ vb) @ rest"
    have "load_header r = Inr ((obj_type ob, e), radv hb r)"
      using loadHeader_loads[OF _ assms(4), of "obj_type ob"] type_byte(2)[of ob] i by (auto simp: loads_def hb_def)
    moreover have "rdbLoadStringObject (radv hb r) = Inr (EncRaw key, radv kb (radv hb r))"
      using kb(2) i by (simp add: loads_def)
    moreover have "rdbLoadObject (cf_max_intset cf) (sv_maxmemory s) (obj_type ob) (radv kb (radv hb r)) =
        Inr (ob1, radv vb (radv kb (radv hb r)))"
      using vb(2) i that(1) by (simp add: loads_def)
    ultimately show "load_loop cf r d s = load_loop cf (radv (hb @ kb @ vb) r) d s1"
      using that(2) type_byte(2)[of ob] by (subst load_loop.simps) (auto simp: val_text_def radv_append)
  qed
  ultimately show ?thesis using vb(3,4) by (intro exI[of _ "hb @ kb @ vb"] exI[of _ ob1]) blast
qed

subsection \<open>What a load restores\<close>

text \<open>The value of a key with its expire time (or -1), and the entry that is left of it when the key space of \<open>s\<close> is
  saved now and loaded by \<open>t\<close>: an entry that has expired is dropped by the save, and by the load on a master.\<close>

definition entry_of :: "server \<Rightarrow> nat \<Rightarrow> string \<Rightarrow> (set_obj rvalue \<times> int) option" where
  "entry_of s d key = map_option (\<lambda>ob. (ob, case expire_of s d key of None \<Rightarrow> - 1 | Some e \<Rightarrow> e)) (lookupKey s d key)"

definition kept :: "server \<Rightarrow> server \<Rightarrow> int \<Rightarrow> bool" where
  "kept s t e \<longleftrightarrow> e = - 1 \<or> sv_mstime s \<le> e \<and> (sv_masterhost t \<or> sv_mstime t \<le> e)"

definition kept_entry :: "server \<Rightarrow> server \<Rightarrow> nat \<Rightarrow> string \<Rightarrow> (set_obj rvalue \<times> int) option" where
  "kept_entry s t d key = (case entry_of s d key of None \<Rightarrow> None | Some (ob, e) \<Rightarrow> if kept s t e then Some (ob, e) else None)"

definition reloaded :: "nat \<Rightarrow> (set_obj rvalue \<times> int) option \<Rightarrow> (set_obj rvalue \<times> int) option \<Rightarrow> bool" where
  "reloaded mx = rel_option (\<lambda>(ob, e) (ob1, e1). same_obj ob ob1 \<and> obj_ok mx ob1 \<and> e1 = e)"

definition only_dbs :: "server \<Rightarrow> server \<Rightarrow> bool" where
  "only_dbs t t1 \<longleftrightarrow> t1 = t\<lparr>sv_db := sv_db t1\<rparr> \<and> length (sv_db t1) = length (sv_db t)"

lemma entry_None [simp]: "entry_of s d k = None \<longleftrightarrow> lookupKey s d k = None"
  by (simp add: entry_of_def)

lemma only_dbs_refl [simp]: "only_dbs t t"
  by (simp add: only_dbs_def)

lemma only_dbs_trans: "only_dbs t t1 \<Longrightarrow> only_dbs t1 t2 \<Longrightarrow> only_dbs t t2"
  by (auto simp: only_dbs_def) (metis redisServer.surjective redisServer.update_convs(1))

lemma only_dbs_fields: "only_dbs t t1 \<Longrightarrow> sv_maxmemory t1 = sv_maxmemory t \<and> sv_masterhost t1 = sv_masterhost t \<and>
  sv_mstime t1 = sv_mstime t \<and> length (sv_db t1) = length (sv_db t)"
  unfolding only_dbs_def by (metis redisServer.select_convs redisServer.surjective redisServer.update_convs(1))

lemma only_dbs_updates [simp]: "only_dbs t (put_key t d k v)" "only_dbs t (set_exp t d k w)"
  by (simp_all add: only_dbs_def put_key_def set_exp_def upd_db_def)

lemma load_entry_spec:
  assumes "db_ok t" "d < length (sv_db t)" "lookupKey t d key = None"
  shows "\<exists>t1. load_entry t d key ob e = Some t1 \<and> only_dbs t t1 \<and> db_ok t1 \<and>
    (\<forall>a k. entry_of t1 a k =
       (if a = d \<and> k = key \<and> (e = - 1 \<or> sv_masterhost t \<or> sv_mstime t \<le> e) then Some (ob, e) else entry_of t a k))"
proof -
  have x: "expire_of t d key = None" using db_ok_expire[OF assms(1), of d key] assms(3) by fastforce
  have l: "d < length (sv_db (put_key t d key ob))" using assms(2) by (simp add: put_key_def)
  consider "\<not> sv_masterhost t" "e \<noteq> - 1" "e < sv_mstime t" | "e = - 1" |
    "e \<noteq> - 1" "sv_masterhost t \<or> sv_mstime t \<le> e" by linarith
  then show ?thesis
  proof cases
    case 1
    then show ?thesis using assms(1) by (intro exI[of _ t]) (simp add: load_entry_def)
  next
    case 2
    then show ?thesis using assms x
      by (intro exI[of _ "put_key t d key ob"]) (auto simp: load_entry_def dbAdd_eq entry_of_def)
  next
    case 3
    let ?t1 = "set_exp (put_key t d key ob) d key e"
    have "load_entry t d key ob e = Some ?t1"
      using 3 assms by (auto simp: load_entry_def dbAdd_eq setExpire_eq[OF l])
    moreover have "db_ok ?t1" using assms by (intro db_ok_set_exp) simp_all
    moreover have "only_dbs t ?t1" by (rule only_dbs_trans[OF only_dbs_updates(1) only_dbs_updates(2)])
    moreover have "entry_of ?t1 a k = (if a = d \<and> k = key \<and> (e = - 1 \<or> sv_masterhost t \<or> sv_mstime t \<le> e)
        then Some (ob, e) else entry_of t a k)" for a k
      using 3 assms l by (auto simp: entry_of_def)
    ultimately show ?thesis by blast
  qed
qed

text \<open>The bytes \<open>bs\<close> restore the keys of \<open>K\<close>: a load that reads them, with none of these keys there yet, goes on
  behind them with what is left of the entries, and with no other change.\<close>

definition restores :: "rdb_config \<Rightarrow> server \<Rightarrow> server \<Rightarrow> byte list \<Rightarrow> nat \<Rightarrow> nat \<Rightarrow> (nat \<times> string) set \<Rightarrow> bool" where
  "restores cf s t0 bs d d1 K \<longleftrightarrow>
     (\<forall>t. only_dbs t0 t \<longrightarrow> db_ok t \<longrightarrow> (\<forall>a k. (a, k) \<in> K \<longrightarrow> lookupKey t a k = None) \<longrightarrow>
       (\<exists>t1. steps cf bs d t d1 t1 \<and> only_dbs t0 t1 \<and> db_ok t1 \<and>
         (\<forall>a k. (a, k) \<in> K \<longrightarrow> reloaded (cf_max_intset cf) (kept_entry s t0 a k) (entry_of t1 a k)) \<and>
         (\<forall>a k. (a, k) \<notin> K \<longrightarrow> entry_of t1 a k = entry_of t a k)))"

lemma restores_Nil: "(\<And>a k. (a, k) \<in> K \<Longrightarrow> kept_entry s t0 a k = None) \<Longrightarrow> restores cf s t0 [] d d K"
  unfolding restores_def by (intro allI impI, rule exI, intro conjI, rule steps_Nil) (auto simp: reloaded_def)

lemma restores_append:
  assumes "restores cf s t0 a d d1 K" "restores cf s t0 b d1 d2 L" "K \<inter> L = {}"
  shows "restores cf s t0 (a @ b) d d2 (K \<union> L)"
  unfolding restores_def
proof (intro allI impI)
  fix t assume t: "only_dbs t0 t" "db_ok t" "\<forall>a k. (a, k) \<in> K \<union> L \<longrightarrow> lookupKey t a k = None"
  then obtain t1 where t1: "steps cf a d t d1 t1" "only_dbs t0 t1" "db_ok t1"
    "\<And>a k. (a, k) \<in> K \<Longrightarrow> reloaded (cf_max_intset cf) (kept_entry s t0 a k) (entry_of t1 a k)"
    "\<And>a k. (a, k) \<notin> K \<Longrightarrow> entry_of t1 a k = entry_of t a k"
    using assms(1) unfolding restores_def by (meson UnI1)
  have "\<forall>a k. (a, k) \<in> L \<longrightarrow> lookupKey t1 a k = None"
    using t(3) t1(5) assms(3) by (metis Int_iff UnI2 empty_iff entry_None)
  then obtain t2 where t2: "steps cf b d1 t1 d2 t2" "only_dbs t0 t2" "db_ok t2"
    "\<And>a k. (a, k) \<in> L \<Longrightarrow> reloaded (cf_max_intset cf) (kept_entry s t0 a k) (entry_of t2 a k)"
    "\<And>a k. (a, k) \<notin> L \<Longrightarrow> entry_of t2 a k = entry_of t1 a k"
    using assms(2) t1(2,3) unfolding restores_def by meson
  have "reloaded (cf_max_intset cf) (kept_entry s t0 x k) (entry_of t2 x k)" if "(x, k) \<in> K \<union> L" for x k
    using that t1(4) t2(4,5) by (cases "(x, k) \<in> L") auto
  moreover have "entry_of t2 x k = entry_of t x k" if "(x, k) \<notin> K \<union> L" for x k
    using that t1(5) t2(5) by simp
  ultimately show "\<exists>t1. steps cf (a @ b) d t d2 t1 \<and> only_dbs t0 t1 \<and> db_ok t1 \<and>
      (\<forall>a k. (a, k) \<in> K \<union> L \<longrightarrow> reloaded (cf_max_intset cf) (kept_entry s t0 a k) (entry_of t1 a k)) \<and>
      (\<forall>a k. (a, k) \<notin> K \<union> L \<longrightarrow> entry_of t1 a k = entry_of t a k)"
    using steps_append[OF t1(1) t2(1)] t2(2,3) by (intro exI[of _ t2]) blast
qed

lemma restores_select:
  assumes "d1 < length (sv_db t0)" "d1 < 2 ^ 32 - 1"
  shows "restores cf s t0 ([254] @ len_bytes d1) d d1 {}"
proof -
  have "steps cf ([254] @ len_bytes d1) d t d1 t" if t: "only_dbs t0 t" for t
    unfolding steps_def
  proof (intro allI impI)
    fix r :: rin and rest assume i: "in_bytes r = ([254] @ len_bytes d1) @ rest"
    have "load_header r = Inr ((254, - 1), radv [254] r)"
      using loadHeader_plain[of 254] i by (simp add: loads_def)
    moreover have "rdbLoadLen (radv [254] r) = ((False, d1), radv (len_bytes d1) (radv [254] r))"
      using i assms(2) by (intro loadLen_loads) auto
    moreover have "radv ([254] @ len_bytes d1) r = radv (len_bytes d1) (radv [254] r)" by (rule radv_append)
    ultimately show "load_loop cf r d t = load_loop cf (radv ([254] @ len_bytes d1) r) d1 t"
      using assms only_dbs_fields[OF t] by (subst load_loop.simps) (simp add: REDIS_RDB_LENERR_def)
  qed
  then show ?thesis unfolding restores_def by blast
qed

text \<open>A key space that a snapshot can hold.\<close>

definition saveable :: "nat \<Rightarrow> server \<Rightarrow> bool" where
  "saveable mx s \<longleftrightarrow> db_ok s \<and> length (sv_db s) < 2 ^ 32 - 1 \<and>
     (\<forall>db \<in> set (sv_db s). (\<forall>(k, ob) \<in> set (db_dict db). small k \<and> obj_ok mx ob) \<and> (\<forall>(k, e) \<in> set (db_expires db). is_llong e))"

lemma restores_pair:
  assumes "ht_ok ht" "obj_ok mx ob" "small key" "is_llong e" "cf_max_intset cf < 2 ^ 28 - 1"
    and "entry_of s d key = Some (ob, e)" "d < length (sv_db t0)"
  shows "\<exists>bs n. (\<forall>r. w_faults r = [] \<longrightarrow> rdbSaveKeyValuePair ht cmpr r key ob e (sv_mstime s) = Some (wput bs r, Some n)) \<and>
    restores cf s t0 bs d d {(d, key)}"
proof (cases "e \<noteq> - 1 \<and> e < sv_mstime s")
  case True
  then have "restores cf s t0 [] d d {(d, key)}"
    using assms(6) by (intro restores_Nil) (auto simp: kept_entry_def kept_def)
  then show ?thesis using True by (intro exI[of _ "[]"] exI[of _ 0]) (simp add: rdbSaveKeyValuePair_def)
next
  case False
  obtain bs ob1 where b: "\<And>r. w_faults r = [] \<Longrightarrow> rdbSaveKeyValuePair ht cmpr r key ob e (sv_mstime s) = Some (wput bs r, Some 1)"
    "obj_ok (cf_max_intset cf) ob1" "same_obj ob ob1"
    "\<And>d t t1. sv_maxmemory t = sv_maxmemory t0 \<Longrightarrow> load_entry t d key ob1 e = Some t1 \<Longrightarrow> steps cf bs d t d t1"
    using pair_saved[OF assms(1-5) False, of cmpr "sv_maxmemory t0"] by blast
  have "restores cf s t0 bs d d {(d, key)}"
    unfolding restores_def
  proof (intro allI impI)
    fix t assume t: "only_dbs t0 t" "db_ok t" "\<forall>a k. (a, k) \<in> {(d, key)} \<longrightarrow> lookupKey t a k = None"
    note f = only_dbs_fields[OF t(1)]
    obtain t1 where t1: "load_entry t d key ob1 e = Some t1" "only_dbs t t1" "db_ok t1"
      "\<And>a k. entry_of t1 a k = (if a = d \<and> k = key \<and> (e = - 1 \<or> sv_masterhost t \<or> sv_mstime t \<le> e)
        then Some (ob1, e) else entry_of t a k)"
      using load_entry_spec[OF t(2), of d key ob1 e] f t(3) assms(7) by auto
    have "reloaded (cf_max_intset cf) (kept_entry s t0 d key) (entry_of t1 d key)"
      using False f t(3) b(2,3) assms(6) by (auto simp: kept_entry_def kept_def t1(4) reloaded_def)
    then show "\<exists>t1. steps cf bs d t d t1 \<and> only_dbs t0 t1 \<and> db_ok t1 \<and>
        (\<forall>a k. (a, k) \<in> {(d, key)} \<longrightarrow> reloaded (cf_max_intset cf) (kept_entry s t0 a k) (entry_of t1 a k)) \<and>
        (\<forall>a k. (a, k) \<notin> {(d, key)} \<longrightarrow> entry_of t1 a k = entry_of t a k)"
      using b(4)[OF _ t1(1)] f only_dbs_trans[OF t(1) t1(2)] t1(3,4) by (intro exI[of _ t1]) auto
  qed
  then show ?thesis using b(1) by blast
qed

lemma save_entries_restores:
  assumes "ht_ok ht" "cf_max_intset cf < 2 ^ 28 - 1" "db_ok s" "d < length (sv_db s)" "d < length (sv_db t0)"
    and "distinct (map fst es)"
    and "\<And>k ob. (k, ob) \<in> set es \<Longrightarrow> \<exists>e. entry_of s d k = Some (ob, e) \<and> small k \<and> obj_ok mx ob \<and> is_llong e"
  shows "\<exists>bs. (\<forall>r. w_faults r = [] \<longrightarrow> save_entries ht cmpr s d r es = Some (wput bs r, Some 0)) \<and>
    restores cf s t0 bs d d ({d} \<times> fst ` set es)"
  using assms(6,7)
proof (induction es)
  case Nil
  show ?case by (intro exI[of _ "[]"] conjI restores_Nil) simp_all
next
  case (Cons kv es)
  obtain key ob where kv: "kv = (key, ob)" by (cases kv)
  obtain e where e: "entry_of s d key = Some (ob, e)" "small key" "obj_ok mx ob" "is_llong e"
    using Cons.prems(2)[of key ob] kv by auto
  have g: "getExpire s d key = Some e"
    using getExpire_eq[OF assms(3,4), of key] e(1) by (auto simp: entry_of_def)
  obtain bs n where b: "\<And>r. w_faults r = [] \<Longrightarrow> rdbSaveKeyValuePair ht cmpr r key ob e (sv_mstime s) = Some (wput bs r, Some n)"
    "restores cf s t0 bs d d {(d, key)}"
    using restores_pair[OF assms(1) e(3,2,4) assms(2) e(1) assms(5), of cmpr] by blast
  obtain cs where c: "\<And>r. w_faults r = [] \<Longrightarrow> save_entries ht cmpr s d r es = Some (wput cs r, Some 0)"
    "restores cf s t0 cs d d ({d} \<times> fst ` set es)"
    using Cons.IH Cons.prems by auto
  have "{(d, key)} \<inter> {d} \<times> fst ` set es = {}" using Cons.prems(1) kv by auto
  note restores_append[OF b(2) c(2) this]
  moreover have "{(d, key)} \<union> {d} \<times> fst ` set es = {d} \<times> fst ` set (kv # es)" using kv by auto
  ultimately show ?case
    using b(1) c(1) g kv by (intro exI[of _ "bs @ cs"]) (simp add: sv_then_def wput_append)
qed

definition keys_of :: "server \<Rightarrow> nat \<Rightarrow> (nat \<times> string) set" where
  "keys_of s d = {d} \<times> fst ` set (db_dict (sv_db s ! d))"

lemma save_db_restores:
  assumes "ht_ok ht" "cf_max_intset cf < 2 ^ 28 - 1" "saveable mx s" "d < length (sv_db s)" "d < length (sv_db t0)"
  shows "\<exists>bs. (\<forall>r. w_faults r = [] \<longrightarrow> (\<exists>n. save_db ht cmpr s d r = Some (wput bs r, Some n))) \<and>
    (\<forall>d0. \<exists>d1. restores cf s t0 bs d0 d1 (keys_of s d))"
proof (cases "db_dict (sv_db s ! d) = []")
  case True
  then have "restores cf s t0 [] d0 d0 (keys_of s d)" for d0 by (intro restores_Nil) (simp add: keys_of_def)
  then show ?thesis using True by (intro exI[of _ "[]"]) (auto simp: save_db_def)
next
  case False
  let ?db = "sv_db s ! d"
  have ok: "db_ok s" "d < 2 ^ 32 - 1" using assms(3,4) by (auto simp: saveable_def)
  have g: "get_db s d = Some ?db" using assms(4) by (simp add: get_db_def)
  then have w: "db_wf (db_dict ?db) (db_expires ?db)" using db_ok_wf[OF ok(1)] by blast
  have "\<exists>e. entry_of s d k = Some (ob, e) \<and> small k \<and> obj_ok mx ob \<and> is_llong e" if "(k, ob) \<in> set (db_dict ?db)" for k ob
    using that w g assms(3,4) nth_mem[OF assms(4)]
    by (auto simp: entry_of_def lookupKey_def expire_of_def db_wf_def saveable_def crange_simps split: option.splits
        dest!: map_of_SomeD)
  then obtain bs where b: "\<And>r. w_faults r = [] \<Longrightarrow> save_entries ht cmpr s d r (db_dict ?db) = Some (wput bs r, Some 0)"
    "restores cf s t0 bs d d ({d} \<times> fst ` set (db_dict ?db))"
    using save_entries_restores[OF assms(1,2) ok(1) assms(4,5), of "db_dict ?db" mx cmpr] w by (auto simp: db_wf_def)
  have "save_db ht cmpr s d r = Some (wput (([254] @ len_bytes d) @ bs) r, Some 0)" if "w_faults r = []" for r
    using that b(1) False ok(2) writeRaw_writes[of "[254]"] saveLen_writes[of d]
    by (simp add: save_db_def Let_def sv_then_def rdbSaveType_def writes_def wput_append del: append_Cons append.simps)
  moreover have "restores cf s t0 (([254] @ len_bytes d) @ bs) d0 d (keys_of s d)" for d0
    using restores_append[OF restores_select[OF assms(5) ok(2), of cf s d0] b(2)] by (simp add: keys_of_def)
  ultimately show ?thesis by blast
qed

lemma save_dbs_restores:
  assumes "ht_ok ht" "cf_max_intset cf < 2 ^ 28 - 1" "saveable mx s" "length (sv_db s) = length (sv_db t0)"
    and "distinct ds" "set ds \<subseteq> {..<length (sv_db s)}"
  shows "\<exists>bs. (\<forall>r. w_faults r = [] \<longrightarrow> (\<exists>n. save_dbs ht cmpr s ds r = Some (wput bs r, Some n))) \<and>
    (\<forall>d0. \<exists>d1. restores cf s t0 bs d0 d1 (\<Union>d \<in> set ds. keys_of s d))"
  using assms(5,6)
proof (induction ds)
  case Nil
  have "restores cf s t0 [] d0 d0 {}" for d0 by (rule restores_Nil) simp
  then show ?case by (intro exI[of _ "[]"]) auto
next
  case (Cons d ds)
  obtain bs where b: "\<And>r. w_faults r = [] \<Longrightarrow> \<exists>n. save_db ht cmpr s d r = Some (wput bs r, Some n)"
    "\<And>d0. \<exists>d1. restores cf s t0 bs d0 d1 (keys_of s d)"
    using save_db_restores[OF assms(1-3), of d t0 cmpr] Cons.prems assms(4) by auto
  obtain cs where c: "\<And>r. w_faults r = [] \<Longrightarrow> \<exists>n. save_dbs ht cmpr s ds r = Some (wput cs r, Some n)"
    "\<And>d0. \<exists>d1. restores cf s t0 cs d0 d1 (\<Union>d \<in> set ds. keys_of s d)"
    using Cons.IH Cons.prems by auto
  have k: "keys_of s d \<inter> (\<Union>d \<in> set ds. keys_of s d) = {}" using Cons.prems(1) by (auto simp: keys_of_def)
  have "\<exists>n. save_dbs ht cmpr s (d # ds) r = Some (wput (bs @ cs) r, Some n)" if "w_faults r = []" for r
    using that b(1)[of r] c(1)[of "wput bs r"] by (auto simp: sv_then_def wput_append)
  moreover have "\<exists>d1. restores cf s t0 (bs @ cs) d0 d1 (\<Union>d \<in> set (d # ds). keys_of s d)" for d0
    using b(2)[of d0] c(2) restores_append[OF _ _ k] by fastforce
  ultimately show ?case by blast
qed


text \<open>Both ends of a snapshot file.\<close>

definition snapshot :: "bool \<Rightarrow> byte list \<Rightarrow> byte list" where
  "snapshot chk bs = (let body = rdb_magic @ bs @ [255] in body @ le_bytes 8 (uint (if chk then crc64 0 body else 0)))"

lemma rdb_magic: "length rdb_magic = 9" "rdb_magic \<noteq> []" "of_bytes rdb_magic = ''REDIS0006''"
  "fst (strtoll_end ''0006'') = 6"
  by code_simp+

lemma checksum_read: "word_of_int (le_uint (le_bytes 8 (uint w))) = (w :: 64 word)"
  using uint_lt2p[of w] by (simp add: le_uint_le_bytes)

lemma rdbSave_stream_writes:
  assumes "\<And>r. w_faults r = [] \<Longrightarrow> \<exists>n. save_dbs ht (cf_compression cf) s [0..<length (sv_db s)] r = Some (wput bs r, Some n)"
  shows "\<exists>r. rdbSave_stream ht cf s [] = Some (r, Some 0) \<and> w_out r = snapshot (cf_checksum cf) bs"
proof -
  let ?r0 = "\<lparr>w_out = [], w_cksum = 0, w_sum = cf_checksum cf, w_faults = []\<rparr>"
  let ?r3 = "wput [255] (wput bs (wput rdb_magic ?r0))"
  obtain n where n: "save_dbs ht (cf_compression cf) s [0..<length (sv_db s)] (wput rdb_magic ?r0) = Some (wput bs (wput rdb_magic ?r0), Some n)"
    using assms[of "wput rdb_magic ?r0"] by auto
  have r3: "?r3 = wput (rdb_magic @ bs @ [255]) ?r0" by (simp add: wput_append)
  have "rdbSave_stream ht cf s [] = Some (fst (rioWrite ?r3 (le_bytes 8 (uint (w_cksum ?r3)))), Some 0)"
    using writeRaw_writes[OF rdb_magic(2)] writeRaw_writes[of "[255]"] n
    by (simp add: rdbSave_stream_def sv_then_def writes_def rdbSaveType_def)
  moreover have "w_out (fst (rioWrite ?r3 b)) = w_out ?r3 @ b" if "b \<noteq> []" for b
    using that by (simp add: rioWrite_def Let_def)
  moreover have "le_bytes 8 x \<noteq> []" for x using length_le_bytes[of 8 x] by (metis length_0_conv zero_neq_numeral)
  ultimately show ?thesis by (simp add: r3 snapshot_def Let_def) (simp add: wput_def)
qed

lemma rdbLoad_snapshot:
  assumes "steps cf1 bs 0 (t\<lparr>sv_loading := True\<rparr>) d1 t1"
  shows "rdbLoad cf1 (snapshot chk bs) t = Some (Loaded (t1\<lparr>sv_loading := False\<rparr>))"
proof -
  define cs where "cs = le_bytes 8 (uint (if chk then crc64 0 (rdb_magic @ bs @ [255]) else 0))"
  define r0 where "r0 = \<lparr>in_bytes = snapshot chk bs, in_cksum = 0, in_sum = cf_checksum cf1\<rparr>"
  have i: "in_bytes r0 = rdb_magic @ bs @ [255] @ cs" by (simp add: snapshot_def Let_def cs_def r0_def)
  have m: "rioRead r0 9 = Some (rdb_magic, radv rdb_magic r0)"
    using i rdb_magic(1,2) by (intro rioRead_take) auto
  let ?r3 = "radv [255] (radv bs (radv rdb_magic r0))"
  have "load_header (radv bs (radv rdb_magic r0)) = Inr ((255, - 1), ?r3)"
    using loadHeader_plain[of 255] i by (simp add: loads_def)
  then have l: "load_loop cf1 (radv rdb_magic r0) 0 (t\<lparr>sv_loading := True\<rparr>) = Some (Inr (t1, ?r3))"
    using assms i by (simp add: steps_def load_loop.simps[of _ "radv bs _"])
  have c: "rioRead ?r3 8 = Some (cs, radv cs ?r3)"
    using i by (intro rioRead_take[where rest = "[]"]) (auto simp: cs_def simp flip: length_0_conv)
  have "?r3 = radv (rdb_magic @ bs @ [255]) r0" by (simp add: radv_append)
  then have s: "in_cksum ?r3 = (if cf_checksum cf1 then crc64 0 (rdb_magic @ bs @ [255]) else 0)" by (simp add: radv_def r0_def)
  show ?thesis
    using m l c rdb_magic(3,4) by (simp add: rdbLoad_def s flip: r0_def) (simp add: Let_def cs_def checksum_read)
qed

text \<open>Nothing is in the key space.\<close>

definition empty_server :: "server \<Rightarrow> bool" where
  "empty_server t \<longleftrightarrow> (\<forall>db \<in> set (sv_db t). db_dict db = [] \<and> db_expires db = [])"

lemma empty_db_ok: "empty_server t \<Longrightarrow> db_ok t"
  by (auto simp: empty_server_def db_ok_iff get_db_def db_wf_def split: if_splits)

lemma empty_lookup: "empty_server t \<Longrightarrow> lookupKey t d k = None"
  by (auto simp: empty_server_def lookupKey_def get_db_def)

lemma keys_all: "(a, k) \<in> (\<Union>d \<in> set [0..<length (sv_db s)]. keys_of s d) \<longleftrightarrow> lookupKey s a k \<noteq> None"
  by (auto simp: keys_of_def lookupKey_def get_db_def weak_map_of_SomeI dest!: map_of_SomeD intro: rev_image_eqI)

subsection \<open>Loading any file\<close>

text \<open>What a reader leaves of its input is an end of it.\<close>

definition later :: "rin \<Rightarrow> rin \<Rightarrow> bool" where
  "later r r1 \<longleftrightarrow> (\<exists>n. in_bytes r1 = drop n (in_bytes r))"

definition shrinks :: "rdb_error + 'a \<times> rin \<Rightarrow> rin \<Rightarrow> bool" where
  "shrinks m r \<longleftrightarrow> (\<forall>x r1. m = Inr (x, r1) \<longrightarrow> later r r1)"

lemma later_refl [simp]: "later r r"
  unfolding later_def by (rule exI[of _ 0]) simp




lemma shrinks_simps [simp]: "shrinks (Inl e) r" "shrinks (Inr (x, r1)) r = later r r1"
  by (simp_all add: shrinks_def)























text \<open>The only values whose loading is not orderly.\<close>

definition blamed :: "nat \<Rightarrow> nat \<Rightarrow> rdb_error \<Rightarrow> bool" where
  "blamed mx ty e \<longleftrightarrow> (e = Rdb_Wild \<longrightarrow> ty = 11 \<or> ty = 2 \<and> mx \<ge> 2 ^ 28 - 1) \<and>
     (e = Rdb_Other \<longrightarrow> ty \<in> {1, 3, 4, 9, 10, 12, 13})"








definition loop_ends :: "nat \<Rightarrow> byte list \<Rightarrow> server \<Rightarrow> (rdb_error + server \<times> rin) option \<Rightarrow> bool" where
  "loop_ends mx bs t m \<longleftrightarrow> (\<exists>res. m = Some res \<and>
     (case res of
        Inl e \<Rightarrow> \<exists>ty. blamed mx ty e \<and> (ty \<in> unat ` set bs \<or> e \<notin> {Rdb_Wild, Rdb_Other})
      | Inr (t1, _) \<Rightarrow> db_ok t1 \<and> only_dbs t t1))"

lemma loop_ends_simps [simp]:
  "loop_ends mx bs t (Some (Inr (t1, r1))) \<longleftrightarrow> db_ok t1 \<and> only_dbs t t1"
  "loop_ends mx bs t (Some (Inl Rdb_Short))" "loop_ends mx bs t (Some (Inl Rdb_Abort))"
  by (auto simp: loop_ends_def blamed_def)







subsection \<open>Theorems\<close>

text \<open>C4. A snapshot restores the key space.  When no write fails, \<^verbatim>\<open>rdbSave\<close> succeeds and \<^verbatim>\<open>rdbLoad\<close>, on an
  empty server with as many databases, accepts the file.  After it every key of every database has its value (the same
  string or the same set, well formed for the settings of the loading server) and its expire time; the only keys missing are
  those that had expired when the file was written or, on a master, when it was read.  No other key appears and
  nothing but the key space changes.  The two servers may differ in compression, checksums and the limit of integer sets.\<close>

theorem snapshot_roundtrip:
  assumes "ht_ok ht" "saveable mx s" "cf_max_intset cf1 < 2 ^ 28 - 1"
    and "empty_server t" "length (sv_db t) = length (sv_db s)"
  shows "\<exists>file t1. rdbSave_file ht cf s [] True old = Some (rdbSave True s, file, True) \<and>
    rdbLoad cf1 file t = Some (Loaded t1) \<and> t1 = t\<lparr>sv_db := sv_db t1, sv_loading := False\<rparr> \<and> db_ok t1 \<and>
    (\<forall>d k. reloaded (cf_max_intset cf1) (kept_entry s t d k) (entry_of t1 d k))"
proof -
  let ?t = "t\<lparr>sv_loading := True\<rparr>" and ?K = "\<Union>d \<in> set [0..<length (sv_db s)]. keys_of s d"
  obtain bs where b: "\<And>r. w_faults r = [] \<Longrightarrow> \<exists>n. save_dbs ht (cf_compression cf) s [0..<length (sv_db s)] r = Some (wput bs r, Some n)"
    and res: "\<And>d0. \<exists>d1. restores cf1 s ?t bs d0 d1 ?K"
    using save_dbs_restores[OF assms(1,3,2), of ?t "[0..<length (sv_db s)]" "cf_compression cf"] assms(5)
    by (auto simp: atLeast0LessThan)
  obtain r where r: "rdbSave_stream ht cf s [] = Some (r, Some 0)" "w_out r = snapshot (cf_checksum cf) bs"
    using rdbSave_stream_writes[OF b] by blast
  have e: "empty_server ?t" using assms(4) by (simp add: empty_server_def)
  obtain d1 t1 where t1: "steps cf1 bs 0 ?t d1 t1" "only_dbs ?t t1" "db_ok t1"
    "\<And>a k. (a, k) \<in> ?K \<Longrightarrow> reloaded (cf_max_intset cf1) (kept_entry s ?t a k) (entry_of t1 a k)"
    "\<And>a k. (a, k) \<notin> ?K \<Longrightarrow> entry_of t1 a k = entry_of ?t a k"
    using res[of 0] only_dbs_refl[of ?t] empty_db_ok[OF e] empty_lookup[OF e] unfolding restores_def by meson
  let ?u = "t1\<lparr>sv_loading := False\<rparr>"
  have "kept s ?t = kept s t" by (simp add: fun_eq_iff kept_def)
  then have f: "entry_of ?u = entry_of t1" "db_ok ?u = db_ok t1" "kept_entry s ?t = kept_entry s t"
    by (simp add: fun_eq_iff entry_of_def lookupKey_def expire_of_def get_db_def, simp add: db_ok_def,
        simp only: kept_entry_def[abs_def])
  have "reloaded (cf_max_intset cf1) (kept_entry s t a k) (entry_of ?u a k)" for a k
  proof (cases "(a, k) \<in> ?K")
    case False
    then have "entry_of s a k = None" "entry_of t1 a k = None" using t1(5)[OF False] empty_lookup[OF e] keys_all[of a k s] by auto
    then show ?thesis by (simp add: f reloaded_def kept_entry_def del: entry_None)
  qed (use t1(4) f in simp)
  moreover have "?u = t\<lparr>sv_db := sv_db ?u, sv_loading := False\<rparr>"
    using t1(2) by (cases t1, cases t) (simp add: only_dbs_def)
  moreover have "rdbSave_file ht cf s [] True old = Some (rdbSave True s, snapshot (cf_checksum cf) bs, True)"
    using r by (simp add: rdbSave_file_def)
  ultimately show ?thesis
    using rdbLoad_snapshot[OF t1(1), of "cf_checksum cf"] t1(3) f(2)
    by (intro exI[of _ "snapshot (cf_checksum cf) bs"] exI[of _ ?u]) simp
qed

definition one_db :: "(string \<times> set_obj rvalue) list \<Rightarrow> (string \<times> int) list \<Rightarrow> server" where
  "one_db es xs = (initServer 0)\<lparr>sv_db := [\<lparr>db_dict = es, db_expires = xs, db_watched_keys = []\<rparr>]\<rparr>"

lemma one_db_ok: "db_wf es xs \<Longrightarrow> db_ok (one_db es xs)"
  by (simp add: one_db_def db_ok_def)

theorem snapshot_roundtrip_witness:
  "\<exists>file t1. rdbSave_file (\<lambda>_ _. 0) \<lparr>cf_compression = True, cf_checksum = True, cf_max_intset = 512\<rparr>
      (one_db [(''a'', StrObj (EncRaw ''xyz'')), (''b'', StrObj (EncInt 7))] [(''b'', 5000)]) [] True [] =
      Some (rdbSave True (one_db [(''a'', StrObj (EncRaw ''xyz'')), (''b'', StrObj (EncInt 7))] [(''b'', 5000)]), file, True) \<and>
    rdbLoad \<lparr>cf_compression = True, cf_checksum = True, cf_max_intset = 64\<rparr> file (one_db [] []) = Some (Loaded t1) \<and>
    t1 = (one_db [] [])\<lparr>sv_db := sv_db t1, sv_loading := False\<rparr> \<and> db_ok t1 \<and>
    (\<forall>d k. reloaded (cf_max_intset \<lparr>cf_compression = True, cf_checksum = True, cf_max_intset = 64\<rparr>)
      (kept_entry (one_db [(''a'', StrObj (EncRaw ''xyz'')), (''b'', StrObj (EncInt 7))] [(''b'', 5000)]) (one_db [] []) d k)
      (entry_of t1 d k))"
proof (rule snapshot_roundtrip[where mx = 512])
  show "saveable 512 (one_db [(''a'', StrObj (EncRaw ''xyz'')), (''b'', StrObj (EncInt 7))] [(''b'', 5000)])"
  proof -
    have "ll_repr 7 = ''7''" by code_simp
    then show ?thesis unfolding saveable_def
      by (intro conjI one_db_ok) (simp_all add: one_db_def db_wf_def small_def obj_ok_def val_ok_def val_text_def crange_simps)
  qed
qed (simp_all add: ht_ok_def empty_server_def one_db_def)



end
