(* ===== verification/Spec2Isabelle.thy ===== *)
theory Spec2Isabelle
  imports Util Glob Intset Sds Adlist Dict Object Slowlog Server Multi Commands Option_Logic Pubsub Db Keyspace
    Dispatch Histories Protocol Protocol_Stream T_String T_String_Correct Wire Bits Bitops Output Output_Stream Crc64 Lzf
    Set_Type Rdb Rdb_File
begin

text \<open>
  \<^bold>\<open>A verification development for Redis 2.6.14\<close>

  The repository is a gallery web application that carries the sources of Redis 2.6.14 under
  \<^verbatim>\<open>redis-2.6.14/src\<close>; the development is about these, the C code of the repository.  Files named below are in
  that directory.

  \<^bold>\<open>The program.\<close>  The server is a single thread.  Bytes that a client sends are collected in a query buffer,
  parsed into commands (\<^verbatim>\<open>networking.c\<close>), looked up in the command table and refused, queued in a transaction
  or called (\<^verbatim>\<open>redis.c\<close>, \<^verbatim>\<open>multi.c\<close>).  A command works on the key space (\<^verbatim>\<open>db.c\<close>): databases that map keys to
  objects (\<^verbatim>\<open>object.c\<close>) and to expire times, with lists of the clients that watch a key.  Changes are fed to the
  append-only file and to the replicas; replies go to output buffers that the event loop writes to the socket.
  Beneath are the data structures: dynamic strings (\<^verbatim>\<open>sds.c\<close>), linked lists (\<^verbatim>\<open>adlist.c\<close>), hash tables
  (\<^verbatim>\<open>dict.c\<close>), packed sets of integers (\<^verbatim>\<open>intset.c\<close>) and number conversions (\<^verbatim>\<open>util.c\<close>).

  \<^bold>\<open>Conventions.\<close>  C integers are \<open>int\<close> or \<open>nat\<close> with every conversion that can change a value written out
  (\<open>to_signed\<close>, \<open>to_unsigned\<close>), or words where the code works on bits.  Memory blocks are lists; an access outside
  a block, a failed assertion and an abort are \<open>None\<close>, so a theorem with a result \<open>Some\<close> states the safety of the
  code too.  Names with a leading underscore have \<open>u_\<close> instead.  Allocation never fails (the allocator aborts the
  process) and the byte order is little-endian.

  \<^bold>\<open>Theories, from the bottom.\<close>
  \<^item> \<open>Prelude\<close>, \<open>CLib\<close>, \<open>Option_Logic\<close>: C integers, memory blocks, packed integers, the C library functions, and
    the rules \<open>ensures\<close> and \<open>returns\<close> about functions that may fail, with the collections \<open>mem_simps\<close>,
    \<open>crange_simps\<close>, \<open>ens\<close> and \<open>rets\<close>.
  \<^item> \<open>Util\<close>, \<open>Glob\<close> (\<^verbatim>\<open>util.c\<close>): conversions and the glob matcher.  \<^verbatim>\<open>string2ll\<close> accepts exactly what \<^verbatim>\<open>ll2string\<close>
    prints; the matcher agrees with a declarative semantics of patterns with classes and ranges, with and without
    case, unless the pattern can accept a NUL byte; a negated class runs past the string.
  \<^item> \<open>Intset\<close> (\<^verbatim>\<open>intset.c\<close>): the byte array with its upgrades.  The locale \<open>bounded_set\<close> states what a set of
    numbers promises and derives the effect of sequences of operations; \<open>iset\<close> interprets it.
  \<^item> \<open>Sds\<close> (\<^verbatim>\<open>sds.c\<close>): header and block; quoting and reading back, splitting and joining.
  \<^item> \<open>Adlist\<close> (\<^verbatim>\<open>adlist.c\<close>): nodes in a heap.  The locales \<open>push_queue\<close> and \<open>trimmed_queue\<close> are interpreted here
    (\<open>adq\<close>) and in \<open>Slowlog\<close> (\<open>slq\<close>, \<^verbatim>\<open>slowlog.c\<close>).
  \<^item> \<open>Dict\<close> (\<^verbatim>\<open>dict.c\<close>): two tables and incremental rehashing.  Rehashing keeps the map, iteration visits every
    entry once; the locale \<open>assoc_store\<close> (interpretation \<open>ds\<close>) is the contract of a map.
  \<^item> \<open>Object\<close> (\<^verbatim>\<open>object.c\<close>): string objects in two encodings; encoding keeps the text.
  \<^item> \<open>Server\<close> (\<^verbatim>\<open>redis.h\<close>, \<^verbatim>\<open>redis.c\<close>): the state of the server and its clients, \<^verbatim>\<open>call\<close> and propagation.
  \<^item> \<open>Commands\<close> (\<^verbatim>\<open>redis.c\<close>, \<^verbatim>\<open>db.c\<close>): the command table and the positions of keys.
  \<^item> \<open>Multi\<close> (\<^verbatim>\<open>multi.c\<close>): transactions and watches.  The locales \<open>tx_procs\<close>, \<open>log_procs\<close> and \<open>aof_procs\<close> are the
    contracts of command procedures that a transaction may call; \<open>runs\<close> is the sequence of their calls with what each
    logs, and \<open>tx_log\<close> where the \<^verbatim>\<open>MULTI\<close> stands in it.
  \<^item> \<open>Pubsub\<close> (\<^verbatim>\<open>pubsub.c\<close>): the locale \<open>subscription\<close> is interpreted for channels and patterns, subscribing and
    unsubscribing.
  \<^item> \<open>Db\<close>, \<open>Keyspace\<close> (\<^verbatim>\<open>db.c\<close>): lookups, changes, expires and the commands on keys, and what they do.
  \<^item> \<open>Dispatch\<close>, \<open>Histories\<close> (\<^verbatim>\<open>redis.c\<close>): \<^verbatim>\<open>processCommand\<close> and all histories of commands of several clients.  The
    locale \<open>redis_env\<close> collects what the dispatch needs of procedures that are parameters; \<open>modelled\<close>, \<open>modelled_log\<close>
    and \<open>modelled_aof\<close> interpret it, \<open>log_procs\<close> and \<open>aof_procs\<close> on the modelled commands.
  \<^item> \<open>Protocol\<close>, \<open>Protocol_Stream\<close> (\<^verbatim>\<open>networking.c\<close>, \<^verbatim>\<open>aof.c\<close>): the request parser; the locale
    \<open>request_handler\<close> (interpretation \<open>server\<close>) is what it relies on.  Any way of cutting encoded commands into
    reads gives the commands back.
  \<^item> \<open>T_String\<close>, \<open>T_String_Correct\<close> (\<^verbatim>\<open>t_string.c\<close>), \<open>Bits\<close>, \<open>Bitops\<close> (\<^verbatim>\<open>bitops.c\<close>): the commands on strings and
    bits, what they store and reply on every branch, and the fast paths against their bit by bit meaning.
  \<^item> \<open>Output\<close>, \<open>Output_Stream\<close> (\<^verbatim>\<open>networking.c\<close>): reply buffers as an implementation of a byte stream with holes.
  \<^item> \<open>Crc64\<close> (\<^verbatim>\<open>crc64.c\<close>): the table-driven checksum against the polynomial.
  \<^item> \<open>Lzf\<close> (\<^verbatim>\<open>lzf_c.c\<close>, \<^verbatim>\<open>lzf_d.c\<close>): compression over the format of literal runs and back references; the
    decompressor is safe on any input but the empty one and inverts the compressor.
  \<^item> \<open>Set_Type\<close> (\<^verbatim>\<open>t_set.c\<close>): set objects as intset or hash table, an implementation of sets of strings; the
    interpretation \<open>sets\<close> of \<open>bounded_set\<close> gives them the lemmas on sequences that the intset has.
  \<^item> \<open>Rdb\<close>, \<open>Rdb_File\<close> (\<^verbatim>\<open>rio.c\<close>, \<^verbatim>\<open>rdb.c\<close>): streams with a checksum and failing writes, the encodings of lengths,
    strings and sets, and whole snapshots: saving and loading the key space.  \<open>writes\<close>, \<open>saves\<close> and \<open>loads\<close> say which
    bytes an operation puts on a stream or takes from it, \<open>restores\<close> which keys a part of a file brings back; a snapshot
    brings back the key space, and a load ends for every file.  Values other than strings and sets are an outcome of
    the load that says so, and numbers of bytes are not cut to the 32 bits of the source (encodings below 2 GB).
  \<^item> \<open>Wire\<close>: bytes in, bytes out: the parser, the dispatch and the string commands together (interpretations
    \<open>strings\<close> and \<open>strings_aof\<close>).

  \<^bold>\<open>Loops.\<close>  Loops are structural or come with a termination proof.  Those that may not end are
  \<open>partial_function\<close>s, with theorems that they return (the trimming of the slow log, the positions of keys, the loading of a file,
  which reads a byte at least in every turn) or, on a replica whose keys have all expired, that \<^verbatim>\<open>dbRandomKey\<close> does not.  The write handler has fuel
  \<open>Suc (out_size c)\<close>, which is enough as every turn sends a byte or removes a node.

  \<^bold>\<open>Parameters.\<close>  The procedures of commands that are not modelled, the eviction of keys, the result of a
  synchronous save and the choices of the random number generator are arguments of the definitions, with
  contracts as locale assumptions where something relies on them.  What a socket delivers or accepts is a list of
  byte counts.

  \<^bold>\<open>Not modelled.\<close>  Sorted sets and floating point conversions (doubles); lists and hashes and the ziplist encoding
  they rest on; replication, Sentinel, the event loop and the background processes, which are about system
  calls; scripting, the bundled libraries and the command line tools, which are third-party or separate
  programs; reference counts, as values are not shared in the model.
\<close>

end
